(* ===== verification/Prelude.thy ===== *)
theory Prelude
  imports Main "HOL-Library.Multiset"
begin

text \<open>
  Shared vocabulary of the development: the faults a C++ operation of the runtime can end in
  (a failing assert, a dereferenced NULL pointer, an access to a deleted object, an index out of
  range), the result type of fallible operations, and generic facts on lists and results that
  several components use.
\<close>

section \<open>Faults and results\<close>

datatype fault = AssertFailed | NullDeref | UseAfterFree | OutOfRange

type_synonym 'a result = "fault + 'a"

definition bindE :: "'a result \<Rightarrow> ('a \<Rightarrow> 'b result) \<Rightarrow> 'b result" where
  "bindE r f = (case r of Inl e \<Rightarrow> Inl e | Inr a \<Rightarrow> f a)"

definition assertE :: "bool \<Rightarrow> 'a result \<Rightarrow> 'a result" where
  "assertE b r = (if b then r else Inl AssertFailed)"

named_theorems result_simps "unfolding the result monad"
named_theorems step_defs "definitions of atomic steps"

lemma bindE_Inl [simp, result_simps]: "bindE (Inl e) f = Inl e"
  by (simp add: bindE_def)

lemma bindE_Inr [simp, result_simps]: "bindE (Inr a) f = f a"
  by (simp add: bindE_def)

lemma bindE_eq_Inr [result_simps]: "bindE r f = Inr b \<longleftrightarrow> (\<exists>a. r = Inr a \<and> f a = Inr b)"
  by (cases r) auto

lemma bindE_InrE:
  assumes "bindE r f = Inr b"
  obtains a where "r = Inr a" "f a = Inr b"
  using assms by (auto simp: bindE_eq_Inr)

lemma bindE_assoc: "bindE (bindE r f) g = bindE r (\<lambda>a. bindE (f a) g)"
  by (cases r) auto

lemma assertE_True [simp, result_simps]: "assertE True r = r"
  by (simp add: assertE_def)

lemma assertE_False [simp, result_simps]: "assertE False r = Inl AssertFailed"
  by (simp add: assertE_def)

lemma assertE_eq_Inr [result_simps]: "assertE b r = Inr a \<longleftrightarrow> b \<and> r = Inr a"
  by (simp add: assertE_def)

fun foldE :: "('a \<Rightarrow> 's \<Rightarrow> 's result) \<Rightarrow> 'a list \<Rightarrow> 's \<Rightarrow> 's result" where
  "foldE f [] s = Inr s"
| "foldE f (x # xs) s = bindE (f x s) (foldE f xs)"

lemma foldE_append: "foldE f (xs @ ys) s = bindE (foldE f xs s) (foldE f ys)"
proof (induction xs arbitrary: s)
  case (Cons x xs)
  then show ?case by (cases "f x s") simp_all
qed simp

lemma foldE_invariant:
  assumes "foldE f xs s = Inr s'" and "P s"
    and "\<And>x t t'. x \<in> set xs \<Longrightarrow> P t \<Longrightarrow> f x t = Inr t' \<Longrightarrow> P t'"
  shows "P s'"
  using assms
proof (induction xs arbitrary: s)
  case Nil
  then show ?case by simp
next
  case (Cons x xs)
  from Cons.prems(1) obtain t where t: "f x s = Inr t" "foldE f xs t = Inr s'"
    by (auto simp: bindE_eq_Inr)
  have "P t" using Cons.prems(2,3) t(1) by auto
  then show ?case using Cons.IH[OF t(2)] Cons.prems(3) by (metis list.set_intros(2))
qed

lemma foldE_total:
  assumes "P s" and "\<And>x t. x \<in> set xs \<Longrightarrow> P t \<Longrightarrow> \<exists>t'. f x t = Inr t' \<and> P t'"
  shows "\<exists>s'. foldE f xs s = Inr s' \<and> P s'"
  using assms
proof (induction xs arbitrary: s)
  case Nil
  then show ?case by simp
next
  case (Cons x xs)
  then obtain t where "f x s = Inr t" "P t" by (meson list.set_intros(1))
  then show ?case using Cons.IH[of t] Cons.prems(2) by auto
qed

section \<open>Lists\<close>

lemma fold_min_le:
  fixes a :: "'a::linorder"
  shows "fold min xs a \<le> a" and "x \<in> set xs \<Longrightarrow> fold min xs a \<le> x"
proof -
  have *: "fold min xs a \<le> a \<and> (\<forall>x\<in>set xs. fold min xs a \<le> x)" for xs and a :: 'a
  proof (induction xs arbitrary: a)
    case (Cons y ys)
    show ?case using Cons[of "min y a"] by auto
  qed simp
  show "fold min xs a \<le> a" and "x \<in> set xs \<Longrightarrow> fold min xs a \<le> x"
    using * by blast+
qed

lemma fold_min_Min:
  fixes a :: "'a::linorder"
  shows "fold min xs a = Min (insert a (set xs))"
  using Min.set_eq_fold[of a xs] by simp

lemma fold_max_Max:
  fixes a :: "'a::linorder"
  shows "fold max xs a = Max (insert a (set xs))"
  using Max.set_eq_fold[of a xs] by simp

lemma dropWhile_hd_not: "dropWhile P xs = y # ys \<Longrightarrow> \<not> P y"
  using hd_dropWhile[of P xs] by simp

lemma distinct_split_notin:
  "distinct (ys @ x # zs) \<Longrightarrow> x \<notin> set ys \<and> x \<notin> set zs"
  by simp

lemma remove1_middle [simp]:
  "x \<notin> set ys \<Longrightarrow> remove1 x (ys @ x # zs) = ys @ zs"
  by (simp add: remove1_append)

lemma last_in_distinct_middle:
  "distinct (ys @ x # zs) \<Longrightarrow> zs \<noteq> [] \<Longrightarrow> last (ys @ x # zs) \<noteq> x"
  by (metis append_is_Nil_conv distinct_split_notin last_ConsR last_appendR last_in_set list.distinct(1))

end
