(* ===== verification/LinkedList.thy ===== *)
theory LinkedList
  imports Prelude
begin

text \<open>
  runtime/OFluxLinkedList.h: the intrusive doubly linked list whose back pointers address the
  location that points at the node (the list's head field or the predecessor's next field), as the
  runtimes keep their threads in it.  A node is its identifier; its fields live in the heap part
  of the record.  \<open>own\<close> is the template's choice between a node the list allocates and deletes
  (Node, SharedPtrNode) and one that is a base of its content (InheritedNode, whose destroy does
  nothing).
\<close>

datatype loc = LHead | LNext nat

record llist =
  ll_head :: "nat option"
  ll_next :: "nat \<Rightarrow> nat option"
  ll_prev :: "nat \<Rightarrow> loc option"
  ll_tail :: "loc option"
  ll_live :: "nat set"

definition ll_new :: llist where
  "ll_new = \<lparr> ll_head = None, ll_next = (\<lambda>_. None), ll_prev = (\<lambda>_. None), ll_tail = None, ll_live = {} \<rparr>"

text \<open>The constructor of a node: both links NULL.\<close>

definition ll_create :: "nat \<Rightarrow> llist \<Rightarrow> llist" where
  "ll_create n s = s\<lparr> ll_next := (ll_next s)(n := None), ll_prev := (ll_prev s)(n := None),
     ll_live := insert n (ll_live s) \<rparr>"

definition rd :: "llist \<Rightarrow> loc \<Rightarrow> nat option" where
  "rd s l = (case l of LHead \<Rightarrow> ll_head s | LNext n \<Rightarrow> ll_next s n)"

definition wr :: "loc \<Rightarrow> nat option \<Rightarrow> llist \<Rightarrow> llist" where
  "wr l v s = (case l of LHead \<Rightarrow> s\<lparr> ll_head := v \<rparr> | LNext n \<Rightarrow> s\<lparr> ll_next := (ll_next s)(n := v) \<rparr>)"

definition set_prev :: "nat \<Rightarrow> loc option \<Rightarrow> llist \<Rightarrow> llist" where
  "set_prev n v s = s\<lparr> ll_prev := (ll_prev s)(n := v) \<rparr>"

definition touch :: "nat \<Rightarrow> llist \<Rightarrow> 'a result \<Rightarrow> 'a result" where
  "touch n s r = (if n \<in> ll_live s then r else Inl UseAfterFree)"

text \<open>\<open>N::destroy\<close>.\<close>

definition ll_destroy :: "bool \<Rightarrow> nat \<Rightarrow> llist \<Rightarrow> llist" where
  "ll_destroy own n s = (if own then s\<lparr> ll_live := ll_live s - {n} \<rparr> else s)"

text \<open>\<open>LinkedListRemovable::insert_front\<close>, \<open>insert_back\<close>, \<open>Removable::remove\<close> and
  \<open>LinkedListRemovable::remove\<close>.\<close>

definition ll_insert_front :: "nat \<Rightarrow> llist \<Rightarrow> llist result" where
  "ll_insert_front n s = touch n s (assertE (ll_next s n = None \<and> ll_prev s n = None)
     (let s1 = (if ll_tail s = None then s\<lparr> ll_tail := Some (LNext n) \<rparr> else s);
          s2 = set_prev n (Some LHead) s1;
          s3 = (case ll_head s2 of None \<Rightarrow> s2 | Some h \<Rightarrow> set_prev h (Some (LNext n)) s2);
          s4 = wr (LNext n) (ll_head s3) s3
      in Inr (wr LHead (Some n) s4)))"

definition ll_insert_back :: "nat \<Rightarrow> llist \<Rightarrow> llist result" where
  "ll_insert_back n s = touch n s (assertE (ll_next s n = None \<and> ll_prev s n = None)
     (case ll_tail s of
        None \<Rightarrow> ll_insert_front n s
      | Some t \<Rightarrow> let s1 = set_prev n (Some t) s; s2 = wr t (Some n) s1
                  in Inr (s2\<lparr> ll_tail := Some (LNext n) \<rparr>)))"

definition node_remove :: "nat \<Rightarrow> llist \<Rightarrow> bool \<times> llist" where
  "node_remove n s =
     (case ll_prev s n of
        None \<Rightarrow> (False, wr (LNext n) None (set_prev n None s))
      | Some p \<Rightarrow>
          let s1 = wr p (ll_next s n) s;
              s2 = (case rd s1 p of None \<Rightarrow> s1 | Some m \<Rightarrow> set_prev m (Some p) s1)
          in (True, wr (LNext n) None (set_prev n None s2)))"

definition ll_remove :: "bool \<Rightarrow> nat \<Rightarrow> llist \<Rightarrow> (bool \<times> llist) result" where
  "ll_remove own n s = touch n s
     (let s1 = (if ll_tail s = Some (LNext n) then s\<lparr> ll_tail := ll_prev s n \<rparr> else s);
          (res, s2) = node_remove n s1;
          s3 = (if ll_tail s2 = Some LHead then s2\<lparr> ll_tail := None, ll_head := None \<rparr> else s2)
      in Inr (res, ll_destroy own n s3))"

text \<open>The loops over the list: \<open>iter\<close> and \<open>fold\<close> follow the next pointers and may not end on a
  cyclic heap, hence the option; the destructor destroys each node before it reads its next
  pointer.\<close>

partial_function (option) ll_fold_from :: "('a \<Rightarrow> nat \<Rightarrow> 'a) \<Rightarrow> llist \<Rightarrow> nat option \<Rightarrow> 'a \<Rightarrow> 'a result option" where
  "ll_fold_from f s p a = (case p of
      None \<Rightarrow> Some (Inr a)
    | Some n \<Rightarrow> if n \<in> ll_live s then ll_fold_from f s (ll_next s n) (f a n) else Some (Inl UseAfterFree))"

definition ll_fold :: "('a \<Rightarrow> nat \<Rightarrow> 'a) \<Rightarrow> 'a \<Rightarrow> llist \<Rightarrow> 'a result option" where
  "ll_fold f a s = ll_fold_from f s (ll_head s) a"

partial_function (option) ll_destruct_from :: "bool \<Rightarrow> nat option \<Rightarrow> llist \<Rightarrow> llist result option" where
  "ll_destruct_from own p s = (case p of
      None \<Rightarrow> Some (Inr s)
    | Some n \<Rightarrow> let s1 = ll_destroy own n s in
        if n \<in> ll_live s1 then ll_destruct_from own (ll_next s1 n) s1 else Some (Inl UseAfterFree))"

definition ll_destruct :: "bool \<Rightarrow> llist \<Rightarrow> llist result option" where
  "ll_destruct own s = ll_destruct_from own (ll_head s) s"

section \<open>The list a heap stands for\<close>

fun chain :: "llist \<Rightarrow> loc \<Rightarrow> nat list \<Rightarrow> bool" where
  "chain s p [] \<longleftrightarrow> rd s p = None"
| "chain s p (x # xs) \<longleftrightarrow> rd s p = Some x \<and> ll_prev s x = Some p \<and> chain s (LNext x) xs"

fun endloc :: "loc \<Rightarrow> nat list \<Rightarrow> loc" where
  "endloc p [] = p"
| "endloc p (x # xs) = endloc (LNext x) xs"

definition ll_rep :: "llist \<Rightarrow> nat list \<Rightarrow> bool" where
  "ll_rep s xs \<longleftrightarrow> chain s LHead xs \<and> distinct xs \<and> set xs \<subseteq> ll_live s \<and>
     ll_tail s = (if xs = [] then None else Some (endloc LHead xs)) \<and>
     (\<forall>n. n \<in> ll_live s \<and> n \<notin> set xs \<longrightarrow> ll_next s n = None \<and> ll_prev s n = None)"

lemma rd_simps [simp]:
  "rd s LHead = ll_head s" "rd s (LNext n) = ll_next s n"
  by (simp_all add: rd_def)

lemma wr_simps [simp]:
  "ll_prev (wr l v s) = ll_prev s" "ll_tail (wr l v s) = ll_tail s" "ll_live (wr l v s) = ll_live s"
  "ll_head (wr LHead v s) = v" "ll_next (wr LHead v s) = ll_next s"
  "ll_head (wr (LNext n) v s) = ll_head s" "ll_next (wr (LNext n) v s) = (ll_next s)(n := v)"
  by (auto simp: wr_def split: loc.splits)

lemma rd_wr: "rd (wr l v s) l' = (if l' = l then v else rd s l')"
  by (cases l; cases l') auto

lemma set_prev_simps [simp]:
  "ll_prev (set_prev n v s) = (ll_prev s)(n := v)" "ll_head (set_prev n v s) = ll_head s"
  "ll_next (set_prev n v s) = ll_next s" "ll_tail (set_prev n v s) = ll_tail s"
  "ll_live (set_prev n v s) = ll_live s" "rd (set_prev n v s) = rd s"
  by (auto simp: set_prev_def rd_def fun_eq_iff split: loc.splits)

lemma chain_cong:
  assumes "rd s p = rd s' p" "\<And>x. x \<in> set xs \<Longrightarrow> ll_next s x = ll_next s' x"
    "\<And>x. x \<in> set xs \<Longrightarrow> ll_prev s x = ll_prev s' x"
  shows "chain s p xs = chain s' p xs"
  using assms
proof (induction xs arbitrary: p)
  case (Cons x xs)
  then show ?case using Cons.IH[of "LNext x"] by simp
qed simp

text \<open>A prefix of the chain, up to the location its last node's next field is.\<close>

fun seg :: "llist \<Rightarrow> loc \<Rightarrow> nat list \<Rightarrow> bool" where
  "seg s p [] \<longleftrightarrow> True"
| "seg s p (x # xs) \<longleftrightarrow> rd s p = Some x \<and> ll_prev s x = Some p \<and> seg s (LNext x) xs"

lemma chain_append: "chain s p (ys @ zs) \<longleftrightarrow> seg s p ys \<and> chain s (endloc p ys) zs"
  by (induction ys arbitrary: p) auto

lemma endloc_append [simp]: "endloc p (xs @ ys) = endloc (endloc p xs) ys"
  by (induction xs arbitrary: p) auto

lemma endloc_last: "xs \<noteq> [] \<Longrightarrow> endloc p xs = LNext (last xs)"
  by (induction xs arbitrary: p) auto

lemma endloc_neq_head: "xs \<noteq> [] \<Longrightarrow> endloc p xs \<noteq> LHead"
  by (simp add: endloc_last)

lemma endloc_in: "endloc p xs = p \<or> endloc p xs \<in> LNext ` set xs"
  by (cases "xs = []") (auto simp: endloc_last)

lemma seg_cong:
  assumes "\<And>q. q \<noteq> endloc p ys \<Longrightarrow> q = p \<or> q \<in> LNext ` set ys \<Longrightarrow> rd s q = rd s' q"
    "\<And>x. x \<in> set ys \<Longrightarrow> ll_prev s x = ll_prev s' x"
    "distinct ys" "p \<notin> LNext ` set ys"
  shows "seg s p ys = seg s' p ys"
  using assms
proof (induction ys arbitrary: p)
  case (Cons y ys)
  have "p \<noteq> endloc p (y # ys)" using endloc_in[of "LNext y" ys] Cons.prems(4) by auto
  then have "rd s p = rd s' p" using Cons.prems(1) by blast
  moreover have "seg s (LNext y) ys = seg s' (LNext y) ys"
    using Cons.prems by (intro Cons.IH) auto
  ultimately show ?case using Cons.prems(2) by simp
qed simp

lemma ll_rep_new: "ll_rep ll_new []"
  by (simp add: ll_rep_def ll_new_def)

lemma ll_rep_create:
  assumes "ll_rep s xs" "n \<notin> ll_live s"
  shows "ll_rep (ll_create n s) xs"
proof -
  have "n \<notin> set xs" using assms by (auto simp: ll_rep_def)
  then have "chain (ll_create n s) LHead xs = chain s LHead xs"
    by (intro chain_cong) (auto simp: ll_create_def)
  then show ?thesis using assms by (auto simp: ll_rep_def ll_create_def)
qed

lemma ll_insert_front_rep:
  assumes rep: "ll_rep s xs" and n: "n \<in> ll_live s" "n \<notin> set xs"
  shows "\<exists>s'. ll_insert_front n s = Inr s' \<and> ll_rep s' (n # xs) \<and> ll_live s' = ll_live s"
proof (cases xs)
  case Nil
  then have h: "ll_head s = None" "ll_tail s = None" "ll_next s n = None" "ll_prev s n = None"
    using rep n by (auto simp: ll_rep_def)
  show ?thesis using rep n Nil h
    by (auto simp: ll_insert_front_def touch_def ll_rep_def Let_def)
next
  case (Cons h t)
  have h: "ll_head s = Some h" "ll_tail s \<noteq> None" "ll_next s n = None" "ll_prev s n = None"
    and ch: "chain s (LNext h) t" and d: "h \<notin> set t" "distinct t" and nt: "n \<noteq> h" "n \<notin> set t"
    using rep n Cons by (auto simp: ll_rep_def)
  let ?s' = "wr LHead (Some n) (wr (LNext n) (Some h) (set_prev h (Some (LNext n)) (set_prev n (Some LHead) s)))"
  have res: "ll_insert_front n s = Inr ?s'"
    using n h by (auto simp: ll_insert_front_def touch_def Let_def)
  have "chain ?s' (LNext h) t = chain s (LNext h) t"
    using d nt by (intro chain_cong) auto
  then have "ll_rep ?s' (n # xs)"
    using rep n Cons h ch d nt by (auto simp: ll_rep_def endloc_last)
  then show ?thesis using res by simp
qed

lemma ll_insert_back_rep:
  assumes rep: "ll_rep s xs" and n: "n \<in> ll_live s" "n \<notin> set xs"
  shows "\<exists>s'. ll_insert_back n s = Inr s' \<and> ll_rep s' (xs @ [n]) \<and> ll_live s' = ll_live s"
proof (cases "xs = []")
  case True
  then have "ll_tail s = None" "ll_next s n = None" "ll_prev s n = None"
    using rep n by (auto simp: ll_rep_def)
  then show ?thesis
    using ll_insert_front_rep[OF assms] n True by (auto simp: ll_insert_back_def touch_def)
next
  case False
  let ?t = "endloc LHead xs"
  have t: "?t = LNext (last xs)" "ll_tail s = Some ?t" and nn: "ll_next s n = None" "ll_prev s n = None"
    and ch: "chain s LHead xs" "distinct xs"
    using rep n False by (auto simp: ll_rep_def endloc_last)
  let ?s' = "(wr ?t (Some n) (set_prev n (Some ?t) s))\<lparr> ll_tail := Some (LNext n) \<rparr>"
  have res: "ll_insert_back n s = Inr ?s'"
    using n t nn by (auto simp: ll_insert_back_def touch_def Let_def)
  have rd': "rd ?s' q = (if q = ?t then Some n else rd s q)" for q
    using t by (cases q) auto
  have "seg s LHead xs" using ch chain_append[of s LHead xs "[]"] by simp
  moreover have "seg ?s' LHead xs = seg s LHead xs"
    using n ch(2) by (intro seg_cong) (auto simp: rd')
  moreover have "chain ?s' ?t [n]"
    using n t nn last_in_set[OF False] by (auto simp: rd')
  ultimately have "chain ?s' LHead (xs @ [n])" by (simp only: chain_append)
  moreover have "ll_next ?s' m = None \<and> ll_prev ?s' m = None"
    if "m \<in> ll_live s" "m \<notin> set (xs @ [n])" for m
    using that rep t last_in_set[OF False] by (auto simp: ll_rep_def)
  ultimately have "ll_rep ?s' (xs @ [n])"
    using rep n by (auto simp: ll_rep_def)
  then show ?thesis using res by simp
qed

lemma ll_remove_rep:
  assumes rep: "ll_rep s (ys @ n # zs)"
  shows "\<exists>s'. ll_remove own n s = Inr (True, s') \<and> ll_rep s' (ys @ zs) \<and>
    ll_live s' = (if own then ll_live s - {n} else ll_live s)"
proof -
  let ?p = "endloc LHead ys" and ?xs = "ys @ n # zs"
  have ch: "seg s LHead ys" "rd s ?p = Some n" "ll_prev s n = Some ?p" "chain s (LNext n) zs"
    and d: "distinct ?xs" and live: "set ?xs \<subseteq> ll_live s"
    and tl: "ll_tail s = Some (endloc (LNext n) zs)"
    and out: "\<And>m. m \<in> ll_live s \<Longrightarrow> m \<notin> set ?xs \<Longrightarrow> ll_next s m = None \<and> ll_prev s m = None"
    using rep by (auto simp: ll_rep_def chain_append)
  have pn: "?p \<noteq> LNext n" using endloc_in[of LHead ys] d by auto
  define s1 where "s1 = (if zs = [] then s\<lparr> ll_tail := Some ?p \<rparr> else s)"
  have s1: "(if ll_tail s = Some (LNext n) then s\<lparr> ll_tail := ll_prev s n \<rparr> else s) = s1"
    using tl ch(3) d by (auto simp: s1_def endloc_last)
  have s1f: "ll_head s1 = ll_head s" "ll_next s1 = ll_next s" "ll_prev s1 = ll_prev s"
    "ll_live s1 = ll_live s" "rd s1 = rd s"
    by (auto simp: s1_def rd_def fun_eq_iff split: loc.splits)
  define s2 where "s2 = (case zs of [] \<Rightarrow> wr ?p None s1
      | z # _ \<Rightarrow> set_prev z (Some ?p) (wr ?p (Some z) s1))"
  define s3 where "s3 = wr (LNext n) None (set_prev n None s2)"
  have nx: "ll_next s n = (case zs of [] \<Rightarrow> None | z # _ \<Rightarrow> Some z)"
    using ch(4) by (cases zs) auto
  have nr: "node_remove n s1 = (True, s3)"
    unfolding node_remove_def s3_def s2_def
    using ch(3) nx by (cases zs) (auto simp: s1f rd_wr Let_def)
  define s4 where "s4 = (if ll_tail s3 = Some LHead then s3\<lparr> ll_tail := None, ll_head := None \<rparr> else s3)"
  have t3: "ll_tail s3 = (if zs = [] then Some ?p else Some (endloc LHead (ys @ zs)))"
    using tl by (cases zs) (auto simp: s3_def s2_def s1_def)
  have rd3: "rd s3 q = (if q = LNext n then None else if q = ?p then ll_next s n else rd s q)" for q
    using pn nx by (cases zs) (auto simp: s3_def s2_def rd_wr s1f)
  have hd4: "ll_head s4 = ll_head s3"
  proof (cases "ys @ zs = []")
    case True
    then have "rd s3 LHead = None" using rd3[of LHead] nx by simp
    then show ?thesis by (simp add: s4_def)
  next
    case False
    have "ll_tail s3 = Some (endloc LHead (ys @ zs))" by (simp add: t3)
    then have "ll_tail s3 \<noteq> Some LHead"
      using endloc_neq_head[OF False, of LHead] by (metis option.inject)
    then show ?thesis by (simp add: s4_def)
  qed
  have s4f: "ll_next s4 = ll_next s3" "ll_prev s4 = ll_prev s3" "ll_live s4 = ll_live s" "rd s4 = rd s3"
    using hd4 by (auto simp: s4_def s3_def s2_def s1f rd_def fun_eq_iff split: loc.splits list.splits)
  have t4: "ll_tail s4 = (if ys @ zs = [] then None else Some (endloc LHead (ys @ zs)))"
  proof (cases "ys @ zs = []")
    case True
    then show ?thesis using t3 by (simp add: s4_def)
  next
    case False
    have "ll_tail s3 = Some (endloc LHead (ys @ zs))" by (simp add: t3)
    then show ?thesis using endloc_neq_head[OF False, of LHead] False by (simp add: s4_def)
  qed
  have prev3: "ll_prev s3 x = ll_prev s x" if "x \<noteq> n" "\<forall>z zs'. zs = z # zs' \<longrightarrow> x \<noteq> z" for x
    using that by (cases zs) (auto simp: s3_def s2_def s1f)
  have prevys: "ll_prev s3 x = ll_prev s x" if "x \<in> set ys" for x
    using that d by (intro prev3) auto
  have "seg s3 LHead ys = seg s LHead ys"
    using d by (intro seg_cong) (auto simp: rd3 prevys)
  moreover have "chain s3 ?p zs"
  proof (cases zs)
    case Nil
    then show ?thesis using nx pn by (simp add: rd3)
  next
    case (Cons z zs')
    have "ll_next s3 x = ll_next s x" if "x \<in> set zs" for x
      using that d endloc_in[of LHead ys] rd3[of "LNext x"] by auto
    moreover have "ll_prev s3 x = ll_prev s x" if "x \<in> set zs'" for x
      using that d Cons by (intro prev3) auto
    ultimately have "chain s3 (LNext z) zs' = chain s (LNext z) zs'"
      using Cons by (intro chain_cong) auto
    moreover have "ll_prev s3 z = Some ?p" using Cons d by (auto simp: s3_def s2_def)
    ultimately show ?thesis using Cons ch(4) nx pn by (simp add: rd3)
  qed
  ultimately have c3: "chain s3 LHead (ys @ zs)" using ch(1) by (simp add: chain_append)
  then have c4: "chain s4 LHead (ys @ zs)"
    by (subst chain_cong[where s' = s3]) (auto simp: s4f)
  have o4: "ll_next s4 m = None \<and> ll_prev s4 m = None" if "m \<in> ll_live s" "m \<notin> set (ys @ zs)" for m
  proof (cases "m = n")
    case True
    have "ll_prev s3 n = None" by (simp add: s3_def)
    then show ?thesis using True rd3[of "LNext n"] by (simp add: s4f)
  next
    case False
    then have "LNext m \<noteq> ?p" using endloc_in[of LHead ys] that by auto
    moreover have "ll_prev s3 m = ll_prev s m" using False that by (intro prev3) auto
    ultimately show ?thesis using False that out[of m] rd3[of "LNext m"] by (simp add: s4f)
  qed
  have "ll_remove own n s = Inr (True, ll_destroy own n s4)"
    using live by (simp add: ll_remove_def touch_def s1 nr s4_def Let_def)
  moreover have "ll_rep (ll_destroy own n s4) (ys @ zs)"
  proof -
    have "chain (ll_destroy own n s4) LHead (ys @ zs) = chain s4 LHead (ys @ zs)"
      by (intro chain_cong) (auto simp: ll_destroy_def)
    then show ?thesis using c4 t4 o4 d live s4f(3)
      by (auto simp: ll_rep_def ll_destroy_def)
  qed
  moreover have "ll_live (ll_destroy own n s4) = (if own then ll_live s - {n} else ll_live s)"
    by (simp add: ll_destroy_def s4f)
  ultimately show ?thesis by blast
qed

lemma ll_remove_absent:
  assumes rep: "ll_rep s xs" and n: "n \<in> ll_live s" "n \<notin> set xs"
  shows "ll_remove False n s = Inr (False, s)"
proof -
  have nn: "ll_next s n = None" "ll_prev s n = None" using rep n by (auto simp: ll_rep_def)
  have tl: "ll_tail s \<noteq> Some (LNext n)" "ll_tail s \<noteq> Some LHead"
    using rep n last_in_set[of xs] by (auto simp: ll_rep_def endloc_last)
  have "(ll_next s)(n := None) = ll_next s" "(ll_prev s)(n := None) = ll_prev s"
    using nn by (auto simp: fun_eq_iff)
  then have "node_remove n s = (False, s)"
    using nn by (simp add: node_remove_def wr_def set_prev_def)
  then show ?thesis using n tl by (simp add: ll_remove_def touch_def ll_destroy_def Let_def)
qed

lemma ll_fold_from_chain:
  assumes "chain s p xs" "set xs \<subseteq> ll_live s"
  shows "ll_fold_from f s (rd s p) a = Some (Inr (foldl f a xs))"
  using assms
proof (induction xs arbitrary: p a)
  case Nil
  then show ?case by (subst ll_fold_from.simps) simp
next
  case (Cons x xs)
  then show ?case using Cons.IH[of "LNext x" "f a x"] by (subst ll_fold_from.simps) simp
qed

lemma ll_fold_rep: "ll_rep s xs \<Longrightarrow> ll_fold f a s = Some (Inr (foldl f a xs))"
  using ll_fold_from_chain[of s LHead xs f a] by (simp add: ll_fold_def ll_rep_def)

section \<open>Sequences of list operations\<close>

datatype llop = OpFront nat | OpBack nat | OpRemove nat

fun ll_exec :: "llop \<Rightarrow> llist \<Rightarrow> llist result" where
  "ll_exec (OpFront n) s = ll_insert_front n s"
| "ll_exec (OpBack n) s = ll_insert_back n s"
| "ll_exec (OpRemove n) s = bindE (ll_remove False n s) (\<lambda>r. Inr (snd r))"

text \<open>What the operations promise of the sequence of nodes: insertion insists that the node is in
  no list, removal of an absent node changes nothing.\<close>

fun seq_exec :: "llop \<Rightarrow> nat list \<Rightarrow> nat list option" where
  "seq_exec (OpFront n) xs = (if n \<in> set xs then None else Some (n # xs))"
| "seq_exec (OpBack n) xs = (if n \<in> set xs then None else Some (xs @ [n]))"
| "seq_exec (OpRemove n) xs = Some (remove1 n xs)"

fun seq_run :: "llop list \<Rightarrow> nat list \<Rightarrow> nat list option" where
  "seq_run [] xs = Some xs"
| "seq_run (op # ops) xs = (case seq_exec op xs of None \<Rightarrow> None | Some ys \<Rightarrow> seq_run ops ys)"

fun op_node :: "llop \<Rightarrow> nat" where
  "op_node (OpFront n) = n" | "op_node (OpBack n) = n" | "op_node (OpRemove n) = n"

lemma ll_exec_step:
  assumes "ll_rep s xs" "op_node op \<in> ll_live s" "seq_exec op xs = Some ys"
  shows "\<exists>s'. ll_exec op s = Inr s' \<and> ll_rep s' ys \<and> ll_live s' = ll_live s"
proof (cases op)
  case (OpFront n)
  then show ?thesis using assms ll_insert_front_rep[of s xs n] by (auto split: if_splits)
next
  case (OpBack n)
  then show ?thesis using assms ll_insert_back_rep[of s xs n] by (auto split: if_splits)
next
  case (OpRemove n)
  show ?thesis
  proof (cases "n \<in> set xs")
    case True
    then obtain as bs where xs: "xs = as @ n # bs" "n \<notin> set as" by (meson split_list_first)
    then show ?thesis
      using ll_remove_rep[of s as n bs False] assms OpRemove by auto
  next
    case False
    then show ?thesis using ll_remove_absent[of s xs n] assms OpRemove by (auto simp: remove1_idem)
  qed
qed

lemma ll_exec_run:
  assumes "ll_rep s xs" "\<forall>op\<in>set ops. op_node op \<in> ll_live s" "seq_run ops xs = Some ys"
  shows "\<exists>s'. foldE ll_exec ops s = Inr s' \<and> ll_rep s' ys"
  using assms
proof (induction ops arbitrary: s xs)
  case (Cons op ops)
  from Cons.prems(3) obtain zs where zs: "seq_exec op xs = Some zs" "seq_run ops zs = Some ys"
    by (auto split: option.splits)
  obtain s' where s': "ll_exec op s = Inr s'" "ll_rep s' zs" "ll_live s' = ll_live s"
    using ll_exec_step[OF Cons.prems(1) _ zs(1)] Cons.prems(2) by auto
  then show ?case using Cons.IH[OF s'(2) _ zs(2)] Cons.prems(2) by simp
qed simp

text \<open>C18: Every sequence of insertions and removals on the intrusive list, whose nodes are alive and
  inserted only when they are in no list, ends without a fault in a heap that stands for the
  sequence the abstract operations compute; folding over the list then visits exactly that
  sequence, in order.\<close>

theorem linked_list_refines_sequence:
  assumes "ll_rep s xs" and "\<forall>op\<in>set ops. op_node op \<in> ll_live s" and "seq_run ops xs = Some ys"
  shows "\<exists>s'. foldE ll_exec ops s = Inr s' \<and> ll_rep s' ys \<and>
    (\<forall>f (a :: nat). ll_fold f a s' = Some (Inr (foldl f a ys)))"
proof -
  obtain s' where "foldE ll_exec ops s = Inr s'" "ll_rep s' ys" using ll_exec_run[OF assms] by blast
  then show ?thesis by (intro exI[of _ s']) (simp add: ll_fold_rep)
qed

lemma linked_list_refines_sequence_witness:
  "\<exists>s'. foldE ll_exec [OpBack 1, OpBack 2, OpFront 3, OpRemove 1, OpRemove 1, OpBack 1]
      (ll_create 3 (ll_create 2 (ll_create 1 ll_new))) = Inr s' \<and> ll_rep s' [3, 2, 1]"
proof -
  let ?s = "ll_create 3 (ll_create 2 (ll_create 1 ll_new))"
  have "ll_rep ?s []"
    by (intro ll_rep_create ll_rep_new) (simp_all add: ll_create_def ll_new_def)
  then have "\<exists>s'. foldE ll_exec [OpBack 1, OpBack 2, OpFront 3, OpRemove 1, OpRemove 1, OpBack 1] ?s = Inr s' \<and>
      ll_rep s' [3, 2, 1] \<and> (\<forall>f (a :: nat). ll_fold f a s' = Some (Inr (foldl f a [3, 2, 1])))"
    by (rule linked_list_refines_sequence) (simp_all add: ll_create_def ll_new_def)
  then show ?thesis by blast
qed

text \<open>The list destructor destroys a node and then reads that node's next pointer, so on every
  nonempty list whose nodes the list owns it touches a deleted node.\<close>

theorem list_destructor_uses_freed_node:
  assumes "ll_rep s (x # xs)"
  shows "ll_destruct True s = Some (Inl UseAfterFree)"
  using assms by (auto simp: ll_rep_def ll_destruct_def ll_destruct_from.simps ll_destroy_def Let_def)

lemma list_destructor_uses_freed_node_witness:
  "\<exists>s. ll_insert_front 4 (ll_create 4 ll_new) = Inr s \<and> ll_destruct True s = Some (Inl UseAfterFree)"
proof -
  have "ll_rep (ll_create 4 ll_new) []"
    by (intro ll_rep_create ll_rep_new) (simp add: ll_new_def)
  then obtain s where "ll_insert_front 4 (ll_create 4 ll_new) = Inr s" "ll_rep s [4]"
    using ll_insert_front_rep[of "ll_create 4 ll_new" "[]" 4] by (auto simp: ll_create_def)
  then show ?thesis using list_destructor_uses_freed_node[of s 4 "[]"] by blast
qed

end
