(* ===== verification/Sharing.thy ===== *)
theory Sharing
  imports Prelude "HOL-Library.Word"
begin

text \<open>
  Reference counting: runtime/OFluxSharedPtr.h (shared_ptr, the owner of events) and
  runtime/OFluxScatterGather.h (Gatherable and Scatter, the user level scatter/gather pattern).
  The shared pointers of a program are the slots of a list; a destroyed one is a NULL slot.
\<close>

section \<open>shared_ptr\<close>

record shptr =
  px :: "nat option"
  pn :: "nat option"

definition sp_null :: shptr where
  "sp_null = \<lparr> px = None, pn = None \<rparr>"

text \<open>The heap: the counter cells, the objects not yet deleted, and the next fresh cell.\<close>

record spheap =
  cells :: "nat \<Rightarrow> int option"
  objs :: "nat set"
  fresh :: nat
  slots :: "shptr list"

definition cell_add :: "nat \<Rightarrow> int \<Rightarrow> spheap \<Rightarrow> spheap" where
  "cell_add c d h = h\<lparr> cells := (cells h)(c := map_option (\<lambda>k. k + d) (cells h c)) \<rparr>"

definition set_slot :: "nat \<Rightarrow> shptr \<Rightarrow> spheap \<Rightarrow> spheap" where
  "set_slot i p h = h\<lparr> slots := (slots h)[i := p] \<rparr>"

definition sp_unlink :: "bool \<Rightarrow> nat \<Rightarrow> spheap \<Rightarrow> spheap" where
  "sp_unlink no_delete i h = (let p = slots h ! i in
     set_slot i sp_null (case pn p of
        None \<Rightarrow> h
      | Some c \<Rightarrow> (let h1 = cell_add c (-1) h in
          if cells h1 c = Some 0
          then (let h2 = (if no_delete then h1
                          else (case px p of None \<Rightarrow> h1 | Some x \<Rightarrow> h1\<lparr> objs := objs h1 - {x} \<rparr>))
                in h2\<lparr> cells := (cells h2)(c := None) \<rparr>)
          else h1)))"

definition sp_copy_ctor :: "nat \<Rightarrow> nat \<Rightarrow> spheap \<Rightarrow> spheap" where
  "sp_copy_ctor i j h = (let sp = slots h ! j; h1 = set_slot i sp h in
     case pn sp of None \<Rightarrow> h1 | Some c \<Rightarrow> cell_add c 1 h1)"

definition sp_ctor_raw :: "nat \<Rightarrow> nat option \<Rightarrow> spheap \<Rightarrow> spheap" where
  "sp_ctor_raw i p h = (case p of
      None \<Rightarrow> set_slot i sp_null h
    | Some x \<Rightarrow> set_slot i \<lparr> px = Some x, pn = Some (fresh h) \<rparr>
        (h\<lparr> cells := (cells h)(fresh h := Some 1), fresh := fresh h + 1 \<rparr>))"

definition sp_dtor :: "nat \<Rightarrow> spheap \<Rightarrow> spheap" where
  "sp_dtor i h = sp_unlink False i h"

text \<open>\<open>operator=\<close>: the argument is read after the target was unlinked.\<close>

definition sp_assign :: "nat \<Rightarrow> nat \<Rightarrow> spheap \<Rightarrow> spheap" where
  "sp_assign i j h = (let h1 = sp_unlink False i h; sp = slots h1 ! j in
     case pn sp of
       None \<Rightarrow> h1
     | Some c \<Rightarrow> cell_add c 1 (set_slot i sp h1))"

definition sp_assign_raw :: "nat \<Rightarrow> nat option \<Rightarrow> spheap \<Rightarrow> spheap" where
  "sp_assign_raw i p h = (let h1 = sp_unlink False i h in
     case p of
       None \<Rightarrow> h1
     | Some x \<Rightarrow> set_slot i \<lparr> px = Some x, pn = Some (fresh h1) \<rparr>
         (h1\<lparr> cells := (cells h1)(fresh h1 := Some 1), fresh := fresh h1 + 1 \<rparr>))"

definition sp_reset :: "nat \<Rightarrow> spheap \<Rightarrow> spheap" where
  "sp_reset i h = sp_unlink False i h"

definition sp_reset_to :: "nat \<Rightarrow> nat option \<Rightarrow> spheap \<Rightarrow> spheap" where
  "sp_reset_to i p h = sp_assign_raw i p h"

definition sp_eq :: "shptr \<Rightarrow> shptr \<Rightarrow> bool" where
  "sp_eq a b \<longleftrightarrow> px a = px b \<and> pn a = pn b"

definition sp_swap :: "nat \<Rightarrow> nat \<Rightarrow> spheap \<Rightarrow> spheap" where
  "sp_swap i j h = (let pi = slots h ! i; pj = slots h ! j in set_slot i pj (set_slot j pi h))"

definition sp_deref :: "shptr \<Rightarrow> nat result" where
  "sp_deref p = (case px p of None \<Rightarrow> Inl AssertFailed | Some x \<Rightarrow> Inr x)"

definition sp_use_count :: "nat \<Rightarrow> spheap \<Rightarrow> int" where
  "sp_use_count i h = (case pn (slots h ! i) of None \<Rightarrow> 0
     | Some c \<Rightarrow> (case cells h c of None \<Rightarrow> 0 | Some k \<Rightarrow> k))"

definition sp_unique :: "nat \<Rightarrow> spheap \<Rightarrow> bool" where
  "sp_unique i h \<longleftrightarrow> sp_use_count i h = 1"

definition sp_recover :: "nat \<Rightarrow> spheap \<Rightarrow> nat option \<times> spheap" where
  "sp_recover i h = (if sp_unique i h then (px (slots h ! i), sp_unlink True i h) else (None, h))"

subsection \<open>The counting invariant\<close>

definition refs :: "shptr list \<Rightarrow> nat \<Rightarrow> nat" where
  "refs ps c = length (filter (\<lambda>p. pn p = Some c) ps)"

text \<open>A cell holds the number of slots that point at it and disappears with the last one; slots
  share an object exactly when they share a cell, and no slot points at a deleted object.\<close>

definition sp_inv :: "spheap \<Rightarrow> bool" where
  "sp_inv h \<longleftrightarrow>
     (\<forall>c. cells h c = (if refs (slots h) c = 0 then None else Some (int (refs (slots h) c)))) \<and>
     (\<forall>p\<in>set (slots h). (px p = None \<longleftrightarrow> pn p = None) \<and> (\<forall>x. px p = Some x \<longrightarrow> x \<in> objs h) \<and>
        (\<forall>c. pn p = Some c \<longrightarrow> c < fresh h) \<and>
        (\<forall>q\<in>set (slots h). pn p = pn q \<longleftrightarrow> px p = px q))"

lemma refs_Nil [simp]: "refs [] c = 0" by (simp add: refs_def)

lemma refs_Cons [simp]: "refs (p # ps) c = (if pn p = Some c then Suc (refs ps c) else refs ps c)"
  by (simp add: refs_def)

lemma refs_pos: "refs ps c > 0 \<longleftrightarrow> (\<exists>p\<in>set ps. pn p = Some c)"
  by (induction ps) auto

lemma refs_update:
  "i < length ps \<Longrightarrow> int (refs (ps[i := q]) c) =
     int (refs ps c) - (if pn (ps ! i) = Some c then 1 else 0) + (if pn q = Some c then 1 else 0)"
proof (induction ps arbitrary: i)
  case (Cons p ps)
  show ?case
  proof (cases i)
    case (Suc k)
    then show ?thesis using Cons.IH[of k] Cons.prems by auto
  qed auto
qed simp

lemma refs_nth_pos: "i < length ps \<Longrightarrow> pn (ps ! i) = Some c \<Longrightarrow> refs ps c > 0"
  using refs_pos nth_mem by metis

lemma sp_inv_cell:
  "sp_inv h \<Longrightarrow> refs (slots h) c > 0 \<Longrightarrow> cells h c = Some (int (refs (slots h) c))"
  by (simp add: sp_inv_def)

lemma refs_null: "i < length ps \<Longrightarrow> refs (ps[i := sp_null]) c = refs ps c - (if pn (ps ! i) = Some c then 1 else 0)"
  using refs_update[of i ps sp_null c] refs_nth_pos[of i ps c] by (auto simp: sp_null_def split: if_splits)

text \<open>What \<open>unlink\<close> does to the heap, on every branch.\<close>

lemma sp_unlink_slots [simp]: "slots (sp_unlink nd i h) = (slots h)[i := sp_null]"
  by (auto simp: sp_unlink_def set_slot_def cell_add_def Let_def split: option.splits)

lemma sp_unlink_fresh [simp]: "fresh (sp_unlink nd i h) = fresh h"
  by (auto simp: sp_unlink_def set_slot_def cell_add_def Let_def split: option.splits)

lemma sp_unlink_cells:
  assumes "sp_inv h" "i < length (slots h)"
  shows "cells (sp_unlink nd i h) c = (if refs ((slots h)[i := sp_null]) c = 0 then None
    else Some (int (refs ((slots h)[i := sp_null]) c)))"
proof (cases "pn (slots h ! i)")
  case None
  then show ?thesis using assms
    by (simp add: sp_unlink_def set_slot_def sp_inv_def refs_null)
next
  case (Some d)
  note pos = refs_nth_pos[OF assms(2) Some]
  have cd: "cells h d = Some (int (refs (slots h) d))" using sp_inv_cell[OF assms(1) pos] .
  show ?thesis
  proof (cases "c = d")
    case True
    have "int (refs (slots h) d - 1) = int (refs (slots h) d) - 1" using pos by simp
    then show ?thesis using True Some cd pos assms(2)
      by (auto simp: sp_unlink_def set_slot_def cell_add_def Let_def refs_null split: option.splits)
  next
    case False
    then have "cells (sp_unlink nd i h) c = cells h c"
      using Some by (auto simp: sp_unlink_def set_slot_def cell_add_def Let_def split: option.splits)
    then show ?thesis using False Some assms by (simp add: refs_null sp_inv_def)
  qed
qed

lemma sp_unlink_objs:
  assumes "sp_inv h" "i < length (slots h)"
  shows "objs (sp_unlink nd i h) = (if sp_unique i h \<and> \<not> nd then objs h - set_option (px (slots h ! i)) else objs h)"
proof (cases "pn (slots h ! i)")
  case None
  then show ?thesis by (simp add: sp_unlink_def set_slot_def sp_unique_def sp_use_count_def)
next
  case (Some d)
  note cd = sp_inv_cell[OF assms(1) refs_nth_pos[OF assms(2) Some]]
  then show ?thesis using Some
    by (auto simp: sp_unlink_def set_slot_def cell_add_def Let_def sp_unique_def sp_use_count_def
        split: option.splits)
qed

lemma sp_unique_iff:
  assumes "sp_inv h" "i < length (slots h)"
  shows "sp_unique i h \<longleftrightarrow> (\<exists>c. pn (slots h ! i) = Some c \<and> refs (slots h) c = 1)"
proof (cases "pn (slots h ! i)")
  case (Some d)
  then show ?thesis using sp_inv_cell[OF assms(1) refs_nth_pos[OF assms(2) Some]]
    by (simp add: sp_unique_def sp_use_count_def)
qed (simp add: sp_unique_def sp_use_count_def)

lemma set_update_null: "p \<in> set (ps[i := sp_null]) \<Longrightarrow> p = sp_null \<or> p \<in> set ps"
  by (meson in_set_conv_nth set_update_subset_insert insertE subsetD)

lemma sp_null_simps [simp]: "px sp_null = None" "pn sp_null = None"
  by (simp_all add: sp_null_def)

lemma sp_inv_pp: "sp_inv h \<Longrightarrow> p \<in> set (slots h) \<Longrightarrow> px p = None \<longleftrightarrow> pn p = None"
  by (simp add: sp_inv_def)

lemma sp_inv_share: "sp_inv h \<Longrightarrow> p \<in> set (slots h) \<Longrightarrow> q \<in> set (slots h) \<Longrightarrow> pn p = pn q \<longleftrightarrow> px p = px q"
  by (simp add: sp_inv_def)

lemma sp_inv_live: "sp_inv h \<Longrightarrow> p \<in> set (slots h) \<Longrightarrow> px p = Some x \<Longrightarrow> x \<in> objs h"
  by (simp add: sp_inv_def)

lemma sp_inv_unlink:
  assumes inv: "sp_inv h" and i: "i < length (slots h)"
  shows "sp_inv (sp_unlink nd i h)"
proof -
  let ?ps = "(slots h)[i := sp_null]"
  have live: "x \<in> objs (sp_unlink nd i h)" if p: "p \<in> set ?ps" "px p = Some x" for p x
  proof (cases "sp_unique i h")
    case True
    then obtain c where c: "pn (slots h ! i) = Some c" "refs (slots h) c = 1"
      using sp_unique_iff[OF assms] by blast
    have "refs ?ps c = 0" using refs_null[OF i, of c] c by simp
    then have "pn p \<noteq> Some c" using refs_pos[of ?ps c] p(1) by auto
    moreover have "p \<in> set (slots h)" using set_update_null[OF p(1)] p(2) by auto
    ultimately have "px p \<noteq> px (slots h ! i)"
      using sp_inv_share[OF inv, of p "slots h ! i"] i c by auto
    then show ?thesis
      using sp_unlink_objs[OF assms] sp_inv_live[OF inv \<open>p \<in> set (slots h)\<close>] p(2) by auto
  next
    case False
    then show ?thesis
      using sp_unlink_objs[OF assms] sp_inv_live[OF inv _ p(2)] set_update_null[OF p(1)] p(2) by auto
  qed
  have "(px p = None \<longleftrightarrow> pn p = None) \<and> (\<forall>c. pn p = Some c \<longrightarrow> c < fresh h) \<and>
      (\<forall>q\<in>set ?ps. pn p = pn q \<longleftrightarrow> px p = px q)" if p: "p \<in> set ?ps" for p
    using set_update_null[OF p] set_update_null[of _ "slots h" i] inv
    unfolding sp_inv_def by (metis sp_null_simps option.distinct(1))
  then show ?thesis
    using sp_unlink_cells[OF assms] live by (simp add: sp_inv_def[of "sp_unlink nd i h"])
qed

text \<open>Filling a NULL slot with a copy, or with a new owner of an object nobody owns.\<close>

lemma set_update_in: "p \<in> set (ps[i := q]) \<Longrightarrow> p = q \<or> p \<in> set ps"
  by (meson set_update_subset_insert insertE subsetD)

lemma sp_inv_place_copy:
  assumes inv: "sp_inv h" and i: "i < length (slots h)" "slots h ! i = sp_null"
    and q: "q \<in> set (slots h)" "pn q = Some c"
  shows "sp_inv (cell_add c 1 (set_slot i q h))"
proof -
  let ?h = "cell_add c 1 (set_slot i q h)"
  have sl: "slots ?h = (slots h)[i := q]" "objs ?h = objs h" "fresh ?h = fresh h"
    by (auto simp: cell_add_def set_slot_def)
  have rf: "refs ((slots h)[i := q]) d = refs (slots h) d + (if d = c then 1 else 0)" for d
    using refs_update[OF i(1), of q d] i(2) q(2) by (auto split: if_splits)
  have "cells h c = Some (int (refs (slots h) c))"
    using sp_inv_cell[OF inv] q refs_pos by blast
  moreover have "cells h d = (if refs (slots h) d = 0 then None else Some (int (refs (slots h) d)))" for d
    using inv by (simp add: sp_inv_def)
  ultimately have "cells ?h d = (if refs (slots ?h) d = 0 then None else Some (int (refs (slots ?h) d)))" for d
    unfolding sl rf by (simp add: cell_add_def set_slot_def)
  moreover have "(px p = None \<longleftrightarrow> pn p = None) \<and> (\<forall>x. px p = Some x \<longrightarrow> x \<in> objs h) \<and>
      (\<forall>c. pn p = Some c \<longrightarrow> c < fresh h) \<and> (\<forall>r\<in>set ((slots h)[i := q]). pn p = pn r \<longleftrightarrow> px p = px r)"
    if "p \<in> set ((slots h)[i := q])" for p
    using set_update_in[OF that] set_update_in[of _ "slots h" i q] inv q(1) unfolding sp_inv_def by metis
  ultimately show ?thesis unfolding sp_inv_def sl by blast
qed

definition sp_own_new :: "nat \<Rightarrow> nat \<Rightarrow> spheap \<Rightarrow> spheap" where
  "sp_own_new i x h = set_slot i \<lparr> px = Some x, pn = Some (fresh h) \<rparr>
     (h\<lparr> cells := (cells h)(fresh h := Some 1), fresh := fresh h + 1 \<rparr>)"

lemma sp_inv_own_new:
  assumes inv: "sp_inv h" and i: "i < length (slots h)" "slots h ! i = sp_null"
    and x: "x \<in> objs h" "\<forall>p\<in>set (slots h). px p \<noteq> Some x"
  shows "sp_inv (sp_own_new i x h)"
proof -
  let ?q = "\<lparr> px = Some x, pn = Some (fresh h) \<rparr>"
  have sl: "slots (sp_own_new i x h) = (slots h)[i := ?q]" "objs (sp_own_new i x h) = objs h"
    "fresh (sp_own_new i x h) = Suc (fresh h)" "cells (sp_own_new i x h) = (cells h)(fresh h := Some 1)"
    by (auto simp: sp_own_new_def set_slot_def)
  have lt: "pn p \<noteq> Some (fresh h)" if "p \<in> set (slots h)" for p
    using inv that unfolding sp_inv_def by blast
  then have r0: "refs (slots h) (fresh h) = 0" using refs_pos by (metis gr0I)
  have rf: "refs ((slots h)[i := ?q]) d = refs (slots h) d + (if d = fresh h then 1 else 0)" for d
    using refs_update[OF i(1), of ?q d] i(2) by (auto split: if_splits)
  have "cells h d = (if refs (slots h) d = 0 then None else Some (int (refs (slots h) d)))" for d
    using inv by (simp add: sp_inv_def)
  then have "cells (sp_own_new i x h) d = (if refs (slots (sp_own_new i x h)) d = 0 then None
      else Some (int (refs (slots (sp_own_new i x h)) d)))" for d
    unfolding sl rf using r0 by simp
  moreover have "(px p = None \<longleftrightarrow> pn p = None) \<and> (\<forall>y. px p = Some y \<longrightarrow> y \<in> objs h) \<and>
      (\<forall>c. pn p = Some c \<longrightarrow> c < Suc (fresh h)) \<and>
      (\<forall>r\<in>set ((slots h)[i := ?q]). pn p = pn r \<longleftrightarrow> px p = px r)"
    if p: "p \<in> set ((slots h)[i := ?q])" for p
  proof (cases "p = ?q")
    case True
    have "pn r = Some (fresh h) \<longleftrightarrow> px r = Some x" if "r \<in> set ((slots h)[i := ?q])" for r
      using set_update_in[OF that] x(2) lt by auto
    then show ?thesis using True x(1) by (simp, metis)
  next
    case False
    then have ps: "p \<in> set (slots h)" using set_update_in[OF p] by simp
    have "pn p = pn r \<longleftrightarrow> px p = px r" if "r \<in> set ((slots h)[i := ?q])" for r
      using set_update_in[OF that] ps x(2) lt[OF ps] sp_inv_share[OF inv ps, of r] by auto
    moreover have "(px p = None \<longleftrightarrow> pn p = None) \<and> (\<forall>y. px p = Some y \<longrightarrow> y \<in> objs h) \<and>
        (\<forall>c. pn p = Some c \<longrightarrow> c < fresh h)"
      using inv ps unfolding sp_inv_def by blast
    ultimately show ?thesis by (auto intro: less_SucI)
  qed
  ultimately show ?thesis unfolding sp_inv_def sl by blast
qed

subsection \<open>Programs over shared pointers\<close>

datatype spop = SNew nat nat | SCopy nat nat | SAssign nat nat | SReset nat | SSwap nat nat | SRecover nat

fun sp_exec :: "spop \<Rightarrow> spheap \<Rightarrow> spheap" where
  "sp_exec (SNew i x) h = sp_assign_raw i (Some x) (h\<lparr> objs := insert x (objs h) \<rparr>)"
| "sp_exec (SCopy i j) h = sp_copy_ctor i j (sp_dtor i h)"
| "sp_exec (SAssign i j) h = sp_assign i j h"
| "sp_exec (SReset i) h = sp_reset i h"
| "sp_exec (SSwap i j) h = sp_swap i j h"
| "sp_exec (SRecover i) h = snd (sp_recover i h)"

text \<open>What the user of the class keeps to: valid slots, copies between distinct slots, and every
  raw pointer handed over is a new object.\<close>

fun sp_ok :: "spop \<Rightarrow> spheap \<Rightarrow> bool" where
  "sp_ok (SNew i x) h \<longleftrightarrow> i < length (slots h) \<and> x \<notin> objs h"
| "sp_ok (SCopy i j) h \<longleftrightarrow> i < length (slots h) \<and> j < length (slots h) \<and> i \<noteq> j"
| "sp_ok (SAssign i j) h \<longleftrightarrow> i < length (slots h) \<and> j < length (slots h) \<and> i \<noteq> j"
| "sp_ok (SReset i) h \<longleftrightarrow> i < length (slots h)"
| "sp_ok (SSwap i j) h \<longleftrightarrow> i < length (slots h) \<and> j < length (slots h)"
| "sp_ok (SRecover i) h \<longleftrightarrow> i < length (slots h)"

fun sp_run :: "spop list \<Rightarrow> spheap \<Rightarrow> spheap" where
  "sp_run [] h = h"
| "sp_run (op # ops) h = sp_run ops (sp_exec op h)"

fun sp_oks :: "spop list \<Rightarrow> spheap \<Rightarrow> bool" where
  "sp_oks [] h \<longleftrightarrow> True"
| "sp_oks (op # ops) h \<longleftrightarrow> sp_ok op h \<and> sp_oks ops (sp_exec op h)"

lemma sp_inv_add_obj: "sp_inv h \<Longrightarrow> sp_inv (h\<lparr> objs := insert x (objs h) \<rparr>)"
  by (auto simp: sp_inv_def)

lemma refs_mset: "mset ps = mset qs \<Longrightarrow> refs ps c = refs qs c"
  unfolding refs_def by (metis mset_filter size_mset)

lemma in_update_other: "i \<noteq> j \<Longrightarrow> j < length ps \<Longrightarrow> ps ! j \<in> set (ps[i := q])"
  by (metis length_list_update nth_list_update_neq nth_mem)

lemma sp_inv_assign:
  assumes inv: "sp_inv h" and ij: "i < length (slots h)" "j < length (slots h)" "i \<noteq> j"
  shows "sp_inv (sp_assign i j h)"
proof -
  let ?h = "sp_unlink False i h"
  have h: "sp_inv ?h" by (rule sp_inv_unlink[OF inv ij(1)])
  have sl: "slots ?h ! j = slots h ! j" "slots ?h ! i = sp_null" "i < length (slots ?h)"
    "slots ?h ! j \<in> set (slots ?h)"
    using ij by (simp_all add: in_update_other)
  show ?thesis
  proof (cases "pn (slots h ! j)")
    case None
    then show ?thesis using h sl(1) by (simp add: sp_assign_def Let_def)
  next
    case (Some c)
    then show ?thesis
      using sp_inv_place_copy[OF h sl(3,2,4)] sl(1) ij by (simp add: sp_assign_def Let_def)
  qed
qed

lemma sp_inv_copy:
  assumes inv: "sp_inv h" and ij: "i < length (slots h)" "j < length (slots h)" "i \<noteq> j"
  shows "sp_inv (sp_copy_ctor i j (sp_dtor i h))"
proof -
  let ?h = "sp_unlink False i h"
  have h: "sp_inv ?h" by (rule sp_inv_unlink[OF inv ij(1)])
  have sl: "slots ?h ! j = slots h ! j" "slots ?h ! i = sp_null" "i < length (slots ?h)"
    "slots ?h ! j \<in> set (slots ?h)"
    using ij by (simp_all add: in_update_other)
  show ?thesis
  proof (cases "pn (slots h ! j)")
    case None
    then have "px (slots h ! j) = None" using sp_inv_pp[OF inv nth_mem[OF ij(2)]] by simp
    then have "slots h ! j = sp_null"
      using None by (cases "slots h ! j") (simp add: sp_null_def)
    then have "set_slot i (slots ?h ! j) ?h = ?h"
      using ij by (simp add: set_slot_def)
    then show ?thesis using h None sl(1) by (simp add: sp_copy_ctor_def sp_dtor_def Let_def)
  next
    case (Some c)
    then show ?thesis
      using sp_inv_place_copy[OF h sl(3,2,4)] sl(1) ij
      by (simp add: sp_copy_ctor_def sp_dtor_def Let_def)
  qed
qed

lemma sp_inv_swap:
  assumes inv: "sp_inv h" and ij: "i < length (slots h)" "j < length (slots h)"
  shows "sp_inv (sp_swap i j h)"
proof -
  have ms: "mset ((slots h)[j := slots h ! i, i := slots h ! j]) = mset (slots h)"
    using ij by (metis mset_swap list_update_swap)
  then have "set ((slots h)[j := slots h ! i, i := slots h ! j]) = set (slots h)"
    by (metis set_mset_mset)
  then show ?thesis using inv refs_mset[OF ms]
    by (simp add: sp_inv_def sp_swap_def set_slot_def Let_def)
qed

lemma sp_inv_new:
  assumes inv: "sp_inv h" and i: "i < length (slots h)" and x: "x \<notin> objs h"
  shows "sp_inv (sp_assign_raw i (Some x) (h\<lparr> objs := insert x (objs h) \<rparr>))"
proof -
  let ?h = "h\<lparr> objs := insert x (objs h) \<rparr>"
  let ?u = "sp_unlink False i ?h"
  have h: "sp_inv ?h" by (rule sp_inv_add_obj[OF inv])
  then have u: "sp_inv ?u" by (rule sp_inv_unlink) (simp add: i)
  have nx: "px p \<noteq> Some x" if "p \<in> set (slots h)" for p using inv that x unfolding sp_inv_def by blast
  have "x \<in> objs ?u" using sp_unlink_objs[OF h] i nx by (auto simp: nth_mem)
  moreover have "\<forall>p\<in>set (slots ?u). px p \<noteq> Some x" using nx set_update_null by fastforce
  ultimately have "sp_inv (sp_own_new i x ?u)" using u i by (intro sp_inv_own_new) auto
  then show ?thesis by (simp add: sp_assign_raw_def sp_own_new_def Let_def)
qed

lemma sp_inv_exec: "sp_inv h \<Longrightarrow> sp_ok op h \<Longrightarrow> sp_inv (sp_exec op h)"
  by (cases op) (auto simp: sp_inv_new sp_inv_copy sp_inv_assign sp_inv_swap sp_inv_unlink
      sp_reset_def sp_recover_def)

lemma sp_inv_run: "sp_inv h \<Longrightarrow> sp_oks ops h \<Longrightarrow> sp_inv (sp_run ops h)"
  by (induction ops arbitrary: h) (auto simp: sp_inv_exec)

definition sp_start :: "nat \<Rightarrow> spheap" where
  "sp_start n = \<lparr> cells = (\<lambda>_. None), objs = {}, fresh = 0, slots = replicate n sp_null \<rparr>"

lemma sp_inv_start: "sp_inv (sp_start n)"
proof -
  have "refs (replicate n sp_null) c = 0" for c by (induction n) auto
  then show ?thesis by (simp add: sp_inv_def sp_start_def)
qed

text \<open>C19: In every program over shared pointers that never assigns a pointer to itself and hands
  over only new objects, \<open>use_count\<close> is the number of pointers sharing the object, no pointer refers
  to a deleted object, and dropping a pointer deletes its object exactly when it was the last one.\<close>

theorem shared_ptr_counts_owners:
  assumes "sp_oks ops (sp_start n)" and "i < n" and "slots (sp_run ops (sp_start n)) ! i = p"
    and "px p = Some x" and "length (slots (sp_run ops (sp_start n))) = n"
  shows "let h = sp_run ops (sp_start n) in
     sp_use_count i h = int (length (filter (\<lambda>q. px q = Some x) (slots h))) \<and> x \<in> objs h \<and>
     (x \<notin> objs (sp_reset i h) \<longleftrightarrow> filter (\<lambda>q. px q = Some x) (slots h) = [p])"
proof -
  let ?h = "sp_run ops (sp_start n)"
  have inv: "sp_inv ?h" using sp_inv_run[OF sp_inv_start assms(1)] .
  have i: "i < length (slots ?h)" using assms by simp
  have p: "p \<in> set (slots ?h)" using i assms(3) nth_mem by blast
  obtain c where c: "pn p = Some c" using sp_inv_pp[OF inv p] assms(4) by auto
  have same: "filter (\<lambda>q. px q = Some x) (slots ?h) = filter (\<lambda>q. pn q = Some c) (slots ?h)"
    using sp_inv_share[OF inv p] c assms(4) by (intro filter_cong) (auto, metis+)
  have cnt: "sp_use_count i ?h = int (refs (slots ?h) c)"
    using sp_inv_cell[OF inv] refs_nth_pos[OF i] c assms(3) by (simp add: sp_use_count_def)
  have len: "refs (slots ?h) c = 1 \<longleftrightarrow> filter (\<lambda>q. px q = Some x) (slots ?h) = [p]"
  proof
    assume "refs (slots ?h) c = 1"
    then obtain q where "filter (\<lambda>q. px q = Some x) (slots ?h) = [q]"
      by (auto simp: refs_def same length_Suc_conv)
    moreover have "p \<in> set (filter (\<lambda>q. px q = Some x) (slots ?h))" using p assms(4) by simp
    ultimately show "filter (\<lambda>q. px q = Some x) (slots ?h) = [p]" by simp
  qed (simp add: refs_def flip: same)
  have "x \<notin> objs (sp_reset i ?h) \<longleftrightarrow> sp_unique i ?h"
    using sp_unlink_objs[OF inv i, of False] sp_inv_live[OF inv p assms(4)] assms(3,4)
    by (auto simp: sp_reset_def)
  then show ?thesis
    using cnt len sp_inv_live[OF inv p assms(4)] same unfolding Let_def
    by (simp add: sp_unique_def refs_def)
qed

lemma shared_ptr_counts_owners_witness:
  "let h = sp_run [SNew 0 9, SAssign 1 0, SReset 0] (sp_start 2) in
     sp_use_count 1 h = 1 \<and> 9 \<in> objs h \<and> 9 \<notin> objs (sp_reset 1 h)"
proof -
  let ?ops = "[SNew 0 9, SAssign 1 0, SReset 0]"
  note defs = sp_start_def sp_assign_raw_def sp_assign_def sp_unlink_def sp_reset_def
    set_slot_def cell_add_def Let_def sp_null_def numeral_2_eq_2
  have oks: "sp_oks ?ops (sp_start 2)" by (simp add: defs)
  define h where "h = sp_run ?ops (sp_start 2)"
  have sl: "slots h = [sp_null, \<lparr> px = Some 9, pn = Some 0 \<rparr>]"
    by (simp add: h_def defs)
  have "1 < (2::nat)" by simp
  from shared_ptr_counts_owners[OF oks this, of "\<lparr> px = Some 9, pn = Some 0 \<rparr>" 9]
  show ?thesis unfolding h_def[symmetric] by (simp add: sl Let_def sp_null_def)
qed

text \<open>Assigning a shared pointer to itself is not neutral: the pointer is unlinked before its
  own fields are read, so it ends up NULL, and when it was the only owner the object is deleted.\<close>

theorem shared_ptr_self_assign_drops:
  assumes "sp_inv h" and "i < length (slots h)" and "sp_unique i h" and "px (slots h ! i) = Some x"
  shows "slots (sp_assign i i h) ! i = sp_null \<and> x \<notin> objs (sp_assign i i h)"
  using assms sp_unlink_objs[OF assms(1,2), of False] by (simp add: sp_assign_def Let_def)

lemma shared_ptr_self_assign_drops_witness:
  "9 \<notin> objs (sp_assign 0 0 (sp_run [SNew 0 9] (sp_start 1)))"
proof -
  let ?h = "sp_run [SNew 0 9] (sp_start 1)"
  have "sp_oks [SNew 0 9] (sp_start 1)" by (simp add: sp_start_def)
  then have "sp_inv ?h" by (rule sp_inv_run[OF sp_inv_start])
  moreover have "slots ?h = [\<lparr> px = Some 9, pn = Some 0 \<rparr>]" "cells ?h 0 = Some 1"
    by (simp_all add: sp_start_def sp_assign_raw_def sp_unlink_def set_slot_def Let_def)
  ultimately show ?thesis
    using shared_ptr_self_assign_drops[of ?h 0 9]
    by (simp add: sp_unique_def sp_use_count_def)
qed

section \<open>Gatherable and Scatter\<close>

text \<open>A gatherable object's count is a \<open>size_t\<close>; the atomic add returns the value before the
  addition.  The Scatter handles are slots that hold a gatherable object or NULL.\<close>

type_synonym size_t = "64 word"

record gheap =
  g_count :: "nat \<Rightarrow> size_t option"
  g_handles :: "nat option list"

definition fetch_and_add :: "size_t \<Rightarrow> size_t \<Rightarrow> size_t \<times> size_t" where
  "fetch_and_add v d = (v, v + d)"

definition gather_incr :: "nat \<Rightarrow> gheap \<Rightarrow> (size_t \<times> gheap) result" where
  "gather_incr g h = (case g_count h g of None \<Rightarrow> Inl UseAfterFree
     | Some v \<Rightarrow> (let (r, v') = fetch_and_add v 1 in Inr (r, h\<lparr> g_count := (g_count h)(g := Some v') \<rparr>)))"

definition gather_decr :: "nat \<Rightarrow> gheap \<Rightarrow> (size_t \<times> gheap) result" where
  "gather_decr g h = (case g_count h g of None \<Rightarrow> Inl UseAfterFree
     | Some v \<Rightarrow> (let (r, v') = fetch_and_add v (-1) in Inr (r, h\<lparr> g_count := (g_count h)(g := Some v') \<rparr>)))"

definition gather_count :: "nat \<Rightarrow> gheap \<Rightarrow> size_t result" where
  "gather_count g h = (case g_count h g of None \<Rightarrow> Inl UseAfterFree | Some v \<Rightarrow> Inr v)"

definition set_handle :: "nat \<Rightarrow> nat option \<Rightarrow> gheap \<Rightarrow> gheap" where
  "set_handle i v h = h\<lparr> g_handles := (g_handles h)[i := v] \<rparr>"

definition scatter_disown :: "nat \<Rightarrow> gheap \<Rightarrow> gheap result" where
  "scatter_disown i h = (case g_handles h ! i of
      None \<Rightarrow> Inr h
    | Some g \<Rightarrow> bindE (gather_decr g h) (\<lambda>r. bindE (gather_count g (snd r)) (\<lambda>c.
        Inr (set_handle i None (if c = 0 then (snd r)\<lparr> g_count := (g_count (snd r))(g := None) \<rparr> else snd r)))))"

definition scatter_ctor :: "nat \<Rightarrow> nat \<Rightarrow> gheap \<Rightarrow> gheap result" where
  "scatter_ctor i g h = bindE (gather_incr g (set_handle i (Some g) h)) (\<lambda>r. Inr (snd r))"

definition scatter_dtor :: "nat \<Rightarrow> gheap \<Rightarrow> gheap result" where
  "scatter_dtor i h = scatter_disown i h"

definition scatter_assign :: "nat \<Rightarrow> nat \<Rightarrow> gheap \<Rightarrow> gheap result" where
  "scatter_assign i j h = bindE (scatter_disown i h) (\<lambda>h1.
     Inr (set_handle j None (set_handle i (g_handles h1 ! j) h1)))"

definition scatter_clone :: "nat \<Rightarrow> nat \<Rightarrow> gheap \<Rightarrow> gheap result" where
  "scatter_clone i j h =
     (if g_handles h ! i = g_handles h ! j then Inr h
      else bindE (scatter_disown i h) (\<lambda>h1.
        (case g_handles h1 ! j of
           None \<Rightarrow> Inr h1
         | Some g \<Rightarrow> bindE (gather_incr g (set_handle i (Some g) h1)) (\<lambda>r. Inr (snd r)))))"

subsection \<open>The handle count\<close>

definition gs_inv :: "gheap \<Rightarrow> bool" where
  "gs_inv h \<longleftrightarrow> length (g_handles h) < 2 ^ 64 \<and>
     (\<forall>g v. g_count h g = Some v \<longrightarrow> v = of_nat (count_list (g_handles h) (Some g))) \<and>
     (\<forall>g. Some g \<in> set (g_handles h) \<longrightarrow> g_count h g \<noteq> None)"

lemma count_list_update:
  "i < length xs \<Longrightarrow> count_list (xs[i := y]) x + (if xs ! i = x then 1 else 0) =
     count_list xs x + (if y = x then 1 else 0)"
proof (induction xs arbitrary: i)
  case (Cons a xs)
  show ?case
  proof (cases i)
    case (Suc k)
    then show ?thesis using Cons.IH[of k] Cons.prems by auto
  qed auto
qed simp

lemma count_list_nth_pos: "i < length xs \<Longrightarrow> xs ! i = x \<Longrightarrow> count_list xs x > 0"
  by (metis count_list_0_iff gr0I nth_mem)

lemma count_list_le: "count_list xs x \<le> length xs"
  by (induction xs) auto

lemma of_nat_zero_64: "(of_nat n :: size_t) = 0 \<Longrightarrow> n < 2 ^ 64 \<Longrightarrow> n = 0"
  by (auto simp: word_of_nat_eq_0_iff dest: nat_dvd_not_less)

lemma scatter_disown_ok:
  assumes inv: "gs_inv h" and i: "i < length (g_handles h)"
  shows "\<exists>h'. scatter_disown i h = Inr h' \<and> gs_inv h' \<and> g_handles h' = (g_handles h)[i := None] \<and>
    (\<forall>g. g_count h' g = None \<longleftrightarrow> g_count h g = None \<or>
       (g_handles h ! i = Some g \<and> count_list (g_handles h) (Some g) = 1))"
proof (cases "g_handles h ! i")
  case None
  then have "(g_handles h)[i := None] = g_handles h" by (metis list_update_id)
  then show ?thesis using inv None by (simp add: scatter_disown_def)
next
  case (Some g)
  let ?hs = "(g_handles h)[i := None]"
  have "Some g \<in> set (g_handles h)" using i Some nth_mem by metis
  then have "g_count h g \<noteq> None" using inv unfolding gs_inv_def by blast
  then obtain v where v: "g_count h g = Some v" "v = of_nat (count_list (g_handles h) (Some g))"
    using inv unfolding gs_inv_def by blast
  have pos: "count_list (g_handles h) (Some g) > 0" using count_list_nth_pos[OF i Some] .
  have cnt: "count_list ?hs (Some k) = count_list (g_handles h) (Some k) - (if k = g then 1 else 0)" for k
    using count_list_update[OF i, of None "Some k"] Some by (auto split: if_splits)
  have less: "count_list xs (Some g) < 2 ^ 64" if "length xs = length (g_handles h)" for xs
    using count_list_le[of xs "Some g"] inv that by (simp add: gs_inv_def)
  obtain m where m: "count_list (g_handles h) (Some g) = Suc m" using pos gr0_conv_Suc by blast
  then have hm: "count_list ?hs (Some g) = m" using cnt[of g] by simp
  moreover have "v - 1 = of_nat m" unfolding v(2) m of_nat_Suc by (rule add_diff_cancel_left')
  ultimately have dec: "v - 1 = of_nat (count_list ?hs (Some g))" by (simp only:)
  have z: "v - 1 = 0 \<longleftrightarrow> count_list (g_handles h) (Some g) = 1"
  proof -
    have "count_list ?hs (Some g) < 2 ^ 64" by (rule less) simp
    then have m64: "m < 2 ^ 64" unfolding hm .
    have "(of_nat m :: size_t) = 0 \<longleftrightarrow> m = 0"
    proof
      show "m = 0" if "(of_nat m :: size_t) = 0" using of_nat_zero_64[OF that m64] .
      show "(of_nat m :: size_t) = 0" if "m = 0" by (simp add: that)
    qed
    moreover have "count_list (g_handles h) (Some g) = 1 \<longleftrightarrow> m = 0" unfolding m by arith
    ultimately show ?thesis unfolding dec hm by (simp only:)
  qed
  define h' where "h' = set_handle i None (h\<lparr> g_count := (g_count h)(g := if v - 1 = 0 then None else Some (v - 1)) \<rparr>)"
  have "scatter_disown i h = Inr h'"
    using Some v(1) by (auto simp: scatter_disown_def gather_decr_def gather_count_def fetch_and_add_def
        h'_def set_handle_def Let_def)
  moreover have hh: "g_handles h' = ?hs"
    "g_count h' k = (if k = g then if v - 1 = 0 then None else Some (v - 1) else g_count h k)" for k
    by (simp_all add: h'_def set_handle_def)
  moreover have "gs_inv h'" unfolding gs_inv_def
  proof (intro conjI allI impI)
    show "length (g_handles h') < 2 ^ 64" using inv by (simp add: hh gs_inv_def)
  next
    fix k w assume w: "g_count h' k = Some w"
    show "w = of_nat (count_list (g_handles h') (Some k))"
    proof (cases "k = g")
      case True
      then show ?thesis using w dec unfolding hh by (auto split: if_splits)
    next
      case False
      then have "g_count h k = Some w" using w unfolding hh by simp
      then have "w = of_nat (count_list (g_handles h) (Some k))"
        using inv unfolding gs_inv_def by blast
      then show ?thesis using cnt[of k] False unfolding hh by simp
    qed
  next
    fix k assume k: "Some k \<in> set (g_handles h')"
    then have "Some k \<in> set (g_handles h)" unfolding hh using set_update_in by fastforce
    then have "g_count h k \<noteq> None" using inv unfolding gs_inv_def by blast
    moreover have "v - 1 \<noteq> 0" if "k = g"
    proof
      assume "v - 1 = 0"
      then have "count_list ?hs (Some g) = 0" using z cnt[of g] by simp
      then show False using k that unfolding hh by (simp add: count_list_0_iff)
    qed
    ultimately show "g_count h' k \<noteq> None" unfolding hh by simp
  qed
  moreover have "\<forall>k. g_count h' k = None \<longleftrightarrow> g_count h k = None \<or>
      (g_handles h ! i = Some k \<and> count_list (g_handles h) (Some k) = 1)"
    using z Some v(1) unfolding hh by simp
  ultimately show ?thesis by (intro exI[of _ h']) simp
qed

lemma gs_inv_share:
  assumes inv: "gs_inv h" and i: "i < length (g_handles h)" "g_handles h ! i = None"
    and g: "g_count h g = Some v"
  shows "gs_inv (h\<lparr> g_handles := (g_handles h)[i := Some g], g_count := (g_count h)(g := Some (v + 1)) \<rparr>)"
proof -
  have cnt: "count_list ((g_handles h)[i := Some g]) (Some k) =
      count_list (g_handles h) (Some k) + (if k = g then 1 else 0)" for k
    using count_list_update[OF i(1), of "Some g" "Some k"] i(2) by (auto split: if_splits)
  have "\<forall>k. Some k \<in> set ((g_handles h)[i := Some g]) \<longrightarrow> k = g \<or> Some k \<in> set (g_handles h)"
    using set_update_in by fastforce
  then show ?thesis using inv g by (auto simp: gs_inv_def cnt)
qed

datatype gop = GNew nat | GCtor nat nat | GAssign nat nat | GClone nat nat | GDtor nat

fun g_exec :: "gop \<Rightarrow> gheap \<Rightarrow> gheap result" where
  "g_exec (GNew g) h = Inr (h\<lparr> g_count := (g_count h)(g := Some 0) \<rparr>)"
| "g_exec (GCtor i g) h = scatter_ctor i g h"
| "g_exec (GAssign i j) h = scatter_assign i j h"
| "g_exec (GClone i j) h = scatter_clone i j h"
| "g_exec (GDtor i) h = scatter_dtor i h"

fun g_ok :: "gop \<Rightarrow> gheap \<Rightarrow> bool" where
  "g_ok (GNew g) h \<longleftrightarrow> g_count h g = None"
| "g_ok (GCtor i g) h \<longleftrightarrow> i < length (g_handles h) \<and> g_handles h ! i = None \<and> g_count h g \<noteq> None"
| "g_ok (GAssign i j) h \<longleftrightarrow> i < length (g_handles h) \<and> j < length (g_handles h)"
| "g_ok (GClone i j) h \<longleftrightarrow> i < length (g_handles h) \<and> j < length (g_handles h)"
| "g_ok (GDtor i) h \<longleftrightarrow> i < length (g_handles h)"

fun g_oks :: "gop list \<Rightarrow> gheap \<Rightarrow> bool" where
  "g_oks [] h \<longleftrightarrow> True"
| "g_oks (op # ops) h \<longleftrightarrow> g_ok op h \<and> (case g_exec op h of Inl _ \<Rightarrow> True | Inr h' \<Rightarrow> g_oks ops h')"

lemma gs_inv_new:
  assumes "gs_inv h" "g_count h g = None"
  shows "gs_inv (h\<lparr> g_count := (g_count h)(g := Some 0) \<rparr>)"
proof -
  have "Some g \<notin> set (g_handles h)" using assms by (auto simp: gs_inv_def)
  then have "count_list (g_handles h) (Some g) = 0" by (simp add: count_list_0_iff)
  then show ?thesis using assms by (auto simp: gs_inv_def)
qed

lemma gs_inv_move:
  assumes inv: "gs_inv h" and ij: "i < length (g_handles h)" "j < length (g_handles h)"
    and i: "g_handles h ! i = None"
  shows "gs_inv (set_handle j None (set_handle i (g_handles h ! j) h))"
proof (cases "i = j")
  case True
  then have "(g_handles h)[i := None] = g_handles h" using i by (metis list_update_id)
  then show ?thesis using inv i True by (simp add: set_handle_def)
next
  case False
  have "mset ((g_handles h)[i := g_handles h ! j, j := None]) = mset (g_handles h)"
    using mset_swap[OF ij] i False by (simp add: list_update_swap)
  then have "count_list ((g_handles h)[i := g_handles h ! j, j := None]) x = count_list (g_handles h) x \<and>
      set ((g_handles h)[i := g_handles h ! j, j := None]) = set (g_handles h)" for x
    by (metis count_mset set_mset_mset)
  then show ?thesis using inv by (simp add: gs_inv_def set_handle_def)
qed

lemma g_exec_ok:
  assumes inv: "gs_inv h" and ok: "g_ok op h"
  shows "\<exists>h'. g_exec op h = Inr h' \<and> gs_inv h'"
proof (cases op)
  case (GNew g)
  then show ?thesis using gs_inv_new[OF inv] ok by simp
next
  case (GCtor i g)
  then obtain v where v: "g_count h g = Some v" using ok by auto
  then show ?thesis using gs_inv_share[OF inv, of i g v] ok GCtor
    by (simp add: scatter_ctor_def gather_incr_def fetch_and_add_def set_handle_def)
next
  case (GAssign i j)
  then obtain h' where h': "scatter_disown i h = Inr h'" "gs_inv h'" "g_handles h' = (g_handles h)[i := None]"
    using scatter_disown_ok[OF inv, of i] ok by auto
  then have "gs_inv (set_handle j None (set_handle i (g_handles h' ! j) h'))"
    using ok GAssign by (intro gs_inv_move) auto
  then show ?thesis using h' GAssign by (simp add: scatter_assign_def)
next
  case (GClone i j)
  show ?thesis
  proof (cases "g_handles h ! i = g_handles h ! j")
    case True
    then show ?thesis using GClone inv by (simp add: scatter_clone_def)
  next
    case False
    obtain h' where h': "scatter_disown i h = Inr h'" "gs_inv h'" "g_handles h' = (g_handles h)[i := None]"
      using scatter_disown_ok[OF inv, of i] ok GClone by auto
    show ?thesis
    proof (cases "g_handles h' ! j")
      case None
      then show ?thesis using GClone False h' by (simp add: scatter_clone_def)
    next
      case (Some g)
      then have "Some g \<in> set (g_handles h')" using ok GClone h'(3) nth_mem
        by (metis g_ok.simps(4) length_list_update)
      then obtain v where "g_count h' g = Some v" using h'(2) by (auto simp: gs_inv_def)
      then show ?thesis using gs_inv_share[OF h'(2), of i g v] GClone False Some h' ok
        by (simp add: scatter_clone_def gather_incr_def fetch_and_add_def set_handle_def)
    qed
  qed
next
  case (GDtor i)
  then show ?thesis using scatter_disown_ok[OF inv, of i] ok by (auto simp: scatter_dtor_def)
qed

lemma g_run_ok:
  "gs_inv h \<Longrightarrow> g_oks ops h \<Longrightarrow> \<exists>h'. foldE g_exec ops h = Inr h' \<and> gs_inv h'"
proof (induction ops arbitrary: h)
  case (Cons op ops)
  then obtain h' where "g_exec op h = Inr h'" "gs_inv h'" using g_exec_ok[of h op] by auto
  then show ?case using Cons by auto
qed simp

definition g_start :: "nat \<Rightarrow> gheap" where
  "g_start n = \<lparr> g_count = (\<lambda>_. None), g_handles = replicate n None \<rparr>"

text \<open>Any program of constructions, moves, clones and destructions of Scatter handles runs
  without touching a deleted gatherable object, keeps every live object's count equal to the number
  of handles on it, and destroying a handle then deletes the object exactly when that handle was
  the only one.\<close>

theorem scatter_counts_handles:
  assumes "g_oks ops (g_start n)" and "n < 2 ^ 64"
  shows "\<exists>h. foldE g_exec ops (g_start n) = Inr h \<and>
    (\<forall>g v. g_count h g = Some v \<longrightarrow> v = of_nat (count_list (g_handles h) (Some g))) \<and>
    (\<forall>i g. i < length (g_handles h) \<longrightarrow> g_handles h ! i = Some g \<longrightarrow> (\<exists>h'. scatter_dtor i h = Inr h' \<and>
       (g_count h' g = None \<longleftrightarrow> count_list (g_handles h) (Some g) = 1)))"
proof -
  have "gs_inv (g_start n)" using assms(2) by (simp add: gs_inv_def g_start_def)
  then obtain h where h: "foldE g_exec ops (g_start n) = Inr h" and inv: "gs_inv h"
    using g_run_ok assms(1) by blast
  have "\<exists>h'. scatter_dtor i h = Inr h' \<and> (g_count h' g = None \<longleftrightarrow> count_list (g_handles h) (Some g) = 1)"
    if i: "i < length (g_handles h)" "g_handles h ! i = Some g" for i g
  proof -
    have "Some g \<in> set (g_handles h)" using i nth_mem by metis
    then have "g_count h g \<noteq> None" using inv by (simp add: gs_inv_def)
    then show ?thesis using scatter_disown_ok[OF inv i(1)] i(2) by (auto simp: scatter_dtor_def)
  qed
  then show ?thesis using h inv by (auto simp: gs_inv_def)
qed

lemma scatter_counts_handles_witness:
  "\<exists>h. foldE g_exec [GNew 5, GCtor 0 5, GClone 1 0, GAssign 2 0, GDtor 1] (g_start 3) = Inr h"
proof -
  have "g_oks [GNew 5, GCtor 0 5, GClone 1 0, GAssign 2 0, GDtor 1] (g_start 3)"
    by (simp add: g_start_def scatter_ctor_def scatter_dtor_def scatter_clone_def scatter_assign_def scatter_disown_def
        gather_incr_def gather_decr_def gather_count_def fetch_and_add_def set_handle_def numeral_3_eq_3)
  from scatter_counts_handles[OF this] show ?thesis by auto
qed

text \<open>\<open>incr\<close> and \<open>decr\<close> of a gatherable object return the count before the change, not the
  count after it that their documentation promises.\<close>

theorem gather_incr_returns_old:
  assumes "g_count h g = Some v"
  shows "gather_incr g h = Inr (v, h\<lparr> g_count := (g_count h)(g := Some (v + 1)) \<rparr>) \<and>
    gather_decr g h = Inr (v, h\<lparr> g_count := (g_count h)(g := Some (v - 1)) \<rparr>)"
  using assms by (simp add: gather_incr_def gather_decr_def fetch_and_add_def)

lemma gather_incr_returns_old_witness:
  "\<exists>h'. gather_incr 1 \<lparr> g_count = [1 \<mapsto> 4], g_handles = [] \<rparr> = Inr (4, h')"
proof -
  have "g_count \<lparr> g_count = [1 \<mapsto> 4], g_handles = [] \<rparr> 1 = Some 4" by simp
  from gather_incr_returns_old[OF this] show ?thesis by blast
qed

end
