(* ===== verification/Atomics.thy ===== *)
theory Atomics
  imports Prelude
begin

text \<open>
  runtime/atomic/OFluxAtomic.h: the instances of guards.  AtomicExclusive and AtomicReadWrite with
  their waiter queues, AtomicFree, and the interface the runtime relies on: holders are compatible,
  waiters are granted in arrival order, and nobody waits for a free atomic.  Events are their
  identifiers; the data pointer of an atomic is NULL or an object identifier.
\<close>

section \<open>Acquisition modes\<close>

abbreviation wt_None :: int where "wt_None \<equiv> 0"
abbreviation wt_Read :: int where "wt_Read \<equiv> 1"
abbreviation wt_Write :: int where "wt_Write \<equiv> 2"
abbreviation wt_Exclusive :: int where "wt_Exclusive \<equiv> 3"
abbreviation wt_Upgradeable :: int where "wt_Upgradeable \<equiv> 4"
abbreviation wt_Pool :: int where "wt_Pool \<equiv> 5"
abbreviation wt_Free :: int where "wt_Free \<equiv> 6"

definition convert_wtype_to_string :: "int \<Rightarrow> string" where
  "convert_wtype_to_string w =
     (let conv = [''None '', ''Read '', ''Write'', ''Excl.'', ''Upgr.'']
      in if 0 \<le> w \<and> nat w < length conv then conv ! nat w else ''?    '')"

text \<open>An entry of a waiter queue: the event and the mode it asked for.\<close>

type_synonym aqe = "nat \<times> int"

record acommon =
  ac_data :: "nat option"
  ac_held :: int
  ac_waiters :: "aqe list"

definition acommon_new :: "nat option \<Rightarrow> acommon" where
  "acommon_new d = \<lparr> ac_data = d, ac_held = 0, ac_waiters = [] \<rparr>"

definition waiter_count :: "('a) acommon_scheme \<Rightarrow> nat" where
  "waiter_count a = length (ac_waiters a)"

definition has_no_waiters :: "('a) acommon_scheme \<Rightarrow> bool" where
  "has_no_waiters a \<longleftrightarrow> waiter_count a = 0"

section \<open>AtomicExclusive\<close>

definition ex_release :: "acommon \<Rightarrow> nat list \<times> acommon" where
  "ex_release a = (let a1 = a\<lparr> ac_held := 0 \<rparr> in
     case ac_waiters a1 of
       [] \<Rightarrow> ([], a1)
     | (e, w) # ws \<Rightarrow> ([e], a1\<lparr> ac_waiters := ws, ac_held := 1 \<rparr>))"

definition ex_acquire_or_wait :: "nat \<Rightarrow> int \<Rightarrow> acommon \<Rightarrow> bool \<times> acommon" where
  "ex_acquire_or_wait ev w a = (let res = (ac_held a = 0); a1 = a\<lparr> ac_held := 1 \<rparr> in
     if res then (True, a1)
     else (False, a1\<lparr> ac_waiters := ac_waiters a1 @ [(ev, wt_Exclusive)] \<rparr>))"

section \<open>AtomicReadWrite\<close>

record arw = acommon +
  rw_mode :: int

definition arw_new :: "nat option \<Rightarrow> arw" where
  "arw_new d = \<lparr> ac_data = d, ac_held = 0, ac_waiters = [], rw_mode = wt_None \<rparr>"

text \<open>The loop that grants the run of readers at the head of the queue.\<close>

fun rw_drain :: "bool \<Rightarrow> aqe list \<Rightarrow> nat list \<times> aqe list" where
  "rw_drain has_data [] = ([], [])"
| "rw_drain has_data ((e, w) # ws) =
     (if w = wt_Read \<or> has_data \<and> w = wt_Upgradeable
      then (let (es, rest) = rw_drain has_data ws in (e # es, rest))
      else ([], (e, w) # ws))"

definition rw_release :: "arw \<Rightarrow> nat list \<times> arw" where
  "rw_release a = (let a1 = a\<lparr> ac_held := max (ac_held a - 1) 0 \<rparr> in
     if ac_held a1 = 0
     then (let a2 = a1\<lparr> rw_mode := wt_None \<rparr> in
       case ac_waiters a2 of
         [] \<Rightarrow> ([], a2)
       | (e, w) # ws \<Rightarrow>
           let m = w;
               m' = (if m = wt_Upgradeable then (if ac_data a2 \<noteq> None then wt_Read else wt_Write) else m);
               a3 = a2\<lparr> rw_mode := m' \<rparr>;
               a4 = a3\<lparr> rw_mode := w, ac_held := ac_held a3 + 1, ac_waiters := ws \<rparr>
           in if rw_mode a4 = wt_Read
              then (let (es, rest) = rw_drain (ac_data a4 \<noteq> None) ws in
                    (e # es, a4\<lparr> ac_held := ac_held a4 + int (length es), ac_waiters := rest \<rparr>))
              else ([e], a4))
     else ([], a1))"

definition rw_acquire_or_wait :: "nat \<Rightarrow> int \<Rightarrow> arw \<Rightarrow> bool \<times> arw" where
  "rw_acquire_or_wait ev w a =
     (if ac_held a = 0
      then (let a1 = a\<lparr> ac_held := 1,
                        rw_mode := (if w = wt_Upgradeable then (if ac_data a \<noteq> None then wt_Read else wt_Write) else w) \<rparr>
            in (True, a1\<lparr> rw_mode := w \<rparr>))
      else if rw_mode a = wt_Read \<and> length (ac_waiters a) = 0 \<and>
              (w = wt_Upgradeable \<and> ac_data a \<noteq> None \<or> w = wt_Read)
      then (True, a\<lparr> ac_held := ac_held a + 1 \<rparr>)
      else (False, a\<lparr> ac_waiters := ac_waiters a @ [(ev, w)] \<rparr>))"

section \<open>AtomicFree\<close>

record afree =
  af_data :: "nat option"

definition free_held :: "afree \<Rightarrow> int" where "free_held a = 1"

definition free_release :: "afree \<Rightarrow> nat list \<times> afree" where
  "free_release a = ([], a)"

definition free_acquire_or_wait :: "nat \<Rightarrow> int \<Rightarrow> afree \<Rightarrow> bool \<times> afree" where
  "free_acquire_or_wait ev w a = (True, a)"

section \<open>The interface of a guard lock\<close>

text \<open>\<open>rep hs s\<close>: the events (with their modes) \<open>hs\<close> hold the atomic in state \<open>s\<close>.\<close>

fun drain :: "('s \<Rightarrow> nat list \<times> 's) \<Rightarrow> nat \<Rightarrow> 's \<Rightarrow> nat list \<times> 's" where
  "drain release 0 s = ([], s)"
| "drain release (Suc n) s = (let (r, s1) = release s; (rs, s2) = drain release n s1 in (r @ rs, s2))"

datatype lop = LAcquire nat int | LRelease aqe | LSetData "nat option"

text \<open>Running operations against a lock and the multiset of its holders: an event acquires, a holder
  releases (and the released waiters become holders), a holder sets the data pointer.\<close>

fun lk_exec :: "(nat \<Rightarrow> int \<Rightarrow> 's \<Rightarrow> bool \<times> 's) \<Rightarrow> ('s \<Rightarrow> nat list \<times> 's) \<Rightarrow> (nat option \<Rightarrow> 's \<Rightarrow> 's) \<Rightarrow>
    ('s \<Rightarrow> aqe list) \<Rightarrow> lop \<Rightarrow> 's \<times> aqe list \<Rightarrow> 's \<times> aqe list" where
  "lk_exec acquire release poke waiting (LAcquire e w) (s, hs) =
     (case acquire e w s of (True, s') \<Rightarrow> (s', (e, w) # hs) | (False, s') \<Rightarrow> (s', hs))"
| "lk_exec acquire release poke waiting (LRelease h) (s, hs) =
     (if h \<in> set hs
      then (case release s of (rel, s') \<Rightarrow> (s', take (length rel) (waiting s) @ remove1 h hs))
      else (s, hs))"
| "lk_exec acquire release poke waiting (LSetData d) (s, hs) = (poke d s, hs)"

locale guard_lock =
  fixes acquire :: "nat \<Rightarrow> int \<Rightarrow> 's \<Rightarrow> bool \<times> 's"
    and release :: "'s \<Rightarrow> nat list \<times> 's"
    and poke :: "nat option \<Rightarrow> 's \<Rightarrow> 's"
    and waiting :: "'s \<Rightarrow> aqe list"
    and rep :: "aqe list \<Rightarrow> 's \<Rightarrow> bool"
    and compatible :: "aqe list \<Rightarrow> bool"
    and mode_ok :: "int \<Rightarrow> bool"
  assumes acquire_grants: "rep hs s \<Longrightarrow> mode_ok w \<Longrightarrow> acquire e w s = (True, s') \<Longrightarrow>
      rep ((e, w) # hs) s' \<and> waiting s' = waiting s \<and> waiting s = []"
    and acquire_waits: "rep hs s \<Longrightarrow> mode_ok w \<Longrightarrow> acquire e w s = (False, s') \<Longrightarrow>
      rep hs s' \<and> hs \<noteq> [] \<and> waiting s' = waiting s @ [(e, w)]"
    and release_grants: "rep hs s \<Longrightarrow> h \<in> set hs \<Longrightarrow> release s = (rel, s') \<Longrightarrow>
      rel = map fst (take (length rel) (waiting s)) \<and> waiting s' = drop (length rel) (waiting s) \<and>
      rep (take (length rel) (waiting s) @ remove1 h hs) s'"
    and idle: "rep [] s \<Longrightarrow> waiting s = []"
    and excl: "rep hs s \<Longrightarrow> compatible hs"
    and poke_rep: "rep hs s \<Longrightarrow> rep hs (poke d s) \<and> waiting (poke d s) = waiting s"
begin

abbreviation exec :: "lop \<Rightarrow> 's \<times> aqe list \<Rightarrow> 's \<times> aqe list" where
  "exec \<equiv> lk_exec acquire release poke waiting"

lemma exec_rep:
  assumes "rep hs s" "case op of LAcquire e w \<Rightarrow> mode_ok w | _ \<Rightarrow> True"
  shows "case exec op (s, hs) of (s', hs') \<Rightarrow> rep hs' s'"
proof (cases op)
  case (LAcquire e w)
  obtain b s' where "acquire e w s = (b, s')" by (cases "acquire e w s")
  then show ?thesis using LAcquire assms acquire_grants acquire_waits by (cases b) auto
next
  case (LRelease h)
  obtain rel s' where "release s = (rel, s')" by (cases "release s")
  then show ?thesis using LRelease assms release_grants[of hs s h rel s'] by auto
next
  case (LSetData d)
  then show ?thesis using assms poke_rep by auto
qed

lemma run_rep:
  assumes "rep hs s" "\<forall>op\<in>set ops. case op of LAcquire e w \<Rightarrow> mode_ok w | _ \<Rightarrow> True"
  shows "case fold exec ops (s, hs) of (s', hs') \<Rightarrow> rep hs' s' \<and> compatible hs' \<and> (hs' = [] \<longrightarrow> waiting s' = [])"
  using assms
proof (induction ops arbitrary: s hs)
  case Nil
  then show ?case using excl idle by auto
next
  case (Cons op ops)
  obtain s1 hs1 where e: "exec op (s, hs) = (s1, hs1)" by (cases "exec op (s, hs)")
  then have "rep hs1 s1" using exec_rep[OF Cons.prems(1), of op] Cons.prems(2) by auto
  then show ?case using Cons.IH[of hs1 s1] Cons.prems(2) e by auto
qed

text \<open>A request is never lost or served twice: it is granted, waiting, or its holder released.\<close>

lemma exec_requests:
  assumes "rep hs s" "case op of LAcquire e w \<Rightarrow> mode_ok w | _ \<Rightarrow> True"
  shows "case exec op (s, hs) of (s', hs') \<Rightarrow> mset hs' + mset (waiting s') =
    (case op of LAcquire e w \<Rightarrow> {#(e, w)#} | _ \<Rightarrow> {#}) + (mset hs + mset (waiting s)) -
    (case op of LRelease h \<Rightarrow> if h \<in> set hs then {#h#} else {#} | _ \<Rightarrow> {#})"
proof (cases op)
  case (LAcquire e w)
  obtain b s' where "acquire e w s = (b, s')" by (cases "acquire e w s")
  then show ?thesis
    using LAcquire assms acquire_grants[of hs s w e s'] acquire_waits[of hs s w e s'] by (cases b) auto
next
  case (LRelease h)
  obtain rel s' where r: "release s = (rel, s')" by (cases "release s")
  show ?thesis
  proof (cases "h \<in> set hs")
    case True
    have "mset (waiting s) = mset (take (length rel) (waiting s)) + mset (waiting s')"
      using release_grants[OF assms(1) True r] by (metis append_take_drop_id mset_append)
    moreover obtain M where "mset hs = add_mset h M" using True by (meson in_multiset_in_set multi_member_split)
    ultimately show ?thesis using True LRelease r by simp
  qed (simp add: LRelease)
next
  case (LSetData d)
  then show ?thesis using assms poke_rep by auto
qed

text \<open>When the holders release one after the other every waiter is granted, in arrival order, and
  the atomic ends up free.\<close>

lemma drain_all:
  assumes "rep hs s"
  shows "\<exists>s'. drain release (length hs + length (waiting s)) s = (map fst (waiting s), s') \<and> rep [] s'"
  using assms
proof (induction "length hs + length (waiting s)" arbitrary: hs s)
  case 0
  then show ?case by simp
next
  case (Suc n)
  then obtain h hs1 where hs: "hs = h # hs1" using idle by (cases hs) auto
  obtain rel s1 where r: "release s = (rel, s1)" by (cases "release s")
  have rg: "rel = map fst (take (length rel) (waiting s))" "waiting s1 = drop (length rel) (waiting s)"
    "rep (take (length rel) (waiting s) @ hs1) s1"
    using release_grants[OF Suc.prems _ r, of h] hs by auto
  have len: "length rel \<le> length (waiting s)" using rg(1) by (metis length_map length_take min.cobounded1 nat_le_linear min.absorb2)
  then have "n = length (take (length rel) (waiting s) @ hs1) + length (waiting s1)"
    using Suc.hyps(2) hs rg(2) by auto
  then obtain s' where s': "drain release n s1 = (map fst (waiting s1), s')" "rep [] s'"
    using Suc.hyps(1)[OF _ rg(3)] by metis
  have "rel @ map fst (waiting s1) = map fst (waiting s)"
    using rg(1,2) by (metis append_take_drop_id map_append)
  then show ?case using s' r Suc.hyps(2)[symmetric] by simp
qed

end

section \<open>The locks of the runtime\<close>

definition ac_poke :: "nat option \<Rightarrow> ('a) acommon_scheme \<Rightarrow> ('a) acommon_scheme" where
  "ac_poke d a = a\<lparr> ac_data := d \<rparr>"

definition ex_compatible :: "aqe list \<Rightarrow> bool" where
  "ex_compatible hs \<longleftrightarrow> length hs \<le> 1"

definition ex_rep :: "aqe list \<Rightarrow> acommon \<Rightarrow> bool" where
  "ex_rep hs a \<longleftrightarrow> ac_held a = int (length hs) \<and> length hs \<le> 1 \<and> (hs = [] \<longrightarrow> ac_waiters a = [])"

definition rw_shares :: "int \<Rightarrow> bool" where
  "rw_shares w \<longleftrightarrow> w = wt_Read \<or> w = wt_Upgradeable"

definition rw_compatible :: "aqe list \<Rightarrow> bool" where
  "rw_compatible hs \<longleftrightarrow> length hs \<le> 1 \<or> (\<forall>h\<in>set hs. rw_shares (snd h))"

definition rw_rep :: "aqe list \<Rightarrow> arw \<Rightarrow> bool" where
  "rw_rep hs a \<longleftrightarrow> ac_held a = int (length hs) \<and> (hs = [] \<longrightarrow> ac_waiters a = []) \<and>
     (rw_mode a = wt_Read \<longrightarrow> (\<forall>h\<in>set hs. rw_shares (snd h))) \<and>
     (rw_mode a \<noteq> wt_Read \<longrightarrow> length hs \<le> 1)"

lemma ex_rep_new: "ex_rep [] (acommon_new d)"
  by (simp add: ex_rep_def acommon_new_def)

lemma rw_rep_new: "rw_rep [] (arw_new d)"
  by (simp add: rw_rep_def arw_new_def)

interpretation exl: guard_lock ex_acquire_or_wait ex_release ac_poke ac_waiters ex_rep ex_compatible
  "\<lambda>w. w = wt_Exclusive"
proof (unfold_locales, goal_cases)
  case (3 hs s h rel s')
  then obtain h' where "hs = [h']" by (cases hs) (auto simp: ex_rep_def)
  then show ?case using 3 by (cases "ac_waiters s")
      (auto simp: ex_rep_def ex_release_def Let_def)
qed (auto simp: ex_rep_def ex_acquire_or_wait_def ex_compatible_def ac_poke_def Let_def le_Suc_eq split: if_splits)

lemma rw_drain_split:
  "rw_drain d ws = (es, rest) \<Longrightarrow> es = map fst (take (length es) ws) \<and> rest = drop (length es) ws \<and>
     length es \<le> length ws \<and> (\<forall>h\<in>set (take (length es) ws). rw_shares (snd h))"
proof (induction d ws arbitrary: es rest rule: rw_drain.induct)
  case (2 d e w ws)
  show ?case
  proof (cases "w = wt_Read \<or> d \<and> w = wt_Upgradeable")
    case True
    then obtain es' where "rw_drain d ws = (es', rest)" "es = e # es'"
      using 2(2) by (auto split: prod.splits)
    then show ?thesis using 2(1)[OF True] True by (auto simp: rw_shares_def)
  qed (use 2(2) in auto)
qed simp

lemma rw_release_grants:
  assumes rep: "rw_rep hs s" and h: "h \<in> set hs" and r: "rw_release s = (rel, s')"
  shows "rel = map fst (take (length rel) (ac_waiters s)) \<and> ac_waiters s' = drop (length rel) (ac_waiters s) \<and>
      rw_rep (take (length rel) (ac_waiters s) @ remove1 h hs) s'"
proof (cases "length hs = 1")
  case False
  then have l: "length hs > 1" using h by (cases hs) auto
  have "length (remove1 h hs) = length hs - 1" using h by (simp add: length_remove1)
  then show ?thesis using l rep r notin_set_remove1[of _ hs h]
    by (auto simp: rw_release_def rw_rep_def Let_def max_def split: if_splits)
next
  case True
  then have hs: "remove1 h hs = []" and held: "max (ac_held s - 1) 0 = 0"
    using rep h by (auto simp: rw_rep_def length_Suc_conv)
  show ?thesis
  proof (cases "ac_waiters s")
    case Nil
    then show ?thesis using r hs held by (auto simp: rw_release_def rw_rep_def Let_def)
  next
    case (Cons q ws)
    obtain e w where q: "q = (e, w)" by (cases q)
    show ?thesis
    proof (cases "w = wt_Read")
      case False
      then show ?thesis using r hs held Cons q by (auto simp: rw_release_def rw_rep_def Let_def)
    next
      case w: True
      obtain es rest where d: "rw_drain (ac_data s \<noteq> None) ws = (es, rest)" by fastforce
      note ds = rw_drain_split[OF d]
      have eq: "rel = e # es" "s' = s\<lparr> ac_held := 1 + int (length es), rw_mode := wt_Read, ac_waiters := rest \<rparr>"
        using r hs held Cons q w d by (auto simp: rw_release_def Let_def)
      then show ?thesis using ds hs Cons q w
        by (auto simp: rw_rep_def rw_shares_def)
    qed
  qed
qed

interpretation rwl: guard_lock rw_acquire_or_wait rw_release ac_poke ac_waiters rw_rep rw_compatible
  "\<lambda>w. w \<in> {wt_Read, wt_Write, wt_Upgradeable}"
proof (unfold_locales, goal_cases)
  case (3 hs s h rel s')
  then show ?case by (rule rw_release_grants)
next
  case (5 hs s)
  then show ?case by (cases "rw_mode s = wt_Read") (auto simp: rw_rep_def rw_compatible_def)
qed (auto simp: rw_rep_def rw_shares_def rw_acquire_or_wait_def ac_poke_def Let_def split: if_splits)

text \<open>C6: Whatever sequence of acquisitions, releases by holders and data updates an exclusive
  guard goes through, at most one event holds it, its held flag says whether one does, and an event
  waits only while another one holds it.\<close>

theorem exclusive_guard_excludes:
  assumes "\<forall>e w. LAcquire e w \<in> set ops \<longrightarrow> w = wt_Exclusive"
    and "fold (lk_exec ex_acquire_or_wait ex_release ac_poke ac_waiters) ops (acommon_new d, []) = (a, hs)"
  shows "length hs \<le> 1 \<and> ac_held a = int (length hs) \<and> (hs = [] \<longrightarrow> ac_waiters a = [])"
proof -
  have "\<forall>op\<in>set ops. case op of LAcquire e w \<Rightarrow> w = wt_Exclusive | _ \<Rightarrow> True"
    using assms(1) by (auto split: lop.splits)
  from exl.run_rep[OF ex_rep_new[of d] this] show ?thesis
    using assms(2) by (simp add: ex_rep_def)
qed

lemma exclusive_guard_excludes_witness:
  "fold (lk_exec ex_acquire_or_wait ex_release ac_poke ac_waiters)
     [LAcquire 1 wt_Exclusive, LAcquire 2 wt_Exclusive, LRelease (1, wt_Exclusive)] (acommon_new None, []) =
     (\<lparr> ac_data = None, ac_held = 1, ac_waiters = [] \<rparr>, [(2, wt_Exclusive)]) \<and>
   length [(2::nat, wt_Exclusive)] \<le> 1"
proof -
  let ?ops = "[LAcquire 1 wt_Exclusive, LAcquire 2 wt_Exclusive, LRelease (1, wt_Exclusive)]"
  have f: "fold (lk_exec ex_acquire_or_wait ex_release ac_poke ac_waiters) ?ops (acommon_new None, []) =
     (\<lparr> ac_data = None, ac_held = 1, ac_waiters = [] \<rparr>, [(2, wt_Exclusive)])"
    by (simp add: ex_acquire_or_wait_def ex_release_def acommon_new_def Let_def)
  show ?thesis using f exclusive_guard_excludes[OF _ f] by simp
qed

text \<open>C4: Whatever sequence of acquisitions, releases by holders and data updates a read/write guard
  goes through, a writer holds it alone (several holders are all readers or upgradeables), its held
  count is the number of holders, and an event waits only while another one holds it.\<close>

theorem read_write_guard_excludes:
  assumes "\<forall>e w. LAcquire e w \<in> set ops \<longrightarrow> w \<in> {wt_Read, wt_Write, wt_Upgradeable}"
    and "fold (lk_exec rw_acquire_or_wait rw_release ac_poke ac_waiters) ops (arw_new d, []) = (a, hs)"
  shows "(\<forall>e. (e, wt_Write) \<in> set hs \<longrightarrow> hs = [(e, wt_Write)]) \<and> rw_compatible hs \<and>
    ac_held a = int (length hs) \<and> (hs = [] \<longrightarrow> ac_waiters a = [])"
proof -
  have "\<forall>op\<in>set ops. case op of LAcquire e w \<Rightarrow> w \<in> {wt_Read, wt_Write, wt_Upgradeable} | _ \<Rightarrow> True"
    using assms(1) by (auto split: lop.splits)
  from rwl.run_rep[OF rw_rep_new[of d] this]
  have rep: "rw_rep hs a" "rw_compatible hs" using assms(2) by auto
  have "hs = [(e, wt_Write)]" if "(e, wt_Write) \<in> set hs" for e
  proof -
    have "length hs \<le> 1" using rep(2) that by (auto simp: rw_compatible_def rw_shares_def)
    then show ?thesis using that by (cases hs) auto
  qed
  then show ?thesis using rep by (simp add: rw_rep_def)
qed

lemma read_write_guard_excludes_witness:
  "fold (lk_exec rw_acquire_or_wait rw_release ac_poke ac_waiters)
     [LAcquire 5 wt_Read, LAcquire 2 wt_Read, LAcquire 3 wt_Write, LRelease (5, wt_Read), LRelease (2, wt_Read)]
     (arw_new None, []) =
     (\<lparr> ac_data = None, ac_held = 1, ac_waiters = [], rw_mode = wt_Write \<rparr>, [(3, wt_Write)]) \<and>
   rw_compatible [(3, wt_Write)]"
proof -
  let ?ops = "[LAcquire 5 wt_Read, LAcquire 2 wt_Read, LAcquire 3 wt_Write, LRelease (5, wt_Read), LRelease (2, wt_Read)]"
  let ?a = "\<lambda>h ws m. \<lparr> ac_data = None, ac_held = h, ac_waiters = ws, rw_mode = m \<rparr>"
  note defs = rw_acquire_or_wait_def rw_release_def arw_new_def
  have steps: "rw_acquire_or_wait 5 wt_Read (arw_new None) = (True, ?a 1 [] wt_Read)"
    "rw_acquire_or_wait 2 wt_Read (?a 1 [] wt_Read) = (True, ?a 2 [] wt_Read)"
    "rw_acquire_or_wait 3 wt_Write (?a 2 [] wt_Read) = (False, ?a 2 [(3, wt_Write)] wt_Read)"
    "rw_release (?a 2 [(3, wt_Write)] wt_Read) = ([], ?a 1 [(3, wt_Write)] wt_Read)"
    "rw_release (?a 1 [(3, wt_Write)] wt_Read) = ([3], ?a 1 [] wt_Write)"
    by (simp_all add: defs)
  have f: "fold (lk_exec rw_acquire_or_wait rw_release ac_poke ac_waiters) ?ops (arw_new None, []) =
     (?a 1 [] wt_Write, [(3, wt_Write)])"
    by (simp add: steps)
  have m: "\<forall>e w. LAcquire e w \<in> set ?ops \<longrightarrow> w \<in> {wt_Read, wt_Write, wt_Upgradeable}" by auto
  from read_write_guard_excludes[OF m f] have "rw_compatible [(3, wt_Write)]" by (elim conjE)
  then show ?thesis by (rule conjI[OF f])
qed

text \<open>C5: Every waiter of a read/write guard is served: when its holders and then the granted
  waiters release one after the other, all waiters are granted in arrival order and the guard ends
  up free with an empty queue.\<close>

theorem read_write_guard_serves_all:
  assumes "rw_rep hs a"
  shows "\<exists>a'. drain rw_release (length hs + length (ac_waiters a)) a = (map fst (ac_waiters a), a') \<and>
    ac_held a' = 0 \<and> ac_waiters a' = []"
  using rwl.drain_all[OF assms] by (auto simp: rw_rep_def)

lemma read_write_guard_serves_all_witness:
  "\<exists>a'. drain rw_release 4 \<lparr> ac_data = None, ac_held = 1, ac_waiters = [(7, wt_Read), (8, wt_Write), (9, wt_Read)],
      rw_mode = wt_Write \<rparr> = ([7, 8, 9], a')"
  using read_write_guard_serves_all[of "[(6, wt_Write)]" "\<lparr> ac_data = None, ac_held = 1,
      ac_waiters = [(7, wt_Read), (8, wt_Write), (9, wt_Read)], rw_mode = wt_Write \<rparr>"]
  by (auto simp: rw_rep_def numeral_eq_Suc)

text \<open>An upgradeable acquisition of a free guard whose data is set computes the mode Read and
  then overwrites it with Upgradeable, so the guard is held exclusively: a later reader waits, while
  with the acquisitions in the other order both hold the guard together.\<close>

theorem upgradeable_first_is_exclusive:
  assumes "ac_held a = 0" and "ac_waiters a = []" and "ac_data a = Some d"
  shows "(let (r1, a1) = rw_acquire_or_wait u wt_Upgradeable a; (r2, a2) = rw_acquire_or_wait r wt_Read a1
      in r1 \<and> \<not> r2 \<and> rw_mode a2 = wt_Upgradeable \<and> ac_waiters a2 = [(r, wt_Read)]) \<and>
    (let (r1, a1) = rw_acquire_or_wait r wt_Read a; (r2, a2) = rw_acquire_or_wait u wt_Upgradeable a1
      in r1 \<and> r2 \<and> rw_mode a2 = wt_Read \<and> ac_waiters a2 = [])"
  using assms by (simp add: rw_acquire_or_wait_def)

lemma upgradeable_first_is_exclusive_witness:
  "\<exists>a2. rw_acquire_or_wait 2 wt_Read (snd (rw_acquire_or_wait 1 wt_Upgradeable (arw_new (Some 5)))) = (False, a2)"
  using upgradeable_first_is_exclusive[of "arw_new (Some 5)" 5 1 2]
  by (auto simp: arw_new_def split: prod.splits)

end
