(* ===== verification/Guards.thy ===== *)
theory Guards
  imports Atomics
begin

text \<open>
  Guards and their instances: the atomics behind a guard (runtime/atomic/OFluxAtomic.h and .cpp: the
  trivial map, the standard map, the pool), the key comparison, the helpers that populate guards
  (runtime/atomic/OFluxAtomicInit.cpp), and the guard and guard reference objects of the flow
  (runtime/flow/OFluxFlowGuard.h).  Atomics live in a heap; a guard is an entry of a table.
  Guard keys are values of a linearly ordered type \<open>'k\<close>.
\<close>

section \<open>The heap of atomics\<close>

record pooled =
  pd_data :: "nat option"
  pd_pool :: nat
  pd_next :: "nat option"

datatype atomic = AExclusive acommon | AReadWrite arw | AFree afree | APooled pooled

datatype akind = KExclusive | KReadWrite | KFree

definition atomic_new :: "akind \<Rightarrow> nat option \<Rightarrow> atomic" where
  "atomic_new k d = (case k of KExclusive \<Rightarrow> AExclusive (acommon_new d)
     | KReadWrite \<Rightarrow> AReadWrite (arw_new d) | KFree \<Rightarrow> AFree \<lparr> af_data = d \<rparr>)"

fun atomic_data :: "atomic \<Rightarrow> nat option" where
  "atomic_data (AExclusive a) = ac_data a"
| "atomic_data (AReadWrite a) = ac_data a"
| "atomic_data (AFree a) = af_data a"
| "atomic_data (APooled a) = pd_data a"

fun atomic_set_data :: "nat option \<Rightarrow> atomic \<Rightarrow> atomic" where
  "atomic_set_data d (AExclusive a) = AExclusive (a\<lparr> ac_data := d \<rparr>)"
| "atomic_set_data d (AReadWrite a) = AReadWrite (a\<lparr> ac_data := d \<rparr>)"
| "atomic_set_data d (AFree a) = AFree (a\<lparr> af_data := d \<rparr>)"
| "atomic_set_data d (APooled a) = APooled (a\<lparr> pd_data := d \<rparr>)"

fun is_pool_like :: "atomic \<Rightarrow> bool" where
  "is_pool_like (APooled a) = True"
| "is_pool_like _ = False"

fun can_relinquish :: "atomic \<Rightarrow> bool" where
  "can_relinquish (APooled a) = True"
| "can_relinquish _ = False"

section \<open>Keys\<close>

text \<open>A key pointer is NULL, the address of the static placeholder of a keyless guard, or the
  address (here an identifier) of a persistent key object with its value.\<close>

datatype 'k kptr = KNull | KStatic | KPtr nat 'k

definition k_compare :: "'k::linorder option \<Rightarrow> 'k option \<Rightarrow> int" where
  "k_compare v1 v2 = (case (v1, v2) of
      (Some k1, Some k2) \<Rightarrow> (if k1 < k2 then -1 else if k2 < k1 then 1 else 0)
    | (None, Some _) \<Rightarrow> -1
    | (Some _, None) \<Rightarrow> 1
    | (None, None) \<Rightarrow> 0)"

fun kval :: "'k kptr \<Rightarrow> 'k option" where
  "kval (KPtr i k) = Some k"
| "kval _ = None"

section \<open>Guards\<close>

text \<open>AtomicPool: the waiting events, the free data, and the free list of pooled atomics, linked
  through their next fields.\<close>

record pool =
  pl_q :: "nat list"
  pl_dq :: "nat list"
  pl_list :: "nat option"
  pl_last :: "nat option"

definition pool_new :: pool where
  "pool_new = \<lparr> pl_q = [], pl_dq = [], pl_list = None, pl_last = None \<rparr>"

text \<open>AtomicMapTrivial owns one atomic; AtomicMapStdMap relates key objects to atomics, in key
  order.\<close>

datatype 'k gmap = GTrivial nat | GStd akind "('k \<times> nat \<times> nat) list" | GPool pool

record 'k guard =
  g_magic :: int
  g_map :: "'k gmap"
  g_is_gc :: bool

record 'k gworld =
  gw_atoms :: "nat \<Rightarrow> atomic option"
  gw_guards :: "nat \<Rightarrow> 'k guard"
  gw_next :: nat

definition set_atom :: "nat \<Rightarrow> atomic \<Rightarrow> ('k, 'z) gworld_scheme \<Rightarrow> ('k, 'z) gworld_scheme" where
  "set_atom a x w = w\<lparr> gw_atoms := (gw_atoms w)(a := Some x) \<rparr>"

definition set_gmap :: "nat \<Rightarrow> 'k gmap \<Rightarrow> ('k, 'z) gworld_scheme \<Rightarrow> ('k, 'z) gworld_scheme" where
  "set_gmap g m w = w\<lparr> gw_guards := (gw_guards w)(g := (gw_guards w g)\<lparr> g_map := m \<rparr>) \<rparr>"

definition atom_of :: "nat \<Rightarrow> ('k, 'z) gworld_scheme \<Rightarrow> atomic result" where
  "atom_of a w = (case gw_atoms w a of None \<Rightarrow> Inl UseAfterFree | Some x \<Rightarrow> Inr x)"

definition pool_of :: "nat \<Rightarrow> ('k, 'z) gworld_scheme \<Rightarrow> pool" where
  "pool_of g w = (case g_map (gw_guards w g) of GPool p \<Rightarrow> p | _ \<Rightarrow> pool_new)"

subsection \<open>AtomicPool\<close>

definition pool_get_data :: "pool \<Rightarrow> nat option \<times> pool" where
  "pool_get_data p = (case pl_dq p of [] \<Rightarrow> (None, p) | d # ds \<Rightarrow> (Some d, p\<lparr> pl_dq := ds \<rparr>))"

definition pool_put_data :: "nat option \<Rightarrow> pool \<Rightarrow> pool result" where
  "pool_put_data d p = (case d of None \<Rightarrow> Inl AssertFailed | Some x \<Rightarrow> Inr (p\<lparr> pl_dq := pl_dq p @ [x] \<rparr>))"

definition pool_get_waiter :: "pool \<Rightarrow> nat option \<times> pool" where
  "pool_get_waiter p = (case pl_q p of [] \<Rightarrow> (None, p) | e # es \<Rightarrow> (Some e, p\<lparr> pl_q := es \<rparr>))"

definition pool_put_waiter :: "nat \<Rightarrow> pool \<Rightarrow> pool" where
  "pool_put_waiter e p = p\<lparr> pl_q := pl_q p @ [e] \<rparr>"

definition pool_waiter_count :: "pool \<Rightarrow> nat" where
  "pool_waiter_count p = length (pl_q p)"

text \<open>\<open>AtomicPool::get\<close>: take the head of the free list or make a new pooled atomic.\<close>

definition pool_get :: "nat \<Rightarrow> ('k, 'z) gworld_scheme \<Rightarrow> (nat \<times> ('k, 'z) gworld_scheme) result" where
  "pool_get g w = (let p = pool_of g w in
     bindE (case pl_list p of
        Some a \<Rightarrow> (case gw_atoms w a of
            Some (APooled x) \<Rightarrow>
              (let p1 = p\<lparr> pl_list := pd_next x \<rparr>;
                   p2 = (if pl_list p1 = None then p1\<lparr> pl_last := None \<rparr> else p1)
               in Inr (a, set_atom a (APooled (x\<lparr> pd_next := None \<rparr>)) (set_gmap g (GPool p2) w)))
          | _ \<Rightarrow> Inl UseAfterFree)
      | None \<Rightarrow>
          (let a = gw_next w in
           Inr (a, (set_atom a (APooled \<lparr> pd_data = None, pd_pool = g, pd_next = None \<rparr>) w)\<lparr> gw_next := a + 1 \<rparr>)))
     (\<lambda>(a, w1). bindE (atom_of a w1) (\<lambda>x. assertE (atomic_data x = None) (Inr (a, w1)))))"

text \<open>\<open>AtomicPool::put\<close>: an atomic already in the free list (it has a next, or it is the last) is
  left alone.\<close>

definition pool_put :: "nat \<Rightarrow> ('k, 'z) gworld_scheme \<Rightarrow> ('k, 'z) gworld_scheme result" where
  "pool_put a w = (case gw_atoms w a of
      Some (APooled x) \<Rightarrow>
        (let p = pool_of (pd_pool x) w in
         if pd_next x = None \<and> pl_last p \<noteq> Some a
         then assertE (pd_data x = None)
           (let x1 = x\<lparr> pd_next := pl_list p \<rparr>;
                p1 = (if pl_list p = None then p\<lparr> pl_last := Some a \<rparr> else p)
            in Inr (set_atom a (APooled x1) (set_gmap (pd_pool x) (GPool (p1\<lparr> pl_list := Some a \<rparr>)) w)))
         else Inr w)
    | _ \<Rightarrow> Inl UseAfterFree)"

text \<open>\<open>AtomicPooled::release\<close>: the data goes to the atomic the first waiter is working on (found by
  the argument \<open>target\<close>), or back to the pool.\<close>

definition pooled_release :: "(nat \<Rightarrow> nat option) \<Rightarrow> nat \<Rightarrow> ('k, 'z) gworld_scheme \<Rightarrow>
    (nat list \<times> ('k, 'z) gworld_scheme) result" where
  "pooled_release target a w = (case gw_atoms w a of
      Some (APooled x) \<Rightarrow>
        (let g = pd_pool x; p = pool_of g w in
         if pool_waiter_count p \<noteq> 0
         then (case pool_get_waiter p of (we, p1) \<Rightarrow>
           (case we of None \<Rightarrow> Inl NullDeref | Some e \<Rightarrow>
           (case target e of None \<Rightarrow> Inl NullDeref | Some b \<Rightarrow>
            bindE (atom_of b w) (\<lambda>y.
              let w1 = set_atom b (atomic_set_data (pd_data x) y) (set_gmap g (GPool p1) w) in
              bindE (atom_of a w1) (\<lambda>x1.
                Inr ([e], set_atom a (atomic_set_data None x1) w1))))))
         else
           bindE (case pd_data x of None \<Rightarrow> Inr p | Some d \<Rightarrow> pool_put_data (Some d) p) (\<lambda>p1.
             let w1 = set_atom a (APooled (x\<lparr> pd_data := None \<rparr>)) (set_gmap g (GPool p1) w) in
             bindE (pool_put a w1) (\<lambda>w2. Inr ([], w2))))
    | _ \<Rightarrow> Inl UseAfterFree)"

definition pooled_acquire_or_wait :: "nat \<Rightarrow> nat \<Rightarrow> ('k, 'z) gworld_scheme \<Rightarrow> (bool \<times> ('k, 'z) gworld_scheme) result" where
  "pooled_acquire_or_wait e a w = (case gw_atoms w a of
      Some (APooled x) \<Rightarrow>
        (let g = pd_pool x; (d, p1) = pool_get_data (pool_of g w);
             w1 = set_atom a (APooled (x\<lparr> pd_data := d \<rparr>)) (set_gmap g (GPool p1) w)
         in if d \<noteq> None then Inr (True, w1)
            else Inr (False, set_gmap g (GPool (pool_put_waiter e p1)) w1))
    | _ \<Rightarrow> Inl UseAfterFree)"

definition pooled_relinquish :: "bool \<Rightarrow> nat \<Rightarrow> ('k, 'z) gworld_scheme \<Rightarrow> ('k, 'z) gworld_scheme result" where
  "pooled_relinquish should a w = (case gw_atoms w a of
      Some (APooled x) \<Rightarrow>
        (if should
         then bindE (case pd_data x of
               None \<Rightarrow> Inr w
             | Some d \<Rightarrow> bindE (pool_put_data (Some d) (pool_of (pd_pool x) w)) (\<lambda>p1.
                 Inr (set_atom a (APooled (x\<lparr> pd_data := None \<rparr>)) (set_gmap (pd_pool x) (GPool p1) w))))
           (pool_put a)
         else Inr w)
    | _ \<Rightarrow> Inl UseAfterFree)"

subsection \<open>Virtual dispatch\<close>

definition at_held :: "atomic \<Rightarrow> int" where
  "at_held x = (case x of AExclusive a \<Rightarrow> ac_held a | AReadWrite a \<Rightarrow> ac_held a | AFree a \<Rightarrow> free_held a
     | APooled a \<Rightarrow> (if pd_data a \<noteq> None then 1 else 0))"

definition at_waiter_count :: "atomic \<Rightarrow> ('k, 'z) gworld_scheme \<Rightarrow> nat" where
  "at_waiter_count x w = (case x of AExclusive a \<Rightarrow> waiter_count a | AReadWrite a \<Rightarrow> waiter_count a
     | AFree a \<Rightarrow> 0 | APooled a \<Rightarrow> pool_waiter_count (pool_of (pd_pool a) w))"

definition at_release :: "(nat \<Rightarrow> nat option) \<Rightarrow> nat \<Rightarrow> ('k, 'z) gworld_scheme \<Rightarrow>
    (nat list \<times> ('k, 'z) gworld_scheme) result" where
  "at_release target a w = bindE (atom_of a w) (\<lambda>x. case x of
      AExclusive c \<Rightarrow> (case ex_release c of (rel, c') \<Rightarrow> Inr (rel, set_atom a (AExclusive c') w))
    | AReadWrite c \<Rightarrow> (case rw_release c of (rel, c') \<Rightarrow> Inr (rel, set_atom a (AReadWrite c') w))
    | AFree c \<Rightarrow> (case free_release c of (rel, c') \<Rightarrow> Inr (rel, set_atom a (AFree c') w))
    | APooled c \<Rightarrow> pooled_release target a w)"

definition at_acquire_or_wait :: "nat \<Rightarrow> int \<Rightarrow> nat \<Rightarrow> ('k, 'z) gworld_scheme \<Rightarrow>
    (bool \<times> ('k, 'z) gworld_scheme) result" where
  "at_acquire_or_wait e wt a w = bindE (atom_of a w) (\<lambda>x. case x of
      AExclusive c \<Rightarrow> (case ex_acquire_or_wait e wt c of (b, c') \<Rightarrow> Inr (b, set_atom a (AExclusive c') w))
    | AReadWrite c \<Rightarrow> (case rw_acquire_or_wait e wt c of (b, c') \<Rightarrow> Inr (b, set_atom a (AReadWrite c') w))
    | AFree c \<Rightarrow> (case free_acquire_or_wait e wt c of (b, c') \<Rightarrow> Inr (b, set_atom a (AFree c') w))
    | APooled c \<Rightarrow> pooled_acquire_or_wait e a w)"

definition at_relinquish :: "bool \<Rightarrow> nat \<Rightarrow> ('k, 'z) gworld_scheme \<Rightarrow> ('k, 'z) gworld_scheme result" where
  "at_relinquish should a w = bindE (atom_of a w) (\<lambda>x. case x of
      APooled c \<Rightarrow> pooled_relinquish should a w | _ \<Rightarrow> Inr w)"

subsection \<open>Guard maps\<close>

fun std_find :: "'k \<Rightarrow> ('k \<times> nat \<times> nat) list \<Rightarrow> (nat \<times> nat) option" where
  "std_find k [] = None"
| "std_find k ((k', v) # m) = (if k = k' then Some v else std_find k m)"

fun std_insert :: "'k::linorder \<Rightarrow> nat \<times> nat \<Rightarrow> ('k \<times> nat \<times> nat) list \<Rightarrow> ('k \<times> nat \<times> nat) list" where
  "std_insert k v [] = [(k, v)]"
| "std_insert k v ((k', v') # m) =
     (if k < k' then (k, v) # (k', v') # m else (k', v') # std_insert k v m)"

fun std_erase :: "'k \<Rightarrow> ('k \<times> nat \<times> nat) list \<Rightarrow> ('k \<times> nat \<times> nat) list" where
  "std_erase k [] = []"
| "std_erase k ((k', v) # m) = (if k = k' then m else (k', v) # std_erase k m)"

text \<open>\<open>get\<close> of a guard's map: the atomic for the key and the persistent key pointer.  The standard
  map allocates the key object and the atomic together; both take the next identifier.\<close>

definition amap_get :: "nat \<Rightarrow> 'k::linorder \<Rightarrow> ('k, 'z) gworld_scheme \<Rightarrow>
    (nat \<times> 'k kptr \<times> ('k, 'z) gworld_scheme) result" where
  "amap_get g k w = (case g_map (gw_guards w g) of
      GTrivial a \<Rightarrow> Inr (a, KStatic, w)
    | GStd kind m \<Rightarrow> (case std_find k m of
          Some (kid, a) \<Rightarrow> Inr (a, KPtr kid k, w)
        | None \<Rightarrow> (let i = gw_next w in
            Inr (i, KPtr i k, set_gmap g (GStd kind (std_insert k (i, i) m))
                ((set_atom i (atomic_new kind None) w)\<lparr> gw_next := i + 1 \<rparr>))))
    | GPool p \<Rightarrow> bindE (pool_get g w) (\<lambda>(a, w1). Inr (a, KStatic, w1)))"

definition amap_compare :: "nat \<Rightarrow> 'k::linorder kptr \<Rightarrow> 'k kptr \<Rightarrow> ('k, 'z) gworld_scheme \<Rightarrow> int" where
  "amap_compare g k1 k2 w = (case g_map (gw_guards w g) of
      GTrivial a \<Rightarrow> 0 | GStd kind m \<Rightarrow> k_compare (kval k1) (kval k2) | GPool p \<Rightarrow> 0)"

definition amap_garbage_collect :: "nat \<Rightarrow> 'k::linorder kptr \<Rightarrow> nat \<Rightarrow> ('k, 'z) gworld_scheme \<Rightarrow>
    (bool \<times> ('k, 'z) gworld_scheme) result" where
  "amap_garbage_collect g kp a w = (case g_map (gw_guards w g) of
      GStd kind m \<Rightarrow> (case kp of
          KPtr kid k \<Rightarrow> (case std_find k m of
              None \<Rightarrow> Inr (False, w)
            | Some (kid', a') \<Rightarrow> assertE (a' = a) (assertE (kid' = kid)
                (Inr (True, (set_gmap g (GStd kind (std_erase k m)) w)\<lparr> gw_atoms := (gw_atoms w)(a := None) \<rparr>))))
        | _ \<Rightarrow> Inl NullDeref)
    | _ \<Rightarrow> Inr (False, w))"

text \<open>The walkers: the (key, atomic) pairs in the order \<open>next\<close> delivers them.  The pool walker
  follows the free list, at most \<open>n\<close> steps.\<close>

fun pool_walk :: "nat \<Rightarrow> nat option \<Rightarrow> ('k, 'z) gworld_scheme \<Rightarrow> nat list" where
  "pool_walk 0 p w = []"
| "pool_walk (Suc n) None w = []"
| "pool_walk (Suc n) (Some a) w =
     a # (case gw_atoms w a of Some (APooled x) \<Rightarrow> pool_walk n (pd_next x) w | _ \<Rightarrow> [])"

definition amap_walk :: "nat \<Rightarrow> nat \<Rightarrow> ('k, 'z) gworld_scheme \<Rightarrow> ('k kptr \<times> nat) list" where
  "amap_walk n g w = (case g_map (gw_guards w g) of
      GTrivial a \<Rightarrow> [(KNull, a)]
    | GStd kind m \<Rightarrow> map (\<lambda>(k, kid, a). (KPtr kid k, a)) m
    | GPool p \<Rightarrow> map (\<lambda>a. (KNull, a)) (pool_walk n (pl_list p) w))"

subsection \<open>Guard and GuardReference\<close>

definition guard_garbage_collect :: "nat \<Rightarrow> 'k::linorder kptr \<Rightarrow> nat \<Rightarrow> ('k, 'z) gworld_scheme \<Rightarrow>
    (bool \<times> ('k, 'z) gworld_scheme) result" where
  "guard_garbage_collect g kp a w =
     (if g_is_gc (gw_guards w g) then amap_garbage_collect g kp a w else Inr (False, w))"

record gref =
  gr_fn :: "nat option"
  gr_guard :: nat
  gr_wtype :: int
  gr_late :: bool
  gr_lexical :: int

definition gref_new :: "nat \<Rightarrow> int \<Rightarrow> bool \<Rightarrow> gref" where
  "gref_new g wt late = \<lparr> gr_fn = None, gr_guard = g, gr_wtype = wt, gr_late = late, gr_lexical = -1 \<rparr>"

definition gref_magic :: "gref \<Rightarrow> ('k, 'z) gworld_scheme \<Rightarrow> int" where
  "gref_magic r w = g_magic (gw_guards w (gr_guard r))"

definition gref_late :: "gref \<Rightarrow> ('k, 'z) gworld_scheme \<Rightarrow> bool" where
  "gref_late r w \<longleftrightarrow> gr_late r \<or> g_is_gc (gw_guards w (gr_guard r))"

text \<open>A guard translator function is generated code: applied to the node input and the data of the
  lexically earlier guards it fills the key and says whether the guard is wanted, or throws.\<close>

datatype 'k gtrans = TKey 'k | TSkip | TThrow

definition gref_get :: "(nat \<Rightarrow> 'i \<Rightarrow> (int \<Rightarrow> nat option) \<Rightarrow> 'k gtrans) \<Rightarrow> 'k::linorder \<Rightarrow> gref \<Rightarrow> 'i \<Rightarrow>
    (int \<Rightarrow> nat option) \<Rightarrow> ('k, 'z) gworld_scheme \<Rightarrow> (nat option \<times> 'k kptr \<times> ('k, 'z) gworld_scheme) result" where
  "gref_get gfn new_key r node_in ah w =
     (case (case gr_fn r of None \<Rightarrow> TKey new_key | Some f \<Rightarrow> gfn f node_in ah) of
        TKey k \<Rightarrow> bindE (amap_get (gr_guard r) k w) (\<lambda>(a, kp, w1). Inr (Some a, kp, w1))
      | TSkip \<Rightarrow> Inr (None, KNull, w)
      | TThrow \<Rightarrow> Inr (None, KNull, w))"

text \<open>\<open>Guard::drain\<close>: release every atomic the walker delivers.\<close>

fun drain_atoms :: "(nat \<Rightarrow> nat option) \<Rightarrow> nat list \<Rightarrow> ('k, 'z) gworld_scheme \<Rightarrow>
    (nat list \<times> ('k, 'z) gworld_scheme) result" where
  "drain_atoms target [] w = Inr ([], w)"
| "drain_atoms target (a # as) w = bindE (at_release target a w) (\<lambda>(rel, w1).
     bindE (drain_atoms target as w1) (\<lambda>(rels, w2). Inr (rel @ rels, w2)))"

definition guard_drain :: "(nat \<Rightarrow> nat option) \<Rightarrow> nat \<Rightarrow> nat \<Rightarrow> ('k, 'z) gworld_scheme \<Rightarrow>
    (nat list \<times> ('k, 'z) gworld_scheme) result" where
  "guard_drain target n g w = drain_atoms target (map snd (amap_walk n g w)) w"

subsection \<open>GuardInserter\<close>

text \<open>The inserter collects the pooled atomics it obtained and releases them when it is destroyed.\<close>

definition gi_insert :: "nat \<Rightarrow> 'k::linorder \<Rightarrow> nat option \<Rightarrow> ('k, 'z) gworld_scheme \<times> nat list \<Rightarrow>
    (bool \<times> ('k, 'z) gworld_scheme \<times> nat list) result" where
  "gi_insert g k v s = (case s of (w, to_release) \<Rightarrow>
     bindE (amap_get g k w) (\<lambda>(a, kp, w1). bindE (atom_of a w1) (\<lambda>x.
       let (res, w2) = (if atomic_data x = None then (True, set_atom a (atomic_set_data v x) w1) else (False, w1))
       in Inr (res, w2, if is_pool_like x then to_release @ [a] else to_release))))"

definition gi_swap :: "nat \<Rightarrow> 'k::linorder \<Rightarrow> nat option \<Rightarrow> ('k, 'z) gworld_scheme \<times> nat list \<Rightarrow>
    (nat option \<times> ('k, 'z) gworld_scheme \<times> nat list) result" where
  "gi_swap g k v s = (case s of (w, to_release) \<Rightarrow>
     bindE (amap_get g k w) (\<lambda>(a, kp, w1). bindE (atom_of a w1) (\<lambda>x.
       Inr (atomic_data x, set_atom a (atomic_set_data v x) w1,
            if is_pool_like x then to_release @ [a] else to_release))))"

definition gi_get :: "nat \<Rightarrow> 'k::linorder \<Rightarrow> ('k, 'z) gworld_scheme \<times> nat list \<Rightarrow>
    (nat option \<times> ('k, 'z) gworld_scheme \<times> nat list) result" where
  "gi_get g k s = (case s of (w, to_release) \<Rightarrow>
     bindE (amap_get g k w) (\<lambda>(a, kp, w1). bindE (atom_of a w1) (\<lambda>x. Inr (atomic_data x, w1, to_release))))"

definition gi_destroy :: "(nat \<Rightarrow> nat option) \<Rightarrow> ('k, 'z) gworld_scheme \<times> nat list \<Rightarrow> ('k, 'z) gworld_scheme result" where
  "gi_destroy target s = (case s of (w, to_release) \<Rightarrow>
     bindE (drain_atoms target to_release w) (\<lambda>(rels, w1). assertE (rels = []) (Inr w1)))"

section \<open>Access to the world\<close>

lemma set_atom_simps [simp]:
  "gw_atoms (set_atom a x w) = (gw_atoms w)(a := Some x)" "gw_guards (set_atom a x w) = gw_guards w"
  "gw_next (set_atom a x w) = gw_next w"
  by (simp_all add: set_atom_def)

lemma set_gmap_simps [simp]:
  "gw_atoms (set_gmap g m w) = gw_atoms w" "gw_next (set_gmap g m w) = gw_next w"
  "g_map (gw_guards (set_gmap g m w) h) = (if h = g then m else g_map (gw_guards w h))"
  "g_magic (gw_guards (set_gmap g m w) h) = g_magic (gw_guards w h)"
  "g_is_gc (gw_guards (set_gmap g m w) h) = g_is_gc (gw_guards w h)"
  by (simp_all add: set_gmap_def)

lemma pool_of_set [simp]:
  "pool_of g (set_gmap g (GPool p) w) = p" "pool_of g (set_atom a x w) = pool_of g w"
  "h \<noteq> g \<Longrightarrow> pool_of h (set_gmap g (GPool p) w) = pool_of h w"
  "pool_of g (w\<lparr> gw_next := n \<rparr>) = pool_of g w"
  by (simp_all add: pool_of_def)

lemma set_more [simp]:
  "gworld.more (set_atom a x w) = gworld.more w" "gworld.more (set_gmap g m w) = gworld.more w"
  by (simp_all add: set_atom_def set_gmap_def)

text \<open>The operations on guards leave the rest of the world alone.\<close>

lemma pool_get_more: "pool_get g w = Inr (a, w1) \<Longrightarrow> gworld.more w1 = gworld.more w"
  by (auto simp: pool_get_def Let_def bindE_eq_Inr assertE_eq_Inr atom_of_def split: option.splits atomic.splits if_splits)

lemma pool_put_more: "pool_put a w = Inr w1 \<Longrightarrow> gworld.more w1 = gworld.more w"
  by (auto simp: pool_put_def Let_def assertE_eq_Inr split: option.splits atomic.splits if_splits)

lemma pooled_release_more: "pooled_release t a w = Inr (r, w1) \<Longrightarrow> gworld.more w1 = gworld.more w"
  by (auto simp: pooled_release_def Let_def bindE_eq_Inr split: option.splits atomic.splits if_splits prod.splits
      dest!: pool_put_more)

lemma pooled_acquire_more: "pooled_acquire_or_wait e a w = Inr (b, w1) \<Longrightarrow> gworld.more w1 = gworld.more w"
  by (auto simp: pooled_acquire_or_wait_def Let_def split: option.splits atomic.splits if_splits prod.splits)

lemma pooled_relinquish_more: "pooled_relinquish b a w = Inr w1 \<Longrightarrow> gworld.more w1 = gworld.more w"
  by (auto simp: pooled_relinquish_def bindE_eq_Inr split: option.splits atomic.splits if_splits
      dest!: pool_put_more)

lemma at_release_more:
  assumes "at_release t a w = Inr (r, w1)"
  shows "gworld.more w1 = gworld.more w"
proof (cases "atom_of a w")
  case (Inr x)
  then show ?thesis using assms pooled_release_more[of t a w r w1]
    by (cases x) (auto simp: at_release_def split: prod.splits)
qed (use assms in \<open>simp add: at_release_def\<close>)

lemma at_acquire_more:
  assumes "at_acquire_or_wait e wt a w = Inr (b, w1)"
  shows "gworld.more w1 = gworld.more w"
proof (cases "atom_of a w")
  case (Inr x)
  then show ?thesis using assms pooled_acquire_more[of e a w b w1]
    by (cases x) (auto simp: at_acquire_or_wait_def split: prod.splits)
qed (use assms in \<open>simp add: at_acquire_or_wait_def\<close>)

lemma at_relinquish_more:
  assumes "at_relinquish b a w = Inr w1"
  shows "gworld.more w1 = gworld.more w"
proof (cases "atom_of a w")
  case (Inr x)
  then show ?thesis using assms pooled_relinquish_more[of b a w w1]
    by (cases x) (auto simp: at_relinquish_def split: prod.splits)
qed (use assms in \<open>simp add: at_relinquish_def\<close>)

lemma amap_get_more: "amap_get g k w = Inr (a, kp, w1) \<Longrightarrow> gworld.more w1 = gworld.more w"
  by (auto simp: amap_get_def bindE_eq_Inr Let_def split: gmap.splits option.splits dest!: pool_get_more)

lemma gref_get_more: "gref_get f nk r i ah w = Inr (a, kp, w1) \<Longrightarrow> gworld.more w1 = gworld.more w"
  by (auto simp: gref_get_def bindE_eq_Inr split: gtrans.splits option.splits dest!: amap_get_more)

lemma guard_gc_more: "guard_garbage_collect g kp a w = Inr (b, w1) \<Longrightarrow> gworld.more w1 = gworld.more w"
  by (auto simp: guard_garbage_collect_def amap_garbage_collect_def assertE_eq_Inr
      split: if_splits gmap.splits kptr.splits option.splits)

lemmas gworld_frames = pool_get_more pool_put_more pooled_release_more pooled_acquire_more
  pooled_relinquish_more at_release_more at_acquire_more at_relinquish_more amap_get_more gref_get_more guard_gc_more

section \<open>Key comparison\<close>

text \<open>The key comparison of the standard maps is a total order on keys with the NULL key first:
  antisymmetric in sign, zero exactly on equal keys, and transitive.\<close>

theorem k_compare_total_order:
  "k_compare a b = - k_compare b a \<and> (k_compare a b = 0 \<longleftrightarrow> a = b) \<and>
   (k_compare a b \<le> 0 \<and> k_compare b c \<le> 0 \<longrightarrow> k_compare a c \<le> 0)"
  by (cases a; cases b; cases c) (auto simp: k_compare_def split: if_splits)

lemma k_compare_total_order_witness: "k_compare (None :: nat option) (Some 3) \<le> 0"
  using k_compare_total_order[of None "Some (2::nat)" "Some 3"] by (simp add: k_compare_def)

section \<open>The standard map\<close>

locale key_map =
  fixes find :: "'k \<Rightarrow> 'm \<Rightarrow> 'v option" and ins :: "'k \<Rightarrow> 'v \<Rightarrow> 'm \<Rightarrow> 'm" and erase :: "'k \<Rightarrow> 'm \<Rightarrow> 'm"
    and inv :: "'m \<Rightarrow> bool"
  assumes find_ins: "inv m \<Longrightarrow> find k m = None \<Longrightarrow> find k' (ins k v m) = (if k' = k then Some v else find k' m)"
    and find_erase: "inv m \<Longrightarrow> find k' (erase k m) = (if k' = k then None else find k' m)"
    and inv_ins: "inv m \<Longrightarrow> find k m = None \<Longrightarrow> inv (ins k v m)"
    and inv_erase: "inv m \<Longrightarrow> inv (erase k m)"
begin

lemma erase_ins: "inv m \<Longrightarrow> find k m = None \<Longrightarrow> find k' (erase k (ins k v m)) = find k' m"
  by (simp add: find_ins find_erase inv_ins)

text \<open>Values stay distinct when the inserted one is new.\<close>

lemma ins_injective:
  assumes "inv m" "find k m = None" "\<And>k. find k m \<noteq> Some v"
    and "\<And>a b x. find a m = Some x \<Longrightarrow> find b m = Some x \<Longrightarrow> a = b"
    and "find a (ins k v m) = Some x" "find b (ins k v m) = Some x"
  shows "a = b"
  using assms by (auto simp: find_ins split: if_splits)

end

definition std_sorted :: "('k::linorder \<times> nat \<times> nat) list \<Rightarrow> bool" where
  "std_sorted m \<longleftrightarrow> sorted_wrt (<) (map fst m)"

lemma std_insert_keys: "set (map fst (std_insert k v m)) = insert k (set (map fst m))"
  by (induction k v m rule: std_insert.induct) auto

lemma std_find_None: "std_find k m = None \<longleftrightarrow> k \<notin> set (map fst m)"
  by (induction k m rule: std_find.induct) auto

lemma std_sorted_insert: "std_sorted m \<Longrightarrow> std_find k m = None \<Longrightarrow> std_sorted (std_insert k v m)"
proof (induction k v m rule: std_insert.induct)
  case (2 k v k' v' m)
  then show ?case using std_insert_keys[of k v m]
    by (auto simp: std_sorted_def split: if_splits)
qed (simp add: std_sorted_def)

lemma std_find_insert:
  "std_find k m = None \<Longrightarrow> std_find k' (std_insert k v m) = (if k' = k then Some v else std_find k' m)"
  by (induction k v m rule: std_insert.induct) (auto split: if_splits)

lemma std_erase_keys: "x \<in> set (std_erase k m) \<Longrightarrow> x \<in> set m"
  by (induction k m rule: std_erase.induct) (auto split: if_splits)

lemma std_sorted_erase: "std_sorted m \<Longrightarrow> std_sorted (std_erase k m)"
proof (induction k m rule: std_erase.induct)
  case (2 k k' v m)
  then show ?case by (auto simp: std_sorted_def dest!: std_erase_keys)
qed (simp add: std_sorted_def)

lemma std_find_erase:
  "std_sorted m \<Longrightarrow> std_find k' (std_erase k m) = (if k' = k then None else std_find k' m)"
proof (induction k m rule: std_erase.induct)
  case (2 k k1 v m)
  then show ?case using std_find_None[of k m] by (auto simp: std_sorted_def)
qed simp

interpretation stdm: key_map std_find std_insert std_erase std_sorted
  by unfold_locales (auto simp: std_find_insert std_find_erase std_sorted_insert std_sorted_erase)

text \<open>A map guard's entries refer to live atomics, one per key, all older than the next identifier.\<close>

definition std_ok :: "nat \<Rightarrow> ('k::linorder, 'z) gworld_scheme \<Rightarrow> bool" where
  "std_ok g w \<longleftrightarrow> (\<exists>kind m. g_map (gw_guards w g) = GStd kind m \<and> std_sorted m \<and>
     (\<forall>k i a. std_find k m = Some (i, a) \<longrightarrow> i = a \<and> a < gw_next w \<and> gw_atoms w a \<noteq> None) \<and>
     (\<forall>k k' v. std_find k m = Some v \<and> std_find k' m = Some v \<longrightarrow> k = k'))"

lemma std_okI:
  assumes "g_map (gw_guards w g) = GStd kind m" "std_sorted m"
    and "\<And>k i a. std_find k m = Some (i, a) \<Longrightarrow> i = a \<and> a < gw_next w \<and> gw_atoms w a \<noteq> None"
    and "\<And>k k' v. std_find k m = Some v \<Longrightarrow> std_find k' m = Some v \<Longrightarrow> k = k'"
  shows "std_ok g w"
  using assms unfolding std_ok_def by blast

lemma amap_get_std:
  assumes "std_ok g w"
  shows "\<exists>a kid w1. amap_get g k w = Inr (a, KPtr kid k, w1) \<and> std_ok g w1 \<and>
     amap_get g k w1 = Inr (a, KPtr kid k, w1) \<and> gw_atoms w1 a \<noteq> None \<and>
     (\<forall>k' a' kp' w'. k' \<noteq> k \<and> amap_get g k' w1 = Inr (a', kp', w') \<longrightarrow> a' \<noteq> a)"
proof -
  obtain kind m where gm: "g_map (gw_guards w g) = GStd kind m" and so: "std_sorted m"
    and live: "\<And>k i a. std_find k m = Some (i, a) \<Longrightarrow> i = a \<and> a < gw_next w \<and> gw_atoms w a \<noteq> None"
    and inj: "\<And>k k' v. std_find k m = Some v \<Longrightarrow> std_find k' m = Some v \<Longrightarrow> k = k'"
    using assms by (auto simp: std_ok_def)
  show ?thesis
  proof (cases "std_find k m")
    case (Some v)
    obtain i a where v: "v = (i, a)" by (cases v)
    have "a' \<noteq> a" if "k' \<noteq> k" "amap_get g k' w = Inr (a', kp', w')" for k' a' kp' w'
      using that Some v live inj[of k' v k] gm
      by (auto simp: amap_get_def Let_def split: option.splits prod.splits) blast+
    then show ?thesis using Some v gm live assms
      by (intro exI[of _ a] exI[of _ i] exI[of _ w]) (auto simp: amap_get_def)
  next
    case None
    let ?i = "gw_next w"
    let ?m = "std_insert k (?i, ?i) m"
    let ?w = "set_gmap g (GStd kind ?m) ((set_atom ?i (atomic_new kind None) w)\<lparr> gw_next := ?i + 1 \<rparr>)"
    have f: "std_find k' ?m = (if k' = k then Some (?i, ?i) else std_find k' m)" for k'
      using std_find_insert[OF None] .
    have nv: "std_find k' m \<noteq> Some (?i, ?i)" for k' using live by fastforce
    have inj': "a = b" if "std_find a ?m = Some v" "std_find b ?m = Some v" for a b v
      by (rule stdm.ins_injective[OF so None nv _ that]) (rule inj)
    have ok: "std_ok g ?w"
    proof (rule std_okI)
      show "std_sorted ?m" by (rule std_sorted_insert[OF so None])
      show "i = b \<and> b < gw_next ?w \<and> gw_atoms ?w b \<noteq> None" if "std_find k' ?m = Some (i, b)" for k' i b
        using that live[of k' i b] by (auto simp: f split: if_splits)
    qed (use inj' in \<open>simp_all\<close>)
    have "a' \<noteq> ?i" if "k' \<noteq> k" "amap_get g k' ?w = Inr (a', kp', w')" for k' a' kp' w'
    proof (cases "std_find k' m")
      case None
      then show ?thesis using that by (simp add: amap_get_def f Let_def)
    next
      case (Some v)
      obtain i b where v: "v = (i, b)" by (cases v)
      then have "b < ?i" using live[of k' i b] Some by simp
      then show ?thesis using that Some v by (simp add: amap_get_def f)
    qed
    then show ?thesis using ok None gm f
      by (intro exI[of _ ?i] exI[of _ ?i] exI[of _ ?w]) (auto simp: amap_get_def Let_def)
  qed
qed

text \<open>Looking up a key in a standard guard map always succeeds with a live atomic; looking it up
  again returns the same atomic and key object and changes nothing, and no other key is given that
  atomic.\<close>

theorem guard_map_get_stable:
  assumes "std_ok g w"
  shows "\<exists>a kid w1. amap_get g k w = Inr (a, KPtr kid k, w1) \<and> std_ok g w1 \<and> gw_atoms w1 a \<noteq> None \<and>
     amap_get g k w1 = Inr (a, KPtr kid k, w1) \<and>
     (\<forall>k' a' kp' w'. k' \<noteq> k \<and> amap_get g k' w1 = Inr (a', kp', w') \<longrightarrow> a' \<noteq> a)"
  using amap_get_std[OF assms] by blast

definition std_world :: "akind \<Rightarrow> bool \<Rightarrow> ('k, unit) gworld_scheme" where
  "std_world kind gc = \<lparr> gw_atoms = (\<lambda>_. None),
     gw_guards = (\<lambda>_. \<lparr> g_magic = 1, g_map = GStd kind [], g_is_gc = gc \<rparr>), gw_next = 0 \<rparr>"

lemma std_ok_world: "std_ok g (std_world kind gc)"
  by (simp add: std_ok_def std_world_def std_sorted_def)

lemma guard_map_get_stable_witness:
  "\<exists>a kid w1. amap_get 0 (5::nat) (std_world KExclusive False) = Inr (a, KPtr kid 5, w1) \<and>
     amap_get 0 5 w1 = Inr (a, KPtr kid 5, w1)"
  using guard_map_get_stable[OF std_ok_world[where g = 0 and kind = KExclusive and gc = False], of "5::nat"] by blast

text \<open>Garbage collecting the atomic that a key of a collectable standard map is bound to removes
  exactly that binding and frees exactly that atomic: the other keys keep theirs, and the next
  lookup of the key makes a new atomic.\<close>

theorem guard_map_collect:
  assumes "std_ok g w" and "g_is_gc (gw_guards w g)" and "amap_get g k w = Inr (a, kp, w)"
  shows "\<exists>w1. guard_garbage_collect g kp a w = Inr (True, w1) \<and> gw_atoms w1 a = None \<and> std_ok g w1 \<and>
    (\<forall>b. b \<noteq> a \<longrightarrow> gw_atoms w1 b = gw_atoms w b) \<and>
    (\<forall>k' a'. k' \<noteq> k \<longrightarrow> (\<exists>kp'. amap_get g k' w = Inr (a', kp', w)) \<longrightarrow> (\<exists>kp'. amap_get g k' w1 = Inr (a', kp', w1))) \<and>
    (\<exists>w2. amap_get g k w1 = Inr (gw_next w, KPtr (gw_next w) k, w2))"
proof -
  obtain kind m where gm: "g_map (gw_guards w g) = GStd kind m" and so: "std_sorted m"
    and live: "\<And>k i a. std_find k m = Some (i, a) \<Longrightarrow> i = a \<and> a < gw_next w \<and> gw_atoms w a \<noteq> None"
    and inj: "\<And>k k' v. std_find k m = Some v \<Longrightarrow> std_find k' m = Some v \<Longrightarrow> k = k'"
    using assms(1) by (auto simp: std_ok_def)
  have present: "std_find k' m \<noteq> None" if "amap_get g k' w = Inr (a', kp', w)" for k' a' kp'
  proof
    assume "std_find k' m = None"
    then have "gw_next w = Suc (gw_next w)" using that gm
      by (auto simp: amap_get_def Let_def set_gmap_def set_atom_def dest: arg_cong[of _ _ gw_next])
    then show False by simp
  qed
  obtain i where fk: "std_find k m = Some (i, a)" "kp = KPtr i k"
    using present[OF assms(3)] assms(3) gm by (auto simp: amap_get_def)
  let ?m = "std_erase k m"
  let ?w = "(set_gmap g (GStd kind ?m) w)\<lparr> gw_atoms := (gw_atoms w)(a := None) \<rparr>"
  have fe: "std_find k' ?m = (if k' = k then None else std_find k' m)" for k'
    using std_find_erase[OF so] .
  have gm': "g_map (gw_guards ?w g) = GStd kind ?m" by (simp add: set_gmap_def)
  have res: "guard_garbage_collect g kp a w = Inr (True, ?w)"
    using assms(2) gm fk by (simp add: guard_garbage_collect_def amap_garbage_collect_def)
  have other: "b \<noteq> a" if "k' \<noteq> k" "std_find k' m = Some (j, b)" for k' j b
    using that live[of k' j b] live[of k i a] inj[of k' "(j, b)" k] fk(1) by auto
  have "std_ok g ?w" unfolding std_ok_def
    using gm' std_sorted_erase[OF so] live inj other
    by (intro exI[of _ kind] exI[of _ ?m]) (auto simp: fe split: if_splits)
  moreover have "\<exists>kp'. amap_get g k' ?w = Inr (a', kp', ?w)"
    if "k' \<noteq> k" "amap_get g k' w = Inr (a', kp', w)" for k' a' kp'
    using that present[OF that(2)] gm gm' by (auto simp: amap_get_def fe)
  moreover have "\<exists>w2. amap_get g k ?w = Inr (gw_next w, KPtr (gw_next w) k, w2)"
    using gm' by (simp add: amap_get_def fe Let_def)
  ultimately show ?thesis using res by (intro exI[of _ ?w]) auto
qed

lemma guard_map_collect_witness:
  "\<exists>(w :: (nat, unit) gworld_scheme) kp w1. amap_get 0 5 w = Inr (0, kp, w) \<and> guard_garbage_collect 0 kp 0 w = Inr (True, w1)"
proof -
  let ?w0 = "std_world KExclusive True :: (nat, unit) gworld_scheme"
  obtain a kid w where g: "amap_get 0 5 ?w0 = Inr (a, KPtr kid 5, w)" "std_ok 0 w"
    "amap_get 0 5 w = Inr (a, KPtr kid 5, w)"
    using amap_get_std[OF std_ok_world[where g = 0 and kind = KExclusive and gc = True], of "5::nat"] by blast
  have "a = 0" "g_is_gc (gw_guards w 0)"
    using g(1) by (auto simp: amap_get_def std_world_def Let_def)
  from guard_map_collect[OF g(2) this(2) g(3)] obtain w1 where
    "guard_garbage_collect 0 (KPtr kid 5) a w = Inr (True, w1)" by (elim exE conjE)
  then show ?thesis using g(3) unfolding \<open>a = 0\<close>
    by blast
qed

section \<open>The pool\<close>

text \<open>The free list from a pointer on.\<close>

fun pool_chain :: "('k, 'z) gworld_scheme \<Rightarrow> nat option \<Rightarrow> nat list \<Rightarrow> bool" where
  "pool_chain w p [] \<longleftrightarrow> p = None"
| "pool_chain w p (a # as) \<longleftrightarrow> p = Some a \<and>
     (\<exists>x. gw_atoms w a = Some (APooled x) \<and> pd_data x = None \<and> pool_chain w (pd_next x) as)"

definition pool_free :: "nat \<Rightarrow> ('k, 'z) gworld_scheme \<Rightarrow> nat list \<Rightarrow> bool" where
  "pool_free g w as \<longleftrightarrow> (\<exists>p. g_map (gw_guards w g) = GPool p) \<and> distinct as \<and>
     pool_chain w (pl_list (pool_of g w)) as \<and>
     pl_last (pool_of g w) = (if as = [] then None else Some (last as))"

lemma pool_chain_cong:
  "(\<And>b. b \<in> set as \<Longrightarrow> gw_atoms w b = gw_atoms w' b) \<Longrightarrow> pool_chain w p as = pool_chain w' p as"
  by (induction as arbitrary: p) auto

lemma pool_get_free:
  assumes "pool_free g w (a # as)"
  shows "\<exists>w1. pool_get g w = Inr (a, w1) \<and> pool_free g w1 as"
proof -
  let ?p = "pool_of g w"
  obtain x where x: "gw_atoms w a = Some (APooled x)" "pd_data x = None" "pool_chain w (pd_next x) as"
    and l: "pl_list ?p = Some a" and d: "a \<notin> set as" "distinct as"
    and last: "pl_last ?p = Some (last (a # as))"
    using assms by (auto simp: pool_free_def)
  let ?p1 = "?p\<lparr> pl_list := pd_next x \<rparr>"
  let ?p2 = "if pl_list ?p1 = None then ?p1\<lparr> pl_last := None \<rparr> else ?p1"
  let ?w1 = "set_atom a (APooled (x\<lparr> pd_next := None \<rparr>)) (set_gmap g (GPool ?p2) w)"
  have "pool_get g w = Inr (a, ?w1)"
    using l x by (simp add: pool_get_def Let_def atom_of_def)
  moreover have "pool_chain ?w1 (pd_next x) as = pool_chain w (pd_next x) as"
    using d by (intro pool_chain_cong) auto
  moreover have "pd_next x = None \<longleftrightarrow> as = []" using x(3) by (cases as) auto
  ultimately show ?thesis using d x(3) last
    by (intro exI[of _ ?w1]) (auto simp: pool_free_def)
qed

text \<open>Returning an unused pooled atomic to its pool puts it at the head of the free list, returning
  it a second time changes nothing (the guard against a double insertion works also for the
  last element, whose next pointer is NULL), and the next request gets exactly that atomic back,
  leaving the rest of the free list as it was.\<close>

theorem pool_put_get:
  assumes "pool_free g w as" and "a \<notin> set as" and "gw_atoms w a = Some (APooled x)"
    and "pd_pool x = g" and "pd_next x = None" and "pd_data x = None"
  shows "\<exists>w1 w2. pool_put a w = Inr w1 \<and> pool_free g w1 (a # as) \<and> pool_put a w1 = Inr w1 \<and>
    pool_get g w1 = Inr (a, w2) \<and> pool_free g w2 as"
proof -
  let ?p = "pool_of g w"
  let ?p1 = "if pl_list ?p = None then ?p\<lparr> pl_last := Some a \<rparr> else ?p"
  let ?w1 = "set_atom a (APooled (x\<lparr> pd_next := pl_list ?p \<rparr>)) (set_gmap g (GPool (?p1\<lparr> pl_list := Some a \<rparr>)) w)"
  have l: "pl_list ?p = None \<longleftrightarrow> as = []" using assms(1) by (cases as) (auto simp: pool_free_def)
  have last: "pl_last ?p \<noteq> Some a"
    using assms(1,2) by (auto simp: pool_free_def split: if_splits)
  have r: "pool_put a w = Inr ?w1"
    using assms(3-6) last by (simp add: pool_put_def Let_def)
  have "pool_chain ?w1 (pl_list ?p) as = pool_chain w (pl_list ?p) as"
    using assms(2) by (intro pool_chain_cong) auto
  then have f: "pool_free g ?w1 (a # as)"
    using assms l by (auto simp: pool_free_def)
  have "pool_put a ?w1 = Inr ?w1"
    using assms(4) f l by (auto simp: pool_put_def Let_def pool_free_def)
  then show ?thesis using r f pool_get_free[OF f] by blast
qed

definition pool_world :: "(unit, unit) gworld_scheme" where
  "pool_world = \<lparr> gw_atoms = [0 \<mapsto> APooled \<lparr> pd_data = None, pd_pool = 0, pd_next = None \<rparr>],
     gw_guards = (\<lambda>_. \<lparr> g_magic = 1, g_map = GPool pool_new, g_is_gc = False \<rparr>), gw_next = 1 \<rparr>"

lemma pool_free_world: "pool_free 0 pool_world []"
  by (simp add: pool_free_def pool_world_def pool_of_def pool_new_def)

lemma pool_put_get_witness:
  "\<exists>w1 w2. pool_put 0 pool_world = Inr w1 \<and> pool_put 0 w1 = Inr w1 \<and> pool_get 0 w1 = Inr (0, w2)"
  using pool_put_get[OF pool_free_world, of 0 "\<lparr> pd_data = None, pd_pool = 0, pd_next = None \<rparr>"]
  by (auto simp: pool_world_def)

subsection \<open>Conservation of pool data\<close>

definition opt_mset :: "nat option \<Rightarrow> nat multiset" where
  "opt_mset d = (case d of None \<Rightarrow> {#} | Some x \<Rightarrow> {#x#})"

definition held_data :: "nat \<Rightarrow> ('k, 'z) gworld_scheme \<Rightarrow> nat \<Rightarrow> nat multiset" where
  "held_data g w a = (case gw_atoms w a of
      Some (APooled x) \<Rightarrow> if pd_pool x = g then opt_mset (pd_data x) else {#}
    | _ \<Rightarrow> {#})"

text \<open>All data of a pool: free, or attached to one of its pooled atomics.\<close>

definition pool_data :: "nat \<Rightarrow> ('k, 'z) gworld_scheme \<Rightarrow> nat multiset" where
  "pool_data g w = mset (pl_dq (pool_of g w)) + (\<Sum>a<gw_next w. held_data g w a)"

definition is_pooled :: "nat \<Rightarrow> nat \<Rightarrow> ('k, 'z) gworld_scheme \<Rightarrow> bool" where
  "is_pooled g a w \<longleftrightarrow> a < gw_next w \<and> (\<exists>x. gw_atoms w a = Some (APooled x) \<and> pd_pool x = g)"

lemma held_data_set:
  "held_data g (set_atom a (APooled y) w) b =
     (if b = a then (if pd_pool y = g then opt_mset (pd_data y) else {#}) else held_data g w b)"
  "held_data g (set_gmap h m w) b = held_data g w b"
  by (auto simp: held_data_def)

lemma sum_held_update:
  assumes "a < (n::nat)"
  shows "(\<Sum>b<n. if b = a then v else f b) + f a = (\<Sum>b<n. f b) + (v :: nat multiset)"
proof -
  have "(\<Sum>b<n. if b = a then v else f b) = v + (\<Sum>b\<in>{..<n} - {a}. if b = a then v else f b)"
    using assms by (subst sum.remove[of _ a]) auto
  also have "(\<Sum>b\<in>{..<n} - {a}. if b = a then v else f b) = (\<Sum>b\<in>{..<n} - {a}. f b)"
    by (rule sum.cong) auto
  finally show ?thesis using assms sum.remove[of "{..<n}" a f] by simp
qed

lemma pool_data_set:
  assumes "gw_atoms w a = Some (APooled x)" "pd_pool x = g" "a < gw_next w" "pd_pool y = g"
  shows "pool_data g (set_atom a (APooled y) (set_gmap g (GPool p) w)) + mset (pl_dq (pool_of g w)) + opt_mset (pd_data x) =
    pool_data g w + mset (pl_dq p) + opt_mset (pd_data y)"
proof -
  let ?w = "set_atom a (APooled y) (set_gmap g (GPool p) w)"
  have hx: "held_data g w a = opt_mset (pd_data x)"
    using assms by (simp add: held_data_def)
  have "(\<Sum>b<gw_next w. held_data g ?w b) + held_data g w a =
      (\<Sum>b<gw_next w. held_data g w b) + opt_mset (pd_data y)"
  proof -
    have "held_data g ?w b = (if b = a then opt_mset (pd_data y) else held_data g w b)" for b
      using assms(4) by (simp add: held_data_set)
    then have "(\<Sum>b<gw_next w. held_data g ?w b) =
        (\<Sum>b<gw_next w. if b = a then opt_mset (pd_data y) else held_data g w b)"
      by (intro sum.cong) auto
    then show ?thesis
      using sum_held_update[OF assms(3), of "opt_mset (pd_data y)" "held_data g w"] by (simp only:)
  qed
  then show ?thesis unfolding pool_data_def hx by (simp add: ac_simps)
qed

lemma pool_data_gmap:
  "pool_data g (set_gmap g (GPool p) w) + mset (pl_dq (pool_of g w)) = pool_data g w + mset (pl_dq p)"
  by (simp add: pool_data_def held_data_set ac_simps)

lemma acquire_conserves:
  assumes "is_pooled g a w" "gw_atoms w a = Some (APooled x)" "pd_data x = None"
  shows "\<exists>b w1. pooled_acquire_or_wait e a w = Inr (b, w1) \<and> pool_data g w1 = pool_data g w \<and>
    (b \<longleftrightarrow> pl_dq (pool_of g w) \<noteq> []) \<and>
    pl_q (pool_of g w1) = pl_q (pool_of g w) @ (if b then [] else [e])"
proof -
  have g: "pd_pool x = g" "a < gw_next w" using assms by (auto simp: is_pooled_def)
  let ?p = "pool_of g w"
  show ?thesis
  proof (cases "pl_dq ?p")
    case Nil
    let ?w1 = "set_atom a (APooled (x\<lparr> pd_data := None \<rparr>)) (set_gmap g (GPool ?p) w)"
    let ?w2 = "set_gmap g (GPool (pool_put_waiter e ?p)) ?w1"
    have "pooled_acquire_or_wait e a w = Inr (False, ?w2)"
      using assms(2) g Nil by (simp add: pooled_acquire_or_wait_def pool_get_data_def)
    moreover have "pool_data g ?w2 = pool_data g w"
      using pool_data_set[OF assms(2) g, of "x\<lparr> pd_data := None \<rparr>" ?p]
        pool_data_gmap[of g "pool_put_waiter e ?p" ?w1] assms(3) g
      by (simp add: pool_put_waiter_def opt_mset_def)
    ultimately show ?thesis using Nil
      by (intro exI[of _ False] exI[of _ ?w2]) (simp add: pool_put_waiter_def)
  next
    case (Cons d ds)
    let ?p1 = "?p\<lparr> pl_dq := ds \<rparr>"
    let ?w1 = "set_atom a (APooled (x\<lparr> pd_data := Some d \<rparr>)) (set_gmap g (GPool ?p1) w)"
    have "pooled_acquire_or_wait e a w = Inr (True, ?w1)"
      using assms(2) g Cons by (simp add: pooled_acquire_or_wait_def pool_get_data_def)
    moreover have "pool_data g ?w1 = pool_data g w"
      using pool_data_set[OF assms(2) g, of "x\<lparr> pd_data := Some d \<rparr>" ?p1] assms(3) g Cons
      by (simp add: opt_mset_def)
    ultimately show ?thesis using Cons by (intro exI[of _ True] exI[of _ ?w1]) simp
  qed
qed

lemma pool_put_data_same:
  assumes "is_pooled g a w" "gw_atoms w a = Some (APooled x)" "pd_data x = None"
  shows "\<exists>w1. pool_put a w = Inr w1 \<and> pool_data g w1 = pool_data g w \<and> pl_q (pool_of g w1) = pl_q (pool_of g w)
    \<and> pl_dq (pool_of g w1) = pl_dq (pool_of g w)"
proof -
  have g: "pd_pool x = g" "a < gw_next w" using assms by (auto simp: is_pooled_def)
  let ?p = "pool_of g w"
  have c: "pool_data g (set_atom a (APooled (x\<lparr> pd_next := n \<rparr>)) (set_gmap g (GPool p1) w)) = pool_data g w"
    if "pl_dq p1 = pl_dq ?p" for p1 n
    using pool_data_set[OF assms(2) g, of "x\<lparr> pd_next := n \<rparr>" p1] g assms(3) that by simp
  show ?thesis using assms(2,3) g
    by (cases "pl_list ?p") (simp_all add: pool_put_def Let_def c)
qed

lemma release_conserves:
  assumes a: "is_pooled g a w" "gw_atoms w a = Some (APooled x)" "pd_data x = Some d"
    and t: "\<And>e. e \<in> set (pl_q (pool_of g w)) \<Longrightarrow> \<exists>b y. target e = Some b \<and> b \<noteq> a \<and> is_pooled g b w \<and>
        gw_atoms w b = Some (APooled y) \<and> pd_data y = None"
  shows "\<exists>rel w1. pooled_release target a w = Inr (rel, w1) \<and> pool_data g w1 = pool_data g w \<and>
    rel = take 1 (pl_q (pool_of g w)) \<and> pl_q (pool_of g w1) = drop 1 (pl_q (pool_of g w)) \<and>
    pl_dq (pool_of g w1) = pl_dq (pool_of g w) @ (if pl_q (pool_of g w) = [] then [d] else []) \<and>
    (\<forall>e\<in>set rel. \<exists>b y. target e = Some b \<and> gw_atoms w1 b = Some (APooled y) \<and> pd_data y = Some d)"
proof -
  have g: "pd_pool x = g" "a < gw_next w" using a by (auto simp: is_pooled_def)
  let ?p = "pool_of g w"
  show ?thesis
  proof (cases "pl_q ?p")
    case Nil
    let ?p1 = "?p\<lparr> pl_dq := pl_dq ?p @ [d] \<rparr>"
    let ?w1 = "set_atom a (APooled (x\<lparr> pd_data := None \<rparr>)) (set_gmap g (GPool ?p1) w)"
    have e: "pool_data g ?w1 = pool_data g w"
      using pool_data_set[OF a(2) g, of "x\<lparr> pd_data := None \<rparr>" ?p1] g a(3)
      by (simp add: opt_mset_def)
    have "is_pooled g a ?w1" using g by (simp add: is_pooled_def)
    then obtain w2 where "pool_put a ?w1 = Inr w2" "pool_data g w2 = pool_data g ?w1"
        "pl_q (pool_of g w2) = []" "pl_dq (pool_of g w2) = pl_dq ?p @ [d]"
      using pool_put_data_same[of g a ?w1 "x\<lparr> pd_data := None \<rparr>"] Nil by auto
    then show ?thesis using a(2,3) g Nil e
      by (simp add: pooled_release_def Let_def pool_waiter_count_def pool_put_data_def)
  next
    case (Cons e es)
    then obtain b y where b: "target e = Some b" "b \<noteq> a" "is_pooled g b w"
        "gw_atoms w b = Some (APooled y)" "pd_data y = None" using t[of e] by auto
    have gb: "pd_pool y = g" "b < gw_next w" using b by (auto simp: is_pooled_def)
    let ?p1 = "?p\<lparr> pl_q := es \<rparr>"
    let ?w1 = "set_atom b (APooled (y\<lparr> pd_data := Some d \<rparr>)) (set_gmap g (GPool ?p1) w)"
    let ?w2 = "set_atom a (APooled (x\<lparr> pd_data := None \<rparr>)) ?w1"
    have "pooled_release target a w = Inr ([e], ?w2)"
      using a(2,3) b g Cons
      by (simp add: pooled_release_def Let_def pool_waiter_count_def pool_get_waiter_def atom_of_def)
    moreover have "pool_data g ?w1 = pool_data g w + {#d#}"
      using pool_data_set[OF b(4) gb, of "y\<lparr> pd_data := Some d \<rparr>" ?p1] b(5) gb
      by (simp add: opt_mset_def)
    moreover have "pool_data g ?w2 + {#d#} = pool_data g ?w1"
    proof -
      have "set_gmap g (GPool (pool_of g ?w1)) ?w1 = ?w1"
        by (simp add: set_gmap_def set_atom_def pool_of_def)
      then show ?thesis
        using pool_data_set[of ?w1 a x g "x\<lparr> pd_data := None \<rparr>" "pool_of g ?w1"] a(2,3) b(2) g
        by (simp add: opt_mset_def)
    qed
    ultimately show ?thesis using b(1,2) Cons
      by (intro exI[of _ "[e]"] exI[of _ ?w2]) simp
  qed
qed

text \<open>C17: A pool neither loses nor duplicates its data: acquiring hands a free datum to the pooled
  atomic, or queues the event when there is none; releasing hands the datum to the pooled atomic
  the first waiting event is working on, or returns it to the free data when nobody waits.\<close>

theorem pool_conserves_data:
  assumes "is_pooled g a w" and "gw_atoms w a = Some (APooled x)"
    and "\<And>e. e \<in> set (pl_q (pool_of g w)) \<Longrightarrow> \<exists>b y. target e = Some b \<and> b \<noteq> a \<and> is_pooled g b w \<and>
        gw_atoms w b = Some (APooled y) \<and> pd_data y = None"
  shows "case pd_data x of
      None \<Rightarrow> \<exists>b w1. pooled_acquire_or_wait e a w = Inr (b, w1) \<and> pool_data g w1 = pool_data g w \<and>
        (b \<longleftrightarrow> pl_dq (pool_of g w) \<noteq> []) \<and> pl_q (pool_of g w1) = pl_q (pool_of g w) @ (if b then [] else [e])
    | Some d \<Rightarrow> \<exists>rel w1. pooled_release target a w = Inr (rel, w1) \<and> pool_data g w1 = pool_data g w \<and>
        rel = take 1 (pl_q (pool_of g w)) \<and> pl_q (pool_of g w1) = drop 1 (pl_q (pool_of g w)) \<and>
        (\<forall>e\<in>set rel. \<exists>b y. target e = Some b \<and> gw_atoms w1 b = Some (APooled y) \<and> pd_data y = Some d)"
proof (cases "pd_data x")
  case None
  then show ?thesis using acquire_conserves[OF assms(1,2) None] by simp
next
  case (Some d)
  from release_conserves[OF assms(1,2) Some, of target] assms(3)
  obtain rel w1 where "pooled_release target a w = Inr (rel, w1)" "pool_data g w1 = pool_data g w"
    "rel = take 1 (pl_q (pool_of g w))" "pl_q (pool_of g w1) = drop 1 (pl_q (pool_of g w))"
    "\<forall>e\<in>set rel. \<exists>b y. target e = Some b \<and> gw_atoms w1 b = Some (APooled y) \<and> pd_data y = Some d"
    by (metis (no_types, lifting))
  then show ?thesis using Some by simp
qed

lemma pool_conserves_data_witness:
  "\<exists>w1. pooled_acquire_or_wait 7 0 pool_world = Inr (False, w1) \<and> pl_q (pool_of 0 w1) = [7]"
proof -
  have "is_pooled 0 0 pool_world" by (simp add: is_pooled_def pool_world_def)
  from pool_conserves_data[OF this, of "\<lparr> pd_data = None, pd_pool = 0, pd_next = None \<rparr>" "\<lambda>_. None" 7]
  show ?thesis by (auto simp: pool_world_def pool_of_def pool_new_def)
qed

section \<open>Populating a guard\<close>

lemma amap_get_set_atom_std:
  assumes "g_map (gw_guards w g) = GStd kind m" "amap_get g k w = Inr (a, kp, w)"
  shows "amap_get g k (set_atom b x w) = Inr (a, kp, set_atom b x w)"
proof -
  have "std_find k m \<noteq> None"
  proof
    assume "std_find k m = None"
    then have "gw_next w = Suc (gw_next w)" using assms
      by (auto simp: amap_get_def Let_def set_gmap_def set_atom_def dest: arg_cong[of _ _ gw_next])
    then show False by simp
  qed
  then show ?thesis using assms by (auto simp: amap_get_def)
qed

lemma atomic_data_set [simp]: "atomic_data (atomic_set_data d x) = d"
  by (cases x) auto

text \<open>Inserting a value for a key of a standard guard succeeds exactly when the key's atomic has no
  data yet; afterwards reading the key gives the inserted value, or the older one that the insertion
  did not overwrite.\<close>

theorem guard_insert_get:
  assumes "std_ok g w" and "v \<noteq> None"
  shows "\<exists>old w0 res w1 rs. gi_get g k (w, rs0) = Inr (old, w0, rs0) \<and>
    gi_insert g k v (w, rs0) = Inr (res, w1, rs) \<and> (res \<longleftrightarrow> old = None) \<and>
    gi_get g k (w1, rs) = Inr (if old = None then v else old, w1, rs)"
proof -
  obtain a kid w0 where g: "amap_get g k w = Inr (a, KPtr kid k, w0)" and ok: "std_ok g w0"
    and g0: "amap_get g k w0 = Inr (a, KPtr kid k, w0)" and live: "gw_atoms w0 a \<noteq> None"
    using amap_get_std[OF assms(1)] by blast
  obtain x where x: "gw_atoms w0 a = Some x" using live by blast
  obtain kind m where m: "g_map (gw_guards w0 g) = GStd kind m" using ok by (auto simp: std_ok_def)
  show ?thesis
  proof (cases "atomic_data x")
    case None
    then show ?thesis
      using g x amap_get_set_atom_std[OF m g0]
      by (simp add: gi_get_def gi_insert_def atom_of_def Let_def)
  next
    case (Some d)
    then show ?thesis using g g0 x by (simp add: gi_get_def gi_insert_def atom_of_def Let_def)
  qed
qed

lemma guard_insert_get_witness:
  "\<exists>res w1 rs. gi_insert 0 (5::nat) (Some 9) (std_world KExclusive False, []) = Inr (res, w1, rs)"
  using guard_insert_get[OF std_ok_world[where g = 0 and kind = KExclusive and gc = False], of "Some 9" "5::nat" "[]"]
  by blast

end
