(* ===== verification/Holder.thy ===== *)
theory Holder
  imports Guards
begin

text \<open>
  runtime/atomic/OFluxAtomicHolder.h and .cpp: what an event holds.  A held atomic is one guard
  reference of the event's node with its key and atomic once they are known; the holder keeps them
  in declaration order, in acquisition order and by lexical index, acquires them in order (waiting
  at the first that is taken, and continuing from there when it is granted) and releases them in
  reverse, handing each atomic over to the events its release lets through.
\<close>

section \<open>State\<close>

record 'k hatom =
  ha_atom :: "nat option"
  ha_ref :: gref
  ha_key :: "'k kptr"
  ha_haveit :: bool

definition ha_init :: "gref \<Rightarrow> 'k hatom" where
  "ha_init r = \<lparr> ha_atom = None, ha_ref = r, ha_key = KNull, ha_haveit = False \<rparr>"

definition MAX_ATOMICS_PER_NODE :: nat where "MAX_ATOMICS_PER_NODE = 20"

record 'k holder =
  ah_holders :: "'k hatom list"
  ah_sorted :: "nat list"
  ah_lexical :: "int \<Rightarrow> nat option"
  ah_keyed :: bool
  ah_csorted :: bool
  ah_working_on :: nat

definition ah_new :: "bool \<Rightarrow> 'k holder" where
  "ah_new completelysorted = \<lparr> ah_holders = [], ah_sorted = [], ah_lexical = (\<lambda>_. None), ah_keyed = False,
     ah_csorted = completelysorted, ah_working_on = 0 \<rparr>"

definition ah_number :: "'k holder \<Rightarrow> nat" where
  "ah_number h = length (ah_holders h)"

definition ah_add :: "gref \<Rightarrow> 'k holder \<Rightarrow> 'k holder result" where
  "ah_add r h = assertE (ah_number h < MAX_ATOMICS_PER_NODE) (assertE (0 \<le> gr_lexical r)
     (Inr (h\<lparr> ah_lexical := (ah_lexical h)(gr_lexical r := Some (ah_number h)),
              ah_holders := ah_holders h @ [ha_init r] \<rparr>)))"

text \<open>The position in the holders of the \<open>i\<close>-th held atomic in acquisition order (\<open>get\<close> with its
  default argument).\<close>

definition ah_idx :: "'k holder \<Rightarrow> nat \<Rightarrow> nat" where
  "ah_idx h i = (if ah_keyed h then ah_sorted h ! i else i)"

definition ah_get :: "'k holder \<Rightarrow> nat \<Rightarrow> 'k hatom" where
  "ah_get h i = ah_holders h ! ah_idx h i"

text \<open>The world: the guards and atomics, and the holder of every event.\<close>

record 'k world = "'k gworld" +
  w_ah :: "nat \<Rightarrow> 'k holder"

definition set_ah :: "nat \<Rightarrow> 'k holder \<Rightarrow> ('k, 'z) world_scheme \<Rightarrow> ('k, 'z) world_scheme" where
  "set_ah e h w = w\<lparr> w_ah := (w_ah w)(e := h) \<rparr>"

definition set_ha :: "nat \<Rightarrow> nat \<Rightarrow> 'k hatom \<Rightarrow> ('k, 'z) world_scheme \<Rightarrow> ('k, 'z) world_scheme" where
  "set_ha e i ha w = set_ah e ((w_ah w e)\<lparr> ah_holders := (ah_holders (w_ah w e))[i := ha] \<rparr>) w"

definition getDataLexical :: "'k holder \<Rightarrow> ('k, 'z) gworld_scheme \<Rightarrow> int \<Rightarrow> nat option" where
  "getDataLexical h w li = (case ah_lexical h li of
      None \<Rightarrow> None
    | Some i \<Rightarrow> (case ha_atom (ah_holders h ! i) of
          None \<Rightarrow> None
        | Some a \<Rightarrow> (case gw_atoms w a of None \<Rightarrow> None | Some x \<Rightarrow> atomic_data x)))"

section \<open>Ordering held atomics\<close>

definition ha_guard_type :: "'k hatom \<Rightarrow> ('k, 'z) gworld_scheme \<Rightarrow> int" where
  "ha_guard_type ha w = gref_magic (ha_ref ha) w"

definition ha_wtype :: "'k hatom \<Rightarrow> int" where
  "ha_wtype ha = gr_wtype (ha_ref ha)"

definition ha_skipit :: "'k hatom \<Rightarrow> bool" where
  "ha_skipit ha \<longleftrightarrow> ha_atom ha = None"

definition compare_lates :: "bool \<Rightarrow> bool \<Rightarrow> int" where
  "compare_lates a b = (if a = b then 0 else if \<not> a \<and> b then -1 else 1)"

definition ha_compare :: "'k::linorder hatom \<Rightarrow> 'k hatom \<Rightarrow> bool \<Rightarrow> ('k, 'z) gworld_scheme \<Rightarrow> int" where
  "ha_compare h1 h2 ignoreLates w =
     (let gt1 = ha_guard_type h1 w; gt2 = ha_guard_type h2 w; wt1 = ha_wtype h1; wt2 = ha_wtype h2;
          lt1 = gref_late (ha_ref h1) w; lt2 = gref_late (ha_ref h2) w
      in if gt1 = gt2 \<and> wt1 = wt2
         then (if \<not> lt1 \<and> \<not> lt2 \<or> ignoreLates
               then (if ha_key h1 = ha_key h2 then 0
                     else amap_compare (gr_guard (ha_ref h1)) (ha_key h1) (ha_key h2) w)
               else compare_lates lt1 lt2)
         else if gt1 = gt2 then (if wt1 < wt2 then -1 else 1)
         else if gt1 < gt2 then -1 else 1)"

text \<open>\<open>qsort\<close> over the pointers: a sort by the comparison (insertion sort; the C library leaves the order
  of equal elements open).\<close>

fun insert_by :: "('a \<Rightarrow> 'a \<Rightarrow> int) \<Rightarrow> 'a \<Rightarrow> 'a list \<Rightarrow> 'a list" where
  "insert_by cmp x [] = [x]"
| "insert_by cmp x (y # ys) = (if cmp x y \<le> 0 then x # y # ys else y # insert_by cmp x ys)"

definition qsort :: "('a \<Rightarrow> 'a \<Rightarrow> int) \<Rightarrow> 'a list \<Rightarrow> 'a list" where
  "qsort cmp xs = foldr (insert_by cmp) xs []"

section \<open>Building keys\<close>

definition ha_build :: "(nat \<Rightarrow> 'i \<Rightarrow> (int \<Rightarrow> nat option) \<Rightarrow> 'k gtrans) \<Rightarrow> 'k::linorder \<Rightarrow> 'i \<Rightarrow> nat \<Rightarrow> nat \<Rightarrow> bool \<Rightarrow>
    ('k, 'z) world_scheme \<Rightarrow> (bool \<times> ('k, 'z) world_scheme) result" where
  "ha_build gfn nk node_in e i allow_late w =
     (let h = w_ah w e; ha = ah_holders h ! i in
      assertE (ha_atom ha = None \<or> allow_late)
        (if (allow_late \<or> \<not> gref_late (ha_ref ha) w) \<and> ha_atom ha = None
         then bindE (gref_get gfn nk (ha_ref ha) node_in (getDataLexical h w) w) (\<lambda>(a, kp, w1).
           Inr (a \<noteq> None, set_ha e i (ha\<lparr> ha_atom := a, ha_key := kp \<rparr>) w1))
         else Inr (ha_atom ha \<noteq> None, w)))"

fun build_from :: "(nat \<Rightarrow> 'i \<Rightarrow> (int \<Rightarrow> nat option) \<Rightarrow> 'k gtrans) \<Rightarrow> 'k::linorder \<Rightarrow> 'i \<Rightarrow> nat \<Rightarrow> nat list \<Rightarrow>
    bool \<Rightarrow> ('k, 'z) world_scheme \<Rightarrow> (bool \<times> ('k, 'z) world_scheme) result" where
  "build_from gfn nk node_in e [] res w = Inr (res, w)"
| "build_from gfn nk node_in e (i # is) res w =
     bindE (ha_build gfn nk node_in e i False w) (\<lambda>(b, w1). build_from gfn nk node_in e is (res \<and> b) w1)"

definition get_keys_sort :: "(nat \<Rightarrow> 'i \<Rightarrow> (int \<Rightarrow> nat option) \<Rightarrow> 'k gtrans) \<Rightarrow> 'k::linorder \<Rightarrow> 'i \<Rightarrow> nat \<Rightarrow>
    ('k, 'z) world_scheme \<Rightarrow> (bool \<times> ('k, 'z) world_scheme) result" where
  "get_keys_sort gfn nk node_in e w =
     (let n = ah_number (w_ah w e) in
      bindE (build_from gfn nk node_in e [0..<n] True w) (\<lambda>(res, w1).
        let h = w_ah w1 e;
            srt = (if ah_csorted h then [0..<n]
                   else qsort (\<lambda>i j. ha_compare (ah_holders h ! i) (ah_holders h ! j) False w1) [0..<n])
        in Inr (res, set_ah e (h\<lparr> ah_sorted := srt, ah_keyed := True \<rparr>) w1)))"

section \<open>Acquiring\<close>

definition ha_acquire_or_wait :: "nat \<Rightarrow> nat \<Rightarrow> ('k, 'z) world_scheme \<Rightarrow> (bool \<times> ('k, 'z) world_scheme) result" where
  "ha_acquire_or_wait e i w =
     (let ha = ah_holders (w_ah w e) ! i in
      assertE (ha_key ha \<noteq> KNull)
        (case ha_atom ha of
           None \<Rightarrow> Inl AssertFailed
         | Some a \<Rightarrow>
             bindE (at_acquire_or_wait e (ha_wtype ha) a w) (\<lambda>(res, w1).
               Inr (res, set_ha e i (ha\<lparr> ha_haveit := res \<rparr>) w1))))"

definition bump_working_on :: "nat \<Rightarrow> nat \<Rightarrow> ('k, 'z) world_scheme \<Rightarrow> ('k, 'z) world_scheme" where
  "bump_working_on e i w = set_ah e ((w_ah w e)\<lparr> ah_working_on := max (ah_working_on (w_ah w e)) i \<rparr>) w"

text \<open>The loop of \<open>acquire_all_or_wait\<close> over the positions \<open>idx, ..., idx + m - 1\<close>; the traversal of the
  predecessor's atomics has no effect on it (passing them on is commented out in the source).\<close>

fun acquire_loop :: "(nat \<Rightarrow> 'i \<Rightarrow> (int \<Rightarrow> nat option) \<Rightarrow> 'k gtrans) \<Rightarrow> 'k::linorder \<Rightarrow> 'i \<Rightarrow> nat \<Rightarrow> nat \<Rightarrow> nat \<Rightarrow>
    ('k, 'z) world_scheme \<Rightarrow> (bool \<times> ('k, 'z) world_scheme) result" where
  "acquire_loop gfn nk node_in e 0 idx w = Inr (True, w)"
| "acquire_loop gfn nk node_in e (Suc m) idx w =
     (let i = ah_idx (w_ah w e) idx in
      bindE (ha_build gfn nk node_in e i True w) (\<lambda>(_, w1).
        let ha = ah_holders (w_ah w1 e) ! i in
        if ha_haveit ha \<or> ha_skipit ha
        then acquire_loop gfn nk node_in e m (Suc idx) (bump_working_on e idx w1)
        else bindE (ha_acquire_or_wait e i (bump_working_on e idx w1)) (\<lambda>(res, w2).
          if res then acquire_loop gfn nk node_in e m (Suc idx) w2 else Inr (False, w2))))"

definition acquire_all_or_wait :: "(nat \<Rightarrow> 'i \<Rightarrow> (int \<Rightarrow> nat option) \<Rightarrow> 'k gtrans) \<Rightarrow> 'k::linorder \<Rightarrow> 'i \<Rightarrow> nat \<Rightarrow>
    nat option \<Rightarrow> ('k, 'z) world_scheme \<Rightarrow> (bool \<times> ('k, 'z) world_scheme) result" where
  "acquire_all_or_wait gfn nk node_in e pred w =
     bindE (if ah_keyed (w_ah w e) then Inr (True, w) else get_keys_sort gfn nk node_in e w) (\<lambda>(_, w1).
       let given = (case pred of None \<Rightarrow> ah_new False | Some p \<Rightarrow> w_ah w1 p);
           wo = ah_working_on (w_ah w1 e)
       in assertE (ah_keyed given \<or> ah_number given = 0)
            (acquire_loop gfn nk node_in e (ah_number (w_ah w1 e) - wo) wo w1))"

section \<open>Releasing\<close>

definition ah_target :: "('k, 'z) world_scheme \<Rightarrow> nat \<Rightarrow> nat option" where
  "ah_target w e = ha_atom (ah_get (w_ah w e) (ah_working_on (w_ah w e)))"

text \<open>The search in a released event's holder for the held atomic that was granted: the same atomic,
  or an equal pooled one.\<close>

fun find_granted :: "nat \<Rightarrow> bool \<Rightarrow> 'k::linorder hatom \<Rightarrow> 'k holder \<Rightarrow> ('k, 'z) gworld_scheme \<Rightarrow> nat list \<Rightarrow> nat option" where
  "find_granted a pool ha h w [] = None"
| "find_granted a pool ha h w (j # js) =
     (if ha_atom (ah_get h j) = Some a \<or> pool \<and> ha_compare (ah_get h j) ha True w = 0 then Some j
      else find_granted a pool ha h w js)"

definition working_on_ok :: "'k holder \<Rightarrow> bool" where
  "working_on_ok h \<longleftrightarrow> (ah_working_on h > 0 \<longrightarrow>
     (let ha = ah_holders h ! (ah_sorted h ! (ah_working_on h - 1)) in ha_haveit ha \<or> ha_skipit ha))"

definition grant_one :: "nat \<Rightarrow> nat \<Rightarrow> bool \<Rightarrow> 'k::linorder hatom \<Rightarrow> nat \<Rightarrow> ('k, 'z) world_scheme \<Rightarrow>
    ('k, 'z) world_scheme result" where
  "grant_one by_e a pool ha re w =
     (let h = w_ah w re in
      case find_granted a pool ha h w [ah_working_on h..<ah_number h] of
        None \<Rightarrow> Inl AssertFailed
      | Some j \<Rightarrow> assertE (ha_haveit ha)
          (let w1 = set_ha re (ah_idx h j) ((ah_get h j)\<lparr> ha_haveit := ha_haveit ha \<rparr>) w in
           if j = ah_working_on h
           then assertE (working_on_ok (w_ah (bump_working_on re (j + 1) w1) by_e)) (Inr (bump_working_on re (j + 1) w1))
           else Inr w1))"

definition ha_garbage_collect :: "nat \<Rightarrow> nat \<Rightarrow> ('k::linorder, 'z) world_scheme \<Rightarrow> ('k, 'z) world_scheme result" where
  "ha_garbage_collect e i w =
     (let ha = ah_holders (w_ah w e) ! i in
      case ha_atom ha of None \<Rightarrow> Inl NullDeref | Some a \<Rightarrow>
      bindE (atom_of a w) (\<lambda>x.
        if atomic_data x = None
        then bindE (guard_garbage_collect (gr_guard (ha_ref ha)) (ha_key ha) a w) (\<lambda>(b, w1).
          Inr (if b then set_ha e i (ha\<lparr> ha_atom := None, ha_key := KNull \<rparr>) w1 else w1))
        else Inr w))"

definition release_one :: "nat \<Rightarrow> nat \<Rightarrow> nat list \<times> ('k::linorder, 'z) world_scheme \<Rightarrow>
    (nat list \<times> ('k, 'z) world_scheme) result" where
  "release_one e idx s = (case s of (rels, w) \<Rightarrow>
     let i = ah_idx (w_ah w e) idx; ha = ah_holders (w_ah w e) ! i in
     assertE (ha_haveit ha \<or> ha_skipit ha)
       (case (ha_haveit ha, ha_atom ha) of
          (True, Some a) \<Rightarrow>
            bindE (atom_of a w) (\<lambda>x.
            bindE (at_release (ah_target w) a w) (\<lambda>(new, w1).
            bindE (foldE (grant_one e a (is_pool_like x) ha) new w1) (\<lambda>w2.
            bindE (atom_of a w2) (\<lambda>x2.
            bindE (if new = [] \<and> at_waiter_count x2 w2 = 0 \<and> at_held x2 = 0
                   then ha_garbage_collect e i w2 else Inr w2) (\<lambda>w3.
            let gone = (ha_atom (ah_holders (w_ah w3 e) ! i) = None);
                w4 = set_ha e i ((ah_holders (w_ah w3 e) ! i)\<lparr> ha_atom := None \<rparr>) w3
            in bindE (if \<not> gone \<and> can_relinquish x then at_relinquish (new \<noteq> []) a w4 else Inr w4) (\<lambda>w5.
                 Inr (rels @ new, w5)))))))
        | _ \<Rightarrow> Inr (rels, w)))"

definition ah_release :: "nat \<Rightarrow> ('k::linorder, 'z) world_scheme \<Rightarrow> (nat list \<times> ('k, 'z) world_scheme) result" where
  "ah_release e w = foldE (release_one e) (rev [0..<ah_number (w_ah w e)]) ([], w)"

text \<open>The destructor of the holder relinquishes what is left.\<close>

definition ha_relinquish :: "bool \<Rightarrow> nat \<Rightarrow> nat \<Rightarrow> ('k, 'z) world_scheme \<Rightarrow> ('k, 'z) world_scheme result" where
  "ha_relinquish should e i w =
     (let ha = ah_holders (w_ah w e) ! i in
      bindE (case ha_atom ha of None \<Rightarrow> Inr w | Some a \<Rightarrow> at_relinquish should a w) (\<lambda>w1.
        Inr (set_ha e i (ha\<lparr> ha_atom := None \<rparr>) w1)))"

definition ah_destroy :: "nat \<Rightarrow> ('k, 'z) world_scheme \<Rightarrow> ('k, 'z) world_scheme result" where
  "ah_destroy e w = foldE (ha_relinquish True e) (rev [0..<ah_number (w_ah w e)]) w"

section \<open>Frames\<close>

lemma w_ah_more: "gworld.more w1 = gworld.more w \<Longrightarrow> w_ah w1 = w_ah w"
  by (cases w; cases w1) simp

lemma set_ah_simps [simp]:
  "w_ah (set_ah e h w) = (w_ah w)(e := h)" "gw_atoms (set_ah e h w) = gw_atoms w"
  "gw_guards (set_ah e h w) = gw_guards w" "gw_next (set_ah e h w) = gw_next w"
  by (simp_all add: set_ah_def)

lemma set_ha_w_ah [simp]:
  "w_ah (set_ha e i ha w) = (w_ah w)(e := (w_ah w e)\<lparr> ah_holders := (ah_holders (w_ah w e))[i := ha] \<rparr>)"
  by (simp add: set_ha_def)

lemma set_ha_gw [simp]:
  "gw_atoms (set_ha e i ha w) = gw_atoms w" "gw_guards (set_ha e i ha w) = gw_guards w"
  by (simp_all add: set_ha_def)

text \<open>The shape of a holder: everything but the contents of its held atomics.\<close>

definition shape :: "'k holder \<Rightarrow> nat \<times> nat list \<times> bool \<times> gref list" where
  "shape h = (ah_number h, ah_sorted h, ah_keyed h, map ha_ref (ah_holders h))"

lemma shape_update:
  "i < ah_number h \<Longrightarrow> ha_ref ha = ha_ref (ah_holders h ! i) \<Longrightarrow>
     shape (h\<lparr> ah_holders := (ah_holders h)[i := ha] \<rparr>) = shape h"
  by (simp add: shape_def ah_number_def map_update list_update_same_conv)

lemma shape_working [simp]: "shape (h\<lparr> ah_working_on := n \<rparr>) = shape h"
  by (simp add: shape_def ah_number_def)

lemma shape_idx: "shape h = shape h' \<Longrightarrow> ah_idx h = ah_idx h' \<and> ah_number h = ah_number h'"
  by (auto simp: shape_def ah_idx_def fun_eq_iff)

section \<open>The acquisition order\<close>

text \<open>Two guards never share a magic number.\<close>

definition magic_inj :: "('k, 'z) gworld_scheme \<Rightarrow> bool" where
  "magic_inj w \<longleftrightarrow> (\<forall>g g'. g_magic (gw_guards w g) = g_magic (gw_guards w g') \<longrightarrow> g = g')"

lemma ha_compare_refl: "ha_compare a a ig w = 0"
  by (simp add: ha_compare_def compare_lates_def Let_def)

lemma k_compare_props:
  "k_compare a b = - k_compare b a" "k_compare a b \<le> 0 \<Longrightarrow> k_compare b c \<le> 0 \<Longrightarrow> k_compare a c \<le> 0"
  "k_compare a a = 0"
  by (cases a; cases b; cases c; auto simp: k_compare_def split: if_splits)+

lemma amap_compare_props:
  "amap_compare g a b w = - amap_compare g b a w"
  "amap_compare g a b w \<le> 0 \<Longrightarrow> amap_compare g b c w \<le> 0 \<Longrightarrow> amap_compare g a c w \<le> 0"
  "amap_compare g a a w = 0"
  using k_compare_props by (auto simp: amap_compare_def split: gmap.splits)

lemma ha_compare_antisym:
  assumes "magic_inj w"
  shows "ha_compare a b ig w = - ha_compare b a ig w"
proof (cases "ha_guard_type a w = ha_guard_type b w \<and> ha_wtype a = ha_wtype b")
  case True
  then have "gr_guard (ha_ref a) = gr_guard (ha_ref b)"
    using assms by (simp add: magic_inj_def ha_guard_type_def gref_magic_def)
  then show ?thesis using True amap_compare_props(1)
    by (auto simp: ha_compare_def compare_lates_def Let_def)
qed (auto simp: ha_compare_def Let_def)

lemma ha_compare_trans:
  assumes "magic_inj w" "ha_compare a b ig w \<le> 0" "ha_compare b c ig w \<le> 0"
  shows "ha_compare a c ig w \<le> 0"
proof (cases "ha_guard_type a w = ha_guard_type b w \<and> ha_wtype a = ha_wtype b \<and>
    ha_guard_type b w = ha_guard_type c w \<and> ha_wtype b = ha_wtype c")
  case True
  then have g: "gr_guard (ha_ref a) = gr_guard (ha_ref b)" "gr_guard (ha_ref b) = gr_guard (ha_ref c)"
    using assms(1) by (simp_all add: magic_inj_def ha_guard_type_def gref_magic_def)
  have "amap_compare (gr_guard (ha_ref c)) (ha_key a) (ha_key c) w \<le> 0"
    if "ha_key a = ha_key b \<or> amap_compare (gr_guard (ha_ref c)) (ha_key a) (ha_key b) w \<le> 0"
      "ha_key b = ha_key c \<or> amap_compare (gr_guard (ha_ref c)) (ha_key b) (ha_key c) w \<le> 0"
    using that amap_compare_props(2,3) by (metis order_refl)
  then show ?thesis using True g assms(2,3)
    by (auto simp: ha_compare_def compare_lates_def Let_def split: if_splits)
next
  case False
  then show ?thesis using assms(2,3) by (auto simp: ha_compare_def Let_def split: if_splits)
qed

lemma insert_by_mset: "mset (insert_by cmp x xs) = add_mset x (mset xs)"
  by (induction xs) auto

lemma qsort_mset: "mset (qsort cmp xs) = mset xs"
  by (induction xs) (auto simp: qsort_def insert_by_mset)

lemma insert_by_sorted:
  assumes "\<And>a b. cmp a b = - (cmp b a :: int)" "\<And>a b c. cmp a b \<le> 0 \<Longrightarrow> cmp b c \<le> 0 \<Longrightarrow> cmp a c \<le> 0"
    and "sorted_wrt (\<lambda>a b. cmp a b \<le> 0) xs"
  shows "sorted_wrt (\<lambda>a b. cmp a b \<le> 0) (insert_by cmp x xs)"
  using assms(3)
proof (induction xs)
  case (Cons y ys)
  have "set (insert_by cmp x ys) = insert x (set ys)"
    using insert_by_mset[of cmp x ys] by (metis set_mset_add_mset_insert set_mset_mset)
  moreover have "cmp y x \<le> 0" if "\<not> cmp x y \<le> 0" using that assms(1)[of y x] by simp
  ultimately show ?case using Cons assms(2)[of x y] by auto
qed simp

lemma qsort_sorted:
  assumes "\<And>a b. cmp a b = - (cmp b a :: int)" "\<And>a b c. cmp a b \<le> 0 \<Longrightarrow> cmp b c \<le> 0 \<Longrightarrow> cmp a c \<le> 0"
  shows "sorted_wrt (\<lambda>a b. cmp a b \<le> 0) (qsort cmp xs)"
  by (induction xs) (auto simp: qsort_def insert_by_sorted[OF assms])

lemma ha_compare_guards:
  "gw_guards w = gw_guards w' \<Longrightarrow> ha_compare a b ig w = ha_compare a b ig w'"
  by (simp add: ha_compare_def ha_guard_type_def gref_magic_def gref_late_def amap_compare_def Let_def)

section \<open>What the steps do to the holder\<close>

lemma ha_build_spec:
  assumes "ha_build gfn nk ni e i late w = Inr (b, w1)"
  shows "\<exists>a kp. w_ah w1 = (w_ah w)(e := (w_ah w e)\<lparr> ah_holders := (ah_holders (w_ah w e))
      [i := (ah_holders (w_ah w e) ! i)\<lparr> ha_atom := a, ha_key := kp \<rparr>] \<rparr>) \<and>
    (ha_atom (ah_holders (w_ah w e) ! i) \<noteq> None \<longrightarrow> a = ha_atom (ah_holders (w_ah w e) ! i))"
proof (cases "(late \<or> \<not> gref_late (ha_ref (ah_holders (w_ah w e) ! i)) w) \<and> ha_atom (ah_holders (w_ah w e) ! i) = None")
  case True
  then obtain a kp w0 where g: "gref_get gfn nk (ha_ref (ah_holders (w_ah w e) ! i)) ni (getDataLexical (w_ah w e) w) w = Inr (a, kp, w0)"
    and w1: "w1 = set_ha e i ((ah_holders (w_ah w e) ! i)\<lparr> ha_atom := a, ha_key := kp \<rparr>) w0"
    using assms by (auto simp: ha_build_def Let_def assertE_eq_Inr bindE_eq_Inr)
  have "w_ah w0 = w_ah w" using gref_get_more[OF g] by (rule w_ah_more)
  then show ?thesis using True w1 by (intro exI[of _ a] exI[of _ kp]) simp
next
  case False
  then have "w1 = w" using assms by (auto simp: ha_build_def Let_def assertE_eq_Inr)
  moreover have "ha\<lparr> ha_atom := ha_atom ha, ha_key := ha_key ha \<rparr> = ha" for ha :: "'k hatom" by simp
  ultimately show ?thesis
    by (intro exI[of _ "ha_atom (ah_holders (w_ah w e) ! i)"] exI[of _ "ha_key (ah_holders (w_ah w e) ! i)"]) simp
qed

definition at_waiting :: "nat \<Rightarrow> ('k, 'z) gworld_scheme \<Rightarrow> nat list" where
  "at_waiting a w = (case gw_atoms w a of
      Some (AExclusive c) \<Rightarrow> map fst (ac_waiters c)
    | Some (AReadWrite c) \<Rightarrow> map fst (ac_waiters c)
    | Some (APooled c) \<Rightarrow> pl_q (pool_of (pd_pool c) w)
    | _ \<Rightarrow> [])"

lemma at_waiting_cong:
  "gw_atoms w = gw_atoms w' \<Longrightarrow> gw_guards w = gw_guards w' \<Longrightarrow> at_waiting a w = at_waiting a w'"
  by (simp add: at_waiting_def pool_of_def cong: option.case_cong atomic.case_cong)

lemma at_acquire_queues:
  assumes "at_acquire_or_wait e wt a w = Inr (False, w1)"
  shows "e \<in> set (at_waiting a w1)"
proof (cases "gw_atoms w a")
  case None
  then show ?thesis using assms by (simp add: at_acquire_or_wait_def atom_of_def)
next
  case (Some x)
  then show ?thesis using assms
    by (cases x) (auto simp: at_acquire_or_wait_def atom_of_def at_waiting_def ex_acquire_or_wait_def
        rw_acquire_or_wait_def free_acquire_or_wait_def pooled_acquire_or_wait_def pool_put_waiter_def Let_def
        split: if_splits prod.splits)
qed

lemma ha_acquire_spec:
  assumes "ha_acquire_or_wait e i w = Inr (res, w1)"
  shows "w_ah w1 = (w_ah w)(e := (w_ah w e)\<lparr> ah_holders := (ah_holders (w_ah w e))
      [i := (ah_holders (w_ah w e) ! i)\<lparr> ha_haveit := res \<rparr>] \<rparr>) \<and>
    (\<exists>a. ha_atom (ah_holders (w_ah w e) ! i) = Some a \<and> (\<not> res \<longrightarrow> e \<in> set (at_waiting a w1)))"
proof -
  let ?ha = "ah_holders (w_ah w e) ! i"
  obtain a w0 where a: "ha_atom ?ha = Some a" "at_acquire_or_wait e (ha_wtype ?ha) a w = Inr (res, w0)"
    "w1 = set_ha e i (?ha\<lparr> ha_haveit := res \<rparr>) w0"
    using assms by (auto simp: ha_acquire_or_wait_def Let_def assertE_eq_Inr bindE_eq_Inr split: option.splits)
  have "w_ah w0 = w_ah w" using at_acquire_more[OF a(2)] by (rule w_ah_more)
  moreover have "at_waiting a w1 = at_waiting a w0" using a(3) by (intro at_waiting_cong) simp_all
  ultimately show ?thesis using a at_acquire_queues[of e "ha_wtype ?ha" a w w0] by auto
qed

definition perm_ok :: "'k holder \<Rightarrow> bool" where
  "perm_ok h \<longleftrightarrow> ah_keyed h \<and> mset (ah_sorted h) = mset [0..<ah_number h]"

lemma perm_ok_idx:
  assumes "perm_ok h" "i < ah_number h"
  shows "ah_idx h i < ah_number h" "j < ah_number h \<Longrightarrow> ah_idx h i = ah_idx h j \<longleftrightarrow> i = j"
proof -
  have "set (ah_sorted h) = {0..<ah_number h}" "length (ah_sorted h) = ah_number h" "distinct (ah_sorted h)"
    using assms(1) unfolding perm_ok_def
    by (metis mset_eq_setD set_upt, metis diff_zero length_upt size_mset, metis distinct_upt mset_eq_imp_distinct_iff)
  then show "ah_idx h i < ah_number h" "j < ah_number h \<Longrightarrow> ah_idx h i = ah_idx h j \<longleftrightarrow> i = j"
    using assms by (auto simp: ah_idx_def perm_ok_def nth_eq_iff_index_eq dest: nth_mem)
qed

lemma perm_ok_shape: "shape h = shape h' \<Longrightarrow> perm_ok h = perm_ok h'"
  by (simp add: shape_def perm_ok_def)

lemma build_from_spec:
  assumes "build_from gfn nk ni e is r w = Inr (res, w1)" "\<forall>i\<in>set is. i < ah_number (w_ah w e)"
  shows "shape (w_ah w1 e) = shape (w_ah w e)"
  using assms
proof (induction "is" arbitrary: r w)
  case (Cons i "is")
  from Cons.prems(1) obtain b w0 where b: "ha_build gfn nk ni e i False w = Inr (b, w0)"
    "build_from gfn nk ni e is (r \<and> b) w0 = Inr (res, w1)" by (auto simp: bindE_eq_Inr)
  have sh: "shape (w_ah w0 e) = shape (w_ah w e)"
    using ha_build_spec[OF b(1)] Cons.prems(2) by (auto simp: shape_update)
  then have "\<forall>i\<in>set is. i < ah_number (w_ah w0 e)" using Cons.prems(2) shape_idx[OF sh] by simp
  then show ?case using Cons.IH[OF b(2)] sh by simp
qed simp

text \<open>Building the keys of an event puts its held atomics into acquisition order: the order array
  is a permutation of the positions, ascending for the comparison of held atomics (guard number,
  then mode, then early before late, then key).\<close>

theorem get_keys_sort_sorts:
  assumes "get_keys_sort gfn nk node_in e w = Inr (res, w1)" and "magic_inj w1"
    and "\<not> ah_csorted (w_ah w1 e)"
  shows "let h = w_ah w1 e in mset (ah_sorted h) = mset [0..<ah_number h] \<and>
    sorted_wrt (\<lambda>i j. ha_compare (ah_holders h ! i) (ah_holders h ! j) False w1 \<le> 0) (ah_sorted h)"
proof -
  let ?n = "ah_number (w_ah w e)"
  obtain w0 where b: "build_from gfn nk node_in e [0..<?n] True w = Inr (res, w0)"
    and w1: "w1 = set_ah e ((w_ah w0 e)\<lparr> ah_sorted := (if ah_csorted (w_ah w0 e) then [0..<?n]
        else qsort (\<lambda>i j. ha_compare (ah_holders (w_ah w0 e) ! i) (ah_holders (w_ah w0 e) ! j) False w0) [0..<?n]),
        ah_keyed := True \<rparr>) w0"
    using assms(1) by (auto simp: get_keys_sort_def Let_def bindE_eq_Inr)
  have n: "ah_number (w_ah w0 e) = ?n" using build_from_spec[OF b] shape_idx by (metis atLeastLessThan_iff set_upt)
  let ?h = "w_ah w0 e"
  let ?cmp = "\<lambda>i j. ha_compare (ah_holders ?h ! i) (ah_holders ?h ! j) False w1"
  have eq: "ha_compare x y False w0 = ha_compare x y False w1" for x y
    using w1 by (intro ha_compare_guards) simp
  have "w_ah w1 e = ?h\<lparr> ah_sorted := (if ah_csorted ?h then [0..<?n]
        else qsort (\<lambda>i j. ha_compare (ah_holders ?h ! i) (ah_holders ?h ! j) False w0) [0..<?n]), ah_keyed := True \<rparr>"
    using arg_cong[OF w1, of "\<lambda>w. w_ah w e"] by simp
  then have srt: "ah_sorted (w_ah w1 e) = qsort ?cmp [0..<?n]" and
    hs: "ah_holders (w_ah w1 e) = ah_holders ?h" using assms(3) by (simp_all add: eq)
  moreover have "sorted_wrt (\<lambda>a b. ?cmp a b \<le> 0) (qsort ?cmp [0..<?n])"
    by (rule qsort_sorted) (rule ha_compare_antisym[OF assms(2)], rule ha_compare_trans[OF assms(2)])
  moreover have "ah_number (w_ah w1 e) = ?n"
    using hs n by (simp add: ah_number_def)
  ultimately show ?thesis using hs by (simp add: Let_def qsort_mset)
qed

subsection \<open>The acquisition loop\<close>

definition ha_done :: "'k hatom \<Rightarrow> bool" where
  "ha_done ha \<longleftrightarrow> ha_haveit ha \<or> ha_skipit ha"

lemma ah_get_update:
  assumes "perm_ok h" "i < ah_number h" "j < ah_number h"
  shows "ah_get (h\<lparr> ah_holders := (ah_holders h)[ah_idx h i := ha] \<rparr>) j = (if j = i then ha else ah_get h j)"
  using perm_ok_idx[OF assms(1,2)] assms(3) perm_ok_idx[OF assms(1,3)]
  by (auto simp: ah_get_def ah_idx_def ah_number_def)

lemma ah_get_working [simp]: "ah_get (h\<lparr> ah_working_on := n \<rparr>) j = ah_get h j"
  by (simp add: ah_get_def ah_idx_def)

lemma shape_get_update:
  assumes "perm_ok h" "i < ah_number h" "ha_ref ha = ha_ref (ah_get h i)"
  shows "shape (h\<lparr> ah_holders := (ah_holders h)[ah_idx h i := ha] \<rparr>) = shape h"
  using perm_ok_idx(1)[OF assms(1,2)] assms(3) by (intro shape_update) (auto simp: ah_get_def)

text \<open>One round of the loop: build, then keep, take or wait.\<close>

lemma acquire_round:
  assumes p: "perm_ok (w_ah w e)" and i: "idx < ah_number (w_ah w e)"
    and b: "ha_build gfn nk ni e (ah_idx (w_ah w e) idx) True w = Inr (bb, w1)"
    and w2: "(ha_done (ah_holders (w_ah w1 e) ! ah_idx (w_ah w e) idx) \<and> w2 = bump_working_on e idx w1 \<and> res) \<or>
       (\<not> ha_done (ah_holders (w_ah w1 e) ! ah_idx (w_ah w e) idx) \<and>
        ha_acquire_or_wait e (ah_idx (w_ah w e) idx) (bump_working_on e idx w1) = Inr (res, w2))"
  shows "shape (w_ah w2 e) = shape (w_ah w e) \<and> (\<forall>e'. e' \<noteq> e \<longrightarrow> w_ah w2 e' = w_ah w e') \<and>
    ah_working_on (w_ah w2 e) = max (ah_working_on (w_ah w e)) idx \<and>
    (\<forall>j<ah_number (w_ah w e). j \<noteq> idx \<longrightarrow> ah_get (w_ah w2 e) j = ah_get (w_ah w e) j) \<and>
    (if res then ha_done (ah_get (w_ah w2 e) idx)
     else \<not> ha_haveit (ah_get (w_ah w2 e) idx) \<and>
       (\<exists>a. ha_atom (ah_get (w_ah w2 e) idx) = Some a \<and> e \<in> set (at_waiting a w2)))"
proof -
  let ?h = "w_ah w e" and ?i = "ah_idx (w_ah w e) idx"
  have hi: "ah_holders ?h ! ?i = ah_get ?h idx" by (simp add: ah_get_def)
  obtain a kp where w1: "w_ah w1 = (w_ah w)(e := ?h\<lparr> ah_holders := (ah_holders ?h)[?i := (ah_get ?h idx)\<lparr> ha_atom := a, ha_key := kp \<rparr>] \<rparr>)"
    using ha_build_spec[OF b] unfolding hi by blast
  let ?ha = "(ah_get ?h idx)\<lparr> ha_atom := a, ha_key := kp \<rparr>"
  let ?h1 = "?h\<lparr> ah_holders := (ah_holders ?h)[?i := ?ha] \<rparr>"
  have ii: "?i < length (ah_holders ?h)" using perm_ok_idx(1)[OF p i] by (simp add: ah_number_def)
  have h1: "w_ah w1 e = ?h1" "ah_holders (w_ah w1 e) ! ?i = ?ha" using w1 ii by simp_all
  have g1: "ah_get ?h1 j = (if j = idx then ?ha else ah_get ?h j)" if "j < ah_number ?h" for j
    by (rule ah_get_update[OF p i that])
  have s1: "shape ?h1 = shape ?h" using shape_get_update[OF p i, of ?ha] by simp
  show ?thesis
  proof (cases "ha_done ?ha")
    case True
    then have "w2 = bump_working_on e idx w1" and res using w2 h1 by simp_all
    then show ?thesis using w1 h1 s1 g1 i True by (auto simp: bump_working_on_def)
  next
    case False
    then have acq: "ha_acquire_or_wait e ?i (bump_working_on e idx w1) = Inr (res, w2)" using w2 h1 by simp
    let ?h2 = "?h1\<lparr> ah_working_on := max (ah_working_on ?h) idx \<rparr>"
    have b1: "w_ah (bump_working_on e idx w1) = (w_ah w)(e := ?h2)"
      using w1 by (simp add: bump_working_on_def fun_eq_iff)
    let ?hb = "?ha\<lparr> ha_haveit := res \<rparr>"
    obtain c where w2': "w_ah w2 = (w_ah w)(e := ?h2\<lparr> ah_holders := (ah_holders ?h)[?i := ?hb] \<rparr>)"
      "ha_atom ?ha = Some c" "\<not> res \<longrightarrow> e \<in> set (at_waiting c w2)"
      using ha_acquire_spec[OF acq] ii unfolding b1 by auto
    have g2: "ah_get (w_ah w2 e) j = (if j = idx then ?hb else ah_get ?h j)" if "j < ah_number ?h" for j
    proof -
      have "w_ah w2 e = (?h\<lparr> ah_holders := (ah_holders ?h)[?i := ?hb] \<rparr>)\<lparr> ah_working_on := max (ah_working_on ?h) idx \<rparr>"
        using w2'(1) by simp
      then show ?thesis using ah_get_update[OF p i that, of ?hb] by (simp only: ah_get_working)
    qed
    have "shape (w_ah w2 e) = shape ?h"
      using shape_get_update[OF p i, of ?hb] w2'(1) by (simp add: shape_def ah_number_def)
    then show ?thesis using w2' g2 i by (auto simp: ha_done_def)
  qed
qed

lemma acquire_loop_spec:
  assumes "acquire_loop gfn nk ni e m idx w = Inr (res, w')"
    and "perm_ok (w_ah w e)" "idx + m = ah_number (w_ah w e)"
  shows "shape (w_ah w' e) = shape (w_ah w e) \<and> (\<forall>e'. e' \<noteq> e \<longrightarrow> w_ah w' e' = w_ah w e') \<and>
    (\<forall>j<idx. ah_get (w_ah w' e) j = ah_get (w_ah w e) j) \<and>
    (if res then \<forall>j. idx \<le> j \<and> j < idx + m \<longrightarrow> ha_done (ah_get (w_ah w' e) j)
     else \<exists>j. idx \<le> j \<and> j < idx + m \<and> ah_working_on (w_ah w' e) = max (ah_working_on (w_ah w e)) j \<and>
       (\<forall>k. idx \<le> k \<and> k < j \<longrightarrow> ha_done (ah_get (w_ah w' e) k)) \<and>
       (\<forall>k. j < k \<and> k < idx + m \<longrightarrow> ah_get (w_ah w' e) k = ah_get (w_ah w e) k) \<and>
       \<not> ha_haveit (ah_get (w_ah w' e) j) \<and>
       (\<exists>a. ha_atom (ah_get (w_ah w' e) j) = Some a \<and> e \<in> set (at_waiting a w')))"
  using assms
proof (induction m arbitrary: idx w)
  case 0
  then show ?case by auto
next
  case (Suc m)
  let ?i = "ah_idx (w_ah w e) idx"
  have i: "idx < ah_number (w_ah w e)" using Suc.prems(3) by simp
  obtain bb w1 where b: "ha_build gfn nk ni e ?i True w = Inr (bb, w1)"
    using Suc.prems(1) by (auto simp: Let_def bindE_eq_Inr)
  let ?ha = "ah_holders (w_ah w1 e) ! ?i"
  define r1 where "r1 = (if ha_done ?ha then Inr (True, bump_working_on e idx w1)
     else ha_acquire_or_wait e ?i (bump_working_on e idx w1))"
  obtain r w2 where r: "r1 = Inr (r, w2)"
    using Suc.prems(1) b by (auto simp: r1_def Let_def bindE_eq_Inr ha_done_def split: if_splits)
  note round = acquire_round[OF Suc.prems(2) i b, of w2 r]
  have rnd: "shape (w_ah w2 e) = shape (w_ah w e) \<and> (\<forall>e'. e' \<noteq> e \<longrightarrow> w_ah w2 e' = w_ah w e') \<and>
    ah_working_on (w_ah w2 e) = max (ah_working_on (w_ah w e)) idx \<and>
    (\<forall>j<ah_number (w_ah w e). j \<noteq> idx \<longrightarrow> ah_get (w_ah w2 e) j = ah_get (w_ah w e) j) \<and>
    (if r then ha_done (ah_get (w_ah w2 e) idx)
     else \<not> ha_haveit (ah_get (w_ah w2 e) idx) \<and>
       (\<exists>a. ha_atom (ah_get (w_ah w2 e) idx) = Some a \<and> e \<in> set (at_waiting a w2)))"
    by (rule round) (use r in \<open>auto simp: r1_def split: if_splits\<close>)
  show ?case
  proof (cases r)
    case True
    then have l: "acquire_loop gfn nk ni e m (Suc idx) w2 = Inr (res, w')"
      using Suc.prems(1) b r by (auto simp: r1_def Let_def ha_done_def split: if_splits)
    have p2: "perm_ok (w_ah w2 e)" "Suc idx + m = ah_number (w_ah w2 e)"
      using Suc.prems(2,3) rnd perm_ok_shape[of "w_ah w2 e" "w_ah w e"] shape_idx[of "w_ah w2 e" "w_ah w e"]
      by auto
    note IH = Suc.IH[OF l p2]
    have at: "ah_get (w_ah w' e) idx = ah_get (w_ah w2 e) idx" using IH by simp
    have pre: "ah_get (w_ah w' e) j = ah_get (w_ah w e) j" if "j < idx" for j
      using IH rnd that i by simp
    have dn: "ha_done (ah_get (w_ah w' e) idx)" using rnd True at by simp
    have sh: "shape (w_ah w' e) = shape (w_ah w e)" "\<forall>e'. e' \<noteq> e \<longrightarrow> w_ah w' e' = w_ah w e'"
      using IH rnd by auto
    show ?thesis
    proof (cases res)
      case True
      then have "ha_done (ah_get (w_ah w' e) j)" if "idx \<le> j" "j < idx + Suc m" for j
        using IH dn that by (cases "j = idx") auto
      then show ?thesis using True sh pre by simp
    next
      case False
      then obtain j where j: "Suc idx \<le> j" "j < Suc idx + m"
        "ah_working_on (w_ah w' e) = max (ah_working_on (w_ah w2 e)) j"
        "\<forall>k. Suc idx \<le> k \<and> k < j \<longrightarrow> ha_done (ah_get (w_ah w' e) k)"
        "\<forall>k. j < k \<and> k < Suc idx + m \<longrightarrow> ah_get (w_ah w' e) k = ah_get (w_ah w2 e) k"
        "\<not> ha_haveit (ah_get (w_ah w' e) j)"
        "\<exists>a. ha_atom (ah_get (w_ah w' e) j) = Some a \<and> e \<in> set (at_waiting a w')"
        using IH by auto
      have "ha_done (ah_get (w_ah w' e) k)" if "idx \<le> k" "k < j" for k
        using j(4) dn that by (cases "k = idx") auto
      moreover have "ah_get (w_ah w' e) k = ah_get (w_ah w e) k" if "j < k" "k < idx + Suc m" for k
        using j(1,5) rnd that Suc.prems(3) by simp
      ultimately show ?thesis using False sh pre j rnd
        by (simp, intro exI[of _ j]) auto
    qed
  next
    case False
    then have "res = False" "w' = w2"
      using Suc.prems(1) b r by (auto simp: r1_def Let_def ha_done_def split: if_splits)
    then show ?thesis using rnd False i Suc.prems(3)
      by (simp, intro exI[of _ idx]) auto
  qed
qed


text \<open>A concrete world: one read/write guard on a standard map keyed by naturals, the key of a guard
  reference given by its translator function.  Event 0 writes keys 1 and 2, event 1 writes 1 and
  reads 2, event 2 reads 1 and writes 2.\<close>

definition ex_gfn :: "nat \<Rightarrow> nat \<Rightarrow> (int \<Rightarrow> nat option) \<Rightarrow> nat gtrans" where
  "ex_gfn f i ah = TKey f"

definition ex_ref :: "nat \<Rightarrow> int \<Rightarrow> int \<Rightarrow> gref" where
  "ex_ref k wt li = \<lparr> gr_fn = Some k, gr_guard = 0, gr_wtype = wt, gr_late = False, gr_lexical = li \<rparr>"

definition ex_world :: "nat world" where
  "ex_world = \<lparr> gw_atoms = (\<lambda>_. None),
     gw_guards = (\<lambda>g. \<lparr> g_magic = int g, g_map = (if g = 0 then GStd KReadWrite [] else GPool pool_new), g_is_gc = False \<rparr>),
     gw_next = 0,
     w_ah = (\<lambda>e. (ah_new False)\<lparr> ah_holders :=
        (if e = 0 then [ha_init (ex_ref 1 wt_Write 0), ha_init (ex_ref 2 wt_Write 1)]
         else if e = 1 then [ha_init (ex_ref 1 wt_Write 0), ha_init (ex_ref 2 wt_Read 1)]
         else if e = 2 then [ha_init (ex_ref 1 wt_Read 0), ha_init (ex_ref 2 wt_Write 1)] else []) \<rparr>) \<rparr>"

abbreviation ex_acquire :: "nat \<Rightarrow> nat world \<Rightarrow> (bool \<times> nat world) result" where
  "ex_acquire e w \<equiv> acquire_all_or_wait ex_gfn (0::nat) (0::nat) e None w"

definition waits_for :: "('k, 'z) world_scheme \<Rightarrow> nat \<Rightarrow> nat \<Rightarrow> bool" where
  "waits_for w e e' \<longleftrightarrow> (let ha = ah_get (w_ah w e) (ah_working_on (w_ah w e)) in
     \<not> ha_haveit ha \<and> (case ha_atom ha of None \<Rightarrow> False | Some a \<Rightarrow> e \<in> set (at_waiting a w) \<and>
       list_ex (\<lambda>j. ha_haveit (ah_get (w_ah w e') j) \<and> ha_atom (ah_get (w_ah w e') j) = Some a)
         [0..<ah_number (w_ah w e')]))"

text \<open>The states of the run: the two atomics and the holders of the three events.\<close>

definition ex_ha :: "nat \<Rightarrow> int \<Rightarrow> int \<Rightarrow> nat option \<Rightarrow> bool \<Rightarrow> nat hatom" where
  "ex_ha k wt li a b = \<lparr> ha_atom = a, ha_ref = ex_ref k wt li, ha_key = KPtr (k - 1) k, ha_haveit = b \<rparr>"

definition ex_h :: "nat hatom list \<Rightarrow> nat list \<Rightarrow> nat \<Rightarrow> nat holder" where
  "ex_h has srt wo = \<lparr> ah_holders = has, ah_sorted = srt, ah_lexical = (\<lambda>_. None), ah_keyed = True,
     ah_csorted = False, ah_working_on = wo \<rparr>"

definition ex_rw :: "int \<Rightarrow> int \<Rightarrow> aqe list \<Rightarrow> atomic" where
  "ex_rw held mode ws = AReadWrite \<lparr> ac_data = None, ac_held = held, ac_waiters = ws, rw_mode = mode \<rparr>"

definition ex_st :: "nat world \<Rightarrow> atomic \<Rightarrow> atomic \<Rightarrow> nat holder \<Rightarrow> nat holder \<Rightarrow> nat holder \<Rightarrow> bool" where
  "ex_st w a0 a1 h0 h1 h2 \<longleftrightarrow> gw_atoms w 0 = Some a0 \<and> gw_atoms w 1 = Some a1 \<and> gw_next w = 2 \<and>
     gw_guards w 0 = \<lparr> g_magic = 0, g_map = GStd KReadWrite [(1, 0, 0), (2, 1, 1)], g_is_gc = False \<rparr> \<and>
     w_ah w 0 = h0 \<and> w_ah w 1 = h1 \<and> w_ah w 2 = h2"

lemmas ex_eval = acquire_all_or_wait_def get_keys_sort_def ha_build_def gref_get_def ex_gfn_def
  ex_ref_def amap_get_def set_gmap_def set_atom_def set_ha_def set_ah_def qsort_def ha_compare_def
  ha_guard_type_def gref_magic_def gref_late_def ha_wtype_def amap_compare_def k_compare_def ah_new_def
  ah_number_def ah_idx_def ha_init_def atomic_new_def arw_new_def ha_skipit_def bump_working_on_def
  ha_acquire_or_wait_def at_acquire_or_wait_def atom_of_def rw_acquire_or_wait_def ex_ha_def ex_h_def
  ex_rw_def ex_st_def ex_world_def upt_rec numeral_2_eq_2 Let_def

abbreviation ex_fresh :: "nat \<Rightarrow> nat holder" where
  "ex_fresh e \<equiv> w_ah ex_world e"

abbreviation ex_held :: "nat \<Rightarrow> nat holder" where
  "ex_held wo \<equiv> ex_h [ex_ha 1 wt_Write 0 (Some 0) True, ex_ha 2 wt_Write 1 (Some 1) True] [0, 1] wo"

lemma ex_step0:
  "\<exists>w. ex_acquire 0 ex_world = Inr (True, w) \<and>
    ex_st w (ex_rw 1 wt_Write []) (ex_rw 1 wt_Write []) (ex_held 1) (ex_fresh 1) (ex_fresh 2)"
  by (simp add: ex_eval)

lemma ex_step1:
  assumes "ex_st w (ex_rw 1 wt_Write []) (ex_rw 1 wt_Write []) h0 (ex_fresh 1) (ex_fresh 2)"
  shows "\<exists>w'. ex_acquire 1 w = Inr (False, w') \<and>
    ex_st w' (ex_rw 1 wt_Write []) (ex_rw 1 wt_Write [(1, wt_Read)]) h0
      (ex_h [ex_ha 1 wt_Write 0 (Some 0) False, ex_ha 2 wt_Read 1 (Some 1) False] [1, 0] 0) (ex_fresh 2)"
  using assms by (simp add: ex_eval)

lemma ex_step2:
  assumes "ex_st w (ex_rw 1 wt_Write []) (ex_rw 1 wt_Write [(1, wt_Read)]) h0 h1 (ex_fresh 2)"
  shows "\<exists>w'. ex_acquire 2 w = Inr (False, w') \<and>
    ex_st w' (ex_rw 1 wt_Write [(2, wt_Read)]) (ex_rw 1 wt_Write [(1, wt_Read)]) h0 h1
      (ex_h [ex_ha 1 wt_Read 0 (Some 0) False, ex_ha 2 wt_Write 1 (Some 1) False] [0, 1] 0)"
  using assms by (simp add: ex_eval)

lemma ex_step3:
  assumes "ex_st w (ex_rw 1 wt_Write [(2, wt_Read)]) (ex_rw 1 wt_Write [(1, wt_Read)]) (ex_held 1)
      (ex_h [ex_ha 1 wt_Write 0 (Some 0) False, ex_ha 2 wt_Read 1 (Some 1) False] [1, 0] 0)
      (ex_h [ex_ha 1 wt_Read 0 (Some 0) False, ex_ha 2 wt_Write 1 (Some 1) False] [0, 1] 0)"
  shows "\<exists>w' h0. ah_release 0 w = Inr ([1, 2], w') \<and>
    ex_st w' (ex_rw 1 wt_Read []) (ex_rw 1 wt_Read []) h0
      (ex_h [ex_ha 1 wt_Write 0 (Some 0) False, ex_ha 2 wt_Read 1 (Some 1) True] [1, 0] 1)
      (ex_h [ex_ha 1 wt_Read 0 (Some 0) True, ex_ha 2 wt_Write 1 (Some 1) False] [0, 1] 1)"
  using assms
  by (simp add: ex_eval ah_release_def release_one_def at_release_def rw_release_def grant_one_def
      ah_get_def working_on_ok_def at_waiter_count_def at_held_def)

lemma ex_step4:
  assumes "ex_st w (ex_rw 1 wt_Read []) (ex_rw 1 wt_Read []) h0
      (ex_h [ex_ha 1 wt_Write 0 (Some 0) False, ex_ha 2 wt_Read 1 (Some 1) True] [1, 0] 1) h2"
  shows "\<exists>w'. ex_acquire 1 w = Inr (False, w') \<and>
    ex_st w' (ex_rw 1 wt_Read [(1, wt_Write)]) (ex_rw 1 wt_Read []) h0
      (ex_h [ex_ha 1 wt_Write 0 (Some 0) False, ex_ha 2 wt_Read 1 (Some 1) True] [1, 0] 1) h2"
  using assms by (simp add: ex_eval)

lemma ex_step5:
  assumes "ex_st w (ex_rw 1 wt_Read [(1, wt_Write)]) (ex_rw 1 wt_Read []) h0 h1
      (ex_h [ex_ha 1 wt_Read 0 (Some 0) True, ex_ha 2 wt_Write 1 (Some 1) False] [0, 1] 1)"
  shows "\<exists>w'. ex_acquire 2 w = Inr (False, w') \<and>
    ex_st w' (ex_rw 1 wt_Read [(1, wt_Write)]) (ex_rw 1 wt_Read [(2, wt_Write)]) h0 h1
      (ex_h [ex_ha 1 wt_Read 0 (Some 0) True, ex_ha 2 wt_Write 1 (Some 1) False] [0, 1] 1)"
  using assms by (simp add: ex_eval)

lemma ex_final:
  assumes "ex_st w (ex_rw 1 wt_Read [(1, wt_Write)]) (ex_rw 1 wt_Read [(2, wt_Write)]) h0
      (ex_h [ex_ha 1 wt_Write 0 (Some 0) False, ex_ha 2 wt_Read 1 (Some 1) True] [1, 0] 1)
      (ex_h [ex_ha 1 wt_Read 0 (Some 0) True, ex_ha 2 wt_Write 1 (Some 1) False] [0, 1] 1)"
  shows "waits_for w 1 2 \<and> waits_for w 2 1"
  using assms by (simp add: ex_eval waits_for_def ah_get_def at_waiting_def)

text \<open>C3: The acquisition order compares modes before keys, so it does not order the atomics of a
  read/write guard: an event that holds two keys for writing releases them to two events that
  each want one key to read and the other to write, and these then wait for each other for ever.\<close>

theorem mode_before_key_deadlock:
  "case bindE (ex_acquire 0 ex_world) (\<lambda>(r0, w0). bindE (ex_acquire 1 w0) (\<lambda>(r1, w1).
        bindE (ex_acquire 2 w1) (\<lambda>(r2, w2). bindE (ah_release 0 w2) (\<lambda>(rels, w3).
        bindE (ex_acquire 1 w3) (\<lambda>(r3, w4). bindE (ex_acquire 2 w4) (\<lambda>(r4, w5).
        Inr ([r0, r1, r2, r3, r4], rels, w5))))))) of
     Inl _ \<Rightarrow> False
   | Inr (rs, rels, w) \<Rightarrow> rs = [True, False, False, False, False] \<and> rels = [1, 2] \<and>
       waits_for w 1 2 \<and> waits_for w 2 1"
proof -
  obtain w0 where 0: "ex_acquire 0 ex_world = Inr (True, w0)"
    and s0: "ex_st w0 (ex_rw 1 wt_Write []) (ex_rw 1 wt_Write []) (ex_held 1) (ex_fresh 1) (ex_fresh 2)"
    using ex_step0 by blast
  from ex_step1[OF s0] ex_step2 obtain w1 w2 where 1: "ex_acquire 1 w0 = Inr (False, w1)"
    "ex_acquire 2 w1 = Inr (False, w2)" and
    s2: "ex_st w2 (ex_rw 1 wt_Write [(2, wt_Read)]) (ex_rw 1 wt_Write [(1, wt_Read)]) (ex_held 1)
      (ex_h [ex_ha 1 wt_Write 0 (Some 0) False, ex_ha 2 wt_Read 1 (Some 1) False] [1, 0] 0)
      (ex_h [ex_ha 1 wt_Read 0 (Some 0) False, ex_ha 2 wt_Write 1 (Some 1) False] [0, 1] 0)" by blast
  from ex_step3[OF s2] obtain w3 h0 where 3: "ah_release 0 w2 = Inr ([1, 2], w3)" and
    s3: "ex_st w3 (ex_rw 1 wt_Read []) (ex_rw 1 wt_Read []) h0
      (ex_h [ex_ha 1 wt_Write 0 (Some 0) False, ex_ha 2 wt_Read 1 (Some 1) True] [1, 0] 1)
      (ex_h [ex_ha 1 wt_Read 0 (Some 0) True, ex_ha 2 wt_Write 1 (Some 1) False] [0, 1] 1)" by blast
  from ex_step4[OF s3] ex_step5 obtain w4 w5 where 4: "ex_acquire 1 w3 = Inr (False, w4)"
    "ex_acquire 2 w4 = Inr (False, w5)" and
    s5: "ex_st w5 (ex_rw 1 wt_Read [(1, wt_Write)]) (ex_rw 1 wt_Read [(2, wt_Write)]) h0
      (ex_h [ex_ha 1 wt_Write 0 (Some 0) False, ex_ha 2 wt_Read 1 (Some 1) True] [1, 0] 1)
      (ex_h [ex_ha 1 wt_Read 0 (Some 0) True, ex_ha 2 wt_Write 1 (Some 1) False] [0, 1] 1)" by blast
  show ?thesis using 0 1 3 4 ex_final[OF s5] by simp
qed

definition ex_mid :: "nat world" where
  "ex_mid = ex_world\<lparr> gw_atoms := [0 \<mapsto> ex_rw 1 wt_Read [], 1 \<mapsto> ex_rw 1 wt_Read []], gw_next := 2,
     gw_guards := (gw_guards ex_world)(0 := \<lparr> g_magic = 0, g_map = GStd KReadWrite [(1, 0, 0), (2, 1, 1)], g_is_gc = False \<rparr>),
     w_ah := (w_ah ex_world)(1 := ex_h [ex_ha 1 wt_Write 0 (Some 0) False, ex_ha 2 wt_Read 1 (Some 1) True] [1, 0] 1) \<rparr>"

lemma get_keys_sort_sorts_witness:
  "\<exists>w1. get_keys_sort ex_gfn 0 (0::nat) 1 ex_world = Inr (True, w1) \<and>
    sorted_wrt (\<lambda>i j. ha_compare (ah_holders (w_ah w1 1) ! i) (ah_holders (w_ah w1 1) ! j) False w1 \<le> 0)
      (ah_sorted (w_ah w1 1))"
proof -
  have "\<exists>w1. get_keys_sort ex_gfn 0 (0::nat) 1 ex_world = Inr (True, w1) \<and>
      magic_inj w1 \<and> \<not> ah_csorted (w_ah w1 1)"
    by (simp add: ex_eval magic_inj_def)
  then obtain w1 where w: "get_keys_sort ex_gfn 0 (0::nat) 1 ex_world = Inr (True, w1)"
    and "magic_inj w1" "\<not> ah_csorted (w_ah w1 1)" by blast
  then show ?thesis using get_keys_sort_sorts[OF w] by (auto simp: Let_def)
qed


section \<open>Deadlock freedom for one mode per guard\<close>

definition ah_waits :: "('k, 'z) world_scheme \<Rightarrow> nat \<Rightarrow> 'k hatom" where
  "ah_waits w e = ah_get (w_ah w e) (ah_working_on (w_ah w e))"

definition ordered_event :: "('k::linorder, 'z) world_scheme \<Rightarrow> nat \<Rightarrow> bool" where
  "ordered_event w e \<longleftrightarrow> (let h = w_ah w e in
     (\<forall>i j. i < j \<and> j < ah_number h \<longrightarrow> ha_compare (ah_get h i) (ah_get h j) False w < 0) \<and>
     (\<forall>j<ah_number h. ha_haveit (ah_get h j) \<and> ah_working_on h < ah_number h \<longrightarrow> j \<le> ah_working_on h) \<and>
     (\<forall>j<ah_number h. \<not> gref_late (ha_ref (ah_get h j)) w))"

text \<open>Two held atomics of the events refer to the same atomic only for the same guard, equal keys and
  the same mode.\<close>

definition one_mode :: "('k::linorder, 'z) world_scheme \<Rightarrow> nat set \<Rightarrow> bool" where
  "one_mode w E \<longleftrightarrow> (\<forall>e\<in>E. \<forall>e'\<in>E. \<forall>i<ah_number (w_ah w e). \<forall>j<ah_number (w_ah w e').
     let x = ah_get (w_ah w e) i; y = ah_get (w_ah w e') j in
     ha_atom x = ha_atom y \<and> ha_atom x \<noteq> None \<longrightarrow>
       gr_guard (ha_ref x) = gr_guard (ha_ref y) \<and> amap_compare (gr_guard (ha_ref x)) (ha_key x) (ha_key y) w = 0 \<and>
       ha_wtype x = ha_wtype y)"

lemma ha_compare_less_trans:
  assumes "magic_inj w" "ha_compare a b ig w \<le> 0" "ha_compare b c ig w < 0"
  shows "ha_compare a c ig w < 0"
proof (rule ccontr)
  assume "\<not> ha_compare a c ig w < 0"
  then have "ha_compare c a ig w \<le> 0" using ha_compare_antisym[OF assms(1), of a c ig] by simp
  then have "ha_compare c b ig w \<le> 0" using ha_compare_trans[OF assms(1) _ assms(2)] by blast
  then show False using ha_compare_antisym[OF assms(1), of b c ig] assms(3) by simp
qed

lemma waits_for_rank:
  assumes m: "magic_inj w" and o: "ordered_event w e" "ordered_event w e'" and u: "one_mode w E" "e \<in> E" "e' \<in> E"
    and wf: "waits_for w e e'" and wo: "ah_working_on (w_ah w e) < ah_number (w_ah w e)"
    and wo': "ah_working_on (w_ah w e') < ah_number (w_ah w e')" "\<not> ha_haveit (ah_waits w e')"
  shows "ha_compare (ah_waits w e) (ah_waits w e') False w < 0"
proof -
  let ?h = "w_ah w e" and ?h' = "w_ah w e'"
  obtain a j where a: "ha_atom (ah_waits w e) = Some a" and
    j: "j < ah_number ?h'" "ha_haveit (ah_get ?h' j)" "ha_atom (ah_get ?h' j) = Some a"
    using wf by (auto simp: waits_for_def ah_waits_def Let_def list_ex_iff split: option.splits)
  have ne: "j \<noteq> ah_working_on ?h'" using j(2) wo'(2) by (auto simp: ah_waits_def)
  then have jl: "j < ah_working_on ?h'" using o(2) j wo' by (auto simp: ordered_event_def Let_def dest: le_neq_implies_less)
  have lt: "ha_compare (ah_get ?h' j) (ah_waits w e') False w < 0"
    using o(2) jl wo' by (auto simp: ordered_event_def ah_waits_def Let_def)
  have "gr_guard (ha_ref (ah_waits w e)) = gr_guard (ha_ref (ah_get ?h' j)) \<and>
      amap_compare (gr_guard (ha_ref (ah_waits w e))) (ha_key (ah_waits w e)) (ha_key (ah_get ?h' j)) w = 0 \<and>
      ha_wtype (ah_waits w e) = ha_wtype (ah_get ?h' j)"
    using u j a wo unfolding one_mode_def ah_waits_def Let_def by (metis option.distinct(1))
  then have "gr_guard (ha_ref (ah_waits w e)) = gr_guard (ha_ref (ah_get ?h' j))"
      "amap_compare (gr_guard (ha_ref (ah_waits w e))) (ha_key (ah_waits w e)) (ha_key (ah_get ?h' j)) w = 0"
      "ha_wtype (ah_waits w e) = ha_wtype (ah_get ?h' j)"
    by blast+
  moreover have "\<not> gref_late (ha_ref (ah_waits w e)) w" "\<not> gref_late (ha_ref (ah_get ?h' j)) w"
    using o wo j by (auto simp: ordered_event_def ah_waits_def Let_def)
  ultimately have "ha_compare (ah_waits w e) (ah_get ?h' j) False w = 0"
    by (simp add: ha_compare_def ha_guard_type_def gref_magic_def Let_def)
  then show ?thesis using ha_compare_less_trans[OF m _ lt] by simp
qed



section \<open>Releasing twice\<close>

lemma map_list_update_same: "f y = f (xs ! i) \<Longrightarrow> map f (xs[i := y]) = map f xs"
  by (cases "i < length xs") (simp_all add: map_update list_update_same_conv list_update_beyond not_less)

lemma map_list_update_self [simp]: "(map f xs)[i := f (xs ! i)] = map f xs"
  by (cases "i < length xs") (simp_all add: list_update_same_conv list_update_beyond not_less)

definition ah_atoms :: "'k holder \<Rightarrow> nat option list" where
  "ah_atoms h = map ha_atom (ah_holders h)"

lemma ah_atoms_update:
  assumes "ha_ref ha = ha_ref (ah_holders h ! i)"
  shows "ah_atoms (h\<lparr> ah_holders := (ah_holders h)[i := ha] \<rparr>) = (ah_atoms h)[i := ha_atom ha]"
    "shape (h\<lparr> ah_holders := (ah_holders h)[i := ha] \<rparr>) = shape h"
  using assms by (simp_all add: ah_atoms_def map_update shape_def ah_number_def map_list_update_same)

lemma ah_atoms_same:
  assumes "ha_ref ha = ha_ref (ah_holders h ! i)" "ha_atom ha = ha_atom (ah_holders h ! i)"
  shows "ah_atoms (h\<lparr> ah_holders := (ah_holders h)[i := ha] \<rparr>) = ah_atoms h"
  using assms by (simp add: ah_atoms_def map_list_update_same)

lemma ah_atoms_working [simp]: "ah_atoms (h\<lparr> ah_working_on := n \<rparr>) = ah_atoms h"
  by (simp add: ah_atoms_def)

lemma grant_one_frame:
  assumes "grant_one b a pool ha re w = Inr w1"
  shows "ah_atoms (w_ah w1 e) = ah_atoms (w_ah w e) \<and> shape (w_ah w1 e) = shape (w_ah w e)"
proof -
  let ?h = "w_ah w re"
  obtain j where f: "find_granted a pool ha ?h w [ah_working_on ?h..<ah_number ?h] = Some j"
    using assms by (auto simp: grant_one_def Let_def split: option.splits)
  then have j: "w1 = set_ha re (ah_idx ?h j) ((ah_get ?h j)\<lparr> ha_haveit := ha_haveit ha \<rparr>) w \<or>
      w1 = bump_working_on re (j + 1) (set_ha re (ah_idx ?h j) ((ah_get ?h j)\<lparr> ha_haveit := ha_haveit ha \<rparr>) w)"
    using assms by (cases "ha_haveit ha"; cases "j = ah_working_on ?h")
      (simp_all add: grant_one_def Let_def assertE_eq_Inr)
  have "ah_atoms (?h\<lparr> ah_holders := (ah_holders ?h)[ah_idx ?h j := (ah_get ?h j)\<lparr> ha_haveit := ha_haveit ha \<rparr>] \<rparr>) = ah_atoms ?h"
    "shape (?h\<lparr> ah_holders := (ah_holders ?h)[ah_idx ?h j := (ah_get ?h j)\<lparr> ha_haveit := ha_haveit ha \<rparr>] \<rparr>) = shape ?h"
    by (rule ah_atoms_same ah_atoms_update(2); simp add: ah_get_def)+
  then show ?thesis using j by (auto simp: bump_working_on_def)
qed

lemma grants_frame:
  assumes "foldE (grant_one b a pool ha) new w = Inr w1"
  shows "ah_atoms (w_ah w1 e) = ah_atoms (w_ah w e) \<and> shape (w_ah w1 e) = shape (w_ah w e)"
  using assms
  by (rule foldE_invariant[where P = "\<lambda>v. ah_atoms (w_ah v e) = ah_atoms (w_ah w e) \<and> shape (w_ah v e) = shape (w_ah w e)"])
    (use grant_one_frame in \<open>metis+\<close>)

lemma gc_frame:
  assumes "ha_garbage_collect e i w = Inr w1"
  shows "\<exists>v. ah_atoms (w_ah w1 e) = (ah_atoms (w_ah w e))[i := v] \<and> shape (w_ah w1 e) = shape (w_ah w e)"
proof -
  let ?ha = "ah_holders (w_ah w e) ! i"
  obtain a x where a: "ha_atom ?ha = Some a" "atom_of a w = Inr x"
    using assms by (auto simp: ha_garbage_collect_def Let_def bindE_eq_Inr split: option.splits)
  have self: "(ah_atoms (w_ah w e))[i := ah_atoms (w_ah w e) ! i] = ah_atoms (w_ah w e)" by simp
  show ?thesis
  proof (cases "atomic_data x = None")
    case False
    then obtain d where "atomic_data x = Some d" by blast
    then have "w1 = w" using assms a by (simp add: ha_garbage_collect_def Let_def)
    then show ?thesis using self by metis
  next
    case True
    then obtain b w0 where g: "guard_garbage_collect (gr_guard (ha_ref ?ha)) (ha_key ?ha) a w = Inr (b, w0)"
      and w1: "w1 = (if b then set_ha e i (?ha\<lparr> ha_atom := None, ha_key := KNull \<rparr>) w0 else w0)"
      using assms a by (auto simp: ha_garbage_collect_def Let_def bindE_eq_Inr split: prod.splits)
    have w0: "w_ah w0 = w_ah w" using guard_gc_more[OF g] by (rule w_ah_more)
    show ?thesis
    proof (cases b)
      case True
      then show ?thesis using w1 w0 by (auto simp: ah_atoms_update)
    next
      case False
      then have "w_ah w1 = w_ah w" using w1 w0 by simp
      then show ?thesis using self by metis
    qed
  qed
qed

lemma release_one_frame:
  assumes "release_one e idx (rels, w) = Inr (rels', w')"
  shows "(\<exists>v. ah_atoms (w_ah w' e) = (ah_atoms (w_ah w e))[ah_idx (w_ah w e) idx := v] \<and>
      (ah_idx (w_ah w e) idx < ah_number (w_ah w e) \<longrightarrow> v = None)) \<and> shape (w_ah w' e) = shape (w_ah w e)"
proof -
  let ?i = "ah_idx (w_ah w e) idx"
  let ?ha = "ah_holders (w_ah w e) ! ?i"
  show ?thesis
  proof (cases "ha_haveit ?ha \<and> ha_atom ?ha \<noteq> None")
    case False
    then have "w' = w" "ha_atom ?ha = None"
      using assms by (auto simp: release_one_def Let_def assertE_eq_Inr ha_skipit_def split: bool.splits option.splits)
    then show ?thesis
      by (intro conjI exI[of _ "ah_atoms (w_ah w e) ! ?i"]) (auto simp: ah_atoms_def ah_number_def)
  next
    case True
    then obtain a x new w1 w2 x2 w3 where a: "ha_atom ?ha = Some a"
      and r: "at_release (ah_target w) a w = Inr (new, w1)"
      and gr: "foldE (grant_one e a (is_pool_like x) ?ha) new w1 = Inr w2"
      and gc: "(if new = [] \<and> at_waiter_count x2 w2 = 0 \<and> at_held x2 = 0 then ha_garbage_collect e ?i w2 else Inr w2) = Inr w3"
      and fin: "(if ha_atom (ah_holders (w_ah w3 e) ! ?i) \<noteq> None \<and> can_relinquish x
          then at_relinquish (new \<noteq> []) a (set_ha e ?i ((ah_holders (w_ah w3 e) ! ?i)\<lparr> ha_atom := None \<rparr>) w3)
          else Inr (set_ha e ?i ((ah_holders (w_ah w3 e) ! ?i)\<lparr> ha_atom := None \<rparr>) w3)) = Inr w'"
      using assms by (auto simp: release_one_def Let_def assertE_eq_Inr bindE_eq_Inr)
    have 1: "w_ah w1 = w_ah w" using at_release_more[OF r] by (rule w_ah_more)
    have 2: "ah_atoms (w_ah w2 e) = ah_atoms (w_ah w e)" "shape (w_ah w2 e) = shape (w_ah w e)"
      using grants_frame[OF gr, of e] 1 by simp_all
    obtain v where 3: "ah_atoms (w_ah w3 e) = (ah_atoms (w_ah w e))[?i := v]" "shape (w_ah w3 e) = shape (w_ah w e)"
    proof (cases "new = [] \<and> at_waiter_count x2 w2 = 0 \<and> at_held x2 = 0")
      case True
      then show ?thesis using gc_frame[of e ?i w2 w3] gc 2 that by auto
    next
      case False
      then have "w3 = w2" using gc by (simp split: if_splits)
      then show ?thesis using 2 that[of "ah_atoms (w_ah w e) ! ?i"] by simp
    qed
    have "w_ah w' = w_ah (set_ha e ?i ((ah_holders (w_ah w3 e) ! ?i)\<lparr> ha_atom := None \<rparr>) w3)"
      using fin by (auto split: if_splits dest!: at_relinquish_more w_ah_more)
    then show ?thesis using 3 by (auto simp: ah_atoms_update)
  qed
qed

lemma release_all_atoms:
  assumes "foldE (release_one e) idxs (rels, w) = Inr (rels', w')"
    and "\<forall>i\<in>set idxs. ah_idx (w_ah w e) i < ah_number (w_ah w e)"
  shows "shape (w_ah w' e) = shape (w_ah w e) \<and>
    (\<forall>k<ah_number (w_ah w e). ah_atoms (w_ah w e) ! k = None \<or> k \<in> ah_idx (w_ah w e) ` set idxs \<longrightarrow> ah_atoms (w_ah w' e) ! k = None)"
  using assms
proof (induction idxs arbitrary: rels w)
  case (Cons i idxs)
  from Cons.prems(1) obtain r1 w1 where r: "release_one e i (rels, w) = Inr (r1, w1)"
    "foldE (release_one e) idxs (r1, w1) = Inr (rels', w')" by (auto simp: bindE_eq_Inr)
  have f: "shape (w_ah w1 e) = shape (w_ah w e)"
    "ah_atoms (w_ah w1 e) = (ah_atoms (w_ah w e))[ah_idx (w_ah w e) i := None]"
    using release_one_frame[OF r(1)] Cons.prems(2) by auto
  have n: "ah_number (w_ah w1 e) = ah_number (w_ah w e)" "ah_idx (w_ah w1 e) = ah_idx (w_ah w e)"
    using shape_idx[OF f(1)] by simp_all
  have l: "length (ah_atoms (w_ah w e)) = ah_number (w_ah w e)" by (simp add: ah_atoms_def ah_number_def)
  have IH: "shape (w_ah w' e) = shape (w_ah w1 e) \<and> (\<forall>k<ah_number (w_ah w e).
      ah_atoms (w_ah w1 e) ! k = None \<or> k \<in> ah_idx (w_ah w e) ` set idxs \<longrightarrow> ah_atoms (w_ah w' e) ! k = None)"
    using Cons.IH[OF r(2)] Cons.prems(2) n by simp
  have "ah_atoms (w_ah w1 e) ! k = None" if "k < ah_number (w_ah w e)"
      "ah_atoms (w_ah w e) ! k = None \<or> k = ah_idx (w_ah w e) i" for k
    using that f(2) l by (cases "k = ah_idx (w_ah w e) i") auto
  then show ?case using IH f(1) by auto
qed simp

lemma release_one_skip:
  assumes "ha_atom (ah_holders (w_ah w e) ! ah_idx (w_ah w e) i) = None"
  shows "release_one e i (rels, w) = Inr (rels, w)"
  using assms by (auto simp: release_one_def Let_def ha_skipit_def split: bool.splits)

text \<open>Releasing an event's atomics a second time (after an early release by the node itself) does
  nothing: no event is released twice and no atomic is touched again.\<close>

theorem release_idempotent:
  assumes "ah_release e w = Inr (rels, w')" and "perm_ok (w_ah w e)"
  shows "ah_release e w' = Inr ([], w')"
proof -
  let ?n = "ah_number (w_ah w e)"
  have idx: "ah_idx (w_ah w e) i < ?n" if "i < ?n" for i using perm_ok_idx(1)[OF assms(2) that] .
  have f: "shape (w_ah w' e) = shape (w_ah w e)"
    "\<And>k. k < ?n \<Longrightarrow> k \<in> ah_idx (w_ah w e) ` {..<?n} \<Longrightarrow> ah_atoms (w_ah w' e) ! k = None"
    using release_all_atoms[OF assms(1)[unfolded ah_release_def]] idx by auto
  have n: "ah_number (w_ah w' e) = ?n" "ah_idx (w_ah w' e) = ah_idx (w_ah w e)" using shape_idx[OF f(1)] by simp_all
  have skip: "release_one e i ([], w') = Inr ([], w')" if "i < ?n" for i
  proof (rule release_one_skip)
    have "ah_atoms (w_ah w' e) ! ah_idx (w_ah w e) i = None" using f(2) idx that by blast
    then show "ha_atom (ah_holders (w_ah w' e) ! ah_idx (w_ah w' e) i) = None"
      using idx[OF that] n by (simp add: ah_atoms_def ah_number_def)
  qed
  have "foldE (release_one e) is ([], w') = Inr ([], w')" if "\<forall>i\<in>set is. i < ?n" for "is"
    using that by (induction "is") (auto simp: skip)
  then show ?thesis using n by (simp add: ah_release_def)
qed

lemma release_idempotent_witness:
  "\<exists>w rels w'. ah_release 0 w = Inr (rels, w') \<and> rels = [1, 2] \<and> ah_release 0 w' = Inr ([], w' :: nat world)"
proof -
  obtain w0 where s0: "ex_st w0 (ex_rw 1 wt_Write []) (ex_rw 1 wt_Write []) (ex_held 1) (ex_fresh 1) (ex_fresh 2)"
    using ex_step0 by blast
  from ex_step1[OF s0] ex_step2 obtain w2 where
    s2: "ex_st w2 (ex_rw 1 wt_Write [(2, wt_Read)]) (ex_rw 1 wt_Write [(1, wt_Read)]) (ex_held 1)
      (ex_h [ex_ha 1 wt_Write 0 (Some 0) False, ex_ha 2 wt_Read 1 (Some 1) False] [1, 0] 0)
      (ex_h [ex_ha 1 wt_Read 0 (Some 0) False, ex_ha 2 wt_Write 1 (Some 1) False] [0, 1] 0)" by blast
  from ex_step3[OF s2] obtain w3 where 3: "ah_release 0 w2 = Inr ([1, 2], w3)" by blast
  have "w_ah w2 0 = ex_held 1" using s2 by (simp add: ex_st_def)
  then have "perm_ok (w_ah w2 0)" by (simp add: perm_ok_def ex_h_def ah_number_def upt_rec)
  from release_idempotent[OF 3 this] 3 show ?thesis by blast
qed

end
