(* ===== verification/Orderable.thy ===== *)
theory Orderable
  imports Prelude
begin

text \<open>
  runtime/OFluxOrderable.cpp: the magic numbers that order the guards of a flow.  Numberable objects
  are identifiers, their numbers a function from identifiers; NULL (an unknown name) is None.
\<close>

type_synonym mnums = "nat \<Rightarrow> int"

text \<open>The predecessor map: a std::map from objects to sets of objects, iterated in key order.\<close>

type_synonym predmap = "(nat \<times> nat list) list"

text \<open>Inequalities are looked up when they are added, points (names) only when they are numbered.\<close>

record 's magic_sorter =
  ms_inequalities :: "(nat option \<times> nat option) list"
  ms_points :: "'s list"

definition ms_new :: "'s magic_sorter" where
  "ms_new = \<lparr> ms_inequalities = [], ms_points = [] \<rparr>"

definition addInequality :: "('s \<Rightarrow> nat option) \<Rightarrow> 's \<Rightarrow> 's \<Rightarrow> 's magic_sorter \<Rightarrow> 's magic_sorter" where
  "addInequality getMN before after s =
     s\<lparr> ms_inequalities := ms_inequalities s @ [(getMN before, getMN after)] \<rparr>"

definition addPoint :: "'s \<Rightarrow> 's magic_sorter \<Rightarrow> 's magic_sorter" where
  "addPoint p s = s\<lparr> ms_points := ms_points s @ [p] \<rparr>"

text \<open>Finding an entry, adding an empty one in key order when there is none.\<close>

fun pm_touch :: "nat \<Rightarrow> predmap \<Rightarrow> predmap" where
  "pm_touch k [] = [(k, [])]"
| "pm_touch k ((k', s) # m) =
     (if k = k' then (k', s) # m else if k < k' then (k, []) # (k', s) # m else (k', s) # pm_touch k m)"

fun pm_insert :: "nat \<Rightarrow> nat \<Rightarrow> predmap \<Rightarrow> predmap" where
  "pm_insert k v [] = []"
| "pm_insert k v ((k', s) # m) =
     (if k = k' then (k', List.insert v s) # m else (k', s) # pm_insert k v m)"

fun build_pred_map :: "(nat \<times> nat) list \<Rightarrow> predmap \<Rightarrow> predmap" where
  "build_pred_map [] m = m"
| "build_pred_map ((before, after) # is) m =
     build_pred_map is (pm_touch before (pm_insert after before (pm_touch after m)))"

definition all_magicnumber_assigned :: "mnums \<Rightarrow> nat list \<Rightarrow> bool" where
  "all_magicnumber_assigned mn s \<longleftrightarrow> list_all (\<lambda>p. mn p > 0) s"

text \<open>One pass of the numbering loop over the map.\<close>

fun number_pass :: "predmap \<Rightarrow> mnums \<Rightarrow> int \<Rightarrow> bool \<Rightarrow> bool \<Rightarrow> mnums \<times> int \<times> bool \<times> bool" where
  "number_pass [] mn magic nochange allassigned = (mn, magic, nochange, allassigned)"
| "number_pass ((k, s) # m) mn magic nochange allassigned =
     (let allassigned' = (allassigned \<and> mn k > 0)
      in if mn k = 0 \<and> all_magicnumber_assigned mn s
         then number_pass m (mn(k := magic)) (magic + 1) False allassigned'
         else number_pass m mn magic nochange allassigned')"

definition unassigned :: "predmap \<Rightarrow> mnums \<Rightarrow> nat" where
  "unassigned m mn = length (filter (\<lambda>(k, s). mn k = 0) m)"

lemma unassigned_update_le: "magic \<noteq> 0 \<Longrightarrow> unassigned m (mn(k := magic)) \<le> unassigned m mn"
  by (induction m) (auto simp: unassigned_def split: if_splits)

text \<open>A pass that changed something left fewer objects without a number.\<close>

lemma number_pass_le:
  assumes "number_pass m mn magic nc aa = (mn', magic', nc', aa')" "magic > 0"
  shows "(\<forall>m0. unassigned m0 mn' \<le> unassigned m0 mn) \<and> (nc \<and> \<not> nc' \<longrightarrow> unassigned m mn' < unassigned m mn)"
  using assms
proof (induction m mn magic nc aa rule: number_pass.induct)
  case (1 mn magic nc aa)
  then show ?case by auto
next
  case (2 k s m mn magic nc aa)
  show ?case
  proof (cases "mn k = 0 \<and> all_magicnumber_assigned mn s")
    case True
    then have p: "number_pass m (mn(k := magic)) (magic + 1) False (aa \<and> mn k > 0) = (mn', magic', nc', aa')"
      using 2(3) by (simp add: Let_def)
    have "magic + 1 > 0" using 2(4) by simp
    from conjunct1[OF 2(1)[OF refl True p this]]
    have IH: "\<forall>m0. unassigned m0 mn' \<le> unassigned m0 (mn(k := magic))" .
    have all: "unassigned m0 mn' \<le> unassigned m0 mn" for m0
      by (rule le_trans[OF IH[rule_format] unassigned_update_le]) (use 2(4) in simp)
    have "unassigned ((k, s) # m) (mn(k := magic)) < unassigned ((k, s) # m) mn"
      using True 2(4) unassigned_update_le[of magic m mn k] by (simp add: unassigned_def)
    then show ?thesis using all IH by (meson le_less_trans)
  next
    case False
    then have p: "number_pass m mn magic nc (aa \<and> mn k > 0) = (mn', magic', nc', aa')"
      using 2(3) by (auto simp: Let_def)
    then have IH: "(\<forall>m0. unassigned m0 mn' \<le> unassigned m0 mn) \<and> (nc \<and> \<not> nc' \<longrightarrow> unassigned m mn' < unassigned m mn)"
      using 2(2)[OF refl False p] 2(4) by simp
    moreover have "unassigned m mn' < unassigned m mn \<Longrightarrow> unassigned ((k, s) # m) mn' < unassigned ((k, s) # m) mn"
      using conjunct1[OF IH, rule_format, of "[(k, s)]"] by (auto simp: unassigned_def split: if_splits)
    ultimately show ?thesis by blast
  qed
qed

text \<open>The loop: passes until one changes nothing.  \<open>magic\<close> starts at 1; the guard of the recursion
  says so.\<close>

function number_loop :: "predmap \<Rightarrow> mnums \<Rightarrow> int \<Rightarrow> mnums \<times> int \<times> bool" where
  "number_loop m mn magic =
     (case number_pass m mn magic True True of (mn', magic', nochange, allassigned) \<Rightarrow>
       if nochange \<or> magic \<le> 0 then (mn', magic', allassigned) else number_loop m mn' magic')"
  by pat_completeness auto
termination
proof (relation "measure (\<lambda>(m, mn, magic). unassigned m mn)")
  fix m mn magic mn' y magic' z nochange allassigned
  assume x: "(mn', y) = number_pass m mn magic True True" "(magic', z) = y" "(nochange, allassigned) = z"
    and c: "\<not> (nochange \<or> magic \<le> 0)"
  then have "number_pass m mn magic True True = (mn', magic', nochange, allassigned)" by simp
  from number_pass_le[OF this] c show "((m, mn', magic'), m, mn, magic) \<in> measure (\<lambda>(m, mn, magic). unassigned m mn)"
    by simp
qed simp

declare number_loop.simps [simp del]

fun number_points :: "('s \<Rightarrow> nat option) \<Rightarrow> 's list \<Rightarrow> mnums \<Rightarrow> int \<Rightarrow> mnums result" where
  "number_points getMN [] mn magic = Inr mn"
| "number_points getMN (pt # pts) mn magic =
     (case getMN pt of None \<Rightarrow> Inl NullDeref
      | Some p \<Rightarrow>
          if mn p = 0 then number_points getMN pts (mn(p := magic)) (magic + 1)
          else number_points getMN pts mn magic)"

fun known_inequalities :: "(nat option \<times> nat option) list \<Rightarrow> (nat \<times> nat) list result" where
  "known_inequalities [] = Inr []"
| "known_inequalities ((Some b, Some a) # is) = bindE (known_inequalities is) (\<lambda>ks. Inr ((b, a) # ks))"
| "known_inequalities (_ # is) = Inl NullDeref"

definition numberAll :: "('s \<Rightarrow> nat option) \<Rightarrow> 's magic_sorter \<Rightarrow> mnums \<Rightarrow> mnums result" where
  "numberAll getMN s mn =
     bindE (known_inequalities (ms_inequalities s)) (\<lambda>ineqs.
       case number_loop (build_pred_map ineqs []) mn 1 of (mn1, magic, allassigned) \<Rightarrow>
         assertE allassigned (number_points getMN (ms_points s) mn1 magic))"

section \<open>The predecessor map\<close>

definition pm_edges :: "predmap \<Rightarrow> (nat \<times> nat) set" where
  "pm_edges m = {(b, a). \<exists>s. (a, s) \<in> set m \<and> b \<in> set s}"

definition pm_keys :: "predmap \<Rightarrow> nat set" where
  "pm_keys m = fst ` set m"

lemma pm_touch_props:
  "pm_edges (pm_touch k m) = pm_edges m" "pm_keys (pm_touch k m) = insert k (pm_keys m)"
proof -
  show "pm_keys (pm_touch k m) = insert k (pm_keys m)"
    by (induction k m rule: pm_touch.induct) (auto simp: pm_keys_def)
  have "set (pm_touch k m) = set m \<or> set (pm_touch k m) = insert (k, []) (set m)"
    by (induction k m rule: pm_touch.induct) auto
  then show "pm_edges (pm_touch k m) = pm_edges m" by (auto simp: pm_edges_def)
qed

lemma pm_insert_keys: "pm_keys (pm_insert k v m) = pm_keys m"
  by (induction k v m rule: pm_insert.induct) (auto simp: pm_keys_def)

lemma pm_edges_Cons: "pm_edges ((k, s) # m) = set s \<times> {k} \<union> pm_edges m"
  by (auto simp: pm_edges_def)

lemma pm_insert_edges: "k \<in> pm_keys m \<Longrightarrow> pm_edges (pm_insert k v m) = insert (v, k) (pm_edges m)"
  by (induction k v m rule: pm_insert.induct) (auto simp: pm_edges_Cons pm_keys_def)

lemma build_pred_map_props:
  "pm_edges (build_pred_map is m) = set is \<union> pm_edges m \<and>
   pm_keys (build_pred_map is m) = fst ` set is \<union> snd ` set is \<union> pm_keys m"
proof (induction "is" m rule: build_pred_map.induct)
  case (2 b a "is" m)
  then show ?case
    by (auto simp: pm_touch_props pm_insert_keys pm_insert_edges)
qed simp

section \<open>Correctness of the numbering\<close>

text \<open>Numbers below \<open>magic\<close>, distinct where positive, and every numbered key above its predecessors.\<close>

definition mn_inv :: "predmap \<Rightarrow> mnums \<Rightarrow> int \<Rightarrow> bool" where
  "mn_inv m mn magic \<longleftrightarrow> magic > 0 \<and> (\<forall>k. 0 \<le> mn k \<and> mn k < magic) \<and>
     (\<forall>j k. mn j = mn k \<and> mn j > 0 \<longrightarrow> j = k) \<and>
     (\<forall>(b, a)\<in>pm_edges m. mn a > 0 \<longrightarrow> 0 < mn b \<and> mn b < mn a)"

lemma mn_inv_assign:
  assumes inv: "mn_inv m mn magic" and k: "mn k = 0" and preds: "\<forall>b. (b, k) \<in> pm_edges m \<longrightarrow> mn b > 0"
  shows "mn_inv m (mn(k := magic)) (magic + 1)"
proof -
  have lt: "mn j < magic" "0 \<le> mn j" for j using inv by (auto simp: mn_inv_def)
  have e: "0 < mn b \<and> mn b < mn a" if "(b, a) \<in> pm_edges m" "mn a > 0" for a b
    using inv that by (auto simp: mn_inv_def)
  have "0 < (mn(k := magic)) b \<and> (mn(k := magic)) b < (mn(k := magic)) a"
    if "(b, a) \<in> pm_edges m" "(mn(k := magic)) a > 0" for a b
  proof (cases "a = k")
    case True
    then have "mn b > 0" "b \<noteq> k" using preds that k by auto
    then show ?thesis using True lt(1)[of b] by simp
  next
    case False
    then have "b \<noteq> k" using e[of b a] that k by auto
    then show ?thesis using e[of b a] that False by simp
  qed
  moreover have "j = l" if "(mn(k := magic)) j = (mn(k := magic)) l" "(mn(k := magic)) j > 0" for j l
  proof (cases "j = k \<or> l = k")
    case True
    then show ?thesis using that lt(1)[of j] lt(1)[of l] by (auto split: if_splits)
  next
    case False
    then show ?thesis using that inv by (simp add: mn_inv_def)
  qed
  moreover have "0 \<le> (mn(k := magic)) j \<and> (mn(k := magic)) j < magic + 1" for j
    using lt[of j] lt(1)[of k] k by (cases "j = k") simp_all
  moreover have "magic + 1 > 0" using lt(1)[of k] k by simp
  ultimately show ?thesis unfolding mn_inv_def by blast
qed

text \<open>A pass over part \<open>m\<close> of the whole map \<open>M\<close>; the entries of a key agree with the edges because keys
  are unique.\<close>

lemma number_pass_inv:
  assumes "number_pass m mn magic nc aa = (mn', magic', nc', aa')" "mn_inv M mn magic"
    and "\<And>k s b. (k, s) \<in> set m \<Longrightarrow> (b, k) \<in> pm_edges M \<Longrightarrow> b \<in> set s"
  shows "mn_inv M mn' magic' \<and> (nc' \<longrightarrow> nc \<and> mn' = mn \<and> magic' = magic \<and> (aa' \<longleftrightarrow> aa \<and> (\<forall>k\<in>pm_keys m. mn k > 0)) \<and>
    (\<forall>(k, s)\<in>set m. mn k = 0 \<longrightarrow> \<not> all_magicnumber_assigned mn s))"
  using assms
proof (induction m mn magic nc aa rule: number_pass.induct)
  case (1 mn magic nc aa)
  then show ?case by (simp add: pm_keys_def)
next
  case (2 k s m mn magic nc aa)
  show ?case
  proof (cases "mn k = 0 \<and> all_magicnumber_assigned mn s")
    case True
    have p: "number_pass m (mn(k := magic)) (magic + 1) False (aa \<and> mn k > 0) = (mn', magic', nc', aa')"
      using True 2(3) by (simp add: Let_def)
    have "\<forall>b. (b, k) \<in> pm_edges M \<longrightarrow> mn b > 0"
      using True 2(5)[of k s] by (auto simp: all_magicnumber_assigned_def list_all_iff)
    then have "mn_inv M (mn(k := magic)) (magic + 1)" using mn_inv_assign[OF 2(4)] True by blast
    from 2(1)[OF refl True p this] 2(5)
    have "mn_inv M mn' magic' \<and> \<not> nc'" by (metis list.set_intros(2))
    then show ?thesis by simp
  next
    case False
    have p: "number_pass m mn magic nc (aa \<and> mn k > 0) = (mn', magic', nc', aa')"
      using False 2(3) by (auto simp: Let_def)
    have sub: "\<And>k' s' b. (k', s') \<in> set m \<Longrightarrow> (b, k') \<in> pm_edges M \<Longrightarrow> b \<in> set s'" using 2(5) by auto
    show ?thesis using 2(2)[OF refl False p 2(4) sub] False by (auto simp: pm_keys_def)
  qed
qed

lemma number_loop_inv:
  assumes "number_loop m mn magic = (mn', magic', aa)" "mn_inv m mn magic"
    and "\<And>k s b. (k, s) \<in> set m \<Longrightarrow> (b, k) \<in> pm_edges m \<Longrightarrow> b \<in> set s"
  shows "mn_inv m mn' magic' \<and> (aa \<longleftrightarrow> (\<forall>k\<in>pm_keys m. mn' k > 0)) \<and>
    (\<forall>(k, s)\<in>set m. mn' k = 0 \<longrightarrow> \<not> all_magicnumber_assigned mn' s)"
  using assms
proof (induction m mn magic rule: number_loop.induct)
  case (1 m mn magic)
  obtain mn1 magic1 nc aa1 where p: "number_pass m mn magic True True = (mn1, magic1, nc, aa1)"
    by (cases "number_pass m mn magic True True")
  note inv = number_pass_inv[OF p 1(3) 1(4)]
  have pos: "\<not> magic \<le> 0" using 1(3) by (simp add: mn_inv_def)
  show ?case
  proof (cases nc)
    case True
    then have eq: "mn' = mn1" "magic' = magic1" "aa = aa1"
      using 1(2) p by (simp_all add: number_loop.simps[of m mn magic])
    then show ?thesis using inv True 1(3) by auto
  next
    case False
    then have "number_loop m mn1 magic1 = (mn', magic', aa)"
      using 1(2) p pos by (simp add: number_loop.simps[of m mn magic])
    then show ?thesis using 1(1)[OF p[symmetric]] inv 1(4) False pos by simp
  qed
qed

lemma pm_touch_sorted: "sorted_wrt (<) (map fst m) \<Longrightarrow> sorted_wrt (<) (map fst (pm_touch k m))"
proof (induction k m rule: pm_touch.induct)
  case (2 k k' s m)
  have "fst ` set (pm_touch k m) = insert k (fst ` set m)"
    using pm_touch_props(2)[of k m] by (simp add: pm_keys_def)
  then show ?case using 2 by auto
qed simp

lemma pm_insert_fst: "map fst (pm_insert k v m) = map fst m"
  by (induction k v m rule: pm_insert.induct) auto

lemma build_pred_map_sorted:
  "sorted_wrt (<) (map fst m) \<Longrightarrow> sorted_wrt (<) (map fst (build_pred_map is m))"
  by (induction "is" m rule: build_pred_map.induct) (auto simp: pm_touch_sorted pm_insert_fst)

lemma pm_entry:
  assumes "sorted_wrt (<) (map fst m)" "(k, s) \<in> set m" "(b, k) \<in> pm_edges m"
  shows "b \<in> set s"
proof -
  obtain s' where s': "(k, s') \<in> set m" "b \<in> set s'" using assms(3) by (auto simp: pm_edges_def)
  have "distinct (map fst m)" using assms(1) strict_sorted_iff by blast
  then have "s' = s" using assms(2) s'(1) by (simp add: eq_key_imp_eq_value)
  then show ?thesis using s'(2) by simp
qed

text \<open>What is left unnumbered when the loop stops contains a cycle.\<close>

lemma stuck_cyclic:
  assumes "finite A" "A \<noteq> {}" "\<forall>a\<in>A. \<exists>b\<in>A. (b, a) \<in> r"
  shows "\<not> acyclic r"
proof
  assume "acyclic r"
  then have "acyclic (r \<inter> A \<times> A)" by (rule acyclic_subset) blast
  moreover have "finite (r \<inter> A \<times> A)" using assms(1) by simp
  ultimately have "wf (r \<inter> A \<times> A)" by (simp add: finite_acyclic_wf)
  then obtain z where "z \<in> A" "\<forall>y. (y, z) \<in> r \<inter> A \<times> A \<longrightarrow> y \<notin> A"
    using assms(2) by (metis wfE_min ex_in_conv)
  then show False using assms(3) by blast
qed

lemma increasing_acyclic:
  assumes "\<forall>(b, a)\<in>r. mn b < (mn a :: int)"
  shows "acyclic r"
proof -
  have "mn b < mn a" if "(b, a) \<in> r\<^sup>+" for a b
    using that
  proof (induction rule: trancl_induct)
    case (base y)
    then show ?case using assms by auto
  next
    case (step y z)
    then have "mn y < mn z" using assms by auto
    then show ?case using step.IH by simp
  qed
  then show ?thesis by (auto simp: acyclic_def)
qed

lemma number_points_inv:
  assumes "mn_inv M mn magic" "\<forall>k\<in>pm_keys M. mn k > 0" "None \<notin> getMN ` set ps"
  shows "\<exists>mn'. number_points getMN ps mn magic = Inr mn' \<and> (\<exists>magic'. mn_inv M mn' magic') \<and>
    (\<forall>k. mn k > 0 \<longrightarrow> mn' k = mn k) \<and> (\<forall>p. Some p \<in> getMN ` set ps \<longrightarrow> mn' p > 0)"
  using assms
proof (induction ps arbitrary: mn magic)
  case (Cons pt ps)
  obtain p where p: "getMN pt = Some p" using Cons.prems(3) by (cases "getMN pt") auto
  have keys: "pm_keys M \<supseteq> snd ` pm_edges M" by (force simp: pm_keys_def pm_edges_def)
  have np: "None \<notin> getMN ` set ps" using Cons.prems(3) by simp
  show ?case
  proof (cases "mn p = 0")
    case True
    have "\<not> (b, p) \<in> pm_edges M" for b using keys Cons.prems(2) True by force
    then have "mn_inv M (mn(p := magic)) (magic + 1)" using mn_inv_assign[OF Cons.prems(1) True] by blast
    moreover have "\<forall>k\<in>pm_keys M. (mn(p := magic)) k > 0" using Cons.prems(1,2) by (auto simp: mn_inv_def)
    ultimately obtain mn' where "number_points getMN ps (mn(p := magic)) (magic + 1) = Inr mn'"
      "\<exists>magic'. mn_inv M mn' magic'" "\<forall>k. (mn(p := magic)) k > 0 \<longrightarrow> mn' k = (mn(p := magic)) k"
      "\<forall>q. Some q \<in> getMN ` set ps \<longrightarrow> mn' q > 0"
      using Cons.IH np by blast
    moreover have "magic > 0" using Cons.prems(1) by (simp add: mn_inv_def)
    ultimately show ?thesis using True p by (intro exI[of _ mn']) (auto split: if_splits)
  next
    case False
    then have "mn p > 0" using Cons.prems(1) by (auto simp: mn_inv_def dest: spec[of _ p])
    then show ?thesis using Cons.IH[OF Cons.prems(1,2) np] False p by auto
  qed
qed auto

lemma numberAll_spec:
  assumes "known_inequalities (ms_inequalities s) = Inr es" and "None \<notin> getMN ` set (ms_points s)"
  shows "if acyclic (set es)
    then \<exists>mn. numberAll getMN s (\<lambda>_. 0) = Inr mn \<and> (\<forall>(b, a)\<in>set es. 0 < mn b \<and> mn b < mn a) \<and>
      (\<forall>p. Some p \<in> getMN ` set (ms_points s) \<longrightarrow> mn p > 0) \<and> (\<forall>j k. mn j = mn k \<and> mn j > 0 \<longrightarrow> j = k)
    else numberAll getMN s (\<lambda>_. 0) = Inl AssertFailed"
proof -
  define M where "M = build_pred_map es []"
  have edges: "pm_edges M = set es" and keys: "pm_keys M = fst ` set es \<union> snd ` set es"
    using build_pred_map_props[of es "[]"] by (simp_all add: M_def pm_edges_def pm_keys_def)
  have sorted: "sorted_wrt (<) (map fst M)" unfolding M_def by (rule build_pred_map_sorted) simp
  obtain mn magic aa where l: "number_loop M (\<lambda>_. 0) 1 = (mn, magic, aa)" by (cases "number_loop M (\<lambda>_. 0) 1")
  have "mn_inv M (\<lambda>_. 0) 1" by (simp add: mn_inv_def)
  then have loop: "mn_inv M mn magic \<and> (aa \<longleftrightarrow> (\<forall>k\<in>pm_keys M. mn k > 0)) \<and>
      (\<forall>(k, s)\<in>set M. mn k = 0 \<longrightarrow> \<not> all_magicnumber_assigned mn s)"
    by (rule number_loop_inv[OF l]) (rule pm_entry[OF sorted])
  have inv: "mn_inv M mn magic" and aa: "aa \<longleftrightarrow> (\<forall>k\<in>pm_keys M. mn k > 0)"
    and stuck: "\<And>k s. (k, s) \<in> set M \<Longrightarrow> mn k = 0 \<Longrightarrow> \<not> all_magicnumber_assigned mn s"
    using loop by blast+
  have nonneg: "mn k = 0 \<or> mn k > 0" for k using inv by (auto simp: mn_inv_def order_le_less)
  have aa_iff: "aa \<longleftrightarrow> acyclic (set es)"
  proof
    assume aa
    then have pos: "\<forall>k\<in>pm_keys M. mn k > 0" using aa by simp
    have "mn b < mn a" if "(b, a) \<in> set es" for b a
    proof -
      have "a \<in> pm_keys M" unfolding keys using that by force
      then have "mn a > 0" using pos by blast
      then show ?thesis using inv that unfolding mn_inv_def edges by blast
    qed
    then have "\<forall>(b, a)\<in>set es. mn b < mn a" by blast
    then show "acyclic (set es)" by (rule increasing_acyclic)
  next
    assume ac: "acyclic (set es)"
    show aa
    proof (rule ccontr)
      assume "\<not> aa"
      let ?A = "{k \<in> pm_keys M. mn k = 0}"
      have "?A \<noteq> {}" using \<open>\<not> aa\<close> aa nonneg by fastforce
      moreover have "finite ?A" by (simp add: pm_keys_def)
      moreover have "\<exists>b\<in>?A. (b, a) \<in> set es" if "a \<in> ?A" for a
      proof -
        have "a \<in> fst ` set M" "mn a = 0" using that by (simp_all add: pm_keys_def)
        then obtain preds where s: "(a, preds) \<in> set M" by (metis imageE prod.collapse)
        then have "\<not> all_magicnumber_assigned mn preds" using stuck \<open>mn a = 0\<close> by blast
        then obtain b where b: "b \<in> set preds" "\<not> mn b > 0"
          by (auto simp: all_magicnumber_assigned_def list_all_iff)
        then have "(b, a) \<in> set es" using s edges by (auto simp: pm_edges_def)
        then show ?thesis using b nonneg[of b] keys by force
      qed
      ultimately show False using stuck_cyclic[of ?A "set es"] ac by blast
    qed
  qed
  have na: "numberAll getMN s (\<lambda>_. 0) = assertE aa (number_points getMN (ms_points s) mn magic)"
    using assms(1) l by (simp add: numberAll_def M_def)
  show ?thesis
  proof (cases "acyclic (set es)")
    case False
    then show ?thesis using na aa_iff by simp
  next
    case True
    then have all: "\<forall>k\<in>pm_keys M. mn k > 0" using aa aa_iff by simp
    from number_points_inv[OF inv all assms(2)] obtain mn' magic' where
      n: "number_points getMN (ms_points s) mn magic = Inr mn'" and i: "mn_inv M mn' magic'"
      and keep: "\<forall>k. mn k > 0 \<longrightarrow> mn' k = mn k" and pts: "\<forall>p. Some p \<in> getMN ` set (ms_points s) \<longrightarrow> mn' p > 0" by blast
    have "0 < mn' b \<and> mn' b < mn' a" if "(b, a) \<in> set es" for a b
    proof -
      have "a \<in> pm_keys M" using keys that by force
      then have "mn' a > 0" using all keep by force
      then show ?thesis using i edges that by (auto simp: mn_inv_def)
    qed
    moreover have "\<forall>j k. mn' j = mn' k \<and> mn' j > 0 \<longrightarrow> j = k" using i by (simp add: mn_inv_def)
    ultimately show ?thesis using True na aa_iff n pts by auto
  qed
qed

text \<open>C13: Numbering the guards succeeds exactly when the declared precedences have no cycle (a cycle ends in
  the failed assertion); then every guard named in a precedence or registered as a point has a
  positive number, no two share one, and each precedence is respected by the numbers.\<close>

theorem numberAll_correct:
  assumes "known_inequalities (ms_inequalities s) = Inr es" and "None \<notin> getMN ` set (ms_points s)"
  shows "if acyclic (set es)
    then \<exists>mn. numberAll getMN s (\<lambda>_. 0) = Inr mn \<and> (\<forall>(b, a)\<in>set es. 0 < mn b \<and> mn b < mn a) \<and>
      (\<forall>p. Some p \<in> getMN ` set (ms_points s) \<longrightarrow> mn p > 0) \<and> (\<forall>j k. mn j = mn k \<and> mn j > 0 \<longrightarrow> j = k)
    else numberAll getMN s (\<lambda>_. 0) = Inl AssertFailed"
  by (rule numberAll_spec[OF assms])

lemma numberAll_correct_witness:
  "\<exists>mn. numberAll Some \<lparr> ms_inequalities = [(Some 2, Some 1), (Some 3, Some 2)], ms_points = [1, 4] \<rparr> (\<lambda>_. 0) = Inr mn \<and>
     mn 3 < mn 2 \<and> mn 2 < mn 1 \<and> 0 < mn 4"
proof -
  let ?s = "\<lparr> ms_inequalities = [(Some 2, Some 1), (Some 3, Some 2)], ms_points = [1, 4] \<rparr> :: nat magic_sorter"
  have k: "known_inequalities (ms_inequalities ?s) = Inr [(2, 1), (3, 2)]" by simp
  have "acyclic (set [(2::nat, 1::nat), (3, 2)])"
    by (rule increasing_acyclic[where mn = "\<lambda>k. - int k"]) auto
  then show ?thesis using numberAll_correct[OF k, of Some] by (auto split: if_splits)
qed

end
