(* ===== verification/StdMap.thy ===== *)
theory StdMap
  imports Prelude "HOL-Library.List_Lexorder" "HOL-Library.Char_ord"
begin

text \<open>
  \<open>std::map\<close> with an ordered key (in the flow data structures a \<open>std::string\<close>, compared
  lexicographically by character code) as the list of its bindings in key order, which is the order
  its iterators walk.  \<open>insert\<close> leaves an existing binding alone, \<open>operator[]\<close> overwrites it.
\<close>

fun map_find :: "'k::linorder \<Rightarrow> ('k \<times> 'v) list \<Rightarrow> 'v option" where
  "map_find k [] = None"
| "map_find k ((k', v) # m) = (if k = k' then Some v else map_find k m)"

fun map_insert :: "'k::linorder \<Rightarrow> 'v \<Rightarrow> ('k \<times> 'v) list \<Rightarrow> ('k \<times> 'v) list" where
  "map_insert k v [] = [(k, v)]"
| "map_insert k v ((k', v') # m) =
     (if k = k' then (k', v') # m else if k < k' then (k, v) # (k', v') # m else (k', v') # map_insert k v m)"

fun map_set :: "'k::linorder \<Rightarrow> 'v \<Rightarrow> ('k \<times> 'v) list \<Rightarrow> ('k \<times> 'v) list" where
  "map_set k v [] = [(k, v)]"
| "map_set k v ((k', v') # m) =
     (if k = k' then (k', v) # m else if k < k' then (k, v) # (k', v') # m else (k', v') # map_set k v m)"

fun map_erase :: "'k::linorder \<Rightarrow> ('k \<times> 'v) list \<Rightarrow> ('k \<times> 'v) list" where
  "map_erase k [] = []"
| "map_erase k ((k', v') # m) = (if k = k' then m else (k', v') # map_erase k m)"

definition map_ok :: "('k::linorder \<times> 'v) list \<Rightarrow> bool" where
  "map_ok m \<longleftrightarrow> sorted_wrt (<) (map fst m)"

named_theorems stdmap_simps "laws of the ordered map"

lemma map_ok_Nil [stdmap_simps, simp]: "map_ok []"
  by (simp add: map_ok_def)

lemma map_ok_Cons [stdmap_simps]: "map_ok ((k, v) # m) \<longleftrightarrow> (\<forall>x\<in>fst ` set m. k < x) \<and> map_ok m"
  by (simp add: map_ok_def)

lemma map_find_map_of: "map_find k m = map_of m k"
  by (induction k m rule: map_find.induct) auto

lemma map_find_set [stdmap_simps]:
  "map_ok m \<Longrightarrow> map_find k (map_set k' v m) = (if k = k' then Some v else map_find k m)"
  by (induction k' v m rule: map_set.induct) (auto simp: map_ok_Cons)

lemma map_find_None_iff: "map_find k m = None \<longleftrightarrow> k \<notin> fst ` set m"
  by (simp add: map_find_map_of map_of_eq_None_iff)

lemma map_find_insert_sorted [stdmap_simps]:
  "map_ok m \<Longrightarrow> map_find k (map_insert k' v m) =
     (if k = k' then (case map_find k' m of None \<Rightarrow> Some v | Some u \<Rightarrow> Some u) else map_find k m)"
proof (induction k' v m rule: map_insert.induct)
  case (2 k' v k'' v' m)
  then have "k' < k'' \<Longrightarrow> k' \<notin> fst ` set m" by (force simp: map_ok_Cons)
  then show ?case using 2 by (auto simp: map_ok_Cons map_find_None_iff[symmetric])
qed simp

lemma map_find_erase [stdmap_simps]:
  "map_ok m \<Longrightarrow> map_find k (map_erase k' m) = (if k = k' then None else map_find k m)"
proof (induction k' m rule: map_erase.induct)
  case (2 k' k'' v m)
  then have "k'' \<notin> fst ` set m" by (force simp: map_ok_Cons)
  then show ?case using 2 by (auto simp: map_ok_Cons map_find_None_iff[symmetric])
qed simp

lemma map_insert_keys: "fst ` set (map_insert k v m) = insert k (fst ` set m)"
  by (induction k v m rule: map_insert.induct) auto

lemma map_set_keys: "fst ` set (map_set k v m) = insert k (fst ` set m)"
  by (induction k v m rule: map_set.induct) auto

lemma map_insert_set: "set (map_insert k v m) = (if k \<in> fst ` set m then set m else insert (k, v) (set m))"
  if "map_ok m"
  using that by (induction k v m rule: map_insert.induct) (force simp: map_ok_Cons)+

lemma map_insert_subset: "set (map_insert k v m) \<subseteq> insert (k, v) (set m)"
  by (induction k v m rule: map_insert.induct) auto

lemma map_erase_subset: "set (map_erase k m) \<subseteq> set m"
  by (induction k m rule: map_erase.induct) auto

lemma map_ok_insert [stdmap_simps]: "map_ok m \<Longrightarrow> map_ok (map_insert k v m)"
proof (induction k v m rule: map_insert.induct)
  case (2 k v k' v' m)
  have "fst ` set (map_insert k v m) = insert k (fst ` set m)" by (rule map_insert_keys)
  then show ?case using 2 by (auto simp: map_ok_Cons simp del: image_iff)
qed (simp add: map_ok_Cons)

lemma map_ok_set [stdmap_simps]: "map_ok m \<Longrightarrow> map_ok (map_set k v m)"
proof (induction k v m rule: map_set.induct)
  case (2 k v k' v' m)
  have "fst ` set (map_set k v m) = insert k (fst ` set m)" by (rule map_set_keys)
  then show ?case using 2 by (auto simp: map_ok_Cons simp del: image_iff)
qed (simp add: map_ok_Cons)

lemma map_ok_erase [stdmap_simps]: "map_ok m \<Longrightarrow> map_ok (map_erase k m)"
proof (induction k m rule: map_erase.induct)
  case (2 k k' v' m)
  then show ?case using map_erase_subset[of k m] by (fastforce simp: map_ok_Cons)
qed simp

lemma map_find_set_mem: "map_ok m \<Longrightarrow> (k, v) \<in> set m \<longleftrightarrow> map_find k m = Some v"
proof -
  assume "map_ok m"
  then have "distinct (map fst m)" by (simp add: map_ok_def strict_sorted_iff)
  then show ?thesis by (simp add: map_find_map_of)
qed

lemma map_ok_distinct: "map_ok m \<Longrightarrow> distinct (map fst m)"
  by (simp add: map_ok_def strict_sorted_iff)

section \<open>The map as an interface\<close>

text \<open>What the clients rely on: bindings found after an insertion, an assignment and a removal.\<close>

locale std_map =
  fixes find :: "'k \<Rightarrow> 'm \<Rightarrow> 'v option"
    and insert0 :: "'k \<Rightarrow> 'v \<Rightarrow> 'm \<Rightarrow> 'm"
    and assign :: "'k \<Rightarrow> 'v \<Rightarrow> 'm \<Rightarrow> 'm"
    and erase :: "'k \<Rightarrow> 'm \<Rightarrow> 'm"
    and ok :: "'m \<Rightarrow> bool"
  assumes find_insert: "ok m \<Longrightarrow> find k (insert0 k' v m) =
      (if k = k' then (case find k' m of None \<Rightarrow> Some v | Some u \<Rightarrow> Some u) else find k m)"
    and find_assign: "ok m \<Longrightarrow> find k (assign k' v m) = (if k = k' then Some v else find k m)"
    and find_erase: "ok m \<Longrightarrow> find k (erase k' m) = (if k = k' then None else find k m)"
    and ok_insert: "ok m \<Longrightarrow> ok (insert0 k v m)"
    and ok_assign: "ok m \<Longrightarrow> ok (assign k v m)"
    and ok_erase: "ok m \<Longrightarrow> ok (erase k m)"
begin

lemma insert_first_wins: "ok m \<Longrightarrow> find k (insert0 k w (insert0 k v m)) = find k (insert0 k v m)"
  by (simp add: find_insert ok_insert split: option.split)

lemma assign_last_wins: "ok m \<Longrightarrow> find k (assign k w (assign k v m)) = Some w"
  by (simp add: find_assign ok_assign)

lemma erase_insert: "ok m \<Longrightarrow> find k (insert0 k v (erase k m)) = Some v"
  by (simp add: find_insert find_erase ok_erase)

text \<open>Registering a list of bindings: the first of each key is kept by insertion, the last by assignment.\<close>

lemma insert_all:
  "ok m \<Longrightarrow> ok (fold (\<lambda>(k, v). insert0 k v) kvs m) \<and>
     find k (fold (\<lambda>(k, v). insert0 k v) kvs m) =
       (case find k m of Some u \<Rightarrow> Some u | None \<Rightarrow> map_of kvs k)"
proof (induction kvs arbitrary: m)
  case (Cons kv kvs)
  obtain k' v' where kv: "kv = (k', v')" by (cases kv)
  show ?case using Cons.IH[OF ok_insert[OF Cons.prems, of k' v']] Cons.prems
    by (auto simp: kv find_insert split: option.splits)
qed (simp split: option.split)

lemma assign_all:
  "ok m \<Longrightarrow> ok (fold (\<lambda>(k, v). assign k v) kvs m) \<and>
     find k (fold (\<lambda>(k, v). assign k v) kvs m) =
       (case map_of (rev kvs) k of Some u \<Rightarrow> Some u | None \<Rightarrow> find k m)"
proof (induction kvs arbitrary: m)
  case (Cons kv kvs)
  obtain k' v' where kv: "kv = (k', v')" by (cases kv)
  show ?case using Cons.IH[OF ok_assign[OF Cons.prems, of k' v']] Cons.prems
    by (auto simp: kv find_assign map_add_def split: option.splits)
qed simp

end

interpretation smap: std_map map_find map_insert map_set map_erase map_ok
  by unfold_locales (simp_all add: map_find_insert_sorted map_find_set map_find_erase map_ok_insert map_ok_set map_ok_erase)

end
