(* ===== verification/FlowGraph.thy ===== *)
theory FlowGraph
  imports Holder Orderable StdMap
begin

text \<open>
  runtime/flow/OFluxFlowCase, OFluxFlowNode and OFluxFlow: the flow graph of a program.  A node has
  concurrent successors (by name); each is an ordered list of cases, of which the first whose
  conditions all hold is taken; a case names its target node.  Nodes, guards and libraries are
  identifiers; condition functions, converters and factories are numbers, their meaning an argument
  of the operations that call them.
\<close>

section \<open>Cases and successors\<close>

record fcond =
  fcd_fn :: nat
  fcd_negated :: bool

definition cond_satisfied :: "(nat \<Rightarrow> 'o \<Rightarrow> bool) \<Rightarrow> 'o \<Rightarrow> fcond \<Rightarrow> bool" where
  "cond_satisfied condfn a c = (if condfn (fcd_fn c) a then \<not> fcd_negated c else fcd_negated c)"

text \<open>An IOConverter: the static standard one, or one built on a conversion function, or on none.\<close>

datatype ioconverter = StandardConverter | IOConverter "nat option"

definition io_convert :: "(nat \<Rightarrow> 'o \<Rightarrow> 'i) \<Rightarrow> ('o \<Rightarrow> 'i) \<Rightarrow> ioconverter \<Rightarrow> 'o \<Rightarrow> 'i option" where
  "io_convert convfn trivial c out = (case c of
      StandardConverter \<Rightarrow> Some (trivial out)
    | IOConverter (Some f) \<Rightarrow> Some (convfn f out)
    | IOConverter None \<Rightarrow> None)"

text \<open>\<open>fc_ptr\<close> is the address of the case.\<close>

record fcase =
  fc_ptr :: nat
  fc_targetname :: string
  fc_target :: "nat option"
  fc_converter :: ioconverter
  fc_conds :: "fcond list"

definition case_new :: "nat \<Rightarrow> string \<Rightarrow> nat option \<Rightarrow> ioconverter option \<Rightarrow> fcase" where
  "case_new p name target conv = \<lparr> fc_ptr = p, fc_targetname = name, fc_target = target,
     fc_converter = (case conv of None \<Rightarrow> StandardConverter | Some c \<Rightarrow> c), fc_conds = [] \<rparr>"

definition case_add :: "fcond \<Rightarrow> fcase \<Rightarrow> fcase" where
  "case_add cd c = c\<lparr> fc_conds := fc_conds c @ [cd] \<rparr>"

definition case_satisfied :: "(nat \<Rightarrow> 'o \<Rightarrow> bool) \<Rightarrow> 'o \<Rightarrow> fcase \<Rightarrow> bool" where
  "case_satisfied condfn a c = list_all (cond_satisfied condfn a) (fc_conds c)"

definition case_isDefault :: "fcase \<Rightarrow> bool" where
  "case_isDefault c \<longleftrightarrow> length (fc_conds c) = 0"

record successor =
  su_ptr :: nat
  su_name :: string
  su_cases :: "fcase list"

definition successor_new :: "nat \<Rightarrow> string \<Rightarrow> successor" where
  "successor_new p name = \<lparr> su_ptr = p, su_name = name, su_cases = [] \<rparr>"

definition successor_add :: "fcase \<Rightarrow> bool \<Rightarrow> successor \<Rightarrow> successor" where
  "successor_add fc front s = s\<lparr> su_cases := (if front then fc # su_cases s else su_cases s @ [fc]) \<rparr>"

fun erase_case :: "nat \<Rightarrow> fcase list \<Rightarrow> fcase list option" where
  "erase_case p [] = None"
| "erase_case p (c # cs) = (if fc_ptr c = p then Some cs else map_option (\<lambda>r. c # r) (erase_case p cs))"

definition successor_remove :: "nat \<Rightarrow> successor \<Rightarrow> successor result" where
  "successor_remove p s = (case erase_case p (su_cases s) of
      None \<Rightarrow> Inl AssertFailed | Some cs \<Rightarrow> Inr (s\<lparr> su_cases := cs \<rparr>))"

definition getByTargetName :: "string \<Rightarrow> successor \<Rightarrow> fcase option" where
  "getByTargetName n s = find (\<lambda>c. n = fc_targetname c) (su_cases s)"

definition getByTargetNode :: "nat option \<Rightarrow> successor \<Rightarrow> fcase option" where
  "getByTargetNode n s = find (\<lambda>c. n = fc_target c) (su_cases s)"

fun first_satisfied :: "(nat \<Rightarrow> 'o \<Rightarrow> bool) \<Rightarrow> 'o \<Rightarrow> fcase list \<Rightarrow> fcase option" where
  "first_satisfied condfn a [] = None"
| "first_satisfied condfn a (c # cs) =
     (if case_satisfied condfn a c then Some c else first_satisfied condfn a cs)"

definition successor_get :: "(nat \<Rightarrow> 'o \<Rightarrow> bool) \<Rightarrow> 'o \<Rightarrow> successor \<Rightarrow> fcase option" where
  "successor_get condfn a s = first_satisfied condfn a (su_cases s)"

type_synonym succlist = "(string \<times> successor) list"

definition succlist_add :: "successor \<Rightarrow> succlist \<Rightarrow> succlist" where
  "succlist_add fs sl = map_insert (su_name fs) fs sl"

definition succlist_remove :: "successor \<Rightarrow> succlist \<Rightarrow> succlist result" where
  "succlist_remove fs sl = (case map_find (su_name fs) sl of
      None \<Rightarrow> Inl NullDeref
    | Some s \<Rightarrow> assertE (su_ptr s = su_ptr fs) (Inr (map_erase (su_name fs) sl)))"

definition succlist_get :: "string \<Rightarrow> succlist \<Rightarrow> successor option" where
  "succlist_get name sl = map_find name sl"

fun succlist_get_successors :: "(nat \<Rightarrow> 'o \<Rightarrow> bool) \<Rightarrow> 'o \<Rightarrow> succlist \<Rightarrow> fcase list" where
  "succlist_get_successors condfn a [] = []"
| "succlist_get_successors condfn a ((_, s) # sl) =
     (case successor_get condfn a s of
        Some c \<Rightarrow> c # succlist_get_successors condfn a sl
      | None \<Rightarrow> succlist_get_successors condfn a sl)"

fun has_successor_with_target :: "nat option \<Rightarrow> succlist \<Rightarrow> bool" where
  "has_successor_with_target n [] = False"
| "has_successor_with_target n ((_, s) # sl) =
     (if getByTargetNode n s \<noteq> None then True else has_successor_with_target n sl)"

section \<open>Nodes\<close>

record fnode =
  fn_instances :: int
  fn_executions :: int
  fn_id :: int
  fn_name :: string
  fn_function_name :: string
  fn_createfn :: nat
  fn_createdoorfn :: nat
  fn_is_error_handler :: bool
  fn_is_source :: bool
  fn_is_door :: bool
  fn_is_initial :: int
  fn_is_detached :: bool
  fn_succ :: "succlist option"
  fn_error_handler_case :: fcase
  fn_this_case :: fcase
  fn_guards :: "gref list"
  fn_input_unionhash :: string
  fn_output_unionhash :: string
  fn_csorted :: bool

text \<open>The world of the flow: guards, atomics and holders, the nodes, the names of the guards and the
  counter the node ids are drawn from.\<close>

record 'k fworld = "'k world" +
  fw_nodes :: "nat \<Rightarrow> fnode"
  fw_gname :: "nat \<Rightarrow> string"
  fw_last_id :: int

definition set_node :: "nat \<Rightarrow> fnode \<Rightarrow> ('k, 'z) fworld_scheme \<Rightarrow> ('k, 'z) fworld_scheme" where
  "set_node n nd w = w\<lparr> fw_nodes := (fw_nodes w)(n := nd) \<rparr>"

text \<open>The constructor, of the node at address \<open>n\<close>; \<open>p1\<close> and \<open>p2\<close> are the addresses of its two cases.\<close>

definition node_new :: "nat \<Rightarrow> nat \<Rightarrow> nat \<Rightarrow> string \<Rightarrow> string \<Rightarrow> nat \<Rightarrow> nat \<Rightarrow> bool \<Rightarrow> bool \<Rightarrow> bool \<Rightarrow> bool \<Rightarrow>
    string \<Rightarrow> string \<Rightarrow> ('k, 'z) fworld_scheme \<Rightarrow> ('k, 'z) fworld_scheme" where
  "node_new n p1 p2 name fname createfn createdoorfn is_eh is_source is_door is_detached inhash outhash w =
     set_node n \<lparr> fn_instances = 0, fn_executions = 0, fn_id = fw_last_id w, fn_name = name,
       fn_function_name = fname, fn_createfn = createfn, fn_createdoorfn = createdoorfn,
       fn_is_error_handler = is_eh, fn_is_source = is_source, fn_is_door = is_door, fn_is_initial = -1,
       fn_is_detached = is_detached, fn_succ = None, fn_error_handler_case = case_new p1 [] None None,
       fn_this_case = case_new p2 name (Some n) None, fn_guards = [], fn_input_unionhash = inhash,
       fn_output_unionhash = outhash, fn_csorted = False \<rparr> (w\<lparr> fw_last_id := fw_last_id w + 1 \<rparr>)"

definition node_magic :: "('k, 'z) gworld_scheme \<Rightarrow> gref \<Rightarrow> int" where
  "node_magic w r = gref_magic r w"

fun strictly_ascending :: "int \<Rightarrow> int list \<Rightarrow> bool" where
  "strictly_ascending prev [] = True"
| "strictly_ascending prev (mn # ms) = (if prev \<ge> mn then False else strictly_ascending mn ms)"

definition node_sortGuards :: "('k, 'z) gworld_scheme \<Rightarrow> fnode \<Rightarrow> fnode" where
  "node_sortGuards w nd =
     (let gs = sort_key (node_magic w) (fn_guards nd)
      in nd\<lparr> fn_guards := gs, fn_csorted := strictly_ascending (-1) (map (node_magic w) gs) \<rparr>)"

definition node_setErrorHandler :: "nat option \<Rightarrow> fnode \<Rightarrow> fnode" where
  "node_setErrorHandler t nd = nd\<lparr> fn_error_handler_case := (fn_error_handler_case nd)\<lparr> fc_target := t \<rparr> \<rparr>"

definition node_turn_off_source :: "fnode \<Rightarrow> fnode" where
  "node_turn_off_source nd = nd\<lparr> fn_is_source := False \<rparr>"

text \<open>Whether the node is initial (a source that is not its own successor), computed once.\<close>

definition node_getIsInitial :: "nat \<Rightarrow> fnode \<Rightarrow> (bool \<times> fnode) result" where
  "node_getIsInitial self nd =
     bindE (if fn_is_initial nd \<ge> 0 then Inr nd
            else if \<not> fn_is_source nd then Inr (nd\<lparr> fn_is_initial := 0 \<rparr>)
            else (case fn_succ nd of
                None \<Rightarrow> Inl NullDeref
              | Some sl \<Rightarrow> Inr (nd\<lparr> fn_is_initial := of_bool (\<not> has_successor_with_target (Some self) sl) \<rparr>)))
       (\<lambda>nd'. Inr (fn_is_initial nd' \<noteq> 0, nd'))"

definition node_get_successors :: "(nat \<Rightarrow> 'o \<Rightarrow> bool) \<Rightarrow> nat \<Rightarrow> 'o \<Rightarrow> int \<Rightarrow> fnode \<Rightarrow> (fcase list \<times> fnode) result" where
  "node_get_successors condfn self a return_code nd =
     (if return_code \<noteq> 0 then
        (let eh = (if fc_target (fn_error_handler_case nd) \<noteq> None then [fn_error_handler_case nd] else [])
         in if fn_is_source nd
            then bindE (node_getIsInitial self nd) (\<lambda>(initial, nd').
                   Inr (if \<not> initial then eh @ [fn_this_case nd'] else eh, nd'))
            else Inr (eh, nd))
      else (case fn_succ nd of
          None \<Rightarrow> Inl NullDeref
        | Some sl \<Rightarrow> Inr (succlist_get_successors condfn a sl, nd)))"

definition node_add :: "gref \<Rightarrow> fnode \<Rightarrow> fnode" where
  "node_add r nd = nd\<lparr> fn_guards := fn_guards nd @ [r\<lparr> gr_lexical := int (length (fn_guards nd)) \<rparr>] \<rparr>"

definition node_incr_instances :: "nat \<Rightarrow> ('k, 'z) fworld_scheme \<Rightarrow> ('k, 'z) fworld_scheme" where
  "node_incr_instances n w = set_node n ((fw_nodes w n)\<lparr> fn_instances := fn_instances (fw_nodes w n) + 1 \<rparr>) w"

definition node_log_snapshot :: "fnode \<Rightarrow> string \<times> string \<times> int \<times> int" where
  "node_log_snapshot nd = (fn_name nd,
     [if fn_is_source nd then CHR ''s'' else CHR ''-'', if fn_is_detached nd then CHR ''d'' else CHR ''-'',
      if fn_is_error_handler nd then CHR ''e'' else CHR ''-''], fn_instances nd, fn_executions nd)"

section \<open>Facts on nodes\<close>

lemma first_satisfied_find: "first_satisfied condfn a cs = find (case_satisfied condfn a) cs"
  by (induction cs) auto

lemma succlist_get_successors_eq:
  "succlist_get_successors condfn a sl = List.map_filter (\<lambda>(_, s). find (case_satisfied condfn a) (su_cases s)) sl"
  by (induction condfn a sl rule: succlist_get_successors.induct)
    (auto simp: List.map_filter_def successor_get_def first_satisfied_find split: option.splits)

lemma has_successor_iff: "has_successor_with_target t sl \<longleftrightarrow> (\<exists>(n, s)\<in>set sl. \<exists>c\<in>set (su_cases s). fc_target c = t)"
  by (induction t sl rule: has_successor_with_target.induct) (force simp: getByTargetNode_def find_None_iff)+

lemma strictly_ascending_iff: "strictly_ascending p ms \<longleftrightarrow> sorted_wrt (<) (p # ms)"
  by (induction p ms rule: strictly_ascending.induct) force+

lemma default_case_satisfied: "case_isDefault c \<Longrightarrow> case_satisfied condfn a c"
  by (simp add: case_isDefault_def case_satisfied_def)

text \<open>Sorting a node's guards: a permutation in ascending magic number, and (magic numbers being
  nonnegative) the flag says that no two guard references share a number.\<close>

lemma node_sortGuards_props:
  assumes "\<forall>r\<in>set (fn_guards nd). node_magic w r \<ge> 0"
  shows "mset (fn_guards (node_sortGuards w nd)) = mset (fn_guards nd) \<and>
    sorted (map (node_magic w) (fn_guards (node_sortGuards w nd))) \<and>
    (fn_csorted (node_sortGuards w nd) \<longleftrightarrow> distinct (map (node_magic w) (fn_guards nd)))"
proof -
  let ?gs = "sort_key (node_magic w) (fn_guards nd)"
  have "sorted (map (node_magic w) ?gs)" by simp
  moreover have "distinct (map (node_magic w) ?gs) \<longleftrightarrow> distinct (map (node_magic w) (fn_guards nd))"
    by (simp add: distinct_map inj_on_def)
  moreover have "\<forall>x\<in>set (map (node_magic w) ?gs). - 1 < x" using assms by auto
  ultimately show ?thesis
    by (auto simp: node_sortGuards_def Let_def strictly_ascending_iff strict_sorted_iff)
qed

text \<open>When the flag is set, sorting the held atomics would leave them where they are.\<close>

lemma insert_by_front: "(\<forall>y\<in>set ys. cmp x y < 0) \<Longrightarrow> insert_by cmp x ys = x # ys"
  by (cases ys) auto

lemma qsort_ascending: "sorted_wrt (\<lambda>i j. cmp i j < (0::int)) xs \<Longrightarrow> qsort cmp xs = xs"
  by (induction xs) (auto simp: qsort_def insert_by_front)

lemma completely_sorted_order:
  assumes "map ha_ref hs = fn_guards (node_sortGuards w nd)" and "fn_csorted (node_sortGuards w nd)"
  shows "qsort (\<lambda>i j. ha_compare (hs ! i) (hs ! j) ig w) [0..<length hs] = [0..<length hs]"
proof (rule qsort_ascending)
  let ?ms = "map (node_magic w) (fn_guards (node_sortGuards w nd))"
  have "sorted_wrt (<) ?ms"
    using assms(2) by (simp add: node_sortGuards_def Let_def strictly_ascending_iff)
  moreover have "?ms = map (\<lambda>h. ha_guard_type h w) hs"
    unfolding assms(1)[symmetric] by (simp add: node_magic_def ha_guard_type_def)
  ultimately have srt: "sorted_wrt (\<lambda>a b. ha_guard_type a w < ha_guard_type b w) hs" by (simp add: sorted_wrt_map)
  have "ha_compare (hs ! i) (hs ! j) ig w < 0" if "i < j" "j < length hs" for i j
  proof -
    have "ha_guard_type (hs ! i) w < ha_guard_type (hs ! j) w"
      using srt that by (simp add: sorted_wrt_iff_nth_less)
    then show ?thesis by (simp add: ha_compare_def Let_def)
  qed
  then show "sorted_wrt (\<lambda>i j. ha_compare (hs ! i) (hs ! j) ig w < 0) [0..<length hs]"
    by (auto simp: sorted_wrt_iff_nth_less)
qed

section \<open>Choosing the successors\<close>

text \<open>The cached answer of \<open>node_getIsInitial\<close> is right while the node is a source.\<close>

definition initial_ok :: "nat \<Rightarrow> fnode \<Rightarrow> bool" where
  "initial_ok self nd \<longleftrightarrow> (fn_is_initial nd \<ge> 0 \<and> fn_is_source nd \<longrightarrow>
     (\<exists>sl. fn_succ nd = Some sl \<and> fn_is_initial nd = of_bool (\<not> has_successor_with_target (Some self) sl)))"

lemma node_getIsInitial_spec:
  assumes "initial_ok self nd" "fn_succ nd = Some sl" "fn_is_source nd"
  shows "\<exists>nd'. node_getIsInitial self nd = Inr (\<not> has_successor_with_target (Some self) sl, nd') \<and> initial_ok self nd' \<and>
    nd' = nd\<lparr> fn_is_initial := of_bool (\<not> has_successor_with_target (Some self) sl) \<rparr>"
proof (cases "fn_is_initial nd \<ge> 0")
  case True
  then have "fn_is_initial nd = of_bool (\<not> has_successor_with_target (Some self) sl)"
    using assms by (auto simp: initial_ok_def)
  moreover from this have "nd = nd\<lparr> fn_is_initial := of_bool (\<not> has_successor_with_target (Some self) sl) \<rparr>" by simp
  ultimately show ?thesis using assms True by (intro exI[of _ nd]) (simp add: node_getIsInitial_def)
next
  case False
  then show ?thesis using assms by (simp add: node_getIsInitial_def initial_ok_def)
qed



end
