(* ===== verification/Flow.thy ===== *)
theory Flow
  imports FlowGraph
begin

text \<open>
  runtime/flow/OFluxFlow.h and .cpp: the flow, a named collection of nodes and guards with the
  libraries (plugins) it was built from.  Loading a flow numbers its guards and sorts each node's
  guards by number.  Printing the graph walks it depth first; the walk is given fuel and shown to end.
\<close>

section \<open>The flow\<close>

text \<open>\<open>fl_gaveup\<close> is None when the member was never initialised.\<close>

record flow =
  fl_name :: string
  fl_nodes :: "(string \<times> nat) list"
  fl_sources :: "nat list"
  fl_doors :: "nat list"
  fl_guards :: "(string \<times> nat) list"
  fl_sorter :: "string magic_sorter"
  fl_libraries :: "nat list"
  fl_prev_libraries :: "nat list"
  fl_gaveup :: "bool option"

definition flow_new :: "string \<Rightarrow> flow" where
  "flow_new name = \<lparr> fl_name = name, fl_nodes = [], fl_sources = [], fl_doors = [], fl_guards = [],
     fl_sorter = ms_new, fl_libraries = [], fl_prev_libraries = [], fl_gaveup = Some False \<rparr>"

text \<open>A flow built to replace \<open>existing\<close> borrows its libraries; the result is the new flow and the existing
  one.  The new flow's own flag is not initialised.\<close>

definition flow_new_from :: "flow \<Rightarrow> string \<Rightarrow> flow \<times> flow" where
  "flow_new_from existing name =
     ((flow_new name)\<lparr> fl_prev_libraries := fl_libraries existing, fl_gaveup := None \<rparr>,
      existing\<lparr> fl_gaveup := Some True \<rparr>)"

definition flow_get_node :: "string \<Rightarrow> flow \<Rightarrow> nat option" where
  "flow_get_node name fl = map_find name (fl_nodes fl)"

definition flow_get_guard :: "string \<Rightarrow> flow \<Rightarrow> nat option" where
  "flow_get_guard name fl = map_find name (fl_guards fl)"

definition flow_add_node :: "nat \<Rightarrow> ('k, 'z) fworld_scheme \<Rightarrow> flow \<Rightarrow> flow" where
  "flow_add_node n w fl =
     (let nd = fw_nodes w n;
          fl1 = fl\<lparr> fl_nodes := map_insert (fn_name nd) n (fl_nodes fl) \<rparr>;
          fl2 = (if fn_is_source nd then fl1\<lparr> fl_sources := fl_sources fl1 @ [n] \<rparr> else fl1)
      in if fn_is_door nd then fl2\<lparr> fl_doors := fl_doors fl2 @ [n] \<rparr> else fl2)"

definition flow_add_guard :: "nat \<Rightarrow> ('k, 'z) fworld_scheme \<Rightarrow> flow \<Rightarrow> flow" where
  "flow_add_guard g w fl = fl\<lparr> fl_guards := map_set (fw_gname w g) g (fl_guards fl) \<rparr>"

definition addGuardPrecedence :: "string \<Rightarrow> string \<Rightarrow> flow \<Rightarrow> flow" where
  "addGuardPrecedence before after fl =
     fl\<lparr> fl_sorter := addInequality (\<lambda>s. flow_get_guard s fl) before after (fl_sorter fl) \<rparr>"

definition flow_turn_off_sources :: "flow \<Rightarrow> ('k, 'z) fworld_scheme \<Rightarrow> flow \<times> ('k, 'z) fworld_scheme" where
  "flow_turn_off_sources fl w =
     (fl\<lparr> fl_sources := [] \<rparr>, fold (\<lambda>n w. set_node n (node_turn_off_source (fw_nodes w n)) w) (fl_sources fl) w)"

definition flow_has_instances :: "flow \<Rightarrow> ('k, 'z) fworld_scheme \<Rightarrow> bool" where
  "flow_has_instances fl w \<longleftrightarrow> list_ex (\<lambda>(_, n). fn_instances (fw_nodes w n) > 0) (fl_nodes fl)"

definition set_magic :: "mnums \<Rightarrow> ('k, 'z) gworld_scheme \<Rightarrow> ('k, 'z) gworld_scheme" where
  "set_magic mn w = w\<lparr> gw_guards := \<lambda>g. (gw_guards w g)\<lparr> g_magic := mn g \<rparr> \<rparr>"

definition assignMagicNumbers :: "flow \<Rightarrow> ('k, 'z) fworld_scheme \<Rightarrow> (flow \<times> ('k, 'z) fworld_scheme) result" where
  "assignMagicNumbers fl w =
     (let sorter = fold (\<lambda>(_, g). addPoint (fw_gname w g)) (fl_guards fl) (fl_sorter fl)
      in bindE (numberAll (\<lambda>s. flow_get_guard s fl) sorter (\<lambda>g. g_magic (gw_guards w g))) (\<lambda>mn.
           let w1 = set_magic mn w
           in Inr (fl\<lparr> fl_sorter := sorter \<rparr>,
                   fold (\<lambda>(_, n) w. set_node n (node_sortGuards w (fw_nodes w n)) w) (fl_nodes fl) w1)))"

text \<open>The libraries, by identifier; \<open>lname\<close> is the name of a library.\<close>

definition getPrevLibrary :: "(nat \<Rightarrow> string) \<Rightarrow> string \<Rightarrow> flow \<Rightarrow> nat option" where
  "getPrevLibrary lname name fl = find (\<lambda>l. lname l = name) (fl_prev_libraries fl)"

definition haveLibrary :: "(nat \<Rightarrow> string) \<Rightarrow> string \<Rightarrow> flow \<Rightarrow> bool" where
  "haveLibrary lname name fl \<longleftrightarrow> list_ex (\<lambda>l. lname l = name) (fl_libraries fl)"

definition getLibraryNames :: "(nat \<Rightarrow> string) \<Rightarrow> flow \<Rightarrow> string list" where
  "getLibraryNames lname fl = map lname (fl_libraries fl)"

text \<open>Adding a library; the second component tells whether its init function is run.\<close>

definition addLibrary :: "(nat \<Rightarrow> string) \<Rightarrow> nat \<Rightarrow> flow \<Rightarrow> flow \<times> bool" where
  "addLibrary lname lib fl =
     (let fl1 = fl\<lparr> fl_libraries := fl_libraries fl @ [lib] \<rparr>
      in (fl1, getPrevLibrary lname (lname lib) fl1 = None))"

text \<open>Draining walks each guard's atomics, at most \<open>n\<close> of a pool.\<close>

definition drainGuardsOfEvents :: "(('k, 'z) gworld_scheme \<Rightarrow> nat \<Rightarrow> nat option) \<Rightarrow> nat \<Rightarrow> flow \<Rightarrow> ('k, 'z) gworld_scheme \<Rightarrow> ('k, 'z) gworld_scheme result" where
  "drainGuardsOfEvents target n fl w = foldE (\<lambda>(_, g) w. bindE (guard_drain (target w) n g w) (\<lambda>(_, w'). Inr w')) (fl_guards fl) w"

text \<open>The destructor deletes the nodes, the guards, and the libraries in reverse unless they were given
  up; the result is the three lists in order of deletion (None when it reads an uninitialised flag).\<close>

definition flow_destroy :: "flow \<Rightarrow> (nat list \<times> nat list \<times> nat list) option" where
  "flow_destroy fl = (case fl_gaveup fl of None \<Rightarrow> None
     | Some b \<Rightarrow> Some (map snd (fl_nodes fl), map snd (fl_guards fl), if b then [] else rev (fl_libraries fl)))"

definition flow_log_snapshot :: "flow \<Rightarrow> ('k, 'z) fworld_scheme \<Rightarrow> (string \<times> string \<times> int \<times> int) list" where
  "flow_log_snapshot fl w = map (\<lambda>(_, n). node_log_snapshot (fw_nodes w n)) (fl_nodes fl)"

section \<open>Printing the graph\<close>

datatype pp_line = PPNode nat char string | PPSuccessor nat string | PPList nat

definition create_indention :: "nat \<Rightarrow> string" where
  "create_indention depth = concat (replicate depth ''  '') @ (if depth \<noteq> 0 then ''|_'' else [])"

fun pp_render :: "pp_line \<Rightarrow> string" where
  "pp_render (PPNode d ctx name) = create_indention d @ [ctx] @ '' '' @ name"
| "pp_render (PPSuccessor d name) = create_indention d @ ''..'' @ name"
| "pp_render (PPList d) = create_indention d @ ''.''"

type_synonym pp_state = "pp_line list \<times> string set"

text \<open>None is the walk running out of fuel.\<close>

definition bindO :: "'a result option \<Rightarrow> ('a \<Rightarrow> 'b result option) \<Rightarrow> 'b result option" where
  "bindO r f = (case r of None \<Rightarrow> None | Some (Inl e) \<Rightarrow> Some (Inl e) | Some (Inr a) \<Rightarrow> f a)"

definition pp_case :: "(nat \<Rightarrow> char \<Rightarrow> nat \<Rightarrow> pp_state \<Rightarrow> pp_state result option) \<Rightarrow> nat \<Rightarrow> fcase \<Rightarrow> pp_state \<Rightarrow>
    pp_state result option" where
  "pp_case rec depth c st = (case fc_target c of
      None \<Rightarrow> Some (Inl NullDeref)
    | Some t \<Rightarrow> rec depth (if length (fc_conds c) = 0 then CHR ''D'' else CHR ''C'') t st)"

fun pp_cases :: "(nat \<Rightarrow> char \<Rightarrow> nat \<Rightarrow> pp_state \<Rightarrow> pp_state result option) \<Rightarrow> nat \<Rightarrow> fcase list \<Rightarrow> pp_state \<Rightarrow>
    pp_state result option" where
  "pp_cases rec depth [] st = Some (Inr st)"
| "pp_cases rec depth (c # cs) st = bindO (pp_case rec (depth + 1) c st) (pp_cases rec depth cs)"

definition pp_successor :: "(nat \<Rightarrow> char \<Rightarrow> nat \<Rightarrow> pp_state \<Rightarrow> pp_state result option) \<Rightarrow> nat \<Rightarrow> successor \<Rightarrow>
    pp_state \<Rightarrow> pp_state result option" where
  "pp_successor rec depth s st =
     bindO (pp_cases rec depth (su_cases s) st) (\<lambda>(out, vis). Some (Inr (out @ [PPSuccessor (depth + 1) (su_name s)], vis)))"

fun pp_succlist :: "(nat \<Rightarrow> char \<Rightarrow> nat \<Rightarrow> pp_state \<Rightarrow> pp_state result option) \<Rightarrow> nat \<Rightarrow> succlist \<Rightarrow> pp_state \<Rightarrow>
    pp_state result option" where
  "pp_succlist rec depth [] (out, vis) = Some (Inr (out @ [PPList (depth + 1)], vis))"
| "pp_succlist rec depth ((_, s) # sl) st = bindO (pp_successor rec (depth + 1) s st) (pp_succlist rec depth sl)"

primrec pp_node :: "nat \<Rightarrow> (nat \<Rightarrow> fnode) \<Rightarrow> nat \<Rightarrow> char \<Rightarrow> nat \<Rightarrow> pp_state \<Rightarrow> pp_state result option" where
  "pp_node 0 nodes depth ctx n st = None"
| "pp_node (Suc f) nodes depth ctx n st =
     (let nd = nodes n; out = fst st @ [PPNode depth ctx (fn_name nd)]; vis = snd st in
      if fn_name nd \<in> vis then Some (Inr (out, vis))
      else if depth = 0 \<or> \<not> fn_is_source nd
      then (case fn_succ nd of
          None \<Rightarrow> Some (Inr (out, insert (fn_name nd) vis))
        | Some sl \<Rightarrow> pp_succlist (pp_node f nodes) (depth + 1) sl (out, insert (fn_name nd) vis))
      else Some (Inr (out, insert (fn_name nd) vis)))"

fun pp_sources :: "nat \<Rightarrow> (nat \<Rightarrow> fnode) \<Rightarrow> nat list \<Rightarrow> pp_line list \<Rightarrow> pp_line list result option" where
  "pp_sources f nodes [] out = Some (Inr out)"
| "pp_sources f nodes (n # ns) out =
     bindO (pp_node f nodes 0 CHR ''S'' n (out, {})) (\<lambda>(out', _). pp_sources f nodes ns out')"

definition flow_pretty_print :: "nat \<Rightarrow> flow \<Rightarrow> ('k, 'z) fworld_scheme \<Rightarrow> pp_line list result option" where
  "flow_pretty_print f fl w = pp_sources f (fw_nodes w) (fl_sources fl) []"

section \<open>The walk ends and is complete\<close>

definition node_targets :: "fnode \<Rightarrow> nat set" where
  "node_targets nd = {t. \<exists>sl. fn_succ nd = Some sl \<and> (\<exists>(x, s)\<in>set sl. \<exists>c\<in>set (su_cases s). fc_target c = Some t)}"

text \<open>A set of nodes closed under targets, in which every case has one.\<close>

definition closed_graph :: "(nat \<Rightarrow> fnode) \<Rightarrow> nat set \<Rightarrow> bool" where
  "closed_graph nodes A \<longleftrightarrow> (\<forall>n\<in>A. \<forall>sl. fn_succ (nodes n) = Some sl \<longrightarrow>
     (\<forall>(x, s)\<in>set sl. \<forall>c\<in>set (su_cases s). \<exists>t\<in>A. fc_target c = Some t))"

definition unvisited :: "(nat \<Rightarrow> fnode) \<Rightarrow> nat set \<Rightarrow> string set \<Rightarrow> nat" where
  "unvisited nodes A vis = card ((\<lambda>n. fn_name (nodes n)) ` A - vis)"

definition pp_ok :: "(nat \<Rightarrow> fnode) \<Rightarrow> nat set \<Rightarrow> pp_state \<Rightarrow> pp_state \<Rightarrow> bool" where
  "pp_ok nodes A st st' \<longleftrightarrow> snd st \<subseteq> snd st' \<and> set (fst st) \<subseteq> set (fst st') \<and>
     (\<forall>x\<in>snd st' - snd st. \<exists>d c. PPNode d c x \<in> set (fst st')) \<and>
     (\<forall>m\<in>A. \<not> fn_is_source (nodes m) \<and> fn_name (nodes m) \<in> snd st' - snd st \<longrightarrow>
        (\<forall>t\<in>node_targets (nodes m). fn_name (nodes t) \<in> snd st'))"

lemma pp_ok_refl: "pp_ok nodes A st st"
  by (simp add: pp_ok_def)

lemma pp_okD:
  assumes "pp_ok nodes A st st'"
  shows "snd st \<subseteq> snd st'" "set (fst st) \<subseteq> set (fst st')"
    "x \<in> snd st' \<Longrightarrow> x \<notin> snd st \<Longrightarrow> \<exists>d c. PPNode d c x \<in> set (fst st')"
    "m \<in> A \<Longrightarrow> \<not> fn_is_source (nodes m) \<Longrightarrow> fn_name (nodes m) \<in> snd st' \<Longrightarrow> fn_name (nodes m) \<notin> snd st \<Longrightarrow>
       t \<in> node_targets (nodes m) \<Longrightarrow> fn_name (nodes t) \<in> snd st'"
  using assms by (simp_all add: pp_ok_def)

lemma pp_okI:
  assumes "snd st \<subseteq> snd st'" "set (fst st) \<subseteq> set (fst st')"
    "\<And>x. x \<in> snd st' \<Longrightarrow> x \<notin> snd st \<Longrightarrow> \<exists>d c. PPNode d c x \<in> set (fst st')"
    "\<And>m t. m \<in> A \<Longrightarrow> \<not> fn_is_source (nodes m) \<Longrightarrow> fn_name (nodes m) \<in> snd st' \<Longrightarrow> fn_name (nodes m) \<notin> snd st \<Longrightarrow>
       t \<in> node_targets (nodes m) \<Longrightarrow> fn_name (nodes t) \<in> snd st'"
  shows "pp_ok nodes A st st'"
  using assms by (simp add: pp_ok_def)

lemma pp_ok_trans:
  assumes "pp_ok nodes A s1 s2" "pp_ok nodes A s2 s3"
  shows "pp_ok nodes A s1 s3"
proof (rule pp_okI)
  show "snd s1 \<subseteq> snd s3" using pp_okD(1)[OF assms(1)] pp_okD(1)[OF assms(2)] by (rule subset_trans)
  show "set (fst s1) \<subseteq> set (fst s3)" using pp_okD(2)[OF assms(1)] pp_okD(2)[OF assms(2)] by (rule subset_trans)
next
  fix x assume "x \<in> snd s3" "x \<notin> snd s1"
  then show "\<exists>d c. PPNode d c x \<in> set (fst s3)"
    using pp_okD(3)[OF assms(1), of x] pp_okD(3)[OF assms(2), of x] pp_okD(2)[OF assms(2)]
    by (cases "x \<in> snd s2") blast+
next
  fix m t assume m: "m \<in> A" "\<not> fn_is_source (nodes m)" "fn_name (nodes m) \<in> snd s3" "fn_name (nodes m) \<notin> snd s1"
    "t \<in> node_targets (nodes m)"
  show "fn_name (nodes t) \<in> snd s3"
  proof (cases "fn_name (nodes m) \<in> snd s2")
    case True
    then show ?thesis using pp_okD(4)[OF assms(1) m(1,2) _ m(4,5)] pp_okD(1)[OF assms(2)] by blast
  next
    case False
    then show ?thesis by (rule pp_okD(4)[OF assms(2) m(1,2,3) _ m(5)])
  qed
qed

lemma pp_ok_line: "pp_ok nodes A s (out, vis) \<Longrightarrow> pp_ok nodes A s (out @ ls, vis)"
  unfolding pp_ok_def fst_conv snd_conv set_append Un_iff by blast

lemma unvisited_mono: "finite A \<Longrightarrow> vis \<subseteq> vis' \<Longrightarrow> unvisited nodes A vis' \<le> unvisited nodes A vis"
  unfolding unvisited_def by (intro card_mono) auto

lemma unvisited_insert:
  "finite A \<Longrightarrow> n \<in> A \<Longrightarrow> fn_name (nodes n) \<notin> vis \<Longrightarrow> unvisited nodes A (insert (fn_name (nodes n)) vis) < unvisited nodes A vis"
  unfolding unvisited_def by (intro psubset_card_mono) auto

text \<open>What a call of the walk on node \<open>n\<close> achieves when its fuel exceeds the names not yet visited.\<close>

definition pp_good :: "(nat \<Rightarrow> fnode) \<Rightarrow> nat set \<Rightarrow> nat \<Rightarrow> (nat \<Rightarrow> char \<Rightarrow> nat \<Rightarrow> pp_state \<Rightarrow> pp_state result option) \<Rightarrow> bool" where
  "pp_good nodes A f rec \<longleftrightarrow> (\<forall>d c n st. n \<in> A \<and> unvisited nodes A (snd st) < f \<longrightarrow>
     (\<exists>st'. rec d c n st = Some (Inr st') \<and> pp_ok nodes A st st' \<and> fn_name (nodes n) \<in> snd st'))"

lemma pp_cases_good:
  assumes "pp_good nodes A f rec" "finite A" "unvisited nodes A (snd st) < f" "\<forall>c\<in>set cs. \<exists>t\<in>A. fc_target c = Some t"
  shows "\<exists>st'. pp_cases rec d cs st = Some (Inr st') \<and> pp_ok nodes A st st' \<and>
    (\<forall>c\<in>set cs. \<forall>t. fc_target c = Some t \<longrightarrow> fn_name (nodes t) \<in> snd st')"
  using assms(3,4)
proof (induction cs arbitrary: st)
  case Nil
  then show ?case by (simp add: pp_ok_refl)
next
  case (Cons c cs)
  obtain t where t: "t \<in> A" "fc_target c = Some t" using Cons.prems(2) by auto
  from assms(1) t(1) Cons.prems(1) have "\<exists>st'. rec (d + 1) (if length (fc_conds c) = 0 then CHR ''D'' else CHR ''C'') t st
      = Some (Inr st') \<and> pp_ok nodes A st st' \<and> fn_name (nodes t) \<in> snd st'"
    unfolding pp_good_def by blast
  then obtain st1 where st1: "pp_case rec (d + 1) c st = Some (Inr st1)" "pp_ok nodes A st st1" "fn_name (nodes t) \<in> snd st1"
    unfolding pp_case_def t(2) option.case by blast
  have "unvisited nodes A (snd st1) < f"
    using unvisited_mono[OF assms(2) pp_okD(1)[OF st1(2)]] Cons.prems(1) by (rule le_less_trans)
  then obtain st2 where st2: "pp_cases rec d cs st1 = Some (Inr st2)" "pp_ok nodes A st1 st2"
    "\<forall>c\<in>set cs. \<forall>t. fc_target c = Some t \<longrightarrow> fn_name (nodes t) \<in> snd st2"
    using Cons.IH Cons.prems(2) by (meson list.set_intros(2))
  have "fn_name (nodes t) \<in> snd st2" using st1(3) pp_okD(1)[OF st2(2)] by blast
  then show ?case using st1(1) st2 pp_ok_trans[OF st1(2) st2(2)] t(2) by (auto simp: bindO_def)
qed

lemma pp_succlist_good:
  assumes "pp_good nodes A f rec" "finite A" "unvisited nodes A (snd st) < f"
    "\<forall>(x, s)\<in>set sl. \<forall>c\<in>set (su_cases s). \<exists>t\<in>A. fc_target c = Some t"
  shows "\<exists>st'. pp_succlist rec d sl st = Some (Inr st') \<and> pp_ok nodes A st st' \<and>
    (\<forall>(x, s)\<in>set sl. \<forall>c\<in>set (su_cases s). \<forall>t. fc_target c = Some t \<longrightarrow> fn_name (nodes t) \<in> snd st')"
  using assms(3,4)
proof (induction sl arbitrary: st)
  case Nil
  then show ?case by (cases st) (simp add: pp_ok_line pp_ok_refl)
next
  case (Cons p sl)
  obtain x s where p: "p = (x, s)" by (cases p)
  have cs: "\<forall>c\<in>set (su_cases s). \<exists>t\<in>A. fc_target c = Some t" using Cons.prems(2) by (simp add: p)
  from pp_cases_good[OF assms(1,2) Cons.prems(1) cs, of "d + 1"] obtain out vis where
    c: "pp_cases rec (d + 1) (su_cases s) st = Some (Inr (out, vis))" "pp_ok nodes A st (out, vis)"
    "\<forall>c\<in>set (su_cases s). \<forall>t. fc_target c = Some t \<longrightarrow> fn_name (nodes t) \<in> vis"
    by (metis prod.collapse snd_conv)
  let ?st1 = "(out @ [PPSuccessor (d + 1 + 1) (su_name s)], vis)"
  have s1: "pp_successor rec (d + 1) s st = Some (Inr ?st1)" using c(1) by (simp add: pp_successor_def bindO_def)
  have ok1: "pp_ok nodes A st ?st1" using c(2) by (rule pp_ok_line)
  have "unvisited nodes A (snd ?st1) < f"
    using unvisited_mono[OF assms(2) pp_okD(1)[OF ok1]] Cons.prems(1) by (rule le_less_trans)
  then obtain st2 where st2: "pp_succlist rec d sl ?st1 = Some (Inr st2)" "pp_ok nodes A ?st1 st2"
    "\<forall>(x, s)\<in>set sl. \<forall>c\<in>set (su_cases s). \<forall>t. fc_target c = Some t \<longrightarrow> fn_name (nodes t) \<in> snd st2"
    using Cons.IH Cons.prems(2) by (meson list.set_intros(2))
  have "vis \<subseteq> snd st2" using pp_okD(1)[OF st2(2)] by simp
  then show ?case using s1 st2 pp_ok_trans[OF ok1 st2(2)] c(3) by (auto simp: bindO_def p)
qed

text \<open>One call: the root call (depth 0) expands its node even when it is a source.\<close>

lemma pp_node_step:
  assumes "pp_good nodes A f (pp_node f nodes)" "finite A" "closed_graph nodes A" "inj_on (\<lambda>n. fn_name (nodes n)) A"
    and n: "n \<in> A" and u: "unvisited nodes A (snd st) < Suc f"
  shows "\<exists>st'. pp_node (Suc f) nodes d c n st = Some (Inr st') \<and> pp_ok nodes A st st' \<and> fn_name (nodes n) \<in> snd st' \<and>
    (fn_name (nodes n) \<notin> snd st \<and> (d = 0 \<or> \<not> fn_is_source (nodes n)) \<longrightarrow>
      (\<forall>t\<in>node_targets (nodes n). fn_name (nodes t) \<in> snd st'))"
proof -
  let ?x = "fn_name (nodes n)" and ?out = "fst st @ [PPNode d c (fn_name (nodes n))]"
  let ?st1 = "(?out, insert ?x (snd st))"
  show ?thesis
  proof (cases "?x \<in> snd st")
    case True
    have "pp_ok nodes A st (?out, snd st)" using pp_ok_refl[of nodes A st] pp_ok_line[of nodes A st "fst st" "snd st"] by simp
    then show ?thesis using True by (simp add: Let_def)
  next
    case False
    have lt: "unvisited nodes A (insert ?x (snd st)) < f"
      using unvisited_insert[of A n nodes "snd st", OF assms(2) n False] u by linarith
    have only: "m = n" if "m \<in> A" "fn_name (nodes m) = ?x" for m
      using inj_onD[OF assms(4), of m n] that n by simp
    have fin: "\<exists>st'. Some (Inr st2) = Some (Inr st') \<and> pp_ok nodes A st st' \<and> ?x \<in> snd st' \<and>
       (\<not> fn_is_source (nodes n) \<or> d = 0 \<longrightarrow> (\<forall>t\<in>node_targets (nodes n). fn_name (nodes t) \<in> snd st'))"
      if ok: "pp_ok nodes A ?st1 st2" and tg: "\<not> fn_is_source (nodes n) \<or> d = 0 \<Longrightarrow> \<forall>t\<in>node_targets (nodes n). fn_name (nodes t) \<in> snd st2"
      for st2
    proof -
      have x2: "?x \<in> snd st2" "set ?out \<subseteq> set (fst st2)" using pp_okD(1,2)[OF ok] by auto
      have "pp_ok nodes A st st2"
      proof (rule pp_okI)
        show "snd st \<subseteq> snd st2" "set (fst st) \<subseteq> set (fst st2)" using pp_okD(1,2)[OF ok] by auto
      next
        fix y assume "y \<in> snd st2" "y \<notin> snd st"
        then show "\<exists>d c. PPNode d c y \<in> set (fst st2)"
          using pp_okD(3)[OF ok, of y] x2(2) by (cases "y = ?x") auto
      next
        fix m t assume m: "m \<in> A" "\<not> fn_is_source (nodes m)" "fn_name (nodes m) \<in> snd st2"
          "fn_name (nodes m) \<notin> snd st" "t \<in> node_targets (nodes m)"
        show "fn_name (nodes t) \<in> snd st2"
        proof (cases "fn_name (nodes m) = ?x")
          case True
          then have "m = n" using only m(1) by blast
          then show ?thesis using m tg by blast
        next
          case False
          then show ?thesis using pp_okD(4)[OF ok m(1,2,3) _ m(5)] m(4) by simp
        qed
      qed
      then show ?thesis using x2 tg by blast
    qed
    show ?thesis
    proof (cases "d = 0 \<or> \<not> fn_is_source (nodes n)")
      case exp: True
      show ?thesis
      proof (cases "fn_succ (nodes n)")
        case None
        then have "pp_node (Suc f) nodes d c n st = Some (Inr ?st1)" using False exp by (simp add: Let_def)
        then show ?thesis using fin[OF pp_ok_refl] None False exp by (simp add: node_targets_def)
      next
        case (Some sl)
        then have "\<forall>(x, s)\<in>set sl. \<forall>c\<in>set (su_cases s). \<exists>t\<in>A. fc_target c = Some t"
          using assms(3) n unfolding closed_graph_def by blast
        with pp_succlist_good[OF assms(1,2), of ?st1 sl "d + 1"] lt obtain st2 where
          s2: "pp_succlist (pp_node f nodes) (d + 1) sl ?st1 = Some (Inr st2)" "pp_ok nodes A ?st1 st2"
            "\<forall>(x, s)\<in>set sl. \<forall>c\<in>set (su_cases s). \<forall>t. fc_target c = Some t \<longrightarrow> fn_name (nodes t) \<in> snd st2"
          by auto
        have "\<forall>t\<in>node_targets (nodes n). fn_name (nodes t) \<in> snd st2"
          using s2(3) Some by (fastforce simp: node_targets_def)
        moreover have "pp_node (Suc f) nodes d c n st = Some (Inr st2)" using False exp Some s2(1) by (simp add: Let_def)
        ultimately show ?thesis using fin[OF s2(2)] by (metis exp)
      qed
    next
      case nexp: False
      then have "pp_node (Suc f) nodes d c n st = Some (Inr ?st1)" using False by (simp add: Let_def)
      then show ?thesis using fin[OF pp_ok_refl] nexp by simp
    qed
  qed
qed

lemma pp_node_good:
  assumes "finite A" "closed_graph nodes A" "inj_on (\<lambda>n. fn_name (nodes n)) A"
  shows "pp_good nodes A f (pp_node f nodes)"
proof (induction f)
  case 0
  then show ?case by (simp add: pp_good_def)
next
  case (Suc f)
  show ?case unfolding pp_good_def using pp_node_step[OF Suc assms] by blast
qed

text \<open>The edges the printer follows from source \<open>s\<close>: those of \<open>s\<close> and of the nodes that are not sources.\<close>

definition printed_edges :: "(nat \<Rightarrow> fnode) \<Rightarrow> nat \<Rightarrow> (nat \<times> nat) set" where
  "printed_edges nodes s = {(m, t). t \<in> node_targets (nodes m) \<and> (m = s \<or> \<not> fn_is_source (nodes m))}"

lemma closed_targets: "closed_graph nodes A \<Longrightarrow> m \<in> A \<Longrightarrow> t \<in> node_targets (nodes m) \<Longrightarrow> t \<in> A"
  unfolding closed_graph_def node_targets_def by fastforce

lemma pp_source_complete:
  assumes "finite A" "closed_graph nodes A" "inj_on (\<lambda>n. fn_name (nodes n)) A" "s \<in> A" "card A < f"
  shows "\<exists>out' vis. pp_node f nodes 0 c s (out, {}) = Some (Inr (out', vis)) \<and> set out \<subseteq> set out' \<and>
    (\<forall>t. (s, t) \<in> (printed_edges nodes s)\<^sup>* \<longrightarrow> (\<exists>d c. PPNode d c (fn_name (nodes t)) \<in> set out'))"
proof -
  obtain f' where f: "f = Suc f'" using assms(5) by (cases f) auto
  have "unvisited nodes A {} \<le> card A" using assms(1) by (simp add: unvisited_def card_image_le)
  then have u: "unvisited nodes A (snd (out, {})) < Suc f'" using assms(5) f by simp
  from pp_node_step[OF pp_node_good[OF assms(1-3)] assms(1-4) u, of 0 c] obtain out' vis where
    r: "pp_node f nodes 0 c s (out, {}) = Some (Inr (out', vis))" "pp_ok nodes A (out, {}) (out', vis)"
      "fn_name (nodes s) \<in> vis" "\<forall>t\<in>node_targets (nodes s). fn_name (nodes t) \<in> vis"
    unfolding f by auto
  have "t \<in> A \<and> fn_name (nodes t) \<in> vis" if "(s, t) \<in> (printed_edges nodes s)\<^sup>*" for t
    using that
  proof (induction rule: rtrancl_induct)
    case base
    then show ?case using assms(4) r(3) by simp
  next
    case (step m t)
    then have t: "t \<in> node_targets (nodes m)" "m = s \<or> \<not> fn_is_source (nodes m)" by (auto simp: printed_edges_def)
    then have "t \<in> A" using step closed_targets[OF assms(2)] by blast
    then show ?case using t r(4) pp_okD(4)[OF r(2), of m t] step.IH by auto
  qed
  then show ?thesis using r(1) pp_okD(2,3)[OF r(2)] by auto
qed


definition ex_case :: "nat \<Rightarrow> nat \<Rightarrow> string \<Rightarrow> fcase" where
  "ex_case p t name = case_new p name (Some t) None"

text \<open>A source 2 that feeds node 3, which feeds itself and the source.\<close>

definition ex_node :: "nat \<Rightarrow> string \<Rightarrow> bool \<Rightarrow> fcase list \<Rightarrow> fnode" where
  "ex_node n name src cs = (fw_nodes (node_new n 0 1 name name 0 0 False src False False [] []
      \<lparr> gw_atoms = \<lambda>_. None, gw_guards = \<lambda>_. \<lparr> g_magic = 0, g_map = GTrivial 0, g_is_gc = False \<rparr> :: nat guard,
        gw_next = 0, w_ah = \<lambda>_. ah_new False, fw_nodes = undefined, fw_gname = \<lambda>_. [], fw_last_id = 0 \<rparr>) n)
     \<lparr> fn_succ := Some [(''0'', \<lparr> su_ptr = 5, su_name = ''0'', su_cases = cs \<rparr>)], fn_guards := [gref_new 2 3 False, gref_new 3 3 False] \<rparr>"

definition ex_nodes :: "nat \<Rightarrow> fnode" where
  "ex_nodes n = (if n = 2 then ex_node 2 ''S'' True [ex_case 6 3 ''A''] else ex_node n ''A'' False [ex_case 7 3 ''A'', ex_case 8 2 ''S''])"

definition ex_flow_world :: "nat fworld" where
  "ex_flow_world = \<lparr> gw_atoms = \<lambda>_. None, gw_guards = \<lambda>_. \<lparr> g_magic = 0, g_map = GTrivial 0, g_is_gc = False \<rparr>,
     gw_next = 0, w_ah = \<lambda>_. ah_new False, fw_nodes = ex_nodes,
     fw_gname = \<lambda>g. if g = 2 then ''a'' else ''b'', fw_last_id = 0 \<rparr>"

lemma ex_nodes_simps:
  "fn_name (ex_nodes 2) = ''S''" "fn_name (ex_nodes 3) = ''A''"
  "fn_succ (ex_nodes 2) = Some [(''0'', \<lparr> su_ptr = 5, su_name = ''0'', su_cases = [ex_case 6 3 ''A''] \<rparr>)]"
  "fn_succ (ex_nodes 3) = Some [(''0'', \<lparr> su_ptr = 5, su_name = ''0'', su_cases = [ex_case 7 3 ''A'', ex_case 8 2 ''S''] \<rparr>)]"
  "fc_target (ex_case p t name) = Some t"
  by (simp_all add: ex_nodes_def ex_node_def node_new_def set_node_def ex_case_def case_new_def)


section \<open>Numbering and sorting the guards of a flow\<close>

lemma node_sortGuards_cong: "gw_guards w = gw_guards w' \<Longrightarrow> node_sortGuards w = node_sortGuards w'"
proof -
  assume "gw_guards w = gw_guards w'"
  then have "node_magic w = node_magic w'" by (intro ext) (simp add: node_magic_def gref_magic_def)
  then show ?thesis by (intro ext) (simp add: node_sortGuards_def)
qed

lemma sort_fold:
  "distinct ns \<Longrightarrow> gw_guards (fold (\<lambda>n w. set_node n (node_sortGuards w (fw_nodes w n)) w) ns w) = gw_guards w \<and>
     (\<forall>n\<in>set ns. fw_nodes (fold (\<lambda>n w. set_node n (node_sortGuards w (fw_nodes w n)) w) ns w) n = node_sortGuards w (fw_nodes w n)) \<and>
     (\<forall>n. n \<notin> set ns \<longrightarrow> fw_nodes (fold (\<lambda>n w. set_node n (node_sortGuards w (fw_nodes w n)) w) ns w) n = fw_nodes w n)"
proof (induction ns arbitrary: w)
  case (Cons m ns)
  let ?w1 = "set_node m (node_sortGuards w (fw_nodes w m)) w"
  have same: "gw_guards ?w1 = gw_guards w" by (simp add: set_node_def)
  then have "node_sortGuards ?w1 = node_sortGuards w" by (rule node_sortGuards_cong)
  moreover have "fw_nodes ?w1 n = (if n = m then node_sortGuards w (fw_nodes w m) else fw_nodes w n)" for n
    by (simp add: set_node_def)
  ultimately show ?case using Cons.IH[of ?w1] Cons.prems same by auto
qed simp

lemma add_points:
  "ms_points (fold (\<lambda>(_, g). addPoint (nm g)) gs s) = ms_points s @ map (\<lambda>(_, g). nm g) gs"
  "ms_inequalities (fold (\<lambda>(_, g). addPoint (nm g)) gs s) = ms_inequalities s"
  by (induction gs arbitrary: s) (auto simp: addPoint_def)

text \<open>C14: When a flow is loaded its guards are numbered and each node's guards sorted: with precedences free
  of cycles this succeeds, the numbers respect every precedence, each node keeps exactly its guards,
  in ascending order of their numbers, and is marked completely sorted exactly when it uses no guard
  twice.\<close>

theorem assignMagicNumbers_correct:
  assumes "known_inequalities (ms_inequalities (fl_sorter fl)) = Inr es" and "acyclic (set es)"
    and "ms_points (fl_sorter fl) = []" and "\<forall>g. g_magic (gw_guards w g) = 0"
    and guards: "map_ok (fl_guards fl)" "\<forall>(x, g)\<in>set (fl_guards fl). fw_gname w g = x"
    and nodes: "distinct (map snd (fl_nodes fl))"
      "\<forall>(x, n)\<in>set (fl_nodes fl). \<forall>r\<in>set (fn_guards (fw_nodes w n)). gr_guard r \<in> snd ` set (fl_guards fl)"
  shows "\<exists>fl' w'. assignMagicNumbers fl w = Inr (fl', w') \<and>
    (\<forall>(b, a)\<in>set es. g_magic (gw_guards w' b) < g_magic (gw_guards w' a)) \<and>
    (\<forall>(x, n)\<in>set (fl_nodes fl). let gs = fn_guards (fw_nodes w' n) in
       mset gs = mset (fn_guards (fw_nodes w n)) \<and> sorted (map (\<lambda>r. gref_magic r w') gs) \<and>
       (fn_csorted (fw_nodes w' n) \<longleftrightarrow> distinct (map gr_guard gs)))"
proof -
  define sorter where "sorter = fold (\<lambda>(_, g). addPoint (fw_gname w g)) (fl_guards fl) (fl_sorter fl)"
  let ?get = "\<lambda>s. flow_get_guard s fl"
  have pts: "ms_points sorter = map (\<lambda>(x, g). fw_gname w g) (fl_guards fl)"
    and ineq: "known_inequalities (ms_inequalities sorter) = Inr es"
    using assms(1,3) by (simp_all add: sorter_def add_points)
  have look: "?get (fw_gname w g) = Some g" if "(x, g) \<in> set (fl_guards fl)" for x g
  proof -
    have "fw_gname w g = x" using guards(2) that by auto
    then show ?thesis using that guards(1) by (simp add: flow_get_guard_def map_find_set_mem)
  qed
  have imgs: "?get ` set (ms_points sorter) = Some ` snd ` set (fl_guards fl)"
    unfolding pts by (force simp: look image_iff)
  then have "None \<notin> ?get ` set (ms_points sorter)" by auto
  note spec = numberAll_spec[OF ineq this, unfolded if_P[OF assms(2)]]
  then obtain mn where mn: "numberAll ?get sorter (\<lambda>_. 0) = Inr mn" "\<forall>(b, a)\<in>set es. 0 < mn b \<and> mn b < mn a"
      and pos0: "\<forall>p. Some p \<in> ?get ` set (ms_points sorter) \<longrightarrow> mn p > 0"
      and inj: "\<forall>j k. mn j = mn k \<and> mn j > 0 \<longrightarrow> j = k"
    by blast
  have gpos: "\<forall>g\<in>snd ` set (fl_guards fl). mn g > 0" using pos0 unfolding imgs by blast
  have zero: "(\<lambda>g. g_magic (gw_guards w g)) = (\<lambda>_. 0)" using assms(4) by auto
  let ?w1 = "set_magic mn w" and ?ns = "map snd (fl_nodes fl)"
  let ?w2 = "fold (\<lambda>n w. set_node n (node_sortGuards w (fw_nodes w n)) w) ?ns ?w1"
  have f: "fold (\<lambda>(_, n) w. set_node n (node_sortGuards w (fw_nodes w n)) w) (fl_nodes fl) ?w1 = ?w2"
    by (simp add: fold_map comp_def case_prod_unfold)
  have asg: "assignMagicNumbers fl w = Inr (fl\<lparr> fl_sorter := sorter \<rparr>, ?w2)"
    unfolding assignMagicNumbers_def sorter_def[symmetric] zero mn(1) Let_def bindE_Inr f ..
  note srt = sort_fold[OF nodes(1), of ?w1]
  have g1: "g_magic (gw_guards ?w2 g) = mn g" for g using srt by (simp add: set_magic_def)
  have n1: "fw_nodes ?w1 = fw_nodes w" by (simp add: set_magic_def)
  have "mset (fn_guards (fw_nodes ?w2 n)) = mset (fn_guards (fw_nodes w n)) \<and>
      sorted (map (\<lambda>r. gref_magic r ?w2) (fn_guards (fw_nodes ?w2 n))) \<and>
      (fn_csorted (fw_nodes ?w2 n) \<longleftrightarrow> distinct (map gr_guard (fn_guards (fw_nodes ?w2 n))))"
    if "(x, n) \<in> set (fl_nodes fl)" for x n
  proof -
    have "n \<in> set ?ns" using that by force
    then have n2: "fw_nodes ?w2 n = node_sortGuards ?w1 (fw_nodes w n)" using srt unfolding n1 by blast
    have mg: "node_magic ?w1 = (\<lambda>r. gref_magic r ?w2)" "\<And>r. gref_magic r ?w2 = mn (gr_guard r)"
      using g1 by (auto simp: node_magic_def gref_magic_def set_magic_def fun_eq_iff)
    have pos: "mn (gr_guard r) > 0" if "r \<in> set (fn_guards (fw_nodes w n))" for r
      using nodes(2) gpos that \<open>(x, n) \<in> set (fl_nodes fl)\<close> by blast
    have "\<forall>r\<in>set (fn_guards (fw_nodes w n)). node_magic ?w1 r \<ge> 0" using pos by (simp add: mg less_imp_le)
    note props = node_sortGuards_props[OF this]
    have "distinct (map (node_magic ?w1) (fn_guards (fw_nodes w n))) \<longleftrightarrow> distinct (map gr_guard (fn_guards (fw_nodes w n)))"
      using pos inj unfolding mg distinct_map inj_on_def by metis
    also have "\<dots> \<longleftrightarrow> distinct (map gr_guard (fn_guards (fw_nodes ?w2 n)))"
      using props n2 by (metis mset_eq_imp_distinct_iff mset_map)
    finally show ?thesis using props n2 mg(1) by simp
  qed
  then show ?thesis using asg mn(2) g1 by (intro exI[of _ "fl\<lparr> fl_sorter := sorter \<rparr>"] exI[of _ ?w2]) (auto simp: Let_def)
qed

lemma assignMagicNumbers_correct_witness:
  "\<exists>fl' w'. assignMagicNumbers ((flow_new ''f'')\<lparr> fl_guards := [(''a'', 2), (''b'', 3)], fl_nodes := [(''S'', 2)],
       fl_sorter := \<lparr> ms_inequalities = [(Some 3, Some 2)], ms_points = [] \<rparr> \<rparr>) ex_flow_world = Inr (fl', w') \<and>
     g_magic (gw_guards w' 3) < g_magic (gw_guards w' 2)"
proof -
  let ?fl = "(flow_new ''f'')\<lparr> fl_guards := [(''a'', 2), (''b'', 3)], fl_nodes := [(''S'', 2)],
       fl_sorter := \<lparr> ms_inequalities = [(Some 3, Some 2)], ms_points = [] \<rparr> \<rparr>"
  have k: "known_inequalities (ms_inequalities (fl_sorter ?fl)) = Inr [(3, 2)]" by simp
  have a: "acyclic (set [(3::nat, 2::nat)])" by (rule increasing_acyclic[where mn = "\<lambda>k. - int k"]) auto
  have ok: "map_ok (fl_guards ?fl)" by (simp add: map_ok_def less_char_def)
  show ?thesis
    using assignMagicNumbers_correct[OF k a _ _ ok, of ex_flow_world]
    by (fastforce simp: ex_flow_world_def flow_new_def ex_nodes_def ex_node_def gref_new_def)
qed

end
