(* ===== verification/EventOps.thy ===== *)
theory EventOps
  imports Flow
begin

text \<open>
  runtime/event: the life of an event.  Events are identifiers of records in the world; creating one
  builds its holder from the guard references of its node.  The user's code enters through a record
  of functions: the node functions, the conditions, the converters and the guard translators.
\<close>

section \<open>Events\<close>

text \<open>The chain of output structures starts with the one inside the event and is never empty.\<close>

record 'd event =
  ev_node :: nat
  ev_pred :: "nat option"
  ev_error_code :: int
  ev_input :: "'d option"
  ev_outputs :: "'d list"

record ('k, 'd) eworld = "'k fworld" +
  ew_events :: "nat \<Rightarrow> 'd event option"
  ew_next :: nat

text \<open>The user's code: node functions (input, error code and guard data to return code and outputs),
  conditions, conversions, guard translators, a default output value, a blank key.\<close>

record ('k, 'd) ucode =
  uc_node :: "nat \<Rightarrow> 'd option \<Rightarrow> int \<Rightarrow> (int \<Rightarrow> nat option) \<Rightarrow> int \<times> 'd list"
  uc_cond :: "nat \<Rightarrow> 'd \<Rightarrow> bool"
  uc_conv :: "nat \<Rightarrow> 'd \<Rightarrow> 'd"
  uc_trans :: "nat \<Rightarrow> 'd option \<Rightarrow> (int \<Rightarrow> nat option) \<Rightarrow> 'k gtrans"
  uc_output :: 'd
  uc_key :: 'k

definition set_event :: "nat \<Rightarrow> 'd event \<Rightarrow> ('k, 'd, 'z) eworld_scheme \<Rightarrow> ('k, 'd, 'z) eworld_scheme" where
  "set_event e ev w = w\<lparr> ew_events := (ew_events w)(e := Some ev) \<rparr>"

definition event_of :: "nat \<Rightarrow> ('k, 'd, 'z) eworld_scheme \<Rightarrow> 'd event result" where
  "event_of e w = (case ew_events w e of None \<Rightarrow> Inl UseAfterFree | Some ev \<Rightarrow> Inr ev)"

text \<open>The constructor of EventBase (with the instance counter of its node), and the one of
  EventBaseTyped, which builds the holder; the factories \<open>create\<close> and \<open>create_error\<close> run them.\<close>

definition event_base_ctor :: "('k, 'd) ucode \<Rightarrow> nat option \<Rightarrow> 'd option \<Rightarrow> nat \<Rightarrow> ('k, 'd, 'z) eworld_scheme \<Rightarrow>
    nat \<times> ('k, 'd, 'z) eworld_scheme" where
  "event_base_ctor uc pred input n w =
     (let e = ew_next w; w1 = node_incr_instances n w
      in (e, set_event e \<lparr> ev_node = n, ev_pred = pred, ev_error_code = 0, ev_input = input,
                 ev_outputs = [uc_output uc] \<rparr> (w1\<lparr> ew_next := e + 1 \<rparr>)))"

definition event_create :: "('k, 'd) ucode \<Rightarrow> nat option \<Rightarrow> 'd option \<Rightarrow> nat \<Rightarrow> ('k, 'd, 'z) eworld_scheme \<Rightarrow>
    (nat \<times> ('k, 'd, 'z) eworld_scheme) result" where
  "event_create uc pred input n w =
     (let nd = fw_nodes w n; (e, w2) = event_base_ctor uc pred input n w
      in bindE (foldE ah_add (fn_guards nd) (ah_new (fn_csorted nd))) (\<lambda>h. Inr (e, set_ah e h w2)))"

definition event_set_error_code :: "nat \<Rightarrow> int \<Rightarrow> ('k, 'd, 'z) eworld_scheme \<Rightarrow> ('k, 'd, 'z) eworld_scheme result" where
  "event_set_error_code e ec w = bindE (event_of e w) (\<lambda>ev. Inr (set_event e (ev\<lparr> ev_error_code := ec \<rparr>) w))"

text \<open>\<open>release\<close> lets go of the predecessor.\<close>

definition event_release :: "nat \<Rightarrow> ('k, 'd, 'z) eworld_scheme \<Rightarrow> ('k, 'd, 'z) eworld_scheme result" where
  "event_release e w = bindE (event_of e w) (\<lambda>ev. Inr (set_event e (ev\<lparr> ev_pred := None \<rparr>) w))"

definition event_execute :: "('k, 'd) ucode \<Rightarrow> nat \<Rightarrow> ('k, 'd, 'z) eworld_scheme \<Rightarrow> (int \<times> ('k, 'd, 'z) eworld_scheme) result" where
  "event_execute uc e w =
     bindE (event_of e w) (\<lambda>ev.
       let n = ev_node ev; nd = fw_nodes w n;
           w1 = set_node n (nd\<lparr> fn_executions := fn_executions nd + 1 \<rparr>) w
       in case uc_node uc (fn_createfn nd) (ev_input ev) (ev_error_code ev) (getDataLexical (w_ah w e) w) of (rc, outs) \<Rightarrow>
          let w2 = set_event e (ev\<lparr> ev_outputs := outs \<rparr>) w1
          in bindE (if rc = 0 then event_release e w2 else Inr w2) (\<lambda>w3. Inr (rc, w3)))"

definition event_getIsDetached :: "nat \<Rightarrow> ('k, 'd, 'z) eworld_scheme \<Rightarrow> bool result" where
  "event_getIsDetached e w = bindE (event_of e w) (\<lambda>ev. Inr (fn_is_detached (fw_nodes w (ev_node ev))))"

definition event_log_snapshot :: "nat \<Rightarrow> ('k, 'd, 'z) eworld_scheme \<Rightarrow> (string \<times> nat \<times> nat) result" where
  "event_log_snapshot e w = bindE (event_of e w) (\<lambda>ev.
     let h = w_ah w e; n = ah_number h in
     Inr (fn_name (fw_nodes w (ev_node ev)), length (filter (\<lambda>i. ha_haveit (ah_get h i)) [0..<n]), n))"

text \<open>The output walker: the current structure, if any; \<open>next\<close> returns it and moves on.\<close>

type_synonym 'd output_walker = "'d list"

definition ow_next :: "'d output_walker \<Rightarrow> 'd option \<times> 'd output_walker" where
  "ow_next ow = (case ow of [] \<Rightarrow> (None, []) | d # ds \<Rightarrow> (Some d, ds))"

text \<open>PushTool writes the chain: the structure written to is new only after a \<open>next\<close>.\<close>

record 'd push_tool =
  pt_done :: "'d list"
  pt_cur :: 'd
  pt_pending :: bool

definition pt_new :: "'d \<Rightarrow> 'd push_tool" where
  "pt_new d = \<lparr> pt_done = [], pt_cur = d, pt_pending = False \<rparr>"

definition pt_write :: "'d \<Rightarrow> ('d \<Rightarrow> 'd) \<Rightarrow> 'd push_tool \<Rightarrow> 'd push_tool" where
  "pt_write d0 f pt =
     (if pt_pending pt
      then \<lparr> pt_done = pt_done pt @ [pt_cur pt], pt_cur = f d0, pt_pending = False \<rparr>
      else pt\<lparr> pt_cur := f (pt_cur pt) \<rparr>)"

definition pt_next :: "'d push_tool \<Rightarrow> 'd push_tool" where
  "pt_next pt = pt\<lparr> pt_pending := True \<rparr>"

definition pt_outputs :: "'d push_tool \<Rightarrow> 'd list" where
  "pt_outputs pt = pt_done pt @ [pt_cur pt]"

text \<open>\<open>getDataLexicalThrowOnNull\<close> throws when there is no data.\<close>

definition getDataLexicalThrowOnNull :: "'k holder \<Rightarrow> ('k, 'z) gworld_scheme \<Rightarrow> int \<Rightarrow> int + nat" where
  "getDataLexicalThrowOnNull h w i = (case getDataLexical h w i of None \<Rightarrow> Inl i | Some d \<Rightarrow> Inr d)"

section \<open>Event operations\<close>

definition acquire_guards :: "('k::linorder, 'd) ucode \<Rightarrow> nat \<Rightarrow> nat option \<Rightarrow> ('k, 'd, 'z) eworld_scheme \<Rightarrow>
    (bool \<times> ('k, 'd, 'z) eworld_scheme) result" where
  "acquire_guards uc e pred w =
     bindE (event_of e w) (\<lambda>ev. acquire_all_or_wait (uc_trans uc) (uc_key uc) (ev_input ev) e pred w)"

text \<open>Create an event, set its error code and acquire its guards; the event is added to the list when it
  got them all.\<close>

definition spawn :: "('k::linorder, 'd) ucode \<Rightarrow> nat option \<Rightarrow> 'd option \<Rightarrow> nat \<Rightarrow> int \<Rightarrow> nat option \<Rightarrow>
    nat list \<times> ('k, 'd, 'z) eworld_scheme \<Rightarrow> (nat list \<times> ('k, 'd, 'z) eworld_scheme) result" where
  "spawn uc pred input n ec pe s = (case s of (evs, w) \<Rightarrow>
     bindE (event_create uc pred input n w) (\<lambda>(e, w1).
     bindE (event_set_error_code e ec w1) (\<lambda>w2.
     bindE (acquire_guards uc e pe w2) (\<lambda>(res, w3).
     Inr (if res then evs @ [e] else evs, w3)))))"

text \<open>The loop over the cases chosen for one output; at most one source is created over all outputs.\<close>

fun succ_cases :: "('k::linorder, 'd) ucode \<Rightarrow> nat \<Rightarrow> 'd \<Rightarrow> fcase list \<Rightarrow> bool \<Rightarrow> nat list \<times> ('k, 'd, 'z) eworld_scheme \<Rightarrow>
    (bool \<times> nat list \<times> ('k, 'd, 'z) eworld_scheme) result" where
  "succ_cases uc e out [] saw_source s = Inr (saw_source, s)"
| "succ_cases uc e out (c # cs) saw_source s =
     (case fc_target c of
        None \<Rightarrow> Inl NullDeref
      | Some n \<Rightarrow>
          let is_source = fn_is_source (fw_nodes (snd s) n) in
          if is_source \<and> saw_source then succ_cases uc e out cs saw_source s
          else bindE (if is_source then spawn uc None None n 0 None s
                      else spawn uc (Some e) (io_convert (uc_conv uc) id (fc_converter c) out) n 0 (Some e) s)
                 (succ_cases uc e out cs (saw_source \<or> is_source)))"

fun succ_outputs :: "('k::linorder, 'd) ucode \<Rightarrow> nat \<Rightarrow> nat \<Rightarrow> 'd output_walker \<Rightarrow> bool \<Rightarrow>
    nat list \<times> ('k, 'd, 'z) eworld_scheme \<Rightarrow> (nat list \<times> ('k, 'd, 'z) eworld_scheme) result" where
  "succ_outputs uc e n [] saw_source s = Inr s"
| "succ_outputs uc e n (out # outs) saw_source (evs, w) =
     bindE (node_get_successors (uc_cond uc) n out 0 (fw_nodes w n)) (\<lambda>(cs, nd).
     bindE (succ_cases uc e out cs saw_source (evs, set_node n nd w)) (\<lambda>(saw, s). succ_outputs uc e n outs saw s))"

definition successors_on_no_error :: "('k::linorder, 'd) ucode \<Rightarrow> nat \<Rightarrow> nat list \<times> ('k, 'd, 'z) eworld_scheme \<Rightarrow>
    (nat list \<times> ('k, 'd, 'z) eworld_scheme) result" where
  "successors_on_no_error uc e s =
     bindE (event_of e (snd s)) (\<lambda>ev. succ_outputs uc e (ev_node ev) (ev_outputs ev) False s)"

fun error_cases :: "('k::linorder, 'd) ucode \<Rightarrow> nat \<Rightarrow> int \<Rightarrow> fcase list \<Rightarrow> nat list \<times> ('k, 'd, 'z) eworld_scheme \<Rightarrow>
    (nat list \<times> ('k, 'd, 'z) eworld_scheme) result" where
  "error_cases uc e rc [] s = Inr s"
| "error_cases uc e rc (c # cs) s =
     (case fc_target c of
        None \<Rightarrow> Inl NullDeref
      | Some n \<Rightarrow> bindE (event_of e (snd s)) (\<lambda>ev.
          bindE (if fn_is_source (fw_nodes (snd s) (ev_node ev)) then spawn uc None None n rc (Some e) s
                 else spawn uc (ev_pred ev)
                        (case ev_input ev of None \<Rightarrow> None | Some i \<Rightarrow> io_convert (uc_conv uc) id (fc_converter c) i) n rc (Some e) s)
            (error_cases uc e rc cs)))"

definition successors_on_error :: "('k::linorder, 'd) ucode \<Rightarrow> nat \<Rightarrow> int \<Rightarrow> nat list \<times> ('k, 'd, 'z) eworld_scheme \<Rightarrow>
    (nat list \<times> ('k, 'd, 'z) eworld_scheme) result" where
  "successors_on_error uc e rc s = (case s of (evs, w) \<Rightarrow>
     bindE (event_of e w) (\<lambda>ev.
     let n = ev_node ev in
     let out = (case fst (ow_next (ev_outputs ev)) of Some d \<Rightarrow> d | None \<Rightarrow> uc_output uc) in
     bindE (node_get_successors (uc_cond uc) n out rc (fw_nodes w n)) (\<lambda>(cs, nd).
       error_cases uc e rc cs (evs, set_node n nd w))))"

text \<open>Whether the node is initial, remembering the answer in the node.\<close>

definition check_initial :: "nat \<Rightarrow> ('k, 'd, 'z) eworld_scheme \<Rightarrow> (bool \<times> ('k, 'd, 'z) eworld_scheme) result" where
  "check_initial n w = bindE (node_getIsInitial n (fw_nodes w n)) (\<lambda>(b, nd). Inr (b, set_node n nd w))"

text \<open>The two loops of \<open>push_initials_and_sources\<close>: one event for each initial node, then one for each other
  source.\<close>

fun push_initials :: "('k::linorder, 'd) ucode \<Rightarrow> nat list \<Rightarrow> nat list \<times> ('k, 'd, 'z) eworld_scheme \<Rightarrow>
    (nat list \<times> ('k, 'd, 'z) eworld_scheme) result" where
  "push_initials uc [] s = Inr s"
| "push_initials uc (n # ns) s = (case s of (evs, w) \<Rightarrow>
     bindE (check_initial n w) (\<lambda>(initial, w1).
     bindE (if initial
            then bindE (event_create uc None None n w1) (\<lambda>(e, w2).
                 bindE (acquire_guards uc e None w2) (\<lambda>(res, w3). Inr (if res then evs @ [e] else evs, w3)))
            else Inr (evs, w1))
       (push_initials uc ns)))"

fun push_sources :: "('k::linorder, 'd) ucode \<Rightarrow> nat list \<Rightarrow> nat list \<times> ('k, 'd, 'z) eworld_scheme \<Rightarrow>
    (nat list \<times> ('k, 'd, 'z) eworld_scheme) result" where
  "push_sources uc [] s = Inr s"
| "push_sources uc (n # ns) s = (case s of (evs, w) \<Rightarrow>
     bindE (check_initial n w) (\<lambda>(initial, w1).
     bindE (if \<not> initial
            then bindE (event_create uc None None n w1) (\<lambda>(e, w2).
                 bindE (acquire_guards uc e None w2) (\<lambda>(res, w3). Inr (if res then evs @ [e] else evs, w3)))
            else Inr (evs, w1))
       (push_sources uc ns)))"

definition push_initials_and_sources :: "('k::linorder, 'd) ucode \<Rightarrow> flow \<Rightarrow> bool \<Rightarrow>
    nat list \<times> ('k, 'd, 'z) eworld_scheme \<Rightarrow> (nat list \<times> ('k, 'd, 'z) eworld_scheme) result" where
  "push_initials_and_sources uc fl lifo s = (case s of (events_vec, w) \<Rightarrow>
     if lifo
     then bindE (push_initials uc (fl_sources fl) (events_vec, w)) (push_sources uc (fl_sources fl))
     else bindE (push_initials uc (fl_sources fl) ([], w)) (\<lambda>(backend, w1).
          bindE (push_sources uc (fl_sources fl) (events_vec, w1)) (\<lambda>(evs, w2). Inr (evs @ backend, w2))))"

text \<open>The loop that lets released events go on acquiring; those that got everything are added.\<close>

fun reacquire :: "('k::linorder, 'd) ucode \<Rightarrow> nat list \<Rightarrow> nat list \<times> ('k, 'd, 'z) eworld_scheme \<Rightarrow>
    (nat list \<times> ('k, 'd, 'z) eworld_scheme) result" where
  "reacquire uc [] s = Inr s"
| "reacquire uc (e # es) s = (case s of (evs, w) \<Rightarrow>
     bindE (acquire_guards uc e None w) (\<lambda>(res, w1). reacquire uc es (if res then evs @ [e] else evs, w1)))"

text \<open>Early release, up to the submission of the events it lets through.\<close>

definition release_all_guards :: "('k::linorder, 'd) ucode \<Rightarrow> nat \<Rightarrow> ('k, 'd, 'z) eworld_scheme \<Rightarrow>
    (nat list \<times> ('k, 'd, 'z) eworld_scheme) result" where
  "release_all_guards uc e w = bindE (ah_release e w) (\<lambda>(rels, w1). reacquire uc rels ([], w1))"

section \<open>Frames\<close>

lemma world_more_of: "gworld.more w1 = gworld.more w \<Longrightarrow> world.more w1 = world.more w"
  by (cases w; cases w1) simp

lemma set_ah_more [simp]: "world.more (set_ah e h w) = world.more w"
  by (cases w) (simp add: set_ah_def)

lemma set_ha_more [simp]: "world.more (set_ha e i ha w) = world.more w"
  by (simp add: set_ha_def)

lemma bump_more [simp]: "world.more (bump_working_on e i w) = world.more w"
  by (simp add: bump_working_on_def)

lemma ha_build_more: "ha_build gfn nk ni e i late w = Inr (b, w1) \<Longrightarrow> world.more w1 = world.more w"
  by (auto simp: ha_build_def Let_def assertE_eq_Inr bindE_eq_Inr split: if_splits
      dest!: gref_get_more world_more_of)

lemma build_from_more: "build_from gfn nk ni e is res w = Inr (b, w1) \<Longrightarrow> world.more w1 = world.more w"
  by (induction "is" arbitrary: res w) (auto simp: bindE_eq_Inr dest!: ha_build_more)

lemma get_keys_sort_more: "get_keys_sort gfn nk ni e w = Inr (b, w1) \<Longrightarrow> world.more w1 = world.more w"
  by (auto simp: get_keys_sort_def Let_def bindE_eq_Inr dest!: build_from_more)

lemma ha_acquire_more: "ha_acquire_or_wait e i w = Inr (b, w1) \<Longrightarrow> world.more w1 = world.more w"
  by (auto simp: ha_acquire_or_wait_def Let_def assertE_eq_Inr bindE_eq_Inr split: option.splits
      dest!: at_acquire_more world_more_of)

lemma acquire_loop_more: "acquire_loop gfn nk ni e m idx w = Inr (b, w1) \<Longrightarrow> world.more w1 = world.more w"
proof (induction m arbitrary: idx w)
  case (Suc m)
  let ?i = "ah_idx (w_ah w e) idx"
  obtain b0 w0 where b: "ha_build gfn nk ni e ?i True w = Inr (b0, w0)"
    using Suc.prems by (auto simp: Let_def bindE_eq_Inr)
  have m0: "world.more w0 = world.more w" by (rule ha_build_more[OF b])
  show ?case
  proof (cases "ha_haveit (ah_holders (w_ah w0 e) ! ?i) \<or> ha_skipit (ah_holders (w_ah w0 e) ! ?i)")
    case True
    then have "acquire_loop gfn nk ni e m (Suc idx) (bump_working_on e idx w0) = Inr (b, w1)"
      using Suc.prems b by (simp add: Let_def)
    from Suc.IH[OF this] m0 show ?thesis by simp
  next
    case False
    then obtain r w2 where a: "ha_acquire_or_wait e ?i (bump_working_on e idx w0) = Inr (r, w2)"
      and rest: "if r then acquire_loop gfn nk ni e m (Suc idx) w2 = Inr (b, w1) else w1 = w2"
      using Suc.prems b by (auto simp: Let_def bindE_eq_Inr split: if_splits)
    have "world.more w2 = world.more w" using ha_acquire_more[OF a] m0 by simp
    then show ?thesis using rest Suc.IH[of "Suc idx" w2] by (auto split: if_splits)
  qed
qed simp

lemma acquire_more: "acquire_all_or_wait gfn nk ni e pred w = Inr (b, w1) \<Longrightarrow> world.more w1 = world.more w"
  by (auto simp: acquire_all_or_wait_def Let_def bindE_eq_Inr assertE_eq_Inr split: if_splits
      dest!: acquire_loop_more get_keys_sort_more)

lemma grant_one_more: "grant_one b a pool ha re w = Inr w1 \<Longrightarrow> world.more w1 = world.more w"
  by (auto simp: grant_one_def Let_def assertE_eq_Inr split: option.splits if_splits)

lemma grants_more: "foldE (grant_one b a pool ha) new w = Inr w1 \<Longrightarrow> world.more w1 = world.more w"
  by (erule foldE_invariant[where P = "\<lambda>v. world.more v = world.more w"]) (simp_all add: grant_one_more)

lemma ha_gc_more: "ha_garbage_collect e i w = Inr w1 \<Longrightarrow> world.more w1 = world.more w"
  by (auto simp: ha_garbage_collect_def Let_def bindE_eq_Inr split: option.splits if_splits
      dest!: guard_gc_more world_more_of)

lemma release_one_more:
  assumes "release_one e idx s = Inr s'"
  shows "world.more (snd s') = world.more (snd s)"
proof -
  obtain rels w rels' w' where s: "s = (rels, w)" "s' = (rels', w')" by (cases s, cases s')
  let ?i = "ah_idx (w_ah w e) idx"
  let ?ha = "ah_holders (w_ah w e) ! ?i"
  show ?thesis
  proof (cases "ha_haveit ?ha \<and> ha_atom ?ha \<noteq> None")
    case False
    then have "w' = w" using assms
      by (auto simp: s release_one_def Let_def assertE_eq_Inr split: bool.splits option.splits)
    then show ?thesis by (simp add: s)
  next
    case True
    then obtain a x new w1 w2 x2 w3 where r: "at_release (ah_target w) a w = Inr (new, w1)"
      and gr: "foldE (grant_one e a (is_pool_like x) ?ha) new w1 = Inr w2"
      and gc: "(if new = [] \<and> at_waiter_count x2 w2 = 0 \<and> at_held x2 = 0 then ha_garbage_collect e ?i w2 else Inr w2) = Inr w3"
      and fin: "(if ha_atom (ah_holders (w_ah w3 e) ! ?i) \<noteq> None \<and> can_relinquish x
          then at_relinquish (new \<noteq> []) a (set_ha e ?i ((ah_holders (w_ah w3 e) ! ?i)\<lparr> ha_atom := None \<rparr>) w3)
          else Inr (set_ha e ?i ((ah_holders (w_ah w3 e) ! ?i)\<lparr> ha_atom := None \<rparr>) w3)) = Inr w'"
      using assms by (auto simp: s release_one_def Let_def assertE_eq_Inr bindE_eq_Inr)
    have "world.more w1 = world.more w" using at_release_more[OF r] by (rule world_more_of)
    moreover have "world.more w2 = world.more w1" using gr by (rule grants_more)
    moreover have "world.more w3 = world.more w2" using gc ha_gc_more by (auto split: if_splits)
    moreover have "world.more w' = world.more w3"
      using fin by (auto split: if_splits dest!: at_relinquish_more world_more_of)
    ultimately show ?thesis by (simp add: s)
  qed
qed

lemma release_more:
  assumes "ah_release e w = Inr (rels, w1)"
  shows "world.more w1 = world.more w"
  using foldE_invariant[OF assms[unfolded ah_release_def], of "\<lambda>s. world.more (snd s) = world.more w"] release_one_more
  by fastforce

lemma eworld_more_eqs:
  assumes "world.more w1 = world.more w"
  shows "fw_nodes w1 = fw_nodes w" "ew_events w1 = ew_events w" "ew_next w1 = ew_next w" "fw_gname w1 = fw_gname w"
proof -
  have f: "fworld.more w1 = fworld.more w" "fw_nodes w1 = fw_nodes w" "fw_gname w1 = fw_gname w"
    using assms by (cases w; cases w1; simp)+
  then show "fw_nodes w1 = fw_nodes w" "fw_gname w1 = fw_gname w" by simp_all
  show "ew_events w1 = ew_events w" "ew_next w1 = ew_next w" using f(1) by (cases w; cases w1; simp)+
qed

lemma acquire_guards_frame:
  assumes "acquire_guards uc e pred w = Inr (b, w1)"
  shows "fw_nodes w1 = fw_nodes w" "ew_events w1 = ew_events w" "ew_next w1 = ew_next w" "fw_gname w1 = fw_gname w"
proof -
  obtain ni where "acquire_all_or_wait (uc_trans uc) (uc_key uc) ni e pred w = Inr (b, w1)"
    using assms by (auto simp: acquire_guards_def bindE_eq_Inr)
  then have "world.more w1 = world.more w" by (rule acquire_more)
  then show "fw_nodes w1 = fw_nodes w" "ew_events w1 = ew_events w" "ew_next w1 = ew_next w" "fw_gname w1 = fw_gname w"
    by (rule eworld_more_eqs)+
qed

lemma set_node_simps [simp]:
  "fw_nodes (set_node n nd w) = (fw_nodes w)(n := nd)"
  "ew_events (set_node n nd w') = ew_events w'" "ew_next (set_node n nd w') = ew_next w'"
  by (simp_all add: set_node_def)

lemma set_event_simps [simp]:
  "fw_nodes (set_event e ev w) = fw_nodes w" "ew_next (set_event e ev w) = ew_next w"
  "ew_events (set_event e ev w) = (ew_events w)(e := Some ev)"
  by (simp_all add: set_event_def)

lemma set_ah_esimps [simp]:
  "fw_nodes (set_ah e h w) = fw_nodes w" "ew_events (set_ah e h w') = ew_events w'" "ew_next (set_ah e h w') = ew_next w'"
  by (simp_all add: set_ah_def)

lemma event_create_frame:
  assumes "event_create uc pred input n w = Inr (e, w1)"
  shows "e = ew_next w \<and> ew_next w1 = Suc e \<and>
    ew_events w1 = (ew_events w)(e := Some \<lparr> ev_node = n, ev_pred = pred, ev_error_code = 0, ev_input = input,
      ev_outputs = [uc_output uc] \<rparr>) \<and>
    fw_nodes w1 = (fw_nodes w)(n := (fw_nodes w n)\<lparr> fn_instances := fn_instances (fw_nodes w n) + 1 \<rparr>)"
  using assms by (auto simp: event_create_def event_base_ctor_def Let_def bindE_eq_Inr node_incr_instances_def)

text \<open>Creating an event, setting its error code and acquiring its guards: exactly one event is added.\<close>

lemma spawn_frame:
  assumes "spawn uc pred input n ec pe (evs, w) = Inr (evs', w')"
  shows "ew_next w' = Suc (ew_next w) \<and>
    ew_events w' = (ew_events w)(ew_next w := Some \<lparr> ev_node = n, ev_pred = pred, ev_error_code = ec, ev_input = input,
      ev_outputs = [uc_output uc] \<rparr>) \<and>
    fw_nodes w' = (fw_nodes w)(n := (fw_nodes w n)\<lparr> fn_instances := fn_instances (fw_nodes w n) + 1 \<rparr>) \<and>
    (evs' = evs \<or> evs' = evs @ [ew_next w])"
proof -
  obtain e w1 w2 res where c: "event_create uc pred input n w = Inr (e, w1)"
    and ec: "event_set_error_code e ec w1 = Inr w2" and a: "acquire_guards uc e pe w2 = Inr (res, w')"
    and evs: "evs' = (if res then evs @ [e] else evs)"
    using assms by (auto simp: spawn_def bindE_eq_Inr split: if_splits)
  note cr = event_create_frame[OF c]
  have "w2 = set_event e \<lparr> ev_node = n, ev_pred = pred, ev_error_code = ec, ev_input = input,
      ev_outputs = [uc_output uc] \<rparr> w1"
    using ec cr by (auto simp: event_set_error_code_def event_of_def)
  then show ?thesis using acquire_guards_frame[OF a] cr evs by simp
qed

lemma spawn_acquired:
  assumes "event_create uc None None n w = Inr (e, w2)" "acquire_guards uc e None w2 = Inr (res, w3)"
  shows "e = ew_next w \<and> ew_next w3 = Suc e \<and> fw_nodes w3 = (fw_nodes w)(n := (fw_nodes w n)\<lparr> fn_instances := fn_instances (fw_nodes w n) + 1 \<rparr>) \<and>
    ew_events w3 = (ew_events w)(e := Some \<lparr> ev_node = n, ev_pred = None, ev_error_code = 0, ev_input = None,
      ev_outputs = [uc_output uc] \<rparr>)"
  using event_create_frame[OF assms(1)] acquire_guards_frame[OF assms(2)] by simp

section \<open>At most one source\<close>

definition sources_of :: "('k, 'd, 'z) eworld_scheme \<Rightarrow> nat set" where
  "sources_of w = {e. \<exists>ev. ew_events w e = Some ev \<and> fn_is_source (fw_nodes w (ev_node ev))}"

text \<open>The step of the invariant: nothing below the allocation counter changes, being a source is fixed,
  at most one new source event, and none when one was seen.\<close>

definition spawned :: "bool \<Rightarrow> bool \<Rightarrow> ('k, 'd, 'z) eworld_scheme \<Rightarrow> ('k, 'd, 'z) eworld_scheme \<Rightarrow> bool" where
  "spawned saw saw' w w' \<longleftrightarrow> ew_next w \<le> ew_next w' \<and> (\<forall>e<ew_next w. ew_events w' e = ew_events w e) \<and>
     (\<forall>n. fn_is_source (fw_nodes w' n) = fn_is_source (fw_nodes w n)) \<and> (saw \<longrightarrow> saw') \<and>
     (\<forall>e\<in>sources_of w'. ew_next w \<le> e \<and> e < ew_next w' \<longrightarrow> \<not> saw \<and> saw') \<and>
     (\<forall>e\<in>sources_of w'. \<forall>e'\<in>sources_of w'. ew_next w \<le> e \<and> e < ew_next w' \<and> ew_next w \<le> e' \<and> e' < ew_next w' \<longrightarrow> e = e')"

lemma spawned_refl: "spawned saw saw w w"
  by (simp add: spawned_def)

lemma spawned_sources:
  assumes "spawned a b w w'" "e < ew_next w"
  shows "e \<in> sources_of w' \<longleftrightarrow> e \<in> sources_of w"
  using assms by (simp add: spawned_def sources_of_def)

lemma spawned_trans:
  assumes "spawned a b w1 w2" "spawned b c w2 w3"
  shows "spawned a c w1 w3"
proof -
  have old: "e \<in> sources_of w2" if "e \<in> sources_of w3" "e < ew_next w2" for e
    using spawned_sources[OF assms(2) that(2)] that(1) by simp
  have ab: "\<not> a \<and> b" if "e \<in> sources_of w3" "ew_next w1 \<le> e" "e < ew_next w2" for e
    using assms(1) old[OF that(1,3)] that unfolding spawned_def by blast
  have bc: "\<not> b \<and> c" if "e \<in> sources_of w3" "ew_next w2 \<le> e" "e < ew_next w3" for e
    using assms(2) that unfolding spawned_def by blast
  have mono: "a \<longrightarrow> b" "b \<longrightarrow> c" "ew_next w1 \<le> ew_next w2" "ew_next w2 \<le> ew_next w3"
    using assms unfolding spawned_def by auto
  have one: "\<not> a \<and> c" if "e \<in> sources_of w3" "ew_next w1 \<le> e" "e < ew_next w3" for e
    using ab[of e] bc[of e] mono that by (cases "e < ew_next w2") auto
  have uniq: "e = e'" if "e \<in> sources_of w3" "e' \<in> sources_of w3" "ew_next w1 \<le> e" "e < ew_next w3" "ew_next w1 \<le> e'" "e' < ew_next w3"
    for e e'
  proof (cases "e < ew_next w2"; cases "e' < ew_next w2")
    assume "e < ew_next w2" "e' < ew_next w2"
    then show ?thesis using assms(1) old that unfolding spawned_def by blast
  next
    assume "\<not> e < ew_next w2" "\<not> e' < ew_next w2"
    then show ?thesis using assms(2) that unfolding spawned_def by (meson not_le)
  qed (use ab bc that in \<open>meson not_le\<close>)+
  have "\<forall>e<ew_next w1. ew_events w3 e = ew_events w1 e"
    using assms mono(3) by (simp add: spawned_def)
  moreover have "\<forall>n. fn_is_source (fw_nodes w3 n) = fn_is_source (fw_nodes w1 n)"
    using assms by (simp add: spawned_def)
  ultimately show ?thesis using mono one uniq unfolding spawned_def by (meson le_trans)
qed

text \<open>The list of ready events grows by new events in the order of their creation.\<close>

definition grown :: "nat list \<times> ('k, 'd, 'z) eworld_scheme \<Rightarrow> nat list \<times> ('k, 'd, 'z) eworld_scheme \<Rightarrow> bool" where
  "grown s s' \<longleftrightarrow> ew_next (snd s) \<le> ew_next (snd s') \<and>
     (\<exists>xs. fst s' = fst s @ xs \<and> sorted_wrt (<) xs \<and> set xs \<subseteq> {ew_next (snd s)..<ew_next (snd s')})"

lemma grown_refl: "grown s s"
  by (simp add: grown_def)

lemma grown_trans:
  assumes "grown s1 s2" "grown s2 s3"
  shows "grown s1 s3"
proof -
  obtain xs ys where x: "fst s2 = fst s1 @ xs" "sorted_wrt (<) xs" "set xs \<subseteq> {ew_next (snd s1)..<ew_next (snd s2)}"
    and y: "fst s3 = fst s2 @ ys" "sorted_wrt (<) ys" "set ys \<subseteq> {ew_next (snd s2)..<ew_next (snd s3)}"
    and le: "ew_next (snd s1) \<le> ew_next (snd s2)" "ew_next (snd s2) \<le> ew_next (snd s3)"
    using assms unfolding grown_def by blast
  have "sorted_wrt (<) (xs @ ys)" using x(2,3) y(2,3) by (fastforce simp: sorted_wrt_append)
  moreover have "set (xs @ ys) \<subseteq> {ew_next (snd s1)..<ew_next (snd s3)}" using x(3) y(3) le by auto
  ultimately show ?thesis using x(1) y(1) le unfolding grown_def by auto
qed

lemma spawn_grown:
  assumes "spawn uc pred input n ec pe s = Inr s'"
  shows "grown s s'"
proof -
  obtain evs w evs' w' where "s = (evs, w)" "s' = (evs', w')" by (cases s, cases s')
  then show ?thesis using spawn_frame[of uc pred input n ec pe evs w evs' w'] assms
    by (auto simp: grown_def)
qed

lemma spawn_spawned:
  assumes "spawn uc pred input n ec pe s = Inr s'" "fn_is_source (fw_nodes (snd s) n) \<longrightarrow> \<not> saw"
  shows "spawned saw (saw \<or> fn_is_source (fw_nodes (snd s) n)) (snd s) (snd s')"
proof -
  obtain evs w evs' w' where s: "s = (evs, w)" "s' = (evs', w')" by (cases s, cases s')
  note f = spawn_frame[of uc pred input n ec pe evs w evs' w', OF assms(1)[unfolded s]]
  have src: "fn_is_source (fw_nodes w' m) = fn_is_source (fw_nodes w m)" for m using f by simp
  have new: "ew_next w \<in> sources_of w' \<longleftrightarrow> fn_is_source (fw_nodes w n)"
    using f by (simp add: sources_of_def)
  have nx: "ew_next w' = Suc (ew_next w)" using f by simp
  have only: "e = ew_next w" if "ew_next w \<le> e" "e < ew_next w'" for e using that nx by simp
  have "\<forall>e<ew_next w. ew_events w' e = ew_events w e" using f by simp
  moreover have "\<forall>e\<in>sources_of w'. ew_next w \<le> e \<and> e < ew_next w' \<longrightarrow> \<not> saw \<and> (saw \<or> fn_is_source (fw_nodes w n))"
    using only new assms(2) s by (metis snd_conv)
  moreover have "ew_next w \<le> ew_next w'" using nx by simp
  moreover have "\<forall>e\<in>sources_of w'. \<forall>e'\<in>sources_of w'. ew_next w \<le> e \<and> e < ew_next w' \<and> ew_next w \<le> e' \<and> e' < ew_next w' \<longrightarrow> e = e'"
    using only by blast
  ultimately show ?thesis using src unfolding s spawned_def snd_conv by blast
qed

lemma succ_cases_spawned:
  assumes "succ_cases uc e out cs saw s = Inr (saw', s')"
  shows "spawned saw saw' (snd s) (snd s') \<and> grown s s'"
  using assms
proof (induction uc e out cs saw s rule: succ_cases.induct)
  case (1 uc e out saw s)
  then show ?case by (simp add: spawned_refl grown_refl)
next
  case (2 uc e out c cs saw s)
  obtain n where n: "fc_target c = Some n" using 2(3) by (cases "fc_target c") auto
  show ?case
  proof (cases "fn_is_source (fw_nodes (snd s) n) \<and> saw")
    case True
    then show ?thesis using 2(1)[OF n refl True] 2(3) n by simp
  next
    case False
    let ?src = "fn_is_source (fw_nodes (snd s) n)"
    obtain s1 where sp: "(if ?src then spawn uc None None n 0 None s
        else spawn uc (Some e) (io_convert (uc_conv uc) id (fc_converter c) out) n 0 (Some e) s) = Inr s1"
      and rest: "succ_cases uc e out cs (saw \<or> ?src) s1 = Inr (saw', s')"
      using 2(3) n False by (auto simp: bindE_eq_Inr Let_def split del: if_split)
    have "spawned saw (saw \<or> ?src) (snd s) (snd s1)" "grown s s1"
      using sp False spawn_spawned spawn_grown by (metis (no_types, lifting))+
    then show ?thesis using 2(2)[OF n refl False rest] spawned_trans grown_trans by blast
  qed
qed

lemma succ_outputs_spawned:
  assumes "succ_outputs uc e n outs saw s = Inr s'"
  shows "\<exists>saw'. spawned saw saw' (snd s) (snd s') \<and> grown s s'"
  using assms
proof (induction outs arbitrary: saw s)
  case Nil
  then show ?case using spawned_refl grown_refl by (cases s) auto
next
  case (Cons out outs)
  obtain evs w where s: "s = (evs, w)" by (cases s)
  obtain cs nd saw1 s1 where g: "node_get_successors (uc_cond uc) n out 0 (fw_nodes w n) = Inr (cs, nd)"
    and c: "succ_cases uc e out cs saw (evs, set_node n nd w) = Inr (saw1, s1)"
    and r: "succ_outputs uc e n outs saw1 s1 = Inr s'"
    using Cons.prems by (auto simp: s bindE_eq_Inr)
  have "nd = fw_nodes w n" using g by (auto simp: node_get_successors_def split: option.splits)
  then have "set_node n nd w = w" by (simp add: set_node_def)
  then have "spawned saw saw1 (snd s) (snd s1)" "grown s s1"
    using succ_cases_spawned[OF c] by (simp_all add: s)
  then show ?case using Cons.IH[OF r] spawned_trans grown_trans by blast
qed

text \<open>C7: The successors of an event that ran without error: however many outputs it produced, at most one new
  event of a source node is created; existing events are untouched, and the events ready to run are
  new ones, appended in the order of their creation.\<close>

theorem successors_one_source:
  assumes "successors_on_no_error uc e (evs, w) = Inr (evs', w')"
  shows "(\<forall>e<ew_next w. ew_events w' e = ew_events w e) \<and>
    (\<forall>e1 e2. e1 \<in> sources_of w' \<and> e2 \<in> sources_of w' \<and> {e1, e2} \<subseteq> {ew_next w..<ew_next w'} \<longrightarrow> e1 = e2) \<and>
    (\<exists>xs. evs' = evs @ xs \<and> sorted_wrt (<) xs \<and> set xs \<subseteq> {ew_next w..<ew_next w'})"
proof -
  obtain n outs where "succ_outputs uc e n outs False (evs, w) = Inr (evs', w')"
    using assms by (auto simp: successors_on_no_error_def bindE_eq_Inr)
  from succ_outputs_spawned[OF this] obtain saw' where sp: "spawned False saw' w w'" and g: "grown (evs, w) (evs', w')" by auto
  have "e1 = e2" if "e1 \<in> sources_of w'" "e2 \<in> sources_of w'" "{e1, e2} \<subseteq> {ew_next w..<ew_next w'}" for e1 e2
    using sp that unfolding spawned_def by (auto simp: Ball_def)
  then show ?thesis using sp g unfolding spawned_def grown_def by auto
qed

section \<open>Initials and sources\<close>

text \<open>Both loops are instances of one, which picks the nodes whose answer is \<open>sel\<close>.\<close>

fun push_if :: "bool \<Rightarrow> ('k::linorder, 'd) ucode \<Rightarrow> nat list \<Rightarrow> nat list \<times> ('k, 'd, 'z) eworld_scheme \<Rightarrow>
    (nat list \<times> ('k, 'd, 'z) eworld_scheme) result" where
  "push_if sel uc [] s = Inr s"
| "push_if sel uc (n # ns) s = (case s of (evs, w) \<Rightarrow>
     bindE (check_initial n w) (\<lambda>(initial, w1).
     bindE (if initial = sel
            then bindE (event_create uc None None n w1) (\<lambda>(e, w2).
                 bindE (acquire_guards uc e None w2) (\<lambda>(res, w3). Inr (if res then evs @ [e] else evs, w3)))
            else Inr (evs, w1))
       (push_if sel uc ns)))"

lemma push_if_eqs: "push_initials uc ns = push_if True uc ns" "push_sources uc ns = push_if False uc ns"
proof -
  show "push_initials uc ns = push_if True uc ns"
  proof (induction ns)
    case (Cons n ns)
    show ?case by (rule ext) (simp add: Cons.IH)
  qed (simp add: fun_eq_iff)
  show "push_sources uc ns = push_if False uc ns"
  proof (induction ns)
    case (Cons n ns)
    show ?case by (rule ext) (simp add: Cons.IH)
  qed (simp add: fun_eq_iff)
qed

definition src_ok :: "('k, 'd, 'z) eworld_scheme \<Rightarrow> nat \<Rightarrow> bool" where
  "src_ok w n \<longleftrightarrow> fn_is_source (fw_nodes w n) \<and> fn_succ (fw_nodes w n) \<noteq> None \<and> initial_ok n (fw_nodes w n)"

definition is_initial :: "('k, 'd, 'z) eworld_scheme \<Rightarrow> nat \<Rightarrow> bool" where
  "is_initial w n \<longleftrightarrow> \<not> has_successor_with_target (Some n) (the (fn_succ (fw_nodes w n)))"

definition node_of :: "('k, 'd, 'z) eworld_scheme \<Rightarrow> nat \<Rightarrow> nat" where
  "node_of w e = (case ew_events w e of Some ev \<Rightarrow> ev_node ev | None \<Rightarrow> 0)"

definition same_graph :: "('k, 'd, 'z) eworld_scheme \<Rightarrow> ('k, 'd, 'z) eworld_scheme \<Rightarrow> bool" where
  "same_graph w w' \<longleftrightarrow> (\<forall>n. fn_succ (fw_nodes w' n) = fn_succ (fw_nodes w n) \<and>
     fn_is_source (fw_nodes w' n) = fn_is_source (fw_nodes w n) \<and>
     (initial_ok n (fw_nodes w n) \<longrightarrow> initial_ok n (fw_nodes w' n)))"

lemma same_graph_trans: "same_graph w1 w2 \<Longrightarrow> same_graph w2 w3 \<Longrightarrow> same_graph w1 w3"
  by (simp add: same_graph_def)

lemma same_graph_src: "same_graph w w' \<Longrightarrow> src_ok w n \<Longrightarrow> src_ok w' n" "same_graph w w' \<Longrightarrow> is_initial w' = is_initial w"
  by (auto simp: same_graph_def src_ok_def is_initial_def fun_eq_iff)

lemma check_initial_spec:
  assumes "src_ok w n" "check_initial n w = Inr (b, w1)"
  shows "b = is_initial w n \<and> same_graph w w1 \<and> ew_next w1 = ew_next w \<and> ew_events w1 = ew_events w"
proof -
  obtain sl where sl: "fn_succ (fw_nodes w n) = Some sl" using assms(1) by (auto simp: src_ok_def)
  from node_getIsInitial_spec[of n "fw_nodes w n" sl] assms sl show ?thesis
    by (auto simp: check_initial_def src_ok_def is_initial_def same_graph_def split: if_splits)
qed

text \<open>One loop: one event per picked node, in order; the others leave the events alone.\<close>

definition pushed :: "nat list \<Rightarrow> nat list \<times> ('k, 'd, 'z) eworld_scheme \<Rightarrow> nat list \<times> ('k, 'd, 'z) eworld_scheme \<Rightarrow> bool" where
  "pushed ns s s' \<longleftrightarrow> same_graph (snd s) (snd s') \<and> ew_next (snd s') = ew_next (snd s) + length ns \<and>
     (\<forall>e<ew_next (snd s). ew_events (snd s') e = ew_events (snd s) e) \<and>
     map (node_of (snd s')) [ew_next (snd s)..<ew_next (snd s')] = ns \<and> grown s s'"

lemma pushed_refl: "same_graph (snd s) (snd s') \<Longrightarrow> ew_next (snd s') = ew_next (snd s) \<Longrightarrow>
    ew_events (snd s') = ew_events (snd s) \<Longrightarrow> fst s' = fst s \<Longrightarrow> pushed [] s s'"
  by (simp add: pushed_def grown_def)

lemma pushed_trans:
  assumes "pushed ns s1 s2" "pushed ms s2 s3"
  shows "pushed (ns @ ms) s1 s3"
proof -
  have le: "ew_next (snd s1) \<le> ew_next (snd s2)" "ew_next (snd s2) \<le> ew_next (snd s3)"
    using assms by (simp_all add: pushed_def)
  have ev: "\<forall>e<ew_next (snd s2). ew_events (snd s3) e = ew_events (snd s2) e" using assms(2) by (simp add: pushed_def)
  then have "map (node_of (snd s3)) [ew_next (snd s1)..<ew_next (snd s2)] = map (node_of (snd s2)) [ew_next (snd s1)..<ew_next (snd s2)]"
    by (simp add: node_of_def)
  moreover have "[ew_next (snd s1)..<ew_next (snd s3)] = [ew_next (snd s1)..<ew_next (snd s2)] @ [ew_next (snd s2)..<ew_next (snd s3)]"
    using le by (metis le_Suc_ex upt_add_eq_append)
  moreover have "map (node_of (snd s2)) [ew_next (snd s1)..<ew_next (snd s2)] = ns"
    "map (node_of (snd s3)) [ew_next (snd s2)..<ew_next (snd s3)] = ms"
    using assms unfolding pushed_def by blast+
  ultimately have m: "map (node_of (snd s3)) [ew_next (snd s1)..<ew_next (snd s3)] = ns @ ms"
    by (metis map_append)
  have "\<forall>e<ew_next (snd s1). ew_events (snd s3) e = ew_events (snd s1) e"
    using assms le(1) by (simp add: pushed_def)
  moreover have "same_graph (snd s1) (snd s3)" "grown s1 s3"
    using assms grown_trans same_graph_trans unfolding pushed_def by blast+
  moreover have "ew_next (snd s3) = ew_next (snd s1) + length (ns @ ms)" using assms by (simp add: pushed_def)
  ultimately show ?thesis using m unfolding pushed_def by blast
qed

lemma create_acquire_pushed:
  assumes "event_create uc None None n w = Inr (e, w2)" "acquire_guards uc e None w2 = Inr (res, w3)"
  shows "pushed [n] (evs, w) (if res then evs @ [e] else evs, w3)"
proof -
  note f = spawn_acquired[OF assms]
  have "same_graph w w3" using f by (simp add: same_graph_def initial_ok_def)
  then show ?thesis using f by (simp add: pushed_def node_of_def grown_def)
qed

lemma push_if_pushed:
  assumes "push_if sel uc ns s = Inr s'" "\<forall>n\<in>set ns. src_ok (snd s) n"
  shows "pushed (filter (\<lambda>n. is_initial (snd s) n = sel) ns) s s'"
  using assms
proof (induction ns arbitrary: s)
  case Nil
  then show ?case by (simp add: pushed_refl same_graph_def)
next
  case (Cons n ns)
  obtain evs w where s: "s = (evs, w)" by (cases s)
  obtain b w1 s2 where c: "check_initial n w = Inr (b, w1)"
    and st: "(if b = sel then bindE (event_create uc None None n w1) (\<lambda>(e, w2).
                 bindE (acquire_guards uc e None w2) (\<lambda>(res, w3). Inr (if res then evs @ [e] else evs, w3)))
            else Inr (evs, w1)) = Inr s2"
    and rest: "push_if sel uc ns s2 = Inr s'"
    using Cons.prems(1) by (auto simp: s bindE_eq_Inr split del: if_split)
  have "src_ok w n" using Cons.prems(2) by (simp add: s)
  note ci = check_initial_spec[OF this c]
  have p1: "pushed [] s (evs, w1)" using ci by (simp add: s pushed_refl)
  have p2: "pushed (if b = sel then [n] else []) (evs, w1) s2"
  proof (cases "b = sel")
    case True
    then have "bindE (event_create uc None None n w1) (\<lambda>(e, w2).
        bindE (acquire_guards uc e None w2) (\<lambda>(res, w3). Inr (if res then evs @ [e] else evs, w3))) = Inr s2"
      using st by simp
    then obtain e w2 where c2: "event_create uc None None n w1 = Inr (e, w2)"
      and a: "bindE (acquire_guards uc e None w2) (\<lambda>(res, w3). Inr (if res then evs @ [e] else evs, w3)) = Inr s2"
      by (auto elim: bindE_InrE)
    then obtain res w3 where a2: "acquire_guards uc e None w2 = Inr (res, w3)" "s2 = (if res then evs @ [e] else evs, w3)"
      by (auto elim: bindE_InrE)
    show ?thesis using True create_acquire_pushed[OF c2 a2(1)] a2(2) by simp
  next
    case False
    then show ?thesis using st by (simp add: pushed_refl same_graph_def)
  qed
  have p12: "pushed (if b = sel then [n] else []) s s2" using pushed_trans[OF p1 p2] by simp
  then have sg: "same_graph w (snd s2)" by (simp add: pushed_def s)
  have "\<forall>m\<in>set ns. src_ok (snd s2) m" using Cons.prems(2) same_graph_src(1)[OF sg] by (simp add: s)
  from Cons.IH[OF rest this] have "pushed (filter (\<lambda>n. is_initial w n = sel) ns) s2 s'"
    using same_graph_src(2)[OF sg] by simp
  from pushed_trans[OF p12 this] show ?case using ci by (simp add: s split: if_splits)
qed

text \<open>C8: Starting a flow creates exactly one event for every source node, those of the initial nodes (sources
  that do not feed themselves) first; the ready ones are queued sources first, initials last, or
  initials first when the caller's queue is a stack.\<close>

theorem push_initials_and_sources_order:
  assumes "push_initials_and_sources uc fl lifo (vec, w) = Inr (vec', w')" and "\<forall>n\<in>set (fl_sources fl). src_ok w n"
  shows "let ini = filter (is_initial w) (fl_sources fl); src = filter (\<lambda>n. \<not> is_initial w n) (fl_sources fl);
      a = ew_next w; b = a + length ini; c = b + length src
    in ew_next w' = c \<and> map (node_of w') [a..<b] = ini \<and> map (node_of w') [b..<c] = src \<and>
      (\<exists>xs ys. set xs \<subseteq> {a..<b} \<and> set ys \<subseteq> {b..<c} \<and> sorted_wrt (<) xs \<and> sorted_wrt (<) ys \<and>
        vec' = (if lifo then vec @ xs @ ys else vec @ ys @ xs))"
proof -
  let ?ini = "filter (\<lambda>n. is_initial w n = True) (fl_sources fl)" and ?src = "filter (\<lambda>n. is_initial w n = False) (fl_sources fl)"
  obtain v0 v1 v2 w1 where i: "push_if True uc (fl_sources fl) (v0, w) = Inr (v1, w1)"
    and v0: "v0 = (if lifo then vec else [])"
    and p: "push_if False uc (fl_sources fl) (if lifo then v1 else vec, w1) = Inr (v2, w')"
    and v': "vec' = (if lifo then v2 else v2 @ v1)"
    using assms(1) by (auto simp: push_initials_and_sources_def push_if_eqs bindE_eq_Inr split: if_splits)
  have pi: "pushed ?ini (v0, w) (v1, w1)" using push_if_pushed[OF i] assms(2) by simp
  then have sg: "same_graph w w1" by (simp add: pushed_def)
  have "\<forall>n\<in>set (fl_sources fl). src_ok w1 n" using assms(2) same_graph_src(1)[OF sg] by blast
  then have ps: "pushed ?src (if lifo then v1 else vec, w1) (v2, w')"
    using push_if_pushed[OF p] same_graph_src(2)[OF sg] by simp
  obtain xs where xs: "v1 = v0 @ xs" "sorted_wrt (<) xs" "set xs \<subseteq> {ew_next w..<ew_next w1}"
    using pi unfolding pushed_def grown_def by auto
  obtain ys where ys: "v2 = (if lifo then v1 else vec) @ ys" "sorted_wrt (<) ys" "set ys \<subseteq> {ew_next w1..<ew_next w'}"
    using ps unfolding pushed_def grown_def by auto
  have n1: "ew_next w1 = ew_next w + length ?ini" using pi by (simp add: pushed_def)
  have n2: "ew_next w' = ew_next w1 + length ?src" using ps by (simp add: pushed_def)
  have m2: "map (node_of w') [ew_next w1..<ew_next w'] = ?src" using ps unfolding pushed_def snd_conv by blast
  have "map (node_of w') [ew_next w..<ew_next w1] = map (node_of w1) [ew_next w..<ew_next w1]"
    using ps by (simp add: pushed_def node_of_def)
  also have "\<dots> = ?ini" using pi unfolding pushed_def snd_conv by blast
  finally have m1: "map (node_of w') [ew_next w..<ew_next w1] = ?ini" .
  have "vec' = (if lifo then vec @ xs @ ys else vec @ ys @ xs)" using v' ys(1) xs(1) v0 by simp
  then show ?thesis using n1 n2 m1 m2 xs(2,3) ys(2,3) unfolding Let_def by auto
qed

section \<open>An example\<close>

text \<open>Nodes without guards: creation and acquisition succeed at once.\<close>

lemma create_no_guards:
  assumes "fn_guards (fw_nodes w n) = []"
  shows "event_create uc pred input n w = Inr (ew_next w, set_ah (ew_next w) (ah_new (fn_csorted (fw_nodes w n)))
     (set_event (ew_next w) \<lparr> ev_node = n, ev_pred = pred, ev_error_code = 0, ev_input = input, ev_outputs = [uc_output uc] \<rparr>
       ((node_incr_instances n w)\<lparr> ew_next := ew_next w + 1 \<rparr>)))"
  using assms by (simp add: event_create_def event_base_ctor_def Let_def)

lemma ah_number_new [simp]: "ah_number (ah_new b) = 0"
  by (simp add: ah_number_def ah_new_def)

lemma acquire_no_guards:
  assumes "ew_events w e = Some ev" "w_ah w e = ah_new b" "pred = None \<or> (\<exists>p. pred = Some p \<and> ah_number (w_ah w p) = 0 \<and> p \<noteq> e)"
  shows "acquire_guards uc e pred w = Inr (True, set_ah e ((ah_new b)\<lparr> ah_sorted := [], ah_keyed := True \<rparr>) w)"
proof -
  have "get_keys_sort (uc_trans uc) (uc_key uc) ni e w = Inr (True, set_ah e ((ah_new b)\<lparr> ah_sorted := [], ah_keyed := True \<rparr>) w)" for ni
    using assms(2) by (simp add: get_keys_sort_def ah_number_def ah_new_def qsort_def Let_def)
  then show ?thesis using assms
    by (auto simp: acquire_guards_def event_of_def acquire_all_or_wait_def ah_new_def ah_number_def)
qed

definition ex_enode :: "nat \<Rightarrow> fnode" where
  "ex_enode n = (if n = 2 then (ex_node 2 ''S'' True [ex_case 6 3 ''A''])\<lparr> fn_guards := [] \<rparr>
     else (ex_node n ''A'' False [])\<lparr> fn_guards := [] \<rparr>)"

definition ex_uc :: "(nat, nat) ucode" where
  "ex_uc = \<lparr> uc_node = \<lambda>_ _ _ _. (0, [7, 8]), uc_cond = \<lambda>_ _. True, uc_conv = \<lambda>_ d. d,
     uc_trans = \<lambda>_ _ _. TSkip, uc_output = 0, uc_key = 0 \<rparr>"

definition ex_eworld :: "(nat, nat) eworld" where
  "ex_eworld = \<lparr> gw_atoms = \<lambda>_. None, gw_guards = \<lambda>_. \<lparr> g_magic = 0, g_map = GTrivial 0, g_is_gc = False \<rparr>,
     gw_next = 0, w_ah = \<lambda>_. ah_new False, fw_nodes = ex_enode, fw_gname = \<lambda>_. [], fw_last_id = 0,
     ew_events = (\<lambda>_. None)(5 := Some \<lparr> ev_node = 2, ev_pred = None, ev_error_code = 0, ev_input = None, ev_outputs = [7, 8] \<rparr>),
     ew_next = 6 \<rparr>"

lemma ex_enode_simps:
  "fn_guards (ex_enode n) = []" "fn_is_source (ex_enode n) \<longleftrightarrow> n = 2" "fn_is_initial (ex_enode n) = -1"
  "fn_succ (ex_enode 2) = Some [(''0'', \<lparr> su_ptr = 5, su_name = ''0'', su_cases = [ex_case 6 3 ''A''] \<rparr>)]"
  by (simp_all add: ex_enode_def ex_node_def node_new_def set_node_def)

lemma push_initials_and_sources_order_witness:
  "\<exists>w'. push_initials_and_sources ex_uc ((flow_new ''f'')\<lparr> fl_sources := [2] \<rparr>) False ([], ex_eworld) = Inr ([6], w') \<and>
     map (node_of w') [6..<7] = [2]"
proof -
  let ?fl = "(flow_new ''f'')\<lparr> fl_sources := [2] \<rparr>"
  have ok: "\<forall>n\<in>set (fl_sources ?fl). src_ok ex_eworld n"
    by (simp add: src_ok_def ex_eworld_def ex_enode_simps initial_ok_def)
  have ini: "is_initial ex_eworld 2"
    by (simp add: is_initial_def ex_eworld_def ex_enode_simps getByTargetNode_def ex_case_def case_new_def)
  obtain w' where r: "push_initials_and_sources ex_uc ?fl False ([], ex_eworld) = Inr ([6], w')"
    by (auto simp: push_initials_and_sources_def check_initial_def node_getIsInitial_def ex_eworld_def ex_enode_simps
      getByTargetNode_def ex_case_def case_new_def create_no_guards acquire_no_guards set_node_def set_event_def set_ah_def node_incr_instances_def)
  from push_initials_and_sources_order[OF r ok] ini r show ?thesis
    by (auto simp: Let_def ex_eworld_def)
qed

lemma successors_one_source_witness:
  "\<exists>evs' w'. successors_on_no_error ex_uc 5 ([], ex_eworld) = Inr (evs', w') \<and> ew_events w' 5 = ew_events ex_eworld 5"
proof -
  obtain evs' w' where r: "successors_on_no_error ex_uc 5 ([], ex_eworld) = Inr (evs', w')"
    by (auto simp: successors_on_no_error_def event_of_def ex_eworld_def node_get_successors_def ex_enode_simps
      successor_get_def ex_case_def case_new_def case_satisfied_def spawn_def create_no_guards acquire_no_guards
      set_node_def set_event_def set_ah_def node_incr_instances_def io_convert_def event_set_error_code_def)
  have "5 < ew_next ex_eworld" by (simp add: ex_eworld_def)
  with successors_one_source[OF r] r show ?thesis by blast
qed

end
