(* ===== verification/EventFrames.thy ===== *)
theory EventFrames
  imports EventOps
begin

text \<open>
  The operations on events and flows leave the part of the world that belongs to a runtime alone,
  whichever runtime it is: the fields behind those of the event world do not change.
\<close>

lemma world_more_emore: "world.more w1 = world.more w \<Longrightarrow> eworld.more w1 = eworld.more w"
  by (cases w; cases w1) simp

lemma emore_simps [simp]:
  "eworld.more (set_node n nd w) = eworld.more w" "eworld.more (set_event e ev w) = eworld.more w" "eworld.more (set_ah e h w) = eworld.more w"
  "eworld.more (node_incr_instances n w) = eworld.more w" "eworld.more (set_magic mn w) = eworld.more w"
  by (simp_all add: set_node_def set_event_def set_ah_def node_incr_instances_def set_magic_def)

named_theorems emore_frames "operations that leave the state of the runtime alone"

lemma event_create_emore [emore_frames]: "event_create uc pred input n w = Inr (e, w1) \<Longrightarrow> eworld.more w1 = eworld.more w"
  by (auto simp: event_create_def event_base_ctor_def Let_def bindE_eq_Inr node_incr_instances_def set_node_def
      set_event_def set_ah_def)

lemma error_code_emore [emore_frames]: "event_set_error_code e ec w = Inr w1 \<Longrightarrow> eworld.more w1 = eworld.more w"
  by (auto simp: event_set_error_code_def bindE_eq_Inr)

lemma event_execute_emore [emore_frames]: "event_execute uc e w = Inr (rc, w1) \<Longrightarrow> eworld.more w1 = eworld.more w"
proof -
  assume a: "event_execute uc e w = Inr (rc, w1)"
  then obtain ev where ev: "event_of e w = Inr ev" by (auto simp: event_execute_def bindE_eq_Inr)
  obtain rc1 outs where u: "uc_node uc (fn_createfn (fw_nodes w (ev_node ev))) (ev_input ev) (ev_error_code ev)
      (getDataLexical (w_ah w e) w) = (rc1, outs)" by fastforce
  define w2 where "w2 = set_event e (ev\<lparr> ev_outputs := outs \<rparr>) (set_node (ev_node ev)
      ((fw_nodes w (ev_node ev))\<lparr> fn_executions := fn_executions (fw_nodes w (ev_node ev)) + 1 \<rparr>) w)"
  have "(if rc1 = 0 then event_release e w2 else Inr w2) = Inr w1"
    using a unfolding w2_def by (auto simp: event_execute_def ev u Let_def bindE_eq_Inr simp del: set_node_simps set_event_simps split: if_splits)
  moreover have "eworld.more w2 = eworld.more w" by (simp add: w2_def)
  ultimately show ?thesis by (auto simp: event_release_def bindE_eq_Inr split: if_splits)
qed

lemma acquire_guards_emore [emore_frames]: "acquire_guards uc e pred w = Inr (b, w1) \<Longrightarrow> eworld.more w1 = eworld.more w"
  by (auto simp: acquire_guards_def bindE_eq_Inr dest!: acquire_more world_more_emore)

lemma release_emore [emore_frames]: "ah_release e w = Inr (rels, w1) \<Longrightarrow> eworld.more w1 = eworld.more w"
  by (auto dest!: release_more world_more_emore)

lemma spawn_emore [emore_frames]:
  assumes "spawn uc pred input n ec pe s = Inr s'"
  shows "eworld.more (snd s') = eworld.more (snd s)"
proof -
  obtain evs w where s: "s = (evs, w)" by (cases s)
  obtain e w1 w2 res w3 where "event_create uc pred input n w = Inr (e, w1)"
    "event_set_error_code e ec w1 = Inr w2" "acquire_guards uc e pe w2 = Inr (res, w3)" "snd s' = w3"
    using assms by (auto simp: s spawn_def bindE_eq_Inr)
  then show ?thesis using emore_frames by (metis s snd_conv)
qed

lemma succ_cases_emore: "succ_cases uc e out cs saw s = Inr (saw', s') \<Longrightarrow> eworld.more (snd s') = eworld.more (snd s)"
proof (induction uc e out cs saw s rule: succ_cases.induct)
  case (2 uc e out c cs saw s)
  obtain n where n: "fc_target c = Some n" using 2(3) by (cases "fc_target c") auto
  show ?case
  proof (cases "fn_is_source (fw_nodes (snd s) n) \<and> saw")
    case True
    then show ?thesis using 2(1)[OF n refl True] 2(3) n by simp
  next
    case False
    let ?src = "fn_is_source (fw_nodes (snd s) n)"
    obtain s1 where sp: "(if ?src then spawn uc None None n 0 None s
        else spawn uc (Some e) (io_convert (uc_conv uc) id (fc_converter c) out) n 0 (Some e) s) = Inr s1"
      and rest: "succ_cases uc e out cs (saw \<or> ?src) s1 = Inr (saw', s')"
      using 2(3) n False by (auto simp: bindE_eq_Inr Let_def split del: if_split)
    have "eworld.more (snd s1) = eworld.more (snd s)" using sp spawn_emore by (metis (no_types, lifting))
    then show ?thesis using 2(2)[OF n refl False rest] by simp
  qed
qed simp

lemma succ_outputs_emore: "succ_outputs uc e n outs saw s = Inr s' \<Longrightarrow> eworld.more (snd s') = eworld.more (snd s)"
proof (induction outs arbitrary: saw s)
  case Nil
  then show ?case by (cases s) simp
next
  case (Cons out outs)
  obtain evs w where s: "s = (evs, w)" by (cases s)
  obtain cs nd saw1 s1 where "succ_cases uc e out cs saw (evs, set_node n nd w) = Inr (saw1, s1)"
    "succ_outputs uc e n outs saw1 s1 = Inr s'"
    using Cons.prems by (auto simp: s bindE_eq_Inr)
  then show ?case using Cons.IH succ_cases_emore by (fastforce simp: s)
qed

lemma no_error_emore [emore_frames]: "successors_on_no_error uc e s = Inr s' \<Longrightarrow> eworld.more (snd s') = eworld.more (snd s)"
  by (auto simp: successors_on_no_error_def bindE_eq_Inr dest: succ_outputs_emore)

lemma error_cases_emore: "error_cases uc e rc cs s = Inr s' \<Longrightarrow> eworld.more (snd s') = eworld.more (snd s)"
proof (induction cs arbitrary: s)
  case (Cons c cs)
  obtain n where n: "fc_target c = Some n" using Cons.prems by (cases "fc_target c") auto
  obtain ev s1 where "event_of e (snd s) = Inr ev"
    and sp: "(if fn_is_source (fw_nodes (snd s) (ev_node ev)) then spawn uc None None n rc (Some e) s
       else spawn uc (ev_pred ev)
         (case ev_input ev of None \<Rightarrow> None | Some i \<Rightarrow> io_convert (uc_conv uc) id (fc_converter c) i) n rc (Some e) s) = Inr s1"
    and rest: "error_cases uc e rc cs s1 = Inr s'"
    using Cons.prems n by (auto simp: bindE_eq_Inr split del: if_split)
  have "eworld.more (snd s1) = eworld.more (snd s)" using sp spawn_emore by (metis (no_types, lifting))
  then show ?case using Cons.IH[OF rest] by simp
qed simp

lemma on_error_emore [emore_frames]: "successors_on_error uc e rc s = Inr s' \<Longrightarrow> eworld.more (snd s') = eworld.more (snd s)"
  by (cases s) (auto simp: successors_on_error_def bindE_eq_Inr Let_def dest!: error_cases_emore)

lemma reacquire_emore [emore_frames]: "reacquire uc es s = Inr s' \<Longrightarrow> eworld.more (snd s') = eworld.more (snd s)"
proof (induction es arbitrary: s)
  case (Cons e es)
  obtain evs w where s: "s = (evs, w)" by (cases s)
  obtain res w1 where "acquire_guards uc e None w = Inr (res, w1)"
    "reacquire uc es (if res then evs @ [e] else evs, w1) = Inr s'"
    using Cons.prems by (auto simp: s bindE_eq_Inr)
  then show ?case using Cons.IH acquire_guards_emore by (fastforce simp: s)
qed simp

lemma push_if_emore: "push_if sel uc ns s = Inr s' \<Longrightarrow> eworld.more (snd s') = eworld.more (snd s)"
proof (induction ns arbitrary: s)
  case (Cons n ns)
  obtain evs w where s: "s = (evs, w)" by (cases s)
  obtain b w1 s2 where c: "check_initial n w = Inr (b, w1)"
    and st: "(if b = sel then bindE (event_create uc None None n w1) (\<lambda>(e, w2).
                 bindE (acquire_guards uc e None w2) (\<lambda>(res, w3). Inr (if res then evs @ [e] else evs, w3)))
            else Inr (evs, w1)) = Inr s2"
    and rest: "push_if sel uc ns s2 = Inr s'"
    using Cons.prems(1) by (auto simp: s bindE_eq_Inr split del: if_split)
  have "eworld.more w1 = eworld.more w" using c by (auto simp: check_initial_def bindE_eq_Inr)
  moreover have "eworld.more (snd s2) = eworld.more w1" using st
    by (cases "b = sel") (auto elim!: bindE_InrE dest!: event_create_emore acquire_guards_emore)
  ultimately show ?case using Cons.IH[OF rest] by (simp add: s)
qed simp

lemma push_initials_emore [emore_frames]: "push_initials_and_sources uc fl lifo s = Inr s' \<Longrightarrow> eworld.more (snd s') = eworld.more (snd s)"
proof -
  assume a: "push_initials_and_sources uc fl lifo s = Inr s'"
  obtain vec w where s: "s = (vec, w)" by (cases s)
  obtain v0 v1 v2 w1 w2 where "push_if True uc (fl_sources fl) (v0, w) = Inr (v1, w1)"
    "push_if False uc (fl_sources fl) (if lifo then v1 else vec, w1) = Inr (v2, w2)" "snd s' = w2"
    using a by (cases s') (auto simp: s push_initials_and_sources_def push_if_eqs bindE_eq_Inr split: if_splits)
  then show ?thesis using push_if_emore by (metis s snd_conv)
qed

lemma fold_node_emore: "eworld.more (fold (\<lambda>p w. set_node (g p) (f p w) w) ps w) = eworld.more w"
  by (induction ps arbitrary: w) simp_all

lemma assign_emore [emore_frames]: "assignMagicNumbers fl w = Inr (fl1, w1) \<Longrightarrow> eworld.more w1 = eworld.more w"
  by (auto simp: assignMagicNumbers_def Let_def bindE_eq_Inr case_prod_unfold fold_node_emore)

lemma turn_off_emore [emore_frames]: "eworld.more (snd (flow_turn_off_sources fl w)) = eworld.more w"
  by (simp add: flow_turn_off_sources_def fold_node_emore)

end
