(* ===== verification/EventQueue.thy ===== *)
theory EventQueue
  imports Prelude
begin

text \<open>
  runtime/OFluxQueue.cpp: the run queue of the classic runtime, a deque of events whose front is
  popped.  The elements (event pointers) are the type variable \<open>'e\<close>.
\<close>

record 'e equeue =
  eq_q :: "'e list"

definition eq_new :: "'e equeue" where
  "eq_new = \<lparr> eq_q = [] \<rparr>"

definition eq_push :: "'e \<Rightarrow> 'e equeue \<Rightarrow> 'e equeue" where
  "eq_push e q = q\<lparr> eq_q := eq_q q @ [e] \<rparr>"

definition eq_push_priority :: "'e \<Rightarrow> 'e equeue \<Rightarrow> 'e equeue" where
  "eq_push_priority e q = q\<lparr> eq_q := e # eq_q q \<rparr>"

text \<open>The index loops of \<open>push_list\<close> (upwards) and \<open>push_list_priority\<close> (downwards).\<close>

function eq_push_list_from :: "'e list \<Rightarrow> nat \<Rightarrow> 'e equeue \<Rightarrow> 'e equeue" where
  "eq_push_list_from vec i q =
     (if i < length vec then eq_push_list_from vec (Suc i) (eq_push (vec ! i) q) else q)"
  by pat_completeness auto
termination by (relation "measure (\<lambda>(vec, i, q). length vec - i)") auto

declare eq_push_list_from.simps [simp del]

definition eq_push_list :: "'e list \<Rightarrow> 'e equeue \<Rightarrow> 'e equeue" where
  "eq_push_list vec q = eq_push_list_from vec 0 q"

fun eq_push_list_priority_upto :: "'e list \<Rightarrow> nat \<Rightarrow> 'e equeue \<Rightarrow> 'e equeue" where
  "eq_push_list_priority_upto vec 0 q = q"
| "eq_push_list_priority_upto vec (Suc i) q =
     eq_push_list_priority_upto vec i (eq_push_priority (vec ! i) q)"

definition eq_push_list_priority :: "'e list \<Rightarrow> 'e equeue \<Rightarrow> 'e equeue" where
  "eq_push_list_priority vec q = eq_push_list_priority_upto vec (length vec) q"

definition eq_pop :: "'e equeue \<Rightarrow> ('e \<times> 'e equeue) option" where
  "eq_pop q = (case eq_q q of [] \<Rightarrow> None | e # es \<Rightarrow> Some (e, q\<lparr> eq_q := es \<rparr>))"

text \<open>\<open>log_snapshot\<close> walks at most the size read at the start; its effect is the list of events
  logged.\<close>

fun eq_snapshot_walk :: "'e list \<Rightarrow> nat \<Rightarrow> 'e list" where
  "eq_snapshot_walk [] sz = []"
| "eq_snapshot_walk (e # es) sz = (if sz > 0 then e # eq_snapshot_walk es (sz - 1) else [])"

definition eq_log_snapshot :: "'e equeue \<Rightarrow> 'e list" where
  "eq_log_snapshot q = eq_snapshot_walk (eq_q q) (length (eq_q q))"

section \<open>The queue interface\<close>

text \<open>What the runtime relies on: pushes go to the two ends of the sequence the queue stands for
  and pop takes its front.\<close>

fun pops :: "('q \<Rightarrow> ('e \<times> 'q) option) \<Rightarrow> nat \<Rightarrow> 'q \<Rightarrow> 'e list \<times> 'q" where
  "pops pop 0 q = ([], q)"
| "pops pop (Suc n) q = (case pop q of None \<Rightarrow> ([], q)
     | Some (e, q') \<Rightarrow> (case pops pop n q' of (es, q'') \<Rightarrow> (e # es, q'')))"

locale run_queue =
  fixes empty :: 'q and push push_front :: "'e \<Rightarrow> 'q \<Rightarrow> 'q" and pop :: "'q \<Rightarrow> ('e \<times> 'q) option"
    and contents :: "'q \<Rightarrow> 'e list"
  assumes contents_empty: "contents empty = []"
    and contents_push: "contents (push e q) = contents q @ [e]"
    and contents_push_front: "contents (push_front e q) = e # contents q"
    and pop_None: "pop q = None \<longleftrightarrow> contents q = []"
    and pop_Some: "pop q = Some (e, q') \<Longrightarrow> contents q = e # contents q'"
begin

lemma pops_take: "fst (pops pop n q) = take n (contents q) \<and> contents (snd (pops pop n q)) = drop n (contents q)"
proof (induction n arbitrary: q)
  case (Suc n)
  show ?case
  proof (cases "pop q")
    case None
    then show ?thesis using pop_None[of q] by simp
  next
    case (Some p)
    then obtain e q' where p: "pop q = Some (e, q')" by (cases p) auto
    obtain es q'' where "pops pop n q' = (es, q'')" by (cases "pops pop n q'")
    then show ?thesis using Suc[of q'] pop_Some[OF p] p by simp
  qed
qed simp

lemma fold_push: "contents (fold push vec q) = contents q @ vec"
  by (induction vec arbitrary: q) (auto simp: contents_push)

lemma foldr_push_front: "contents (foldr push_front vec q) = vec @ contents q"
  by (induction vec) (auto simp: contents_push_front)

lemma pushed_order:
  "fst (pops pop (length (contents q) + length vec) (fold push vec q)) = contents q @ vec"
  using pops_take[of "length (contents q) + length vec" "fold push vec q"]
  by (simp add: fold_push)

end

interpretation rq: run_queue eq_new eq_push eq_push_priority eq_pop eq_q
  by unfold_locales (auto simp: eq_new_def eq_push_def eq_push_priority_def eq_pop_def split: list.splits)

lemma eq_push_list_from_fold: "eq_push_list_from vec i q = fold eq_push (drop i vec) q"
proof (induction "length vec - i" arbitrary: i q)
  case 0
  then show ?case by (subst eq_push_list_from.simps) simp
next
  case (Suc n)
  then have "i < length vec" by simp
  then show ?case using Suc(1)[of "Suc i" "eq_push (vec ! i) q"] Suc(2)
    by (subst eq_push_list_from.simps) (simp add: Cons_nth_drop_Suc[symmetric])
qed

lemma eq_push_list_fold: "eq_push_list vec q = fold eq_push vec q"
  by (simp add: eq_push_list_def eq_push_list_from_fold)

lemma eq_push_list_priority_upto_foldr:
  "n \<le> length vec \<Longrightarrow> eq_push_list_priority_upto vec n q = foldr eq_push_priority (take n vec) q"
  by (induction n arbitrary: q) (auto simp: take_Suc_conv_app_nth)

lemma eq_push_list_priority_foldr: "eq_push_list_priority vec q = foldr eq_push_priority vec q"
  by (simp add: eq_push_list_priority_def eq_push_list_priority_upto_foldr)

lemma eq_q_push_list [simp]: "eq_q (eq_push_list vec q) = eq_q q @ vec"
  by (simp add: eq_push_list_fold rq.fold_push)

lemma eq_q_push_list_priority [simp]: "eq_q (eq_push_list_priority vec q) = vec @ eq_q q"
  by (simp add: eq_push_list_priority_foldr rq.foldr_push_front)

lemma eq_log_snapshot_all: "eq_log_snapshot q = eq_q q"
proof -
  have "eq_snapshot_walk es (length es) = es" for es :: "'a list" by (induction es) auto
  then show ?thesis by (simp add: eq_log_snapshot_def)
qed

text \<open>Popping after \<open>push_list_priority\<close> and \<open>push_list\<close> delivers the priority batch first, in the
  order of its vector, then the events already queued, then the normal batch in the order of its
  vector: no event is lost, duplicated or reordered.\<close>

theorem run_queue_order:
  "fst (pops eq_pop (length hi + length (eq_q q) + length lo)
      (eq_push_list lo (eq_push_list_priority hi q))) = hi @ eq_q q @ lo"
  using rq.pops_take[of "length hi + length (eq_q q) + length lo"
      "eq_push_list lo (eq_push_list_priority hi q)"]
  by simp

end
