(* ===== verification/Wrappers.thy ===== *)
theory Wrappers
  imports Prelude
begin

text \<open>
  runtime/OFluxWrappers.h and runtime/OFluxWatermark.h: the waiter counters (the plain
  IntegerCounter and the WatermarkedCounter that also samples its extremes), the
  ConditionVariable that retains a signal sent while nobody waits, and the scoped helpers SetTrue
  and Increment.  C++ ints are HOL integers here: every counter counts threads of one process.
\<close>

section \<open>Counters\<close>

type_synonym icounter = int

definition ic_new :: icounter where "ic_new = 0"
definition ic_inc :: "icounter \<Rightarrow> icounter" where "ic_inc c = c + 1"
definition ic_dec :: "icounter \<Rightarrow> icounter" where "ic_dec c = c - 1"
definition ic_get :: "icounter \<Rightarrow> int" where "ic_get c = c"

record wsample =
  s_min :: int
  s_max :: int

definition wsample_reset :: "int \<Rightarrow> wsample" where
  "wsample_reset c = \<lparr> s_min = c, s_max = c \<rparr>"

record wcounter =
  wc_c :: int
  wc_index :: nat
  wc_samples :: "wsample list"

definition WATERMARKED_SAMPLES :: nat where "WATERMARKED_SAMPLES = 10"

definition wc_new :: wcounter where
  "wc_new = \<lparr> wc_c = 0, wc_index = 0,
      wc_samples = replicate WATERMARKED_SAMPLES \<lparr> s_min = 0, s_max = 0 \<rparr> \<rparr>"

definition wc_cur :: "wcounter \<Rightarrow> wsample" where
  "wc_cur w = wc_samples w ! wc_index w"

definition wc_inc :: "wcounter \<Rightarrow> wcounter" where
  "wc_inc w = (let c = wc_c w + 1 in
     w\<lparr> wc_c := c,
        wc_samples := (wc_samples w)[wc_index w := (wc_cur w)\<lparr> s_max := max (s_max (wc_cur w)) c \<rparr>] \<rparr>)"

definition wc_dec :: "wcounter \<Rightarrow> wcounter" where
  "wc_dec w = (let c = wc_c w - 1 in
     w\<lparr> wc_c := c,
        wc_samples := (wc_samples w)[wc_index w := (wc_cur w)\<lparr> s_min := min (s_min (wc_cur w)) c \<rparr>] \<rparr>)"

definition wc_next_sample :: "wcounter \<Rightarrow> wcounter" where
  "wc_next_sample w = (let i = (wc_index w + 1) mod WATERMARKED_SAMPLES in
     w\<lparr> wc_index := i, wc_samples := (wc_samples w)[i := wsample_reset (wc_c w)] \<rparr>)"

definition wc_min :: "wcounter \<Rightarrow> int" where
  "wc_min w = fold (\<lambda>i a. min a (s_min (wc_samples w ! i))) [1..<WATERMARKED_SAMPLES]
     (s_min (wc_samples w ! 0))"

definition wc_max :: "wcounter \<Rightarrow> int" where
  "wc_max w = fold (\<lambda>i a. max a (s_max (wc_samples w ! i))) [1..<WATERMARKED_SAMPLES]
     (s_max (wc_samples w ! 0))"

section \<open>The counter interface\<close>

text \<open>ConditionVariable is a template over its counter class: all it needs is a number that the
  two operators move by one.\<close>

locale counter =
  fixes cnew :: 'c and cinc cdec :: "'c \<Rightarrow> 'c" and cget :: "'c \<Rightarrow> int"
  assumes get_new: "cget cnew = 0"
    and get_inc: "cget (cinc c) = cget c + 1"
    and get_dec: "cget (cdec c) = cget c - 1"
begin

lemma get_dec_inc [simp]: "cget (cdec (cinc c)) = cget c"
  by (simp add: get_inc get_dec)

lemma get_incs: "cget ((cinc ^^ n) c) = cget c + int n"
  by (induction n) (auto simp: get_inc)

end

interpretation ic: counter ic_new ic_inc ic_dec ic_get
  by unfold_locales (auto simp: ic_new_def ic_inc_def ic_dec_def ic_get_def)

interpretation wc: counter wc_new wc_inc wc_dec wc_c
  by unfold_locales (auto simp: wc_new_def wc_inc_def wc_dec_def Let_def)

section \<open>The watermarks are the extremes of the last ten windows\<close>

datatype wcop = WInc | WDec | WNext

fun wc_exec :: "wcop \<Rightarrow> wcounter \<Rightarrow> wcounter" where
  "wc_exec WInc w = wc_inc w"
| "wc_exec WDec w = wc_dec w"
| "wc_exec WNext w = wc_next_sample w"

text \<open>The abstract history: the values the counter has taken in each of the last ten windows,
  newest window first; a window is opened by \<open>next_sample\<close>.\<close>

type_synonym whist = "int set list \<times> int"

fun wh_exec :: "wcop \<Rightarrow> whist \<Rightarrow> whist" where
  "wh_exec WInc (ws, c) = (insert (c + 1) (hd ws) # tl ws, c + 1)"
| "wh_exec WDec (ws, c) = (insert (c - 1) (hd ws) # tl ws, c - 1)"
| "wh_exec WNext (ws, c) = ({c} # butlast ws, c)"

definition wh_new :: whist where
  "wh_new = (replicate WATERMARKED_SAMPLES {0}, 0)"

text \<open>The ring slot of the window \<open>k\<close> steps back.\<close>

definition slot :: "nat \<Rightarrow> nat \<Rightarrow> nat" where
  "slot i k = (i + WATERMARKED_SAMPLES - k) mod WATERMARKED_SAMPLES"

definition wc_rel :: "wcounter \<Rightarrow> whist \<Rightarrow> bool" where
  "wc_rel w h \<longleftrightarrow> (case h of (ws, c) \<Rightarrow>
     wc_c w = c \<and> wc_index w < 10 \<and> length (wc_samples w) = 10 \<and> length ws = 10 \<and> c \<in> hd ws \<and>
     (\<forall>k<10. finite (ws ! k) \<and> ws ! k \<noteq> {} \<and>
        wc_samples w ! slot (wc_index w) k = \<lparr> s_min = Min (ws ! k), s_max = Max (ws ! k) \<rparr>))"

lemma slot_if: "i < 10 \<Longrightarrow> k < 10 \<Longrightarrow> slot i k = (if k \<le> i then i - k else i + 10 - k)"
  by (auto simp: slot_def WATERMARKED_SAMPLES_def mod_if)

lemma slot_0: "i < 10 \<Longrightarrow> slot i 0 = i"
  by (simp add: slot_if)

lemma slot_neq: "i < 10 \<Longrightarrow> 0 < k \<Longrightarrow> k < 10 \<Longrightarrow> slot i k \<noteq> i"
  by (auto simp: slot_if split: if_splits)

lemma slot_next: "i < 10 \<Longrightarrow> 0 < k \<Longrightarrow> k < 10 \<Longrightarrow> slot ((i + 1) mod 10) k = slot i (k - 1)"
  by (cases "i = 9") (auto simp: slot_if split: if_splits)

lemma slot_surj:
  assumes "i < 10" "j < 10"
  shows "\<exists>k<10. slot i k = j"
proof -
  let ?k = "if j \<le> i then i - j else i + 10 - j"
  have "?k < 10" using assms by auto
  moreover have "slot i ?k = j" using assms by (subst slot_if) (auto split: if_splits)
  ultimately show ?thesis by blast
qed

lemma wc_rel_new: "wc_rel wc_new wh_new"
  by (auto simp: wc_rel_def wc_new_def wh_new_def WATERMARKED_SAMPLES_def slot_if hd_replicate)

text \<open>A counter move only touches the newest window and its slot.\<close>

lemma wc_rel_update:
  assumes rel: "wc_rel w (w0 # wt, c)" and fin: "finite w0'" "c' \<in> w0'"
    and smp: "smp = \<lparr> s_min = Min w0', s_max = Max w0' \<rparr>"
  shows "wc_rel (w\<lparr> wc_c := c', wc_samples := (wc_samples w)[wc_index w := smp] \<rparr>) (w0' # wt, c')"
proof -
  have i: "wc_index w < 10" and len: "length (wc_samples w) = 10" "length wt = 9"
    using rel by (auto simp: wc_rel_def)
  have "(wc_samples w)[wc_index w := smp] ! slot (wc_index w) k =
      \<lparr> s_min = Min ((w0' # wt) ! k), s_max = Max ((w0' # wt) ! k) \<rparr> \<and>
      finite ((w0' # wt) ! k) \<and> (w0' # wt) ! k \<noteq> {}" if "k < 10" for k
  proof (cases k)
    case 0
    then show ?thesis using i len fin smp by (auto simp: slot_0)
  next
    case (Suc k')
    moreover have "wc_samples w ! slot (wc_index w) k =
       \<lparr> s_min = Min ((w0 # wt) ! k), s_max = Max ((w0 # wt) ! k) \<rparr> \<and>
       finite ((w0 # wt) ! k) \<and> (w0 # wt) ! k \<noteq> {}"
      using rel that by (auto simp: wc_rel_def)
    moreover have "wc_index w \<noteq> slot (wc_index w) k"
      using slot_neq[OF i, of k] that Suc by (metis zero_less_Suc)
    ultimately show ?thesis using i len by simp
  qed
  then show ?thesis using i len fin by (simp add: wc_rel_def)
qed

lemma wc_rel_cur:
  assumes "wc_rel w (w0 # wt, c)"
  shows "wc_cur w = \<lparr> s_min = Min w0, s_max = Max w0 \<rparr>" "finite w0" "w0 \<noteq> {}" "c \<in> w0" "wc_c w = c"
proof -
  have i: "wc_index w < 10" using assms by (simp add: wc_rel_def)
  have "0 < (10::nat)" by simp
  then have "finite ((w0 # wt) ! 0) \<and> (w0 # wt) ! 0 \<noteq> {} \<and> wc_samples w ! slot (wc_index w) 0 =
      \<lparr> s_min = Min ((w0 # wt) ! 0), s_max = Max ((w0 # wt) ! 0) \<rparr>"
    using assms unfolding wc_rel_def prod.case by blast
  then show "wc_cur w = \<lparr> s_min = Min w0, s_max = Max w0 \<rparr>" "finite w0" "w0 \<noteq> {}"
    using slot_0[OF i] by (simp_all add: wc_cur_def)
  show "c \<in> w0" "wc_c w = c" using assms by (simp_all add: wc_rel_def)
qed

lemma wc_rel_inc:
  assumes "wc_rel w (w0 # wt, c)"
  shows "wc_rel (wc_inc w) (wh_exec WInc (w0 # wt, c))"
proof -
  note cur = wc_rel_cur[OF assms]
  have "Min w0 \<le> c" using cur(2,4) by simp
  then have "(wc_cur w)\<lparr> s_max := max (s_max (wc_cur w)) (c + 1) \<rparr> =
      \<lparr> s_min = Min (insert (c + 1) w0), s_max = Max (insert (c + 1) w0) \<rparr>"
    using cur(1-3) by (simp add: max.commute min_absorb2)
  then show ?thesis
    using wc_rel_update[OF assms, of "insert (c + 1) w0" "c + 1"] cur(2,5)
    by (simp add: wc_inc_def Let_def)
qed

lemma wc_rel_dec:
  assumes "wc_rel w (w0 # wt, c)"
  shows "wc_rel (wc_dec w) (wh_exec WDec (w0 # wt, c))"
proof -
  note cur = wc_rel_cur[OF assms]
  have "c \<le> Max w0" using cur(2,4) by simp
  then have "(wc_cur w)\<lparr> s_min := min (s_min (wc_cur w)) (c - 1) \<rparr> =
      \<lparr> s_min = Min (insert (c - 1) w0), s_max = Max (insert (c - 1) w0) \<rparr>"
    using cur(1-3) by (simp add: min.commute max_absorb2)
  then show ?thesis
    using wc_rel_update[OF assms, of "insert (c - 1) w0" "c - 1"] cur(2,5)
    by (simp add: wc_dec_def Let_def)
qed

lemma wc_rel_next:
  assumes rel: "wc_rel w (ws, c)"
  shows "wc_rel (wc_next_sample w) (wh_exec WNext (ws, c))"
proof -
  let ?i = "(wc_index w + 1) mod 10"
  have i: "wc_index w < 10" and len: "length (wc_samples w) = 10" "length ws = 10"
    and c: "wc_c w = c" using rel by (auto simp: wc_rel_def)
  have i': "?i < 10" by simp
  have "(wc_samples w)[?i := wsample_reset c] ! slot ?i k =
      \<lparr> s_min = Min (({c} # butlast ws) ! k), s_max = Max (({c} # butlast ws) ! k) \<rparr> \<and>
      finite (({c} # butlast ws) ! k) \<and> ({c} # butlast ws) ! k \<noteq> {}" if k: "k < 10" for k
  proof (cases k)
    case 0
    then show ?thesis using slot_0[OF i'] len by (simp add: wsample_reset_def)
  next
    case (Suc k')
    have "?i \<noteq> slot ?i k" using slot_neq[OF i', of k] k Suc by (metis zero_less_Suc)
    moreover have "slot ?i k = slot (wc_index w) k'" using slot_next[OF i, of k] k Suc by simp
    moreover have "(butlast ws) ! k' = ws ! k'" using k Suc len by (simp add: nth_butlast)
    ultimately show ?thesis using rel k Suc by (simp add: wc_rel_def)
  qed
  then show ?thesis using i len c
    by (simp add: wc_rel_def wc_next_sample_def WATERMARKED_SAMPLES_def Let_def)
qed

lemma wc_rel_exec:
  assumes "wc_rel w h"
  shows "wc_rel (wc_exec op w) (wh_exec op h)"
proof -
  obtain ws c where h: "h = (ws, c)" by (cases h)
  then obtain w0 wt where "ws = w0 # wt" using assms by (cases ws) (auto simp: wc_rel_def)
  then show ?thesis
    using wc_rel_inc[of w w0 wt c] wc_rel_dec[of w w0 wt c] wc_rel_next[of w ws c] assms h
    by (cases op) (simp_all del: wh_exec.simps)
qed

lemma wc_rel_run: "wc_rel w h \<Longrightarrow> wc_rel (fold wc_exec ops w) (fold wh_exec ops h)"
  by (induction ops arbitrary: w h) (simp_all add: wc_rel_exec)

lemma wc_samples_range:
  assumes "wc_rel w (ws, c)"
  shows "set (wc_samples w) = (\<lambda>v. \<lparr> s_min = Min v, s_max = Max v \<rparr>) ` set ws"
proof -
  have i: "wc_index w < 10" and len: "length (wc_samples w) = 10" "length ws = 10"
    and nth: "\<And>k. k < 10 \<Longrightarrow> wc_samples w ! slot (wc_index w) k = \<lparr> s_min = Min (ws ! k), s_max = Max (ws ! k) \<rparr>"
    using assms by (auto simp: wc_rel_def)
  have "set (wc_samples w) = (\<lambda>j. wc_samples w ! j) ` {..<10}"
    using len by (auto simp: set_conv_nth)
  also have "{..<10} = slot (wc_index w) ` {..<10}"
    using slot_surj[OF i] by (auto simp: image_iff slot_def WATERMARKED_SAMPLES_def)
  also have "(\<lambda>j. wc_samples w ! j) ` (slot (wc_index w) ` {..<10}) =
      (\<lambda>k. \<lparr> s_min = Min (ws ! k), s_max = Max (ws ! k) \<rparr>) ` {..<10}"
    using nth by (auto simp: image_image)
  also have "\<dots> = (\<lambda>v. \<lparr> s_min = Min v, s_max = Max v \<rparr>) ` set ws"
    using len by (auto simp: set_conv_nth)
  finally show ?thesis .
qed

lemma upt_10_nth: "length xs = 10 \<Longrightarrow> set (map (\<lambda>i. f (xs ! i)) [1..<10]) \<union> {f (xs ! 0)} = f ` set xs"
proof -
  assume "length xs = 10"
  then have "set xs = (\<lambda>i. xs ! i) ` {..<10}" by (auto simp: set_conv_nth)
  moreover have "{..<10::nat} = insert 0 {1..<10}" by auto
  ultimately show ?thesis by (auto simp: image_image)
qed

lemma wc_min_samples: "length (wc_samples w) = 10 \<Longrightarrow> wc_min w = Min (s_min ` set (wc_samples w))"
proof -
  assume l: "length (wc_samples w) = 10"
  have "wc_min w = fold min (map (\<lambda>i. s_min (wc_samples w ! i)) [1..<10]) (s_min (wc_samples w ! 0))"
    unfolding wc_min_def WATERMARKED_SAMPLES_def fold_map o_def
    by (intro arg_cong[where f = "\<lambda>g. fold g _ _"]) (auto simp: min.commute fun_eq_iff)
  also have "\<dots> = Min (s_min ` set (wc_samples w))"
    by (simp only: fold_min_Min upt_10_nth[OF l, symmetric] Un_commute insert_is_Un[symmetric] Un_insert_right sup_bot_right)
  finally show ?thesis .
qed

lemma wc_max_samples: "length (wc_samples w) = 10 \<Longrightarrow> wc_max w = Max (s_max ` set (wc_samples w))"
proof -
  assume l: "length (wc_samples w) = 10"
  have "wc_max w = fold max (map (\<lambda>i. s_max (wc_samples w ! i)) [1..<10]) (s_max (wc_samples w ! 0))"
    unfolding wc_max_def WATERMARKED_SAMPLES_def fold_map o_def
    by (intro arg_cong[where f = "\<lambda>g. fold g _ _"]) (auto simp: max.commute fun_eq_iff)
  also have "\<dots> = Max (s_max ` set (wc_samples w))"
    by (simp only: fold_max_Max upt_10_nth[OF l, symmetric] Un_commute insert_is_Un[symmetric] Un_insert_right sup_bot_right)
  finally show ?thesis .
qed

lemma Min_Mins:
  assumes "finite A" "A \<noteq> {}" "\<And>v. v \<in> A \<Longrightarrow> finite v \<and> v \<noteq> ({} :: int set)"
  shows "Min (Min ` A) = Min (\<Union> A)"
proof (rule antisym)
  have fin: "finite (\<Union> A)" and ne: "\<Union> A \<noteq> {}" using assms by auto
  show "Min (Min ` A) \<le> Min (\<Union> A)"
    using fin ne assms by (subst Min_ge_iff) (auto intro: Min_le order_trans[OF Min_le[of "Min ` A"]])
  show "Min (\<Union> A) \<le> Min (Min ` A)"
    using assms(1,2) by (subst Min_ge_iff) (auto intro!: Min_le[OF fin] Min_in dest: assms(3))
qed

lemma Max_Maxs:
  assumes "finite A" "A \<noteq> {}" "\<And>v. v \<in> A \<Longrightarrow> finite v \<and> v \<noteq> ({} :: int set)"
  shows "Max (Max ` A) = Max (\<Union> A)"
proof (rule antisym)
  have fin: "finite (\<Union> A)" and ne: "\<Union> A \<noteq> {}" using assms by auto
  show "Max (\<Union> A) \<le> Max (Max ` A)"
    using fin ne assms by (subst Max_le_iff) (auto intro: Max_ge order_trans[OF _ Max_ge[of "Max ` A"]])
  show "Max (Max ` A) \<le> Max (\<Union> A)"
    using assms(1,2) by (subst Max_le_iff) (auto intro!: Max_ge[OF fin] Max_in dest: assms(3))
qed

lemma wc_extremes:
  assumes "wc_rel w (ws, c)"
  shows "wc_min w = Min (\<Union> (set ws))" "wc_max w = Max (\<Union> (set ws))"
proof -
  have len: "length (wc_samples w) = 10" "length ws = 10" using assms by (auto simp: wc_rel_def)
  have good: "finite v \<and> v \<noteq> {}" if "v \<in> set ws" for v
    using assms that by (auto simp: wc_rel_def in_set_conv_nth)
  have ne: "set ws \<noteq> {}" using len by auto
  show "wc_min w = Min (\<Union> (set ws))"
    using wc_min_samples[OF len(1)] wc_samples_range[OF assms] Min_Mins[of "set ws"] good ne
    by (simp add: image_image)
  show "wc_max w = Max (\<Union> (set ws))"
    using wc_max_samples[OF len(1)] wc_samples_range[OF assms] Max_Maxs[of "set ws"] good ne
    by (simp add: image_image)
qed

text \<open>After any sequence of increments, decrements and sample changes, the watermarks reported
  by the watermarked counter are the least and the greatest value the counter has taken during the
  last ten sampling windows, and its value is increments minus decrements.\<close>

theorem watermarks_are_extremes:
  "wc_min (fold wc_exec ops wc_new) = Min (\<Union> (set (fst (fold wh_exec ops wh_new)))) \<and>
   wc_max (fold wc_exec ops wc_new) = Max (\<Union> (set (fst (fold wh_exec ops wh_new)))) \<and>
   wc_c (fold wc_exec ops wc_new) = snd (fold wh_exec ops wh_new)"
proof -
  obtain ws c where h: "fold wh_exec ops wh_new = (ws, c)" by (cases "fold wh_exec ops wh_new")
  have "wc_rel (fold wc_exec ops wc_new) (ws, c)"
    using wc_rel_run[OF wc_rel_new, of ops] h by simp
  from wc_extremes[OF this] wc_rel_cur(5) this show ?thesis
    by (auto simp: h wc_rel_def)
qed

section \<open>ConditionVariable\<close>

text \<open>The state of a condition variable over a counter of type \<open>'c\<close>: the waiter count, the
  retained signal, the threads blocked in the native wait and the threads that wait has already
  released but that have not yet reacquired the mutex.  Every operation runs with the mutex held,
  so each is one atomic step; \<open>wait\<close> is split at the native wait.\<close>

record 'c cvar =
  cv_waiter_count :: 'c
  cv_allow_skip :: bool
  cv_asleep :: "nat list"
  cv_woken :: "nat list"

definition cv_new :: "'c \<Rightarrow> 'c cvar" where
  "cv_new c0 = \<lparr> cv_waiter_count = c0, cv_allow_skip = False, cv_asleep = [], cv_woken = [] \<rparr>"

definition cv_wait :: "('c \<Rightarrow> 'c) \<Rightarrow> ('c \<Rightarrow> 'c) \<Rightarrow> nat \<Rightarrow> 'c cvar \<Rightarrow> 'c cvar" where
  "cv_wait cinc cdec t cv = (let cv1 = cv\<lparr> cv_waiter_count := cinc (cv_waiter_count cv) \<rparr> in
     if cv_allow_skip cv1
     then cv1\<lparr> cv_allow_skip := False, cv_waiter_count := cdec (cv_waiter_count cv1) \<rparr>
     else cv1\<lparr> cv_asleep := cv_asleep cv1 @ [t] \<rparr>)"

definition cv_wait_return :: "('c \<Rightarrow> 'c) \<Rightarrow> nat \<Rightarrow> 'c cvar \<Rightarrow> 'c cvar" where
  "cv_wait_return cdec t cv = cv\<lparr> cv_woken := remove1 t (cv_woken cv),
     cv_waiter_count := cdec (cv_waiter_count cv) \<rparr>"

definition cv_wake :: "nat \<Rightarrow> 'c cvar \<Rightarrow> 'c cvar" where
  "cv_wake t cv = cv\<lparr> cv_asleep := remove1 t (cv_asleep cv), cv_woken := cv_woken cv @ [t] \<rparr>"

text \<open>\<open>signal\<close>: the native signal releases one sleeper, the \<open>k\<close>-th for a schedule's choice \<open>k\<close>.\<close>

definition cv_signal :: "('c \<Rightarrow> int) \<Rightarrow> nat \<Rightarrow> 'c cvar \<Rightarrow> 'c cvar" where
  "cv_signal cget k cv =
     (let cv1 = (if cget (cv_waiter_count cv) = 0 then cv\<lparr> cv_allow_skip := True \<rparr> else cv) in
      if cv_asleep cv1 = [] then cv1
      else cv_wake (cv_asleep cv1 ! (k mod length (cv_asleep cv1))) cv1)"

definition cv_turn_off :: "'c cvar \<Rightarrow> 'c cvar" where
  "cv_turn_off cv = cv\<lparr> cv_allow_skip := True, cv_asleep := [], cv_woken := cv_woken cv @ cv_asleep cv \<rparr>"

inductive cv_step :: "('c \<Rightarrow> 'c) \<Rightarrow> ('c \<Rightarrow> 'c) \<Rightarrow> ('c \<Rightarrow> int) \<Rightarrow> 'c cvar \<Rightarrow> 'c cvar \<Rightarrow> bool"
  for cinc cdec cget where
  wait: "t \<notin> set (cv_asleep cv) \<Longrightarrow> t \<notin> set (cv_woken cv) \<Longrightarrow>
    cv_step cinc cdec cget cv (cv_wait cinc cdec t cv)"
| signal: "cv_step cinc cdec cget cv (cv_signal cget k cv)"
| turn_off: "cv_step cinc cdec cget cv (cv_turn_off cv)"
| resume: "t \<in> set (cv_woken cv) \<Longrightarrow> cv_step cinc cdec cget cv (cv_wait_return cdec t cv)"
| spurious: "t \<in> set (cv_asleep cv) \<Longrightarrow> cv_step cinc cdec cget cv (cv_wake t cv)"

abbreviation cv_reach :: "('c \<Rightarrow> 'c) \<Rightarrow> ('c \<Rightarrow> 'c) \<Rightarrow> ('c \<Rightarrow> int) \<Rightarrow> 'c \<Rightarrow> 'c cvar \<Rightarrow> bool" where
  "cv_reach cinc cdec cget c0 \<equiv> (cv_step cinc cdec cget)\<^sup>*\<^sup>* (cv_new c0)"

definition cv_inv :: "('c \<Rightarrow> int) \<Rightarrow> 'c cvar \<Rightarrow> bool" where
  "cv_inv cget cv \<longleftrightarrow> distinct (cv_asleep cv @ cv_woken cv) \<and>
     cget (cv_waiter_count cv) = int (length (cv_asleep cv) + length (cv_woken cv)) \<and>
     (cv_allow_skip cv \<longrightarrow> cv_asleep cv = [])"

lemmas cv_ops = cv_wait_def cv_wait_return_def cv_wake_def cv_signal_def cv_turn_off_def Let_def

lemma cv_inv_wake:
  assumes "cv_inv cget cv" "t \<in> set (cv_asleep cv)"
  shows "cv_inv cget (cv_wake t cv)"
proof -
  have "int (length (cv_asleep cv) - Suc 0) = int (length (cv_asleep cv)) - 1"
    using assms(2) by (cases "cv_asleep cv") auto
  then show ?thesis using assms
    by (auto simp: cv_inv_def cv_wake_def length_remove1 dest: in_set_remove1 notin_set_remove1)
qed

lemma cv_inv_idle:
  assumes "cv_inv cget cv" "cget (cv_waiter_count cv) = 0"
  shows "cv_asleep cv = []" "cv_woken cv = []"
  using assms unfolding cv_inv_def by (metis add_is_0 length_0_conv of_nat_eq_0_iff)+

context counter
begin

lemma cv_inv_step:
  assumes "cv_step cinc cdec cget cv cv'" "cv_inv cget cv"
  shows "cv_inv cget cv'"
  using assms(1)
proof (cases rule: cv_step.cases)
  case (wait t)
  then show ?thesis using assms(2)
    by (auto simp: cv_inv_def cv_wait_def Let_def get_inc)
next
  case (signal k)
  let ?cv = "if cget (cv_waiter_count cv) = 0 then cv\<lparr> cv_allow_skip := True \<rparr> else cv"
  have "cv_inv cget ?cv" using assms(2) cv_inv_idle[OF assms(2)] by (auto simp: cv_inv_def)
  then show ?thesis using signal cv_inv_wake[of cget ?cv]
    by (auto simp: cv_signal_def Let_def)
next
  case turn_off
  then show ?thesis using assms(2) by (auto simp: cv_inv_def cv_turn_off_def)
next
  case (resume t)
  have "int (length (cv_woken cv) - Suc 0) = int (length (cv_woken cv)) - 1"
    using resume(2) by (cases "cv_woken cv") auto
  then show ?thesis using resume assms(2)
    by (auto simp: cv_inv_def cv_wait_return_def get_dec length_remove1 dest: notin_set_remove1)
next
  case (spurious t)
  then show ?thesis using cv_inv_wake[OF assms(2)] by simp
qed

lemma cv_inv_reach:
  assumes "cv_reach cinc cdec cget cnew cv"
  shows "cv_inv cget cv"
  using assms
proof (induction rule: rtranclp_induct)
  case base
  show ?case by (simp add: cv_inv_def cv_new_def get_new)
next
  case (step cv cv')
  then show ?case using cv_inv_step by blast
qed

text \<open>After a signal a thread is on its way: one that waits has been released, or the next one
  to wait will not block.\<close>

lemma cv_signal_kept:
  assumes "cv_inv cget cv"
  shows "cv_allow_skip (cv_signal cget k cv) \<or> cv_woken (cv_signal cget k cv) \<noteq> []"
  using assms by (auto simp: cv_inv_def cv_ops)

lemma cv_signal_idle_then_wait:
  assumes "cv_inv cget cv" "cget (cv_waiter_count cv) = 0"
  shows "cv_asleep (cv_wait cinc cdec t (cv_signal cget k cv)) = []
     \<and> cget (cv_waiter_count (cv_wait cinc cdec t (cv_signal cget k cv))) = 0"
proof -
  have "cv_asleep cv = []" by (rule cv_inv_idle[OF assms])
  then show ?thesis using assms(2) by (simp add: cv_ops)
qed

end

text \<open>In every reachable state of a condition variable over the watermarked counter the waiter
  count is the number of threads inside \<open>wait\<close>, and after a signal either some waiting thread has
  been released or the signal is retained for the next thread that waits.\<close>

theorem cv_waiter_count_exact:
  assumes "cv_reach wc_inc wc_dec wc_c wc_new cv"
  shows "wc_c (cv_waiter_count cv) = int (length (cv_asleep cv) + length (cv_woken cv)) \<and>
    (cv_allow_skip (cv_signal wc_c k cv) \<or> cv_woken (cv_signal wc_c k cv) \<noteq> [])"
  using wc.cv_inv_reach[OF assms] wc.cv_signal_kept[OF wc.cv_inv_reach[OF assms]]
  by (simp add: cv_inv_def)

lemma cv_waiter_count_exact_witness:
  "wc_c (cv_waiter_count (cv_wait wc_inc wc_dec 7 (cv_new wc_new))) = 1"
proof -
  have "cv_reach wc_inc wc_dec wc_c wc_new (cv_wait wc_inc wc_dec 7 (cv_new wc_new))"
    by (rule r_into_rtranclp) (rule cv_step.wait, simp_all add: cv_new_def)
  from cv_waiter_count_exact[OF this, of 0] show ?thesis
    by (simp add: cv_wait_def cv_new_def Let_def)
qed

text \<open>The retained signal is only kept when the waiter count is zero, and the count still
  includes a thread that was already released but has not run yet: a second signal sent in that
  window is lost, and the next thread to wait blocks although two signals were sent for the two
  waits.\<close>

theorem cv_signal_lost_in_window:
  "let s1 = cv_wait ic_inc ic_dec 1 (cv_new ic_new);
       s2 = cv_signal ic_get 0 (cv_signal ic_get 0 s1);
       s3 = cv_wait ic_inc ic_dec 2 (cv_wait_return ic_dec 1 s2)
   in cv_reach ic_inc ic_dec ic_get ic_new s3 \<and>
      cv_asleep s3 = [2] \<and> cv_woken s3 = [] \<and> \<not> cv_allow_skip s3"
proof -
  define s0 where "s0 = cv_new ic_new"
  define s1 where "s1 = cv_wait ic_inc ic_dec 1 s0"
  define s2 where "s2 = cv_signal ic_get 0 s1"
  define s3 where "s3 = cv_signal ic_get 0 s2"
  define s4 where "s4 = cv_wait_return ic_dec 1 s3"
  define s5 where "s5 = cv_wait ic_inc ic_dec 2 s4"
  note defs = s0_def s1_def s2_def s3_def s4_def s5_def cv_new_def cv_ops
    ic_new_def ic_inc_def ic_dec_def ic_get_def
  have "cv_step ic_inc ic_dec ic_get s0 s1" unfolding s1_def
    by (rule cv_step.wait) (simp_all add: defs)
  moreover have "cv_step ic_inc ic_dec ic_get s1 s2" unfolding s2_def by (rule cv_step.signal)
  moreover have "cv_step ic_inc ic_dec ic_get s2 s3" unfolding s3_def by (rule cv_step.signal)
  moreover have "cv_step ic_inc ic_dec ic_get s3 s4" unfolding s4_def
    by (rule cv_step.resume) (simp add: defs)
  moreover have "cv_step ic_inc ic_dec ic_get s4 s5" unfolding s5_def
    by (rule cv_step.wait) (simp_all add: defs)
  ultimately have "cv_reach ic_inc ic_dec ic_get ic_new s5"
    unfolding s0_def by (meson converse_rtranclp_into_rtranclp rtranclp.rtrancl_refl)
  moreover have "cv_asleep s5 = [2] \<and> cv_woken s5 = [] \<and> \<not> cv_allow_skip s5"
    by (simp add: defs)
  ultimately show ?thesis
    unfolding Let_def s5_def s4_def s3_def s2_def s1_def s0_def by blast
qed

section \<open>Scoped helpers\<close>

text \<open>SetTrue keeps the old value and writes it back; Increment keeps a pointer to the counter,
  cleared by an early \<open>release\<close>.  The referenced variable is the threaded state.\<close>

definition st_ctor :: "bool \<Rightarrow> bool \<times> bool" where
  "st_ctor v = (v, True)"

definition st_dtor :: "bool \<times> bool \<Rightarrow> bool" where
  "st_dtor g = fst g"

definition incr_ctor :: "int \<Rightarrow> bool \<times> int" where
  "incr_ctor v = (True, v + 1)"

definition incr_release :: "bool \<times> int \<Rightarrow> bool \<times> int" where
  "incr_release g = (False, if fst g then snd g - 1 else snd g)"

definition incr_dtor :: "bool \<times> int \<Rightarrow> int" where
  "incr_dtor g = (if fst g then snd g - 1 else snd g)"

lemma incr_scope: "incr_dtor ((incr_release ^^ n) (incr_ctor v)) = v"
proof -
  have "(incr_release ^^ Suc n) (incr_ctor v) = (False, v)" for n
    by (induction n) (auto simp: incr_release_def incr_ctor_def)
  then show ?thesis by (cases n) (simp_all add: incr_dtor_def incr_ctor_def)
qed

lemma set_true_scope: "st_dtor (st_ctor v) = v" "snd (st_ctor v)"
  by (simp_all add: st_ctor_def st_dtor_def)

end
