(* ===== verification/RunTime.thy ===== *)
theory RunTime
  imports EventFrames EventQueue Wrappers
begin

text \<open>
  runtime/OFluxRunTime.h and .cpp (the classic runtime), with the detached execution of
  OFluxMeldingRunTime.cpp.  All runtime code runs under one lock; a thread gives it up only while it
  waits on one of the two condition variables or runs a detached event.  The code between two such
  points is one step, a function on the world; \<open>rt_step\<close> interleaves the steps of the threads.
\<close>

section \<open>State\<close>

datatype wait_state = RTTWS_running | RTTWS_wtr | RTTWS_wip | RTTWS_blockingcall | RTTWS_wtrshim
  | RTTWS_door_service | RTTWS_door_wait

text \<open>Where a thread is: before its first lock, at the head of its loop, behind the head waiting for the lock it
  offered to the line (melding runtime), blocked in the pool (resuming at
  the loop head, or at the check behind it), running an event unlocked, about to relock after one,
  blocked in the waiting-to-run line with the event's return code, gone.\<close>

datatype rt_pc = PStart | PLoop | PYield | PPoolLoop | PPoolCheck | PExec nat | PRelock nat int | PWaitRun nat int | PExited

record rthread =
  t_this_event :: "nat option"
  t_condition_context_switch :: bool
  t_bootstrap :: bool
  t_thread_running :: bool
  t_request_death :: bool
  t_detached :: bool
  t_wait_state :: wait_state
  t_flow_node_working :: "nat option"
  t_pc :: rt_pc

definition thread_new :: "bool \<Rightarrow> rthread" where
  "thread_new context_switch = \<lparr> t_this_event = None, t_condition_context_switch = context_switch, t_bootstrap = True,
     t_thread_running = False, t_request_death = False, t_detached = False, t_wait_state = RTTWS_running,
     t_flow_node_working = None, t_pc = PStart \<rparr>"

record rt_config =
  max_thread_pool_size :: int
  max_detached_threads :: int
  min_waiting_thread_collect :: int
  thread_collection_sample_period :: int

record rtstate =
  rt_config :: rt_config
  rt_running :: bool
  rt_load_flow_next :: bool
  rt_thread_list :: "nat list"
  rt_threads :: "nat \<Rightarrow> rthread"
  rt_next_thread :: nat
  rt_flows :: "flow list"
  rt_queue :: "nat equeue"
  rt_thread_count :: int
  rt_detached_count :: int
  rt_door_thread :: "nat option"
  rt_waiting_to_run :: "icounter cvar"
  rt_waiting_in_pool :: "wcounter cvar"
  rt_sample_counter :: int
  rt_lock :: "nat option"

record ('k, 'd) rworld = "('k, 'd) eworld" +
  rt :: rtstate

definition rt_upd :: "(rtstate \<Rightarrow> rtstate) \<Rightarrow> ('k, 'd, 'z) rworld_scheme \<Rightarrow> ('k, 'd, 'z) rworld_scheme" where
  "rt_upd f w = w\<lparr> rt := f (rt w) \<rparr>"

definition th_upd :: "nat \<Rightarrow> (rthread \<Rightarrow> rthread) \<Rightarrow> rtstate \<Rightarrow> rtstate" where
  "th_upd t f r = r\<lparr> rt_threads := (rt_threads r)(t := f (rt_threads r t)) \<rparr>"

definition rt_flow :: "rtstate \<Rightarrow> flow option" where
  "rt_flow r = (case rt_flows r of [] \<Rightarrow> None | f # fs \<Rightarrow> Some f)"

section \<open>Threads\<close>

definition canThreadMore :: "rtstate \<Rightarrow> bool" where
  "canThreadMore r \<longleftrightarrow> max_thread_pool_size (rt_config r) = 0 \<or> rt_thread_count r < max_thread_pool_size (rt_config r)"

definition canDetachMore :: "rtstate \<Rightarrow> bool" where
  "canDetachMore r \<longleftrightarrow> max_detached_threads (rt_config r) = 0 \<or> rt_detached_count r < max_detached_threads (rt_config r)"

definition pool_count :: "rtstate \<Rightarrow> int" where
  "pool_count r = wc_c (cv_waiter_count (rt_waiting_in_pool r))"

definition run_count :: "rtstate \<Rightarrow> int" where
  "run_count r = ic_get (cv_waiter_count (rt_waiting_to_run r))"

definition signal_to_run :: "nat \<Rightarrow> rtstate \<Rightarrow> rtstate" where
  "signal_to_run k r = r\<lparr> rt_waiting_to_run := cv_signal ic_get k (rt_waiting_to_run r) \<rparr>"

definition signal_in_pool :: "nat \<Rightarrow> rtstate \<Rightarrow> rtstate" where
  "signal_in_pool k r = r\<lparr> rt_waiting_in_pool := cv_signal wc_c k (rt_waiting_in_pool r) \<rparr>"

text \<open>A new thread object; \<open>switch\<close> is true for the melding runtime.\<close>

definition new_RunTimeThread :: "bool \<Rightarrow> rtstate \<Rightarrow> nat \<times> rtstate" where
  "new_RunTimeThread switch r = (let t = rt_next_thread r in
     (t, r\<lparr> rt_next_thread := t + 1, rt_threads := (rt_threads r)(t := thread_new switch) \<rparr>))"

text \<open>\<open>k\<close> is the schedule's choice of the sleeper a signal wakes; creating the thread itself is a call of
  the thread library.\<close>

definition wake_another_thread :: "bool \<Rightarrow> nat \<Rightarrow> rtstate \<Rightarrow> rtstate" where
  "wake_another_thread switch k r =
     (if rt_running r \<and> pool_count r = 0 \<and> canThreadMore r
      then (case new_RunTimeThread switch r of (t, r1) \<Rightarrow>
              r1\<lparr> rt_thread_count := rt_thread_count r1 + 1, rt_thread_list := t # rt_thread_list r1 \<rparr>)
      else if run_count r > 0 then signal_to_run k r
      else if pool_count r > 0 then signal_in_pool k r
      else signal_to_run k r)"

definition rt_remove :: "nat \<Rightarrow> rtstate \<Rightarrow> rtstate" where
  "rt_remove t r =
     (if t \<in> set (rt_thread_list r)
      then r\<lparr> rt_thread_list := remove1 t (rt_thread_list r), rt_thread_count := rt_thread_count r - 1 \<rparr>
      else r)"

definition currently_detached :: "nat option \<Rightarrow> rtstate \<Rightarrow> bool" where
  "currently_detached t r = (case t of Some t \<Rightarrow> t_detached (rt_threads r t) | None \<Rightarrow> True)"

text \<open>Idle threads beyond the configured minimum are asked to die, from the front of the list.\<close>

fun shed_threads :: "int \<Rightarrow> nat list \<Rightarrow> rtstate \<Rightarrow> rtstate" where
  "shed_threads n [] r = r"
| "shed_threads n (t # ts) r =
     (if n > 0 then shed_threads (n - 1) ts (th_upd t (\<lambda>th. th\<lparr> t_request_death := True \<rparr>) r) else r)"

definition doThreadCollection :: "rtstate \<Rightarrow> rtstate" where
  "doThreadCollection r =
     (let next_sample = (\<lambda>r. r\<lparr> rt_waiting_in_pool := (rt_waiting_in_pool r)
            \<lparr> cv_waiter_count := wc_next_sample (cv_waiter_count (rt_waiting_in_pool r)) \<rparr> \<rparr>) in
      if min_waiting_thread_collect (rt_config r) = 0 then next_sample r
      else let collect_idle = wc_min (cv_waiter_count (rt_waiting_in_pool r)) - min_waiting_thread_collect (rt_config r)
           in next_sample (shed_threads collect_idle (rt_thread_list r) r))"

text \<open>The thread that serves the doors is created once and is not one of the runtime's threads.\<close>

definition create_door_thread :: "bool \<Rightarrow> rtstate \<Rightarrow> rtstate" where
  "create_door_thread switch r = (case rt_door_thread r of
      Some _ \<Rightarrow> r
    | None \<Rightarrow> (case new_RunTimeThread switch r of (t, r1) \<Rightarrow>
        th_upd t (\<lambda>th. th\<lparr> t_detached := True \<rparr>) (r1\<lparr> rt_door_thread := Some t \<rparr>)))"

definition soft_load_flow :: "rtstate \<Rightarrow> rtstate" where
  "soft_load_flow r = r\<lparr> rt_load_flow_next := True \<rparr>"

definition soft_kill :: "rtstate \<Rightarrow> rtstate" where
  "soft_kill r = r\<lparr> rt_running := False \<rparr>"

definition hard_kill :: "rtstate \<Rightarrow> rtstate" where
  "hard_kill r =
     (let r1 = soft_kill r;
          r2 = r1\<lparr> rt_waiting_to_run := cv_turn_off (rt_waiting_to_run r1),
                  rt_waiting_in_pool := cv_turn_off (rt_waiting_in_pool r1) \<rparr>
      in fold (\<lambda>t. th_upd t (\<lambda>th. th\<lparr> t_request_death := True \<rparr>)) (rt_thread_list r2) r2)"

section \<open>Flows\<close>

text \<open>Old flows are dropped from the back until one has instances.\<close>

fun drop_flows :: "flow list \<Rightarrow> ('k, 'd, 'z) rworld_scheme \<Rightarrow> flow list \<times> ('k, 'd, 'z) rworld_scheme" where
  "drop_flows [] w = ([], w)"
| "drop_flows (back # fls) w =
     (case (if length (fl_sources back) > 0 then flow_turn_off_sources back w else (back, w)) of (back1, w1) \<Rightarrow>
        if flow_has_instances back1 w1 then (back1 # fls, w1) else drop_flows fls w1)"

text \<open>\<open>reader\<close> stands for \<open>xml::read\<close>: from the flow in use it makes the new flow, and the flow in use as
  the reader leaves it.\<close>

type_synonym ('k, 'd, 'z) flow_reader = "flow option \<Rightarrow> ('k, 'd, 'z) rworld_scheme \<Rightarrow>
    (flow \<times> flow option \<times> ('k, 'd, 'z) rworld_scheme) result"

definition load_flow :: "('k::linorder, 'd) ucode \<Rightarrow> ('k, 'd, 'z) flow_reader \<Rightarrow> ('k, 'd, 'z) rworld_scheme \<Rightarrow>
    ('k, 'd, 'z) rworld_scheme result" where
  "load_flow uc reader w =
     bindE (reader (rt_flow (rt w)) w) (\<lambda>(fl, old, w1).
     bindE (assignMagicNumbers fl (rt_upd (\<lambda>r. r\<lparr> rt_flows := (case old of None \<Rightarrow> rt_flows r | Some f \<Rightarrow> f # tl (rt_flows r)) \<rparr>) w1))
       (\<lambda>(fl1, w2).
     bindE (if rt_running (rt w2)
            then bindE (push_initials_and_sources uc fl1 False ([], w2)) (\<lambda>(evs, w3).
                   Inr (rt_upd (\<lambda>r. r\<lparr> rt_queue := eq_push_list evs (rt_queue r) \<rparr>) w3))
            else Inr w2) (\<lambda>w4.
     case drop_flows (rev (rt_flows (rt w4))) w4 of (fls, w5) \<Rightarrow>
       Inr (rt_upd (\<lambda>r. r\<lparr> rt_flows := fl1 # rev fls \<rparr>) w5))))"

definition getPluginNames :: "(nat \<Rightarrow> string) \<Rightarrow> rtstate \<Rightarrow> string list" where
  "getPluginNames lname r = (case rt_flow r of None \<Rightarrow> [] | Some f \<Rightarrow> getLibraryNames lname f)"

section \<open>Handling an event\<close>

definition enqueue_list :: "nat list \<Rightarrow> ('k, 'd, 'z) rworld_scheme \<Rightarrow> ('k, 'd, 'z) rworld_scheme" where
  "enqueue_list evs w = rt_upd (\<lambda>r. r\<lparr> rt_queue := eq_push_list evs (rt_queue r) \<rparr>) w"

definition submitEvents :: "bool \<Rightarrow> nat \<Rightarrow> nat list \<Rightarrow> ('k, 'd, 'z) rworld_scheme \<Rightarrow> ('k, 'd, 'z) rworld_scheme" where
  "submitEvents switch k evs w = rt_upd (wake_another_thread switch k) (enqueue_list evs w)"

text \<open>\<open>handle\<close> up to the execution.\<close>

definition handle_begin :: "nat \<Rightarrow> nat \<Rightarrow> ('k, 'd, 'z) rworld_scheme \<Rightarrow> ('k, 'd, 'z) rworld_scheme result" where
  "handle_begin t e w = bindE (event_of e w) (\<lambda>ev. Inr (rt_upd (th_upd t (\<lambda>th.
     th\<lparr> t_flow_node_working := Some (ev_node ev), t_this_event := Some e \<rparr>)) w))"

text \<open>\<open>handle\<close> from the return code on: successors, release of the atomics, events let through.\<close>

definition handle_end :: "('k::linorder, 'd) ucode \<Rightarrow> nat \<Rightarrow> nat \<Rightarrow> int \<Rightarrow> ('k, 'd, 'z) rworld_scheme \<Rightarrow>
    ('k, 'd, 'z) rworld_scheme result" where
  "handle_end uc t e return_code w =
     bindE (if return_code \<noteq> 0 then successors_on_error uc e return_code ([], w)
            else successors_on_no_error uc e ([], w)) (\<lambda>(succs, w1).
     bindE (ah_release e w1) (\<lambda>(rels, w2).
     bindE (reacquire uc rels (succs, w2)) (\<lambda>(evs, w3).
     Inr (rt_upd (th_upd t (\<lambda>th. th\<lparr> t_this_event := None, t_flow_node_working := None \<rparr>)) (enqueue_list evs w3)))))"

text \<open>\<open>execute_detached\<close> up to the unlocking, and from the relocking on.\<close>

definition detached_begin :: "bool \<Rightarrow> nat \<Rightarrow> nat \<Rightarrow> rtstate \<Rightarrow> rtstate" where
  "detached_begin switch k t r =
     wake_another_thread switch k (th_upd t (\<lambda>th. th\<lparr> t_detached := True \<rparr>) (r\<lparr> rt_detached_count := rt_detached_count r + 1 \<rparr>))"

definition detached_end :: "nat \<Rightarrow> rtstate \<Rightarrow> rtstate" where
  "detached_end t r = th_upd t (\<lambda>th. th\<lparr> t_detached := False \<rparr>) (r\<lparr> rt_detached_count := rt_detached_count r - 1 \<rparr>)"

text \<open>Melded execution: after a detached event with one output and one successor case, whose node is
  detached and unguarded, the successor is executed at once in place of the event.  \<open>fuel\<close> bounds the
  number of events melded.\<close>

fun meld_execute :: "nat \<Rightarrow> ('k, 'd) ucode \<Rightarrow> nat \<Rightarrow> ('k, 'd, 'z) eworld_scheme \<Rightarrow>
    (int \<times> nat \<times> ('k, 'd, 'z) eworld_scheme) result option" where
  "meld_execute 0 uc e w = None"
| "meld_execute (Suc fuel) uc e w =
     (case event_execute uc e w of
        Inl x \<Rightarrow> Some (Inl x)
      | Inr (rc, w1) \<Rightarrow>
     (case event_of e w1 of
        Inl x \<Rightarrow> Some (Inl x)
      | Inr ev \<Rightarrow>
          let n = ev_node ev; (out, ow) = ow_next (ev_outputs ev) in
          if fst (ow_next ow) \<noteq> None then Some (Inr (rc, e, w1))
          else
     (case node_get_successors (uc_cond uc) n (case out of Some d \<Rightarrow> d | None \<Rightarrow> uc_output uc) rc (fw_nodes w1 n) of
        Inl x \<Rightarrow> Some (Inl x)
      | Inr (cs, nd) \<Rightarrow>
          let w2 = set_node n nd w1 in
          (case (if length cs = 1 then fc_target (hd cs) else None) of
             None \<Rightarrow> Some (Inr (rc, e, w2))
           | Some m \<Rightarrow>
               if fn_guards (fw_nodes w2 m) = [] \<and> fn_is_detached (fw_nodes w2 m) \<and> ah_number (w_ah w2 e) = 0
               then (case (if fn_is_source (fw_nodes w2 m) then event_create uc None None m w2
                           else event_create uc (Some e)
                             (case out of None \<Rightarrow> None | Some d \<Rightarrow> io_convert (uc_conv uc) id (fc_converter (hd cs)) d) m w2) of
                       Inl x \<Rightarrow> Some (Inl x)
                     | Inr (e', w3) \<Rightarrow>
                         (case event_set_error_code e' rc w3 of
                            Inl x \<Rightarrow> Some (Inl x)
                          | Inr w4 \<Rightarrow> meld_execute fuel uc e' w4))
               else Some (Inr (rc, e, w2))))))"

section \<open>The thread loop\<close>

definition set_pc :: "nat \<Rightarrow> rt_pc \<Rightarrow> rtstate \<Rightarrow> rtstate" where
  "set_pc t pc = th_upd t (\<lambda>th. th\<lparr> t_pc := pc \<rparr>)"

definition unlock :: "rtstate \<Rightarrow> rtstate" where
  "unlock r = r\<lparr> rt_lock := None \<rparr>"

text \<open>Waiting: the thread blocks, giving up the lock, unless a signal is outstanding.  The first component
  tells whether it goes on.\<close>

definition wait_in_pool :: "nat \<Rightarrow> rt_pc \<Rightarrow> rtstate \<Rightarrow> bool \<times> rtstate" where
  "wait_in_pool t pc r =
     (let cv = rt_waiting_in_pool r; r1 = r\<lparr> rt_waiting_in_pool := cv_wait wc_inc wc_dec t cv \<rparr> in
      if cv_allow_skip cv then (True, th_upd t (\<lambda>th. th\<lparr> t_wait_state := RTTWS_running \<rparr>) r1)
      else (False, unlock (set_pc t pc (th_upd t (\<lambda>th. th\<lparr> t_wait_state := RTTWS_wip \<rparr>) r1))))"

definition wait_to_run :: "nat \<Rightarrow> rt_pc \<Rightarrow> rtstate \<Rightarrow> bool \<times> rtstate" where
  "wait_to_run t pc r =
     (let cv = rt_waiting_to_run r; r1 = r\<lparr> rt_waiting_to_run := cv_wait ic_inc ic_dec t cv \<rparr> in
      if cv_allow_skip cv then (True, th_upd t (\<lambda>th. th\<lparr> t_wait_state := RTTWS_running \<rparr>) r1)
      else (False, unlock (set_pc t pc (th_upd t (\<lambda>th. th\<lparr> t_wait_state := RTTWS_wtr \<rparr>) r1))))"

text \<open>Leaving the loop.\<close>

definition thread_exit :: "bool \<Rightarrow> nat \<Rightarrow> nat \<Rightarrow> rtstate \<Rightarrow> rtstate" where
  "thread_exit switch k t r =
     (let r1 = rt_remove t r;
          r2 = (if rt_thread_count r1 > 0 then wake_another_thread switch k r1 else r1)
      in unlock (set_pc t PExited (th_upd t (\<lambda>th. th\<lparr> t_thread_running := False \<rparr>) r2)))"

text \<open>Taking an event from the queue and handling it, up to where a detached event runs.\<close>

definition loop_pop :: "('k::linorder, 'd) ucode \<Rightarrow> bool \<Rightarrow> nat \<Rightarrow> nat \<Rightarrow> ('k, 'd, 'z) rworld_scheme \<Rightarrow>
    ('k, 'd, 'z) rworld_scheme result" where
  "loop_pop uc switch k t w =
     (case eq_pop (rt_queue (rt w)) of
        None \<Rightarrow> Inr (rt_upd (\<lambda>r. case wait_in_pool t PPoolLoop (signal_to_run k r) of (go, r1) \<Rightarrow>
            if go then set_pc t PLoop r1 else r1) w)
      | Some (e, q) \<Rightarrow>
          bindE (handle_begin t e (rt_upd (\<lambda>r. r\<lparr> rt_queue := q \<rparr>) w)) (\<lambda>w1.
          bindE (event_getIsDetached e w1) (\<lambda>detached.
          if detached \<and> canDetachMore (rt w1)
          then Inr (rt_upd (\<lambda>r. unlock (set_pc t (PExec e) (detached_begin switch k t r))) w1)
          else bindE (event_execute uc e w1) (\<lambda>(rc, w2).
               bindE (handle_end uc t e rc w2) (\<lambda>w3. Inr (rt_upd (set_pc t PLoop) w3))))))"

text \<open>The rest of the iteration once the thread has let a waiting thread run and is back from the pool.\<close>

definition loop_check :: "('k::linorder, 'd) ucode \<Rightarrow> bool \<Rightarrow> nat \<Rightarrow> nat \<Rightarrow> ('k, 'd, 'z) rworld_scheme \<Rightarrow>
    ('k, 'd, 'z) rworld_scheme result" where
  "loop_check uc switch k t w =
     (if \<not> rt_running (rt w) \<or> t_request_death (rt_threads (rt w) t) then Inr (rt_upd (thread_exit switch k t) w)
      else loop_pop uc switch k t w)"

definition collect_tick :: "rtstate \<Rightarrow> rtstate" where
  "collect_tick r =
     (let r1 = r\<lparr> rt_sample_counter := rt_sample_counter r + 1 \<rparr> in
      if rt_sample_counter r1 > thread_collection_sample_period (rt_config r1)
      then doThreadCollection (r1\<lparr> rt_sample_counter := 0 \<rparr>) else r1)"

definition loop_body :: "('k::linorder, 'd) ucode \<Rightarrow> ('k, 'd, 'z) flow_reader \<Rightarrow> bool \<Rightarrow> nat \<Rightarrow> nat \<Rightarrow> ('k, 'd, 'z) rworld_scheme \<Rightarrow>
    ('k, 'd, 'z) rworld_scheme result" where
  "loop_body uc reader switch k t w =
     bindE (if rt_load_flow_next (rt w) then load_flow uc reader (rt_upd (\<lambda>r. r\<lparr> rt_load_flow_next := False \<rparr>) w)
                  else Inr w) (\<lambda>w1.
        let w2 = rt_upd collect_tick w1 in
        if run_count (rt w2) > 0
        then (case wait_in_pool t PPoolCheck (signal_to_run k (rt w2)) of (go, r3) \<Rightarrow>
                let w3 = rt_upd (\<lambda>_. r3) w2 in if go then loop_check uc switch k t w3 else Inr w3)
        else loop_pop uc switch k t w2)"

text \<open>The head of the loop.  A thread of the melding runtime first offers the lock to the line.\<close>

definition loop_iter :: "('k::linorder, 'd) ucode \<Rightarrow> ('k, 'd, 'z) flow_reader \<Rightarrow> bool \<Rightarrow> nat \<Rightarrow> nat \<Rightarrow> ('k, 'd, 'z) rworld_scheme \<Rightarrow>
    ('k, 'd, 'z) rworld_scheme result" where
  "loop_iter uc reader switch k t w =
     (if \<not> rt_running (rt w) \<or> t_request_death (rt_threads (rt w) t) then Inr (rt_upd (thread_exit switch k t) w)
      else if t_condition_context_switch (rt_threads (rt w) t) \<and> run_count (rt w) > 0
      then Inr (rt_upd (\<lambda>r. unlock (set_pc t PYield r)) w)
      else loop_body uc reader switch k t w)"

text \<open>The steps of thread \<open>t\<close>, and those taken on behalf of the outside: a door call submits events (its
  wake-up is taken as part of the same step), the door thread is created, flags are set.  A step that
  faults has no successor.\<close>

inductive rt_step :: "('k::linorder, 'd) ucode \<Rightarrow> ('k, 'd, 'z) flow_reader \<Rightarrow> bool \<Rightarrow> ('k, 'd, 'z) rworld_scheme \<Rightarrow>
    ('k, 'd, 'z) rworld_scheme \<Rightarrow> bool" for uc reader switch where
  start: "t_pc (rt_threads (rt w) t) = PStart \<Longrightarrow> t \<in> set (rt_thread_list (rt w)) \<Longrightarrow> rt_lock (rt w) = None \<Longrightarrow>
    rt_step uc reader switch w (rt_upd (\<lambda>r. set_pc t PLoop (th_upd t (\<lambda>th. th\<lparr> t_thread_running := True \<rparr>)
      (r\<lparr> rt_lock := Some t \<rparr>))) w)"
| loop: "t_pc (rt_threads (rt w) t) = PLoop \<Longrightarrow> rt_lock (rt w) = Some t \<Longrightarrow>
    loop_iter uc reader switch k t w = Inr w' \<Longrightarrow> rt_step uc reader switch w w'"
| relocked: "t_pc (rt_threads (rt w) t) = PYield \<Longrightarrow> t < rt_next_thread (rt w) \<Longrightarrow> rt_lock (rt w) = None \<Longrightarrow>
    loop_body uc reader switch k t (rt_upd (\<lambda>r. set_pc t PLoop (r\<lparr> rt_lock := Some t \<rparr>)) w) = Inr w' \<Longrightarrow>
    rt_step uc reader switch w w'"
| woken_loop: "t_pc (rt_threads (rt w) t) = PPoolLoop \<Longrightarrow> t \<in> set (cv_woken (rt_waiting_in_pool (rt w))) \<Longrightarrow>
    rt_lock (rt w) = None \<Longrightarrow>
    rt_step uc reader switch w (rt_upd (\<lambda>r. set_pc t PLoop (th_upd t (\<lambda>th. th\<lparr> t_wait_state := RTTWS_running \<rparr>)
      (r\<lparr> rt_lock := Some t, rt_waiting_in_pool := cv_wait_return wc_dec t (rt_waiting_in_pool r) \<rparr>))) w)"
| woken_check: "t_pc (rt_threads (rt w) t) = PPoolCheck \<Longrightarrow> t \<in> set (cv_woken (rt_waiting_in_pool (rt w))) \<Longrightarrow>
    rt_lock (rt w) = None \<Longrightarrow>
    loop_check uc switch k t (rt_upd (\<lambda>r. set_pc t PLoop (th_upd t (\<lambda>th. th\<lparr> t_wait_state := RTTWS_running \<rparr>)
      (r\<lparr> rt_lock := Some t, rt_waiting_in_pool := cv_wait_return wc_dec t (rt_waiting_in_pool r) \<rparr>))) w) = Inr w' \<Longrightarrow>
    rt_step uc reader switch w w'"
| exec: "t_pc (rt_threads (rt w) t) = PExec e \<Longrightarrow> t < rt_next_thread (rt w) \<Longrightarrow> event_execute uc e w = Inr (rc, w1) \<Longrightarrow>
    rt_step uc reader switch w (rt_upd (set_pc t (PRelock e rc)) w1)"
| relock: "t_pc (rt_threads (rt w) t) = PRelock e rc \<Longrightarrow> t < rt_next_thread (rt w) \<Longrightarrow> rt_lock (rt w) = None \<Longrightarrow>
    wait_to_run t (PWaitRun e rc) (detached_end t ((rt w)\<lparr> rt_lock := Some t \<rparr>)) = (go, r1) \<Longrightarrow>
    (if go then bindE (handle_end uc t e rc (rt_upd (\<lambda>_. r1) w)) (\<lambda>w2. Inr (rt_upd (set_pc t PLoop) w2))
     else Inr (rt_upd (\<lambda>_. r1) w)) = Inr w' \<Longrightarrow> rt_step uc reader switch w w'"
| woken_run: "t_pc (rt_threads (rt w) t) = PWaitRun e rc \<Longrightarrow> t \<in> set (cv_woken (rt_waiting_to_run (rt w))) \<Longrightarrow>
    rt_lock (rt w) = None \<Longrightarrow>
    handle_end uc t e rc (rt_upd (\<lambda>r. th_upd t (\<lambda>th. th\<lparr> t_wait_state := RTTWS_running \<rparr>)
      (r\<lparr> rt_lock := Some t, rt_waiting_to_run := cv_wait_return ic_dec t (rt_waiting_to_run r) \<rparr>)) w) = Inr w2 \<Longrightarrow>
    rt_step uc reader switch w (rt_upd (set_pc t PLoop) w2)"
| spurious_pool: "t \<in> set (cv_asleep (rt_waiting_in_pool (rt w))) \<Longrightarrow>
    rt_step uc reader switch w (rt_upd (\<lambda>r. r\<lparr> rt_waiting_in_pool := cv_wake t (rt_waiting_in_pool r) \<rparr>) w)"
| spurious_run: "t \<in> set (cv_asleep (rt_waiting_to_run (rt w))) \<Longrightarrow>
    rt_step uc reader switch w (rt_upd (\<lambda>r. r\<lparr> rt_waiting_to_run := cv_wake t (rt_waiting_to_run r) \<rparr>) w)"
| submit: "rt_lock (rt w) = None \<Longrightarrow> rt_step uc reader switch w (submitEvents switch k evs w)"
| door: "rt_step uc reader switch w (rt_upd (create_door_thread switch) w)"
| soft_kill: "rt_step uc reader switch w (rt_upd soft_kill w)"
| soft_load: "rt_step uc reader switch w (rt_upd soft_load_flow w)"

text \<open>The runtime before its first flow is loaded.\<close>

definition rt_new :: "rt_config \<Rightarrow> rtstate" where
  "rt_new conf = \<lparr> rt_config = conf, rt_running = False, rt_load_flow_next = False, rt_thread_list = [],
     rt_threads = (\<lambda>_. thread_new False), rt_next_thread = 0, rt_flows = [], rt_queue = eq_new, rt_thread_count = 0,
     rt_detached_count = 0, rt_door_thread = None, rt_waiting_to_run = cv_new ic_new, rt_waiting_in_pool = cv_new wc_new,
     rt_sample_counter = 0, rt_lock = None \<rparr>"

text \<open>The start of the runtime: sources are queued, then the calling thread becomes the first one.\<close>

definition rt_start :: "('k::linorder, 'd) ucode \<Rightarrow> bool \<Rightarrow> ('k, 'd, 'z) rworld_scheme \<Rightarrow> ('k, 'd, 'z) rworld_scheme result" where
  "rt_start uc switch w =
     (case rt_flow (rt w) of None \<Rightarrow> Inl NullDeref | Some fl \<Rightarrow>
        bindE (push_initials_and_sources uc fl False ([], w)) (\<lambda>(evs, w1).
          Inr (rt_upd (\<lambda>r. case new_RunTimeThread switch (r\<lparr> rt_queue := eq_push_list evs (rt_queue r), rt_running := True \<rparr>) of (t, r1) \<Rightarrow>
            r1\<lparr> rt_thread_list := t # rt_thread_list r1, rt_thread_count := rt_thread_count r1 + 1 \<rparr>) w1)))"

section \<open>Frames: the operations on events leave the runtime alone\<close>

lemma emore_rt: "eworld.more w1 = eworld.more w \<Longrightarrow> rt w1 = rt w"
  by (cases w; cases w1) simp

lemma rt_simps [simp]:
  "rt (set_node n nd w) = rt w" "rt (set_event e ev w) = rt w" "rt (set_ah e h w) = rt w"
  "rt (node_incr_instances n w) = rt w" "rt (rt_upd f w) = f (rt w)" "rt (set_magic mn w) = rt w"
  by (simp_all add: set_node_def set_event_def set_ah_def node_incr_instances_def rt_upd_def set_magic_def)

lemmas event_execute_rt = event_execute_emore[THEN emore_rt]
lemmas release_rt = release_emore[THEN emore_rt]
lemmas no_error_rt = no_error_emore[THEN emore_rt]
lemmas on_error_rt = on_error_emore[THEN emore_rt]
lemmas reacquire_rt = reacquire_emore[THEN emore_rt]
lemmas push_initials_rt = push_initials_emore[THEN emore_rt]
lemmas assign_rt = assign_emore[THEN emore_rt]
lemmas turn_off_rt = turn_off_emore[THEN emore_rt]

lemma drop_flows_rt: "drop_flows fls w = (fls', w1) \<Longrightarrow> rt w1 = rt w"
proof (induction fls w rule: drop_flows.induct)
  case (2 bk fls w)
  obtain bk1 w2 where b: "(if length (fl_sources bk) > 0 then flow_turn_off_sources bk w else (bk, w)) = (bk1, w2)"
    by fastforce
  then have "rt w2 = rt w" using turn_off_rt[of bk w] by (auto split: if_splits)
  then show ?case using 2(1)[OF b[symmetric]] 2(2) b by (cases "flow_has_instances bk1 w2") (auto split: if_splits)
qed simp

lemma handle_end_rt:
  assumes "handle_end uc t e rc w = Inr w'"
  shows "\<exists>q. rt w' = th_upd t (\<lambda>th. th\<lparr> t_this_event := None, t_flow_node_working := None \<rparr>) ((rt w)\<lparr> rt_queue := q \<rparr>)"
proof -
  obtain succs w1 where s: "(if rc \<noteq> 0 then successors_on_error uc e rc ([], w)
            else successors_on_no_error uc e ([], w)) = Inr (succs, w1)"
    and rest: "bindE (ah_release e w1) (\<lambda>(rels, w2). bindE (reacquire uc rels (succs, w2)) (\<lambda>(evs, w3).
     Inr (rt_upd (th_upd t (\<lambda>th. th\<lparr> t_this_event := None, t_flow_node_working := None \<rparr>)) (enqueue_list evs w3)))) = Inr w'"
    using assms unfolding handle_end_def by (auto elim: bindE_InrE simp del: if_split)
  obtain rels w2 where r: "ah_release e w1 = Inr (rels, w2)"
    and rest2: "bindE (reacquire uc rels (succs, w2)) (\<lambda>(evs, w3).
     Inr (rt_upd (th_upd t (\<lambda>th. th\<lparr> t_this_event := None, t_flow_node_working := None \<rparr>)) (enqueue_list evs w3))) = Inr w'"
    using rest by (auto elim: bindE_InrE)
  obtain evs w3 where q: "reacquire uc rels (succs, w2) = Inr (evs, w3)"
    and w': "w' = rt_upd (th_upd t (\<lambda>th. th\<lparr> t_this_event := None, t_flow_node_working := None \<rparr>)) (enqueue_list evs w3)"
    using rest2 by (auto elim: bindE_InrE)
  have "rt w1 = rt w"
    using s on_error_rt[of uc e rc "([], w)"] no_error_rt[of uc e "([], w)"] by (cases "rc = 0") auto
  then have "rt w3 = rt w" using release_rt[OF r] reacquire_rt[OF q] by simp
  then show ?thesis using w' by (auto simp: enqueue_list_def)
qed

section \<open>The invariant of the thread pool\<close>

definition waiters :: "'c cvar \<Rightarrow> nat set" where
  "waiters cv = set (cv_asleep cv) \<union> set (cv_woken cv)"

lemma waiters_wake [simp]: "t \<in> set (cv_asleep cv) \<Longrightarrow> cv_inv cget cv \<Longrightarrow> waiters (cv_wake t cv) = waiters cv"
  by (auto simp: waiters_def cv_wake_def cv_inv_def)

lemma waiters_signal:
  assumes "cv_inv cget cv"
  shows "waiters (cv_signal cget k cv) = waiters cv"
proof -
  define c where "c = (if cget (cv_waiter_count cv) = 0 then cv\<lparr> cv_allow_skip := True \<rparr> else cv)"
  have inv: "cv_inv cget c" "waiters c = waiters cv"
    using assms cv_inv_idle[OF assms] by (auto simp: c_def cv_inv_def waiters_def)
  have eq: "cv_signal cget k cv = (if cv_asleep c = [] then c else cv_wake (cv_asleep c ! (k mod length (cv_asleep c))) c)"
    by (simp add: cv_signal_def Let_def c_def)
  show ?thesis
  proof (cases "cv_asleep c = []")
    case False
    then have "cv_asleep c ! (k mod length (cv_asleep c)) \<in> set (cv_asleep c)" by simp
    then show ?thesis using waiters_wake[OF _ inv(1)] inv(2) False by (simp add: eq)
  qed (simp add: eq inv)
qed

lemma waiters_wait: "waiters (cv_wait cinc cdec t cv) = (if cv_allow_skip cv then waiters cv else insert t (waiters cv))"
  by (auto simp: waiters_def cv_wait_def Let_def)

lemma waiters_return: "t \<in> set (cv_woken cv) \<Longrightarrow> cv_inv cget cv \<Longrightarrow> waiters (cv_wait_return cdec t cv) = waiters cv - {t}"
  by (auto simp: waiters_def cv_wait_return_def cv_inv_def)

definition pc_of :: "rtstate \<Rightarrow> nat \<Rightarrow> rt_pc" where
  "pc_of r t = t_pc (rt_threads r t)"

definition pc_exec :: "rt_pc \<Rightarrow> bool" where
  "pc_exec p \<longleftrightarrow> (case p of PExec _ \<Rightarrow> True | PRelock _ _ \<Rightarrow> True | _ \<Rightarrow> False)"

definition pc_pool :: "rt_pc \<Rightarrow> bool" where
  "pc_pool p \<longleftrightarrow> p = PPoolLoop \<or> p = PPoolCheck"

definition pc_run :: "rt_pc \<Rightarrow> bool" where
  "pc_run p \<longleftrightarrow> (case p of PWaitRun _ _ \<Rightarrow> True | _ \<Rightarrow> False)"

lemma pc_kinds [simp]:
  "pc_exec (PExec e)" "pc_exec (PRelock e rc)" "\<not> pc_exec PStart" "\<not> pc_exec PLoop" "\<not> pc_exec PYield" "\<not> pc_exec PPoolLoop"
  "\<not> pc_exec PPoolCheck" "\<not> pc_exec (PWaitRun e rc)" "\<not> pc_exec PExited"
  "pc_pool PPoolLoop" "pc_pool PPoolCheck" "\<not> pc_pool PStart" "\<not> pc_pool PLoop" "\<not> pc_pool PYield" "\<not> pc_pool (PExec e)"
  "\<not> pc_pool (PRelock e rc)" "\<not> pc_pool (PWaitRun e rc)" "\<not> pc_pool PExited"
  "pc_run (PWaitRun e rc)" "\<not> pc_run PStart" "\<not> pc_run PLoop" "\<not> pc_run PYield" "\<not> pc_run PPoolLoop" "\<not> pc_run PPoolCheck"
  "\<not> pc_run (PExec e)" "\<not> pc_run (PRelock e rc)" "\<not> pc_run PExited"
  by (simp_all add: pc_exec_def pc_pool_def pc_run_def)

definition threads_at :: "(rt_pc \<Rightarrow> bool) \<Rightarrow> rtstate \<Rightarrow> nat set" where
  "threads_at P r = {t. t < rt_next_thread r \<and> P (pc_of r t)}"

text \<open>The threads of the runtime: all but the one that serves the doors and those that have left.\<close>

definition live_threads :: "rtstate \<Rightarrow> nat set" where
  "live_threads r = threads_at (\<lambda>p. p \<noteq> PExited) r - set_option (rt_door_thread r)"

text \<open>The thread list holds exactly the live threads and the thread count is their number, within its
  limit; so is the number of detached events, up to \<open>d\<close> that are just being counted; only the thread
  that owns the lock runs; a condition variable holds exactly the threads that are in it.\<close>

definition rt_counts :: "int \<Rightarrow> rtstate \<Rightarrow> bool" where
  "rt_counts d r \<longleftrightarrow> distinct (rt_thread_list r) \<and> set (rt_thread_list r) = live_threads r \<and>
     (\<forall>t. rt_door_thread r = Some t \<longrightarrow> t < rt_next_thread r \<and> pc_of r t = PStart) \<and>
     rt_thread_count r = int (length (rt_thread_list r)) \<and>
     (max_thread_pool_size (rt_config r) > 0 \<longrightarrow> rt_thread_count r \<le> max_thread_pool_size (rt_config r)) \<and>
     rt_detached_count r = int (card (threads_at pc_exec r)) + d \<and>
     (max_detached_threads (rt_config r) > 0 \<longrightarrow> rt_detached_count r \<le> max_detached_threads (rt_config r))"

definition rt_waits :: "rtstate \<Rightarrow> bool" where
  "rt_waits r \<longleftrightarrow> cv_inv wc_c (rt_waiting_in_pool r) \<and> cv_inv ic_get (rt_waiting_to_run r) \<and>
     waiters (rt_waiting_in_pool r) = threads_at pc_pool r \<and> waiters (rt_waiting_to_run r) = threads_at pc_run r"

definition rt_mutex :: "rtstate \<Rightarrow> bool" where
  "rt_mutex r \<longleftrightarrow> (\<forall>t. t < rt_next_thread r \<and> pc_of r t = PLoop \<longleftrightarrow> rt_lock r = Some t)"

definition rt_inv :: "int \<Rightarrow> rtstate \<Rightarrow> bool" where
  "rt_inv d r \<longleftrightarrow> rt_counts d r \<and> rt_waits r \<and> rt_mutex r"

lemmas rt_inv_defs = rt_inv_def rt_counts_def rt_waits_def rt_mutex_def

lemma threads_at_move:
  assumes "rt_next_thread r' = rt_next_thread r" "pc_of r' = (pc_of r)(t := p)" "t < rt_next_thread r"
  shows "threads_at P r' = (if P p then insert t (threads_at P r) else threads_at P r - {t})"
  using assms by (auto simp: threads_at_def)

lemma finite_threads_at [simp]: "finite (threads_at P r)"
  by (rule finite_subset[of _ "{..<rt_next_thread r}"]) (auto simp: threads_at_def)

lemma th_upd_simps [simp]:
  "rt_thread_list (th_upd t f r) = rt_thread_list r" "rt_next_thread (th_upd t f r) = rt_next_thread r"
  "rt_thread_count (th_upd t f r) = rt_thread_count r" "rt_config (th_upd t f r) = rt_config r"
  "rt_detached_count (th_upd t f r) = rt_detached_count r" "rt_lock (th_upd t f r) = rt_lock r"
  "rt_waiting_in_pool (th_upd t f r) = rt_waiting_in_pool r" "rt_waiting_to_run (th_upd t f r) = rt_waiting_to_run r"
  "rt_running (th_upd t f r) = rt_running r" "rt_door_thread (th_upd t f r) = rt_door_thread r" "rt_queue (th_upd t f r) = rt_queue r" "rt_flows (th_upd t f r) = rt_flows r"
  by (simp_all add: th_upd_def)

lemma set_pc_simps [simp]:
  "rt_thread_list (set_pc t p r) = rt_thread_list r" "rt_next_thread (set_pc t p r) = rt_next_thread r"
  "rt_thread_count (set_pc t p r) = rt_thread_count r" "rt_config (set_pc t p r) = rt_config r"
  "rt_detached_count (set_pc t p r) = rt_detached_count r" "rt_lock (set_pc t p r) = rt_lock r"
  "rt_door_thread (set_pc t p r) = rt_door_thread r" "rt_running (set_pc t p r) = rt_running r"
  "rt_waiting_in_pool (set_pc t p r) = rt_waiting_in_pool r" "rt_waiting_to_run (set_pc t p r) = rt_waiting_to_run r"
  "pc_of (set_pc t p r) = (pc_of r)(t := p)"
  by (auto simp: set_pc_def pc_of_def th_upd_def fun_eq_iff)

lemma pc_of_th_upd: "(\<And>th. t_pc (f th) = t_pc th) \<Longrightarrow> pc_of (th_upd t f r) = pc_of r"
  by (auto simp: pc_of_def th_upd_def fun_eq_iff)

text \<open>The parts of the state the invariant looks at.\<close>

definition same_core :: "rtstate \<Rightarrow> rtstate \<Rightarrow> bool" where
  "same_core r r' \<longleftrightarrow> rt_thread_list r' = rt_thread_list r \<and> rt_next_thread r' = rt_next_thread r \<and>
     rt_thread_count r' = rt_thread_count r \<and> rt_config r' = rt_config r \<and> rt_door_thread r' = rt_door_thread r"

lemma same_coreD:
  assumes "same_core r r'"
  shows "rt_thread_list r' = rt_thread_list r" "rt_next_thread r' = rt_next_thread r"
    "rt_thread_count r' = rt_thread_count r" "rt_config r' = rt_config r" "rt_door_thread r' = rt_door_thread r"
  using assms by (simp_all add: same_core_def)

lemma rt_inv_cvs:
  assumes "same_core r r'" "rt_detached_count r' = rt_detached_count r" "rt_lock r' = rt_lock r" "pc_of r' = pc_of r"
    "waiters (rt_waiting_in_pool r') = waiters (rt_waiting_in_pool r)"
    "waiters (rt_waiting_to_run r') = waiters (rt_waiting_to_run r)"
    "cv_inv wc_c (rt_waiting_in_pool r')" "cv_inv ic_get (rt_waiting_to_run r')" "rt_inv d r"
  shows "rt_inv d r'"
proof -
  note core = assms(1)[unfolded same_core_def]
  have at: "threads_at P r' = threads_at P r" for P using core assms(4) by (simp add: threads_at_def)
  have "rt_counts d r'" using assms(9)
    unfolding rt_inv_def rt_counts_def live_threads_def at assms(2,4) same_coreD[OF assms(1)] by blast
  moreover have "rt_waits r'" using assms at by (auto simp: rt_inv_def rt_waits_def)
  moreover have "rt_mutex r'" using assms(3,4,9) core by (auto simp: rt_inv_def rt_mutex_def)
  ultimately show ?thesis by (simp add: rt_inv_def)
qed

lemma rt_inv_cong:
  assumes "same_core r r'" "rt_detached_count r' = rt_detached_count r" "rt_lock r' = rt_lock r" "pc_of r' = pc_of r"
    "rt_waiting_in_pool r' = rt_waiting_in_pool r" "rt_waiting_to_run r' = rt_waiting_to_run r"
  shows "rt_inv d r' \<longleftrightarrow> rt_inv d r"
proof -
  have sym: "same_core r' r" using assms(1) by (simp add: same_core_def)
  show ?thesis
  proof
    assume a: "rt_inv d r'"
    then have "cv_inv wc_c (rt_waiting_in_pool r)" "cv_inv ic_get (rt_waiting_to_run r)"
      unfolding rt_inv_def rt_waits_def assms(5,6) by blast+
    then show "rt_inv d r" using rt_inv_cvs[OF sym assms(2-4)[symmetric] _ _ _ _ a] unfolding assms(5,6) by blast
  next
    assume a: "rt_inv d r"
    then have "cv_inv wc_c (rt_waiting_in_pool r')" "cv_inv ic_get (rt_waiting_to_run r')"
      unfolding rt_inv_def rt_waits_def assms(5,6) by blast+
    then show "rt_inv d r'" using rt_inv_cvs[OF assms(1-4) _ _ _ _ a] unfolding assms(5,6) by blast
  qed
qed

lemma rt_inv_detached:
  assumes inv: "rt_inv d r" and core: "same_core r r'" and det: "rt_detached_count r' = rt_detached_count r + n"
    and lock: "rt_lock r' = rt_lock r" and pc: "pc_of r' = pc_of r" and cvs: "rt_waiting_in_pool r' = rt_waiting_in_pool r"
    "rt_waiting_to_run r' = rt_waiting_to_run r"
    and n: "n \<le> 0 \<or> (max_detached_threads (rt_config r) > 0 \<longrightarrow> rt_detached_count r + n \<le> max_detached_threads (rt_config r))"
  shows "rt_inv (d + n) r'"
proof -
  have at: "threads_at P r' = threads_at P r" for P unfolding threads_at_def same_coreD[OF core] pc ..
  have c0: "rt_counts d r" using inv by (simp add: rt_inv_def)
  then have "rt_detached_count r + n = int (card (threads_at pc_exec r)) + (d + n)"
    "max_detached_threads (rt_config r) > 0 \<longrightarrow> rt_detached_count r + n \<le> max_detached_threads (rt_config r)"
    using n unfolding rt_counts_def by linarith+
  then have "rt_counts (d + n) r'"
    using c0 unfolding rt_counts_def live_threads_def at det pc same_coreD[OF core] by blast
  moreover have "rt_waits r'" using inv unfolding rt_inv_def rt_waits_def at cvs by blast
  moreover have "rt_mutex r'" using inv unfolding rt_inv_def rt_mutex_def pc lock same_coreD[OF core] by blast
  ultimately show ?thesis by (simp add: rt_inv_def)
qed

text \<open>One thread moves to another place.\<close>

lemma rt_inv_move:
  assumes inv: "rt_inv d r" and core: "same_core r r'" and det: "rt_detached_count r' = rt_detached_count r"
    and pc: "pc_of r' = (pc_of r)(t := p)" and t: "t < rt_next_thread r" "pc_of r t \<noteq> PExited" "p \<noteq> PExited"
    and door: "rt_door_thread r \<noteq> Some t"
    and cvs: "cv_inv wc_c (rt_waiting_in_pool r')" "cv_inv ic_get (rt_waiting_to_run r')"
    and pool: "waiters (rt_waiting_in_pool r') =
      (if pc_pool p then insert t (waiters (rt_waiting_in_pool r)) else waiters (rt_waiting_in_pool r) - {t})"
    and run: "waiters (rt_waiting_to_run r') =
      (if pc_run p then insert t (waiters (rt_waiting_to_run r)) else waiters (rt_waiting_to_run r) - {t})"
    and lock: "rt_lock r' = (if p = PLoop then Some t else if pc_of r t = PLoop then None else rt_lock r)"
      "p = PLoop \<Longrightarrow> rt_lock r = None"
  shows "rt_inv (d + of_bool (pc_exec (pc_of r t)) - of_bool (pc_exec p)) r'"
proof -
  note c = core[unfolded same_core_def]
  have at: "threads_at P r' = (if P p then insert t (threads_at P r) else threads_at P r - {t})" for P
    using threads_at_move[OF _ pc t(1)] c by blast
  have in_at: "t \<in> threads_at P r \<longleftrightarrow> P (pc_of r t)" for P using t(1) by (simp add: threads_at_def)
  have card: "int (card (threads_at pc_exec r)) =
      int (card (threads_at pc_exec r')) + of_bool (pc_exec (pc_of r t)) - of_bool (pc_exec p)"
    using in_at[of pc_exec] card_gt_0_iff[of "threads_at pc_exec r"]
    by (cases "t \<in> threads_at pc_exec r") (auto simp: at insert_absorb)
  have live: "live_threads r' = live_threads r"
    using in_at[of "\<lambda>p. p \<noteq> PExited"] t c by (auto simp: live_threads_def at)
  have c0: "rt_counts d r" using inv by (simp add: rt_inv_def)
  then have dr: "\<forall>u. rt_door_thread r = Some u \<longrightarrow> u < rt_next_thread r \<and> ((pc_of r)(t := p)) u = PStart"
    using door unfolding rt_counts_def by auto
  have "rt_detached_count r = int (card (threads_at pc_exec r')) + (d + of_bool (pc_exec (pc_of r t)) - of_bool (pc_exec p))"
    using card c0 unfolding rt_counts_def by linarith
  then have "rt_counts (d + of_bool (pc_exec (pc_of r t)) - of_bool (pc_exec p)) r'"
    using c0 dr unfolding rt_counts_def live det same_coreD[OF core] pc by blast
  moreover have "rt_waits r'"
    using inv unfolding rt_inv_def rt_waits_def pool run at by (simp only: cvs simp_thms)
  moreover have "rt_mutex r'"
  proof -
    have m: "u < rt_next_thread r \<and> pc_of r u = PLoop \<longleftrightarrow> rt_lock r = Some u" for u
      using inv unfolding rt_inv_def rt_mutex_def by blast
    have "(u < rt_next_thread r \<and> ((pc_of r)(t := p)) u = PLoop) = (rt_lock r' = Some u)" for u
      using m[of u] m[of t] t(1) lock by (cases "u = t"; cases "p = PLoop"; cases "pc_of r t = PLoop") auto
    then show ?thesis unfolding rt_mutex_def pc same_coreD[OF core] by blast
  qed
  ultimately show ?thesis by (simp add: rt_inv_def)
qed

lemma rt_inv_th [simp]: "(\<And>th. t_pc (f th) = t_pc th) \<Longrightarrow> rt_inv d (th_upd t f r) \<longleftrightarrow> rt_inv d r"
  by (rule rt_inv_cong) (simp_all add: pc_of_th_upd same_core_def)

lemma rt_inv_fields [simp]:
  "rt_inv d (r\<lparr> rt_queue := q \<rparr>) \<longleftrightarrow> rt_inv d r" "rt_inv d (r\<lparr> rt_flows := fs \<rparr>) \<longleftrightarrow> rt_inv d r"
  "rt_inv d (r\<lparr> rt_running := b \<rparr>) \<longleftrightarrow> rt_inv d r" "rt_inv d (r\<lparr> rt_load_flow_next := b \<rparr>) \<longleftrightarrow> rt_inv d r"
  "rt_inv d (r\<lparr> rt_sample_counter := c \<rparr>) \<longleftrightarrow> rt_inv d r"
  by (rule rt_inv_cong; simp add: pc_of_def fun_eq_iff same_core_def)+

lemma rt_inv_cv_invs: "rt_inv d r \<Longrightarrow> cv_inv wc_c (rt_waiting_in_pool r)" "rt_inv d r \<Longrightarrow> cv_inv ic_get (rt_waiting_to_run r)"
  by (simp_all add: rt_inv_def rt_waits_def)

lemma rt_inv_waiters:
  assumes "rt_inv d r"
  shows "t \<in> waiters (rt_waiting_in_pool r) \<longleftrightarrow> t < rt_next_thread r \<and> pc_pool (pc_of r t)"
    "t \<in> waiters (rt_waiting_to_run r) \<longleftrightarrow> t < rt_next_thread r \<and> pc_run (pc_of r t)"
  using assms unfolding rt_inv_def rt_waits_def threads_at_def by blast+

lemma rt_inv_not_door: "rt_inv d r \<Longrightarrow> pc_of r t \<noteq> PStart \<Longrightarrow> rt_door_thread r \<noteq> Some t"
  by (auto simp: rt_inv_def rt_counts_def)

lemma rt_inv_signal:
  assumes "rt_inv d r"
  shows "rt_inv d (signal_to_run k r)" "rt_inv d (signal_in_pool k r)"
proof -
  note i = rt_inv_cv_invs[OF assms]
  note st = wc.cv_inv_step[OF cv_step.signal i(1), of k] ic.cv_inv_step[OF cv_step.signal i(2), of k]
  have "pc_of (signal_to_run k r) = pc_of r" "pc_of (signal_in_pool k r) = pc_of r"
    by (simp_all add: signal_to_run_def signal_in_pool_def pc_of_def fun_eq_iff)
  note c = rt_inv_cvs[OF _ _ _ this(1) _ _ _ _ assms] rt_inv_cvs[OF _ _ _ this(2) _ _ _ _ assms]
  show "rt_inv d (signal_to_run k r)" by (rule c(1)) (use i st in \<open>simp_all add: signal_to_run_def waiters_signal same_core_def\<close>)
  show "rt_inv d (signal_in_pool k r)" by (rule c(2)) (use i st in \<open>simp_all add: signal_in_pool_def waiters_signal same_core_def\<close>)
qed

lemma rt_inv_new_thread:
  assumes "rt_inv d r" "max_thread_pool_size (rt_config r) > 0 \<longrightarrow> rt_thread_count r < max_thread_pool_size (rt_config r)"
    and "new_RunTimeThread switch r = (t, r1)"
  shows "rt_inv d (r1\<lparr> rt_thread_count := rt_thread_count r1 + 1, rt_thread_list := t # rt_thread_list r1 \<rparr>)"
proof -
  define r2 where "r2 = r1\<lparr> rt_thread_count := rt_thread_count r1 + 1, rt_thread_list := t # rt_thread_list r1 \<rparr>"
  have r1: "t = rt_next_thread r" "r1 = r\<lparr> rt_next_thread := t + 1, rt_threads := (rt_threads r)(t := thread_new switch) \<rparr>"
    using assms(3) by (auto simp: new_RunTimeThread_def Let_def)
  have f: "rt_next_thread r2 = Suc (rt_next_thread r)" "rt_thread_list r2 = rt_next_thread r # rt_thread_list r"
    "rt_thread_count r2 = rt_thread_count r + 1" "rt_config r2 = rt_config r" "rt_detached_count r2 = rt_detached_count r"
    "rt_lock r2 = rt_lock r" "rt_waiting_in_pool r2 = rt_waiting_in_pool r" "rt_waiting_to_run r2 = rt_waiting_to_run r"
    "rt_door_thread r2 = rt_door_thread r"
    by (simp_all add: r2_def r1)
  have pc: "pc_of r2 = (pc_of r)(rt_next_thread r := PStart)" by (auto simp: r2_def r1 pc_of_def thread_new_def fun_eq_iff)
  have at: "threads_at P r2 = (if P PStart then insert (rt_next_thread r) (threads_at P r) else threads_at P r)" for P
    by (auto simp: threads_at_def f pc less_Suc_eq)
  have door: "\<forall>t. rt_door_thread r = Some t \<longrightarrow> t < rt_next_thread r \<and> pc_of r t = PStart"
    using assms(1) by (simp add: rt_inv_def rt_counts_def)
  then have "live_threads r2 = insert (rt_next_thread r) (live_threads r)" by (auto simp: live_threads_def at f)
  moreover have "rt_next_thread r \<notin> live_threads r" by (simp add: live_threads_def threads_at_def)
  ultimately have "rt_counts d r2" using assms(1,2) door by (auto simp: rt_inv_def rt_counts_def f at pc less_Suc_eq)
  moreover have "rt_waits r2" using assms(1) by (simp add: rt_inv_def rt_waits_def f at)
  moreover have "rt_mutex r2" using assms(1) unfolding rt_inv_def rt_mutex_def f pc by (auto simp: less_Suc_eq)
  ultimately show ?thesis by (simp add: rt_inv_def r2_def)
qed

lemma rt_inv_wake:
  assumes "rt_inv d r"
  shows "rt_inv d (wake_another_thread switch k r)"
proof (cases "rt_running r \<and> pool_count r = 0 \<and> canThreadMore r")
  case True
  then have "max_thread_pool_size (rt_config r) > 0 \<longrightarrow> rt_thread_count r < max_thread_pool_size (rt_config r)"
    by (auto simp: canThreadMore_def)
  from rt_inv_new_thread[OF assms this] True show ?thesis
    by (cases "new_RunTimeThread switch r") (simp add: wake_another_thread_def)
next
  case False
  then show ?thesis unfolding wake_another_thread_def using rt_inv_signal[OF assms] by (simp only: if_False) simp
qed

lemma wake_lock [simp]: "rt_lock (wake_another_thread switch k r) = rt_lock r"
  by (simp add: wake_another_thread_def new_RunTimeThread_def Let_def signal_to_run_def signal_in_pool_def)

lemma signal_lock [simp]: "rt_lock (signal_to_run k r) = rt_lock r"
  by (simp add: signal_to_run_def)

lemma unlock_simps [simp]:
  "rt_thread_list (unlock r) = rt_thread_list r" "rt_next_thread (unlock r) = rt_next_thread r"
  "rt_thread_count (unlock r) = rt_thread_count r" "rt_config (unlock r) = rt_config r"
  "rt_detached_count (unlock r) = rt_detached_count r" "rt_lock (unlock r) = None" "rt_door_thread (unlock r) = rt_door_thread r" "pc_of (unlock r) = pc_of r"
  "rt_waiting_in_pool (unlock r) = rt_waiting_in_pool r" "rt_waiting_to_run (unlock r) = rt_waiting_to_run r"
  by (auto simp: unlock_def pc_of_def fun_eq_iff)

text \<open>The running thread is in neither condition variable.\<close>

lemma running_not_waiting:
  assumes "rt_inv d r" "rt_lock r = Some t"
  shows "t < rt_next_thread r" "pc_of r t = PLoop" "t \<notin> waiters (rt_waiting_in_pool r)" "t \<notin> waiters (rt_waiting_to_run r)"
proof -
  show t: "t < rt_next_thread r" "pc_of r t = PLoop" using assms by (auto simp: rt_inv_defs)
  then show "t \<notin> waiters (rt_waiting_in_pool r)" "t \<notin> waiters (rt_waiting_to_run r)"
    using assms by (auto simp: rt_inv_def rt_waits_def threads_at_def)
qed

text \<open>Leaving for a detached event.\<close>

lemma rt_inv_detach:
  assumes "rt_inv d r" "rt_lock r = Some t"
  shows "rt_inv (d - 1) (unlock (set_pc t (PExec e) r))"
proof -
  note f = running_not_waiting[OF assms] and i = rt_inv_cv_invs[OF assms(1)]
  have "rt_inv (d + of_bool (pc_exec (pc_of r t)) - of_bool (pc_exec (PExec e))) (unlock (set_pc t (PExec e) r))"
    by (rule rt_inv_move[OF assms(1)]) (use f i rt_inv_not_door[OF assms(1), of t] in \<open>simp_all add: same_core_def\<close>)
  then show ?thesis using f by simp
qed

lemma rt_inv_yield:
  assumes "rt_inv d r" "rt_lock r = Some t"
  shows "rt_inv d (unlock (set_pc t PYield r))"
proof -
  note f = running_not_waiting[OF assms] and i = rt_inv_cv_invs[OF assms(1)]
  have "rt_inv (d + of_bool (pc_exec (pc_of r t)) - of_bool (pc_exec PYield)) (unlock (set_pc t PYield r))"
    by (rule rt_inv_move[OF assms(1)]) (use f i rt_inv_not_door[OF assms(1), of t] in \<open>simp_all add: same_core_def\<close>)
  then show ?thesis using f by simp
qed

lemma rt_inv_wait_in_pool:
  assumes "rt_inv d r" "rt_lock r = Some t" "pc_pool p" "wait_in_pool t p r = (go, r')"
  shows "rt_inv d r'" "go \<Longrightarrow> rt_lock r' = Some t"
proof -
  note f = running_not_waiting[OF assms(1,2)] and i = rt_inv_cv_invs[OF assms(1)]
  have cv: "cv_inv wc_c (cv_wait wc_inc wc_dec t (rt_waiting_in_pool r))"
    by (rule wc.cv_inv_step[OF cv_step.wait]) (use f(3) i in \<open>auto simp: waiters_def\<close>)
  have p: "p \<noteq> PLoop" "p \<noteq> PExited" "\<not> pc_run p" "\<not> pc_exec p" using assms(3) by (auto simp: pc_pool_def)
  let ?r1 = "r\<lparr> rt_waiting_in_pool := cv_wait wc_inc wc_dec t (rt_waiting_in_pool r) \<rparr>"
  have pc1: "pc_of ?r1 = pc_of r" by (simp add: pc_of_def fun_eq_iff)
  show "rt_inv d r'"
  proof (cases "cv_allow_skip (rt_waiting_in_pool r)")
    case True
    then have r': "r' = th_upd t (\<lambda>th. th\<lparr> t_wait_state := RTTWS_running \<rparr>) ?r1"
      using assms(4) by (auto simp: wait_in_pool_def Let_def)
    have "rt_inv d ?r1" by (rule rt_inv_cvs[OF _ _ _ pc1 _ _ _ _ assms(1)]) (use cv i True in \<open>simp_all add: waiters_wait same_core_def\<close>)
    then show ?thesis by (simp add: r')
  next
    case False
    then have r': "r' = unlock (set_pc t p (th_upd t (\<lambda>th. th\<lparr> t_wait_state := RTTWS_wip \<rparr>) ?r1))"
      using assms(4) by (auto simp: wait_in_pool_def Let_def)
    have pc: "pc_of r' = (pc_of r)(t := p)" unfolding r' by (simp add: pc_of_th_upd pc1)
    have "rt_inv (d + of_bool (pc_exec (pc_of r t)) - of_bool (pc_exec p)) r'"
      by (rule rt_inv_move[OF assms(1) _ _ pc]) (use f i cv p assms(3) False rt_inv_not_door[OF assms(1), of t] in \<open>simp_all add: same_core_def r' waiters_wait\<close>)
    then show ?thesis using f(2) p by simp
  qed
  show "go \<Longrightarrow> rt_lock r' = Some t"
    using assms(2,4) by (auto simp: wait_in_pool_def Let_def split: if_splits)
qed

lemma rt_inv_wait_to_run:
  assumes "rt_inv d r" "rt_lock r = Some t" "pc_run p" "wait_to_run t p r = (go, r')"
  shows "rt_inv d r'" "go \<Longrightarrow> rt_lock r' = Some t"
proof -
  note f = running_not_waiting[OF assms(1,2)] and i = rt_inv_cv_invs[OF assms(1)]
  have cv: "cv_inv ic_get (cv_wait ic_inc ic_dec t (rt_waiting_to_run r))"
    by (rule ic.cv_inv_step[OF cv_step.wait]) (use f(4) i in \<open>auto simp: waiters_def\<close>)
  have p: "p \<noteq> PLoop" "p \<noteq> PExited" "\<not> pc_pool p" "\<not> pc_exec p" using assms(3) by (cases p; simp)+
  let ?r1 = "r\<lparr> rt_waiting_to_run := cv_wait ic_inc ic_dec t (rt_waiting_to_run r) \<rparr>"
  have pc1: "pc_of ?r1 = pc_of r" by (simp add: pc_of_def fun_eq_iff)
  show "rt_inv d r'"
  proof (cases "cv_allow_skip (rt_waiting_to_run r)")
    case True
    then have r': "r' = th_upd t (\<lambda>th. th\<lparr> t_wait_state := RTTWS_running \<rparr>) ?r1"
      using assms(4) by (auto simp: wait_to_run_def Let_def)
    have "rt_inv d ?r1" by (rule rt_inv_cvs[OF _ _ _ pc1 _ _ _ _ assms(1)]) (use cv i True in \<open>simp_all add: waiters_wait same_core_def\<close>)
    then show ?thesis by (simp add: r')
  next
    case False
    then have r': "r' = unlock (set_pc t p (th_upd t (\<lambda>th. th\<lparr> t_wait_state := RTTWS_wtr \<rparr>) ?r1))"
      using assms(4) by (auto simp: wait_to_run_def Let_def)
    have pc: "pc_of r' = (pc_of r)(t := p)" unfolding r' by (simp add: pc_of_th_upd pc1)
    have "rt_inv (d + of_bool (pc_exec (pc_of r t)) - of_bool (pc_exec p)) r'"
      by (rule rt_inv_move[OF assms(1) _ _ pc]) (use f i cv p assms(3) False rt_inv_not_door[OF assms(1), of t] in \<open>simp_all add: same_core_def r' waiters_wait\<close>)
    then show ?thesis using f(2) p by simp
  qed
  show "go \<Longrightarrow> rt_lock r' = Some t"
    using assms(2,4) by (auto simp: wait_to_run_def Let_def split: if_splits)
qed

text \<open>Getting the lock: at the start of the thread, back from the pool, back in the line.\<close>

lemma rt_inv_start:
  assumes "rt_inv d r" "pc_of r t = PStart \<or> pc_of r t = PYield" "t < rt_next_thread r" "rt_lock r = None" "rt_door_thread r \<noteq> Some t"
  shows "rt_inv d (set_pc t PLoop (r\<lparr> rt_lock := Some t \<rparr>))"
proof -
  note i = rt_inv_cv_invs[OF assms(1)]
  have w: "t \<notin> waiters (rt_waiting_in_pool r)" "t \<notin> waiters (rt_waiting_to_run r)"
    using assms(2) unfolding rt_inv_waiters[OF assms(1)] by auto
  let ?r' = "set_pc t PLoop (r\<lparr> rt_lock := Some t \<rparr>)"
  have pc: "pc_of ?r' = (pc_of r)(t := PLoop)" by (simp add: pc_of_def set_pc_def th_upd_def fun_eq_iff)
  have "rt_inv (d + of_bool (pc_exec (pc_of r t)) - of_bool (pc_exec PLoop)) ?r'"
    by (rule rt_inv_move[OF assms(1) _ _ pc]) (use i w assms(2-) rt_inv_not_door[OF assms(1), of t] in \<open>auto simp: same_core_def\<close>)
  then show ?thesis using assms(2) by auto
qed

lemma rt_inv_from_pool:
  assumes "rt_inv d r" "pc_pool (pc_of r t)" "t \<in> set (cv_woken (rt_waiting_in_pool r))" "rt_lock r = None"
  shows "rt_inv d (set_pc t PLoop (r\<lparr> rt_lock := Some t, rt_waiting_in_pool := cv_wait_return wc_dec t (rt_waiting_in_pool r) \<rparr>))"
proof -
  note i = rt_inv_cv_invs[OF assms(1)]
  have "t \<in> waiters (rt_waiting_in_pool r)" using assms(3) by (simp add: waiters_def)
  then have w: "t < rt_next_thread r" "t \<notin> waiters (rt_waiting_to_run r)"
    using assms(2) unfolding rt_inv_waiters[OF assms(1)] by (auto simp: pc_pool_def)
  have cv: "cv_inv wc_c (cv_wait_return wc_dec t (rt_waiting_in_pool r))"
    by (rule wc.cv_inv_step[OF cv_step.resume[OF assms(3)] i(1)])
  let ?r' = "set_pc t PLoop (r\<lparr> rt_lock := Some t, rt_waiting_in_pool := cv_wait_return wc_dec t (rt_waiting_in_pool r) \<rparr>)"
  have pc: "pc_of ?r' = (pc_of r)(t := PLoop)" by (simp add: pc_of_def set_pc_def th_upd_def fun_eq_iff)
  have p: "pc_of r t \<noteq> PExited" "pc_of r t \<noteq> PLoop" "\<not> pc_exec (pc_of r t)" "pc_of r t \<noteq> PStart"
    using assms(2) by (auto simp: pc_pool_def)
  have "rt_inv (d + of_bool (pc_exec (pc_of r t)) - of_bool (pc_exec PLoop)) ?r'"
    by (rule rt_inv_move[OF assms(1) _ _ pc])
      (use i w cv p assms rt_inv_not_door[OF assms(1), of t] waiters_return[OF assms(3) i(1)] in \<open>simp_all add: same_core_def\<close>)
  then show ?thesis using p by simp
qed

lemma rt_inv_from_line:
  assumes "rt_inv d r" "pc_run (pc_of r t)" "t \<in> set (cv_woken (rt_waiting_to_run r))" "rt_lock r = None"
  shows "rt_inv d (set_pc t PLoop (r\<lparr> rt_lock := Some t, rt_waiting_to_run := cv_wait_return ic_dec t (rt_waiting_to_run r) \<rparr>))"
proof -
  note i = rt_inv_cv_invs[OF assms(1)]
  have p: "pc_of r t \<noteq> PExited" "pc_of r t \<noteq> PLoop" "\<not> pc_exec (pc_of r t)" "\<not> pc_pool (pc_of r t)" "pc_of r t \<noteq> PStart"
    using assms(2) by (cases "pc_of r t"; simp)+
  have "t \<in> waiters (rt_waiting_to_run r)" using assms(3) by (simp add: waiters_def)
  then have w: "t < rt_next_thread r" "t \<notin> waiters (rt_waiting_in_pool r)"
    using p unfolding rt_inv_waiters[OF assms(1)] by auto
  have cv: "cv_inv ic_get (cv_wait_return ic_dec t (rt_waiting_to_run r))"
    by (rule ic.cv_inv_step[OF cv_step.resume[OF assms(3)] i(2)])
  let ?r' = "set_pc t PLoop (r\<lparr> rt_lock := Some t, rt_waiting_to_run := cv_wait_return ic_dec t (rt_waiting_to_run r) \<rparr>)"
  have pc: "pc_of ?r' = (pc_of r)(t := PLoop)" by (simp add: pc_of_def set_pc_def th_upd_def fun_eq_iff)
  have "rt_inv (d + of_bool (pc_exec (pc_of r t)) - of_bool (pc_exec PLoop)) ?r'"
    by (rule rt_inv_move[OF assms(1) _ _ pc])
      (use i w cv p assms rt_inv_not_door[OF assms(1), of t] waiters_return[OF assms(3) i(2)] in \<open>simp_all add: same_core_def\<close>)
  then show ?thesis using p by simp
qed

lemma rt_inv_relock:
  assumes "rt_inv d r" "pc_of r t = PRelock e rc" "t < rt_next_thread r" "rt_lock r = None"
  shows "rt_inv d (set_pc t PLoop (detached_end t (r\<lparr> rt_lock := Some t \<rparr>)))"
proof -
  note i = rt_inv_cv_invs[OF assms(1)]
  have w: "t \<notin> waiters (rt_waiting_in_pool r)" "t \<notin> waiters (rt_waiting_to_run r)"
    using assms(2) unfolding rt_inv_waiters[OF assms(1)] by auto
  let ?r1 = "set_pc t PLoop (r\<lparr> rt_lock := Some t \<rparr>)"
  let ?r2 = "set_pc t PLoop (detached_end t (r\<lparr> rt_lock := Some t \<rparr>))"
  have pc1: "pc_of ?r1 = (pc_of r)(t := PLoop)" by (simp add: pc_of_def set_pc_def th_upd_def fun_eq_iff)
  have "rt_inv (d + of_bool (pc_exec (pc_of r t)) - of_bool (pc_exec PLoop)) ?r1"
    by (rule rt_inv_move[OF assms(1) _ _ pc1]) (use i w assms rt_inv_not_door[OF assms(1), of t] in \<open>simp_all add: same_core_def\<close>)
  moreover have "of_bool (pc_exec (pc_of r t)) = (1::int)" "of_bool (pc_exec PLoop) = (0::int)" using assms(2) by simp_all
  ultimately have inv1: "rt_inv (d + 1) ?r1" by simp
  have pc2: "pc_of ?r2 = (pc_of r)(t := PLoop)" by (simp add: pc_of_def detached_end_def set_pc_def th_upd_def fun_eq_iff)
  have "rt_inv (d + 1 + - 1) ?r2"
    by (rule rt_inv_detached[OF inv1 _ _ _ trans[OF pc2 pc1[symmetric]]]; simp add: same_core_def detached_end_def)
  then show ?thesis by simp
qed

text \<open>Changing the place of a thread commutes with waking another one.\<close>

lemma th_upd_twice: "th_upd t f (th_upd t g r) = th_upd t (f \<circ> g) r"
  by (simp add: th_upd_def)

lemma wake_th_upd:
  assumes "t < rt_next_thread r"
  shows "wake_another_thread switch k (th_upd t f r) = th_upd t f (wake_another_thread switch k r)"
  using assms by (auto simp: wake_another_thread_def new_RunTimeThread_def Let_def th_upd_def signal_to_run_def
      signal_in_pool_def pool_count_def run_count_def canThreadMore_def fun_upd_twist)

lemma wake_unlock: "wake_another_thread switch k (unlock r) = unlock (wake_another_thread switch k r)"
  by (auto simp: wake_another_thread_def new_RunTimeThread_def Let_def unlock_def signal_to_run_def
      signal_in_pool_def pool_count_def run_count_def canThreadMore_def)

lemma rt_remove_simps [simp]:
  "rt_next_thread (rt_remove t r) = rt_next_thread r" "rt_config (rt_remove t r) = rt_config r"
  "rt_detached_count (rt_remove t r) = rt_detached_count r" "rt_lock (rt_remove t r) = rt_lock r"
  "rt_waiting_in_pool (rt_remove t r) = rt_waiting_in_pool r" "rt_waiting_to_run (rt_remove t r) = rt_waiting_to_run r"
  "rt_door_thread (rt_remove t r) = rt_door_thread r" "pc_of (rt_remove t r) = pc_of r"
  by (simp_all add: rt_remove_def pc_of_def fun_eq_iff)

lemma rt_inv_remove:
  assumes "rt_inv d r" "rt_lock r = Some t"
  shows "rt_inv d (unlock (set_pc t PExited (rt_remove t r)))"
proof -
  note f = running_not_waiting[OF assms] and w = rt_inv_waiters[OF assms(1)]
  let ?r' = "unlock (set_pc t PExited (rt_remove t r))"
  have at: "threads_at P ?r' = (if P PExited then insert t (threads_at P r) else threads_at P r - {t})" for P
    by (rule threads_at_move) (use f in simp_all)
  have same: "threads_at P ?r' = threads_at P r" if "\<not> P PExited" "\<not> P PLoop" for P
    using that f by (simp add: at) (simp add: threads_at_def)
  have c0: "rt_counts d r" using assms(1) by (simp add: rt_inv_def)
  have live: "live_threads ?r' = live_threads r - {t}" by (auto simp: live_threads_def at)
  have c: "distinct (rt_thread_list r)" "set (rt_thread_list r) = live_threads r"
    "\<forall>u. rt_door_thread r = Some u \<longrightarrow> u < rt_next_thread r \<and> ((pc_of r)(t := PExited)) u = PStart" "rt_thread_count r = int (length (rt_thread_list r))"
    "max_thread_pool_size (rt_config r) > 0 \<longrightarrow> rt_thread_count r \<le> max_thread_pool_size (rt_config r)"
    "rt_detached_count r = int (card (threads_at pc_exec r)) + d"
    "max_detached_threads (rt_config r) > 0 \<longrightarrow> rt_detached_count r \<le> max_detached_threads (rt_config r)"
    using c0 f(2) unfolding rt_counts_def by auto
  have sets: "set (rt_thread_list ?r') = live_threads ?r'" "distinct (rt_thread_list ?r')"
    unfolding live using c(1,2) by (auto simp: rt_remove_def)
  have counts: "rt_thread_count ?r' = int (length (rt_thread_list ?r'))" "rt_thread_count ?r' \<le> rt_thread_count r"
    using c(4) length_pos_if_in_set[of t "rt_thread_list r"]
    by (cases "t \<in> set (rt_thread_list r)"; simp add: rt_remove_def length_remove1; linarith)+
  have rest: "rt_door_thread ?r' = rt_door_thread r" "rt_next_thread ?r' = rt_next_thread r" "rt_config ?r' = rt_config r"
    "rt_detached_count ?r' = rt_detached_count r" "threads_at pc_exec ?r' = threads_at pc_exec r" "rt_lock ?r' = None"
    "pc_of ?r' = (pc_of r)(t := PExited)"
    by (simp_all add: same)
  have "max_thread_pool_size (rt_config r) > 0 \<longrightarrow> rt_thread_count ?r' \<le> max_thread_pool_size (rt_config r)"
    using counts(2) c(5) by linarith
  then have "rt_counts d ?r'" using sets counts(1) c(3,6,7) unfolding rt_counts_def rest by blast
  moreover have "rt_waits ?r'" using assms(1) same[of pc_pool] same[of pc_run] by (simp add: rt_inv_def rt_waits_def)
  moreover have "rt_mutex ?r'"
  proof -
    have m: "u < rt_next_thread r \<and> pc_of r u = PLoop \<longleftrightarrow> rt_lock r = Some u" for u
      using assms(1) unfolding rt_inv_def rt_mutex_def by blast
    have "\<not> (u < rt_next_thread r \<and> ((pc_of r)(t := PExited)) u = PLoop)" for u
      using m[of u] assms(2) by (cases "u = t") auto
    then show ?thesis unfolding rt_mutex_def rest by simp
  qed
  ultimately show ?thesis by (simp add: rt_inv_def)
qed

lemma rt_inv_thread_exit:
  assumes "rt_inv d r" "rt_lock r = Some t"
  shows "rt_inv d (thread_exit switch k t r)"
proof -
  note f = running_not_waiting[OF assms]
  let ?off = "\<lambda>th. th\<lparr> t_thread_running := False \<rparr>"
  have eq: "unlock (set_pc t PExited (th_upd t ?off r)) = th_upd t ?off (unlock (set_pc t PExited r))" for r
    by (cases "rt_threads r t") (simp add: unlock_def set_pc_def th_upd_def)
  define r1 where "r1 = rt_remove t r"
  have r1: "t < rt_next_thread r1" "rt_inv d (unlock (set_pc t PExited r1))"
    using f(1) rt_inv_remove[OF assms] by (simp_all add: r1_def)
  have "wake_another_thread switch k (unlock (set_pc t PExited r1)) = unlock (set_pc t PExited (wake_another_thread switch k r1))"
    unfolding set_pc_def wake_unlock using wake_th_upd[OF r1(1)] by simp
  then have "rt_inv d (unlock (set_pc t PExited (wake_another_thread switch k r1)))"
    using rt_inv_wake[OF r1(2), of switch k] by simp
  then show ?thesis using r1(2) by (simp add: thread_exit_def Let_def eq flip: r1_def)
qed

lemma rt_inv_set_loop:
  assumes "rt_inv d r" "rt_lock r = Some t"
  shows "rt_inv d (set_pc t PLoop r)"
proof -
  have "pc_of (set_pc t PLoop r) = pc_of r" using running_not_waiting(2)[OF assms] by (simp add: fun_eq_iff)
  then have "rt_inv d (set_pc t PLoop r) \<longleftrightarrow> rt_inv d r" by (rule rt_inv_cong[rotated 3]) (simp_all add: same_core_def)
  then show ?thesis using assms(1) by simp
qed

lemma rt_inv_shed: "rt_inv d (shed_threads n ts r) \<longleftrightarrow> rt_inv d r"
  by (induction n ts r rule: shed_threads.induct) simp_all

lemma shed_lock [simp]: "rt_lock (shed_threads n ts r) = rt_lock r"
  by (induction n ts r rule: shed_threads.induct) simp_all

lemma rt_inv_next_sample:
  assumes "rt_inv d r"
  shows "rt_inv d (r\<lparr> rt_waiting_in_pool := (rt_waiting_in_pool r)
            \<lparr> cv_waiter_count := wc_next_sample (cv_waiter_count (rt_waiting_in_pool r)) \<rparr> \<rparr>)"
  by (rule rt_inv_cvs[OF _ _ _ _ _ _ _ _ assms])
    (use rt_inv_cv_invs[OF assms] in \<open>simp_all add: same_core_def pc_of_def fun_eq_iff waiters_def cv_inv_def wc_next_sample_def Let_def\<close>)

lemma rt_inv_collect_tick:
  assumes "rt_inv d r"
  shows "rt_inv d (collect_tick r)" "rt_lock (collect_tick r) = rt_lock r"
proof -
  have coll: "rt_inv d (doThreadCollection r1)" "rt_lock (doThreadCollection r1) = rt_lock r1" if "rt_inv d r1" for r1
    using that by (auto simp: doThreadCollection_def Let_def rt_inv_shed intro!: rt_inv_next_sample)
  show "rt_inv d (collect_tick r)" using coll(1) assms by (simp add: collect_tick_def Let_def)
  show "rt_lock (collect_tick r) = rt_lock r"
    using coll(2)[of "r\<lparr> rt_sample_counter := 0 \<rparr>"] assms by (simp add: collect_tick_def Let_def)
qed

lemma rt_inv_detached_begin:
  assumes "rt_inv 0 r" "rt_lock r = Some t" "canDetachMore r"
  shows "rt_inv 0 (unlock (set_pc t (PExec e) (detached_begin switch k t r)))"
proof -
  let ?r1 = "th_upd t (\<lambda>th. th\<lparr> t_detached := True \<rparr>) (r\<lparr> rt_detached_count := rt_detached_count r + 1 \<rparr>)"
  have pc: "pc_of ?r1 = pc_of r" by (simp add: pc_of_def th_upd_def fun_eq_iff)
  have "rt_inv (0 + 1) ?r1"
    by (rule rt_inv_detached[OF assms(1) _ _ _ pc]) (use assms(3) in \<open>auto simp: same_core_def canDetachMore_def\<close>)
  then have "rt_inv 1 (detached_begin switch k t r)" unfolding detached_begin_def using rt_inv_wake by simp
  moreover have "rt_lock (detached_begin switch k t r) = Some t" using assms(2) by (simp add: detached_begin_def)
  ultimately show ?thesis using rt_inv_detach[of 1] by simp
qed

lemma rt_inv_handle_end:
  assumes "handle_end uc t e rc w = Inr w'" "rt_inv d (rt w)"
  shows "rt_inv d (rt w')" "rt_lock (rt w') = rt_lock (rt w)"
  using handle_end_rt[OF assms(1)] assms(2) by auto

lemma rt_inv_loop_pop:
  assumes "loop_pop uc switch k t w = Inr w'" "rt_inv 0 (rt w)" "rt_lock (rt w) = Some t"
  shows "rt_inv 0 (rt w')"
proof (cases "eq_pop (rt_queue (rt w))")
  case None
  obtain go r1 where x: "wait_in_pool t PPoolLoop (signal_to_run k (rt w)) = (go, r1)" by fastforce
  have "rt w' = (if go then set_pc t PLoop r1 else r1)" using assms(1) None x by (auto simp: loop_pop_def)
  moreover note rt_inv_wait_in_pool[OF rt_inv_signal(1)[OF assms(2)] _ _ x]
  ultimately show ?thesis using assms(3) rt_inv_set_loop by simp
next
  case (Some eq)
  obtain e q where eq: "eq = (e, q)" by fastforce
  obtain w1 where hb: "handle_begin t e (rt_upd (\<lambda>r. r\<lparr> rt_queue := q \<rparr>) w) = Inr w1"
    and r1: "bindE (event_getIsDetached e w1) (\<lambda>detached.
          if detached \<and> canDetachMore (rt w1)
          then Inr (rt_upd (\<lambda>r. unlock (set_pc t (PExec e) (detached_begin switch k t r))) w1)
          else bindE (event_execute uc e w1) (\<lambda>(rc, w2).
               bindE (handle_end uc t e rc w2) (\<lambda>w3. Inr (rt_upd (set_pc t PLoop) w3)))) = Inr w'"
    using assms(1) Some eq by (auto simp: loop_pop_def elim: bindE_InrE)
  have i1: "rt_inv 0 (rt w1)" "rt_lock (rt w1) = Some t"
    using hb assms(2,3) by (auto simp: handle_begin_def bindE_eq_Inr)
  obtain det where r2: "(if det \<and> canDetachMore (rt w1)
          then Inr (rt_upd (\<lambda>r. unlock (set_pc t (PExec e) (detached_begin switch k t r))) w1)
          else bindE (event_execute uc e w1) (\<lambda>(rc, w2).
               bindE (handle_end uc t e rc w2) (\<lambda>w3. Inr (rt_upd (set_pc t PLoop) w3)))) = Inr w'"
    using r1 by (blast elim: bindE_InrE)
  show ?thesis
  proof (cases "det \<and> canDetachMore (rt w1)")
    case True
    then show ?thesis using r2 rt_inv_detached_begin[OF i1] by auto
  next
    case False
    obtain rc w2 w3 where "event_execute uc e w1 = Inr (rc, w2)" "handle_end uc t e rc w2 = Inr w3"
      "w' = rt_upd (set_pc t PLoop) w3"
      using r2 False by (auto elim!: bindE_InrE simp del: if_split)
    then show ?thesis using i1 rt_inv_handle_end[of uc t e rc w2 w3 0] event_execute_rt rt_inv_set_loop by force
  qed
qed

lemma rt_inv_loop_check:
  assumes "loop_check uc switch k t w = Inr w'" "rt_inv 0 (rt w)" "rt_lock (rt w) = Some t"
  shows "rt_inv 0 (rt w')"
  using assms rt_inv_loop_pop[OF _ assms(2,3)] rt_inv_thread_exit[OF assms(2,3)]
  by (auto simp: loop_check_def split: if_splits)

text \<open>Reading a flow does not touch the runtime's threads.\<close>

definition reader_ok :: "('k, 'd, 'z) flow_reader \<Rightarrow> bool" where
  "reader_ok reader \<longleftrightarrow> (\<forall>old w fl old' w1. reader old w = Inr (fl, old', w1) \<longrightarrow> rt w1 = rt w)"

lemma load_flow_rt:
  assumes "load_flow uc reader w = Inr w'" "reader_ok reader"
  shows "\<exists>q fs. rt w' = (rt w)\<lparr> rt_queue := q, rt_flows := fs \<rparr>"
proof -
  obtain fl old w1 where r: "reader (rt_flow (rt w)) w = Inr (fl, old, w1)"
    and rest: "bindE (assignMagicNumbers fl (rt_upd (\<lambda>r. r\<lparr> rt_flows := (case old of None \<Rightarrow> rt_flows r | Some f \<Rightarrow> f # tl (rt_flows r)) \<rparr>) w1))
       (\<lambda>(fl1, w2).
     bindE (if rt_running (rt w2)
            then bindE (push_initials_and_sources uc fl1 False ([], w2)) (\<lambda>(evs, w3).
                   Inr (rt_upd (\<lambda>r. r\<lparr> rt_queue := eq_push_list evs (rt_queue r) \<rparr>) w3))
            else Inr w2) (\<lambda>w4.
     case drop_flows (rev (rt_flows (rt w4))) w4 of (fls, w5) \<Rightarrow>
       Inr (rt_upd (\<lambda>r. r\<lparr> rt_flows := fl1 # rev fls \<rparr>) w5))) = Inr w'"
    using assms(1) unfolding load_flow_def by (auto elim: bindE_InrE)
  have r1: "rt w1 = rt w" using assms(2) r by (auto simp: reader_ok_def)
  obtain fl1 w2 where as: "assignMagicNumbers fl (rt_upd (\<lambda>r. r\<lparr> rt_flows := (case old of None \<Rightarrow> rt_flows r | Some f \<Rightarrow> f # tl (rt_flows r)) \<rparr>) w1) = Inr (fl1, w2)"
    and rest2: "bindE (if rt_running (rt w2)
            then bindE (push_initials_and_sources uc fl1 False ([], w2)) (\<lambda>(evs, w3).
                   Inr (rt_upd (\<lambda>r. r\<lparr> rt_queue := eq_push_list evs (rt_queue r) \<rparr>) w3))
            else Inr w2) (\<lambda>w4.
     case drop_flows (rev (rt_flows (rt w4))) w4 of (fls, w5) \<Rightarrow>
       Inr (rt_upd (\<lambda>r. r\<lparr> rt_flows := fl1 # rev fls \<rparr>) w5)) = Inr w'"
    using rest by (auto elim: bindE_InrE)
  have a: "rt w2 = (rt w)\<lparr> rt_flows := (case old of None \<Rightarrow> rt_flows (rt w) | Some f \<Rightarrow> f # tl (rt_flows (rt w))) \<rparr>"
    unfolding assign_rt[OF as] rt_simps r1 ..
  obtain w4 where c: "(if rt_running (rt w2)
            then bindE (push_initials_and_sources uc fl1 False ([], w2)) (\<lambda>(evs, w3).
                   Inr (rt_upd (\<lambda>r. r\<lparr> rt_queue := eq_push_list evs (rt_queue r) \<rparr>) w3))
            else Inr w2) = Inr w4"
    and d: "(case drop_flows (rev (rt_flows (rt w4))) w4 of (fls, w5) \<Rightarrow>
       Inr (rt_upd (\<lambda>r. r\<lparr> rt_flows := fl1 # rev fls \<rparr>) w5)) = (Inr w' :: _ result)"
    by (rule bindE_InrE[OF rest2]) (rule that)
  have "\<exists>q. rt w4 = (rt w2)\<lparr> rt_queue := q \<rparr>"
  proof (cases "rt_running (rt w2)")
    case True
    then show ?thesis using c push_initials_rt[of uc fl1 False "([], w2)"] by (auto elim!: bindE_InrE)
  next
    case False
    then have "rt w4 = (rt w2)\<lparr> rt_queue := rt_queue (rt w2) \<rparr>" using c by simp
    then show ?thesis by blast
  qed
  then obtain q where q: "rt w4 = (rt w2)\<lparr> rt_queue := q \<rparr>" by blast
  obtain fls w5 where x: "drop_flows (rev (rt_flows (rt w4))) w4 = (fls, w5)" by fastforce
  have w': "w' = rt_upd (\<lambda>r. r\<lparr> rt_flows := fl1 # rev fls \<rparr>) w5" using d x by simp
  have "rt w' = (rt w)\<lparr> rt_queue := q, rt_flows := fl1 # rev fls \<rparr>"
    unfolding w' rt_simps drop_flows_rt[OF x] q a by simp
  then show ?thesis by blast
qed

lemma rt_inv_load_flow:
  assumes "load_flow uc reader w = Inr w'" "reader_ok reader" "rt_inv d (rt w)"
  shows "rt_inv d (rt w')" "rt_lock (rt w') = rt_lock (rt w)"
  using load_flow_rt[OF assms(1,2)] assms(3) by auto

lemma rt_inv_loop_body:
  assumes "loop_body uc reader switch k t w = Inr w'" "reader_ok reader" "rt_inv 0 (rt w)" "rt_lock (rt w) = Some t"
  shows "rt_inv 0 (rt w')"
proof -
  obtain w1 where l: "(if rt_load_flow_next (rt w) then load_flow uc reader (rt_upd (\<lambda>r. r\<lparr> rt_load_flow_next := False \<rparr>) w)
                  else Inr w) = Inr w1"
    and rest: "(let w2 = rt_upd collect_tick w1 in
        if run_count (rt w2) > 0
        then (case wait_in_pool t PPoolCheck (signal_to_run k (rt w2)) of (go, r3) \<Rightarrow>
                let w3 = rt_upd (\<lambda>_. r3) w2 in if go then loop_check uc switch k t w3 else Inr w3)
        else loop_pop uc switch k t w2) = Inr w'"
    using assms(1) unfolding loop_body_def by (auto elim!: bindE_InrE simp del: Let_def split del: if_split)
  define w2 where "w2 = rt_upd collect_tick w1"
  have "rt_inv 0 (rt w1) \<and> rt_lock (rt w1) = Some t"
    using l assms(3,4) rt_inv_load_flow[OF _ assms(2), of uc "rt_upd (\<lambda>r. r\<lparr> rt_load_flow_next := False \<rparr>) w" w1]
    by (auto split: if_splits)
  then have i2: "rt_inv 0 (rt w2)" "rt_lock (rt w2) = Some t" using rt_inv_collect_tick[of 0 "rt w1"] by (simp_all add: w2_def)
  obtain go r3 where x: "wait_in_pool t PPoolCheck (signal_to_run k (rt w2)) = (go, r3)" by fastforce
  have i3: "rt_inv 0 r3" "go \<Longrightarrow> rt_lock r3 = Some t"
    using rt_inv_wait_in_pool[OF rt_inv_signal(1)[OF i2(1)] _ _ x] i2(2) by simp_all
  show ?thesis
  proof (cases "run_count (rt w2) > 0")
    case True
    then have "(if go then loop_check uc switch k t (rt_upd (\<lambda>_. r3) w2) else Inr (rt_upd (\<lambda>_. r3) w2)) = Inr w'"
      using rest x by (simp add: Let_def flip: w2_def)
    then show ?thesis using i3 rt_inv_loop_check[of uc switch k t "rt_upd (\<lambda>_. r3) w2" w'] by (auto split: if_splits)
  next
    case False
    then show ?thesis using rest rt_inv_loop_pop[OF _ i2] by (simp add: Let_def flip: w2_def)
  qed
qed

lemma rt_inv_loop_iter:
  assumes "loop_iter uc reader switch k t w = Inr w'" "reader_ok reader" "rt_inv 0 (rt w)" "rt_lock (rt w) = Some t"
  shows "rt_inv 0 (rt w')"
  using assms rt_inv_thread_exit[OF assms(3,4)] rt_inv_yield[OF assms(3,4)] rt_inv_loop_body[OF _ assms(2-4)]
  by (auto simp: loop_iter_def split: if_splits)

lemma rt_inv_door:
  assumes "rt_inv d r"
  shows "rt_inv d (create_door_thread switch r)"
proof (cases "rt_door_thread r")
  case None
  let ?n = "rt_next_thread r"
  define r' where "r' = create_door_thread switch r"
  have f: "rt_next_thread r' = Suc ?n" "rt_thread_list r' = rt_thread_list r" "rt_thread_count r' = rt_thread_count r"
    "rt_config r' = rt_config r" "rt_detached_count r' = rt_detached_count r" "rt_lock r' = rt_lock r"
    "rt_waiting_in_pool r' = rt_waiting_in_pool r" "rt_waiting_to_run r' = rt_waiting_to_run r" "rt_door_thread r' = Some ?n"
    using None by (simp_all add: r'_def create_door_thread_def new_RunTimeThread_def Let_def)
  have pc: "pc_of r' = (pc_of r)(?n := PStart)"
    using None by (auto simp: r'_def create_door_thread_def new_RunTimeThread_def Let_def thread_new_def th_upd_def pc_of_def fun_eq_iff)
  have at: "threads_at P r' = (if P PStart then insert ?n (threads_at P r) else threads_at P r)" for P
    by (auto simp: threads_at_def f pc less_Suc_eq)
  have live: "live_threads r' = live_threads r"
    using None by (auto simp: live_threads_def at f) (simp add: threads_at_def)
  have "rt_counts d r'" using assms unfolding rt_inv_def rt_counts_def live f at pc by auto
  moreover have "rt_waits r'" using assms unfolding rt_inv_def rt_waits_def f at by simp
  moreover have "rt_mutex r'" using assms unfolding rt_inv_def rt_mutex_def f pc by (auto simp: less_Suc_eq)
  ultimately show ?thesis by (simp add: rt_inv_def r'_def)
qed (use assms in \<open>simp add: create_door_thread_def\<close>)

lemma wait_to_run_set_pc:
  "wait_to_run t p (set_pc t q r) = (case wait_to_run t p r of (go, r1) \<Rightarrow> (go, if go then set_pc t q r1 else r1))"
  by (cases "rt_threads r t") (simp add: wait_to_run_def Let_def set_pc_def th_upd_def unlock_def)

lemma rt_inv_exec:
  assumes "rt_inv d r" "pc_of r t = PExec e" "t < rt_next_thread r"
  shows "rt_inv d (set_pc t (PRelock e rc) r)"
proof -
  note i = rt_inv_cv_invs[OF assms(1)]
  have w: "t \<notin> waiters (rt_waiting_in_pool r)" "t \<notin> waiters (rt_waiting_to_run r)"
    using assms(2) unfolding rt_inv_waiters[OF assms(1)] by auto
  have "rt_inv (d + of_bool (pc_exec (pc_of r t)) - of_bool (pc_exec (PRelock e rc))) (set_pc t (PRelock e rc) r)"
    by (rule rt_inv_move[OF assms(1)]) (use i w assms rt_inv_not_door[OF assms(1), of t] in \<open>simp_all add: same_core_def\<close>)
  then show ?thesis using assms(2) by simp
qed

lemma rt_inv_relock_step:
  assumes "rt_inv 0 (rt w)" "pc_of (rt w) t = PRelock e rc" "t < rt_next_thread (rt w)" "rt_lock (rt w) = None"
    and x: "wait_to_run t (PWaitRun e rc) (detached_end t ((rt w)\<lparr> rt_lock := Some t \<rparr>)) = (go, r1)"
    and res: "(if go then bindE (handle_end uc t e rc (rt_upd (\<lambda>_. r1) w)) (\<lambda>w2. Inr (rt_upd (set_pc t PLoop) w2))
     else Inr (rt_upd (\<lambda>_. r1) w)) = Inr w'"
  shows "rt_inv 0 (rt w')"
proof -
  let ?rS = "set_pc t PLoop (detached_end t ((rt w)\<lparr> rt_lock := Some t \<rparr>))"
  have S: "rt_inv 0 ?rS" "rt_lock ?rS = Some t" using rt_inv_relock[OF assms(1-4)] by (simp_all add: detached_end_def)
  have y: "wait_to_run t (PWaitRun e rc) ?rS = (go, if go then set_pc t PLoop r1 else r1)"
    by (simp add: wait_to_run_set_pc x)
  note i = rt_inv_wait_to_run(1)[OF S _ y, simplified]
  show ?thesis
  proof (cases go)
    case True
    then obtain w2 where h: "handle_end uc t e rc (rt_upd (\<lambda>_. r1) w) = Inr w2" and w': "w' = rt_upd (set_pc t PLoop) w2"
      using res by (auto elim: bindE_InrE)
    obtain q where q: "rt w2 = th_upd t (\<lambda>th. th\<lparr> t_this_event := None, t_flow_node_working := None \<rparr>) (r1\<lparr> rt_queue := q \<rparr>)"
      using handle_end_rt[OF h] by auto
    have "rt w' = th_upd t (\<lambda>th. th\<lparr> t_this_event := None, t_flow_node_working := None \<rparr>) ((set_pc t PLoop r1)\<lparr> rt_queue := q \<rparr>)"
      unfolding w' rt_simps q by (cases "rt_threads r1 t") (simp add: set_pc_def th_upd_def)
    then show ?thesis using i True by simp
  next
    case False
    then show ?thesis using i res by auto
  qed
qed

lemma rt_inv_back_from_pool:
  assumes "rt_inv d r" "pc_pool (pc_of r t)" "t \<in> set (cv_woken (rt_waiting_in_pool r))" "rt_lock r = None"
  shows "rt_inv d (set_pc t PLoop (th_upd t (\<lambda>th. th\<lparr> t_wait_state := RTTWS_running \<rparr>)
      (r\<lparr> rt_lock := Some t, rt_waiting_in_pool := cv_wait_return wc_dec t (rt_waiting_in_pool r) \<rparr>)))"
proof -
  let ?r = "r\<lparr> rt_lock := Some t, rt_waiting_in_pool := cv_wait_return wc_dec t (rt_waiting_in_pool r) \<rparr>"
  have "set_pc t PLoop (th_upd t (\<lambda>th. th\<lparr> t_wait_state := RTTWS_running \<rparr>) ?r) =
      th_upd t (\<lambda>th. th\<lparr> t_wait_state := RTTWS_running \<rparr>) (set_pc t PLoop ?r)"
    by (cases "rt_threads r t") (simp add: set_pc_def th_upd_def)
  then show ?thesis using rt_inv_from_pool[OF assms] by simp
qed

lemma rt_inv_step:
  assumes "rt_step uc reader switch w w'" "reader_ok reader" "rt_inv 0 (rt w)"
  shows "rt_inv 0 (rt w')"
  using assms(1)
proof (cases rule: rt_step.cases)
  case (start t)
  have "t < rt_next_thread (rt w)" "rt_door_thread (rt w) \<noteq> Some t"
    using assms(3) start(3) by (auto simp: rt_inv_def rt_counts_def live_threads_def threads_at_def)
  then have "rt_inv 0 (set_pc t PLoop ((rt w)\<lparr> rt_lock := Some t \<rparr>))"
    using rt_inv_start[OF assms(3), of t] start(2,4) by (simp add: pc_of_def)
  moreover have "set_pc t PLoop (th_upd t (\<lambda>th. th\<lparr> t_thread_running := True \<rparr>) ((rt w)\<lparr> rt_lock := Some t \<rparr>)) =
      th_upd t (\<lambda>th. th\<lparr> t_thread_running := True \<rparr>) (set_pc t PLoop ((rt w)\<lparr> rt_lock := Some t \<rparr>))"
    by (cases "rt_threads (rt w) t") (simp add: set_pc_def th_upd_def)
  ultimately show ?thesis using start(1) by simp
next
  case (loop t k)
  then show ?thesis using rt_inv_loop_iter[OF _ assms(2,3)] by blast
next
  case (relocked t k)
  then show ?thesis
    using rt_inv_loop_body[OF relocked(4) assms(2)] rt_inv_start[OF assms(3), of t] rt_inv_not_door[OF assms(3), of t]
    by (simp add: pc_of_def)
next
  case (woken_loop t)
  then show ?thesis using rt_inv_back_from_pool[OF assms(3), of t] by (simp add: pc_of_def)
next
  case (woken_check t k)
  then show ?thesis using rt_inv_loop_check[OF woken_check(4)] rt_inv_back_from_pool[OF assms(3), of t] by (simp add: pc_of_def)
next
  case (exec t e rc w1)
  then show ?thesis using rt_inv_exec[OF assms(3)] event_execute_rt[OF exec(4)] by (simp add: pc_of_def)
next
  case (relock t e rc go r1)
  then show ?thesis using rt_inv_relock_step[OF assms(3) _ relock(2,3,4,5)] by (simp add: pc_of_def)
next
  case (woken_run t e rc w2)
  let ?r0 = "(rt w)\<lparr> rt_lock := Some t, rt_waiting_to_run := cv_wait_return ic_dec t (rt_waiting_to_run (rt w)) \<rparr>"
  have "rt_inv 0 (set_pc t PLoop ?r0)"
    by (rule rt_inv_from_line[OF assms(3)]) (use woken_run in \<open>simp_all add: pc_of_def\<close>)
  moreover obtain q where q: "rt w2 = th_upd t (\<lambda>th. th\<lparr> t_this_event := None, t_flow_node_working := None \<rparr>)
      ((th_upd t (\<lambda>th. th\<lparr> t_wait_state := RTTWS_running \<rparr>) ?r0)\<lparr> rt_queue := q \<rparr>)"
    using handle_end_rt[OF woken_run(5)] by auto
  have "rt w' = th_upd t (\<lambda>th. th\<lparr> t_this_event := None, t_flow_node_working := None \<rparr>)
      ((th_upd t (\<lambda>th. th\<lparr> t_wait_state := RTTWS_running \<rparr>) (set_pc t PLoop ?r0))\<lparr> rt_queue := q \<rparr>)"
    unfolding woken_run(1) rt_simps q by (cases "rt_threads (rt w) t") (simp add: set_pc_def th_upd_def)
  ultimately show ?thesis by simp
next
  case (spurious_pool t)
  note i = rt_inv_cv_invs[OF assms(3)]
  show ?thesis unfolding spurious_pool(1) rt_simps
    by (rule rt_inv_cvs[OF _ _ _ _ _ _ _ _ assms(3)])
      (use i spurious_pool(2) wc.cv_inv_step[OF cv_step.spurious[OF spurious_pool(2)] i(1)] in
        \<open>simp_all add: same_core_def pc_of_def fun_eq_iff waiters_wake[OF _ i(1)]\<close>)
next
  case (spurious_run t)
  note i = rt_inv_cv_invs[OF assms(3)]
  show ?thesis unfolding spurious_run(1) rt_simps
    by (rule rt_inv_cvs[OF _ _ _ _ _ _ _ _ assms(3)])
      (use i spurious_run(2) ic.cv_inv_step[OF cv_step.spurious[OF spurious_run(2)] i(2)] in
        \<open>simp_all add: same_core_def pc_of_def fun_eq_iff waiters_wake[OF _ i(2)]\<close>)
next
  case (submit k evs)
  then show ?thesis using rt_inv_wake assms(3) by (simp add: submitEvents_def enqueue_list_def)
next
  case door
  then show ?thesis using rt_inv_door[OF assms(3)] by simp
qed (use assms(3) in \<open>simp_all add: soft_kill_def soft_load_flow_def\<close>)

section \<open>Runs\<close>

text \<open>The states a runtime passes through from the moment its first flow is loaded and it is started.\<close>

definition rt_reach :: "('k::linorder, 'd) ucode \<Rightarrow> ('k, 'd, 'z) flow_reader \<Rightarrow> bool \<Rightarrow> rt_config \<Rightarrow> ('k, 'd, 'z) rworld_scheme \<Rightarrow> bool" where
  "rt_reach uc reader switch conf w \<longleftrightarrow> (\<exists>w0 w1 w2. rt w0 = rt_new conf \<and> load_flow uc reader w0 = Inr w1 \<and>
     rt_start uc switch w1 = Inr w2 \<and> (rt_step uc reader switch)\<^sup>*\<^sup>* w2 w)"

lemma rt_inv_new: "rt_inv 0 (rt_new conf)"
  by (simp add: rt_inv_defs rt_new_def live_threads_def threads_at_def cv_inv_def waiters_def cv_new_def
      ic_new_def ic_get_def wc_new_def)

lemma rt_inv_rt_start:
  assumes "rt_start uc switch w = Inr w'" "rt_inv d (rt w)" "rt_thread_count (rt w) = 0"
  shows "rt_inv d (rt w')"
proof -
  obtain fl evs w1 where p: "push_initials_and_sources uc fl False ([], w) = Inr (evs, w1)"
    and w': "w' = rt_upd (\<lambda>r. case new_RunTimeThread switch (r\<lparr> rt_queue := eq_push_list evs (rt_queue r), rt_running := True \<rparr>) of (t, r1) \<Rightarrow>
            r1\<lparr> rt_thread_list := t # rt_thread_list r1, rt_thread_count := rt_thread_count r1 + 1 \<rparr>) w1"
    using assms(1) by (auto simp: rt_start_def elim!: bindE_InrE split: option.splits)
  define r where "r = (rt w)\<lparr> rt_queue := eq_push_list evs (rt_queue (rt w)), rt_running := True \<rparr>"
  have r1: "rt w1 = rt w" using push_initials_rt[OF p] by simp
  obtain t r1 where n: "new_RunTimeThread switch r = (t, r1)" by fastforce
  have "rt_inv d (r1\<lparr> rt_thread_count := rt_thread_count r1 + 1, rt_thread_list := t # rt_thread_list r1 \<rparr>)"
    by (rule rt_inv_new_thread[OF _ _ n]) (use assms(2,3) in \<open>simp_all add: r_def\<close>)
  moreover have "rt w' = r1\<lparr> rt_thread_list := t # rt_thread_list r1, rt_thread_count := rt_thread_count r1 + 1 \<rparr>"
    unfolding w' rt_simps r1 using n by (simp add: r_def)
  moreover have "r1\<lparr> rt_thread_list := t # rt_thread_list r1, rt_thread_count := rt_thread_count r1 + 1 \<rparr> =
      r1\<lparr> rt_thread_count := rt_thread_count r1 + 1, rt_thread_list := t # rt_thread_list r1 \<rparr>" by (cases r1) simp
  ultimately show ?thesis by (simp only:)
qed

lemma rt_reach_inv:
  assumes "rt_reach uc reader switch conf w" "reader_ok reader"
  shows "rt_inv 0 (rt w)"
proof -
  obtain w0 w1 w2 where w0: "rt w0 = rt_new conf" and l: "load_flow uc reader w0 = Inr w1"
    and s: "rt_start uc switch w1 = Inr w2" and r: "(rt_step uc reader switch)\<^sup>*\<^sup>* w2 w"
    using assms(1) unfolding rt_reach_def by blast
  have "rt_inv 0 (rt w1)" using rt_inv_load_flow(1)[OF l assms(2)] rt_inv_new w0 by simp
  moreover have "rt_thread_count (rt w1) = 0" using load_flow_rt[OF l assms(2)] w0 by (auto simp: rt_new_def)
  ultimately have "rt_inv 0 (rt w2)" using rt_inv_rt_start[OF s] by blast
  with r show "rt_inv 0 (rt w)" by (induction rule: rtranclp_induct) (auto intro: rt_inv_step[OF _ assms(2)])
qed

end
