(* ===== verification/Progress.thy ===== *)
theory Progress
  imports RunTime
begin

text \<open>
  What the thread pool of the classic runtime guarantees in every state of a run: the counters are
  exact and within the configured limits, one thread runs at a time, and no work is stranded while
  every thread sleeps.
\<close>

section \<open>Counters\<close>

lemma cv_count_waiters:
  assumes "cv_inv cget cv"
  shows "cget (cv_waiter_count cv) = int (card (waiters cv))"
  using assms distinct_card[of "cv_asleep cv @ cv_woken cv"] by (simp add: cv_inv_def waiters_def)



section \<open>No work is stranded\<close>

text \<open>A live thread that has the lock or is about to take it.\<close>

definition runner :: "rtstate \<Rightarrow> nat \<Rightarrow> bool" where
  "runner r t \<longleftrightarrow> t \<in> live_threads r \<and> (pc_of r t = PStart \<or> pc_of r t = PLoop \<or> pc_of r t = PYield \<or>
     t \<in> set (cv_woken (rt_waiting_in_pool r)) \<or> t \<in> set (cv_woken (rt_waiting_to_run r)))"

text \<open>As long as there are threads: one of them is a runner or the next one to join the line will not
  block; and one of them is a runner or executes an event, or the queue is empty.\<close>

definition rt_prog :: "rtstate \<Rightarrow> bool" where
  "rt_prog r \<longleftrightarrow> live_threads r = {} \<or>
     ((\<exists>t. runner r t) \<or> cv_allow_skip (rt_waiting_to_run r)) \<and>
     ((\<exists>t. runner r t) \<or> (\<exists>t\<in>live_threads r. pc_exec (pc_of r t)) \<or> eq_q (rt_queue r) = [])"

lemma rt_prog_runner: "runner r t \<Longrightarrow> rt_prog r"
  by (auto simp: rt_prog_def)

lemma live_iff:
  assumes "rt_inv d r" "pc_of r t \<noteq> PStart"
  shows "t \<in> live_threads r \<longleftrightarrow> t < rt_next_thread r \<and> pc_of r t \<noteq> PExited"
  using rt_inv_not_door[OF assms] by (auto simp: live_threads_def threads_at_def)

lemma woken_runner:
  assumes "rt_inv d r" "t \<in> set (cv_woken (rt_waiting_in_pool r)) \<or> t \<in> set (cv_woken (rt_waiting_to_run r))"
  shows "runner r t"
proof -
  have "t \<in> waiters (rt_waiting_in_pool r) \<or> t \<in> waiters (rt_waiting_to_run r)" using assms(2) by (auto simp: waiters_def)
  then have "t < rt_next_thread r" "pc_pool (pc_of r t) \<or> pc_run (pc_of r t)" using rt_inv_waiters[OF assms(1), of t] by auto
  moreover from this(2) have "pc_of r t \<noteq> PStart" "pc_of r t \<noteq> PExited" by auto
  ultimately show ?thesis using assms live_iff[OF assms(1)] by (auto simp: runner_def)
qed

lemma rt_prog_lock:
  assumes "rt_inv d r" "rt_lock r = Some t"
  shows "rt_prog r"
  using running_not_waiting(1,2)[OF assms] live_iff[OF assms(1), of t] by (auto intro!: rt_prog_runner[of _ t] simp: runner_def)

text \<open>A condition variable with waiters has a released one after a signal.\<close>

lemma signal_woken:
  assumes "cv_inv cget cv" "cget (cv_waiter_count cv) > 0"
  shows "cv_woken (cv_signal cget k cv) \<noteq> []"
proof (cases "cv_asleep cv = []")
  case True
  then have "length (cv_woken cv) > 0" using assms by (auto simp: cv_inv_def)
  then show ?thesis using True assms(2) by (simp add: cv_signal_def Let_def)
qed (use assms(2) in \<open>simp add: cv_signal_def cv_wake_def Let_def\<close>)

lemma no_waiters_awake:
  assumes "rt_inv d r" "pool_count r = 0" "run_count r = 0" "t \<in> live_threads r"
  shows "runner r t \<or> pc_exec (pc_of r t)"
proof -
  have "t < rt_next_thread r" "pc_of r t \<noteq> PExited" using assms(4) by (auto simp: live_threads_def threads_at_def)
  moreover have "waiters (rt_waiting_in_pool r) = {}" "waiters (rt_waiting_to_run r) = {}"
    using cv_inv_idle[OF rt_inv_cv_invs(1)[OF assms(1)]] cv_inv_idle[OF rt_inv_cv_invs(2)[OF assms(1)]] assms(2,3)
    by (simp_all add: waiters_def pool_count_def run_count_def)
  ultimately have "\<not> pc_pool (pc_of r t)" "\<not> pc_run (pc_of r t)" using rt_inv_waiters[OF assms(1), of t] by auto
  then show ?thesis using assms(4) \<open>pc_of r t \<noteq> PExited\<close> by (cases "pc_of r t") (auto simp: runner_def)
qed

lemma signal_to_run_simps [simp]:
  "live_threads (signal_to_run k r) = live_threads r" "pc_of (signal_to_run k r) = pc_of r"
  "rt_waiting_in_pool (signal_to_run k r) = rt_waiting_in_pool r" "rt_queue (signal_to_run k r) = rt_queue r"
  "rt_waiting_to_run (signal_to_run k r) = cv_signal ic_get k (rt_waiting_to_run r)"
  by (auto simp: signal_to_run_def live_threads_def threads_at_def pc_of_def fun_eq_iff)

lemma rt_prog_wake:
  assumes "rt_inv d r"
  shows "rt_prog (wake_another_thread switch k r)"
proof -
  let ?r' = "wake_another_thread switch k r"
  note i = rt_inv_cv_invs[OF assms] and i' = rt_inv_wake[OF assms, of switch k]
  consider (create) "rt_running r \<and> pool_count r = 0 \<and> canThreadMore r"
    | (line) "\<not> (rt_running r \<and> pool_count r = 0 \<and> canThreadMore r)" "run_count r > 0"
    | (pool) "\<not> (rt_running r \<and> pool_count r = 0 \<and> canThreadMore r)" "\<not> run_count r > 0" "pool_count r > 0"
    | (none) "\<not> (rt_running r \<and> pool_count r = 0 \<and> canThreadMore r)" "\<not> run_count r > 0" "\<not> pool_count r > 0"
    by blast
  then show ?thesis
  proof cases
    case create
    have "pc_of ?r' (rt_next_thread r) = PStart" "rt_next_thread ?r' = Suc (rt_next_thread r)"
      "rt_thread_list ?r' = rt_next_thread r # rt_thread_list r"
      using create by (simp_all add: wake_another_thread_def new_RunTimeThread_def Let_def pc_of_def thread_new_def)
    moreover have "set (rt_thread_list ?r') = live_threads ?r'" using i' by (simp add: rt_inv_def rt_counts_def)
    ultimately have "runner ?r' (rt_next_thread r)" by (auto simp: runner_def)
    then show ?thesis by (rule rt_prog_runner)
  next
    case line
    then have "?r' = signal_to_run k r" by (simp only: wake_another_thread_def if_False if_True)
    moreover have "cv_woken (cv_signal ic_get k (rt_waiting_to_run r)) \<noteq> []"
      using signal_woken[OF i(2)] line(2) by (simp add: run_count_def)
    then obtain t where "t \<in> set (cv_woken (cv_signal ic_get k (rt_waiting_to_run r)))" by fastforce
    ultimately show ?thesis using woken_runner[OF i'] rt_prog_runner by (metis signal_to_run_simps(5))
  next
    case pool
    then have "?r' = signal_in_pool k r" by (simp only: wake_another_thread_def if_False if_True)
    moreover have "cv_woken (cv_signal wc_c k (rt_waiting_in_pool r)) \<noteq> []"
      using signal_woken[OF i(1)] pool(3) by (simp add: pool_count_def)
    then obtain t where "t \<in> set (cv_woken (cv_signal wc_c k (rt_waiting_in_pool r)))" by fastforce
    ultimately have "t \<in> set (cv_woken (rt_waiting_in_pool ?r'))" by (simp add: signal_in_pool_def)
    then show ?thesis using woken_runner[OF i'] rt_prog_runner by blast
  next
    case none
    have z: "pool_count r = 0" "run_count r = 0"
      using none(2,3) i by (auto simp: pool_count_def run_count_def cv_inv_def)
    have r': "?r' = signal_to_run k r" using none by (simp only: wake_another_thread_def if_False)
    have asleep: "cv_asleep (rt_waiting_to_run r) = []" using cv_inv_idle[OF i(2)] z(2) by (simp add: run_count_def)
    then have skip: "cv_signal ic_get k (rt_waiting_to_run r) = (rt_waiting_to_run r)\<lparr> cv_allow_skip := True \<rparr>"
      using z(2) by (simp add: cv_signal_def Let_def run_count_def)
    have "runner ?r' t = runner r t" for t by (simp add: runner_def r' skip)
    then show ?thesis using no_waiters_awake[OF assms z] by (auto simp: rt_prog_def r' skip)
  qed
qed

lemma rt_prog_cong:
  assumes "rt_prog r" "live_threads r' = live_threads r" "pc_of r' = pc_of r"
    "rt_waiting_in_pool r' = rt_waiting_in_pool r" "rt_waiting_to_run r' = rt_waiting_to_run r" "rt_queue r' = rt_queue r"
  shows "rt_prog r'"
  using assms by (simp add: rt_prog_def runner_def)

text \<open>Going to the pool right after letting the line move.\<close>

lemma rt_prog_pool:
  assumes inv: "rt_inv d r" and lock: "rt_lock r = Some t" and p: "pc_pool p"
    and x: "wait_in_pool t p (signal_to_run k r) = (go, r')" and q: "eq_q (rt_queue r) = [] \<or> run_count r > 0"
  shows "rt_prog r'"
proof (cases go)
  case True
  have "rt_lock (signal_to_run k r) = Some t" using lock by simp
  from rt_inv_wait_in_pool[OF rt_inv_signal(1)[OF inv] this p x] True show ?thesis using rt_prog_lock by blast
next
  case False
  have lock1: "rt_lock (signal_to_run k r) = Some t" using lock by simp
  have inv': "rt_inv d r'" by (rule rt_inv_wait_in_pool(1)[OF rt_inv_signal(1)[OF inv] lock1 p x])
  have line: "rt_waiting_to_run r' = cv_signal ic_get k (rt_waiting_to_run r)" and qs: "rt_queue r' = rt_queue r"
    using x False by (auto simp: wait_in_pool_def Let_def unlock_def set_pc_def th_upd_def split: if_splits)
  show ?thesis
  proof (cases "cv_woken (cv_signal ic_get k (rt_waiting_to_run r)) = []")
    case True
    then have "cv_allow_skip (cv_signal ic_get k (rt_waiting_to_run r))"
      using ic.cv_signal_kept[OF rt_inv_cv_invs(2)[OF inv]] by blast
    moreover have "eq_q (rt_queue r) = []"
      using q signal_woken[OF rt_inv_cv_invs(2)[OF inv], of k] True by (auto simp: run_count_def)
    ultimately show ?thesis by (simp add: rt_prog_def line qs)
  next
    case False
    then obtain u where "u \<in> set (cv_woken (rt_waiting_to_run r'))" unfolding line by fastforce
    then show ?thesis using woken_runner[OF inv'] rt_prog_runner by blast
  qed
qed

lemma rt_prog_thread_exit:
  assumes "rt_inv d r" "rt_lock r = Some t"
  shows "rt_prog (thread_exit switch k t r)"
proof -
  note f = running_not_waiting[OF assms]
  define r1 where "r1 = unlock (set_pc t PExited (th_upd t (\<lambda>th. th\<lparr> t_thread_running := False \<rparr>) (rt_remove t r)))"
  have ex: "unlock (set_pc t PExited (th_upd t (\<lambda>th. th\<lparr> t_thread_running := False \<rparr>) r)) =
      th_upd t (\<lambda>th. th\<lparr> t_thread_running := False \<rparr>) (unlock (set_pc t PExited r))" for r
    by (cases "rt_threads r t") (simp add: unlock_def set_pc_def th_upd_def)
  have inv1: "rt_inv d r1" using rt_inv_remove[OF assms] by (simp add: r1_def ex)
  have cnt: "rt_thread_count (rt_remove t r) = int (card (live_threads r1))"
  proof -
    have "rt_thread_count r1 = int (card (live_threads r1))"
      using inv1 distinct_card[of "rt_thread_list r1"] by (auto simp: rt_inv_def rt_counts_def)
    then show ?thesis by (simp add: r1_def)
  qed
  show ?thesis
  proof (cases "rt_thread_count (rt_remove t r) > 0")
    case True
    have "t < rt_next_thread (rt_remove t r)" using f(1) by simp
    then have "thread_exit switch k t r = wake_another_thread switch k r1"
      using True by (simp add: thread_exit_def Let_def r1_def wake_unlock wake_th_upd set_pc_def)
    then show ?thesis using rt_prog_wake[OF inv1] by simp
  next
    case False
    then have eq: "thread_exit switch k t r = r1" by (simp add: thread_exit_def Let_def r1_def)
    have "finite (live_threads r1)" by (simp add: live_threads_def)
    moreover have "card (live_threads r1) = 0" using cnt False by linarith
    ultimately have "live_threads r1 = {}" by simp
    with eq show ?thesis by (simp add: rt_prog_def)
  qed
qed

lemma rt_prog_detached_begin:
  assumes "rt_inv 0 r" "rt_lock r = Some t" "canDetachMore r"
  shows "rt_prog (unlock (set_pc t (PExec e) (detached_begin switch k t r)))"
proof -
  let ?r1 = "th_upd t (\<lambda>th. th\<lparr> t_detached := True \<rparr>) (r\<lparr> rt_detached_count := rt_detached_count r + 1 \<rparr>)"
  have pc: "pc_of ?r1 = pc_of r" by (simp add: pc_of_def th_upd_def fun_eq_iff)
  have inv: "rt_inv (0 + 1) ?r1"
    by (rule rt_inv_detached[OF assms(1) _ _ _ pc]) (use assms(3) in \<open>auto simp: same_core_def canDetachMore_def\<close>)
  have "rt_inv (0 + 1 - 1) (unlock (set_pc t (PExec e) ?r1))"
    by (rule rt_inv_detach[OF inv]) (use assms(2) in simp)
  moreover have "unlock (set_pc t (PExec e) (detached_begin switch k t r)) =
      wake_another_thread switch k (unlock (set_pc t (PExec e) ?r1))"
    using running_not_waiting(1)[OF assms(1,2)] by (simp add: detached_begin_def wake_unlock wake_th_upd set_pc_def)
  ultimately show ?thesis using rt_prog_wake by metis
qed

lemma loop_pop_prog:
  assumes "loop_pop uc switch k t w = Inr w'" "rt_inv 0 (rt w)" "rt_lock (rt w) = Some t"
  shows "rt_prog (rt w')"
proof (cases "eq_pop (rt_queue (rt w))")
  case None
  obtain go r1 where x: "wait_in_pool t PPoolLoop (signal_to_run k (rt w)) = (go, r1)" by fastforce
  have w': "rt w' = (if go then set_pc t PLoop r1 else r1)" using assms(1) None x by (auto simp: loop_pop_def)
  have "eq_q (rt_queue (rt w)) = []" using None by (auto simp: eq_pop_def split: list.splits)
  then have prog: "rt_prog r1" using rt_prog_pool[OF assms(2,3) _ x] by simp
  show ?thesis
  proof (cases go)
    case True
    then have "rt_inv 0 (set_pc t PLoop r1)" "rt_lock (set_pc t PLoop r1) = Some t"
      using rt_inv_wait_in_pool[OF rt_inv_signal(1)[OF assms(2)] _ _ x] assms(3) rt_inv_set_loop by simp_all
    then show ?thesis using rt_prog_lock w' True by simp
  qed (use w' prog in simp)
next
  case (Some eq)
  obtain e q where eq: "eq = (e, q)" by fastforce
  show ?thesis
  proof (cases "rt_lock (rt w') = Some t")
    case True
    then show ?thesis using rt_prog_lock rt_inv_loop_pop[OF assms] by blast
  next
    case False
    obtain w1 det where hb: "handle_begin t e (rt_upd (\<lambda>r. r\<lparr> rt_queue := q \<rparr>) w) = Inr w1"
      and r2: "(if det \<and> canDetachMore (rt w1)
          then Inr (rt_upd (\<lambda>r. unlock (set_pc t (PExec e) (detached_begin switch k t r))) w1)
          else bindE (event_execute uc e w1) (\<lambda>(rc, w2).
               bindE (handle_end uc t e rc w2) (\<lambda>w3. Inr (rt_upd (set_pc t PLoop) w3)))) = Inr w'"
      using assms(1) Some eq by (auto simp: loop_pop_def elim!: bindE_InrE split del: if_split)
    have i1: "rt_inv 0 (rt w1)" "rt_lock (rt w1) = Some t"
      using hb assms(2,3) by (auto simp: handle_begin_def bindE_eq_Inr)
    have det: "det \<and> canDetachMore (rt w1)"
    proof (rule ccontr)
      assume "\<not> (det \<and> canDetachMore (rt w1))"
      then obtain rc w2 w3 where "event_execute uc e w1 = Inr (rc, w2)" "handle_end uc t e rc w2 = Inr w3"
        "w' = rt_upd (set_pc t PLoop) w3"
        using r2 by (auto elim!: bindE_InrE simp del: if_split)
      then show False using False i1 rt_inv_handle_end[of uc t e rc w2 w3 0] event_execute_rt by force
    qed
    then show ?thesis using r2 rt_prog_detached_begin[OF i1] by auto
  qed
qed

lemma loop_check_prog:
  assumes "loop_check uc switch k t w = Inr w'" "rt_inv 0 (rt w)" "rt_lock (rt w) = Some t"
  shows "rt_prog (rt w')"
  using assms loop_pop_prog[OF _ assms(2,3)] rt_prog_thread_exit[OF assms(2,3)]
  by (auto simp: loop_check_def split: if_splits)


lemma loop_body_prog:
  assumes "loop_body uc reader switch k t w = Inr w'" "reader_ok reader" "rt_inv 0 (rt w)" "rt_lock (rt w) = Some t"
  shows "rt_prog (rt w')"
proof -
  obtain w1 where l: "(if rt_load_flow_next (rt w) then load_flow uc reader (rt_upd (\<lambda>r. r\<lparr> rt_load_flow_next := False \<rparr>) w)
                  else Inr w) = Inr w1"
    and rest: "(let w2 = rt_upd collect_tick w1 in
        if run_count (rt w2) > 0
        then (case wait_in_pool t PPoolCheck (signal_to_run k (rt w2)) of (go, r3) \<Rightarrow>
                let w3 = rt_upd (\<lambda>_. r3) w2 in if go then loop_check uc switch k t w3 else Inr w3)
        else loop_pop uc switch k t w2) = Inr w'"
    using assms(1) unfolding loop_body_def by (auto elim!: bindE_InrE simp del: Let_def split del: if_split)
  define w2 where "w2 = rt_upd collect_tick w1"
  have "rt_inv 0 (rt w1) \<and> rt_lock (rt w1) = Some t"
    using l assms(3,4) rt_inv_load_flow[OF _ assms(2), of uc "rt_upd (\<lambda>r. r\<lparr> rt_load_flow_next := False \<rparr>) w" w1]
    by (auto split: if_splits)
  then have i2: "rt_inv 0 (rt w2)" "rt_lock (rt w2) = Some t" using rt_inv_collect_tick[of 0 "rt w1"] by (simp_all add: w2_def)
  obtain go r3 where x: "wait_in_pool t PPoolCheck (signal_to_run k (rt w2)) = (go, r3)" by fastforce
  have i3: "rt_inv 0 r3" "go \<Longrightarrow> rt_lock r3 = Some t"
    using rt_inv_wait_in_pool[OF rt_inv_signal(1)[OF i2(1)] _ _ x] i2(2) by simp_all
  show ?thesis
  proof (cases "run_count (rt w2) > 0")
    case True
    then have "(if go then loop_check uc switch k t (rt_upd (\<lambda>_. r3) w2) else Inr (rt_upd (\<lambda>_. r3) w2)) = Inr w'"
      using rest x by (simp add: Let_def flip: w2_def)
    moreover have "rt_prog r3" using rt_prog_pool[OF i2 _ x] True by simp
    ultimately show ?thesis using i3 loop_check_prog[of uc switch k t "rt_upd (\<lambda>_. r3) w2" w'] by (auto split: if_splits)
  next
    case False
    then show ?thesis using rest loop_pop_prog[OF _ i2] by (simp add: Let_def flip: w2_def)
  qed
qed

lemma loop_iter_prog:
  assumes "loop_iter uc reader switch k t w = Inr w'" "reader_ok reader" "rt_inv 0 (rt w)" "rt_lock (rt w) = Some t"
  shows "rt_prog (rt w')"
proof -
  have "rt_prog (unlock (set_pc t PYield (rt w)))"
  proof -
    have inv: "rt_inv 0 (unlock (set_pc t PYield (rt w)))" by (rule rt_inv_yield[OF assms(3,4)])
    have "runner (unlock (set_pc t PYield (rt w))) t"
      using running_not_waiting(1)[OF assms(3,4)] live_iff[OF inv, of t] by (simp add: runner_def)
    then show ?thesis by (rule rt_prog_runner)
  qed
  then show ?thesis
    using assms(1) rt_prog_thread_exit[OF assms(3,4)] loop_body_prog[OF _ assms(2-4)]
    by (auto simp: loop_iter_def split: if_splits)
qed

text \<open>Joining the line after a detached event.\<close>

lemma rt_prog_relock:
  assumes inv: "rt_inv 0 r" and prog: "rt_prog r" and t: "pc_of r t = PRelock e rc" "t < rt_next_thread r"
    and x: "wait_to_run t (PWaitRun e rc) (detached_end t (r\<lparr> rt_lock := Some t \<rparr>)) = (False, r')"
  shows "rt_prog r'"
proof -
  have skip: "\<not> cv_allow_skip (rt_waiting_to_run r)"
    using x by (auto simp: wait_to_run_def Let_def detached_end_def split: if_splits)
  have "t \<in> live_threads r" using live_iff[OF inv, of t] t by simp
  then obtain u where u: "runner r u" using prog skip by (auto simp: rt_prog_def)
  have f: "pc_of r' = (pc_of r)(t := PWaitRun e rc)" "rt_next_thread r' = rt_next_thread r" "rt_door_thread r' = rt_door_thread r"
    "cv_woken (rt_waiting_in_pool r') = cv_woken (rt_waiting_in_pool r)"
    "cv_woken (rt_waiting_to_run r') = cv_woken (rt_waiting_to_run r)"
    using x by (auto simp: wait_to_run_def Let_def detached_end_def unlock_def set_pc_def th_upd_def pc_of_def cv_wait_def
        fun_eq_iff split: if_splits)
  have "u \<noteq> t"
    using u t(1) rt_inv_waiters[OF inv, of t] by (auto simp: runner_def waiters_def)
  then have "runner r' u" using u by (auto simp: runner_def f live_threads_def threads_at_def)
  then show ?thesis by (rule rt_prog_runner)
qed

lemma rt_prog_step:
  assumes st: "rt_step uc reader switch w w'" and rd: "reader_ok reader" and inv: "rt_inv 0 (rt w)" and prog: "rt_prog (rt w)"
  shows "rt_prog (rt w')"
  using st
proof (cases rule: rt_step.cases)
  case (start t)
  then have "rt_lock (rt w') = Some t" by simp
  then show ?thesis using rt_prog_lock rt_inv_step[OF st rd inv] by blast
next
  case (loop t k)
  then show ?thesis using loop_iter_prog[OF _ rd inv] by blast
next
  case (relocked t k)
  then show ?thesis
    using loop_body_prog[OF relocked(4) rd] rt_inv_start[OF inv, of t] rt_inv_not_door[OF inv, of t]
    by (simp add: pc_of_def)
next
  case (woken_loop t)
  then have "rt_lock (rt w') = Some t" by simp
  then show ?thesis using rt_prog_lock rt_inv_step[OF st rd inv] by blast
next
  case (woken_check t k)
  then show ?thesis using loop_check_prog[OF woken_check(4)] rt_inv_back_from_pool[OF inv, of t] by (simp add: pc_of_def)
next
  case (exec t e rc w1)
  have r: "rt w' = set_pc t (PRelock e rc) (rt w)" using exec(1) event_execute_rt[OF exec(4)] by simp
  have l: "live_threads (rt w') = live_threads (rt w)" using exec(2) by (auto simp: r live_threads_def threads_at_def pc_of_def)
  have ru: "runner (rt w') u" if "runner (rt w) u" for u
    using that exec(2) unfolding runner_def l by (auto simp: r pc_of_def set_pc_def th_upd_def)
  have ex: "pc_exec (pc_of (rt w') u)" if "pc_exec (pc_of (rt w) u)" for u using that by (simp add: r)
  have q: "rt_queue (rt w') = rt_queue (rt w)" "rt_waiting_to_run (rt w') = rt_waiting_to_run (rt w)"
    by (simp_all add: r) (simp add: set_pc_def)
  show ?thesis using prog ru ex unfolding rt_prog_def l q by blast
next
  case (relock t e rc go r1)
  show ?thesis
  proof (cases go)
    case True
    then obtain w2 where h: "handle_end uc t e rc (rt_upd (\<lambda>_. r1) w) = Inr w2" and w': "w' = rt_upd (set_pc t PLoop) w2"
      using relock(5) by (auto elim: bindE_InrE)
    have "rt_lock r1 = Some t"
      using relock(4) True by (auto simp: wait_to_run_def Let_def detached_end_def split: if_splits)
    then have "rt_lock (rt w') = Some t" using handle_end_rt[OF h] w' by auto
    then show ?thesis using rt_prog_lock rt_inv_step[OF st rd inv] by blast
  next
    case False
    then show ?thesis using rt_prog_relock[OF inv prog _ relock(2), of e rc r1] relock(1,4,5) by (auto simp: pc_of_def)
  qed
next
  case (woken_run t e rc w2)
  have "rt_lock (rt w') = Some t" using handle_end_rt[OF woken_run(5)] woken_run(1) by auto
  then show ?thesis using rt_prog_lock rt_inv_step[OF st rd inv] by blast
next
  case (spurious_pool t)
  then have "t \<in> set (cv_woken (rt_waiting_in_pool (rt w')))" by (simp add: cv_wake_def)
  then show ?thesis using woken_runner rt_prog_runner rt_inv_step[OF st rd inv] by blast
next
  case (spurious_run t)
  then have "t \<in> set (cv_woken (rt_waiting_to_run (rt w')))" by (simp add: cv_wake_def)
  then show ?thesis using woken_runner rt_prog_runner rt_inv_step[OF st rd inv] by blast
next
  case (submit k evs)
  then show ?thesis using rt_prog_wake[of 0] inv by (simp add: submitEvents_def enqueue_list_def)
next
  case door
  show ?thesis
  proof (cases "rt_door_thread (rt w)")
    case None
    let ?n = "rt_next_thread (rt w)"
    have f: "rt_next_thread (rt w') = Suc ?n" "rt_queue (rt w') = rt_queue (rt w)" "rt_door_thread (rt w') = Some ?n"
      "rt_waiting_in_pool (rt w') = rt_waiting_in_pool (rt w)" "rt_waiting_to_run (rt w') = rt_waiting_to_run (rt w)"
      using None by (simp_all add: door create_door_thread_def new_RunTimeThread_def Let_def)
    have pc: "pc_of (rt w') = (pc_of (rt w))(?n := PStart)"
      using None by (auto simp: door create_door_thread_def new_RunTimeThread_def Let_def thread_new_def th_upd_def pc_of_def fun_eq_iff)
    have live: "live_threads (rt w') = live_threads (rt w)"
      using None by (auto simp: live_threads_def threads_at_def f pc)
    have n: "?n \<notin> live_threads (rt w)" by (simp add: live_threads_def threads_at_def)
    have "runner (rt w') u = runner (rt w) u" for u
      using n unfolding runner_def live f pc by (cases "u = ?n") auto
    then have "runner (rt w') = runner (rt w)" by blast
    moreover have "(\<exists>u\<in>live_threads (rt w). pc_exec (pc_of (rt w') u)) = (\<exists>u\<in>live_threads (rt w). pc_exec (pc_of (rt w) u))"
      by (rule bex_cong) (use n in \<open>auto simp: pc\<close>)
    ultimately show ?thesis using prog unfolding rt_prog_def live f by simp
  qed (use door prog in \<open>simp add: create_door_thread_def\<close>)
next
  case soft_kill
  show ?thesis by (rule rt_prog_cong[OF prog]) (simp_all add: soft_kill soft_kill_def live_threads_def threads_at_def pc_of_def fun_eq_iff)
next
  case soft_load
  show ?thesis by (rule rt_prog_cong[OF prog]) (simp_all add: soft_load soft_load_flow_def live_threads_def threads_at_def pc_of_def fun_eq_iff)
qed

lemma rt_reach_prog:
  assumes "rt_reach uc reader switch conf w" "reader_ok reader"
  shows "rt_prog (rt w)"
proof -
  obtain w0 w1 w2 where w0: "rt w0 = rt_new conf" and l: "load_flow uc reader w0 = Inr w1"
    and s: "rt_start uc switch w1 = Inr w2" and r: "(rt_step uc reader switch)\<^sup>*\<^sup>* w2 w"
    using assms(1) unfolding rt_reach_def by blast
  have reach: "rt_reach uc reader switch conf u" if "(rt_step uc reader switch)\<^sup>*\<^sup>* w2 u" for u
    unfolding rt_reach_def using w0 l s that by blast
  show ?thesis using r
  proof (induction rule: rtranclp_induct)
    case base
    have i: "rt_inv 0 (rt w2)" by (rule rt_reach_inv[OF reach assms(2)]) simp
    have "rt_thread_list (rt w2) \<noteq> [] \<and> pc_of (rt w2) (hd (rt_thread_list (rt w2))) = PStart"
      using s by (auto simp: rt_start_def new_RunTimeThread_def Let_def thread_new_def pc_of_def elim!: bindE_InrE split: option.splits)
    then have "runner (rt w2) (hd (rt_thread_list (rt w2)))" using i by (auto simp: runner_def rt_inv_def rt_counts_def)
    then show ?case by (rule rt_prog_runner)
  next
    case (step u v)
    have "rt_inv 0 (rt u)" by (rule rt_reach_inv[OF reach[OF step(1)] assms(2)])
    then show ?case using rt_prog_step[OF step(2) assms(2)] step(3) by blast
  qed
qed


section \<open>Replacing flows\<close>

lemma fold_turn_off_instances:
  "fn_instances (fw_nodes (fold (\<lambda>n w. set_node n (node_turn_off_source (fw_nodes w n)) w) ns w) m) = fn_instances (fw_nodes w m)"
  by (induction ns arbitrary: w) (simp_all add: set_node_def node_turn_off_source_def)

lemma turn_off_instances [simp]:
  "flow_has_instances f (snd (flow_turn_off_sources fl w)) = flow_has_instances f w"
  "flow_has_instances (fst (flow_turn_off_sources fl w)) w = flow_has_instances fl w"
  by (simp_all add: flow_has_instances_def flow_turn_off_sources_def fold_turn_off_instances)

lemma turn_off_fst: "fst (flow_turn_off_sources fl w) = fl\<lparr> fl_sources := [] \<rparr>"
  by (simp add: flow_turn_off_sources_def)

lemma drop_flows_spec:
  assumes "drop_flows fls w = (kept, w')"
  shows "\<exists>dropped rest. fls = dropped @ rest \<and> (\<forall>f\<in>set dropped. \<not> flow_has_instances f w) \<and>
     (case rest of [] \<Rightarrow> kept = [] | f # fs \<Rightarrow> flow_has_instances f w \<and> kept = f\<lparr> fl_sources := [] \<rparr> # fs)"
  using assms
proof (induction fls w rule: drop_flows.induct)
  case (2 bk fls w)
  obtain b1 w1 where b: "(if length (fl_sources bk) > 0 then flow_turn_off_sources bk w else (bk, w)) = (b1, w1)" by fastforce
  have b1: "b1 = bk\<lparr> fl_sources := [] \<rparr>" using b turn_off_fst[of bk w] by (auto split: if_splits)
  have same: "flow_has_instances f w1 = flow_has_instances f w" for f
  proof (cases "fl_sources bk = []")
    case False
    then have "w1 = snd (flow_turn_off_sources bk w)" using b by simp
    then show ?thesis by simp
  qed (use b in simp)
  have hb: "flow_has_instances b1 w1 = flow_has_instances bk w"
    unfolding same by (simp add: b1 flow_has_instances_def)
  show ?case
  proof (cases "flow_has_instances b1 w1")
    case True
    then have "kept = b1 # fls" using 2(2) b by simp
    then show ?thesis using True hb b1 by (intro exI[of _ "[]"] exI[of _ "bk # fls"]) simp
  next
    case False
    then have "drop_flows fls w1 = (kept, w')" using 2(2) b by simp
    from 2(1)[OF b[symmetric] False this] obtain dropped rest where
      d: "fls = dropped @ rest" "\<forall>f\<in>set dropped. \<not> flow_has_instances f w1"
      "case rest of [] \<Rightarrow> kept = [] | f # fs \<Rightarrow> flow_has_instances f w1 \<and> kept = f\<lparr> fl_sources := [] \<rparr> # fs" by blast
    show ?thesis using False hb d unfolding same
      by (intro exI[of _ "bk # dropped"] exI[of _ rest]) (simp add: same split: list.splits)
  qed
qed simp

text \<open>C12: When a new flow is loaded, the older flows that are deleted are exactly the oldest ones up to
  the first that has had an event; none that has had one is deleted.  The oldest flow that stays no
  longer spawns sources, the order of the others is kept.\<close>

theorem reload_keeps_used_flows:
  assumes "drop_flows (rev fls) w = (kept, w')"
  shows "\<exists>newer older. fls = newer @ older \<and> (\<forall>f\<in>set older. \<not> flow_has_instances f w) \<and>
     (if newer = [] then kept = []
      else flow_has_instances (last newer) w \<and> rev kept = butlast newer @ [(last newer)\<lparr> fl_sources := [] \<rparr>])"
proof -
  obtain dropped rest where d: "rev fls = dropped @ rest" "\<forall>f\<in>set dropped. \<not> flow_has_instances f w"
    "case rest of [] \<Rightarrow> kept = [] | f # fs \<Rightarrow> flow_has_instances f w \<and> kept = f\<lparr> fl_sources := [] \<rparr> # fs"
    using drop_flows_spec[OF assms] by blast
  have "fls = rev rest @ rev dropped" using d(1) by (metis rev_append rev_rev_ident)
  moreover have "if rev rest = [] then kept = []
      else flow_has_instances (last (rev rest)) w \<and> rev kept = butlast (rev rest) @ [(last (rev rest))\<lparr> fl_sources := [] \<rparr>]"
    using d(3) by (cases rest) auto
  ultimately show ?thesis using d(2) by (metis set_rev)
qed

section \<open>An example\<close>

definition ex_conf :: rt_config where
  "ex_conf = \<lparr> max_thread_pool_size = 2, max_detached_threads = 1, min_waiting_thread_collect = 0,
     thread_collection_sample_period = 20 \<rparr>"

definition ex_reader :: "(nat, nat, unit) flow_reader" where
  "ex_reader old w = Inr ((flow_new ''f'')\<lparr> fl_sources := [2] \<rparr>, old, w)"

lemma ex_reader_ok: "reader_ok ex_reader"
  by (simp add: reader_ok_def ex_reader_def)

definition ex_rworld :: "(nat, nat) rworld" where
  "ex_rworld = \<lparr> gw_atoms = \<lambda>_. None, gw_guards = \<lambda>_. \<lparr> g_magic = 0, g_map = GTrivial 0, g_is_gc = False \<rparr>,
     gw_next = 0, w_ah = \<lambda>_. ah_new False, fw_nodes = ex_enode, fw_gname = \<lambda>_. [], fw_last_id = 0,
     ew_events = \<lambda>_. None, ew_next = 0, rt = rt_new ex_conf \<rparr>"

lemma ex_rworld_rt: "rt ex_rworld = rt_new ex_conf"
  by (simp add: ex_rworld_def)

lemma assign_no_guards:
  assumes "fl_guards fl = []" "fl_sorter fl = ms_new" "fl_nodes fl = []"
  shows "assignMagicNumbers fl w = Inr (fl, set_magic (\<lambda>g. g_magic (gw_guards w g)) w)"
  using assms by (cases fl) (simp add: assignMagicNumbers_def numberAll_def ms_new_def number_loop.simps)

definition ex_flow :: flow where
  "ex_flow = (flow_new ''f'')\<lparr> fl_sources := [2] \<rparr>"

lemma ex_run: "\<exists>w. rt_reach ex_uc ex_reader False ex_conf w \<and> rt_lock (rt w) = Some 0 \<and> eq_q (rt_queue (rt w)) = [0]"
proof -
  define w1 where "w1 = ex_rworld\<lparr> rt := (rt_new ex_conf)\<lparr> rt_flows := [ex_flow] \<rparr> \<rparr>"
  have "assignMagicNumbers ex_flow w = Inr (ex_flow, set_magic (\<lambda>g. g_magic (gw_guards w g)) w)" for w :: "(nat, nat) rworld"
    by (rule assign_no_guards) (simp_all add: ex_flow_def flow_new_def)
  then have l: "load_flow ex_uc ex_reader ex_rworld = Inr w1"
    by (simp add: load_flow_def ex_reader_def rt_flow_def w1_def set_magic_def rt_upd_def rt_new_def ex_rworld_def flip: ex_flow_def)
  obtain w2 where p: "push_initials_and_sources ex_uc ex_flow False ([], w1) = Inr ([0], w2)"
    by (auto simp: push_initials_and_sources_def check_initial_def node_getIsInitial_def ex_rworld_def w1_def ex_enode_simps ex_flow_def
      getByTargetNode_def ex_case_def case_new_def create_no_guards acquire_no_guards set_node_def set_event_def set_ah_def node_incr_instances_def)
  have r2: "rt w2 = (rt_new ex_conf)\<lparr> rt_flows := [ex_flow] \<rparr>" using push_initials_rt[OF p] by (simp add: w1_def)
  define r3 where "r3 = (rt_new ex_conf)\<lparr> rt_flows := [ex_flow], rt_queue := eq_push_list [0] eq_new, rt_running := True,
    rt_next_thread := 1, rt_threads := (\<lambda>_. thread_new False)(0 := thread_new False), rt_thread_list := [0], rt_thread_count := 1 \<rparr>"
  have st: "rt_start ex_uc False w1 = Inr (rt_upd (\<lambda>_. r3) w2)"
    using p r2 by (simp add: rt_start_def rt_flow_def w1_def rt_upd_def new_RunTimeThread_def Let_def r3_def) (simp add: rt_new_def)
  define w4 where "w4 = rt_upd (\<lambda>r. set_pc 0 PLoop (th_upd 0 (\<lambda>th. th\<lparr> t_thread_running := True \<rparr>)
      (r\<lparr> rt_lock := Some 0 \<rparr>))) (rt_upd (\<lambda>_. r3) w2)"
  have "rt_step ex_uc ex_reader False (rt_upd (\<lambda>_. r3) w2) w4"
    unfolding w4_def by (rule rt_step.start) (simp_all add: r3_def rt_new_def thread_new_def)
  then have "rt_reach ex_uc ex_reader False ex_conf w4"
    unfolding rt_reach_def using l st by (metis ex_rworld_rt r_into_rtranclp)
  moreover have "rt_lock (rt w4) = Some 0" "eq_q (rt_queue (rt w4)) = [0]"
    by (simp_all add: w4_def r3_def set_pc_def th_upd_def eq_push_list_def eq_new_def eq_push_def eq_push_list_from.simps)
  ultimately show ?thesis by blast
qed

text \<open>A run with an empty flow: the first thread starts and, with nothing to do, goes to the pool.\<close>

definition ex_empty_reader :: "(nat, nat, unit) flow_reader" where
  "ex_empty_reader old w = Inr (flow_new ''e'', old, w)"

lemma ex_empty_reader_ok: "reader_ok ex_empty_reader"
  by (simp add: reader_ok_def ex_empty_reader_def)

lemma ex_idle_run: "\<exists>w. rt_reach ex_uc ex_empty_reader False ex_conf w \<and> live_threads (rt w) = {0} \<and>
    0 \<in> set (cv_asleep (rt_waiting_in_pool (rt w)))"
proof -
  define w1 where "w1 = ex_rworld\<lparr> rt := (rt_new ex_conf)\<lparr> rt_flows := [flow_new ''e''] \<rparr> \<rparr>"
  have "assignMagicNumbers (flow_new ''e'') w = Inr (flow_new ''e'', set_magic (\<lambda>g. g_magic (gw_guards w g)) w)" for w :: "(nat, nat) rworld"
    by (rule assign_no_guards) (simp_all add: flow_new_def)
  then have l: "load_flow ex_uc ex_empty_reader ex_rworld = Inr w1"
    by (simp add: load_flow_def ex_empty_reader_def rt_flow_def w1_def set_magic_def rt_upd_def rt_new_def ex_rworld_def)
  have p: "push_initials_and_sources ex_uc (flow_new ''e'') False ([], w1) = Inr ([], w1)"
    by (simp add: push_initials_and_sources_def flow_new_def)
  define r3 where "r3 = (rt_new ex_conf)\<lparr> rt_flows := [flow_new ''e''], rt_queue := eq_new, rt_running := True,
    rt_next_thread := 1, rt_threads := (\<lambda>_. thread_new False)(0 := thread_new False), rt_thread_list := [0], rt_thread_count := 1 \<rparr>"
  have st: "rt_start ex_uc False w1 = Inr (rt_upd (\<lambda>_. r3) w1)"
    using p by (simp add: rt_start_def rt_flow_def w1_def rt_upd_def new_RunTimeThread_def Let_def r3_def rt_new_def
        eq_push_list_def eq_push_list_from.simps)
  define w4 where "w4 = rt_upd (\<lambda>r. set_pc 0 PLoop (th_upd 0 (\<lambda>th. th\<lparr> t_thread_running := True \<rparr>)
      (r\<lparr> rt_lock := Some 0 \<rparr>))) (rt_upd (\<lambda>_. r3) w1)"
  have s4: "rt_step ex_uc ex_empty_reader False (rt_upd (\<lambda>_. r3) w1) w4"
    unfolding w4_def by (rule rt_step.start) (simp_all add: r3_def rt_new_def thread_new_def)
  obtain w5 where i: "loop_iter ex_uc ex_empty_reader False 0 0 w4 = Inr w5"
    and f: "pc_of (rt w5) 0 = PPoolLoop" "rt_next_thread (rt w5) = 1" "rt_door_thread (rt w5) = None"
      "cv_asleep (rt_waiting_in_pool (rt w5)) = [0]"
    by (simp add: w4_def r3_def loop_iter_def collect_tick_def Let_def loop_body_def rt_new_def set_pc_def th_upd_def thread_new_def ex_conf_def
        run_count_def cv_new_def ic_new_def ic_get_def loop_pop_def eq_pop_def eq_new_def wait_in_pool_def signal_to_run_def
        cv_signal_def cv_wait_def unlock_def pc_of_def)
  have "rt_step ex_uc ex_empty_reader False w4 w5"
    by (rule rt_step.loop[OF _ _ i]) (simp_all add: w4_def set_pc_def th_upd_def)
  then have "rt_reach ex_uc ex_empty_reader False ex_conf w5"
    unfolding rt_reach_def using l st s4 by (metis ex_rworld_rt r_into_rtranclp rtranclp.rtrancl_into_rtrancl)
  moreover have "live_threads (rt w5) = {0}" by (auto simp: live_threads_def threads_at_def f)
  ultimately show ?thesis using f(4) by (metis list.set_intros(1))
qed




lemma reload_keeps_used_flows_witness:
  "rev (fst (drop_flows (rev [(flow_new ''b'')\<lparr> fl_nodes := [(''S'', 2)], fl_sources := [2] \<rparr>, flow_new ''a''])
     (node_incr_instances 2 ex_rworld))) = [(flow_new ''b'')\<lparr> fl_nodes := [(''S'', 2)] \<rparr>]"
proof -
  let ?b = "(flow_new ''b'')\<lparr> fl_nodes := [(''S'', 2)], fl_sources := [2] \<rparr>" and ?w = "node_incr_instances 2 ex_rworld"
  have i: "flow_has_instances ?b ?w" "\<not> flow_has_instances (flow_new ''a'') ?w"
    by (simp_all add: flow_has_instances_def flow_new_def node_incr_instances_def set_node_def ex_rworld_def ex_enode_def
        ex_node_def node_new_def)
  obtain kept w' where d: "drop_flows (rev [?b, flow_new ''a'']) ?w = (kept, w')" by fastforce
  from reload_keeps_used_flows[OF d] obtain newer older where n: "[?b, flow_new ''a''] = newer @ older"
    "\<forall>f\<in>set older. \<not> flow_has_instances f ?w"
    "if newer = [] then kept = [] else flow_has_instances (last newer) ?w \<and> rev kept = butlast newer @ [(last newer)\<lparr> fl_sources := [] \<rparr>]"
    by blast
  have "newer \<noteq> []" using n(1,2) i(1) by (auto simp: Cons_eq_append_conv)
  then have "newer = [?b]" using n(1,3) i(2) by (auto simp: Cons_eq_append_conv split: if_splits)
  then show ?thesis using d n(3) by (simp add: flow_new_def)
qed

end
