(* ===== verification/Lookups.thy ===== *)
theory Lookups
  imports StdMap "HOL-Library.Sublist"
begin

text \<open>
  The static tables the OFlux compiler generates and the lookups over them
  (flow/OFluxFlowFunctions.h and .cpp, the table types in OFlux.h), and the plugin libraries
  (flow/OFluxFlowLibrary.h and .cpp).  A C array is the list of its elements; reading behind its
  end is a fault.  A function is an identifier, a NULL name or function is \<open>None\<close>.
\<close>

section \<open>Tables\<close>

record function_lookup =
  fe_name :: "string option"
  fe_createfn :: "nat option"

record modular_lookup =
  me_scope :: "string option"
  me_map :: "function_lookup list"

record conditional_map =
  ce_unionhash :: string
  ce_argno :: int
  ce_name :: "string option"
  ce_condfn :: "nat option"

record guard_trans_map =
  ge_guardname :: "string option"
  ge_unionhash :: string
  ge_hash :: string
  ge_wtype :: int
  ge_late :: bool
  ge_guardtransfn :: "nat option"

record atomic_map_map =
  ae_guardname :: "string option"
  ae_amap :: nat

record io_converter_map =
  ie_from :: "string option"
  ie_to :: string
  ie_fun :: "nat option"

record fmaps =
  fm_cond :: "conditional_map list"
  fm_create :: "modular_lookup list"
  fm_create_door :: "modular_lookup list"
  fm_guard_trans :: "guard_trans_map list"
  fm_atom :: "atomic_map_map list"
  fm_io :: "io_converter_map list"

text \<open>The loop all lookups share: walk up to the terminating entry, stop at the first match.\<close>

fun table_find :: "('e \<Rightarrow> string option) \<Rightarrow> ('e \<Rightarrow> bool) \<Rightarrow> 'e list \<Rightarrow> 'e option result" where
  "table_find name matches [] = Inl OutOfRange"
| "table_find name matches (e # es) =
     (if name e = None then Inr None else if matches e then Inr (Some e) else table_find name matches es)"

definition lookup_io_conversion :: "fmaps \<Rightarrow> string \<Rightarrow> string \<Rightarrow> nat option result" where
  "lookup_io_conversion fm from_unionhash to_unionhash =
     bindE (table_find ie_from (\<lambda>e. ie_from e = Some from_unionhash \<and> ie_to e = to_unionhash) (fm_io fm)) (\<lambda>r.
       Inr (case r of None \<Rightarrow> None | Some e \<Rightarrow> ie_fun e))"

fun lookupModularType :: "modular_lookup list \<Rightarrow> string \<Rightarrow> nat option result" where
  "lookupModularType [] n = Inl OutOfRange"
| "lookupModularType (m # mcm) n =
     (case me_scope m of
        None \<Rightarrow> Inr None
      | Some scope \<Rightarrow>
          let sz = length scope in
          if take sz n = scope
          then bindE (table_find fe_name (\<lambda>e. fe_name e = Some (drop sz n)) (me_map m)) (\<lambda>r.
                 case (case r of None \<Rightarrow> None | Some e \<Rightarrow> fe_createfn e) of
                   Some f \<Rightarrow> Inr (Some f)
                 | None \<Rightarrow> lookupModularType mcm n)
          else lookupModularType mcm n)"

definition lookup_node_function :: "fmaps \<Rightarrow> string \<Rightarrow> nat option result" where
  "lookup_node_function fm n = lookupModularType (fm_create fm) n"

definition lookup_door_function :: "fmaps \<Rightarrow> string \<Rightarrow> nat option result" where
  "lookup_door_function fm n = lookupModularType (fm_create_door fm) n"

definition lookup_conditional :: "fmaps \<Rightarrow> string \<Rightarrow> int \<Rightarrow> string \<Rightarrow> nat option result" where
  "lookup_conditional fm n argno unionhash =
     bindE (table_find ce_name (\<lambda>e. ce_name e = Some n \<and> ce_argno e = argno \<and> ce_unionhash e = unionhash) (fm_cond fm)) (\<lambda>r.
       Inr (case r of None \<Rightarrow> None | Some e \<Rightarrow> ce_condfn e))"

definition lookup_guard_translator :: "fmaps \<Rightarrow> string \<Rightarrow> string \<Rightarrow> string \<Rightarrow> int \<Rightarrow> bool \<Rightarrow> nat option result" where
  "lookup_guard_translator fm guardname unionhash hash wtype late =
     bindE (table_find ge_guardname (\<lambda>e. ge_guardname e = Some guardname \<and> ge_unionhash e = unionhash \<and> ge_hash e = hash \<and>
        ge_wtype e = wtype \<and> ge_late e = late) (fm_guard_trans fm)) (\<lambda>r.
       Inr (case r of None \<Rightarrow> None | Some e \<Rightarrow> ge_guardtransfn e))"

definition lookup_atomic_map :: "fmaps \<Rightarrow> string \<Rightarrow> nat option result" where
  "lookup_atomic_map fm guardname =
     bindE (table_find ae_guardname (\<lambda>e. ae_guardname e = Some guardname) (fm_atom fm)) (\<lambda>r.
       Inr (case r of None \<Rightarrow> None | Some e \<Rightarrow> Some (ae_amap e)))"

section \<open>The modular lookup is a lookup of qualified names\<close>

text \<open>A table is terminated; the compiler writes no NULL functions.\<close>

definition terminated :: "('e \<Rightarrow> string option) \<Rightarrow> 'e list \<Rightarrow> bool" where
  "terminated name es \<longleftrightarrow> (\<exists>e\<in>set es. name e = None)"

definition entries :: "('e \<Rightarrow> string option) \<Rightarrow> 'e list \<Rightarrow> 'e list" where
  "entries name es = takeWhile (\<lambda>e. name e \<noteq> None) es"

lemma table_find_entries: "terminated name es \<Longrightarrow> table_find name p es = Inr (find p (entries name es))"
  by (induction es) (auto simp: terminated_def entries_def)

definition modular_ok :: "modular_lookup list \<Rightarrow> bool" where
  "modular_ok mcm \<longleftrightarrow> terminated me_scope mcm \<and>
     (\<forall>m\<in>set (entries me_scope mcm). terminated fe_name (me_map m) \<and>
        (\<forall>e\<in>set (entries fe_name (me_map m)). fe_createfn e \<noteq> None))"

definition qualified_names :: "modular_lookup list \<Rightarrow> (string \<times> nat) list" where
  "qualified_names mcm = concat (map (\<lambda>m. map (\<lambda>e. (the (me_scope m) @ the (fe_name e), the (fe_createfn e)))
     (entries fe_name (me_map m))) (entries me_scope mcm))"

lemma find_map_of:
  assumes "\<forall>e\<in>set es. fe_createfn e \<noteq> None \<and> fe_name e \<noteq> None" "take (length scope) n = scope"
  shows "map_of (map (\<lambda>e. (scope @ the (fe_name e), the (fe_createfn e))) es) n =
     (case find (\<lambda>e. fe_name e = Some (drop (length scope) n)) es of None \<Rightarrow> None | Some e \<Rightarrow> fe_createfn e)"
  using assms
proof (induction es)
  case (Cons e es)
  obtain nm f where e: "fe_name e = Some nm" "fe_createfn e = Some f" using Cons.prems(1) by auto
  have "n = scope @ drop (length scope) n" using Cons.prems(2) by (metis append_take_drop_id)
  then have "n = scope @ nm \<longleftrightarrow> nm = drop (length scope) n" by (metis append_eq_conv_conj)
  then show ?case using Cons e by auto
qed simp

lemma map_of_no_prefix:
  assumes "take (length scope) n \<noteq> scope"
  shows "map_of (map (\<lambda>e. (scope @ the (fe_name e), the (fe_createfn e))) es) n = None"
  using assms by (auto simp: map_of_eq_None_iff)

text \<open>C20: Looking a node or door function up by scope and name is looking its qualified name up in the
  one list of all qualified names, in table order: the first entry whose scope followed by its name
  is the name asked for, and NULL when there is none.\<close>

theorem modular_lookup_is_qualified_lookup:
  assumes "modular_ok mcm"
  shows "lookupModularType mcm n = Inr (map_of (qualified_names mcm) n)"
  using assms
proof (induction mcm)
  case Nil
  then show ?case by (simp add: modular_ok_def terminated_def)
next
  case (Cons m mcm)
  show ?case
  proof (cases "me_scope m")
    case None
    then show ?thesis by (simp add: qualified_names_def entries_def)
  next
    case (Some scope)
    have ok: "modular_ok mcm" and t: "terminated fe_name (me_map m)"
      and fn: "\<forall>e\<in>set (entries fe_name (me_map m)). fe_createfn e \<noteq> None"
      using Cons.prems Some by (auto simp: modular_ok_def terminated_def entries_def)
    have nm: "\<forall>e\<in>set (entries fe_name (me_map m)). fe_createfn e \<noteq> None \<and> fe_name e \<noteq> None"
      using fn set_takeWhileD by (fastforce simp: entries_def)
    let ?es = "map (\<lambda>e. (scope @ the (fe_name e), the (fe_createfn e))) (entries fe_name (me_map m))"
    have q: "qualified_names (m # mcm) = ?es @ qualified_names mcm" using Some by (simp add: qualified_names_def entries_def)
    show ?thesis
    proof (cases "take (length scope) n = scope")
      case True
      have "lookupModularType (m # mcm) n = (case map_of ?es n of Some f \<Rightarrow> Inr (Some f) | None \<Rightarrow> lookupModularType mcm n)"
        using Some True table_find_entries[OF t] by (simp add: find_map_of[OF nm True] Let_def)
      then show ?thesis using Cons.IH[OF ok] by (auto simp: q map_add_def split: option.splits)
    next
      case False
      have "map_of ?es n = None" by (rule map_of_no_prefix[OF False])
      then have "map_of (qualified_names (m # mcm)) n = map_of (qualified_names mcm) n" by (simp only: q map_of_append map_add_def option.case)
      then show ?thesis using Some Cons.IH[OF ok] False by (simp add: Let_def)
    qed
  qed
qed

lemma modular_lookup_is_qualified_lookup_witness:
  "lookupModularType [\<lparr> me_scope = Some ''M::'', me_map = [\<lparr> fe_name = Some ''a'', fe_createfn = Some 7 \<rparr>, \<lparr> fe_name = None, fe_createfn = None \<rparr>] \<rparr>,
     \<lparr> me_scope = None, me_map = [] \<rparr>] ''M::a'' = Inr (Some 7)"
  by (subst modular_lookup_is_qualified_lookup)
    (simp_all add: modular_ok_def terminated_def entries_def qualified_names_def)

section \<open>Libraries\<close>

record library =
  lib_path :: string
  lib_filename :: string
  lib_name :: string
  lib_handle :: "nat option"
  lib_dependencies :: "string list"

text \<open>\<open>find_last_of\<close> and \<open>find\<close> of \<open>std::string\<close>.\<close>

definition find_last_of :: "char \<Rightarrow> string \<Rightarrow> nat option" where
  "find_last_of c s = (if c \<in> set s then Some (length s - 1 - length (takeWhile (\<lambda>x. x \<noteq> c) (rev s))) else None)"

fun find_str :: "string \<Rightarrow> string \<Rightarrow> nat option" where
  "find_str p [] = (if p = [] then Some 0 else None)"
| "find_str p (c # s) = (if take (length p) (c # s) = p then Some 0 else map_option Suc (find_str p s))"

definition replace_empty :: "nat \<Rightarrow> nat \<Rightarrow> string \<Rightarrow> string" where
  "replace_empty pos len s = take pos s @ drop (pos + len) s"

definition trim_extension_and_prefix :: "string \<Rightarrow> string" where
  "trim_extension_and_prefix str =
     (let str1 = (case find_last_of (CHR ''.'') str of None \<Rightarrow> str | Some dotpos \<Rightarrow> replace_empty dotpos 3 str)
      in case find_str ''lib'' str1 of None \<Rightarrow> str1 | Some libpos \<Rightarrow> replace_empty libpos 3 str1)"

definition library_new :: "string \<Rightarrow> string \<Rightarrow> library" where
  "library_new path filename = \<lparr> lib_path = path, lib_filename = filename, lib_name = trim_extension_and_prefix filename,
     lib_handle = None, lib_dependencies = [] \<rparr>"

definition libraryFactory :: "string \<Rightarrow> string \<Rightarrow> library" where
  "libraryFactory dir name = library_new dir name"

definition lib_addDependency :: "string \<Rightarrow> library \<Rightarrow> library" where
  "lib_addDependency d lib = lib\<lparr> lib_dependencies := lib_dependencies lib @ [d] \<rparr>"

text \<open>\<open>dlopen\<close> maps a path to a handle, \<open>dlsym\<close> a handle and a symbol to a function.\<close>

definition lib_load :: "(string \<Rightarrow> nat option) \<Rightarrow> library \<Rightarrow> bool \<times> library" where
  "lib_load dlopen lib =
     (let h = dlopen (lib_path lib @ ''/'' @ lib_filename lib) in (h \<noteq> None, lib\<lparr> lib_handle := h \<rparr>))"

definition addSuffix :: "string \<Rightarrow> library \<Rightarrow> string" where
  "addSuffix str lib = str @ lib_name lib"

definition lib_getSymbol :: "(nat \<Rightarrow> string \<Rightarrow> nat option) \<Rightarrow> string \<Rightarrow> library \<Rightarrow> nat option" where
  "lib_getSymbol dlsym name lib = (case lib_handle lib of None \<Rightarrow> None | Some h \<Rightarrow> dlsym h name)"

text \<open>The functions \<open>init\<close>, \<open>deinit\<close> and the destructor call.\<close>

definition lib_init :: "(nat \<Rightarrow> string \<Rightarrow> nat option) \<Rightarrow> library \<Rightarrow> nat option" where
  "lib_init dlsym lib = lib_getSymbol dlsym (addSuffix ''init__'' lib) lib"

definition lib_deinit :: "(nat \<Rightarrow> string \<Rightarrow> nat option) \<Rightarrow> library \<Rightarrow> nat option" where
  "lib_deinit dlsym lib = lib_getSymbol dlsym (addSuffix ''deinit__'' lib) lib"

definition lib_destruct :: "(nat \<Rightarrow> string \<Rightarrow> nat option) \<Rightarrow> library \<Rightarrow> nat option \<times> library" where
  "lib_destruct dlsym lib =
     (if lib_handle lib \<noteq> None then (lib_deinit dlsym lib, lib\<lparr> lib_handle := None \<rparr>) else (None, lib))"

lemma find_last_of_append: "c \<notin> set t \<Longrightarrow> find_last_of c (s @ c # t) = Some (length s)"
  by (auto simp: find_last_of_def takeWhile_append)

lemma trim_library_file_name: "trim_extension_and_prefix (''lib'' @ s @ ''.so'') = s"
proof -
  have "find_last_of (CHR ''.'') ((''lib'' @ s) @ CHR ''.'' # ''so'') = Some (length (''lib'' @ s))"
    by (rule find_last_of_append) simp
  then show ?thesis by (simp add: trim_extension_and_prefix_def replace_empty_def Let_def)
qed

text \<open>The name lib is removed wherever it is: a library called mylib loses its end.\<close>

lemma trim_inner_lib: "trim_extension_and_prefix ''mylib.so'' = ''my''"
  by (simp add: trim_extension_and_prefix_def find_last_of_def replace_empty_def)

end
