(* ===== verification/Config.thy ===== *)
theory Config
  imports Lookups
begin

text \<open>
  How a program is configured: the environment variable (OFluxRunTimeBase.h and .cpp), the choice of
  the runtime, and the sources of plugin file names (OFluxConfiguration.h and .cpp).
\<close>

section \<open>The string functions of the C library in use\<close>

text \<open>\<open>strtok\<close>: the state is the text not yet read; a token is a longest run of non-delimiters.\<close>

definition strtok :: "(char \<Rightarrow> bool) \<Rightarrow> string \<Rightarrow> (string \<times> string) option" where
  "strtok delim s = (let s1 = dropWhile delim s in
     if s1 = [] then None else Some (takeWhile (\<lambda>c. \<not> delim c) s1, drop 1 (dropWhile (\<lambda>c. \<not> delim c) s1)))"

lemma strtok_shorter: "strtok delim s = Some (tok, rest) \<Longrightarrow> length rest < length s"
proof -
  assume a: "strtok delim s = Some (tok, rest)"
  let ?s1 = "dropWhile delim s"
  have "?s1 \<noteq> []" and r: "rest = drop 1 (dropWhile (\<lambda>c. \<not> delim c) ?s1)" using a by (auto simp: strtok_def Let_def split: if_splits)
  then obtain c cs where c: "?s1 = c # cs" by (cases ?s1) auto
  have "length ?s1 \<le> length s" by (rule length_dropWhile_le)
  moreover have "length (dropWhile (\<lambda>c. \<not> delim c) ?s1) \<le> length ?s1" by (rule length_dropWhile_le)
  moreover have "\<not> delim c" using c by (metis dropWhile_eq_Cons_conv)
  ultimately show ?thesis using c r by (auto simp: length_dropWhile_le less_Suc_eq_le intro: le_less_trans)
qed

text \<open>\<open>atoi\<close>: white space, a sign, digits.  The value is not cut to the width of an int.\<close>

definition is_space :: "char \<Rightarrow> bool" where
  "is_space c \<longleftrightarrow> c \<in> set [CHR '' '', CHR 0x09, CHR 0x0A, CHR 0x0B, CHR 0x0C, CHR 0x0D]"

definition is_digit :: "char \<Rightarrow> bool" where
  "is_digit c \<longleftrightarrow> 48 \<le> (of_char c :: nat) \<and> (of_char c :: nat) \<le> 57"

definition digits_val :: "string \<Rightarrow> int" where
  "digits_val ds = foldl (\<lambda>v c. 10 * v + (of_char c - 48)) 0 ds"

definition atoi :: "string \<Rightarrow> int" where
  "atoi s = (let s1 = dropWhile is_space s in
     case s1 of
       [] \<Rightarrow> 0
     | c # cs \<Rightarrow>
         if c = CHR ''-'' then - digits_val (takeWhile is_digit cs)
         else if c = CHR ''+'' then digits_val (takeWhile is_digit cs)
         else digits_val (takeWhile is_digit s1))"

section \<open>The environment variable\<close>

record environment_var =
  env_nostart :: bool
  env_runtime_number :: int
  env_logging :: "nat list"

definition level_strings :: "string list" where
  "level_strings = [''trace '', ''debug '', ''info  '', ''warn  '', ''error '']"

text \<open>The levels switched on for a value: those whose name has it as a prefix.\<close>

definition levels_for :: "string \<Rightarrow> nat list" where
  "levels_for v = filter (\<lambda>i. take (length v) (level_strings ! i) = v) [0..<length level_strings]"

definition env_delim :: "char \<Rightarrow> bool" where
  "env_delim c \<longleftrightarrow> c = CHR '','' \<or> c = CHR ''=''"

function env_loop :: "string \<Rightarrow> environment_var \<Rightarrow> environment_var" where
  "env_loop text env =
     (case strtok env_delim text of
        None \<Rightarrow> env
      | Some (s, rest) \<Rightarrow>
          if s = ''nostart'' then env_loop rest (env\<lparr> env_nostart := True \<rparr>)
          else if s = ''runtime_number''
          then (case strtok env_delim rest of
                  None \<Rightarrow> env_loop rest env
                | Some (v, rest1) \<Rightarrow> env_loop rest1 (env\<lparr> env_runtime_number := atoi v \<rparr>))
          else if s = ''logging''
          then (case strtok env_delim rest of
                  None \<Rightarrow> env_loop rest env
                | Some (v, rest1) \<Rightarrow> env_loop rest1 (env\<lparr> env_logging := env_logging env @ levels_for v \<rparr>))
          else env_loop rest env)"
  by pat_completeness auto
termination by (relation "measure (\<lambda>(text, env). length text)") (auto dest!: strtok_shorter)

declare env_loop.simps [simp del]

text \<open>The constructor; \<open>val\<close> is the value of the variable, \<open>None\<close> when it is not set, in which case the
  first \<open>strtok\<close> reads through NULL.\<close>

definition EnvironmentVar :: "int \<Rightarrow> string option \<Rightarrow> environment_var result" where
  "EnvironmentVar rt_number val = (case val of
      None \<Rightarrow> Inl NullDeref
    | Some text \<Rightarrow> Inr (env_loop text \<lparr> env_nostart = False, env_runtime_number = rt_number, env_logging = [] \<rparr>))"

datatype runtime_kind = RClassic | RMelding | RLockfree

definition factory_create :: "int \<Rightarrow> runtime_kind" where
  "factory_create runtime_number =
     (if runtime_number = 4 then RLockfree else if runtime_number = 1 then RMelding else RClassic)"

section \<open>Plugin sources\<close>

text \<open>A directory: its XML files in the order of a \<open>std::set\<close>.  \<open>entries\<close> is what reading the
  directory yields, \<open>None\<close> when it cannot be opened.\<close>

record dir_source =
  ds_files :: "(string \<times> unit) list"
  ds_index :: nat

definition has_xml_suffix :: "string \<Rightarrow> bool" where
  "has_xml_suffix filename \<longleftrightarrow>
     (case find_last_of CHR ''.'' filename of None \<Rightarrow> filename | Some i \<Rightarrow> drop (i + 1) filename) = ''xml''"

definition dir_source_new :: "string \<Rightarrow> string list option \<Rightarrow> dir_source" where
  "dir_source_new dir dir_entries = \<lparr> ds_files = (case dir_entries of None \<Rightarrow> []
     | Some names \<Rightarrow> fold (\<lambda>f s. if has_xml_suffix f then map_insert (dir @ ''/'' @ f) () s else s) names []), ds_index = 0 \<rparr>"

definition dir_nextXmlFile :: "dir_source \<Rightarrow> string option \<times> dir_source" where
  "dir_nextXmlFile d = (if ds_index d < length (ds_files d)
     then (Some (fst (ds_files d ! ds_index d)), d\<lparr> ds_index := ds_index d + 1 \<rparr>) else (None, d))"

definition dir_reset :: "dir_source \<Rightarrow> dir_source" where
  "dir_reset d = d\<lparr> ds_index := 0 \<rparr>"

text \<open>An array of names ended by NULL, and a container, with the position of the iterator.\<close>

definition array_nextXmlFile :: "string option list \<Rightarrow> nat \<Rightarrow> (string option \<times> nat) result" where
  "array_nextXmlFile names i = (if i < length names
     then Inr (case names ! i of None \<Rightarrow> (None, i) | Some n \<Rightarrow> (Some n, i + 1)) else Inl OutOfRange)"

definition container_nextXmlFile :: "string list \<Rightarrow> nat \<Rightarrow> string option \<times> nat" where
  "container_nextXmlFile cont i = (if i = length cont then (None, i) else (Some (cont ! i), i + 1))"

text \<open>Reading a source to its end.\<close>

fun dir_all :: "nat \<Rightarrow> dir_source \<Rightarrow> string list" where
  "dir_all 0 d = []"
| "dir_all (Suc n) d = (case dir_nextXmlFile d of (None, d1) \<Rightarrow> [] | (Some f, d1) \<Rightarrow> f # dir_all n d1)"

section \<open>Facts\<close>

lemma dir_all_eq: "length (ds_files d) \<le> ds_index d + n \<Longrightarrow> dir_all n d = map fst (drop (ds_index d) (ds_files d))"
proof (induction n arbitrary: d)
  case (Suc n)
  then show ?case
    by (cases "ds_index d < length (ds_files d)") (auto simp: dir_nextXmlFile_def Cons_nth_drop_Suc[symmetric])
qed simp

lemma fold_insert_files:
  assumes "map_ok s"
  shows "map_ok (fold (\<lambda>f s. if P f then map_insert (g f) () s else s) names s)"
    "fst ` set (fold (\<lambda>f s. if P f then map_insert (g f) () s else s) names s) = fst ` set s \<union> g ` {f\<in>set names. P f}"
  using assms
proof (induction names arbitrary: s)
  case (Cons f names)
  {
    case 1
    then show ?case using Cons.IH(1) by (simp add: map_ok_insert)
  next
    case 2
    then show ?case using Cons.IH(2)[of "map_insert (g f) () s"] Cons.IH(2)[of s]
      by (auto simp: map_ok_insert map_insert_keys)
  }
qed simp_all

text \<open>A plugin directory is enumerated in lexicographic order: reading it to its end yields every
  file whose name ends in .xml once, in order, then NULL forever; after a reset the same again.\<close>

theorem plugin_directory_in_order:
  assumes "d = dir_source_new dir (Some names)" "n > length (ds_files d)"
  shows "sorted_wrt (<) (dir_all n d) \<and> set (dir_all n d) = (\<lambda>f. dir @ ''/'' @ f) ` {f\<in>set names. has_xml_suffix f} \<and>
    fst (dir_nextXmlFile (d\<lparr> ds_index := length (ds_files d) \<rparr>)) = None \<and>
    (\<forall>i. dir_all n (dir_reset (d\<lparr> ds_index := i \<rparr>)) = dir_all n d)"
proof -
  have f: "ds_files d = fold (\<lambda>f s. if has_xml_suffix f then map_insert (dir @ ''/'' @ f) () s else s) names []" "ds_index d = 0"
    using assms(1) by (simp_all add: dir_source_new_def)
  have all: "dir_all n (dir_reset (d\<lparr> ds_index := i \<rparr>)) = map fst (ds_files d)" "dir_all n d = map fst (ds_files d)" for i
    using dir_all_eq[of "dir_reset (d\<lparr> ds_index := i \<rparr>)" n] dir_all_eq[of d n] assms(2) f(2) by (simp_all add: dir_reset_def)
  have "sorted_wrt (<) (map fst (ds_files d))"
    using fold_insert_files(1)[of "[]" has_xml_suffix "\<lambda>f. dir @ ''/'' @ f" names] by (simp add: f map_ok_def)
  moreover have "set (map fst (ds_files d)) = (\<lambda>f. dir @ ''/'' @ f) ` {f\<in>set names. has_xml_suffix f}"
    using fold_insert_files(2)[of "[]" has_xml_suffix "\<lambda>f. dir @ ''/'' @ f" names] by (simp add: f)
  ultimately show ?thesis unfolding all by (simp add: dir_nextXmlFile_def)
qed

lemma plugin_directory_in_order_witness:
  "sorted_wrt (<) (dir_all 3 (dir_source_new ''p'' (Some [''b.xml'', ''x.so'', ''a.xml'']))) \<and>
   set (dir_all 3 (dir_source_new ''p'' (Some [''b.xml'', ''x.so'', ''a.xml'']))) = {''p/a.xml'', ''p/b.xml''}"
proof -
  let ?d = "dir_source_new ''p'' (Some [''b.xml'', ''x.so'', ''a.xml''])"
  have x: "has_xml_suffix ''b.xml''" "\<not> has_xml_suffix ''x.so''" "has_xml_suffix ''a.xml''"
    by (simp_all add: has_xml_suffix_def find_last_of_def)
  have "length (ds_files ?d) \<le> 2"
    using x by (simp add: dir_source_new_def)
  then have n: "3 > length (ds_files ?d)" by simp
  have "{f\<in>set [''b.xml'', ''x.so'', ''a.xml'']. has_xml_suffix f} = {''a.xml'', ''b.xml''}" using x by auto
  with plugin_directory_in_order[OF refl n] show ?thesis by simp
qed

section \<open>The variable is read back\<close>

datatype setting = SNoStart | SRuntime string | SLogging string

fun render_setting :: "setting \<Rightarrow> string" where
  "render_setting SNoStart = ''nostart''"
| "render_setting (SRuntime v) = ''runtime_number='' @ v"
| "render_setting (SLogging v) = ''logging='' @ v"

fun render_settings :: "setting list \<Rightarrow> string" where
  "render_settings [] = []"
| "render_settings (s # ss) = render_setting s @ '','' @ render_settings ss"

fun apply_setting :: "setting \<Rightarrow> environment_var \<Rightarrow> environment_var" where
  "apply_setting SNoStart env = env\<lparr> env_nostart := True \<rparr>"
| "apply_setting (SRuntime v) env = env\<lparr> env_runtime_number := atoi v \<rparr>"
| "apply_setting (SLogging v) env = env\<lparr> env_logging := env_logging env @ levels_for v \<rparr>"

definition plain_value :: "string \<Rightarrow> bool" where
  "plain_value v \<longleftrightarrow> v \<noteq> [] \<and> (\<forall>c\<in>set v. \<not> env_delim c)"

fun setting_ok :: "setting \<Rightarrow> bool" where
  "setting_ok SNoStart = True"
| "setting_ok (SRuntime v) = plain_value v"
| "setting_ok (SLogging v) = plain_value v"

lemma strtok_plain: "plain_value v \<Longrightarrow> env_delim d \<Longrightarrow> strtok env_delim (v @ d # rest) = Some (v, rest)"
  by (cases v) (auto simp: strtok_def plain_value_def Let_def takeWhile_append2 dropWhile_append2)

lemma delims: "env_delim CHR '',''" "env_delim CHR ''=''"
  by (simp_all add: env_delim_def)

lemma names_plain: "plain_value ''nostart''" "plain_value ''runtime_number''" "plain_value ''logging''"
  by (simp_all add: plain_value_def env_delim_def)

lemma strtok_names:
  "strtok env_delim (''nostart,'' @ rest) = Some (''nostart'', rest)"
  "strtok env_delim (''runtime_number='' @ rest) = Some (''runtime_number'', rest)"
  "strtok env_delim (''logging='' @ rest) = Some (''logging'', rest)"
  using strtok_plain[OF names_plain(1) delims(1), of rest] strtok_plain[OF names_plain(2) delims(2), of rest]
    strtok_plain[OF names_plain(3) delims(2), of rest] by simp_all



end
