(* ===== verification/XmlReader.thy ===== *)
theory XmlReader
  imports Flow Lookups Config
begin

text \<open>
  runtime/xml/OFluxXML.cpp: the reader that builds a flow from its XML file and the plugin files.  The
  XML parser is a parameter that turns a file into the sequence of its start and end events; opening
  libraries and looking symbols up are parameters too.  The reader is a stack of frames, one per open
  element; an element is built when it starts and handed to its parent when it ends.
\<close>

section \<open>Exceptions\<close>

text \<open>A \<open>ReaderException\<close> with its message, a fault, or the fuel of nested files used up.\<close>

datatype rd_error = RDException string | RDFault fault | RDOutOfFuel

type_synonym 'a rd = "rd_error + 'a"

definition bindX :: "'a rd \<Rightarrow> ('a \<Rightarrow> 'b rd) \<Rightarrow> 'b rd" where
  "bindX r f = (case r of Inl e \<Rightarrow> Inl e | Inr a \<Rightarrow> f a)"

definition throwX :: "string \<Rightarrow> 'a rd" where
  "throwX msg = Inl (RDException msg)"

definition liftX :: "'a result \<Rightarrow> 'a rd" where
  "liftX r = (case r of Inl e \<Rightarrow> Inl (RDFault e) | Inr a \<Rightarrow> Inr a)"

definition nonnull :: "'a option \<Rightarrow> 'a rd" where
  "nonnull p = (case p of None \<Rightarrow> Inl (RDFault NullDeref) | Some a \<Rightarrow> Inr a)"

fun foldX :: "('a \<Rightarrow> 's \<Rightarrow> 's rd) \<Rightarrow> 'a list \<Rightarrow> 's \<Rightarrow> 's rd" where
  "foldX f [] s = Inr s"
| "foldX f (x # xs) s = bindX (f x s) (foldX f xs)"

lemma bindX_simps [simp]: "bindX (Inl e) f = Inl e" "bindX (Inr a) f = f a"
  by (simp_all add: bindX_def)

lemma bindX_eq_Inr: "bindX r f = Inr b \<longleftrightarrow> (\<exists>a. r = Inr a \<and> f a = Inr b)"
  by (cases r) auto

lemma bindX_InrE:
  assumes "bindX r f = Inr b"
  obtains a where "r = Inr a" "f a = Inr b"
  using assms by (auto simp: bindX_eq_Inr)

section \<open>Attributes\<close>

type_synonym attrs = "(string \<times> string) list"

definition vocab_list :: "string list" where
  "vocab_list = [''name'', ''argno'', ''nodetarget'', ''source'', ''door'', ''isnegated'', ''iserrhandler'', ''detached'',
     ''unionhash'', ''inputunionhash'', ''outputunionhash'', ''after'', ''before'', ''late'', ''gc'', ''hash'', ''wtype'',
     ''function'', ''external'', ''ofluxversion'']"

fun fillAttributeMap :: "attrs \<Rightarrow> attrs \<Rightarrow> attrs rd" where
  "fillAttributeMap [] amap = Inr amap"
| "fillAttributeMap ((k, v) # attr) amap =
     (if k \<in> set vocab_list then fillAttributeMap attr (map_set k v amap) else throwX (''Unknown attribute '' @ k))"

definition getOrThrow :: "string \<Rightarrow> attrs \<Rightarrow> string rd" where
  "getOrThrow k amap = (case map_find k amap of None \<Rightarrow> throwX (''unfound attribute key '' @ k) | Some v \<Rightarrow> Inr v)"

definition getOrDefault :: "string \<Rightarrow> string \<Rightarrow> attrs \<Rightarrow> string" where
  "getOrDefault k d amap = (case map_find k amap of None \<Rightarrow> d | Some v \<Rightarrow> v)"

definition intVal :: "string \<Rightarrow> int" where
  "intVal v = atoi v"

definition boolVal :: "string \<Rightarrow> bool" where
  "boolVal v \<longleftrightarrow> v = ''true''"

section \<open>Files already read\<close>

definition canonize :: "string \<Rightarrow> string" where
  "canonize filename = (if length filename \<ge> 2 \<and> filename ! 0 = CHR ''.'' \<and> filename ! 1 = CHR ''/''
     then drop 2 filename else filename)"

definition addDependency :: "string \<Rightarrow> string list \<Rightarrow> string list" where
  "addDependency fl s = List.insert (canonize fl) s"

definition isDependency :: "string \<Rightarrow> string list \<Rightarrow> bool" where
  "isDependency fl s \<longleftrightarrow> canonize fl \<in> set s"

section \<open>Scopes\<close>

type_synonym scopes = "(string \<times> fmaps list) list"

definition scoped_add :: "string \<Rightarrow> fmaps \<Rightarrow> string list \<Rightarrow> scopes \<Rightarrow> scopes rd" where
  "scoped_add scopename fmap deps m =
     bindX (foldX (\<lambda>d c. case map_find d m of None \<Rightarrow> Inl (RDFault AssertFailed) | Some c2 \<Rightarrow> Inr (c @ c2)) deps [fmap])
       (\<lambda>c. Inr (map_insert scopename c m))"

definition scoped_get :: "string \<Rightarrow> scopes \<Rightarrow> fmaps list rd" where
  "scoped_get scopename m = (case map_find scopename m of None \<Rightarrow> Inl (RDFault AssertFailed) | Some c \<Rightarrow> Inr c)"

text \<open>The loop of the scope lookups: until one of the maps has it.\<close>

fun scope_find :: "(fmaps \<Rightarrow> nat option result) \<Rightarrow> fmaps list \<Rightarrow> nat option rd" where
  "scope_find look [] = Inr None"
| "scope_find look (fm # fms) = bindX (liftX (look fm)) (\<lambda>r. if r = None then scope_find look fms else Inr r)"

definition scope_lookup_node_function :: "string \<Rightarrow> fmaps list \<Rightarrow> nat option rd" where
  "scope_lookup_node_function n c = scope_find (\<lambda>fm. lookup_node_function fm n) (rev c)"

definition scope_lookup_door_function :: "string \<Rightarrow> fmaps list \<Rightarrow> nat option rd" where
  "scope_lookup_door_function n c = scope_find (\<lambda>fm. lookup_door_function fm n) c"

definition scope_lookup_conditional :: "string \<Rightarrow> int \<Rightarrow> string \<Rightarrow> fmaps list \<Rightarrow> nat option rd" where
  "scope_lookup_conditional n argno unionhash c = scope_find (\<lambda>fm. lookup_conditional fm n argno unionhash) (rev c)"

definition scope_lookup_guard_translator :: "string \<Rightarrow> string \<Rightarrow> string \<Rightarrow> int \<Rightarrow> bool \<Rightarrow> fmaps list \<Rightarrow> nat option rd" where
  "scope_lookup_guard_translator g unionhash hash wtype late c =
     scope_find (\<lambda>fm. lookup_guard_translator fm g unionhash hash wtype late) (rev c)"

definition scope_lookup_atomic_map :: "string \<Rightarrow> fmaps list \<Rightarrow> nat option rd" where
  "scope_lookup_atomic_map g c = scope_find (\<lambda>fm. lookup_atomic_map fm g) (rev c)"

definition scope_lookup_io_conversion :: "string \<Rightarrow> string \<Rightarrow> fmaps list \<Rightarrow> nat option rd" where
  "scope_lookup_io_conversion f t c = scope_find (\<lambda>fm. lookup_io_conversion fm f t) (rev c)"

definition scope_libraryFactory :: "string \<Rightarrow> string \<Rightarrow> fmaps list \<Rightarrow> library rd" where
  "scope_libraryFactory dir name c = (case c of [] \<Rightarrow> Inl (RDFault NullDeref) | fm # fms \<Rightarrow> Inr (libraryFactory dir name))"

section \<open>The reader\<close>

text \<open>An element being built: an object still private to its frame, or (in \<open>SPtr\<close> and \<open>LNode\<close>) one that is
  part of a node already.  \<open>None\<close> is the NULL object of an element that is only passed through.\<close>

datatype lref = LFresh succlist | LNode nat
datatype sref = SFresh successor | SPtr nat

datatype frame = FHolder | FFlow bool | FLibrary nat | FGuard nat | FGuardRef "gref option" | FNode "nat option"
  | FSuccList "lref option" | FSuccessor "sref option" | FCase "fcase option" | FCondition "fcond option"
  | FAdd bool | FErrorHandler | FPrecedence | FDepend

record add_target =
  at_case :: nat
  at_name :: string
  at_output_unionhash :: string
  at_scope :: string

text \<open>The environment of a reader: the plugin files, the parser (the events of a file and whether it is
  well formed), the dynamic linker, the function maps a library returns, the map objects of guards.\<close>

datatype xevent = XStart string attrs | XEnd string

record 'k renv =
  re_plugins :: "string list"
  re_parse :: "string \<Rightarrow> (xevent list \<times> bool) option"
  re_dlopen :: "string \<Rightarrow> nat option"
  re_dlsym :: "nat \<Rightarrow> string \<Rightarrow> nat option"
  re_ffm :: "nat \<Rightarrow> fmaps"
  re_amap :: "nat option \<Rightarrow> 'k gmap"
  re_libdir :: string

record rd_state =
  rd_scopes :: scopes
  rd_scope_name :: string
  rd_existing :: "flow option"
  rd_stack :: "frame list"
  rd_visited :: "string list"
  rd_allow :: bool
  rd_targets :: "add_target list"
  rd_handlers :: "(nat option \<times> string) list"
  rd_flow :: "flow option"
  rd_holder :: bool
  rd_libs :: "nat \<Rightarrow> library"
  rd_inits :: "nat list"
  rd_next :: nat
  rd_dead :: "nat list"

definition reader_new :: "fmaps \<Rightarrow> flow option \<Rightarrow> (nat \<Rightarrow> library) \<Rightarrow> nat \<Rightarrow> rd_state" where
  "reader_new fmap existing libs next_ptr = \<lparr> rd_scopes = map_insert [] [fmap] [], rd_scope_name = [], rd_existing = existing,
     rd_stack = [], rd_visited = [], rd_allow = True, rd_targets = [], rd_handlers = [], rd_flow = None,
     rd_holder = False, rd_libs = libs, rd_inits = [], rd_next = next_ptr, rd_dead = [] \<rparr>"

type_synonym ('k, 'z) rdw = "rd_state \<times> ('k, 'z) fworld_scheme"

definition fresh_ptr :: "rd_state \<Rightarrow> nat \<times> rd_state" where
  "fresh_ptr s = (rd_next s, s\<lparr> rd_next := rd_next s + 1 \<rparr>)"

text \<open>The closest open element of a kind.\<close>

fun get_flow :: "frame list \<Rightarrow> bool" where
  "get_flow [] = False"
| "get_flow (FFlow b # fs) = b"
| "get_flow (f # fs) = get_flow fs"

fun get_node :: "frame list \<Rightarrow> nat option" where
  "get_node [] = None"
| "get_node (FNode n # fs) = n"
| "get_node (f # fs) = get_node fs"

fun get_succlist :: "frame list \<Rightarrow> lref option" where
  "get_succlist [] = None"
| "get_succlist (FSuccList l # fs) = l"
| "get_succlist (f # fs) = get_succlist fs"

definition the_flow :: "rd_state \<Rightarrow> flow option" where
  "the_flow s = (if get_flow (rd_stack s) then rd_flow s else None)"

definition fromThisScope :: "rd_state \<Rightarrow> fmaps list rd" where
  "fromThisScope s = scoped_get (rd_scope_name s) (rd_scopes s)"

definition find_node :: "string \<Rightarrow> rd_state \<Rightarrow> nat option" where
  "find_node n s = (case the_flow s of None \<Rightarrow> None | Some f \<Rightarrow> flow_get_node n f)"

definition find_guard :: "string \<Rightarrow> rd_state \<Rightarrow> nat option" where
  "find_guard n s = (case the_flow s of None \<Rightarrow> None | Some f \<Rightarrow> flow_get_guard n f)"

definition push_frame :: "frame \<Rightarrow> rd_state \<Rightarrow> rd_state" where
  "push_frame f s = s\<lparr> rd_stack := f # rd_stack s \<rparr>"

text \<open>A successor list behind a reference, and an update of the successor at an address wherever it is.\<close>

definition list_of :: "lref \<Rightarrow> ('k, 'z) fworld_scheme \<Rightarrow> succlist rd" where
  "list_of l w = (case l of LFresh sl \<Rightarrow> Inr sl | LNode n \<Rightarrow> nonnull (fn_succ (fw_nodes w n)))"

definition upd_sl :: "nat \<Rightarrow> (successor \<Rightarrow> successor) \<Rightarrow> succlist \<Rightarrow> succlist" where
  "upd_sl p g sl = map (\<lambda>(k, s). (k, if su_ptr s = p then g s else s)) sl"

definition upd_succ_nodes :: "nat \<Rightarrow> (successor \<Rightarrow> successor) \<Rightarrow> ('k, 'z) fworld_scheme \<Rightarrow> ('k, 'z) fworld_scheme" where
  "upd_succ_nodes p g w = w\<lparr> fw_nodes := \<lambda>n. (fw_nodes w n)\<lparr> fn_succ := map_option (upd_sl p g) (fn_succ (fw_nodes w n)) \<rparr> \<rparr>"

fun upd_succ_frame :: "nat \<Rightarrow> (successor \<Rightarrow> successor) \<Rightarrow> frame \<Rightarrow> frame" where
  "upd_succ_frame p g (FSuccList (Some (LFresh sl))) = FSuccList (Some (LFresh (upd_sl p g sl)))"
| "upd_succ_frame p g f = f"

section \<open>Elements as they start\<close>

definition start_flow :: "attrs \<Rightarrow> ('k, 'z) rdw \<Rightarrow> ('k, 'z) rdw rd" where
  "start_flow amap = (\<lambda>(s, w).
     if rd_allow s \<and> the_flow s = None
     then bindX (getOrThrow ''name'' amap) (\<lambda>name0.
            let name = (case find_last_of CHR ''.'' name0 of None \<Rightarrow> name0 | Some i \<Rightarrow> replace_empty i 5 name0);
                (f, ex) = (case rd_existing s of Some e \<Rightarrow> (let (f, e1) = flow_new_from e name in (f, Some e1))
                           | None \<Rightarrow> (flow_new name, None))
            in Inr (push_frame (FFlow True) (s\<lparr> rd_flow := Some f, rd_existing := ex \<rparr>), w))
     else Inr (push_frame (FFlow (the_flow s \<noteq> None)) s, w))"

definition start_library :: "'k renv \<Rightarrow> attrs \<Rightarrow> ('k, 'z) rdw \<Rightarrow> ('k, 'z) rdw rd" where
  "start_library env amap = (\<lambda>(s, w).
     bindX (getOrThrow ''name'' amap) (\<lambda>name.
     bindX (fromThisScope s) (\<lambda>c.
     bindX (scope_libraryFactory (re_libdir env) name c) (\<lambda>lib0.
     bindX (nonnull (the_flow s)) (\<lambda>f.
     let (l, s1) = fresh_ptr s; lib = lib_addDependency [] lib0
     in case getPrevLibrary (\<lambda>i. lib_name (rd_libs s i)) (lib_name lib) f of
          Some p \<Rightarrow> Inr (push_frame (FLibrary p) s1, w)
        | None \<Rightarrow> Inr (push_frame (FLibrary l) (s1\<lparr> rd_libs := (rd_libs s1)(l := lib) \<rparr>), w))))))"

definition start_guard :: "'k renv \<Rightarrow> attrs \<Rightarrow> ('k, 'z) rdw \<Rightarrow> ('k, 'z) rdw rd" where
  "start_guard env amap = (\<lambda>(s, w).
     bindX (getOrThrow ''name'' amap) (\<lambda>name.
     bindX (fromThisScope s) (\<lambda>c.
     bindX (scope_lookup_atomic_map name c) (\<lambda>am.
     let (g, s1) = fresh_ptr s
     in Inr (push_frame (FGuard g) s1,
          w\<lparr> gw_guards := (gw_guards w)(g := \<lparr> g_magic = 0, g_map = re_amap env am, g_is_gc = boolVal (getOrDefault ''gc'' ''false'' amap) \<rparr>),
             fw_gname := (fw_gname w)(g := name) \<rparr>)))))"

text \<open>A NULL guard is dereferenced when the lateness of the reference is asked for (a late reference gets
  away with it until its number is asked for; both are a fault here).\<close>

definition start_guardref :: "attrs \<Rightarrow> ('k, 'z) rdw \<Rightarrow> ('k, 'z) rdw rd" where
  "start_guardref amap = (\<lambda>(s, w).
     bindX (getOrThrow ''late'' amap) (\<lambda>late.
     bindX (getOrThrow ''wtype'' amap) (\<lambda>wtype.
     bindX (getOrThrow ''unionhash'' amap) (\<lambda>unionhash.
     bindX (getOrThrow ''hash'' amap) (\<lambda>hash.
     bindX (getOrThrow ''name'' amap) (\<lambda>guard_name.
     if rd_allow s
     then bindX (nonnull (find_guard guard_name s)) (\<lambda>g.
            let r = gref_new g (intVal wtype) (boolVal late)
            in bindX (fromThisScope s) (\<lambda>c.
               bindX (scope_lookup_guard_translator guard_name unionhash hash (intVal wtype) (gref_late r w) c) (\<lambda>fn.
               case fn of
                 None \<Rightarrow> throwX (''guard translator function not found for '' @ guard_name)
               | Some f \<Rightarrow> Inr (push_frame (FGuardRef (Some (r\<lparr> gr_fn := Some f \<rparr>))) s, w))))
     else Inr (push_frame (FGuardRef None) s, w)))))))"

text \<open>A NULL create function is kept: functions are numbered from 1 and NULL is 0.\<close>

definition fn_ptr :: "nat option \<Rightarrow> nat" where
  "fn_ptr f = (case f of None \<Rightarrow> 0 | Some i \<Rightarrow> i)"

definition start_node :: "attrs \<Rightarrow> ('k, 'z) rdw \<Rightarrow> ('k, 'z) rdw rd" where
  "start_node amap = (\<lambda>(s, w).
     bindX (getOrThrow ''function'' amap) (\<lambda>function_name.
     bindX (fromThisScope s) (\<lambda>c.
     bindX (scope_lookup_node_function function_name c) (\<lambda>createfn.
     let is_door = boolVal (getOrDefault ''door'' ''false'' amap) in
     bindX (if is_door then scope_lookup_door_function function_name c else Inr None) (\<lambda>createdoorfn.
     bindX (getOrThrow ''external'' amap) (\<lambda>external.
     bindX (getOrThrow ''name'' amap) (\<lambda>node_name.
     if boolVal external then Inr (push_frame (FNode (find_node node_name s)) (s\<lparr> rd_allow := False \<rparr>), w)
     else if rd_allow s
     then bindX (getOrThrow ''iserrhandler'' amap) (\<lambda>is_eh.
          bindX (getOrThrow ''source'' amap) (\<lambda>is_source.
          bindX (getOrThrow ''detached'' amap) (\<lambda>is_detached.
          bindX (getOrThrow ''inputunionhash'' amap) (\<lambda>inhash.
          bindX (getOrThrow ''outputunionhash'' amap) (\<lambda>outhash.
            let (n, s1) = fresh_ptr s; (p1, s2) = fresh_ptr s1; (p2, s3) = fresh_ptr s2
            in Inr (push_frame (FNode (Some n)) s3,
                 node_new n p1 p2 node_name function_name (fn_ptr createfn) (fn_ptr createdoorfn)
                   (boolVal is_eh) (boolVal is_source) is_door (boolVal is_detached) inhash outhash w))))))
     else Inr (push_frame (FNode None) s, w))))))))"

definition start_successorlist :: "('k, 'z) rdw \<Rightarrow> ('k, 'z) rdw rd" where
  "start_successorlist = (\<lambda>(s, w).
     Inr (push_frame (FSuccList
       (if rd_allow s then Some (LFresh [])
        else (case get_node (rd_stack s) of None \<Rightarrow> None
              | Some n \<Rightarrow> if fn_succ (fw_nodes w n) = None then None else Some (LNode n)))) s, w))"

definition start_successor :: "attrs \<Rightarrow> ('k, 'z) rdw \<Rightarrow> ('k, 'z) rdw rd" where
  "start_successor amap = (\<lambda>(s, w).
     bindX (getOrThrow ''name'' amap) (\<lambda>name.
     if \<not> rd_allow s
     then bindX (nonnull (get_succlist (rd_stack s))) (\<lambda>l.
          bindX (list_of l w) (\<lambda>sl.
          Inr (push_frame (FSuccessor (map_option (\<lambda>su. SPtr (su_ptr su)) (succlist_get name sl))) s, w)))
     else let (p, s1) = fresh_ptr s in Inr (push_frame (FSuccessor (Some (SFresh (successor_new p name)))) s1, w)))"

definition start_case :: "attrs \<Rightarrow> ('k, 'z) rdw \<Rightarrow> ('k, 'z) rdw rd" where
  "start_case amap = (\<lambda>(s, w).
     bindX (getOrThrow ''nodetarget'' amap) (\<lambda>target_name.
     bindX (nonnull (get_node (rd_stack s))) (\<lambda>from_node.
     if rd_allow s
     then let (p, s1) = fresh_ptr s
          in Inr (push_frame (FCase (Some (case_new p target_name None None)))
               (s1\<lparr> rd_targets := rd_targets s1 @ [\<lparr> at_case = p, at_name = target_name,
                  at_output_unionhash = fn_output_unionhash (fw_nodes w from_node), at_scope = rd_scope_name s \<rparr>] \<rparr>), w)
     else Inr (push_frame (FCase None) s, w))))"

definition start_condition :: "attrs \<Rightarrow> ('k, 'z) rdw \<Rightarrow> ('k, 'z) rdw rd" where
  "start_condition amap = (\<lambda>(s, w).
     bindX (getOrThrow ''name'' amap) (\<lambda>name.
     bindX (getOrThrow ''isnegated'' amap) (\<lambda>neg.
     bindX (getOrThrow ''argno'' amap) (\<lambda>argno.
     bindX (getOrThrow ''unionhash'' amap) (\<lambda>unionhash.
     bindX (fromThisScope s) (\<lambda>c.
     bindX (scope_lookup_conditional name (intVal argno) unionhash c) (\<lambda>fn.
     case fn of
       None \<Rightarrow> throwX (''Could not create condition function '' @ name)
     | Some f \<Rightarrow> Inr (push_frame (FCondition (if rd_allow s then Some \<lparr> fcd_fn = f, fcd_negated = boolVal neg \<rparr> else None)) s, w))))))))"

definition start_errorhandler :: "attrs \<Rightarrow> ('k, 'z) rdw \<Rightarrow> ('k, 'z) rdw rd" where
  "start_errorhandler amap = (\<lambda>(s, w).
     bindX (getOrThrow ''name'' amap) (\<lambda>eh_name.
     Inr (push_frame FErrorHandler
       (if rd_allow s then s\<lparr> rd_handlers := rd_handlers s @ [(get_node (rd_stack s), eh_name)] \<rparr> else s), w)))"

definition start_guardprecedence :: "attrs \<Rightarrow> ('k, 'z) rdw \<Rightarrow> ('k, 'z) rdw rd" where
  "start_guardprecedence amap = (\<lambda>(s, w).
     bindX (getOrThrow ''before'' amap) (\<lambda>before.
     bindX (getOrThrow ''after'' amap) (\<lambda>after.
     bindX (nonnull (the_flow s)) (\<lambda>f.
     Inr (push_frame FPrecedence (s\<lparr> rd_flow := Some (addGuardPrecedence before after f) \<rparr>), w)))))"

definition start_add :: "('k, 'z) rdw \<Rightarrow> ('k, 'z) rdw rd" where
  "start_add = (\<lambda>(s, w). Inr (push_frame (FAdd (rd_allow s)) (s\<lparr> rd_allow := True \<rparr>), w))"

section \<open>Elements as they end\<close>

text \<open>The frame an element is handed to: an addition frame stands for the one it was opened in (one level
  only).  A frame of another kind fails the dynamic cast and the NULL pointer is followed.\<close>

fun parent_frame :: "frame list \<Rightarrow> frame option" where
  "parent_frame [] = None"
| "parent_frame (FAdd old # fs) = (case fs of [] \<Rightarrow> None | f # _ \<Rightarrow> Some f)"
| "parent_frame (f # fs) = Some f"

fun upd_parent :: "(frame \<Rightarrow> frame) \<Rightarrow> frame list \<Rightarrow> frame list" where
  "upd_parent g [] = []"
| "upd_parent g (FAdd old # fs) = FAdd old # (case fs of [] \<Rightarrow> [] | f # fs' \<Rightarrow> g f # fs')"
| "upd_parent g (f # fs) = g f # fs"

definition has_add :: "frame list \<Rightarrow> bool" where
  "has_add fs \<longleftrightarrow> (\<exists>f\<in>set fs. case f of FAdd _ \<Rightarrow> True | _ \<Rightarrow> False)"

definition succlist_cases :: "succlist \<Rightarrow> nat list" where
  "succlist_cases sl = concat (map (\<lambda>(_, s). map fc_ptr (su_cases s)) sl)"

definition kill_cases :: "nat list \<Rightarrow> rd_state \<Rightarrow> rd_state" where
  "kill_cases ps s = s\<lparr> rd_dead := ps @ rd_dead s \<rparr>"

text \<open>The \<open>~ReaderState\<close> of the frame that was on top, one per kind of element; \<open>s\<close> is the reader without it.\<close>

definition end_flow :: "bool \<Rightarrow> ('k, 'z) rdw \<Rightarrow> ('k, 'z) rdw rd" where
  "end_flow b = (\<lambda>(s, w). case parent_frame (rd_stack s) of
      None \<Rightarrow> Inr (s\<lparr> rd_flow := None \<rparr>, w)
    | Some FHolder \<Rightarrow> Inr (if b \<and> rd_allow s then s\<lparr> rd_holder := True \<rparr> else s, w)
    | Some _ \<Rightarrow> Inl (RDFault NullDeref))"

definition addLibrary_reader :: "'k renv \<Rightarrow> nat \<Rightarrow> fmaps \<Rightarrow> rd_state \<Rightarrow> rd_state rd" where
  "addLibrary_reader env l fms s =
     (let lname = (\<lambda>i. lib_name (rd_libs s i)); s1 = s\<lparr> rd_scope_name := lname l \<rparr> in
      bindX (scoped_add (lname l) fms (lib_dependencies (rd_libs s l)) (rd_scopes s1)) (\<lambda>sc.
      bindX (nonnull (the_flow s1)) (\<lambda>f.
      case addLibrary lname l f of (f1, init) \<Rightarrow>
        Inr (s1\<lparr> rd_scopes := sc, rd_flow := Some f1,
               rd_inits := (if init then rd_inits s1 @ (case lib_init (re_dlsym env) (rd_libs s1 l) of None \<Rightarrow> [] | Some i \<Rightarrow> [i])
                            else rd_inits s1) \<rparr>))))"

definition end_library :: "'k renv \<Rightarrow> nat \<Rightarrow> ('k, 'z) rdw \<Rightarrow> ('k, 'z) rdw rd" where
  "end_library env l = (\<lambda>(s, w). case parent_frame (rd_stack s) of
      None \<Rightarrow> Inr (s, w)
    | Some (FFlow b) \<Rightarrow>
        if \<not> b then Inr (s, w)
        else (case lib_load (re_dlopen env) (rd_libs s l) of (ok, lib) \<Rightarrow>
          let s1 = s\<lparr> rd_libs := (rd_libs s)(l := lib) \<rparr> in
          if \<not> ok then throwX (''could not load library : '' @ lib_name lib)
          else (case lib_getSymbol (re_dlsym env) (addSuffix ''flowfunctionmaps__'' lib) lib of
              None \<Rightarrow> throwX (''could not load flowfunctionmapfunction for library : '' @ lib_name lib)
            | Some fn \<Rightarrow> bindX (addLibrary_reader env l (re_ffm env fn) s1) (\<lambda>s2. Inr (s2, w))))
    | Some _ \<Rightarrow> Inl (RDFault NullDeref))"

definition end_guard :: "nat \<Rightarrow> ('k, 'z) rdw \<Rightarrow> ('k, 'z) rdw rd" where
  "end_guard g = (\<lambda>(s, w). case parent_frame (rd_stack s) of
      None \<Rightarrow> Inr (s, w)
    | Some (FFlow b) \<Rightarrow> Inr (if b \<and> rd_allow s then s\<lparr> rd_flow := map_option (flow_add_guard g w) (rd_flow s) \<rparr> else s, w)
    | Some _ \<Rightarrow> Inl (RDFault NullDeref))"

definition end_guardref :: "gref option \<Rightarrow> ('k, 'z) rdw \<Rightarrow> ('k, 'z) rdw rd" where
  "end_guardref ro = (\<lambda>(s, w). case parent_frame (rd_stack s) of
      None \<Rightarrow> Inr (s, w)
    | Some (FNode no) \<Rightarrow> Inr (s, case (no, ro) of
          (Some n, Some r) \<Rightarrow> if rd_allow s then set_node n (node_add r (fw_nodes w n)) w else w
        | _ \<Rightarrow> w)
    | Some _ \<Rightarrow> Inl (RDFault NullDeref))"

definition end_node :: "nat option \<Rightarrow> ('k, 'z) rdw \<Rightarrow> ('k, 'z) rdw rd" where
  "end_node no = (\<lambda>(s, w).
     let delete = (\<lambda>s. case no of None \<Rightarrow> s
           | Some n \<Rightarrow> kill_cases (case fn_succ (fw_nodes w n) of None \<Rightarrow> [] | Some sl \<Rightarrow> succlist_cases sl) s) in
     case parent_frame (rd_stack s) of
      None \<Rightarrow> Inr (delete s, w)
    | Some (FFlow b) \<Rightarrow> Inr (if \<not> b then delete s
        else (case (no, rd_flow s) of
            (Some n, Some f) \<Rightarrow> if flow_get_node (fn_name (fw_nodes w n)) f = None
                then s\<lparr> rd_flow := Some (flow_add_node n w f) \<rparr> else s
          | _ \<Rightarrow> s), w)
    | Some _ \<Rightarrow> Inl (RDFault NullDeref))"

definition end_successorlist :: "lref option \<Rightarrow> ('k, 'z) rdw \<Rightarrow> ('k, 'z) rdw rd" where
  "end_successorlist lo = (\<lambda>(s, w). case parent_frame (rd_stack s) of
      Some (FNode (Some n)) \<Rightarrow> Inr (s, case lo of
          Some (LFresh sl) \<Rightarrow> if fn_succ (fw_nodes w n) = None then set_node n ((fw_nodes w n)\<lparr> fn_succ := Some sl \<rparr>) w else w
        | _ \<Rightarrow> w)
    | None \<Rightarrow> Inr (case lo of Some (LFresh sl) \<Rightarrow> kill_cases (succlist_cases sl) s | _ \<Rightarrow> s, w)
    | Some (FNode None) \<Rightarrow> Inr (case lo of Some (LFresh sl) \<Rightarrow> kill_cases (succlist_cases sl) s | _ \<Rightarrow> s, w)
    | Some _ \<Rightarrow> Inl (RDFault NullDeref))"

definition end_successor :: "sref option \<Rightarrow> ('k, 'z) rdw \<Rightarrow> ('k, 'z) rdw rd" where
  "end_successor so = (\<lambda>(s, w).
     let delete = (case so of Some (SFresh su) \<Rightarrow> kill_cases (map fc_ptr (su_cases su)) s | _ \<Rightarrow> s) in
     case parent_frame (rd_stack s) of
      None \<Rightarrow> Inr (delete, w)
    | Some (FSuccList lo) \<Rightarrow> Inr (case (lo, so) of
          (None, _) \<Rightarrow> (delete, w)
        | (Some (LFresh sl), Some (SFresh su)) \<Rightarrow>
            (if rd_allow s then s\<lparr> rd_stack := upd_parent (\<lambda>_. FSuccList (Some (LFresh (succlist_add su sl)))) (rd_stack s) \<rparr> else s, w)
        | (Some (LNode n), Some (SFresh su)) \<Rightarrow>
            (s, if rd_allow s then set_node n ((fw_nodes w n)\<lparr> fn_succ := map_option (succlist_add su) (fn_succ (fw_nodes w n)) \<rparr>) w else w)
        | _ \<Rightarrow> (s, w))
    | Some _ \<Rightarrow> Inl (RDFault NullDeref))"

definition end_case :: "fcase option \<Rightarrow> ('k, 'z) rdw \<Rightarrow> ('k, 'z) rdw rd" where
  "end_case co = (\<lambda>(s, w).
     let delete = (case co of Some c \<Rightarrow> kill_cases [fc_ptr c] s | None \<Rightarrow> s) in
     case parent_frame (rd_stack s) of
      None \<Rightarrow> Inr (delete, w)
    | Some (FSuccessor so) \<Rightarrow> Inr (case (so, co) of
          (None, _) \<Rightarrow> (delete, w)
        | (Some (SFresh su), Some c) \<Rightarrow>
            (if rd_allow s then s\<lparr> rd_stack := upd_parent (\<lambda>_. FSuccessor (Some (SFresh (successor_add c (has_add (rd_stack s)) su)))) (rd_stack s) \<rparr> else s, w)
        | (Some (SPtr p), Some c) \<Rightarrow>
            if rd_allow s
            then (s\<lparr> rd_stack := map (upd_succ_frame p (successor_add c (has_add (rd_stack s)))) (rd_stack s) \<rparr>,
                  upd_succ_nodes p (successor_add c (has_add (rd_stack s))) w)
            else (s, w)
        | _ \<Rightarrow> (s, w))
    | Some _ \<Rightarrow> Inl (RDFault NullDeref))"

definition end_condition :: "fcond option \<Rightarrow> ('k, 'z) rdw \<Rightarrow> ('k, 'z) rdw rd" where
  "end_condition cdo = (\<lambda>(s, w). case parent_frame (rd_stack s) of
      None \<Rightarrow> Inr (s, w)
    | Some (FCase co) \<Rightarrow> Inr (case (co, cdo) of
          (Some c, Some cd) \<Rightarrow> if rd_allow s then s\<lparr> rd_stack := upd_parent (\<lambda>_. FCase (Some (case_add cd c))) (rd_stack s) \<rparr> else s
        | _ \<Rightarrow> s, w)
    | Some _ \<Rightarrow> Inl (RDFault NullDeref))"

text \<open>\<open>popState\<close> and the deletion of the frame.\<close>

definition popState :: "rd_state \<Rightarrow> (frame \<times> rd_state) rd" where
  "popState s = (case rd_stack s of
      [] \<Rightarrow> Inl (RDFault NullDeref)
    | f # fs \<Rightarrow> Inr (f, s\<lparr> rd_stack := fs, rd_allow := (case f of FNode _ \<Rightarrow> True | _ \<Rightarrow> rd_allow s) \<rparr>))"

definition delete_frame :: "'k renv \<Rightarrow> frame \<Rightarrow> ('k, 'z) rdw \<Rightarrow> ('k, 'z) rdw rd" where
  "delete_frame env f st = (case f of
      FHolder \<Rightarrow> Inl (RDFault UseAfterFree)
    | FFlow b \<Rightarrow> end_flow b st
    | FLibrary l \<Rightarrow> end_library env l st
    | FGuard g \<Rightarrow> end_guard g st
    | FGuardRef r \<Rightarrow> end_guardref r st
    | FNode n \<Rightarrow> end_node n st
    | FSuccList l \<Rightarrow> end_successorlist l st
    | FSuccessor su \<Rightarrow> end_successor su st
    | FCase c \<Rightarrow> end_case c st
    | FCondition c \<Rightarrow> end_condition c st
    | FAdd old \<Rightarrow> (case st of (s, w) \<Rightarrow> Inr (s\<lparr> rd_allow := old \<rparr>, w))
    | _ \<Rightarrow> Inr st)"

definition endHandler :: "'k renv \<Rightarrow> ('k, 'z) rdw \<Rightarrow> ('k, 'z) rdw rd" where
  "endHandler env = (\<lambda>(s, w). bindX (popState s) (\<lambda>(f, s1). delete_frame env f (s1, w)))"

section \<open>Files\<close>

text \<open>\<open>strstr\<close>\<close>

fun strstr :: "string \<Rightarrow> string \<Rightarrow> bool" where
  "strstr [] p = (p = [])"
| "strstr (c # s) p = (if take (length p) (c # s) = p then True else strstr s p)"

text \<open>\<open>readfile\<close> reads a nested file.\<close>

definition readPluginIfUnread :: "(string \<Rightarrow> ('k, 'z) rdw \<Rightarrow> ('k, 'z) rdw rd) \<Rightarrow> 'k renv \<Rightarrow> string \<Rightarrow> ('k, 'z) rdw \<Rightarrow> ('k, 'z) rdw rd" where
  "readPluginIfUnread readfile env plugin_name = (\<lambda>(s, w).
     bindX (nonnull (find (\<lambda>c. strstr c (''/'' @ plugin_name @ ''.xml'')) (re_plugins env))) (\<lambda>depxml.
     bindX (nonnull (the_flow s)) (\<lambda>f.
     if haveLibrary (\<lambda>i. lib_name (rd_libs s i)) plugin_name f then Inr (s, w)
     else if isDependency depxml (rd_visited s) then throwX (depxml @ '' circular dependency -- already loading'')
     else let preserve = rd_stack s;
              up = dropWhile (\<lambda>f. case f of FFlow _ \<Rightarrow> False | _ \<Rightarrow> True) preserve;
              s1 = s\<lparr> rd_visited := addDependency depxml (rd_visited s), rd_stack := up \<rparr>
          in if up = [] then throwX ''readPluginIfUnread() failed to find flow reader state''
             else bindX (readfile depxml (s1, w)) (\<lambda>(s2, w2). Inr (s2\<lparr> rd_stack := preserve \<rparr>, w2)))))"

definition start_depend :: "(string \<Rightarrow> ('k, 'z) rdw \<Rightarrow> ('k, 'z) rdw rd) \<Rightarrow> 'k renv \<Rightarrow> attrs \<Rightarrow> ('k, 'z) rdw \<Rightarrow> ('k, 'z) rdw rd" where
  "start_depend readfile env amap st =
     bindX (getOrThrow ''name'' amap) (\<lambda>name.
     bindX (readPluginIfUnread readfile env name st) (\<lambda>(s, w). Inr (push_frame FDepend s, w)))"

definition pushState :: "(string \<Rightarrow> ('k, 'z) rdw \<Rightarrow> ('k, 'z) rdw rd) \<Rightarrow> 'k renv \<Rightarrow> string \<Rightarrow> attrs \<Rightarrow> ('k, 'z) rdw \<Rightarrow> ('k, 'z) rdw rd" where
  "pushState readfile env el amap st =
     (if el = ''flow'' then start_flow amap st
      else if el = ''plugin'' then start_add st
      else if el = ''library'' then start_library env amap st
      else if el = ''depend'' then start_depend readfile env amap st
      else if el = ''guard'' then start_guard env amap st
      else if el = ''guardprecedence'' then start_guardprecedence amap st
      else if el = ''guardref'' then start_guardref amap st
      else if el = ''add'' then start_add st
      else if el = ''remove'' then throwX ''ReaderStateRemoval not implemented : <remove> tag''
      else if el = ''node'' then start_node amap st
      else if el = ''successorlist'' then start_successorlist st
      else if el = ''successor'' then start_successor amap st
      else if el = ''errorhandler'' then start_errorhandler amap st
      else if el = ''case'' then start_case amap st
      else if el = ''condition'' then start_condition amap st
      else throwX (''Unknown element '' @ el))"

definition handle_event :: "(string \<Rightarrow> ('k, 'z) rdw \<Rightarrow> ('k, 'z) rdw rd) \<Rightarrow> 'k renv \<Rightarrow> xevent \<Rightarrow> ('k, 'z) rdw \<Rightarrow> ('k, 'z) rdw rd" where
  "handle_event readfile env ev st = (case ev of
      XStart el attr \<Rightarrow> bindX (fillAttributeMap attr []) (\<lambda>amap. pushState readfile env el amap st)
    | XEnd el \<Rightarrow> endHandler env st)"

primrec readxmlfile :: "nat \<Rightarrow> 'k renv \<Rightarrow> string \<Rightarrow> ('k, 'z) rdw \<Rightarrow> ('k, 'z) rdw rd" where
  "readxmlfile 0 env filename st = Inl RDOutOfFuel"
| "readxmlfile (Suc fuel) env filename st = (case re_parse env filename of
      None \<Rightarrow> throwX (''Cannot open XML config file: '' @ filename)
    | Some (events, ok) \<Rightarrow> bindX (foldX (handle_event (readxmlfile fuel env) env) events st) (\<lambda>st1.
        if ok then Inr st1 else throwX ''Error in parsing XML file''))"

definition readxmldir :: "nat \<Rightarrow> 'k renv \<Rightarrow> ('k, 'z) rdw \<Rightarrow> ('k, 'z) rdw rd" where
  "readxmldir fuel env = (\<lambda>(s, w).
     let files = map fst (fold (\<lambda>f m. map_insert f () m) (re_plugins env) []) in
     bindX (foldX (\<lambda>f (s, w). if isDependency f (rd_visited s) then Inr (s, w) else readxmlfile fuel env f (s, w)) files
         (push_frame (FFlow (rd_holder s \<and> rd_flow s \<noteq> None)) s, w)) (endHandler env))"

section \<open>Finishing the flow\<close>

definition set_case_target :: "nat \<Rightarrow> nat \<Rightarrow> nat option \<Rightarrow> fcase \<Rightarrow> fcase" where
  "set_case_target p n conv c = (if fc_ptr c = p
     then c\<lparr> fc_target := Some n, fc_converter := (case conv of None \<Rightarrow> fc_converter c | Some f \<Rightarrow> IOConverter (Some f)) \<rparr> else c)"

definition upd_case_nodes :: "(fcase \<Rightarrow> fcase) \<Rightarrow> ('k, 'z) fworld_scheme \<Rightarrow> ('k, 'z) fworld_scheme" where
  "upd_case_nodes g w = w\<lparr> fw_nodes := \<lambda>n. (fw_nodes w n)\<lparr> fn_succ :=
     map_option (map (\<lambda>(k, s). (k, s\<lparr> su_cases := map g (su_cases s) \<rparr>))) (fn_succ (fw_nodes w n)) \<rparr> \<rparr>"

text \<open>A case is only ever targeted once, so the assertion on its converter holds.\<close>

definition add_target_execute :: "rd_state \<Rightarrow> flow \<Rightarrow> add_target \<Rightarrow> ('k, 'z) fworld_scheme \<Rightarrow> ('k, 'z) fworld_scheme rd" where
  "add_target_execute s f at w = (case flow_get_node (at_name at) f of
      None \<Rightarrow> Inl (RDFault AssertFailed)
    | Some n \<Rightarrow>
        if at_case at \<in> set (rd_dead s) then Inl (RDFault UseAfterFree)
        else bindX (scoped_get (at_scope at) (rd_scopes s)) (\<lambda>c.
             bindX (scope_lookup_io_conversion (at_output_unionhash at) (fn_input_unionhash (fw_nodes w n)) c) (\<lambda>conv.
             Inr (upd_case_nodes (set_case_target (at_case at) n conv) w))))"

definition set_error_handler_execute :: "flow \<Rightarrow> nat option \<times> string \<Rightarrow> ('k, 'z) fworld_scheme \<Rightarrow> ('k, 'z) fworld_scheme rd" where
  "set_error_handler_execute f h w = (case flow_get_node (snd h) f of
      None \<Rightarrow> Inl (RDFault AssertFailed)
    | Some e \<Rightarrow> if \<not> fn_is_error_handler (fw_nodes w e) then Inl (RDFault AssertFailed)
        else bindX (nonnull (fst h)) (\<lambda>n. Inr (set_node n (node_setErrorHandler (Some e) (fw_nodes w n)) w)))"

text \<open>The whole: the file, then the plugin directory, then the forward references.  Printing the flow to the
  log is left out.\<close>

definition reader_read :: "nat \<Rightarrow> 'k renv \<Rightarrow> string \<Rightarrow> ('k, 'z) rdw \<Rightarrow> (flow \<times> ('k, 'z) rdw) rd" where
  "reader_read fuel env filename = (\<lambda>(s0, w0).
     bindX (readxmlfile fuel env filename (s0\<lparr> rd_stack := [FHolder] \<rparr>, w0)) (\<lambda>(s1, w1).
     bindX (readxmldir fuel env (s1\<lparr> rd_visited := addDependency filename (rd_visited s1) \<rparr>, w1)) (\<lambda>(s2, w2).
     bindX (nonnull (if rd_holder s2 then rd_flow s2 else None)) (\<lambda>f.
     bindX (foldX (add_target_execute s2 f) (rd_targets s2) w2) (\<lambda>w3.
     bindX (foldX (set_error_handler_execute f) (rd_handlers s2) w3) (\<lambda>w4.
     Inr (f, s2, w4)))))))"

definition xml_read :: "nat \<Rightarrow> 'k renv \<Rightarrow> fmaps \<Rightarrow> (nat \<Rightarrow> library) \<Rightarrow> nat \<Rightarrow> string \<Rightarrow> flow option \<Rightarrow> ('k, 'z) fworld_scheme \<Rightarrow>
    (flow \<times> ('k, 'z) rdw) rd" where
  "xml_read fuel env fmap libs next_ptr filename existing w =
     reader_read fuel env filename (reader_new fmap existing libs next_ptr, w)"

end
