(* ===== verification/XmlProps.thy ===== *)
theory XmlProps
  imports XmlReader
begin

text \<open>
  What the XML reader guarantees: it ends whatever the plugins depend on, it links every forward
  reference to the node of that name, and it builds the flow a document describes.
\<close>

section \<open>Files are read to an end\<close>

text \<open>A step that neither uses up the fuel nor changes the files read.\<close>

definition keeps :: "rd_state \<Rightarrow> ('k, 'z) rdw rd \<Rightarrow> bool" where
  "keeps s r \<longleftrightarrow> (case r of Inl e \<Rightarrow> e \<noteq> RDOutOfFuel | Inr (s', w') \<Rightarrow> rd_visited s' = rd_visited s)"

definition no_fuel :: "'a rd \<Rightarrow> bool" where
  "no_fuel r \<longleftrightarrow> r \<noteq> Inl RDOutOfFuel"

named_theorems keeps_intros "steps that keep the files read"

lemma keeps_bind [keeps_intros]: "no_fuel r \<Longrightarrow> (\<And>a. r = Inr a \<Longrightarrow> keeps s (f a)) \<Longrightarrow> keeps s (bindX r f)"
  by (cases r) (auto simp: no_fuel_def keeps_def)

lemma no_fuel_bind [keeps_intros]: "no_fuel r \<Longrightarrow> (\<And>a. r = Inr a \<Longrightarrow> no_fuel (f a)) \<Longrightarrow> no_fuel (bindX r f)"
  by (cases r) (auto simp: no_fuel_def)

lemma keeps_simps [simp]:
  "keeps s (Inr (s', w')) \<longleftrightarrow> rd_visited s' = rd_visited s" "keeps s (throwX m)" "keeps s (Inl (RDFault e))"
  "keeps s (Inl (RDException m))"
  by (simp_all add: keeps_def throwX_def)

lemma no_fuel_simps [simp]:
  "no_fuel (Inr a)" "no_fuel (throwX m)" "no_fuel (Inl (RDFault e))" "no_fuel (nonnull p)" "no_fuel (liftX r)"
  "no_fuel (getOrThrow k amap)"
  by (auto simp: no_fuel_def throwX_def nonnull_def liftX_def getOrThrow_def split: option.splits sum.splits)

lemma no_fuel_attrs [simp]: "no_fuel (fillAttributeMap attr amap)"
  by (induction attr amap rule: fillAttributeMap.induct) auto

lemma no_fuel_scope_find [simp]: "no_fuel (scope_find look c)"
  by (induction look c rule: scope_find.induct) (auto intro!: no_fuel_bind)

lemma no_fuel_foldX: "(\<And>x t. no_fuel (f x t)) \<Longrightarrow> no_fuel (foldX f xs t)"
  by (induction xs arbitrary: t) (auto intro!: no_fuel_bind)

lemma no_fuel_lookups [simp]:
  "no_fuel (scope_lookup_node_function n c)" "no_fuel (scope_lookup_door_function n c)"
  "no_fuel (scope_lookup_conditional n a u c)" "no_fuel (scope_lookup_guard_translator g u h wt late c)"
  "no_fuel (scope_lookup_atomic_map g c)" "no_fuel (scope_lookup_io_conversion f t c)"
  "no_fuel (scoped_get n m)" "no_fuel (fromThisScope s)" "no_fuel (scope_libraryFactory d n c)" "no_fuel (list_of l w)"
  "no_fuel (scoped_add n fm deps m)"
  by (auto simp: scope_lookup_node_function_def scope_lookup_door_function_def scope_lookup_conditional_def
      scope_lookup_guard_translator_def scope_lookup_atomic_map_def scope_lookup_io_conversion_def scoped_get_def
      fromThisScope_def scope_libraryFactory_def list_of_def scoped_add_def
      intro!: no_fuel_bind no_fuel_foldX split: option.splits list.splits lref.splits)

lemma visited_push [simp]: "rd_visited (push_frame f s) = rd_visited s"
  by (simp add: push_frame_def)

lemma visited_fresh: "fresh_ptr s = (p, s1) \<Longrightarrow> rd_visited s1 = rd_visited s"
  by (auto simp: fresh_ptr_def)

lemma visited_kill [simp]: "rd_visited (kill_cases ps s) = rd_visited s"
  by (simp add: kill_cases_def)

lemma start_keeps:
  "keeps s (start_flow amap (s, w))" "keeps s (start_library env amap (s, w))" "keeps s (start_guard env amap (s, w))"
  "keeps s (start_guardref amap (s, w))" "keeps s (start_node amap (s, w))" "keeps s (start_successorlist (s, w))"
  "keeps s (start_successor amap (s, w))" "keeps s (start_case amap (s, w))" "keeps s (start_condition amap (s, w))"
  "keeps s (start_errorhandler amap (s, w))" "keeps s (start_guardprecedence amap (s, w))" "keeps s (start_add (s, w))"
  unfolding start_flow_def start_library_def start_guard_def start_guardref_def start_node_def start_successorlist_def
    start_successor_def start_case_def start_condition_def start_errorhandler_def start_guardprecedence_def start_add_def
  by (auto simp: Let_def fresh_ptr_def intro!: keeps_bind split: option.splits prod.splits)

lemma addLibrary_no_fuel [simp]: "no_fuel (addLibrary_reader env l fms s)"
  unfolding addLibrary_reader_def Let_def by (intro no_fuel_bind) (auto split: prod.splits)

lemma addLibrary_visited: "addLibrary_reader env l fms s = Inr s2 \<Longrightarrow> rd_visited s2 = rd_visited s"
  by (auto simp: addLibrary_reader_def Let_def bindX_eq_Inr case_prod_beta)

lemma end_library_keeps: "keeps s (end_library env l (s, w))"
  unfolding end_library_def
  by (auto simp: Let_def dest: addLibrary_visited intro!: keeps_bind split: option.splits prod.splits frame.splits)

lemma end_flow_keeps: "keeps s (end_flow b (s, w))"
  unfolding end_flow_def by (auto split: option.splits frame.splits)

lemma end_node_keeps: "keeps s (end_guard g (s, w))" "keeps s (end_guardref r (s, w))" "keeps s (end_node no (s, w))"
  unfolding end_guard_def end_guardref_def end_node_def Let_def by (auto split: option.splits frame.splits)

lemma end_succ_keeps: "keeps s (end_successorlist lo (s, w))" "keeps s (end_successor so (s, w))"
  unfolding end_successorlist_def end_successor_def Let_def
  by (auto split: option.splits frame.splits lref.splits sref.splits)

lemma end_case_keeps: "keeps s (end_case co (s, w))" "keeps s (end_condition cdo (s, w))"
  unfolding end_case_def end_condition_def Let_def by (auto split: option.splits frame.splits sref.splits)

lemma end_keeps: "keeps s (endHandler env (s, w))"
proof (cases "rd_stack s")
  case Nil
  then show ?thesis
    by (simp add: endHandler_def popState_def)
next
  case (Cons f fs)
  have same: "keeps s r" if "keeps t r" "rd_visited t = rd_visited s" for t and r :: "('d, 'e) rdw rd"
    using that by (auto simp: keeps_def split: sum.splits)
  show ?thesis
    using Cons
    by (auto simp: endHandler_def popState_def delete_frame_def split: frame.splits
        intro!: same[OF end_flow_keeps] same[OF end_library_keeps] same[OF end_node_keeps(1)] same[OF end_node_keeps(2)]
          same[OF end_node_keeps(3)] same[OF end_succ_keeps(1)] same[OF end_succ_keeps(2)] same[OF end_case_keeps(1)]
          same[OF end_case_keeps(2)])
qed

section \<open>Every case is on record\<close>

text \<open>The address of a case with the name of its target; those in the nodes and in the open elements.\<close>

definition key_of :: "fcase \<Rightarrow> nat \<times> string" where
  "key_of c = (fc_ptr c, fc_targetname c)"

definition sl_cases :: "succlist \<Rightarrow> fcase set" where
  "sl_cases sl = (\<Union>(k, su)\<in>set sl. set (su_cases su))"

definition nd_cases :: "fnode \<Rightarrow> fcase set" where
  "nd_cases nd = (case fn_succ nd of None \<Rightarrow> {} | Some sl \<Rightarrow> sl_cases sl)"

definition node_cases :: "('k, 'z) fworld_scheme \<Rightarrow> fcase set" where
  "node_cases w = (\<Union>n. nd_cases (fw_nodes w n))"

fun frame_cases :: "frame \<Rightarrow> fcase set" where
  "frame_cases (FSuccList (Some (LFresh sl))) = sl_cases sl"
| "frame_cases (FSuccessor (Some (SFresh su))) = set (su_cases su)"
| "frame_cases (FCase (Some c)) = {c}"
| "frame_cases f = {}"

definition all_cases :: "rd_state \<Rightarrow> ('k, 'z) fworld_scheme \<Rightarrow> fcase set" where
  "all_cases s w = node_cases w \<union> (\<Union>f\<in>set (rd_stack s). frame_cases f)"

definition tracked :: "nat \<Rightarrow> rd_state \<Rightarrow> ('k, 'z) fworld_scheme \<Rightarrow> bool" where
  "tracked p0 s w \<longleftrightarrow> distinct (map at_case (rd_targets s)) \<and> (\<forall>at\<in>set (rd_targets s). at_case at < rd_next s) \<and>
     p0 \<le> rd_next s \<and> {k \<in> key_of ` all_cases s w. p0 \<le> fst k} \<subseteq> (\<lambda>at. (at_case at, at_name at)) ` set (rd_targets s)"

text \<open>A step that records no target and makes no case but from the ones there were.\<close>

definition calm :: "fcase set \<Rightarrow> rd_state \<Rightarrow> ('k, 'z) rdw rd \<Rightarrow> bool" where
  "calm C s r \<longleftrightarrow> (\<forall>s' w'. r = Inr (s', w') \<longrightarrow> rd_targets s' = rd_targets s \<and> rd_next s \<le> rd_next s' \<and>
     key_of ` all_cases s' w' \<subseteq> key_of ` C)"

lemma calm_simps [simp]:
  "calm C s (throwX m)" "calm C s (Inl e)"
  "calm C s (Inr (s', w')) \<longleftrightarrow> rd_targets s' = rd_targets s \<and> rd_next s \<le> rd_next s' \<and> key_of ` all_cases s' w' \<subseteq> key_of ` C"
  by (simp_all add: calm_def throwX_def)

lemma calm_bind: "(\<And>a. r = Inr a \<Longrightarrow> calm C s (f a)) \<Longrightarrow> calm C s (bindX r f)"
  by (cases r) auto

lemma sl_cases_add: "sl_cases (succlist_add su sl) \<subseteq> sl_cases sl \<union> set (su_cases su)"
  using map_insert_subset[of "su_name su" su sl] by (fastforce simp: sl_cases_def succlist_add_def)

lemma sl_cases_upd: "sl_cases (upd_sl p (successor_add c b) sl) \<subseteq> insert c (sl_cases sl)"
  by (fastforce simp: sl_cases_def upd_sl_def successor_add_def split: if_splits)

lemma node_cases_set_node: "node_cases (set_node n nd w) \<subseteq> node_cases w \<union> nd_cases nd"
  by (auto simp: node_cases_def set_node_def split: if_splits)

lemma nd_cases_node: "nd_cases (fw_nodes w n) \<subseteq> node_cases w"
  by (auto simp: node_cases_def)

lemma nd_cases_simps [simp]:
  "nd_cases (node_add r nd) = nd_cases nd" "nd_cases (nd\<lparr> fn_succ := Some sl \<rparr>) = sl_cases sl"
  "nd_cases (node_setErrorHandler t nd) = nd_cases nd"
  by (simp_all add: nd_cases_def node_add_def node_setErrorHandler_def)

lemma node_cases_upd: "node_cases (upd_succ_nodes p (successor_add c b) w) \<subseteq> insert c (node_cases w)"
  using sl_cases_upd[of p c b] by (fastforce simp: node_cases_def nd_cases_def upd_succ_nodes_def split: option.splits)

lemma node_cases_new: "node_cases (node_new n p1 p2 a b c d e f g h i j w) \<subseteq> node_cases w"
  using node_cases_set_node by (auto simp: node_new_def Let_def node_cases_def nd_cases_def set_node_def split: if_splits option.splits)

lemma frame_cases_upd: "frame_cases (upd_succ_frame p (successor_add c b) f) \<subseteq> insert c (frame_cases f)"
  using sl_cases_upd by (cases "(p, successor_add c b, f)" rule: upd_succ_frame.cases) auto

lemma frame_cases_parent: "parent_frame fs = Some f \<Longrightarrow> frame_cases f \<subseteq> (\<Union>f\<in>set fs. frame_cases f)"
  by (induction fs rule: parent_frame.induct) (auto split: list.splits)

lemma frame_cases_upd_parent:
  "parent_frame fs = Some f \<Longrightarrow> (\<Union>f\<in>set (upd_parent g fs). frame_cases f) \<subseteq> (\<Union>f\<in>set fs. frame_cases f) \<union> frame_cases (g f)"
  by (induction fs rule: parent_frame.induct) (auto split: list.splits)

lemma frame_cases_ptr [simp]: "frame_cases (FSuccessor (map_option (\<lambda>su. SPtr (p su)) x)) = {}"
  by (cases x) auto

lemma image_sub: "A \<subseteq> B \<Longrightarrow> f ` A \<subseteq> f ` B"
  by (rule image_mono)

lemma all_cases_push [simp]: "all_cases (push_frame f s) w = frame_cases f \<union> all_cases s w"
  by (auto simp: all_cases_def push_frame_def)

lemma push_simps [simp]: "rd_targets (push_frame f s) = rd_targets s" "rd_next (push_frame f s) = rd_next s"
  by (simp_all add: push_frame_def)

lemma all_cases_upd [simp]:
  "all_cases (s\<lparr> rd_next := x1 \<rparr>) w = all_cases s w" "all_cases (s\<lparr> rd_allow := x2 \<rparr>) w = all_cases s w"
  "all_cases (s\<lparr> rd_flow := x3 \<rparr>) w = all_cases s w" "all_cases (s\<lparr> rd_existing := x4 \<rparr>) w = all_cases s w"
  "all_cases (s\<lparr> rd_libs := x5 \<rparr>) w = all_cases s w" "all_cases (s\<lparr> rd_targets := x6 \<rparr>) w = all_cases s w"
  "all_cases (s\<lparr> rd_handlers := x7 \<rparr>) w = all_cases s w" "all_cases (s\<lparr> rd_visited := x8 \<rparr>) w = all_cases s w"
  "all_cases (s\<lparr> rd_scope_name := x9 \<rparr>) w = all_cases s w" "all_cases (s\<lparr> rd_scopes := x10 \<rparr>) w = all_cases s w"
  "all_cases (s\<lparr> rd_inits := x11 \<rparr>) w = all_cases s w" "all_cases (s\<lparr> rd_holder := x12 \<rparr>) w = all_cases s w"
  "all_cases (s\<lparr> rd_dead := x13 \<rparr>) w = all_cases s w"
  by (simp_all add: all_cases_def)

lemma all_cases_nodes: "node_cases w' \<subseteq> node_cases w \<Longrightarrow> all_cases s w' \<subseteq> all_cases s w"
  by (auto simp: all_cases_def)

lemma start_calm:
  "calm (all_cases s w) s (start_flow amap (s, w))" "calm (all_cases s w) s (start_library env amap (s, w))"
  "calm (all_cases s w) s (start_guardref amap (s, w))" "calm (all_cases s w) s (start_successorlist (s, w))"
  "calm (all_cases s w) s (start_successor amap (s, w))" "calm (all_cases s w) s (start_condition amap (s, w))"
  "calm (all_cases s w) s (start_errorhandler amap (s, w))" "calm (all_cases s w) s (start_guardprecedence amap (s, w))"
  "calm (all_cases s w) s (start_add (s, w))"
  unfolding start_flow_def start_library_def start_guardref_def start_successorlist_def start_successor_def
    start_condition_def start_errorhandler_def start_guardprecedence_def start_add_def
  by (auto simp: Let_def fresh_ptr_def successor_new_def sl_cases_def
      intro!: calm_bind split: option.splits prod.splits)

lemma start_guard_calm: "calm (all_cases s w) s (start_guard env amap (s, w))"
proof -
  have "all_cases s' (w\<lparr> gw_guards := G, fw_gname := N \<rparr>) \<subseteq> all_cases s' w" for s' G N
    by (rule all_cases_nodes) (simp add: node_cases_def)
  then show ?thesis
    unfolding start_guard_def
    by (force simp: Let_def fresh_ptr_def intro!: calm_bind image_sub split: prod.splits)
qed

lemma start_node_calm: "calm (all_cases s w) s (start_node amap (s, w))"
proof -
  have n: "all_cases s' (node_new n p1 p2 a b c d e f g h i j w) \<subseteq> all_cases s' w" for s' n p1 p2 a b c d e f g h i j
    by (rule all_cases_nodes[OF node_cases_new])
  show ?thesis
    unfolding start_node_def
    by (auto simp: Let_def fresh_ptr_def intro!: calm_bind image_sub n[THEN subset_trans] split: prod.splits)
qed

lemma start_case_tracked:
  assumes "tracked p0 s w" "start_case amap (s, w) = Inr (s', w')"
  shows "tracked p0 s' w' \<and> set (rd_targets s) \<subseteq> set (rd_targets s')"
proof (cases "rd_allow s")
  case True
  obtain at c s1 where s': "s' = push_frame (FCase (Some c)) (s\<lparr> rd_next := rd_next s + 1, rd_targets := rd_targets s @ [at] \<rparr>)"
    and at: "at_case at = rd_next s" "key_of c = (at_case at, at_name at)" and w': "w' = w"
    using assms(2) True
    by (fastforce simp: start_case_def bindX_eq_Inr fresh_ptr_def key_of_def case_new_def)
  have new: "\<forall>x\<in>set (rd_targets s). at_case x < rd_next s"
    using assms(1) by (simp add: tracked_def)
  have "rd_next s \<notin> at_case ` set (rd_targets s)"
    using new by (metis imageE less_irrefl)
  then show ?thesis
    using assms(1) new at unfolding s' w' tracked_def by (auto simp: less_Suc_eq)
next
  case False
  then have "s' = push_frame (FCase None) s" "w' = w"
    using assms(2) by (auto simp: start_case_def bindX_eq_Inr)
  then show ?thesis
    using assms(1) by (simp add: tracked_def)
qed

lemma all_cases_stack: "all_cases (s\<lparr> rd_stack := fs \<rparr>) w = node_cases w \<union> (\<Union>f\<in>set fs. frame_cases f)"
  by (simp add: all_cases_def)

lemma kill_simps [simp]: "rd_targets (kill_cases ps s) = rd_targets s" "rd_next (kill_cases ps s) = rd_next s"
  "all_cases (kill_cases ps s) w = all_cases s w"
  by (simp_all add: kill_cases_def all_cases_def)

lemma addLibrary_calm: "addLibrary_reader env l fms s = Inr s2 \<Longrightarrow>
    rd_targets s2 = rd_targets s \<and> rd_next s2 = rd_next s \<and> rd_stack s2 = rd_stack s"
  by (auto simp: addLibrary_reader_def Let_def bindX_eq_Inr case_prod_beta)

lemma end_library_calm: "calm (all_cases s w) s (end_library env l (s, w))"
  unfolding end_library_def
  by (auto simp: all_cases_def dest!: addLibrary_calm intro!: calm_bind split: option.splits frame.splits prod.splits)

lemma end_calm:
  "calm (all_cases s w) s (end_flow b (s, w))" "calm (all_cases s w) s (end_guard g (s, w))"
  "calm (all_cases s w) s (end_node no (s, w))"
  unfolding end_flow_def end_guard_def end_node_def Let_def
  by (auto split: option.splits frame.splits prod.splits)

lemma end_guardref_calm: "calm (all_cases s w) s (end_guardref r (s, w))"
proof -
  have "all_cases s (set_node n (node_add g (fw_nodes w n)) w) \<subseteq> all_cases s w" for n g
    using node_cases_set_node[of n "node_add g (fw_nodes w n)" w] nd_cases_node[of w n] by (auto simp: all_cases_def)
  then show ?thesis
    unfolding end_guardref_def by (auto intro!: image_sub split: option.splits frame.splits)
qed

lemma sub_calm:
  "rd_targets s' = rd_targets s \<Longrightarrow> rd_next s \<le> rd_next s' \<Longrightarrow> all_cases s' w' \<subseteq> C \<Longrightarrow> calm C s (Inr (s', w'))"
  by (simp add: image_sub)

lemma set_succ_cases:
  "all_cases s (set_node n ((fw_nodes w n)\<lparr> fn_succ := Some sl \<rparr>) w) \<subseteq> sl_cases sl \<union> all_cases s w"
  using node_cases_set_node[of n "(fw_nodes w n)\<lparr> fn_succ := Some sl \<rparr>" w] by (auto simp: all_cases_def)

lemma add_succ_cases:
  "all_cases s (set_node n ((fw_nodes w n)\<lparr> fn_succ := map_option (succlist_add su) (fn_succ (fw_nodes w n)) \<rparr>) w)
     \<subseteq> set (su_cases su) \<union> all_cases s w"
proof -
  let ?nd = "(fw_nodes w n)\<lparr> fn_succ := map_option (succlist_add su) (fn_succ (fw_nodes w n)) \<rparr>"
  have "nd_cases ?nd \<subseteq> nd_cases (fw_nodes w n) \<union> set (su_cases su)"
    using sl_cases_add[of su] by (auto simp: nd_cases_def split: option.splits)
  then have "node_cases (set_node n ?nd w) \<subseteq> node_cases w \<union> set (su_cases su)"
    using node_cases_set_node[of n ?nd w] nd_cases_node[of w n] by blast
  then show ?thesis
    unfolding all_cases_def by blast
qed

lemma set_succ_calm: "key_of ` all_cases s (set_node n ((fw_nodes w n)\<lparr> fn_succ := Some sl \<rparr>) w)
    \<subseteq> key_of ` sl_cases sl \<union> key_of ` all_cases s w"
  unfolding image_Un[symmetric] by (rule image_mono[OF set_succ_cases])

lemma add_succ_calm: "key_of ` all_cases s (set_node n ((fw_nodes w n)\<lparr> fn_succ := map_option (succlist_add su) (fn_succ (fw_nodes w n)) \<rparr>) w)
    \<subseteq> key_of ` set (su_cases su) \<union> key_of ` all_cases s w"
  unfolding image_Un[symmetric] by (rule image_mono[OF add_succ_cases])

lemma end_successorlist_calm:
  "calm (frame_cases (FSuccList lo) \<union> all_cases s w) s (end_successorlist lo (s, w))"
proof (cases "parent_frame (rd_stack s)")
  case (Some f)
  show ?thesis
  proof (cases f)
    case (FNode no)
    then show ?thesis
      using Some by (cases no; cases lo; cases "the lo") (simp_all add: end_successorlist_def image_Un le_supI2 set_succ_calm)
  qed (simp_all add: end_successorlist_def Some)
qed (auto simp: end_successorlist_def split: option.splits lref.splits)

lemma stack_cases_parent:
  assumes "parent_frame (rd_stack s) = Some f" "frame_cases (g f) \<subseteq> C" "all_cases s w \<subseteq> C"
  shows "key_of ` all_cases (s\<lparr> rd_stack := upd_parent g (rd_stack s) \<rparr>) w \<subseteq> key_of ` C"
proof -
  have "node_cases w \<subseteq> C" "(\<Union>f\<in>set (rd_stack s). frame_cases f) \<subseteq> C"
    using assms(3) unfolding all_cases_def by blast+
  then have "(\<Union>f\<in>set (upd_parent g (rd_stack s)). frame_cases f) \<subseteq> C"
    using subset_trans[OF frame_cases_upd_parent[OF assms(1), of g]] assms(2) by simp
  then show ?thesis
    unfolding all_cases_stack using \<open>node_cases w \<subseteq> C\<close> by (intro image_mono Un_least)
qed

lemma frame_in_stack: "parent_frame (rd_stack s) = Some f \<Longrightarrow> frame_cases f \<subseteq> all_cases s w"
  using frame_cases_parent by (fastforce simp: all_cases_def)

lemma end_successor_calm:
  "calm (frame_cases (FSuccessor so) \<union> all_cases s w) s (end_successor so (s, w))"
proof (cases "parent_frame (rd_stack s)")
  case (Some f)
  show ?thesis
  proof (cases f)
    case (FSuccList lo)
    have fresh: "key_of ` all_cases (s\<lparr> rd_stack := upd_parent (\<lambda>_. FSuccList (Some (LFresh (succlist_add su sl)))) (rd_stack s) \<rparr>) w
        \<subseteq> key_of ` (set (su_cases su) \<union> all_cases s w)" if "f = FSuccList (Some (LFresh sl))" for sl su
      using sl_cases_add[of su sl] frame_in_stack[OF Some, of w] that by (intro stack_cases_parent[OF Some]) auto
    show ?thesis
      using Some FSuccList fresh
      by (cases lo; cases so; cases "the lo"; cases "the so")
        (auto simp add: end_successor_def image_Un add_succ_calm)
  qed (simp_all add: end_successor_def Some)
qed (auto simp: end_successor_def split: option.splits sref.splits)

lemma end_condition_calm: "calm (all_cases s w) s (end_condition cdo (s, w))"
proof (cases "parent_frame (rd_stack s)")
  case (Some f)
  show ?thesis
  proof (cases f)
    case (FCase co)
    have "key_of ` all_cases (s\<lparr> rd_stack := upd_parent (\<lambda>_. FCase (Some (case_add cd c))) (rd_stack s) \<rparr>) w
        \<subseteq> key_of ` all_cases s w" if "f = FCase (Some c)" for c cd
    proof -
      have "key_of ` all_cases (s\<lparr> rd_stack := upd_parent (\<lambda>_. FCase (Some (case_add cd c))) (rd_stack s) \<rparr>) w
          \<subseteq> key_of ` (insert (case_add cd c) (all_cases s w))"
        by (rule stack_cases_parent[OF Some]) auto
      also have "\<dots> = insert (key_of c) (key_of ` all_cases s w)"
        by (simp add: key_of_def case_add_def)
      also have "\<dots> = key_of ` all_cases s w"
        using frame_in_stack[OF Some, of w] that by auto
      finally show ?thesis .
    qed
    then show ?thesis
      using Some FCase by (cases co; cases cdo) (simp_all add: end_condition_def)
  qed (simp_all add: end_condition_def Some)
qed (simp add: end_condition_def)

lemma end_case_calm: "calm (frame_cases (FCase co) \<union> all_cases s w) s (end_case co (s, w))"
proof (cases "parent_frame (rd_stack s)")
  case (Some f)
  show ?thesis
  proof (cases f)
    case (FSuccessor so)
    have fresh: "key_of ` all_cases (s\<lparr> rd_stack := upd_parent (\<lambda>_. FSuccessor (Some (SFresh (successor_add c b su)))) (rd_stack s) \<rparr>) w
        \<subseteq> key_of ` insert c (all_cases s w)" if "f = FSuccessor (Some (SFresh su))" for su c b
      using frame_in_stack[OF Some, of w] that by (intro stack_cases_parent[OF Some]) (auto simp: successor_add_def)
    have known: "key_of ` all_cases (s\<lparr> rd_stack := map (upd_succ_frame p (successor_add c b)) (rd_stack s) \<rparr>)
        (upd_succ_nodes p (successor_add c b) w) \<subseteq> key_of ` insert c (all_cases s w)" for p c b
    proof (rule image_mono)
      have "(\<Union>f\<in>set (map (upd_succ_frame p (successor_add c b)) (rd_stack s)). frame_cases f)
          \<subseteq> insert c (\<Union>f\<in>set (rd_stack s). frame_cases f)"
        using frame_cases_upd[of p c b] by fastforce
      then show "all_cases (s\<lparr> rd_stack := map (upd_succ_frame p (successor_add c b)) (rd_stack s) \<rparr>)
          (upd_succ_nodes p (successor_add c b) w) \<subseteq> insert c (all_cases s w)"
        using node_cases_upd[of p c b w] unfolding all_cases_def by auto
    qed
    show ?thesis
      using Some FSuccessor fresh known
      by (cases so; cases co; cases "the so") (auto simp add: end_case_def image_Un)
  qed (simp_all add: end_case_def Some)
qed (auto simp: end_case_def split: option.splits)

section \<open>Reading as a whole\<close>

text \<open>The plugins not read yet.\<close>

definition unread :: "'k renv \<Rightarrow> rd_state \<Rightarrow> nat" where
  "unread env s = card (canonize ` set (re_plugins env) - set (rd_visited s))"

definition advance :: "nat \<Rightarrow> ('k, 'z) rdw \<Rightarrow> ('k, 'z) rdw \<Rightarrow> bool" where
  "advance p0 = (\<lambda>(s, w) (s', w'). set (rd_visited s) \<subseteq> set (rd_visited s') \<and> set (rd_targets s) \<subseteq> set (rd_targets s') \<and>
     (tracked p0 s w \<longrightarrow> tracked p0 s' w'))"

definition reads :: "nat \<Rightarrow> ('k, 'z) rdw \<Rightarrow> ('k, 'z) rdw rd \<Rightarrow> bool" where
  "reads p0 st r \<longleftrightarrow> no_fuel r \<and> (\<forall>st'. r = Inr st' \<longrightarrow> advance p0 st st')"

lemma advance_refl: "advance p0 st st"
  by (auto simp: advance_def)

lemma advance_trans: "advance p0 a b \<Longrightarrow> advance p0 b c \<Longrightarrow> advance p0 a c"
  by (auto simp: advance_def)

lemma reads_calm:
  assumes "keeps s r" "calm (all_cases s w) s r"
  shows "reads p0 (s, w) r"
proof -
  have "tracked p0 s w \<longrightarrow> tracked p0 s' w'" if "r = Inr (s', w')" for s' w'
    using assms(2) that unfolding tracked_def by (fastforce simp: calm_def)
  then show ?thesis
    using assms by (auto simp: reads_def no_fuel_def keeps_def advance_def calm_def split: sum.splits)
qed

lemmas reads_started =
  start_keeps(1)[THEN reads_calm, OF start_calm(1)] start_keeps(2)[THEN reads_calm, OF start_calm(2)]
  start_keeps(3)[THEN reads_calm, OF start_guard_calm] start_keeps(4)[THEN reads_calm, OF start_calm(3)]
  start_keeps(5)[THEN reads_calm, OF start_node_calm] start_keeps(6)[THEN reads_calm, OF start_calm(4)]
  start_keeps(7)[THEN reads_calm, OF start_calm(5)] start_keeps(9)[THEN reads_calm, OF start_calm(6)]
  start_keeps(10)[THEN reads_calm, OF start_calm(7)] start_keeps(11)[THEN reads_calm, OF start_calm(8)]
  start_keeps(12)[THEN reads_calm, OF start_calm(9)]

lemma reads_case: "reads p0 (s, w) (start_case amap (s, w))"
proof -
  have "keeps s (start_case amap (s, w))"
    by (rule start_keeps)
  then have "no_fuel (start_case amap (s, w))"
    "start_case amap (s, w) = Inr (s', w') \<Longrightarrow> rd_visited s' = rd_visited s" for s' w'
    by (auto simp: keeps_def no_fuel_def)
  moreover have "set (rd_targets s) \<subseteq> set (rd_targets s')" if "start_case amap (s, w) = Inr (s', w')" for s' w'
    using that by (auto simp: start_case_def bindX_eq_Inr fresh_ptr_def split: if_splits)
  ultimately show ?thesis
    using start_case_tracked[of p0 s w amap] by (auto simp: reads_def advance_def)
qed

lemma reads_bind: "no_fuel r \<Longrightarrow> (\<And>a. r = Inr a \<Longrightarrow> reads p0 st (f a)) \<Longrightarrow> reads p0 st (bindX r f)"
  by (cases r) (auto simp: no_fuel_def reads_def)

lemma reads_simps [simp]: "reads p0 st (throwX m)" "reads p0 st (Inl (RDFault e))" "reads p0 st (Inr st)"
  by (auto simp: reads_def throwX_def no_fuel_def advance_refl)

lemma reads_chain: "reads p0 st r \<Longrightarrow> (\<And>st'. r = Inr st' \<Longrightarrow> advance p0 st st' \<Longrightarrow> reads p0 st' (f st')) \<Longrightarrow> reads p0 st (bindX r f)"
  by (cases r) (auto simp: reads_def no_fuel_def intro: advance_trans)

lemma reads_end:
  fixes w :: "('k, 'z) fworld_scheme"
  shows "reads p0 (s, w) (endHandler env (s, w))"
proof (cases "rd_stack s")
  case Nil
  then show ?thesis
    by (simp add: endHandler_def popState_def)
next
  case (Cons f fs)
  define s1 where "s1 = s\<lparr> rd_stack := fs, rd_allow := (case f of FNode _ \<Rightarrow> True | _ \<Rightarrow> rd_allow s) \<rparr>"
  have all: "all_cases s w = frame_cases f \<union> all_cases s1 w"
    using Cons by (auto simp: all_cases_def s1_def)
  have old: "calm (all_cases s w) s r" if "calm (frame_cases f \<union> all_cases s1 w) s1 r" for r :: "('k, 'z) rdw rd"
    using that all by (simp add: calm_def s1_def)
  have wk: "calm (frame_cases f \<union> all_cases s1 w) s1 r" if "calm (all_cases s1 w) s1 r" for r :: "('k, 'z) rdw rd"
    using that by (fastforce simp: calm_def)
  have "calm (frame_cases f \<union> all_cases s1 w) s1 (delete_frame env f (s1, w))"
    by (cases f) (auto simp: delete_frame_def end_succ_keeps intro: wk end_calm end_library_calm end_guardref_calm
        end_condition_calm end_successorlist_calm end_successor_calm end_case_calm)
  then show ?thesis
    using Cons by (intro reads_calm end_keeps) (simp add: endHandler_def popState_def s1_def[symmetric] old)
qed

lemma unread_mono: "advance p0 (s, w) (s', w') \<Longrightarrow> unread env s' \<le> unread env s"
  unfolding unread_def advance_def by (intro card_mono) auto

lemma unread_less:
  assumes "d \<in> set (re_plugins env)" "\<not> isDependency d (rd_visited s)"
    and "rd_visited s' = addDependency d (rd_visited s)"
  shows "unread env s' < unread env s"
proof -
  have "canonize ` set (re_plugins env) - set (rd_visited s') =
      (canonize ` set (re_plugins env) - set (rd_visited s)) - {canonize d}"
    using assms(3) by (auto simp: addDependency_def)
  moreover have "canonize d \<in> canonize ` set (re_plugins env) - set (rd_visited s)"
    using assms by (auto simp: isDependency_def)
  ultimately show ?thesis
    unfolding unread_def using card_Diff1_less by (metis finite_Diff finite_imageI finite_set)
qed

text \<open>A reader of nested files that ends while fewer than \<open>n\<close> plugins are unread.\<close>

definition ends_below :: "nat \<Rightarrow> nat \<Rightarrow> 'k renv \<Rightarrow> (string \<Rightarrow> ('k, 'z) rdw \<Rightarrow> ('k, 'z) rdw rd) \<Rightarrow> bool" where
  "ends_below p0 n env rf \<longleftrightarrow> (\<forall>fl s w. unread env s < n \<longrightarrow> reads p0 (s, w) (rf fl (s, w)))"

lemma depend_reads:
  fixes w :: "('k, 'z) fworld_scheme"
  assumes rf: "ends_below p0 n env rf" and u: "unread env s < Suc n"
  shows "reads p0 (s, w) (readPluginIfUnread rf env name (s, w))"
proof -
  have call: "reads p0 (s, w) (bindX (rf d (s1, w)) (\<lambda>(s2, w2). Inr (s2\<lparr> rd_stack := rd_stack s \<rparr>, w2)))"
    if d: "d \<in> set (re_plugins env)" "\<not> isDependency d (rd_visited s)"
      and s1: "s1 = s\<lparr> rd_visited := addDependency d (rd_visited s), rd_stack := up \<rparr>"
      and up: "set up \<subseteq> set (rd_stack s)" for d s1 up
  proof -
    have "unread env s1 < n"
      using unread_less[OF d, of s1] u s1 by simp
    then have r: "reads p0 (s1, w) (rf d (s1, w))"
      using rf by (auto simp: ends_below_def)
    have vis: "set (rd_visited s) \<subseteq> set (rd_visited s1)"
      using s1 by (auto simp: addDependency_def)
    have same: "rd_targets s1 = rd_targets s" "rd_next s1 = rd_next s"
      using s1 by simp_all
    have "all_cases s1 w \<subseteq> all_cases s w"
      using s1 up by (auto simp: all_cases_def)
    then have t1: "tracked p0 s w \<Longrightarrow> tracked p0 s1 w"
      unfolding tracked_def same by blast
    have "advance p0 (s, w) (s2\<lparr> rd_stack := rd_stack s \<rparr>, w2)" if "rf d (s1, w) = Inr (s2, w2)" for s2 w2
    proof -
      have adv: "advance p0 (s1, w) (s2, w2)"
        using r that by (simp add: reads_def)
      have sub: "set (rd_targets s) \<subseteq> set (rd_targets s2)"
        using adv same by (simp add: advance_def)
      have "tracked p0 (s2\<lparr> rd_stack := rd_stack s \<rparr>) w2" if t: "tracked p0 s w"
      proof -
        have "tracked p0 s2 w2"
          using adv t1[OF t] by (simp add: advance_def)
        moreover have "{k \<in> key_of ` (\<Union>f\<in>set (rd_stack s). frame_cases f). p0 \<le> fst k}
            \<subseteq> (\<lambda>at. (at_case at, at_name at)) ` set (rd_targets s2)"
        proof -
          have "key_of ` (\<Union>f\<in>set (rd_stack s). frame_cases f) \<subseteq> key_of ` all_cases s w"
            by (rule image_mono) (auto simp: all_cases_def)
          moreover have "{k \<in> key_of ` all_cases s w. p0 \<le> fst k} \<subseteq> (\<lambda>at. (at_case at, at_name at)) ` set (rd_targets s)"
            using t by (simp add: tracked_def)
          ultimately show ?thesis
            using image_mono[OF sub, of "\<lambda>at. (at_case at, at_name at)"] by blast
        qed
        ultimately show ?thesis
          unfolding tracked_def all_cases_def by (auto simp: image_Un)
      qed
      then show ?thesis
        using adv vis sub by (auto simp: advance_def)
    qed
    moreover have "no_fuel (rf d (s1, w))"
      using r by (simp add: reads_def)
    ultimately show ?thesis
      by (intro reads_bind) (auto simp: reads_def)
  qed
  have up: "set (dropWhile P (rd_stack s)) \<subseteq> set (rd_stack s)" for P
    using set_dropWhileD by fast
  have "d \<in> set (re_plugins env)" if "nonnull (find P (re_plugins env)) = Inr d" for d P
    using that by (auto simp: nonnull_def find_Some_iff split: option.splits)
  then show ?thesis
    unfolding readPluginIfUnread_def prod.case Let_def
    using call[OF _ _ refl up] by (intro reads_bind no_fuel_simps) (simp del: dropWhile_eq_Nil_conv)
qed

lemma push_reads: "reads p0 (s, w) (Inr (s', w')) \<Longrightarrow> frame_cases f = {} \<Longrightarrow> reads p0 (s, w) (Inr (push_frame f s', w'))"
  by (auto simp: reads_def advance_def tracked_def no_fuel_def)

lemma start_depend_reads:
  assumes "ends_below p0 n env rf" "unread env s < Suc n"
  shows "reads p0 (s, w) (start_depend rf env amap (s, w))"
proof -
  have "reads p0 st' (case st' of (s, w) \<Rightarrow> Inr (push_frame FDepend s, w))" for st' :: "('a, 'b) rdw"
    by (cases st') (auto simp: reads_def no_fuel_def advance_def tracked_def)
  then show ?thesis
    unfolding start_depend_def by (intro reads_bind reads_chain[OF depend_reads[OF assms]]) auto
qed

lemma event_reads:
  assumes "ends_below p0 n env rf" "unread env s < Suc n"
  shows "reads p0 (s, w) (handle_event rf env ev (s, w))"
proof (cases ev)
  case (XStart el attr)
  show ?thesis
    unfolding XStart handle_event_def xevent.case pushState_def
    by (intro reads_bind) (simp_all add: reads_started reads_case start_depend_reads[OF assms])
qed (simp add: handle_event_def reads_end)

lemma reads_fold:
  assumes "\<And>x t v. unread env t < n \<Longrightarrow> reads p0 (t, v) (f x (t, v))" "unread env s < n"
  shows "reads p0 (s, w) (foldX f xs (s, w))"
  using assms(2)
proof (induction xs arbitrary: s w)
  case (Cons x xs)
  have "reads p0 st' (foldX f xs st')" if "advance p0 (s, w) st'" for st'
    using Cons.IH[of "fst st'" "snd st'"] unread_mono[of p0 s w "fst st'" "snd st'" env] that Cons.prems by simp
  then show ?case
    by (auto intro!: reads_chain[OF assms(1)[OF Cons.prems]])
qed simp

lemma files_end: "ends_below p0 n env (readxmlfile n env :: string \<Rightarrow> ('k, 'z) rdw \<Rightarrow> ('k, 'z) rdw rd)"
proof (induction n)
  case (Suc n)
  show ?case
    unfolding ends_below_def
  proof (intro allI impI)
    fix fl s and w :: "('k, 'z) fworld_scheme"
    assume u: "unread env s < Suc n"
    show "reads p0 (s, w) (readxmlfile (Suc n) env fl (s, w))"
      by (auto intro!: reads_chain reads_fold[OF event_reads[OF Suc] u] split: option.splits prod.splits)
  qed
qed (simp add: ends_below_def)

lemma dir_reads:
  fixes w :: "('k, 'z) fworld_scheme"
  assumes "unread env s < n"
  shows "reads p0 (s, w) (readxmldir n env (s, w))"
proof -
  let ?each = "\<lambda>f (t, v). if isDependency f (rd_visited t) then Inr (t, v) else readxmlfile n env f (t, v :: ('k, 'z) fworld_scheme)"
  have each: "reads p0 (t, v) (?each f (t, v))" if "unread env t < n" for f t v
    using files_end[of p0 n env] that by (auto simp: ends_below_def)
  have fr: "reads p0 (s, w) r" if "reads p0 (push_frame fr s, w) r" "frame_cases fr = {}" for fr and r :: "('k, 'z) rdw rd"
    using that by (auto simp: reads_def advance_def tracked_def)
  have u: "unread env (push_frame fr s) < n" for fr
    using assms by (simp add: unread_def)
  have "reads p0 (push_frame fr s, w) (bindX (foldX ?each files (push_frame fr s, w)) (endHandler env))" for fr files
    by (rule reads_chain[OF reads_fold[OF each u]]) (auto simp: reads_end)
  then show ?thesis
    unfolding readxmldir_def Let_def prod.case by (intro fr) auto
qed

lemma target_no_fuel: "no_fuel (add_target_execute s f at w)"
  unfolding add_target_execute_def by (auto intro!: no_fuel_bind split: option.splits)

lemma handler_no_fuel: "no_fuel (set_error_handler_execute f h w)"
  unfolding set_error_handler_execute_def by (auto intro!: no_fuel_bind split: option.splits)

lemma unread_new: "unread env (reader_new fmap existing libs p) = card (canonize ` set (re_plugins env))"
  by (simp add: unread_def reader_new_def)

lemma unread_stack: "unread env (s\<lparr> rd_stack := fs \<rparr>) = unread env s"
  by (simp add: unread_def)

lemma unread_dependency: "unread env (s\<lparr> rd_visited := addDependency fl (rd_visited s) \<rparr>) \<le> unread env s"
  unfolding unread_def by (intro card_mono) (auto simp: addDependency_def)

text \<open>The state in which the forward references are resolved.\<close>

definition read_files :: "nat \<Rightarrow> 'k renv \<Rightarrow> string \<Rightarrow> ('k, 'z) rdw \<Rightarrow> ('k, 'z) rdw rd" where
  "read_files fuel env filename = (\<lambda>(s0, w0).
     bindX (readxmlfile fuel env filename (s0\<lparr> rd_stack := [FHolder] \<rparr>, w0)) (\<lambda>(s1, w1).
       readxmldir fuel env (s1\<lparr> rd_visited := addDependency filename (rd_visited s1) \<rparr>, w1)))"

lemma read_files_reads:
  fixes w :: "('k, 'z) fworld_scheme"
  assumes u: "unread env s < n" and st: "rd_stack s = []"
  shows "reads p0 (s, w) (read_files n env filename (s, w))"
proof -
  have "reads p0 (s\<lparr> rd_stack := [FHolder] \<rparr>, w) (readxmlfile n env filename (s\<lparr> rd_stack := [FHolder] \<rparr>, w))"
    using u by (intro files_end[unfolded ends_below_def, rule_format]) (simp add: unread_stack)
  then have first: "reads p0 (s, w) (readxmlfile n env filename (s\<lparr> rd_stack := [FHolder] \<rparr>, w))"
    using st by (auto simp: reads_def advance_def tracked_def all_cases_def)
  have "reads p0 (s1, w1) (readxmldir n env (s1\<lparr> rd_visited := addDependency filename (rd_visited s1) \<rparr>, w1))"
    if "advance p0 (s, w) (s1, w1)" for s1 and w1 :: "('k, 'z) fworld_scheme"
  proof -
    let ?s = "s1\<lparr> rd_visited := addDependency filename (rd_visited s1) \<rparr>"
    have "unread env ?s < n"
      using unread_dependency[of env filename s1] unread_mono[OF that, of env] u by simp
    then have "reads p0 (?s, w1) (readxmldir n env (?s, w1))"
      by (rule dir_reads)
    moreover have "set (rd_visited s1) \<subseteq> set (rd_visited ?s)" "tracked p0 ?s w1 = tracked p0 s1 w1"
      by (auto simp: addDependency_def tracked_def)
    ultimately show ?thesis
      unfolding reads_def advance_def by fastforce
  qed
  then show ?thesis
    unfolding read_files_def prod.case by (auto intro!: reads_chain[OF first])
qed

lemma reader_read_files:
  "reader_read fuel env filename st = bindX (read_files fuel env filename st) (\<lambda>(s2, w2).
     bindX (nonnull (if rd_holder s2 then rd_flow s2 else None)) (\<lambda>f.
     bindX (foldX (add_target_execute s2 f) (rd_targets s2) w2) (\<lambda>w3.
     bindX (foldX (set_error_handler_execute f) (rd_handlers s2) w3) (\<lambda>w4.
     Inr (f, s2, w4)))))"
  unfolding reader_read_def read_files_def by (cases st) (auto simp: bindX_def split: sum.splits prod.splits)

text \<open>C21: reading ends.  However the plugin files depend on one another (on themselves, in a circle), with
  nesting allowed one deeper than there are plugin files the reader never runs out of it: it returns a flow, an
  exception or a fault.\<close>

theorem reading_ends:
  assumes "card (canonize ` set (re_plugins env)) < fuel"
  shows "xml_read fuel env fmap libs p filename existing w \<noteq> Inl RDOutOfFuel"
proof -
  let ?s = "reader_new fmap existing libs p"
  have "reads 0 (?s, w) (read_files fuel env filename (?s, w))"
    using assms by (intro read_files_reads) (simp_all add: unread_new, simp add: reader_new_def)
  then have "no_fuel (read_files fuel env filename (?s, w))"
    by (simp add: reads_def)
  then have "no_fuel (reader_read fuel env filename (?s, w))"
    unfolding reader_read_files
    by (intro no_fuel_bind)
      (auto intro!: no_fuel_bind no_fuel_foldX target_no_fuel handler_no_fuel split: prod.splits)
  then show ?thesis
    by (simp add: xml_read_def no_fuel_def)
qed

section \<open>Forward references\<close>

lemma node_cases_upd_case: "node_cases (upd_case_nodes g w) = g ` node_cases w"
proof -
  have "nd_cases (nd\<lparr> fn_succ := map_option (map (\<lambda>(k, s). (k, s\<lparr> su_cases := map g (su_cases s) \<rparr>))) (fn_succ nd) \<rparr>) = g ` nd_cases nd" for nd
    by (cases "fn_succ nd") (force simp: nd_cases_def sl_cases_def)+
  then show ?thesis
    by (simp add: node_cases_def upd_case_nodes_def image_UN)
qed

lemma set_case_target_simps [simp]:
  "key_of (set_case_target p n conv c) = key_of c" "fc_ptr (set_case_target p n conv c) = fc_ptr c"
  "fc_target (set_case_target p n conv c) = (if fc_ptr c = p then Some n else fc_target c)"
  by (simp_all add: set_case_target_def key_of_def)

lemma targets_executed:
  assumes "foldX (add_target_execute s f) ats w = Inr w'" "distinct (map at_case ats)"
  shows "key_of ` node_cases w' = key_of ` node_cases w \<and>
    (\<forall>c\<in>node_cases w'. \<forall>at\<in>set ats. fc_ptr c = at_case at \<longrightarrow>
        (\<exists>n. fc_target c = Some n \<and> flow_get_node (at_name at) f = Some n)) \<and>
    (\<forall>c\<in>node_cases w'. fc_ptr c \<notin> at_case ` set ats \<longrightarrow> (\<exists>c0\<in>node_cases w. fc_ptr c0 = fc_ptr c \<and> fc_target c0 = fc_target c))"
  using assms
proof (induction ats arbitrary: w)
  case (Cons a ats)
  obtain w1 where first: "add_target_execute s f a w = Inr w1" and rest: "foldX (add_target_execute s f) ats w1 = Inr w'"
    using Cons.prems(1) by (auto simp: bindX_eq_Inr)
  obtain n conv where n: "flow_get_node (at_name a) f = Some n"
    and w1: "w1 = upd_case_nodes (set_case_target (at_case a) n conv) w"
    using first by (auto simp: bindX_eq_Inr add_target_execute_def split: option.splits if_splits)
  have c1: "node_cases w1 = set_case_target (at_case a) n conv ` node_cases w"
    by (simp add: w1 node_cases_upd_case)
  have d: "distinct (map at_case ats)" "at_case a \<notin> at_case ` set ats"
    using Cons.prems(2) by auto
  note ih = Cons.IH[OF rest d(1)]
  have origin: "\<exists>c0\<in>node_cases w1. fc_ptr c0 = fc_ptr c \<and> fc_target c0 = fc_target c"
    if "c \<in> node_cases w'" "fc_ptr c \<notin> at_case ` set ats" for c
    using conjunct2[OF conjunct2[OF ih]] that by blast
  have "key_of ` node_cases w' = key_of ` node_cases w"
    using ih c1 by (simp add: image_image)
  moreover have "\<exists>m. fc_target c = Some m \<and> flow_get_node (at_name at) f = Some m"
    if "c \<in> node_cases w'" "at \<in> set (a # ats)" "fc_ptr c = at_case at" for c at
  proof (cases "at = a")
    case True
    then have "c \<in> node_cases w'" "fc_ptr c \<notin> at_case ` set ats" "fc_ptr c = at_case a"
      using that d(2) by auto
    then obtain c0 where "c0 \<in> node_cases w1" "fc_ptr c0 = at_case a" "fc_target c0 = fc_target c"
      using origin[of c] by auto
    then show ?thesis
      using True n c1 by auto
  qed (use ih that in auto)
  moreover have "\<exists>c0\<in>node_cases w. fc_ptr c0 = fc_ptr c \<and> fc_target c0 = fc_target c"
    if "c \<in> node_cases w'" "fc_ptr c \<notin> at_case ` set (a # ats)" for c
  proof -
    have ptr: "fc_ptr c \<notin> at_case ` set ats" "fc_ptr c \<noteq> at_case a"
      using that(2) by auto
    then obtain c0 where "c0 \<in> node_cases w1" "fc_ptr c0 = fc_ptr c" "fc_target c0 = fc_target c"
      using origin[OF \<open>c \<in> node_cases w'\<close>] by auto
    then show ?thesis
      using ptr(2) c1 by auto
  qed
  ultimately show ?case
    by blast
qed auto

lemma handler_cases: "set_error_handler_execute f h w = Inr w' \<Longrightarrow> nd_cases (fw_nodes w' m) = nd_cases (fw_nodes w m)"
  by (auto simp: set_error_handler_execute_def bindX_eq_Inr set_node_def split: option.splits if_splits)

lemma handlers_cases: "foldX (set_error_handler_execute f) hs w = Inr w' \<Longrightarrow> nd_cases (fw_nodes w' m) = nd_cases (fw_nodes w m)"
  by (induction hs arbitrary: w) (auto simp: bindX_eq_Inr handler_cases)

text \<open>C22: after reading, every case the reader made points to the node its element named, and that node is
  one of the flow that was read.  Cases of the flow being replaced (addresses below \<open>p\<close>) are not touched.\<close>

theorem reader_links_cases:
  assumes "card (canonize ` set (re_plugins env)) < fuel"
    and "xml_read fuel env fmap libs p filename existing w = Inr (f, s, w')"
    and "\<forall>c\<in>node_cases w. fc_ptr c < p"
  shows "\<forall>c\<in>node_cases w'. p \<le> fc_ptr c \<longrightarrow>
    (\<exists>t. fc_target c = Some t \<and> flow_get_node (fc_targetname c) f = Some t \<and> t \<in> snd ` set (fl_nodes f))"
proof (intro ballI impI)
  fix c assume c: "c \<in> node_cases w'" "p \<le> fc_ptr c"
  let ?s = "reader_new fmap existing libs p"
  obtain w2 w3 where rf: "read_files fuel env filename (?s, w) = Inr (s, w2)"
    and t: "foldX (add_target_execute s f) (rd_targets s) w2 = Inr w3"
    and h: "foldX (set_error_handler_execute f) (rd_handlers s) w3 = Inr w'"
    using assms(2) by (auto simp: xml_read_def reader_read_files bindX_eq_Inr split: prod.splits)
  have "reads p (?s, w) (read_files fuel env filename (?s, w))"
    using assms(1) by (intro read_files_reads) (simp_all add: unread_new, simp add: reader_new_def)
  moreover have "tracked p ?s w"
    using assms(3) by (auto simp: tracked_def reader_new_def all_cases_def key_of_def)
  ultimately have tr: "tracked p s w2"
    using rf by (simp add: reads_def advance_def)
  then have d: "distinct (map at_case (rd_targets s))"
    by (simp add: tracked_def)
  have c3: "c \<in> node_cases w3"
    using c(1) handlers_cases[OF h] by (simp add: node_cases_def)
  then have "key_of c \<in> key_of ` node_cases w2"
    using targets_executed[OF t d] by blast
  then have "key_of c \<in> {k \<in> key_of ` all_cases s w2. p \<le> fst k}"
    using c(2) by (auto simp: all_cases_def key_of_def)
  then obtain at where at: "at \<in> set (rd_targets s)" "fc_ptr c = at_case at" "fc_targetname c = at_name at"
    using tr unfolding tracked_def by (auto simp: key_of_def)
  then obtain n where n: "fc_target c = Some n" "flow_get_node (fc_targetname c) f = Some n"
    using targets_executed[OF t d] c3 at by metis
  then have "n \<in> snd ` set (fl_nodes f)"
    unfolding flow_get_node_def map_find_map_of by (force dest: map_of_SomeD)
  then show "\<exists>t. fc_target c = Some t \<and> flow_get_node (fc_targetname c) f = Some t \<and> t \<in> snd ` set (fl_nodes f)"
    using n by blast
qed


section \<open>Documents read\<close>

text \<open>A plugin that depends on itself, and a document with one source that is its own successor.\<close>

definition bare_maps :: fmaps where
  "bare_maps = \<lparr> fm_cond = [], fm_create = [\<lparr> me_scope = None, me_map = [] \<rparr>], fm_create_door = [], fm_guard_trans = [],
     fm_atom = [], fm_io = [\<lparr> ie_from = None, ie_to = [], ie_fun = None \<rparr>] \<rparr>"

definition doc_env :: "string list \<Rightarrow> xevent list \<Rightarrow> nat renv" where
  "doc_env plugins doc = \<lparr> re_plugins = plugins, re_parse = (\<lambda>fl. Some (doc, True)), re_dlopen = (\<lambda>_. None),
     re_dlsym = (\<lambda>_ _. None), re_ffm = (\<lambda>_. bare_maps), re_amap = (\<lambda>_. GTrivial 0), re_libdir = ''.'' \<rparr>"

definition loop_doc :: "xevent list" where
  "loop_doc = [XStart ''flow'' [(''name'', ''f'')], XStart ''depend'' [(''name'', ''p'')]]"

definition self_doc :: "xevent list" where
  "self_doc = [XStart ''flow'' [(''name'', ''f.xml'')],
     XStart ''node'' [(''name'', ''S''), (''function'', ''s''), (''external'', ''false''), (''iserrhandler'', ''false''),
       (''source'', ''true''), (''detached'', ''false''), (''inputunionhash'', ''i''), (''outputunionhash'', ''o'')],
     XStart ''successorlist'' [], XStart ''successor'' [(''name'', ''0'')], XStart ''case'' [(''nodetarget'', ''S'')],
     XEnd ''case'', XEnd ''successor'', XEnd ''successorlist'', XEnd ''node'', XEnd ''flow'']"

lemma reading_ends_witness:
  "card (canonize ` set [''/p.xml'']) < 2 \<and>
     xml_read 2 (doc_env [''/p.xml''] loop_doc) bare_maps (\<lambda>_. library_new [] []) 1 ''/m.xml'' None ex_flow_world \<noteq> Inl RDOutOfFuel"
  using reading_ends[of "doc_env [''/p.xml''] loop_doc" 2 bare_maps "\<lambda>_. library_new [] []" 1 "''/m.xml''" None ex_flow_world]
  by (simp add: doc_env_def)

lemma loop_doc_read:
  "(case xml_read 3 (doc_env [''/p.xml''] loop_doc) bare_maps (\<lambda>_. library_new [] []) 1 ''/m.xml'' None ex_flow_world of
     Inl e \<Rightarrow> e = RDException ''/p.xml circular dependency -- already loading'' | Inr _ \<Rightarrow> False)"
  by (code_simp)

lemma self_doc_read:
  "(case xml_read 1 (doc_env [] self_doc) bare_maps (\<lambda>_. library_new [] []) 10 ''/m.xml'' None ex_flow_world of
     Inl e \<Rightarrow> False | Inr (f, s, w') \<Rightarrow> fl_nodes f = [(''S'', 10)] \<and>
       map_option (map (map fc_target \<circ> su_cases \<circ> snd)) (fn_succ (fw_nodes w' 10)) = Some [[Some 10]])"
  by (code_simp)

lemma reader_links_cases_witness:
  "\<exists>f s w'. xml_read 1 (doc_env [] self_doc) bare_maps (\<lambda>_. library_new [] []) 10 ''/m.xml'' None ex_flow_world = Inr (f, s, w') \<and>
     (\<forall>c\<in>node_cases w'. 10 \<le> fc_ptr c \<longrightarrow>
        (\<exists>t. fc_target c = Some t \<and> flow_get_node (fc_targetname c) f = Some t \<and> t \<in> snd ` set (fl_nodes f)))"
proof -
  obtain f s w' where r: "xml_read 1 (doc_env [] self_doc) bare_maps (\<lambda>_. library_new [] []) 10 ''/m.xml'' None ex_flow_world = Inr (f, s, w')"
    using self_doc_read by (auto split: sum.splits)
  have old: "nd_cases (ex_nodes n) \<subseteq> {ex_case 6 3 ''A'', ex_case 7 3 ''A'', ex_case 8 2 ''S''}" for n
    by (auto simp: ex_nodes_def ex_node_def nd_cases_def sl_cases_def)
  have "\<forall>c\<in>node_cases ex_flow_world. fc_ptr c < 10"
  proof
    fix c assume "c \<in> node_cases ex_flow_world"
    then obtain n where "c \<in> nd_cases (ex_nodes n)"
      by (auto simp: node_cases_def ex_flow_world_def)
    then show "fc_ptr c < 10"
      using old[of n] by (auto simp: ex_case_def case_new_def)
  qed
  then show ?thesis
    using reader_links_cases[OF _ r] r by (simp add: doc_env_def)
qed

end
