(* ===== verification/WorkStealing.thy ===== *)
theory WorkStealing
  imports Prelude "HOL-Library.Multiset"
begin

text \<open>
  runtime/lockfree/OFluxWorkStealingDeque.h: the work-stealing deque of a lock-free runtime thread.  Its
  owner pushes and pops at the bottom, any other thread steals at the top.  A step is one access to the
  shared indexes or the shared array (in the order the barriers of the code keep), so the steps of the
  owner and of the thieves interleave freely.  The deque is shown to be, step by step, a queue of
  elements: nothing is lost and nothing is taken twice.
\<close>

section \<open>The circular array\<close>

text \<open>A cell holds \<open>None\<close> (anything) until it is first written.  Indexes are unbounded integers: the code counts in
  64 bits and never wraps in practice.\<close>

record 'a carray =
  ca_log_size :: nat
  ca_data :: "int \<Rightarrow> 'a option"

definition ca_new :: "nat \<Rightarrow> 'a carray" where
  "ca_new log_size = \<lparr> ca_log_size = log_size, ca_data = \<lambda>_. None \<rparr>"

definition ca_size :: "'a carray \<Rightarrow> int" where
  "ca_size a = 2 ^ ca_log_size a"

definition ca_get :: "int \<Rightarrow> 'a carray \<Rightarrow> 'a option" where
  "ca_get i a = ca_data a (i mod ca_size a)"

definition ca_put :: "int \<Rightarrow> 'a option \<Rightarrow> 'a carray \<Rightarrow> 'a carray" where
  "ca_put i v a = a\<lparr> ca_data := (ca_data a)(i mod ca_size a := v) \<rparr>"

definition ca_grow :: "int \<Rightarrow> int \<Rightarrow> 'a carray \<Rightarrow> 'a carray" where
  "ca_grow b t a = fold (\<lambda>i r. ca_put i (ca_get i a) r) [t..b - 1] (ca_new (ca_log_size a + 1))"

section \<open>The deque\<close>

text \<open>Arrays are never freed while the deque lives (each keeps the one it replaced), so a thief may still
  read an array that has been replaced.\<close>

datatype 'a owner_pc = OIdle | OPushRoom 'a int int | OPushPut 'a int | OPushPublish 'a int
  | OPopTop int | OPopEmpty int | OPopCas int "'a option" | OPopFix int

datatype thief_pc = TIdle | TBottom int | TArray int int

datatype 'a thief = Thief0 thief_pc | ThiefGet int nat | ThiefCas int "'a option"

record 'a wsd =
  ws_bottom :: int
  ws_top :: int
  ws_arrays :: "nat \<Rightarrow> 'a carray"
  ws_active :: nat
  ws_owner :: "'a owner_pc"
  ws_thief :: "nat \<Rightarrow> 'a thief"

definition ws_new :: "'a wsd" where
  "ws_new = \<lparr> ws_bottom = 0, ws_top = 0, ws_arrays = \<lambda>_. ca_new 8, ws_active = 0, ws_owner = OIdle, ws_thief = \<lambda>_. Thief0 TIdle \<rparr>"

definition ws_array :: "'a wsd \<Rightarrow> 'a carray" where
  "ws_array s = ws_arrays s (ws_active s)"

definition cas_top :: "int \<Rightarrow> int \<Rightarrow> 'a wsd \<Rightarrow> bool \<times> 'a wsd" where
  "cas_top old new s = (if ws_top s = old then (True, s\<lparr> ws_top := new \<rparr>) else (False, s))"

text \<open>What a step tells the outside: an operation took effect, or (\<open>Internal\<close>) none did.\<close>

datatype 'a ws_event = Internal | Pushed 'a | Popped "'a option" | Stolen nat "'a option" | PopEmpty | StealEmpty nat | StealAbort nat

section \<open>The steps of pushBottom\<close>

definition push_begin :: "'a \<Rightarrow> 'a wsd \<Rightarrow> 'a wsd" where
  "push_begin e s = s\<lparr> ws_owner := OPushRoom e (ws_bottom s) (ws_top s) \<rparr>"

definition push_room :: "'a \<Rightarrow> int \<Rightarrow> int \<Rightarrow> 'a wsd \<Rightarrow> 'a wsd" where
  "push_room e b t s =
     (let a = ws_array s; size = b - t; s1 = s\<lparr> ws_owner := OPushPut e b \<rparr> in
      if size \<ge> ca_size a - 1
      then s1\<lparr> ws_arrays := (ws_arrays s)(Suc (ws_active s) := ca_grow b t a), ws_active := Suc (ws_active s) \<rparr>
      else s1)"

definition push_put :: "'a \<Rightarrow> int \<Rightarrow> 'a wsd \<Rightarrow> 'a wsd" where
  "push_put e b s = s\<lparr> ws_arrays := (ws_arrays s)(ws_active s := ca_put b (Some e) (ws_array s)), ws_owner := OPushPublish e b \<rparr>"

definition push_publish :: "'a \<Rightarrow> int \<Rightarrow> 'a wsd \<Rightarrow> 'a wsd" where
  "push_publish e b s = s\<lparr> ws_bottom := b + 1, ws_owner := OIdle \<rparr>"

section \<open>The steps of popBottom\<close>

definition pop_begin :: "'a wsd \<Rightarrow> 'a wsd" where
  "pop_begin s = (let b = ws_bottom s - 1 in s\<lparr> ws_bottom := b, ws_owner := OPopTop b \<rparr>)"

definition pop_top :: "int \<Rightarrow> 'a wsd \<Rightarrow> 'a ws_event \<times> 'a wsd" where
  "pop_top b s =
     (let t = ws_top s; size = b - t in
      if size < 0 then (PopEmpty, s\<lparr> ws_owner := OPopEmpty t \<rparr>)
      else let e = ca_get b (ws_array s) in
        if size > 0 then (Popped e, s\<lparr> ws_owner := OIdle \<rparr>) else (Internal, s\<lparr> ws_owner := OPopCas t e \<rparr>))"

definition pop_empty :: "int \<Rightarrow> 'a wsd \<Rightarrow> 'a wsd" where
  "pop_empty t s = s\<lparr> ws_bottom := t, ws_owner := OIdle \<rparr>"

definition pop_cas :: "int \<Rightarrow> 'a option \<Rightarrow> 'a wsd \<Rightarrow> 'a ws_event \<times> 'a wsd" where
  "pop_cas t e s = (case cas_top t (t + 1) s of (ok, s1) \<Rightarrow>
     (if ok then Popped e else PopEmpty, s1\<lparr> ws_owner := OPopFix t \<rparr>))"

definition pop_fix :: "int \<Rightarrow> 'a wsd \<Rightarrow> 'a wsd" where
  "pop_fix t s = s\<lparr> ws_bottom := t + 1, ws_owner := OIdle \<rparr>"

section \<open>The steps of steal\<close>

definition set_thief :: "nat \<Rightarrow> 'a thief \<Rightarrow> 'a wsd \<Rightarrow> 'a wsd" where
  "set_thief i p s = s\<lparr> ws_thief := (ws_thief s)(i := p) \<rparr>"

definition steal_top :: "nat \<Rightarrow> 'a wsd \<Rightarrow> 'a wsd" where
  "steal_top i s = set_thief i (Thief0 (TBottom (ws_top s))) s"

definition steal_bottom :: "nat \<Rightarrow> int \<Rightarrow> 'a wsd \<Rightarrow> 'a wsd" where
  "steal_bottom i t s = set_thief i (Thief0 (TArray t (ws_bottom s))) s"

definition steal_array :: "nat \<Rightarrow> int \<Rightarrow> int \<Rightarrow> 'a wsd \<Rightarrow> 'a ws_event \<times> 'a wsd" where
  "steal_array i t b s = (let a = ws_active s; size = b - t in
     if size \<le> 0 then (StealEmpty i, set_thief i (Thief0 TIdle) s) else (Internal, set_thief i (ThiefGet t a) s))"

definition steal_get :: "nat \<Rightarrow> int \<Rightarrow> nat \<Rightarrow> 'a wsd \<Rightarrow> 'a wsd" where
  "steal_get i t a s = set_thief i (ThiefCas t (ca_get t (ws_arrays s a))) s"

definition steal_cas :: "nat \<Rightarrow> int \<Rightarrow> 'a option \<Rightarrow> 'a wsd \<Rightarrow> 'a ws_event \<times> 'a wsd" where
  "steal_cas i t e s = (case cas_top t (t + 1) s of (ok, s1) \<Rightarrow>
     (if ok then Stolen i e else StealAbort i, set_thief i (Thief0 TIdle) s1))"

section \<open>Runs\<close>

inductive ws_step :: "'a wsd \<Rightarrow> 'a ws_event \<Rightarrow> 'a wsd \<Rightarrow> bool" where
  "ws_owner s = OIdle \<Longrightarrow> ws_step s Internal (push_begin e s)"
| "ws_owner s = OPushRoom e b t \<Longrightarrow> ws_step s Internal (push_room e b t s)"
| "ws_owner s = OPushPut e b \<Longrightarrow> ws_step s Internal (push_put e b s)"
| "ws_owner s = OPushPublish e b \<Longrightarrow> ws_step s (Pushed e) (push_publish e b s)"
| "ws_owner s = OIdle \<Longrightarrow> ws_step s Internal (pop_begin s)"
| "ws_owner s = OPopTop b \<Longrightarrow> pop_top b s = (ev, s') \<Longrightarrow> ws_step s ev s'"
| "ws_owner s = OPopEmpty t \<Longrightarrow> ws_step s Internal (pop_empty t s)"
| "ws_owner s = OPopCas t e \<Longrightarrow> pop_cas t e s = (ev, s') \<Longrightarrow> ws_step s ev s'"
| "ws_owner s = OPopFix t \<Longrightarrow> ws_step s Internal (pop_fix t s)"
| "ws_thief s i = Thief0 TIdle \<Longrightarrow> ws_step s Internal (steal_top i s)"
| "ws_thief s i = Thief0 (TBottom t) \<Longrightarrow> ws_step s Internal (steal_bottom i t s)"
| "ws_thief s i = Thief0 (TArray t b) \<Longrightarrow> steal_array i t b s = (ev, s') \<Longrightarrow> ws_step s ev s'"
| "ws_thief s i = ThiefGet t a \<Longrightarrow> ws_step s Internal (steal_get i t a s)"
| "ws_thief s i = ThiefCas t e \<Longrightarrow> steal_cas i t e s = (ev, s') \<Longrightarrow> ws_step s ev s'"

text \<open>The events of a run, oldest first.\<close>

inductive ws_run :: "'a wsd \<Rightarrow> 'a ws_event list \<Rightarrow> 'a wsd \<Rightarrow> bool" where
  ws_run_Nil: "ws_run s [] s"
| ws_run_snoc: "ws_run s evs s' \<Longrightarrow> ws_step s' ev s'' \<Longrightarrow> ws_run s (evs @ [ev]) s''"

section \<open>The elements in the deque\<close>

text \<open>Where the elements end: the owner has already lowered the bottom while it works on the last element.\<close>

definition ws_end :: "'a wsd \<Rightarrow> int" where
  "ws_end s = (case ws_owner s of OPopTop b \<Rightarrow> b + 1 | OPopEmpty t \<Rightarrow> t | OPopCas t e \<Rightarrow> t + 1 | OPopFix t \<Rightarrow> t + 1
     | _ \<Rightarrow> ws_bottom s)"

definition ws_abs :: "'a wsd \<Rightarrow> 'a list" where
  "ws_abs s = map (\<lambda>i. the (ca_get i (ws_array s))) [ws_top s..ws_end s - 1]"

definition owner_ok :: "'a wsd \<Rightarrow> bool" where
  "owner_ok s \<longleftrightarrow> (case ws_owner s of
      OIdle \<Rightarrow> True
    | OPushRoom e b t \<Rightarrow> b = ws_bottom s \<and> t \<le> ws_top s \<and> b - t < ca_size (ws_array s)
    | OPushPut e b \<Rightarrow> b = ws_bottom s \<and> b - ws_top s < ca_size (ws_array s) - 1
    | OPushPublish e b \<Rightarrow> b = ws_bottom s \<and> b - ws_top s < ca_size (ws_array s) - 1 \<and> ca_get b (ws_array s) = Some e
    | OPopTop b \<Rightarrow> ws_bottom s = b
    | OPopEmpty t \<Rightarrow> ws_top s = t \<and> ws_bottom s = t - 1
    | OPopCas t e \<Rightarrow> ws_bottom s = t \<and> (ws_top s = t \<or> ws_top s = t + 1) \<and> e \<noteq> None \<and> e = ca_get t (ws_array s)
    | OPopFix t \<Rightarrow> ws_bottom s = t \<and> ws_top s = t + 1)"

text \<open>What a thief knows, as long as nobody has taken the element it is after.\<close>

definition thief_ok :: "'a wsd \<Rightarrow> 'a thief \<Rightarrow> bool" where
  "thief_ok s p \<longleftrightarrow> (case p of
      Thief0 TIdle \<Rightarrow> True
    | Thief0 (TBottom t) \<Rightarrow> t \<le> ws_top s
    | Thief0 (TArray t b) \<Rightarrow> t \<le> ws_top s \<and> (t = ws_top s \<and> t < b \<longrightarrow> t < ws_end s)
    | ThiefGet t a \<Rightarrow> t \<le> ws_top s \<and> (t = ws_top s \<longrightarrow> t < ws_end s \<and> ca_get t (ws_arrays s a) = ca_get t (ws_array s))
        \<and> a \<le> ws_active s
    | ThiefCas t e \<Rightarrow> t \<le> ws_top s \<and> (t = ws_top s \<longrightarrow> t < ws_end s \<and> e = ca_get t (ws_array s)))"

definition ws_inv :: "'a wsd \<Rightarrow> bool" where
  "ws_inv s \<longleftrightarrow> 0 \<le> ws_top s \<and> ws_top s \<le> ws_end s \<and> ws_end s - ws_top s < ca_size (ws_array s) \<and>
     (\<forall>i. ws_top s \<le> i \<and> i < ws_end s \<longrightarrow> ca_get i (ws_array s) \<noteq> None) \<and>
     owner_ok s \<and> (\<forall>i. thief_ok s (ws_thief s i))"

section \<open>The array\<close>

lemma ca_size_pos [simp]: "0 < ca_size a"
  by (simp add: ca_size_def)

lemma ca_size_put [simp]: "ca_size (ca_put i v a) = ca_size a"
  by (simp add: ca_size_def ca_put_def)

lemma ca_get_put: "ca_get i (ca_put j v a) = (if i mod ca_size a = j mod ca_size a then v else ca_get i a)"
  by (simp add: ca_get_def ca_put_def ca_size_def)

lemma mod_close:
  fixes i j n :: int
  assumes "i mod n = j mod n" "\<bar>i - j\<bar> < n"
  shows "i = j"
proof -
  have d: "n dvd i - j" "n dvd j - i"
    using assms(1) by (simp_all add: mod_eq_dvd_iff[symmetric])
  show ?thesis
  proof (cases i j rule: linorder_cases)
    case less
    then show ?thesis
      using zdvd_not_zless[of "j - i" n] d assms(2) by linarith
  next
    case greater
    then show ?thesis
      using zdvd_not_zless[of "i - j" n] d assms(2) by linarith
  qed
qed

lemma ca_get_put_other: "i \<noteq> j \<Longrightarrow> \<bar>i - j\<bar> < ca_size a \<Longrightarrow> ca_get i (ca_put j v a) = ca_get i a"
  using mod_close[of i "ca_size a" j] by (auto simp: ca_get_put)

lemma ca_grow_fold:
  fixes a r :: "'a carray"
  assumes "b - t \<le> ca_size r" "i \<in> {t..<b}"
  shows "ca_get i (fold (\<lambda>i r. ca_put i (ca_get i a) r) [t..b - 1] r) = ca_get i a"
proof -
  define f :: "int \<Rightarrow> 'a carray \<Rightarrow> 'a carray" where "f = (\<lambda>i r. ca_put i (ca_get i a) r)"
  have size: "ca_size (fold f xs r) = ca_size r" for xs r
    by (induction xs arbitrary: r) (simp_all add: f_def)
  have keep: "i \<notin> set xs \<Longrightarrow> (\<forall>x\<in>set xs. \<bar>i - x\<bar> < ca_size r) \<Longrightarrow> ca_get i (fold f xs r) = ca_get i r" for xs r
  proof (induction xs arbitrary: r)
    case (Cons x xs)
    then show ?case
      using ca_get_put_other[of i x r "ca_get x a"] by (simp add: f_def)
  qed simp
  have "[t..b - 1] = [t..i - 1] @ i # [i + 1..b - 1]"
    using assms(2) by (metis atLeastLessThan_iff upto_split3 zle_diff1_eq)
  then show ?thesis
    using keep[of "[i + 1..b - 1]" "f i (fold f [t..i - 1] r)"] assms size
    unfolding f_def[symmetric] by (auto simp: f_def ca_get_put)
qed

lemma ca_size_grow [simp]: "ca_size (ca_grow b t a) = 2 * ca_size a"
proof -
  have "ca_size (fold (\<lambda>i r. ca_put i (ca_get i a) r) xs r) = ca_size r" for xs r
    by (induction xs arbitrary: r) simp_all
  then show ?thesis
    by (simp add: ca_grow_def ca_size_def ca_new_def)
qed

lemma ca_get_grow: "t \<le> i \<Longrightarrow> i < b \<Longrightarrow> b - t \<le> 2 * ca_size a \<Longrightarrow> ca_get i (ca_grow b t a) = ca_get i a"
  unfolding ca_grow_def by (rule ca_grow_fold) (simp_all add: ca_size_def ca_new_def)

section \<open>Every step keeps the invariant and changes the elements as it should\<close>

definition ws_effect :: "'a list \<Rightarrow> 'a ws_event \<Rightarrow> 'a list \<Rightarrow> bool" where
  "ws_effect xs ev ys \<longleftrightarrow> (case ev of
      Pushed e \<Rightarrow> ys = xs @ [e]
    | Popped v \<Rightarrow> (\<exists>e. v = Some e \<and> xs = ys @ [e])
    | Stolen i v \<Rightarrow> (\<exists>e. v = Some e \<and> xs = e # ys)
    | PopEmpty \<Rightarrow> xs = [] \<and> ys = []
    | _ \<Rightarrow> ys = xs)"

definition ws_good :: "'a wsd \<Rightarrow> 'a ws_event \<Rightarrow> 'a wsd \<Rightarrow> bool" where
  "ws_good s ev s' \<longleftrightarrow> ws_inv s' \<and> ws_effect (ws_abs s) ev (ws_abs s')"

lemma ws_invD:
  assumes "ws_inv s"
  shows "0 \<le> ws_top s" "ws_top s \<le> ws_end s" "ws_end s - ws_top s < ca_size (ws_array s)"
    "ws_top s \<le> j \<Longrightarrow> j < ws_end s \<Longrightarrow> ca_get j (ws_array s) \<noteq> None" "owner_ok s" "thief_ok s (ws_thief s i)"
  using assms by (simp_all add: ws_inv_def)

text \<open>The owner moves on without touching what the thieves see of the elements.\<close>

lemma owner_moves:
  assumes "ws_inv s" "ws_top s' = ws_top s" "ws_arrays s' = ws_arrays s" "ws_active s' = ws_active s"
    and "ws_thief s' = ws_thief s" "ws_end s' = ws_end s" "owner_ok s'"
  shows "ws_inv s' \<and> ws_abs s' = ws_abs s"
proof -
  have a: "ws_array s' = ws_array s"
    using assms by (simp add: ws_array_def)
  have "thief_ok s' p = thief_ok s p" for p
    using assms a by (simp add: thief_ok_def split: thief.splits thief_pc.splits)
  then show ?thesis
    using assms a by (simp add: ws_inv_def ws_abs_def)
qed

lemma thief_moves:
  assumes "ws_inv s" "thief_ok s p"
  shows "ws_inv (set_thief i p s) \<and> ws_abs (set_thief i p s) = ws_abs s"
proof -
  have e: "ws_end (set_thief i p s) = ws_end s" "ws_array (set_thief i p s) = ws_array s"
    by (simp_all add: ws_end_def set_thief_def ws_array_def split: owner_pc.splits)
  have "owner_ok (set_thief i p s) = owner_ok s"
    using e(2) by (simp add: owner_ok_def set_thief_def split: owner_pc.splits)
  moreover have "thief_ok (set_thief i p s) q = thief_ok s q" for q
    using e by (simp add: thief_ok_def set_thief_def split: thief.splits thief_pc.splits)
  ultimately show ?thesis
    using assms e by (auto simp: ws_inv_def ws_abs_def set_thief_def)
qed

lemma ws_good_simps [simp]:
  "ws_good s Internal s' \<longleftrightarrow> ws_inv s' \<and> ws_abs s' = ws_abs s"
  "ws_good s (StealEmpty i) s' \<longleftrightarrow> ws_inv s' \<and> ws_abs s' = ws_abs s"
  "ws_good s (StealAbort i) s' \<longleftrightarrow> ws_inv s' \<and> ws_abs s' = ws_abs s"
  by (simp_all add: ws_good_def ws_effect_def)

lemma push_begin_good: "ws_inv s \<Longrightarrow> ws_owner s = OIdle \<Longrightarrow> ws_good s Internal (push_begin e s)"
  unfolding ws_good_simps
  by (rule owner_moves) (auto simp: push_begin_def ws_end_def owner_ok_def ws_inv_def ws_array_def)

lemma pop_begin_good: "ws_inv s \<Longrightarrow> ws_owner s = OIdle \<Longrightarrow> ws_good s Internal (pop_begin s)"
  unfolding ws_good_simps
  by (rule owner_moves) (auto simp: pop_begin_def ws_end_def owner_ok_def Let_def)

lemma pop_empty_good: "ws_inv s \<Longrightarrow> ws_owner s = OPopEmpty t \<Longrightarrow> ws_good s Internal (pop_empty t s)"
  unfolding ws_good_simps
  by (rule owner_moves) (auto simp: pop_empty_def ws_end_def owner_ok_def)

lemma pop_fix_good: "ws_inv s \<Longrightarrow> ws_owner s = OPopFix t \<Longrightarrow> ws_good s Internal (pop_fix t s)"
  unfolding ws_good_simps
  by (rule owner_moves) (auto simp: pop_fix_def ws_end_def owner_ok_def)

text \<open>Growing the array keeps the elements, and every thief still reads what it would have read.\<close>

lemma push_room_good:
  assumes inv: "ws_inv s" and o: "ws_owner s = OPushRoom e b t"
  shows "ws_good s Internal (push_room e b t s)"
proof (cases "b - t \<ge> ca_size (ws_array s) - 1")
  case False
  then have "ws_inv (push_room e b t s) \<and> ws_abs (push_room e b t s) = ws_abs s"
    using inv o ws_invD(5)[OF inv]
    by (intro owner_moves) (auto simp: push_room_def ws_end_def owner_ok_def Let_def ws_array_def)
  then show ?thesis
    by simp
next
  case True
  let ?s = "push_room e b t s"
  have o': "b = ws_bottom s" "t \<le> ws_top s" "b - t < ca_size (ws_array s)"
    using ws_invD(5)[OF inv] o by (simp_all add: owner_ok_def)
  have end': "ws_end ?s = b" "ws_end s = b" "ws_top ?s = ws_top s" "ws_thief ?s = ws_thief s"
    using o o' by (simp_all add: push_room_def ws_end_def Let_def)
  have arr: "ws_array ?s = ca_grow b t (ws_array s)"
    using True by (simp add: push_room_def Let_def ws_array_def)
  have cell: "ca_get i (ws_array ?s) = ca_get i (ws_array s)" if "ws_top s \<le> i" "i < b" for i
    unfolding arr using that o' by (intro ca_get_grow) auto
  have old: "ws_arrays ?s a = ws_arrays s a" if "a \<le> ws_active s" for a
    using that True by (simp add: push_room_def Let_def)
  have act: "ws_active s \<le> ws_active ?s"
    using True by (simp add: push_room_def Let_def)
  have "thief_ok ?s p" if "thief_ok s p" for p
    using that end' old act cell[of "ws_top s"]
    by (auto simp: thief_ok_def split: thief.splits thief_pc.splits)
  moreover have "owner_ok ?s"
    using o o' True ws_invD(1-3)[OF inv] end' arr by (simp add: owner_ok_def push_room_def Let_def)
  ultimately have "ws_inv ?s"
    using ws_invD[OF inv] end' cell arr by (auto simp: ws_inv_def)
  moreover have "ws_abs ?s = ws_abs s"
    using end' cell by (simp add: ws_abs_def)
  ultimately show ?thesis
    by simp
qed

lemma push_put_good:
  assumes inv: "ws_inv s" and o: "ws_owner s = OPushPut e b"
  shows "ws_good s Internal (push_put e b s)"
proof -
  let ?s = "push_put e b s"
  have o': "b = ws_bottom s" "b - ws_top s < ca_size (ws_array s) - 1"
    using ws_invD(5)[OF inv] o by (simp_all add: owner_ok_def)
  have end': "ws_end ?s = b" "ws_end s = b" "ws_top ?s = ws_top s" "ws_thief ?s = ws_thief s"
    using o o' by (simp_all add: push_put_def ws_end_def)
  have arr: "ws_array ?s = ca_put b (Some e) (ws_array s)"
    by (simp add: push_put_def ws_array_def)
  have cell: "ca_get i (ws_array ?s) = ca_get i (ws_array s)" if "ws_top s \<le> i" "i < b" for i
    unfolding arr using that o' by (intro ca_get_put_other) auto
  have get: "ca_get (ws_top s) (ws_arrays ?s a) = ca_get (ws_top s) (ws_array ?s)"
    if "ca_get (ws_top s) (ws_arrays s a) = ca_get (ws_top s) (ws_array s)" "ws_top s < b" for a
    using that cell[of "ws_top s"] by (cases "a = ws_active s") (auto simp: push_put_def ws_array_def)
  have active: "ws_active ?s = ws_active s"
    by (simp add: push_put_def)
  have "thief_ok ?s p" if "thief_ok s p" for p
  proof (cases p)
    case (ThiefGet t a)
    then show ?thesis
      using that end' get[of a] active by (auto simp: thief_ok_def)
  qed (use that end' cell[of "ws_top s"] in \<open>auto simp: thief_ok_def split: thief_pc.splits\<close>)
  moreover have "owner_ok ?s"
    using o' by (simp add: owner_ok_def push_put_def ws_array_def ca_get_put)
  ultimately have "ws_inv ?s"
    using ws_invD[OF inv] end' cell arr by (auto simp: ws_inv_def)
  moreover have "ws_abs ?s = ws_abs s"
    using end' cell by (simp add: ws_abs_def)
  ultimately show ?thesis
    by simp
qed

lemma push_publish_good:
  assumes inv: "ws_inv s" and o: "ws_owner s = OPushPublish e b"
  shows "ws_good s (Pushed e) (push_publish e b s)"
proof -
  let ?s = "push_publish e b s"
  have o': "b = ws_bottom s" "b - ws_top s < ca_size (ws_array s) - 1" "ca_get b (ws_array s) = Some e"
    using ws_invD(5)[OF inv] unfolding owner_ok_def o owner_pc.case by blast+
  have end': "ws_end ?s = b + 1" "ws_end s = b" "ws_top ?s = ws_top s" "ws_thief ?s = ws_thief s"
    "ws_array ?s = ws_array s" "ws_arrays ?s = ws_arrays s" "ws_active ?s = ws_active s"
    using o o' by (simp_all add: push_publish_def ws_end_def ws_array_def)
  have "thief_ok ?s p" if "thief_ok s p" for p
    using that end' by (auto simp: thief_ok_def split: thief.splits thief_pc.splits)
  moreover have "owner_ok ?s"
    by (simp add: owner_ok_def push_publish_def)
  moreover have "ca_get i (ws_array s) \<noteq> None" if "ws_top s \<le> i" "i < b + 1" for i
    using ws_invD(4)[OF inv, of i] that end'(2) o'(3) by (cases "i = b") auto
  ultimately have "ws_inv ?s"
    using ws_invD[OF inv] end' o' by (auto simp: ws_inv_def)
  moreover have "ws_abs ?s = ws_abs s @ [e]"
    using end' o' ws_invD(2)[OF inv] by (simp add: ws_abs_def upto_rec2[of "ws_top s" "ws_bottom s"])
  ultimately show ?thesis
    by (simp add: ws_good_def ws_effect_def)
qed

text \<open>The owner takes the last element without a race when a thief cannot be after it.\<close>

lemma pop_top_good:
  assumes inv: "ws_inv s" and o: "ws_owner s = OPopTop b" and p: "pop_top b s = (ev, s')"
  shows "ws_good s ev s'"
proof -
  have b: "ws_bottom s = b" "ws_end s = b + 1"
    using ws_invD(5)[OF inv] o by (simp_all add: owner_ok_def ws_end_def)
  have range: "ws_top s \<le> b + 1"
    using ws_invD(2)[OF inv] b by simp
  consider "b < ws_top s" | "b = ws_top s" | "b > ws_top s"
    by linarith
  then show ?thesis
  proof cases
    case 1
    then have s': "ev = PopEmpty" "s' = s\<lparr> ws_owner := OPopEmpty (ws_top s) \<rparr>"
      using p by (simp_all add: pop_top_def Let_def)
    have "ws_inv s' \<and> ws_abs s' = ws_abs s"
      unfolding s' using 1 b range by (intro owner_moves[OF inv]) (auto simp: ws_end_def o owner_ok_def)
    then show ?thesis
      using s'(1) 1 b by (simp add: ws_good_def ws_effect_def) (simp add: ws_abs_def)
  next
    case 2
    then have s': "ev = Internal" "s' = s\<lparr> ws_owner := OPopCas b (ca_get b (ws_array s)) \<rparr>"
      using p by (simp_all add: pop_top_def Let_def)
    have "ws_inv s' \<and> ws_abs s' = ws_abs s"
      unfolding s' using 2 b ws_invD(4)[OF inv, of b]
      by (intro owner_moves[OF inv]) (auto simp: ws_end_def o owner_ok_def ws_array_def)
    then show ?thesis
      using s'(1) by simp
  next
    case 3
    then have s': "ev = Popped (ca_get b (ws_array s))" "s' = s\<lparr> ws_owner := OIdle \<rparr>"
      using p by (simp_all add: pop_top_def Let_def)
    obtain e where e: "ca_get b (ws_array s) = Some e"
      using ws_invD(4)[OF inv, of b] 3 b by auto
    have end': "ws_end s' = b" "ws_array s' = ws_array s"
      using s' b by (simp_all add: ws_end_def ws_array_def)
    have "thief_ok s' q" if "thief_ok s q" for q
      using that end' 3 b by (auto simp: thief_ok_def s' ws_array_def split: thief.splits thief_pc.splits)
    then have "ws_inv s'"
      using ws_invD[OF inv] end' b 3 by (auto simp: ws_inv_def s' owner_ok_def)
    moreover have "ws_abs s = ws_abs s' @ [e]"
      using end' b e 3 by (simp add: ws_abs_def s'(2) upto_rec2[of "ws_top s" b])
    ultimately show ?thesis
      using s'(1) e by (simp add: ws_good_def ws_effect_def)
  qed
qed

lemma top_advances:
  assumes inv: "ws_inv s" and t: "ws_top s < ws_end s" and o: "owner_ok (s\<lparr> ws_top := ws_top s + 1 \<rparr>)"
  shows "ws_inv (s\<lparr> ws_top := ws_top s + 1 \<rparr>)" "ws_abs s = the (ca_get (ws_top s) (ws_array s)) # ws_abs (s\<lparr> ws_top := ws_top s + 1 \<rparr>)"
proof -
  let ?s = "s\<lparr> ws_top := ws_top s + 1 \<rparr>"
  have end': "ws_end ?s = ws_end s" "ws_array ?s = ws_array s"
    by (simp_all add: ws_end_def ws_array_def split: owner_pc.splits)
  have "thief_ok ?s p" if "thief_ok s p" for p
    using that by (auto simp: thief_ok_def split: thief.splits thief_pc.splits)
  then show "ws_inv ?s"
    using ws_invD[OF inv] end' t o by (auto simp: ws_inv_def)
  show "ws_abs s = the (ca_get (ws_top s) (ws_array s)) # ws_abs ?s"
    using t end' by (simp add: ws_abs_def upto_rec1[of "ws_top s"])
qed

lemma cas_top_simps: "cas_top t (t + 1) s = (if ws_top s = t then (True, s\<lparr> ws_top := ws_top s + 1 \<rparr>) else (False, s))"
  by (auto simp: cas_top_def)

lemma pop_cas_good:
  assumes inv: "ws_inv s" and o: "ws_owner s = OPopCas t e" and p: "pop_cas t e s = (ev, s')"
  shows "ws_good s ev s'"
proof -
  have o': "ws_bottom s = t" "ws_top s = t \<or> ws_top s = t + 1" "e \<noteq> None" "e = ca_get t (ws_array s)"
    using ws_invD(5)[OF inv] unfolding owner_ok_def o owner_pc.case by blast+
  have e: "ws_end s = t + 1"
    using o by (simp add: ws_end_def)
  show ?thesis
  proof (cases "ws_top s = t")
    case True
    let ?s = "s\<lparr> ws_top := ws_top s + 1 \<rparr>"
    have ok: "owner_ok ?s"
      using o o' True by (auto simp: owner_ok_def ws_array_def)
    have adv: "ws_inv ?s" "ws_abs s = the e # ws_abs ?s"
      using top_advances[OF inv _ ok] True e o'(4) by simp_all
    have "ws_inv s' \<and> ws_abs s' = ws_abs ?s"
      using p True o o' by (intro owner_moves[OF adv(1)]) (auto simp: pop_cas_def cas_top_simps ws_end_def owner_ok_def)
    moreover have "ws_abs ?s = []"
      using True e by (simp add: ws_abs_def ws_end_def o)
    ultimately show ?thesis
      using p True adv o' by (auto simp: ws_good_def ws_effect_def pop_cas_def cas_top_simps)
  next
    case False
    then have s': "ev = PopEmpty" "s' = s\<lparr> ws_owner := OPopFix t \<rparr>"
      using p by (simp_all add: pop_cas_def cas_top_simps)
    have "ws_inv s' \<and> ws_abs s' = ws_abs s"
      unfolding s' using False o o' by (intro owner_moves[OF inv]) (auto simp: ws_end_def owner_ok_def)
    then show ?thesis
      using s'(1) False o' e by (auto simp: ws_good_def ws_effect_def ws_abs_def)
  qed
qed

lemma steal_start_good:
  "ws_inv s \<Longrightarrow> ws_good s Internal (steal_top i s)"
  "ws_inv s \<Longrightarrow> ws_thief s i = Thief0 (TBottom t) \<Longrightarrow> ws_good s Internal (steal_bottom i t s)"
proof -
  assume inv: "ws_inv s"
  show "ws_good s Internal (steal_top i s)"
    unfolding ws_good_simps steal_top_def by (rule thief_moves[OF inv]) (simp add: thief_ok_def)
  assume "ws_thief s i = Thief0 (TBottom t)"
  then have "t \<le> ws_top s"
    using ws_invD(6)[OF inv, of i] by (simp add: thief_ok_def)
  moreover have "ws_bottom s \<le> ws_end s"
    using ws_invD(5)[OF inv] by (simp add: ws_end_def owner_ok_def split: owner_pc.splits)
  ultimately show "ws_good s Internal (steal_bottom i t s)"
    unfolding ws_good_simps steal_bottom_def by (intro thief_moves[OF inv]) (simp add: thief_ok_def)
qed

lemma steal_array_good:
  assumes inv: "ws_inv s" and th: "ws_thief s i = Thief0 (TArray t b)" and p: "steal_array i t b s = (ev, s')"
  shows "ws_good s ev s'"
proof (cases "b - t \<le> 0")
  case True
  then show ?thesis
    using p thief_moves[OF inv, of "Thief0 TIdle" i] by (auto simp: steal_array_def Let_def thief_ok_def)
next
  case False
  have "thief_ok s (ThiefGet t (ws_active s))"
    using ws_invD(6)[OF inv, of i] th False by (auto simp: thief_ok_def ws_array_def)
  then show ?thesis
    using p False thief_moves[OF inv] by (auto simp: steal_array_def Let_def)
qed

lemma steal_get_good:
  assumes inv: "ws_inv s" and th: "ws_thief s i = ThiefGet t a"
  shows "ws_good s Internal (steal_get i t a s)"
proof -
  have "thief_ok s (ThiefCas t (ca_get t (ws_arrays s a)))"
    using ws_invD(6)[OF inv, of i] th by (simp add: thief_ok_def)
  then show ?thesis
    unfolding ws_good_simps steal_get_def by (rule thief_moves[OF inv])
qed

lemma steal_cas_good:
  assumes inv: "ws_inv s" and th: "ws_thief s i = ThiefCas t e" and p: "steal_cas i t e s = (ev, s')"
  shows "ws_good s ev s'"
proof (cases "ws_top s = t")
  case True
  let ?s = "s\<lparr> ws_top := ws_top s + 1 \<rparr>"
  have t: "t < ws_end s" "e = ca_get t (ws_array s)"
    using ws_invD(6)[OF inv, of i] th True by (simp_all add: thief_ok_def)
  then obtain v where v: "ca_get t (ws_array s) = Some v"
    using ws_invD(4)[OF inv, of t] True by auto
  have "owner_ok ?s"
    using ws_invD(5)[OF inv] t True by (auto simp: owner_ok_def ws_array_def ws_end_def split: owner_pc.splits)
  note adv = top_advances[OF inv _ this]
  have "ws_inv (set_thief i (Thief0 TIdle) ?s) \<and> ws_abs (set_thief i (Thief0 TIdle) ?s) = ws_abs ?s"
    by (rule thief_moves) (use adv t True in \<open>auto simp: thief_ok_def\<close>)
  then show ?thesis
    using p True adv t v by (auto simp: steal_cas_def cas_top_simps ws_good_def ws_effect_def)
next
  case False
  then show ?thesis
    using p thief_moves[OF inv, of "Thief0 TIdle" i] by (auto simp: steal_cas_def cas_top_simps thief_ok_def)
qed

lemmas ws_steps_good = push_begin_good push_room_good push_put_good push_publish_good pop_begin_good pop_top_good
  pop_empty_good pop_cas_good pop_fix_good steal_start_good steal_array_good steal_get_good steal_cas_good

lemma ws_step_good: "ws_step s ev s' \<Longrightarrow> ws_inv s \<Longrightarrow> ws_good s ev s'"
  by (induction rule: ws_step.induct) (simp_all only: ws_steps_good)

lemma ws_inv_new: "ws_inv ws_new"
  by (auto simp: ws_inv_def ws_new_def ws_end_def owner_ok_def thief_ok_def)

lemma ws_run_inv: "ws_run s evs s' \<Longrightarrow> ws_inv s \<Longrightarrow> ws_inv s'"
  by (induction rule: ws_run.induct) (auto dest: ws_step_good simp: ws_good_def)

section \<open>A work-stealing deque is a deque\<close>

text \<open>The events replayed on a plain list: the owner pushes and pops at its back, thieves take its front.\<close>

fun ws_apply :: "'a ws_event \<Rightarrow> 'a list \<Rightarrow> 'a list option" where
  "ws_apply (Pushed e) xs = Some (xs @ [e])"
| "ws_apply (Popped v) xs = (if xs \<noteq> [] \<and> v = Some (last xs) then Some (butlast xs) else None)"
| "ws_apply (Stolen i v) xs = (if xs \<noteq> [] \<and> v = Some (hd xs) then Some (tl xs) else None)"
| "ws_apply PopEmpty xs = (if xs = [] then Some [] else None)"
| "ws_apply ev xs = Some xs"

definition ws_replay :: "'a ws_event list \<Rightarrow> 'a list option" where
  "ws_replay evs = fold (\<lambda>ev r. Option.bind r (ws_apply ev)) evs (Some [])"

lemma ws_effect_apply: "ws_effect xs ev ys \<Longrightarrow> ws_apply ev xs = Some ys"
  by (cases ev) (auto simp: ws_effect_def)

lemma ws_run_replay: "ws_run s evs s' \<Longrightarrow> s = ws_new \<Longrightarrow> ws_replay evs = Some (ws_abs s')"
proof (induction rule: ws_run.induct)
  case (ws_run_Nil s)
  then show ?case
    by (simp add: ws_replay_def ws_abs_def ws_new_def ws_end_def)
next
  case (ws_run_snoc s evs s' ev s'')
  then have "ws_good s' ev s''"
    using ws_run_inv ws_inv_new ws_step_good by metis
  then show ?case
    using ws_run_snoc by (simp add: ws_replay_def ws_good_def ws_effect_apply)
qed

definition ws_pushed :: "'a ws_event list \<Rightarrow> 'a option list" where
  "ws_pushed evs = concat (map (\<lambda>ev. case ev of Pushed e \<Rightarrow> [Some e] | _ \<Rightarrow> []) evs)"

definition ws_taken :: "'a ws_event list \<Rightarrow> 'a option list" where
  "ws_taken evs = concat (map (\<lambda>ev. case ev of Popped v \<Rightarrow> [v] | Stolen i v \<Rightarrow> [v] | _ \<Rightarrow> []) evs)"

lemma ws_replay_snoc: "ws_replay (evs @ [ev]) = Option.bind (ws_replay evs) (ws_apply ev)"
  by (simp add: ws_replay_def)

lemma replay_conserves:
  "ws_replay evs = Some xs \<Longrightarrow> mset (ws_pushed evs) = mset (ws_taken evs) + mset (map Some xs)"
proof (induction evs arbitrary: xs rule: rev_induct)
  case (snoc ev evs)
  then obtain ys where ys: "ws_replay evs = Some ys" "ws_apply ev ys = Some xs"
    by (auto simp: ws_replay_snoc bind_eq_Some_conv)
  have "ys \<noteq> [] \<Longrightarrow> mset (map Some ys) = add_mset (Some (last ys)) (mset (map Some (butlast ys)))"
    by (cases ys rule: rev_cases) auto
  moreover have "ys \<noteq> [] \<Longrightarrow> mset (map Some ys) = add_mset (Some (hd ys)) (mset (map Some (tl ys)))"
    by (cases ys) auto
  ultimately show ?case
    using snoc.IH[OF ys(1)] ys(2) by (cases ev) (auto simp: ws_pushed_def ws_taken_def split: if_splits)
qed (simp add: ws_replay_def ws_pushed_def ws_taken_def)

text \<open>C24: the lock-free deque is linearizable.  However the steps of the owner and of any number of thieves
  interleave, the operations that took effect, in that order, are a run of a plain sequential deque: each pop
  returns the element at the back, each successful steal the one at the front, and the owner finds it empty
  only when it is.\<close>

theorem deque_linearizable:
  assumes "ws_run ws_new evs s"
  shows "ws_replay evs = Some (ws_abs s)"
  using assms ws_run_replay by blast

text \<open>C25: no work is lost or done twice.  At every moment the elements pushed are, with multiplicity, those
  handed to the owner or to a thief and those still in the deque; no thief or owner is handed an
  uninitialised cell.\<close>

theorem deque_conserves_work:
  assumes "ws_run ws_new evs s"
  shows "mset (ws_pushed evs) = mset (ws_taken evs) + mset (map Some (ws_abs s)) \<and> None \<notin> set (ws_taken evs)"
proof -
  have eq: "mset (ws_pushed evs) = mset (ws_taken evs) + mset (map Some (ws_abs s))"
    using ws_run_replay[OF assms refl] by (rule replay_conserves)
  have "None \<notin> set (ws_pushed evs)"
    by (auto simp: ws_pushed_def split: ws_event.splits)
  then have "None \<notin># mset (ws_taken evs)"
    using eq by (metis set_mset_mset union_iff)
  then show ?thesis
    using eq by simp
qed

text \<open>A run in which one element is pushed and a thief takes it.\<close>

definition ws_pushed_one :: "nat wsd" where
  "ws_pushed_one = push_publish 7 0 (push_put 7 0 (push_room 7 0 0 (push_begin 7 ws_new)))"

definition ws_stolen_one :: "nat wsd" where
  "ws_stolen_one = snd (steal_cas 3 0 (Some 7) (steal_get 3 0 0 (snd (steal_array 3 0 1 (steal_bottom 3 0 (steal_top 3 ws_pushed_one))))))"

lemmas ws_eval = ws_new_def push_begin_def push_room_def push_put_def push_publish_def ws_array_def ca_size_def ca_new_def
  ca_put_def ca_get_def steal_top_def steal_bottom_def steal_array_def steal_get_def steal_cas_def set_thief_def cas_top_def
  ws_pushed_one_def ws_stolen_one_def Let_def

lemma ws_push_run: "ws_run ws_new [Internal, Internal, Internal, Pushed 7] ws_pushed_one"
proof -
  let ?s1 = "push_begin (7::nat) ws_new"
  let ?s2 = "push_room 7 0 0 ?s1"
  let ?s3 = "push_put 7 0 ?s2"
  have "ws_run ws_new ([] @ [Internal]) ?s1"
    by (rule ws_run_snoc[OF ws_run_Nil]) (rule ws_step.intros(1), simp add: ws_eval)
  then have "ws_run ws_new (([] @ [Internal]) @ [Internal]) ?s2"
    by (rule ws_run_snoc) (rule ws_step.intros(2), simp add: ws_eval)
  then have "ws_run ws_new ((([] @ [Internal]) @ [Internal]) @ [Internal]) ?s3"
    by (rule ws_run_snoc) (rule ws_step.intros(3), simp add: ws_eval)
  then have "ws_run ws_new (((([] @ [Internal]) @ [Internal]) @ [Internal]) @ [Pushed 7]) ws_pushed_one"
    unfolding ws_pushed_one_def by (rule ws_run_snoc) (rule ws_step.intros(4), simp add: ws_eval)
  then show ?thesis
    by simp
qed

lemma ws_steal_run: "ws_run ws_new ([Internal, Internal, Internal, Pushed 7] @ [Internal, Internal, Internal, Internal, Stolen 3 (Some 7)]) ws_stolen_one"
proof -
  let ?e = "[Internal, Internal, Internal, Pushed (7::nat)]"
  let ?s1 = "steal_top 3 ws_pushed_one"
  let ?s2 = "steal_bottom 3 0 ?s1"
  let ?s3 = "snd (steal_array 3 0 1 ?s2)"
  let ?s4 = "steal_get 3 0 0 ?s3"
  have "ws_run ws_new (?e @ [Internal]) ?s1"
    by (rule ws_run_snoc[OF ws_push_run]) (rule ws_step.intros(10), simp add: ws_eval)
  then have "ws_run ws_new ((?e @ [Internal]) @ [Internal]) ?s2"
    by (rule ws_run_snoc) (rule ws_step.intros(11), simp add: ws_eval)
  then have "ws_run ws_new (((?e @ [Internal]) @ [Internal]) @ [Internal]) ?s3"
    by (rule ws_run_snoc) (rule ws_step.intros(12)[of _ 3 0 1], simp_all add: ws_eval)
  then have "ws_run ws_new ((((?e @ [Internal]) @ [Internal]) @ [Internal]) @ [Internal]) ?s4"
    by (rule ws_run_snoc) (rule ws_step.intros(13), simp add: ws_eval)
  then have "ws_run ws_new (((((?e @ [Internal]) @ [Internal]) @ [Internal]) @ [Internal]) @ [Stolen 3 (Some 7)]) ws_stolen_one"
    by (rule ws_run_snoc) (rule ws_step.intros(14)[of _ 3 0 "Some 7"], simp_all add: ws_eval)
  then show ?thesis
    by simp
qed

lemma deque_linearizable_witness: "ws_replay [Internal, Internal, Internal, Pushed (7::nat)] = Some (ws_abs ws_pushed_one) \<and> ws_abs ws_pushed_one = [7]"
  using deque_linearizable[OF ws_push_run] by (simp add: ws_replay_def)

lemma deque_conserves_work_witness:
  "mset (ws_pushed ([Internal, Internal, Internal, Pushed (7::nat)] @ [Internal, Internal, Internal, Internal, Stolen 3 (Some 7)])) =
     {#Some 7#} + mset (map Some (ws_abs ws_stolen_one)) \<and> ws_abs ws_stolen_one = []"
  using deque_conserves_work[OF ws_steal_run] by (simp add: ws_pushed_def ws_taken_def)

end
