(* ===== verification/LockfreeExclusive.thy ===== *)
theory LockfreeExclusive
  imports Atomics
begin

text \<open>
  runtime/lockfree/atomic/OFluxLFAtomic.h and .cpp: the exclusive atomic of the lock-free runtime.  Waiting
  events are kept in a linked list whose last node is empty; the event of a waiter sits in the node before
  the one it brought.  A step is one access to shared memory, any number of threads interleave.  Freed
  nodes are not used again: the hazard pointers of OFluxSMR.h keep them while a thread may look at them.
\<close>

section \<open>Nodes\<close>

text \<open>\<open>0x0000\<close>, \<open>0x0001\<close> and \<open>0x0003\<close> are marks, other values are addresses.\<close>

datatype lptr = LNull | LOne | LThree | LNode nat

definition unmk :: "lptr \<Rightarrow> bool" where
  "unmk p \<longleftrightarrow> p \<noteq> LNull \<and> p \<noteq> LOne"

record ebh =
  hb_ev :: "nat option"
  hb_next :: lptr

text \<open>Where a thread is.  \<open>ev\<close> is the event it acquires or releases for, \<open>e\<close> the node it brought, the
  others are its local variables.  A thread that would make a mark the head of the list ends in \<open>XWild\<close>.\<close>

datatype lx_pc = XIdle
  | XPushHead nat nat | XPushNext nat nat nat | XPushAcquire nat nat nat | XPushTail nat nat | XPushCheck nat nat nat
  | XPushLink nat nat nat | XPushSwing nat nat nat | XPushStore nat nat nat
  | XPopHead nat | XPopNext nat nat | XPopTail nat nat lptr | XPopLag nat nat lptr nat | XPopTail2 nat nat lptr
  | XPopEv nat nat lptr | XPopAdvance nat nat lptr | XPopEmpty nat nat lptr | XPopReset nat nat | XPopWait nat nat
  | XRelMark nat nat | XRelGive nat nat | XWild

text \<open>\<open>lx_holding\<close> and \<open>lx_waiting\<close> record what the threads were told: the events that were let in and not
  released yet, and those that were told to wait.\<close>

record lfx =
  lx_nodes :: "nat \<Rightarrow> ebh"
  lx_head :: nat
  lx_tail :: nat
  lx_fresh :: nat
  lx_pc :: "nat \<Rightarrow> lx_pc"
  lx_holding :: "nat list"
  lx_waiting :: "nat list"

definition ebh_new :: "nat option \<Rightarrow> ebh" where
  "ebh_new ev = \<lparr> hb_ev = ev, hb_next = LNull \<rparr>"

definition lx_new :: lfx where
  "lx_new = \<lparr> lx_nodes = (\<lambda>_. ebh_new None)(0 := \<lparr> hb_ev = None, hb_next = LOne \<rparr>), lx_head = 0, lx_tail = 0, lx_fresh = 1,
     lx_pc = \<lambda>_. XIdle, lx_holding = [], lx_waiting = [] \<rparr>"

definition nxt :: "nat \<Rightarrow> lfx \<Rightarrow> lptr" where
  "nxt n s = hb_next (lx_nodes s n)"

definition set_next :: "nat \<Rightarrow> lptr \<Rightarrow> lfx \<Rightarrow> lfx" where
  "set_next n p s = s\<lparr> lx_nodes := (lx_nodes s)(n := (lx_nodes s n)\<lparr> hb_next := p \<rparr>) \<rparr>"

definition set_ev :: "nat \<Rightarrow> nat option \<Rightarrow> lfx \<Rightarrow> lfx" where
  "set_ev n ev s = s\<lparr> lx_nodes := (lx_nodes s)(n := (lx_nodes s n)\<lparr> hb_ev := ev \<rparr>) \<rparr>"

definition go :: "nat \<Rightarrow> lx_pc \<Rightarrow> lfx \<Rightarrow> lfx" where
  "go t pc s = s\<lparr> lx_pc := (lx_pc s)(t := pc) \<rparr>"

text \<open>What the list says: empty means free.\<close>

definition lx_empty :: "lfx \<Rightarrow> bool" where
  "lx_empty s \<longleftrightarrow> nxt (lx_head s) s = LOne"

definition lx_held :: "lfx \<Rightarrow> bool" where
  "lx_held s \<longleftrightarrow> \<not> lx_empty s"

definition lx_has_waiters :: "lfx \<Rightarrow> bool" where
  "lx_has_waiters s \<longleftrightarrow> nxt (lx_head s) s \<noteq> LOne \<and> nxt (lx_head s) s \<noteq> LNull"

text \<open>\<open>count\<close> walks the list; the fuel bounds the walk by the number of nodes there are.\<close>

fun lx_count_from :: "nat \<Rightarrow> lptr \<Rightarrow> lfx \<Rightarrow> nat" where
  "lx_count_from 0 p s = 0"
| "lx_count_from (Suc k) (LNode n) s = (if hb_ev (lx_nodes s n) = None then 0 else Suc (lx_count_from k (nxt n s) s))"
| "lx_count_from (Suc k) p s = 0"

definition lx_count :: "lfx \<Rightarrow> nat" where
  "lx_count s = lx_count_from (lx_fresh s) (LNode (lx_head s)) s"

section \<open>Acquiring\<close>

text \<open>\<open>acquire_or_wait\<close> takes a node, \<open>push\<close> empties it; a thread that is let in frees its node again.\<close>

definition acquire_begin :: "nat \<Rightarrow> nat \<Rightarrow> lfx \<Rightarrow> lfx" where
  "acquire_begin t ev s = (let e = lx_fresh s in
     go t (XPushHead ev e) (s\<lparr> lx_fresh := e + 1, lx_nodes := (lx_nodes s)(e := ebh_new None) \<rparr>))"

definition acquired :: "nat \<Rightarrow> nat \<Rightarrow> lfx \<Rightarrow> lfx" where
  "acquired ev e s = set_next e LThree (set_ev e (Some ev) (s\<lparr> lx_holding := ev # lx_holding s \<rparr>))"

definition push_step :: "nat \<Rightarrow> lfx \<Rightarrow> lfx" where
  "push_step t s = (case lx_pc s t of
      XPushHead ev e \<Rightarrow> go t (XPushNext ev e (lx_head s)) s
    | XPushNext ev e h \<Rightarrow> go t (if nxt h s = LOne then XPushAcquire ev e h else XPushTail ev e) s
    | XPushAcquire ev e h \<Rightarrow>
        if nxt h s = LOne then go t XIdle (acquired ev e (set_next h LNull s)) else go t (XPushTail ev e) s
    | XPushTail ev e \<Rightarrow> go t (XPushCheck ev e (lx_tail s)) s
    | XPushCheck ev e q \<Rightarrow> go t (if unmk (nxt q s) then XPushHead ev e else XPushLink ev e q) s
    | XPushLink ev e q \<Rightarrow>
        if nxt q s = LNull then go t (XPushSwing ev e q) (set_next q (LNode e) s) else go t (XPushHead ev e) s
    | XPushSwing ev e q \<Rightarrow> go t (XPushStore ev e q) (if lx_tail s = q then s\<lparr> lx_tail := e \<rparr> else s)
    | XPushStore ev e q \<Rightarrow> go t XIdle (set_ev q (Some ev) (s\<lparr> lx_waiting := ev # lx_waiting s \<rparr>))
    | _ \<Rightarrow> s)"

section \<open>Releasing\<close>

definition release_begin :: "nat \<Rightarrow> nat \<Rightarrow> lfx \<Rightarrow> lfx" where
  "release_begin t ev s = go t (XPopHead ev) (s\<lparr> lx_holding := remove1 ev (lx_holding s) \<rparr>)"

text \<open>\<open>pop\<close>, and from \<open>XRelMark\<close> on what \<open>release\<close> does with the node.\<close>

definition pop_step :: "nat \<Rightarrow> lfx \<Rightarrow> lfx" where
  "pop_step t s = (case lx_pc s t of
      XPopHead ev \<Rightarrow> go t (XPopNext ev (lx_head s)) s
    | XPopNext ev h \<Rightarrow> go t (XPopTail ev h (nxt h s)) s
    | XPopTail ev h hn \<Rightarrow> go t (XPopLag ev h hn (lx_tail s)) s
    | XPopLag ev h hn q \<Rightarrow> go t (if unmk (nxt q s) then XPopHead ev else XPopTail2 ev h hn) s
    | XPopTail2 ev h hn \<Rightarrow> go t (if h \<noteq> lx_tail s \<and> hn \<noteq> LNull \<and> hn \<noteq> LOne then XPopEv ev h hn
        else if hn = LNull then XPopEmpty ev h hn else XPopHead ev) s
    | XPopEv ev h hn \<Rightarrow> go t (if hb_ev (lx_nodes s h) \<noteq> None then XPopAdvance ev h hn else XPopHead ev) s
    | XPopAdvance ev h hn \<Rightarrow>
        if lx_head s = h
        then (case hn of LNode n \<Rightarrow> go t (XPopReset ev h) (s\<lparr> lx_head := n \<rparr>) | _ \<Rightarrow> go t XWild s)
        else go t (XPopHead ev) s
    | XPopEmpty ev h hn \<Rightarrow>
        if nxt h s = hn then go t XIdle (set_next h LOne s) else go t (XPopHead ev) s
    | XPopReset ev r \<Rightarrow> go t (XPopWait ev r) (set_next r LNull s)
    | XPopWait ev r \<Rightarrow> if hb_ev (lx_nodes s r) = None then s else go t (XRelMark ev r) s
    | XRelMark ev r \<Rightarrow> go t (XRelGive ev r) (set_next r LThree s)
    | XRelGive ev r \<Rightarrow> (case hb_ev (lx_nodes s r) of
          None \<Rightarrow> go t XIdle s
        | Some w \<Rightarrow> go t XIdle (s\<lparr> lx_holding := w # lx_holding s, lx_waiting := remove1 w (lx_waiting s) \<rparr>))
    | _ \<Rightarrow> s)"

section \<open>Interleavings\<close>

text \<open>A thread begins to acquire, begins to release what is held, or takes a step; an action that is not
  possible changes nothing.  A run is any sequence of actions.\<close>

datatype lx_action = Acquire nat nat | Release nat nat | Step nat

definition lx_act :: "lx_action \<Rightarrow> lfx \<Rightarrow> lfx" where
  "lx_act a s = (case a of
      Acquire t ev \<Rightarrow> if lx_pc s t = XIdle then acquire_begin t ev s else s
    | Release t ev \<Rightarrow> if lx_pc s t = XIdle \<and> ev \<in> set (lx_holding s) then release_begin t ev s else s
    | Step t \<Rightarrow> pop_step t (push_step t s))"

definition lx_run :: "lx_action list \<Rightarrow> lfx \<Rightarrow> lfx" where
  "lx_run as s = fold lx_act as s"

section \<open>At most one event is let in\<close>

definition popping :: "lx_pc \<Rightarrow> bool" where
  "popping pc \<longleftrightarrow> (case pc of XPopHead _ \<Rightarrow> True | XPopNext _ _ \<Rightarrow> True | XPopTail _ _ _ \<Rightarrow> True | XPopLag _ _ _ _ \<Rightarrow> True
     | XPopTail2 _ _ _ \<Rightarrow> True | XPopEv _ _ _ \<Rightarrow> True | XPopAdvance _ _ _ \<Rightarrow> True | XPopEmpty _ _ _ \<Rightarrow> True | XPopReset _ _ \<Rightarrow> True
     | XPopWait _ _ \<Rightarrow> True | XRelMark _ _ \<Rightarrow> True | XRelGive _ _ \<Rightarrow> True | XWild \<Rightarrow> True | _ \<Rightarrow> False)"

text \<open>The node a pushing thread has not linked yet.\<close>

definition brought :: "lx_pc \<Rightarrow> nat option" where
  "brought pc = (case pc of XPushHead _ e \<Rightarrow> Some e | XPushNext _ e _ \<Rightarrow> Some e | XPushAcquire _ e _ \<Rightarrow> Some e
     | XPushTail _ e \<Rightarrow> Some e | XPushCheck _ e _ \<Rightarrow> Some e | XPushLink _ e _ \<Rightarrow> Some e | _ \<Rightarrow> None)"

definition pop_locals :: "lx_pc \<Rightarrow> (nat \<times> lptr) option" where
  "pop_locals pc = (case pc of XPopNext _ h \<Rightarrow> Some (h, LNull) | XPopTail _ h hn \<Rightarrow> Some (h, hn) | XPopLag _ h hn _ \<Rightarrow> Some (h, hn)
     | XPopTail2 _ h hn \<Rightarrow> Some (h, hn) | XPopEv _ h hn \<Rightarrow> Some (h, hn) | XPopAdvance _ h hn \<Rightarrow> Some (h, hn)
     | XPopEmpty _ h hn \<Rightarrow> Some (h, hn) | _ \<Rightarrow> None)"

text \<open>A node nobody else knows.\<close>

definition hidden :: "nat \<Rightarrow> lfx \<Rightarrow> bool" where
  "hidden e s \<longleftrightarrow> e < lx_fresh s \<and> e \<noteq> lx_head s \<and> e \<noteq> lx_tail s \<and> (\<forall>m. nxt m s \<noteq> LNode e) \<and>
     (\<forall>t h. pop_locals (lx_pc s t) \<noteq> Some (h, LNode e))"

definition poppers :: "lfx \<Rightarrow> nat set" where
  "poppers s = {t. popping (lx_pc s t)}"

lemma lx_simps [simp]:
  "nxt n (set_next m p s) = (if n = m then p else nxt n s)" "nxt n (set_ev m v s) = nxt n s" "nxt n (go t pc s) = nxt n s"
  "lx_head (set_next m p s) = lx_head s" "lx_head (set_ev m v s) = lx_head s" "lx_head (go t pc s) = lx_head s"
  "lx_tail (set_next m p s) = lx_tail s" "lx_tail (set_ev m v s) = lx_tail s" "lx_tail (go t pc s) = lx_tail s"
  "lx_fresh (set_next m p s) = lx_fresh s" "lx_fresh (set_ev m v s) = lx_fresh s" "lx_fresh (go t pc s) = lx_fresh s"
  "lx_holding (set_next m p s) = lx_holding s" "lx_holding (set_ev m v s) = lx_holding s" "lx_holding (go t pc s) = lx_holding s"
  "lx_pc (set_next m p s) = lx_pc s" "lx_pc (set_ev m v s) = lx_pc s" "lx_pc (go t pc s) = (lx_pc s)(t := pc)"
  by (auto simp: nxt_def set_next_def set_ev_def go_def)

lemma nxt_upd [simp]:
  "nxt n (s\<lparr> lx_head := h \<rparr>) = nxt n s" "nxt n (s\<lparr> lx_tail := q \<rparr>) = nxt n s" "nxt n (s\<lparr> lx_holding := x \<rparr>) = nxt n s"
  "nxt n (s\<lparr> lx_holding := x, lx_waiting := y \<rparr>) = nxt n s" "nxt n (s\<lparr> lx_waiting := y \<rparr>) = nxt n s"
  by (simp_all add: nxt_def)

lemma poppers_go: "poppers (go t pc s) = (if popping pc then insert t (poppers s) else poppers s - {t})"
  by (auto simp: poppers_def go_def)

lemma poppers_same [simp]:
  "poppers (set_next m p s) = poppers s" "poppers (set_ev m v s) = poppers s" "poppers (s\<lparr> lx_head := h \<rparr>) = poppers s"
  "poppers (s\<lparr> lx_tail := h \<rparr>) = poppers s" "poppers (s\<lparr> lx_holding := x \<rparr>) = poppers s"
  "poppers (s\<lparr> lx_holding := x, lx_waiting := y \<rparr>) = poppers s" "poppers (s\<lparr> lx_waiting := y \<rparr>) = poppers s"
  by (simp_all add: poppers_def set_next_def set_ev_def)

lemma in_poppers: "t \<in> poppers s \<longleftrightarrow> popping (lx_pc s t)"
  by (simp add: poppers_def)

text \<open>The tokens, and everything else.\<close>

definition tokens_ok :: "lfx \<Rightarrow> bool" where
  "tokens_ok s \<longleftrightarrow> finite (poppers s) \<and> length (lx_holding s) + card (poppers s) = (if nxt (lx_head s) s = LOne then 0 else 1)"

definition shape_ok :: "lfx \<Rightarrow> bool" where
  "shape_ok s \<longleftrightarrow>
     lx_head s < lx_fresh s \<and> lx_tail s < lx_fresh s \<and>
     (\<forall>n. nxt n s = LOne \<longrightarrow> n = lx_head s) \<and>
     (\<forall>n m. nxt n s = LNode m \<longrightarrow> m \<noteq> n \<and> m < lx_fresh s) \<and>
     (\<forall>t h hn. pop_locals (lx_pc s t) = Some (h, hn) \<longrightarrow> h = lx_head s \<and> (\<forall>n. hn = LNode n \<longrightarrow> n \<noteq> h \<and> n < lx_fresh s))"

definition push_ok :: "lfx \<Rightarrow> bool" where
  "push_ok s \<longleftrightarrow>
     (\<forall>t ev e q. lx_pc s t = XPushSwing ev e q \<longrightarrow> e < lx_fresh s) \<and>
     (\<forall>t e. brought (lx_pc s t) = Some e \<longrightarrow> hidden e s) \<and>
     (\<forall>t t' e. brought (lx_pc s t) = Some e \<longrightarrow> brought (lx_pc s t') = Some e \<longrightarrow> t = t') \<and>
     (\<forall>t t' ev e q. lx_pc s t = XPushSwing ev e q \<longrightarrow> brought (lx_pc s t') \<noteq> Some e) \<and>
     (\<forall>t ev e q. lx_pc s t = XPushCheck ev e q \<or> lx_pc s t = XPushLink ev e q \<longrightarrow> q \<noteq> e)"

definition lx_inv :: "lfx \<Rightarrow> bool" where
  "lx_inv s \<longleftrightarrow> tokens_ok s \<and> shape_ok s \<and> push_ok s"

lemma popper_alone:
  assumes "tokens_ok s" "popping (lx_pc s t)"
  shows "lx_holding s = []" "poppers s = {t}" "nxt (lx_head s) s \<noteq> LOne"
proof -
  have t: "t \<in> poppers s" and f: "finite (poppers s)"
    and eq: "length (lx_holding s) + card (poppers s) = (if nxt (lx_head s) s = LOne then 0 else 1)"
    using assms by (simp_all add: poppers_def tokens_ok_def)
  have c: "card (poppers s) > 0"
    using t f card_gt_0_iff by blast
  show ne: "nxt (lx_head s) s \<noteq> LOne"
    using eq c by (cases "nxt (lx_head s) s = LOne") simp_all
  then have "length (lx_holding s) + card (poppers s) = 1"
    using eq by simp
  then have "length (lx_holding s) = 0" "card (poppers s) = 1"
    using c by linarith+
  then show "lx_holding s = []" "poppers s = {t}"
    using t by (auto simp: card_1_singleton_iff)
qed

lemma push_okD:
  assumes "push_ok s"
  shows "lx_pc s t = XPushSwing ev e q \<Longrightarrow> e < lx_fresh s"
    and "brought (lx_pc s t) = Some e \<Longrightarrow> hidden e s"
    and "brought (lx_pc s t) = Some e \<Longrightarrow> brought (lx_pc s t') = Some e \<Longrightarrow> t = t'"
    and "lx_pc s t = XPushSwing ev e q \<Longrightarrow> brought (lx_pc s t') \<noteq> Some e"
    and "lx_pc s t = XPushCheck ev e q \<or> lx_pc s t = XPushLink ev e q \<Longrightarrow> q \<noteq> e"
  using assms unfolding push_ok_def by blast+

lemma shape_okD:
  assumes "shape_ok s"
  shows "lx_head s < lx_fresh s" "lx_tail s < lx_fresh s"
    and "nxt n s = LOne \<Longrightarrow> n = lx_head s"
    and "nxt n s = LNode m \<Longrightarrow> m \<noteq> n \<and> m < lx_fresh s"
    and "pop_locals (lx_pc s t) = Some (h, hn) \<Longrightarrow> h = lx_head s \<and> (\<forall>n. hn = LNode n \<longrightarrow> n \<noteq> h \<and> n < lx_fresh s)"
  using assms unfolding shape_ok_def by blast+

lemma push_ok_sub:
  assumes "push_ok s" "\<And>u e. brought (lx_pc s' u) = Some e \<Longrightarrow> brought (lx_pc s u) = Some e"
    and "\<And>u ev e q. lx_pc s' u = XPushSwing ev e q \<Longrightarrow> lx_pc s u = XPushSwing ev e q"
    and "\<And>u ev e q. lx_pc s' u = XPushCheck ev e q \<or> lx_pc s' u = XPushLink ev e q \<Longrightarrow> q \<noteq> e"
    and "\<And>e. hidden e s \<Longrightarrow> hidden e s'" "lx_fresh s \<le> lx_fresh s'"
  shows "push_ok s'"
proof -
  have "e < lx_fresh s'" if "lx_pc s' u = XPushSwing ev e q" for u ev e q
    using assms(1, 6) assms(3)[OF that] unfolding push_ok_def by (meson less_le_trans)
  moreover have "hidden e s'" if "brought (lx_pc s' u) = Some e" for u e
    using assms(1) assms(2)[OF that] assms(5) unfolding push_ok_def by blast
  moreover have "u = u'" if "brought (lx_pc s' u) = Some e" "brought (lx_pc s' u') = Some e" for u u' e
    using assms(1) assms(2)[OF that(1)] assms(2)[OF that(2)] unfolding push_ok_def by blast
  moreover have "brought (lx_pc s' u') \<noteq> Some e" if "lx_pc s' u = XPushSwing ev e q" for u u' ev e q
    using assms(1) assms(3)[OF that] assms(2) unfolding push_ok_def by blast
  ultimately show ?thesis
    using assms(4) unfolding push_ok_def by blast
qed

lemma hidden_fresh: "hidden e s \<Longrightarrow> e < lx_fresh s"
  by (simp add: hidden_def)

text \<open>A thread moves on without touching shared memory.\<close>

lemma go_ok:
  assumes "lx_inv s" "popping pc = popping (lx_pc s t)"
    and "brought pc = None \<or> brought pc = brought (lx_pc s t)"
    and "\<And>h hn. pop_locals pc = Some (h, hn) \<Longrightarrow> h = lx_head s \<and>
        (\<forall>n. hn = LNode n \<longrightarrow> nxt h s = LNode n \<or> pop_locals (lx_pc s t) = Some (h, hn))"
    and "\<And>ev e q. pc \<noteq> XPushSwing ev e q"
    and "\<And>ev e q. pc = XPushCheck ev e q \<or> pc = XPushLink ev e q \<Longrightarrow> q \<noteq> e"
  shows "lx_inv (go t pc s)"
proof -
  have inv: "tokens_ok s" "shape_ok s" "push_ok s"
    using assms(1) by (simp_all add: lx_inv_def)
  have "poppers (go t pc s) = poppers s"
    using assms(2) by (auto simp: poppers_go poppers_def)
  then have "tokens_ok (go t pc s)"
    using inv(1) by (simp add: tokens_ok_def)
  moreover have "shape_ok (go t pc s)"
  proof -
    have "h = lx_head s \<and> (\<forall>n. hn = LNode n \<longrightarrow> n \<noteq> h \<and> n < lx_fresh s)" if "pop_locals pc = Some (h, hn)" for h hn
      using assms(4)[OF that] inv(2) unfolding shape_ok_def by blast
    then show ?thesis
      using inv(2) unfolding shape_ok_def by simp
  qed
  moreover have hid: "hidden e (go t pc s)" if "hidden e s" for e
  proof -
    have "pop_locals pc \<noteq> Some (h, LNode e)" for h
      using assms(4)[of h "LNode e"] that unfolding hidden_def by blast
    then show ?thesis
      using that by (simp add: hidden_def)
  qed
  have "push_ok (go t pc s)"
  proof (rule push_ok_sub[OF inv(3)])
    fix u ev e q
    show "brought (lx_pc (go t pc s) u) = Some e \<Longrightarrow> brought (lx_pc s u) = Some e"
      using assms(3) by (cases "u = t") auto
    show "lx_pc (go t pc s) u = XPushSwing ev e q \<Longrightarrow> lx_pc s u = XPushSwing ev e q"
      using assms(5)[of ev e q] by (cases "u = t") auto
    show "lx_pc (go t pc s) u = XPushCheck ev e q \<or> lx_pc (go t pc s) u = XPushLink ev e q \<Longrightarrow> q \<noteq> e"
      using assms(6)[of ev e q] push_okD(5)[OF inv(3), of u ev e q] by (cases "u = t") auto
  qed (simp_all add: hid)
  ultimately show ?thesis
    by (simp add: lx_inv_def)
qed

lemmas pc_defs = popping_def brought_def pop_locals_def

lemma inv_parts: "lx_inv s \<Longrightarrow> tokens_ok s" "lx_inv s \<Longrightarrow> shape_ok s" "lx_inv s \<Longrightarrow> push_ok s"
  by (simp_all add: lx_inv_def)

lemma shape_ok_sub:
  assumes "shape_ok s" "lx_head s' = lx_head s" "lx_fresh s \<le> lx_fresh s'" "lx_tail s' < lx_fresh s'"
    and "\<And>n. nxt n s' = LOne \<Longrightarrow> n = lx_head s"
    and "\<And>n m. nxt n s' = LNode m \<Longrightarrow> nxt n s = LNode m \<or> m \<noteq> n \<and> m < lx_fresh s'"
    and "\<And>u x. pop_locals (lx_pc s' u) = Some x \<Longrightarrow> pop_locals (lx_pc s u) = Some x"
  shows "shape_ok s'"
proof -
  have "m \<noteq> n \<and> m < lx_fresh s'" if "nxt n s' = LNode m" for n m
    using assms(6)[OF that] shape_okD(4)[OF assms(1), of n m] assms(3) by auto
  moreover have "h = lx_head s' \<and> (\<forall>n. hn = LNode n \<longrightarrow> n \<noteq> h \<and> n < lx_fresh s')"
    if "pop_locals (lx_pc s' u) = Some (h, hn)" for u h hn
    using shape_okD(5)[OF assms(1) assms(7)[OF that]] assms(2, 3) by auto
  moreover have "lx_head s' < lx_fresh s'"
    using shape_okD(1)[OF assms(1)] assms(2, 3) by simp
  ultimately show ?thesis
    using assms(2, 4, 5) unfolding shape_ok_def by simp
qed

lemma hidden_sub:
  assumes "hidden e s" "lx_head s' = lx_head s" "lx_fresh s \<le> lx_fresh s'" "lx_tail s' = lx_tail s \<or> lx_tail s' \<noteq> e"
    and "\<And>n. nxt n s' = LNode e \<Longrightarrow> nxt n s = LNode e"
    and "\<And>u x. pop_locals (lx_pc s' u) = Some x \<Longrightarrow> pop_locals (lx_pc s u) = Some x"
  shows "hidden e s'"
  using assms unfolding hidden_def by (metis less_le_trans)

text \<open>Beginning to acquire takes a node nobody knows.\<close>

lemma acquire_begin_inv:
  assumes "lx_inv s" "lx_pc s t = XIdle"
  shows "lx_inv (acquire_begin t ev s)"
proof -
  let ?s = "acquire_begin t ev s" and ?e = "lx_fresh s"
  note inv = inv_parts[OF assms(1)]
  have f: "nxt n ?s = (if n = ?e then LNull else nxt n s)" "lx_head ?s = lx_head s" "lx_tail ?s = lx_tail s"
    "lx_fresh ?s = Suc ?e" "lx_holding ?s = lx_holding s" "lx_pc ?s = (lx_pc s)(t := XPushHead ev ?e)" for n
    by (simp_all add: acquire_begin_def Let_def go_def nxt_def ebh_new_def)
  have loc: "pop_locals (lx_pc ?s u) = Some x \<Longrightarrow> pop_locals (lx_pc s u) = Some x" for u x
    using f by (cases "u = t") (simp_all add: pc_defs)
  have new: "?e \<noteq> lx_head s" "?e \<noteq> lx_tail s" "nxt n s \<noteq> LNode ?e" "pop_locals (lx_pc s u) \<noteq> Some (h, LNode ?e)" for n u h
    using shape_okD(1, 2)[OF inv(2)] shape_okD(4)[OF inv(2), of n ?e] shape_okD(5)[OF inv(2), of u h "LNode ?e"] by auto
  have "poppers ?s = poppers s"
    using assms(2) f(6) by (auto simp: poppers_def pc_defs)
  then have "tokens_ok ?s"
    using inv(1) f new by (simp add: tokens_ok_def)
  moreover have "shape_ok ?s"
    using shape_okD(2, 3)[OF inv(2)] f loc by (intro shape_ok_sub[OF inv(2)]) (auto split: if_splits)
  moreover have hid: "hidden e ?s" if "hidden e s" for e
    using f loc by (intro hidden_sub[OF that]) (auto split: if_splits)
  have hid_new: "hidden ?e ?s"
  proof -
    have "pop_locals (lx_pc ?s u) \<noteq> Some (h, LNode ?e)" for u h
      using loc[of u "(h, LNode ?e)"] new(4)[of u h] by blast
    then show ?thesis
      using new f by (simp add: hidden_def)
  qed
  have old: "e \<noteq> ?e" if "brought (lx_pc s u) = Some e" for u e
    using push_okD(2)[OF inv(3) that] by (auto simp: hidden_def)
  have "push_ok ?s"
    unfolding push_ok_def
  proof (intro conjI allI impI)
    fix u u' ev' e q
    show "e < lx_fresh ?s" if "lx_pc ?s u = XPushSwing ev' e q"
      using that f push_okD(1)[OF inv(3), of u ev' e q] by (cases "u = t") auto
    show "hidden e ?s" if "brought (lx_pc ?s u) = Some e"
      using that f push_okD(2)[OF inv(3), of u e] hid hid_new by (cases "u = t") (auto simp: pc_defs)
    show "u = u'" if "brought (lx_pc ?s u) = Some e" "brought (lx_pc ?s u') = Some e"
      using that f push_okD(3)[OF inv(3), of u e u'] old[of u e] old[of u' e]
      by (cases "u = t"; cases "u' = t") (auto simp: brought_def)
    show "brought (lx_pc ?s u') \<noteq> Some e" if "lx_pc ?s u = XPushSwing ev' e q"
      using that f push_okD(1)[OF inv(3), of u ev' e q] push_okD(4)[OF inv(3), of u ev' e q u']
      by (cases "u = t"; cases "u' = t") (auto simp: brought_def)
    show "q \<noteq> e" if "lx_pc ?s u = XPushCheck ev' e q \<or> lx_pc ?s u = XPushLink ev' e q"
      using that f push_okD(5)[OF inv(3), of u ev' e q] by (cases "u = t") auto
  qed
  ultimately show ?thesis
    by (simp add: lx_inv_def)
qed

text \<open>A thread leaves its push: what it brought is linked, or is its own again.\<close>

lemma push_ok_leave:
  assumes "push_ok s" "lx_pc s' = (lx_pc s)(t := pc)" "brought pc = None" "\<And>ev e q. pc \<noteq> XPushSwing ev e q"
    and "\<And>e. hidden e s \<Longrightarrow> (\<exists>u. u \<noteq> t \<and> brought (lx_pc s u) = Some e) \<Longrightarrow> hidden e s'" "lx_fresh s \<le> lx_fresh s'"
  shows "push_ok s'"
  unfolding push_ok_def
proof (intro conjI allI impI)
  fix u u' ev e q
  show "e < lx_fresh s'" if "lx_pc s' u = XPushSwing ev e q"
    using that assms(2, 4, 6) push_okD(1)[OF assms(1), of u ev e q] by (cases "u = t") auto
  show "hidden e s'" if "brought (lx_pc s' u) = Some e"
    using that assms(2, 3, 5) push_okD(2)[OF assms(1), of u e] by (cases "u = t") auto
  show "u = u'" if "brought (lx_pc s' u) = Some e" "brought (lx_pc s' u') = Some e"
    using that assms(2, 3) push_okD(3)[OF assms(1), of u e u'] by (cases "u = t"; cases "u' = t") auto
  show "brought (lx_pc s' u') \<noteq> Some e" if "lx_pc s' u = XPushSwing ev e q"
    using that assms(2-4) push_okD(4)[OF assms(1), of u ev e q u'] by (cases "u = t"; cases "u' = t") auto
  show "q \<noteq> e" if "lx_pc s' u = XPushCheck ev e q \<or> lx_pc s' u = XPushLink ev e q"
    using that assms(2, 3) push_okD(5)[OF assms(1), of u ev e q] by (cases "u = t") (auto simp: brought_def)
qed

lemma push_acquire_inv:
  assumes "lx_inv s" "lx_pc s t = XPushAcquire ev e h" "nxt h s = LOne"
  shows "lx_inv (go t XIdle (acquired ev e (set_next h LNull s)))"
proof -
  let ?s = "go t XIdle (acquired ev e (set_next h LNull s))"
  note inv = inv_parts[OF assms(1)]
  have h: "h = lx_head s"
    using shape_okD(3)[OF inv(2) assms(3)] .
  have hid: "hidden e s"
    using push_okD(2)[OF inv(3), of t e] assms(2) by (simp add: pc_defs)
  then have "e \<noteq> h"
    using h by (simp add: hidden_def)
  have f: "nxt n ?s = (if n = e then LThree else if n = h then LNull else nxt n s)" "lx_head ?s = lx_head s"
    "lx_tail ?s = lx_tail s" "lx_fresh ?s = lx_fresh s" "lx_holding ?s = ev # lx_holding s" "lx_pc ?s = (lx_pc s)(t := XIdle)" for n
    by (simp_all add: acquired_def nxt_def set_next_def set_ev_def go_def)
  have loc: "pop_locals (lx_pc ?s u) = Some x \<Longrightarrow> pop_locals (lx_pc s u) = Some x" for u x
    unfolding f(6) by (cases "u = t") (simp_all add: pc_defs)
  have "poppers ?s = poppers s"
    unfolding poppers_def f(6) using assms(2) by (auto simp: pc_defs)
  then have "tokens_ok ?s"
    using inv(1) f assms(3) h \<open>e \<noteq> h\<close> by (simp add: tokens_ok_def)
  moreover have "shape_ok ?s"
    using shape_okD(2, 3)[OF inv(2)] f loc by (intro shape_ok_sub[OF inv(2)]) (auto split: if_splits)
  moreover have "hidden e' ?s" if "hidden e' s" for e'
    using f loc by (intro hidden_sub[OF that]) (auto split: if_splits)
  then have "push_ok ?s"
    using f by (intro push_ok_leave[OF inv(3), where t = t and pc = XIdle]) (simp_all add: brought_def)
  ultimately show ?thesis
    by (simp add: lx_inv_def)
qed

lemma push_link_inv:
  assumes "lx_inv s" "lx_pc s t = XPushLink ev e q" "nxt q s = LNull"
  shows "lx_inv (go t (XPushSwing ev e q) (set_next q (LNode e) s))"
proof -
  let ?s = "go t (XPushSwing ev e q) (set_next q (LNode e) s)"
  note inv = inv_parts[OF assms(1)]
  have mine: "hidden e s" "q \<noteq> e"
    using push_okD(2)[OF inv(3), of t e] push_okD(5)[OF inv(3), of t ev e q] assms(2) by (simp_all add: pc_defs)
  have loc: "pop_locals (lx_pc ?s u) = Some x \<Longrightarrow> pop_locals (lx_pc s u) = Some x" for u x
    by (cases "u = t") (simp_all add: pc_defs)
  have "poppers ?s = poppers s"
    using assms(2) by (auto simp: poppers_go in_poppers pc_defs)
  then have "tokens_ok ?s"
    using inv(1) assms(3) by (simp add: tokens_ok_def)
  moreover have "shape_ok ?s"
  proof (rule shape_ok_sub[OF inv(2)])
    fix n m
    show "nxt n ?s = LOne \<Longrightarrow> n = lx_head s"
      using shape_okD(3)[OF inv(2), of n] by (simp split: if_splits)
    show "nxt n ?s = LNode m \<Longrightarrow> nxt n s = LNode m \<or> m \<noteq> n \<and> m < lx_fresh ?s"
      using mine hidden_fresh[OF mine(1)] by (auto split: if_splits)
  qed (use shape_okD(2)[OF inv(2)] loc in simp_all)
  moreover have hid: "hidden e' ?s" if "hidden e' s" "e' \<noteq> e" for e'
  proof (rule hidden_sub[OF that(1)])
    show "nxt n ?s = LNode e' \<Longrightarrow> nxt n s = LNode e'" for n
      using that(2) by (simp split: if_splits)
  qed (use loc in simp_all)
  have other: "e' \<noteq> e" if "brought (lx_pc s u) = Some e'" "u \<noteq> t" for u e'
    using push_okD(3)[OF inv(3), of u e' t] that assms(2) by (auto simp: brought_def)
  have "push_ok ?s"
    unfolding push_ok_def
  proof (intro conjI allI impI)
    fix u u' ev' e' q'
    show "e' < lx_fresh ?s" if "lx_pc ?s u = XPushSwing ev' e' q'"
      using that hidden_fresh[OF mine(1)] push_okD(1)[OF inv(3), of u ev' e' q'] by (cases "u = t") auto
    show "hidden e' ?s" if "brought (lx_pc ?s u) = Some e'"
      using that hid[of e'] other[of u e'] push_okD(2)[OF inv(3), of u e'] by (cases "u = t") (auto simp: brought_def)
    show "u = u'" if "brought (lx_pc ?s u) = Some e'" "brought (lx_pc ?s u') = Some e'"
      using that push_okD(3)[OF inv(3), of u e' u'] by (cases "u = t"; cases "u' = t") (auto simp: brought_def)
    show "brought (lx_pc ?s u') \<noteq> Some e'" if "lx_pc ?s u = XPushSwing ev' e' q'"
      using that other[of u' e'] push_okD(4)[OF inv(3), of u ev' e' q' u'] by (cases "u = t"; cases "u' = t") (auto simp: brought_def)
    show "q' \<noteq> e'" if "lx_pc ?s u = XPushCheck ev' e' q' \<or> lx_pc ?s u = XPushLink ev' e' q'"
      using that push_okD(5)[OF inv(3), of u ev' e' q'] by (cases "u = t") auto
  qed
  ultimately show ?thesis
    by (simp add: lx_inv_def)
qed

lemma push_swing_inv:
  assumes "lx_inv s" "lx_pc s t = XPushSwing ev e q"
  shows "lx_inv (go t (XPushStore ev e q) (if lx_tail s = q then s\<lparr> lx_tail := e \<rparr> else s))"
proof -
  let ?s = "go t (XPushStore ev e q) (if lx_tail s = q then s\<lparr> lx_tail := e \<rparr> else s)"
  note inv = inv_parts[OF assms(1)]
  have f: "nxt n ?s = nxt n s" "lx_head ?s = lx_head s" "lx_tail ?s = (if lx_tail s = q then e else lx_tail s)" "lx_fresh ?s = lx_fresh s"
    "lx_holding ?s = lx_holding s" "lx_pc ?s = (lx_pc s)(t := XPushStore ev e q)" for n
    by simp_all
  have loc: "pop_locals (lx_pc ?s u) = Some x \<Longrightarrow> pop_locals (lx_pc s u) = Some x" for u x
    unfolding f(6) by (cases "u = t") (simp_all add: pc_defs)
  have "poppers ?s = poppers s"
    unfolding poppers_def f(6) using assms(2) by (auto simp: pc_defs)
  then have "tokens_ok ?s"
    using inv(1) f by (simp add: tokens_ok_def)
  moreover have "shape_ok ?s"
    using shape_okD(2, 3)[OF inv(2)] push_okD(1)[OF inv(3) assms(2)] f loc by (intro shape_ok_sub[OF inv(2)]) auto
  moreover have "push_ok ?s"
  proof (rule push_ok_leave[OF inv(3) f(6)])
    fix e' assume e': "hidden e' s" "\<exists>u. u \<noteq> t \<and> brought (lx_pc s u) = Some e'"
    then have "e' \<noteq> e"
      using push_okD(4)[OF inv(3) assms(2)] by auto
    then show "hidden e' ?s"
      using f loc by (intro hidden_sub[OF e'(1)]) auto
  qed (simp_all add: brought_def)
  ultimately show ?thesis
    by (simp add: lx_inv_def)
qed

text \<open>What the lists do not tell does not matter.\<close>

lemma quiet_inv [simp]:
  "lx_inv (set_ev n v s) = lx_inv s" "lx_inv (s\<lparr> lx_waiting := w \<rparr>) = lx_inv s"
  by (simp_all add: lx_inv_def tokens_ok_def shape_ok_def push_ok_def hidden_def)

lemma set_mark_inv:
  assumes "lx_inv s" "nxt r s \<noteq> LOne" "p = LNull \<or> p = LThree"
  shows "lx_inv (set_next r p s)"
proof -
  note inv = inv_parts[OF assms(1)]
  have "tokens_ok (set_next r p s)"
    using inv(1) assms(2, 3) by (auto simp: tokens_ok_def)
  moreover have "shape_ok (set_next r p s)"
    by (rule shape_ok_sub[OF inv(2)]) (use assms(3) shape_okD(2, 3)[OF inv(2)] in \<open>auto split: if_splits\<close>)
  moreover have "hidden e (set_next r p s)" if "hidden e s" for e
    by (rule hidden_sub[OF that]) (use assms(3) in \<open>auto split: if_splits\<close>)
  then have "push_ok (set_next r p s)"
    using inv(3) by (simp add: push_ok_def)
  ultimately show ?thesis
    by (simp add: lx_inv_def)
qed

text \<open>A thread that is neither pushing nor looking at the list changes what it is about to do.\<close>

lemma go_plain_inv:
  assumes "tokens_ok (go t pc s)" "shape_ok s" "push_ok s" "brought pc = None" "pop_locals pc = None" "\<And>ev e q. pc \<noteq> XPushSwing ev e q"
  shows "lx_inv (go t pc s)"
proof -
  have loc: "pop_locals (lx_pc (go t pc s) u) = Some x \<Longrightarrow> pop_locals (lx_pc s u) = Some x" for u x
    using assms(5) by (cases "u = t") simp_all
  have "shape_ok (go t pc s)"
    by (rule shape_ok_sub[OF assms(2)]) (use shape_okD(2, 3)[OF assms(2)] loc in auto)
  moreover have "hidden e (go t pc s)" if "hidden e s" for e
    by (rule hidden_sub[OF that]) (use loc in auto)
  then have "push_ok (go t pc s)"
    using assms(4, 6) by (intro push_ok_leave[OF assms(3), where t = t and pc = pc]) simp_all
  ultimately show ?thesis
    using assms(1) by (simp add: lx_inv_def)
qed

lemma holding_parts:
  "shape_ok (s\<lparr> lx_holding := x \<rparr>) = shape_ok s" "push_ok (s\<lparr> lx_holding := x \<rparr>) = push_ok s"
  "shape_ok (s\<lparr> lx_holding := x, lx_waiting := y \<rparr>) = shape_ok s" "push_ok (s\<lparr> lx_holding := x, lx_waiting := y \<rparr>) = push_ok s"
  by (simp_all add: shape_ok_def push_ok_def hidden_def)

lemma release_begin_inv:
  assumes "lx_inv s" "lx_pc s t = XIdle" "ev \<in> set (lx_holding s)"
  shows "lx_inv (release_begin t ev s)"
proof -
  note inv = inv_parts[OF assms(1)]
  have "t \<notin> poppers s" "finite (poppers s)"
    using assms(2) inv(1) by (simp_all add: poppers_def pc_defs tokens_ok_def)
  moreover have "lx_holding s \<noteq> []"
    using assms(3) by auto
  ultimately have "tokens_ok (release_begin t ev s)"
    using inv(1) assms(3)
    by (auto simp: tokens_ok_def release_begin_def poppers_go length_remove1 pc_defs neq_Nil_conv split: if_splits)
  then show ?thesis
    unfolding release_begin_def
    by (rule go_plain_inv) (simp_all add: holding_parts inv pc_defs)
qed

lemma pop_advance_inv:
  assumes "lx_inv s" "lx_pc s t = XPopAdvance ev h (LNode n)" "lx_head s = h"
  shows "lx_inv (go t (XPopReset ev h) (s\<lparr> lx_head := n \<rparr>))"
proof -
  let ?s = "go t (XPopReset ev h) (s\<lparr> lx_head := n \<rparr>)"
  note inv = inv_parts[OF assms(1)]
  have mine: "pop_locals (lx_pc s t) = Some (h, LNode n)" "popping (lx_pc s t)"
    using assms(2) by (simp_all add: pc_defs)
  note alone = popper_alone[OF inv(1) mine(2)]
  have n: "n \<noteq> h" "n < lx_fresh s"
    using shape_okD(5)[OF inv(2) mine(1)] by simp_all
  have one: "nxt m s \<noteq> LOne" for m
    using shape_okD(3)[OF inv(2), of m] alone(3) by metis
  have none: "pop_locals (lx_pc ?s u) = None" for u
  proof (cases "u = t")
    case False
    then have "\<not> popping (lx_pc s u)"
      using alone(2) by (auto simp: poppers_def)
    then show ?thesis
      using False by (auto simp: pc_defs split: lx_pc.splits)
  qed (simp add: pc_defs)
  have "tokens_ok ?s"
    using alone one by (simp add: tokens_ok_def poppers_go pc_defs)
  moreover have "shape_ok ?s"
    using inv(2) n one none unfolding shape_ok_def by simp
  moreover have "hidden e ?s" if "hidden e s" for e
    using that none mine(1) unfolding hidden_def by auto
  then have "push_ok ?s"
    by (intro push_ok_leave[OF inv(3), where t = t and pc = "XPopReset ev h"]) (simp_all add: brought_def)
  ultimately show ?thesis
    by (simp add: lx_inv_def)
qed

lemma pop_empty_inv:
  assumes "lx_inv s" "lx_pc s t = XPopEmpty ev h hn"
  shows "lx_inv (go t XIdle (set_next h LOne s))"
proof -
  let ?s = "go t XIdle (set_next h LOne s)"
  note inv = inv_parts[OF assms(1)]
  have mine: "pop_locals (lx_pc s t) = Some (h, hn)" "popping (lx_pc s t)"
    using assms(2) by (simp_all add: pc_defs)
  note alone = popper_alone[OF inv(1) mine(2)]
  have h: "h = lx_head s"
    using shape_okD(5)[OF inv(2) mine(1)] by simp
  have loc: "pop_locals (lx_pc ?s u) = Some x \<Longrightarrow> pop_locals (lx_pc s u) = Some x" for u x
    by (cases "u = t") (simp_all add: pc_defs)
  have "tokens_ok ?s"
    using alone h by (simp add: tokens_ok_def poppers_go pc_defs)
  moreover have "shape_ok ?s"
    by (rule shape_ok_sub[OF inv(2)]) (use h loc shape_okD(2, 3)[OF inv(2)] in \<open>auto split: if_splits\<close>)
  moreover have "hidden e ?s" if "hidden e s" for e
    by (rule hidden_sub[OF that]) (use loc in \<open>auto split: if_splits\<close>)
  then have "push_ok ?s"
    by (intro push_ok_leave[OF inv(3), where t = t and pc = XIdle]) (simp_all add: brought_def)
  ultimately show ?thesis
    by (simp add: lx_inv_def)
qed

lemma give_inv:
  assumes "lx_inv s" "lx_pc s t = XRelGive ev r"
  shows "lx_inv (go t XIdle (s\<lparr> lx_holding := w # lx_holding s, lx_waiting := y \<rparr>))"
proof -
  note inv = inv_parts[OF assms(1)]
  have "popping (lx_pc s t)"
    using assms(2) by (simp add: pc_defs)
  note alone = popper_alone[OF inv(1) this]
  show ?thesis
    by (rule go_plain_inv) (simp_all add: holding_parts inv tokens_ok_def poppers_go alone pc_defs)
qed

lemma push_idle_inv:
  assumes "lx_inv s" "\<not> popping (lx_pc s t)"
  shows "lx_inv (go t XIdle s)"
  using assms by (intro go_ok) (simp_all add: pc_defs)

lemma push_step_inv:
  assumes "lx_inv s"
  shows "lx_inv (push_step t s)"
proof (cases "lx_pc s t")
  case (XPushAcquire ev e h)
  show ?thesis
  proof (cases "nxt h s = LOne")
    case True
    then show ?thesis
      using push_acquire_inv[OF assms XPushAcquire] XPushAcquire by (simp add: push_step_def)
  next
    case False
    then show ?thesis
      using XPushAcquire by (auto simp: push_step_def pc_defs intro!: go_ok[OF assms])
  qed
next
  case (XPushTail ev e)
  have "lx_tail s \<noteq> e"
    using push_okD(2)[OF inv_parts(3)[OF assms], of t e] XPushTail by (auto simp: pc_defs hidden_def)
  then show ?thesis
    using XPushTail by (auto simp: push_step_def pc_defs intro!: go_ok[OF assms])
next
  case (XPushCheck ev e q)
  then show ?thesis
    using push_okD(5)[OF inv_parts(3)[OF assms], of t ev e q]
    by (auto simp: push_step_def pc_defs intro!: go_ok[OF assms])
next
  case (XPushLink ev e q)
  show ?thesis
  proof (cases "nxt q s = LNull")
    case True
    then show ?thesis
      using push_link_inv[OF assms XPushLink] XPushLink by (simp add: push_step_def)
  next
    case False
    then show ?thesis
      using XPushLink by (auto simp: push_step_def pc_defs intro!: go_ok[OF assms])
  qed
next
  case (XPushSwing ev e q)
  then show ?thesis
    using push_swing_inv[OF assms XPushSwing] by (simp add: push_step_def)
next
  case (XPushStore ev e q)
  have "lx_inv (go t XIdle s)"
    using assms XPushStore by (intro push_idle_inv) (simp_all add: pc_defs)
  moreover have "go t XIdle (set_ev q (Some ev) (s\<lparr> lx_waiting := ev # lx_waiting s \<rparr>)) =
      set_ev q (Some ev) ((go t XIdle s)\<lparr> lx_waiting := ev # lx_waiting s \<rparr>)"
    by (simp add: go_def set_ev_def)
  ultimately show ?thesis
    using XPushStore by (simp add: push_step_def)
qed (use assms in \<open>auto simp: push_step_def pc_defs intro!: go_ok\<close>)

text \<open>What a popping thread will hand on, it has seen to be there.\<close>

definition seen_ev :: "lx_pc \<Rightarrow> nat option" where
  "seen_ev pc = (case pc of XRelMark _ r \<Rightarrow> Some r | XRelGive _ r \<Rightarrow> Some r | _ \<Rightarrow> None)"

definition popped :: "lx_pc \<Rightarrow> nat option" where
  "popped pc = (case pc of XPopNext _ h \<Rightarrow> Some h | XPopTail _ h _ \<Rightarrow> Some h | XPopLag _ h _ _ \<Rightarrow> Some h | XPopTail2 _ h _ \<Rightarrow> Some h
     | XPopEv _ h _ \<Rightarrow> Some h | XPopAdvance _ h _ \<Rightarrow> Some h | XPopReset _ r \<Rightarrow> Some r | XPopWait _ r \<Rightarrow> Some r
     | XRelMark _ r \<Rightarrow> Some r | XRelGive _ r \<Rightarrow> Some r | _ \<Rightarrow> None)"

definition rel_ok :: "lfx \<Rightarrow> bool" where
  "rel_ok s \<longleftrightarrow> (\<forall>t r. popped (lx_pc s t) = Some r \<longrightarrow> r < lx_fresh s) \<and>
     (\<forall>t r. seen_ev (lx_pc s t) = Some r \<longrightarrow> hb_ev (lx_nodes s r) \<noteq> None)"

lemma rel_ok_sub:
  assumes "rel_ok s" "lx_fresh s \<le> lx_fresh s'" "\<And>n. n < lx_fresh s \<Longrightarrow> hb_ev (lx_nodes s n) \<noteq> None \<Longrightarrow> hb_ev (lx_nodes s' n) \<noteq> None"
    and "\<And>u. u \<noteq> t \<Longrightarrow> lx_pc s' u = lx_pc s u" "\<And>r. popped (lx_pc s' t) = Some r \<Longrightarrow> r < lx_fresh s'"
    and "\<And>r. seen_ev (lx_pc s' t) = Some r \<Longrightarrow> hb_ev (lx_nodes s' r) \<noteq> None"
  shows "rel_ok s'"
proof -
  have seen: "r < lx_fresh s" if "seen_ev (lx_pc s u) = Some r" for u r
  proof -
    have "popped (lx_pc s u) = Some r"
      using that by (auto simp: seen_ev_def popped_def split: lx_pc.splits)
    then show ?thesis
      using assms(1) unfolding rel_ok_def by blast
  qed
  have "r < lx_fresh s'" if "popped (lx_pc s' u) = Some r" for u r
  proof (cases "u = t")
    case False
    then have "r < lx_fresh s"
      using that assms(1) assms(4)[of u] unfolding rel_ok_def by metis
    then show ?thesis
      using assms(2) by simp
  qed (use assms(5) that in blast)
  moreover have "hb_ev (lx_nodes s' r) \<noteq> None" if "seen_ev (lx_pc s' u) = Some r" for u r
  proof (cases "u = t")
    case False
    then have *: "seen_ev (lx_pc s u) = Some r"
      using that assms(4)[of u] by simp
    then have "hb_ev (lx_nodes s r) \<noteq> None"
      using assms(1) unfolding rel_ok_def by blast
    then show ?thesis
      using assms(3) seen[OF *] by blast
  qed (use assms(6) that in blast)
  ultimately show ?thesis
    unfolding rel_ok_def by blast
qed

lemmas ev_simps = go_def set_next_def set_ev_def acquired_def Let_def

lemma push_step_rel_ok:
  assumes "rel_ok s"
  shows "rel_ok (push_step t s)"
proof (rule rel_ok_sub[OF assms, where t = t])
  have own: "popped (lx_pc s t) = Some r \<Longrightarrow> r < lx_fresh s" "seen_ev (lx_pc s t) = Some r \<Longrightarrow> hb_ev (lx_nodes s r) \<noteq> None" for r
    using assms unfolding rel_ok_def by blast+
  show "popped (lx_pc (push_step t s) t) = Some r \<Longrightarrow> r < lx_fresh (push_step t s)" for r
    using own by (cases "lx_pc s t") (auto simp: push_step_def popped_def ev_simps split: if_splits)
  show "seen_ev (lx_pc (push_step t s) t) = Some r \<Longrightarrow> hb_ev (lx_nodes (push_step t s) r) \<noteq> None" for r
    using own by (cases "lx_pc s t") (auto simp: push_step_def seen_ev_def ev_simps split: if_splits)
qed (cases "lx_pc s t"; force simp: push_step_def ev_simps)+

lemma pop_step_rel_ok:
  assumes "rel_ok s" "shape_ok s"
  shows "rel_ok (pop_step t s)"
proof (rule rel_ok_sub[OF assms(1), where t = t])
  have own: "popped (lx_pc s t) = Some r \<Longrightarrow> r < lx_fresh s" "seen_ev (lx_pc s t) = Some r \<Longrightarrow> hb_ev (lx_nodes s r) \<noteq> None" for r
    using assms(1) unfolding rel_ok_def by blast+
  show "popped (lx_pc (pop_step t s) t) = Some r \<Longrightarrow> r < lx_fresh (pop_step t s)" for r
    using own shape_okD(1)[OF assms(2)]
    by (cases "lx_pc s t") (auto simp: pop_step_def popped_def ev_simps split: if_splits lptr.splits option.splits)
  show "seen_ev (lx_pc (pop_step t s) t) = Some r \<Longrightarrow> hb_ev (lx_nodes (pop_step t s) r) \<noteq> None" for r
    using own
    by (cases "lx_pc s t") (auto simp: pop_step_def seen_ev_def ev_simps split: if_splits lptr.splits option.splits)
qed (auto simp: pop_step_def ev_simps split: lx_pc.splits if_splits lptr.splits option.splits)

lemma pop_step_inv:
  assumes "lx_inv s" "rel_ok s"
  shows "lx_inv (pop_step t s)"
proof -
  note inv = inv_parts[OF assms(1)]
  have loc: "pop_locals (lx_pc s t) = Some (h, hn) \<Longrightarrow> h = lx_head s" for h hn
    using shape_okD(5)[OF inv(2)] by blast
  have busy: "nxt r s \<noteq> LOne" if "popping (lx_pc s t)" for r
    using popper_alone(3)[OF inv(1) that] shape_okD(3)[OF inv(2), of r] by metis
  note moves = go_ok[OF assms(1)]
  show ?thesis
  proof (cases "lx_pc s t")
    case (XPopAdvance ev h hn)
    show ?thesis
    proof (cases "lx_head s = h")
      case True
      then show ?thesis
        using XPopAdvance pop_advance_inv[OF assms(1), of t ev h]
        by (cases hn) (auto simp: pop_step_def pc_defs intro!: moves)
    next
      case False
      then show ?thesis
        using XPopAdvance by (auto simp: pop_step_def pc_defs intro!: moves)
    qed
  next
    case (XPopEmpty ev h hn)
    show ?thesis
    proof (cases "nxt h s = hn")
      case True
      then show ?thesis
        using XPopEmpty pop_empty_inv[OF assms(1) XPopEmpty] by (simp add: pop_step_def)
    next
      case False
      then show ?thesis
        using XPopEmpty by (auto simp: pop_step_def pc_defs intro!: moves)
    qed
  next
    case (XPopReset ev r)
    have "lx_inv (set_next r LNull s)"
      using set_mark_inv[OF assms(1) busy] XPopReset by (simp add: pc_defs)
    then have "lx_inv (go t (XPopWait ev r) (set_next r LNull s))"
      using XPopReset by (intro go_ok) (simp_all add: pc_defs)
    then show ?thesis
      using XPopReset by (simp add: pop_step_def)
  next
    case (XRelMark ev r)
    have "lx_inv (set_next r LThree s)"
      using set_mark_inv[OF assms(1) busy] XRelMark by (simp add: pc_defs)
    then have "lx_inv (go t (XRelGive ev r) (set_next r LThree s))"
      using XRelMark by (intro go_ok) (simp_all add: pc_defs)
    then show ?thesis
      using XRelMark by (simp add: pop_step_def)
  next
    case (XRelGive ev r)
    then have "hb_ev (lx_nodes s r) \<noteq> None"
      using assms(2) unfolding rel_ok_def by (metis lx_pc.simps seen_ev_def)
    then show ?thesis
      using XRelGive give_inv[OF assms(1) XRelGive] by (auto simp: pop_step_def)
  qed (use assms loc in \<open>auto simp: pop_step_def pc_defs intro!: moves\<close>)
qed

lemma begin_rel_ok:
  assumes "rel_ok s"
  shows "rel_ok (acquire_begin t ev s)" "rel_ok (release_begin t ev s)"
  by (rule rel_ok_sub[OF assms, where t = t]; force simp: acquire_begin_def release_begin_def popped_def seen_ev_def ev_simps)+

lemma lx_act_inv:
  assumes "lx_inv s" "rel_ok s"
  shows "lx_inv (lx_act a s) \<and> rel_ok (lx_act a s)"
  using assms
  by (cases a) (simp_all add: lx_act_def acquire_begin_inv release_begin_inv begin_rel_ok pop_step_inv push_step_inv
      push_step_rel_ok pop_step_rel_ok inv_parts)

lemma lx_new_inv: "lx_inv lx_new" "rel_ok lx_new"
proof -
  have pcs: "lx_pc lx_new t = XIdle" and nx: "nxt n lx_new = (if n = 0 then LOne else LNull)" for t n
    by (simp_all add: lx_new_def nxt_def ebh_new_def)
  have "shape_ok lx_new" "push_ok lx_new" "rel_ok lx_new"
    by (simp_all add: shape_ok_def push_ok_def rel_ok_def pcs nx pc_defs popped_def seen_ev_def) (simp_all add: lx_new_def)
  moreover have "tokens_ok lx_new"
    by (simp add: tokens_ok_def poppers_def pcs nx popping_def) (simp add: lx_new_def)
  ultimately show "lx_inv lx_new" "rel_ok lx_new"
    by (simp_all add: lx_inv_def)
qed

lemma lx_run_inv: "lx_inv s \<Longrightarrow> rel_ok s \<Longrightarrow> lx_inv (lx_run as s) \<and> rel_ok (lx_run as s)"
  unfolding lx_run_def by (induction as arbitrary: s) (simp_all add: lx_act_inv)

text \<open>C26: Whatever the interleaving, at most one event is let in, and the atomic says that it is free exactly
  while no event is in and no thread is handing it on.\<close>

theorem lockfree_exclusive_safe:
  "length (lx_holding (lx_run as lx_new)) \<le> 1 \<and>
   (lx_empty (lx_run as lx_new) \<longleftrightarrow> lx_holding (lx_run as lx_new) = [] \<and> (\<forall>t. \<not> popping (lx_pc (lx_run as lx_new) t)))"
proof -
  let ?s = "lx_run as lx_new"
  have tok: "tokens_ok ?s"
    using lx_run_inv[OF lx_new_inv] by (simp add: inv_parts)
  then have eq: "length (lx_holding ?s) + card (poppers ?s) = (if lx_empty ?s then 0 else 1)" and fin: "finite (poppers ?s)"
    by (simp_all add: tokens_ok_def lx_empty_def)
  have pops: "(\<forall>t. \<not> popping (lx_pc ?s t)) \<longleftrightarrow> card (poppers ?s) = 0"
    using fin by (auto simp: poppers_def)
  show ?thesis
    using eq unfolding pops by (cases "lx_empty ?s"; cases "lx_holding ?s") auto
qed

section \<open>Used by one thread at a time\<close>

text \<open>An operation that no other thread interleaves: seven steps end a push, eleven a pop and its release.\<close>

datatype lx_op = Take nat nat | Leave nat nat

definition lx_whole :: "lx_op \<Rightarrow> lfx \<Rightarrow> lfx" where
  "lx_whole op s = (case op of
      Take t ev \<Rightarrow> lx_run (Acquire t ev # replicate 7 (Step t)) s
    | Leave t ev \<Rightarrow> lx_run (Release t ev # replicate 11 (Step t)) s)"

definition classic_op :: "lx_op \<Rightarrow> lop" where
  "classic_op op = (case op of Take _ ev \<Rightarrow> LAcquire ev wt_Exclusive | Leave _ ev \<Rightarrow> LRelease (ev, wt_Exclusive))"

text \<open>The nodes of a held list, first to last, and the waiters they hold.\<close>

fun wchain :: "nat list \<Rightarrow> nat list \<Rightarrow> (nat \<Rightarrow> ebh) \<Rightarrow> bool" where
  "wchain [q] [] m = (m q = \<lparr> hb_ev = None, hb_next = LNull \<rparr>)"
| "wchain (h # n # ns) (w # ws) m = (m h = \<lparr> hb_ev = Some w, hb_next = LNode n \<rparr> \<and> wchain (n # ns) ws m)"
| "wchain _ _ m = False"

lemma wchain_cong: "(\<And>n. n \<in> set ns \<Longrightarrow> m' n = m n) \<Longrightarrow> wchain ns ws m' = wchain ns ws m"
  by (induction ns ws m rule: wchain.induct) auto

lemma wchain_snoc:
  "wchain (ns @ [q]) ws m \<Longrightarrow> q \<notin> set ns \<Longrightarrow> e \<notin> set ns \<Longrightarrow> e \<noteq> q \<Longrightarrow>
    wchain (ns @ [q, e]) (ws @ [w]) (m(q := \<lparr> hb_ev = Some w, hb_next = LNode e \<rparr>, e := \<lparr> hb_ev = None, hb_next = LNull \<rparr>))"
proof (induction ns arbitrary: ws)
  case Nil
  then show ?case
    by (cases ws) simp_all
next
  case (Cons h ns)
  then obtain n ns' w' ws' where "ns @ [q] = n # ns'" "ws = w' # ws'"
    by (cases ws; cases ns) auto
  with Cons show ?case
    by (cases ns) auto
qed

lemma wchain_length: "wchain ns ws m \<Longrightarrow> length ns = Suc (length ws)"
  by (induction ns ws m rule: wchain.induct) auto

lemma wchain_ends: "wchain ns ws m \<Longrightarrow> ns \<noteq> [] \<and> m (last ns) = \<lparr> hb_ev = None, hb_next = LNull \<rparr>"
  by (induction ns ws m rule: wchain.induct) auto

lemma wchain_head: "wchain ns ws m \<Longrightarrow> hb_next (m (hd ns)) \<noteq> LOne"
  by (induction ns ws m rule: wchain.induct) auto

lemma wchain_count:
  "wchain ns ws (lx_nodes s) \<Longrightarrow> length ns \<le> k \<Longrightarrow> lx_count_from k (LNode (hd ns)) s = length ws"
proof (induction ns ws "lx_nodes s" arbitrary: k rule: wchain.induct)
  case (1 q)
  then show ?case
    by (cases k) simp_all
next
  case (2 h n ns w ws)
  then show ?case
    by (cases k) (simp_all add: nxt_def)
qed simp_all

definition resting :: "nat list \<Rightarrow> lfx \<Rightarrow> bool" where
  "resting ns s \<longleftrightarrow> (\<forall>t. lx_pc s t = XIdle) \<and> distinct ns \<and> (\<forall>n\<in>set ns. n < lx_fresh s) \<and> lx_head s = hd ns \<and> lx_tail s = last ns"

definition held_by :: "nat \<Rightarrow> nat list \<Rightarrow> nat list \<Rightarrow> lfx \<Rightarrow> bool" where
  "held_by x ns ws s \<longleftrightarrow> resting ns s \<and> wchain ns ws (lx_nodes s) \<and> lx_holding s = [x]"

definition free_at :: "nat \<Rightarrow> lfx \<Rightarrow> bool" where
  "free_at q s \<longleftrightarrow> resting [q] s \<and> lx_nodes s q = \<lparr> hb_ev = None, hb_next = LOne \<rparr> \<and> lx_holding s = []"

lemma step_simps:
  "lx_run [] s = s" "lx_run (a # as) s = lx_run as (lx_act a s)" "lx_act (Step t) s = pop_step t (push_step t s)"
  by (simp_all add: lx_run_def lx_act_def)

lemmas run_simps = step_simps push_step_def pop_step_def nxt_def unmk_def set_next_def set_ev_def go_def acquired_def

lemma idle_run: "lx_pc s t = XIdle \<Longrightarrow> lx_run (replicate n (Step t)) s = s"
  by (induction n) (simp_all add: run_simps)

lemma lx_run_append: "lx_run (as @ bs) s = lx_run bs (lx_run as s)"
  by (simp add: lx_run_def)

lemma take_free:
  assumes "free_at q s"
  shows "held_by ev [q] [] (lx_whole (Take t ev) s)"
proof -
  let ?s = "acquire_begin t ev s"
  have a: "lx_pc s t = XIdle" "lx_head s = q" "lx_tail s = q" "q < lx_fresh s" "lx_nodes s q = \<lparr> hb_ev = None, hb_next = LOne \<rparr>"
    using assms by (simp_all add: free_at_def resting_def)
  let ?e = "lx_fresh s"
  let ?f = "lx_run (replicate 3 (Step t)) ?s"
  have f: "lx_pc ?f = (lx_pc s)(t := XIdle)" "lx_head ?f = q" "lx_tail ?f = q" "lx_fresh ?f = Suc ?e"
    "lx_nodes ?f q = \<lparr> hb_ev = None, hb_next = LNull \<rparr>" "lx_holding ?f = ev # lx_holding s"
    using a by (simp_all add: numeral_3_eq_3 run_simps acquire_begin_def Let_def ebh_new_def)
  have "lx_whole (Take t ev) s = lx_run (replicate 4 (Step t)) ?f"
    using a(1) replicate_add[of 3 4 "Step t"] by (simp add: lx_whole_def step_simps(2) lx_act_def lx_run_append)
  also have "\<dots> = ?f"
    using f(1) by (intro idle_run) simp
  finally show ?thesis
    using assms f a(4) by (simp add: held_by_def free_at_def resting_def)
qed

lemma take_held:
  assumes "held_by x ns ws s"
  shows "\<exists>ns'. held_by x ns' (ws @ [ev]) (lx_whole (Take t ev) s)"
proof -
  let ?e = "lx_fresh s" and ?s = "lx_whole (Take t ev) s"
  have c: "wchain ns ws (lx_nodes s)" and r: "resting ns s"
    using assms by (simp_all add: held_by_def)
  then obtain ns0 q where ns: "ns = ns0 @ [q]"
    using wchain_ends by (metis append_butlast_last_id)
  have a: "lx_pc s t = XIdle" "lx_head s = hd ns" "lx_tail s = q" "q < ?e" "hd ns < ?e" "q \<notin> set ns0" "?e \<notin> set ns0"
    using r wchain_ends[OF c] ns by (cases ns0; auto simp: resting_def)+
  have q: "lx_nodes s q = \<lparr> hb_ev = None, hb_next = LNull \<rparr>" "hb_next (lx_nodes s (hd ns)) \<noteq> LOne"
    using wchain_ends[OF c] wchain_head[OF c] ns by simp_all
  let ?m = "(lx_nodes s)(q := \<lparr> hb_ev = Some ev, hb_next = LNode ?e \<rparr>, ?e := \<lparr> hb_ev = None, hb_next = LNull \<rparr>)"
  have f: "lx_pc ?s u = (if u = t then XIdle else lx_pc s u)" "lx_head ?s = hd ns" "lx_tail ?s = ?e" "lx_fresh ?s = Suc ?e"
    "lx_holding ?s = lx_holding s" "lx_nodes ?s n = ?m n" for u n
    using a q by (simp_all add: lx_whole_def numeral_nat run_simps lx_act_def acquire_begin_def Let_def ebh_new_def)
  then have m: "lx_nodes ?s = ?m"
    by blast
  have "wchain (ns0 @ [q, ?e]) (ws @ [ev]) ?m"
    using c a(4, 6, 7) unfolding ns by (intro wchain_snoc) simp_all
  then have "held_by x (ns0 @ [q, ?e]) (ws @ [ev]) ?s"
    using assms r ns f m by (auto simp: held_by_def resting_def hd_append)
  then show ?thesis
    by blast
qed

lemma leave_held:
  assumes "held_by x ns (w # ws) s"
  shows "\<exists>ns'. held_by w ns' ws (lx_whole (Leave t x) s)"
proof -
  let ?s = "lx_whole (Leave t x) s"
  have c: "wchain ns (w # ws) (lx_nodes s)" and r: "resting ns s" and x: "lx_holding s = [x]"
    using assms by (simp_all add: held_by_def)
  then obtain h n ns0 where ns: "ns = h # n # ns0"
    using wchain_length[OF c] by (auto simp: length_Suc_conv)
  obtain q where q: "last (n # ns0) = q"
    by blast
  have a: "lx_pc s t = XIdle" "lx_head s = h" "lx_tail s = q" "h \<noteq> q" "h \<notin> set (n # ns0)"
  proof -
    have "q \<in> set (n # ns0)"
      unfolding q[symmetric] by (rule last_in_set) simp
    moreover have "last ns = q" "hd ns = h" "distinct ns"
      using ns q r by (simp_all add: resting_def)
    ultimately show "lx_pc s t = XIdle" "lx_head s = h" "lx_tail s = q" "h \<noteq> q" "h \<notin> set (n # ns0)"
      using r ns unfolding resting_def by auto
  qed
  have h: "lx_nodes s h = \<lparr> hb_ev = Some w, hb_next = LNode n \<rparr>" "lx_nodes s q = \<lparr> hb_ev = None, hb_next = LNull \<rparr>"
    "wchain (n # ns0) ws (lx_nodes s)"
    using c wchain_ends[OF c] ns q by (simp_all split: if_splits)
  let ?m = "(lx_nodes s)(h := \<lparr> hb_ev = Some w, hb_next = LThree \<rparr>)"
  let ?s1 = "go t (XPopAdvance x h (LNode n)) (s\<lparr> lx_holding := [] \<rparr>)"
  have s1: "lx_run (replicate 6 (Step t)) (release_begin t x s) = ?s1"
    using a(1-4) h(1, 2) x by (simp add: numeral_nat run_simps release_begin_def)
  have "?s = lx_run (replicate 5 (Step t)) (lx_run (replicate 6 (Step t)) (release_begin t x s))"
    using a(1) x replicate_add[of 6 5 "Step t"] by (simp add: lx_whole_def step_simps(2) lx_act_def lx_run_append)
  then have s2: "?s = lx_run (replicate 5 (Step t)) ?s1"
    using s1 by simp
  have f: "lx_pc ?s u = (if u = t then XIdle else lx_pc s u)" "lx_head ?s = n" "lx_tail ?s = q" "lx_fresh ?s = lx_fresh s"
    "lx_holding ?s = [w]" "lx_nodes ?s k = ?m k" for u k
    unfolding s2 using a(1-4) h(1) by (simp_all add: numeral_nat run_simps)
  then have m: "lx_nodes ?s = ?m"
    by blast
  have "wchain (n # ns0) ws ?m"
    using h(3) a(5) wchain_cong[of "n # ns0" ?m "lx_nodes s" ws] by fastforce
  then have "held_by w (n # ns0) ws ?s"
    using r ns f m q by (auto simp: held_by_def resting_def)
  then show ?thesis
    by blast
qed

lemma leave_last:
  assumes "held_by x ns [] s"
  shows "\<exists>q. free_at q (lx_whole (Leave t x) s)"
proof -
  let ?s = "lx_whole (Leave t x) s"
  have c: "wchain ns [] (lx_nodes s)" and r: "resting ns s" and x: "lx_holding s = [x]"
    using assms by (simp_all add: held_by_def)
  then obtain q where ns: "ns = [q]"
    using wchain_length[OF c] by (auto simp: length_Suc_conv)
  have a: "lx_pc s t = XIdle" "lx_head s = q" "lx_tail s = q" "lx_nodes s q = \<lparr> hb_ev = None, hb_next = LNull \<rparr>"
    using r c ns by (auto simp: resting_def)
  let ?f = "lx_run (replicate 6 (Step t)) (release_begin t x s)"
  have f: "lx_pc ?f u = (if u = t then XIdle else lx_pc s u)" "lx_head ?f = q" "lx_tail ?f = q" "lx_fresh ?f = lx_fresh s"
    "lx_holding ?f = []" "lx_nodes ?f q = \<lparr> hb_ev = None, hb_next = LOne \<rparr>" for u
    using a x by (simp_all add: numeral_nat run_simps release_begin_def)
  have "?s = lx_run (replicate 5 (Step t)) ?f"
    using a(1) x replicate_add[of 6 5 "Step t"] by (simp add: lx_whole_def step_simps(2) lx_act_def lx_run_append)
  also have "\<dots> = ?f"
    using f(1) by (intro idle_run) simp
  finally show ?thesis
    using r f ns by (auto simp: free_at_def resting_def)
qed

definition matches :: "lfx \<Rightarrow> acommon \<times> aqe list \<Rightarrow> bool" where
  "matches s c \<longleftrightarrow> (case c of (a, hs) \<Rightarrow>
     (\<exists>x ns. held_by x ns (map fst (ac_waiters a)) s \<and> hs = [(x, wt_Exclusive)] \<and> ac_held a = 1) \<or>
     (\<exists>q. free_at q s) \<and> hs = [] \<and> ac_held a = 0 \<and> ac_waiters a = []) \<and> (\<forall>p\<in>set (ac_waiters (fst c)). snd p = wt_Exclusive)"

lemma matches_new: "matches lx_new (acommon_new d, [])"
proof -
  have "free_at 0 lx_new"
    by (simp add: free_at_def resting_def lx_new_def)
  then show ?thesis
    by (auto simp: matches_def acommon_new_def)
qed

abbreviation classic_exec :: "lx_op \<Rightarrow> acommon \<times> aqe list \<Rightarrow> acommon \<times> aqe list" where
  "classic_exec op \<equiv> lk_exec ex_acquire_or_wait ex_release ac_poke ac_waiters (classic_op op)"

lemma leave_not_in: "x \<notin> set (lx_holding s) \<Longrightarrow> lx_pc s t = XIdle \<Longrightarrow> lx_whole (Leave t x) s = s"
  using idle_run[of s t 11] by (simp add: lx_whole_def step_simps(2) lx_act_def)

lemma matches_step:
  assumes "matches s (a, hs)"
  shows "matches (lx_whole op s) (classic_exec op (a, hs))"
proof -
  have kinds: "\<forall>p\<in>set (ac_waiters a). snd p = wt_Exclusive"
    using assms by (simp add: matches_def)
  consider (held) x ns where "held_by x ns (map fst (ac_waiters a)) s" "hs = [(x, wt_Exclusive)]" "ac_held a = 1"
    | (free) q where "free_at q s" "hs = []" "ac_held a = 0" "ac_waiters a = []"
    using assms by (auto simp: matches_def)
  then show ?thesis
  proof cases
    case held
    have rest: "lx_pc s t = XIdle" "lx_holding s = [x]" for t
      using held(1) by (simp_all add: held_by_def resting_def)
    show ?thesis
    proof (cases op)
      case (Take t ev)
      then show ?thesis
        using take_held[OF held(1), of ev t] held kinds
        by (auto simp: matches_def classic_op_def ex_acquire_or_wait_def Let_def)
    next
      case (Leave t ev)
      show ?thesis
      proof (cases "ev = x")
        case True
        then show ?thesis
          using Leave held kinds leave_held[of x ns _ _ s t] leave_last[of x ns s t]
          by (cases "ac_waiters a") (auto simp: matches_def classic_op_def ex_release_def Let_def)
      next
        case False
        then show ?thesis
          using Leave held kinds rest leave_not_in[of ev s t] by (auto simp: matches_def classic_op_def)
      qed
    qed
  next
    case free
    have rest: "lx_pc s t = XIdle" "lx_holding s = []" for t
      using free(1) by (simp_all add: free_at_def resting_def)
    show ?thesis
    proof (cases op)
      case (Take t ev)
      then show ?thesis
        using take_free[OF free(1), of ev t] free
        by (auto simp: matches_def classic_op_def ex_acquire_or_wait_def Let_def)
    next
      case (Leave t ev)
      then show ?thesis
        using free rest leave_not_in[of ev s t] by (auto simp: matches_def classic_op_def)
    qed
  qed
qed

lemma matches_run: "matches s c \<Longrightarrow> matches (fold lx_whole ops s) (fold classic_exec ops c)"
proof (induction ops arbitrary: s c)
  case (Cons op ops)
  then show ?case
    using matches_step[of s "fst c" "snd c" op] by simp
qed simp

lemma matches_facts:
  assumes "matches s (a, hs)"
  shows "lx_holding s = map fst hs" "lx_held s \<longleftrightarrow> ac_held a \<noteq> 0" "lx_count s = length (ac_waiters a)"
proof -
  consider (held) x ns where "held_by x ns (map fst (ac_waiters a)) s" "hs = [(x, wt_Exclusive)]" "ac_held a = 1"
    | (free) q where "free_at q s" "hs = []" "ac_held a = 0" "ac_waiters a = []"
    using assms by (auto simp: matches_def)
  then have "lx_holding s = map fst hs \<and> (lx_held s \<longleftrightarrow> ac_held a \<noteq> 0) \<and> lx_count s = length (ac_waiters a)"
  proof cases
    case held
    have c: "wchain ns (map fst (ac_waiters a)) (lx_nodes s)" and r: "resting ns s"
      using held(1) by (simp_all add: held_by_def)
    have "length ns \<le> lx_fresh s"
    proof -
      have "set ns \<subseteq> {..<lx_fresh s}"
        using r by (auto simp: resting_def)
      then show ?thesis
        using r card_mono[of "{..<lx_fresh s}" "set ns"] by (simp add: resting_def distinct_card)
    qed
    then have "lx_count s = length (ac_waiters a)"
      using wchain_count[OF c] r by (simp add: lx_count_def resting_def)
    moreover have "\<not> lx_empty s"
      using wchain_head[OF c] r by (simp add: lx_empty_def nxt_def resting_def)
    ultimately show ?thesis
      using held by (simp add: held_by_def lx_held_def)
  next
    case free
    then show ?thesis
      by (cases "lx_fresh s") (simp_all add: free_at_def resting_def lx_held_def lx_empty_def nxt_def lx_count_def)
  qed
  then show "lx_holding s = map fst hs" "lx_held s \<longleftrightarrow> ac_held a \<noteq> 0" "lx_count s = length (ac_waiters a)"
    by simp_all
qed

text \<open>C27: When no two operations overlap, the lock-free atomic lets the same events in, in the same order, as
  the exclusive atomic of the classic runtime, is held exactly when that one is, and counts the same waiters.\<close>

theorem lockfree_exclusive_equals_classic:
  "case fold classic_exec ops (acommon_new d, []) of (a, hs) \<Rightarrow>
     lx_holding (fold lx_whole ops lx_new) = map fst hs \<and>
     (lx_held (fold lx_whole ops lx_new) \<longleftrightarrow> ac_held a \<noteq> 0) \<and>
     lx_count (fold lx_whole ops lx_new) = length (ac_waiters a)"
  using matches_facts matches_run[OF matches_new, of ops d] by (auto split: prod.split)

section \<open>When operations overlap\<close>

text \<open>Event 0 holds the atomic.  Thread 1 wants it for event 1 and stops before it links its node to the first
  one.  Thread 2 links itself there for event 2.  Thread 0 releases: it takes the first node out of the list
  and clears its next pointer.  Now thread 1 links its node to the one taken out, and stores its event there,
  over event 2.  Thread 0 hands the atomic to event 1, and when event 1 releases, nobody is left.\<close>

definition lost_schedule :: "lx_action list" where
  "lost_schedule = Acquire 0 0 # replicate 3 (Step 0) @ Acquire 1 1 # replicate 4 (Step 1) @ Acquire 2 2 # replicate 7 (Step 2) @
     Release 0 0 # replicate 8 (Step 0) @ replicate 3 (Step 1) @ replicate 3 (Step 0) @ Release 0 1 # replicate 6 (Step 0)"

text \<open>C28: An event that was told to wait can be lost: every thread is idle, the atomic is free and has no
  waiter, and still the event waits.\<close>

theorem lockfree_exclusive_loses_a_waiter:
  "lx_waiting (lx_run lost_schedule lx_new) = [2] \<and> lx_holding (lx_run lost_schedule lx_new) = [] \<and>
   \<not> lx_held (lx_run lost_schedule lx_new) \<and> lx_count (lx_run lost_schedule lx_new) = 0 \<and>
   list_all (\<lambda>t. lx_pc (lx_run lost_schedule lx_new) t = XIdle) [0, 1, 2]"
  by code_simp

end
