(* ===== verification/HashTable.thy ===== *)
theory HashTable
  imports Prelude "HOL-Library.Word"
begin

text \<open>
  runtime/lockfree/atomic/OFluxLFHashTable.h: the hash table behind the guard maps of the lock-free runtime.
  A table that runs out of room starts a bigger one; entries are copied over by the operations that come
  by, and a table that is copied completely is left behind.  The tables are the elements of a list, each
  one's \<open>_next\<close> is the element after it; a table left behind is never deleted by the code.  The operations
  are modelled as one thread runs them, so each compare and swap on a field it has just read succeeds.
\<close>

section \<open>Values\<close>

text \<open>A value pointer whose lowest bit is set is \<open>Tagged\<close>: its entry is being copied or was copied.  The
  null pointer is \<open>DoesNotExist\<close>; tagged, it says that the entry was copied.\<close>

datatype 'v hbase = DoesNotExist | TombStone | HVal 'v

datatype 'v hv = Plain "'v hbase" | Tagged "'v hbase"

definition copied_value :: "'v hv" where
  "copied_value = Tagged DoesNotExist"

fun tag_value :: "'v hv \<Rightarrow> 'v hv" where
  "tag_value (Plain b) = Tagged b"
| "tag_value (Tagged b) = Tagged b"

fun strip_tag :: "'v hv \<Rightarrow> 'v hv" where
  "strip_tag (Plain b) = Plain b"
| "strip_tag (Tagged b) = Plain b"

fun is_tagged :: "'v hv \<Rightarrow> bool" where
  "is_tagged (Plain b) = False"
| "is_tagged (Tagged b) = True"

text \<open>What a caller expects is a pointer too: \<open>Whatever\<close> is the null pointer, \<open>NotThere\<close> is -2, as is
  \<open>TombStone\<close>.\<close>

datatype 'v expect = Whatever | Exists | NotThere | Expect 'v

fun expect_of :: "'v hbase \<Rightarrow> 'v expect" where
  "expect_of DoesNotExist = Whatever"
| "expect_of TombStone = NotThere"
| "expect_of (HVal v) = Expect v"

section \<open>Tables\<close>

record ('k, 'v) hentry =
  en_key :: "'k option"
  en_value :: "'v hv"

record ('k, 'v) himpl =
  hi_scale :: nat
  hi_table :: "('k, 'v) hentry list"
  hi_count :: "32 word"
  hi_scan :: nat
  hi_copied :: nat
  hi_probe :: nat
  hi_refs :: int

type_synonym ('k, 'v) tables = "('k, 'v) himpl list"

definition min_scale :: nat where
  "min_scale = 4"

text \<open>A cache line of 64 bytes holds eight entries of two 32 bit pointers; the code only compiles without a
  complaint where a pointer is as wide as an unsigned int.\<close>

definition entries_per_bucket :: nat where
  "entries_per_bucket = 8"

definition hentry_new :: "('k, 'v) hentry" where
  "hentry_new = \<lparr> en_key = None, en_value = Plain DoesNotExist \<rparr>"

definition himpl_new :: "nat \<Rightarrow> ('k, 'v) himpl" where
  "himpl_new scale = (let probe = scale + scale div 2 + 2; quarter = 2 ^ (scale - 2) div entries_per_bucket in
     \<lparr> hi_scale = scale, hi_table = replicate (2 ^ scale) hentry_new, hi_count = 0, hi_scan = 0, hi_copied = 0,
       hi_probe = (if probe > quarter \<and> quarter > 4 then quarter else probe), hi_refs = 1 \<rparr>)"

definition entry_at :: "nat \<Rightarrow> nat \<Rightarrow> ('k, 'v) tables \<Rightarrow> ('k, 'v) hentry" where
  "entry_at c i ts = hi_table (ts ! c) ! i"

definition upd_entry :: "nat \<Rightarrow> nat \<Rightarrow> (('k, 'v) hentry \<Rightarrow> ('k, 'v) hentry) \<Rightarrow> ('k, 'v) tables \<Rightarrow> ('k, 'v) tables" where
  "upd_entry c i f ts = ts[c := (ts ! c)\<lparr> hi_table := (hi_table (ts ! c))[i := f (entry_at c i ts)] \<rparr>]"

definition set_value :: "nat \<Rightarrow> nat \<Rightarrow> 'v hv \<Rightarrow> ('k, 'v) tables \<Rightarrow> ('k, 'v) tables" where
  "set_value c i w ts = upd_entry c i (\<lambda>e. e\<lparr> en_value := w \<rparr>) ts"

definition set_key :: "nat \<Rightarrow> nat \<Rightarrow> 'k \<Rightarrow> ('k, 'v) tables \<Rightarrow> ('k, 'v) tables" where
  "set_key c i k ts = upd_entry c i (\<lambda>e. e\<lparr> en_key := Some k \<rparr>) ts"

definition add_count :: "nat \<Rightarrow> 32 word \<Rightarrow> ('k, 'v) tables \<Rightarrow> ('k, 'v) tables" where
  "add_count c n ts = ts[c := (ts ! c)\<lparr> hi_count := hi_count (ts ! c) + n \<rparr>]"

definition add_copied :: "nat \<Rightarrow> nat \<Rightarrow> ('k, 'v) tables \<Rightarrow> ('k, 'v) tables" where
  "add_copied c n ts = ts[c := (ts ! c)\<lparr> hi_copied := hi_copied (ts ! c) + n \<rparr>]"

section \<open>Looking up\<close>

text \<open>\<open>lookUp\<close> goes through a bucket from the position of the hash on, round, then to another bucket; it
  stops at the key or at an empty entry (then the flag is set).\<close>

definition slot_of :: "nat \<Rightarrow> nat \<Rightarrow> nat" where
  "slot_of index j = index div entries_per_bucket * entries_per_bucket + (index + j) mod entries_per_bucket"

definition next_index :: "nat \<Rightarrow> nat \<Rightarrow> 32 word \<Rightarrow> nat" where
  "next_index scale index h = (let incr = unat h div 2 ^ (32 - scale) in
     (index + (if incr < entries_per_bucket then incr + entries_per_bucket else incr)) mod 2 ^ scale)"

fun look_bucket :: "'k \<Rightarrow> ('k, 'v) hentry list \<Rightarrow> nat \<Rightarrow> nat list \<Rightarrow> (nat \<times> bool) option" where
  "look_bucket k table index [] = None"
| "look_bucket k table index (j # js) = (let i = slot_of index j in
     case en_key (table ! i) of
       None \<Rightarrow> Some (i, True)
     | Some k' \<Rightarrow> if k = k' then Some (i, False) else look_bucket k table index js)"

fun look_from :: "nat \<Rightarrow> 'k \<Rightarrow> 32 word \<Rightarrow> ('k, 'v) himpl \<Rightarrow> nat \<Rightarrow> (nat \<times> bool) option" where
  "look_from 0 k h I index = None"
| "look_from (Suc n) k h I index = (case look_bucket k (hi_table I) index [0..<entries_per_bucket] of
     Some r \<Rightarrow> Some r
   | None \<Rightarrow> look_from n k h I (next_index (hi_scale I) index h))"

definition look_up :: "'k \<Rightarrow> 32 word \<Rightarrow> ('k, 'v) himpl \<Rightarrow> (nat \<times> bool) option" where
  "look_up k h I = look_from (hi_probe I) k h I (unat h mod 2 ^ hi_scale I)"

section \<open>Copying\<close>

text \<open>\<open>startCopy\<close>; what it tells the statistics of the table is left out.\<close>

definition new_scale :: "('k, 'v) himpl \<Rightarrow> nat" where
  "new_scale I = (let n = unat (hi_count I); s = hi_scale I in
     s + (if n > 2 ^ (s - 1) \<or> n > 2 ^ (s - 2) + 2 ^ (s - 3) then 1 else 0))"

definition start_copy :: "nat \<Rightarrow> ('k, 'v) tables \<Rightarrow> ('k, 'v) tables" where
  "start_copy c ts = (if Suc c = length ts then ts @ [himpl_new (new_scale (ts ! c))] else ts)"

text \<open>\<open>copyEntry\<close>: entry \<open>i\<close> of table \<open>c\<close> goes to table \<open>d\<close>, or to one after it.\<close>

definition moved :: "nat \<Rightarrow> nat \<Rightarrow> nat \<Rightarrow> nat \<Rightarrow> 'v \<Rightarrow> ('k, 'v) tables \<Rightarrow> ('k, 'v) tables" where
  "moved c i d j v ts = add_count d 1 (add_count c (- 1) (set_value c i copied_value (set_value d j (Plain (HVal v)) ts)))"

text \<open>What \<open>copyEntry\<close> does to the value it finds: it is done with the entry, or has a value to move.\<close>

datatype 'v mark = Marked bool "'v hv" | Moving 'v

fun copy_mark :: "'v hv \<Rightarrow> 'v mark" where
  "copy_mark (Tagged DoesNotExist) = Marked False (Tagged DoesNotExist)"
| "copy_mark (Tagged TombStone) = Marked False (Tagged TombStone)"
| "copy_mark (Plain DoesNotExist) = Marked True copied_value"
| "copy_mark (Plain TombStone) = Marked True (Tagged TombStone)"
| "copy_mark (Plain (HVal v)) = Moving v"
| "copy_mark (Tagged (HVal v)) = Moving v"

function copy_entry :: "('k \<Rightarrow> 32 word) \<Rightarrow> nat \<Rightarrow> nat \<Rightarrow> 32 word \<Rightarrow> nat \<Rightarrow> ('k, 'v) tables \<Rightarrow> (bool \<times> ('k, 'v) tables) result" where
  "copy_entry hf c i h d ts =
     (if \<not> (c < d \<and> d < length ts) then Inl AssertFailed
      else (case copy_mark (en_value (entry_at c i ts)) of
          Marked did w \<Rightarrow> Inr (did, set_value c i w ts)
        | Moving v \<Rightarrow>
          (case en_key (entry_at c i ts) of
             None \<Rightarrow> Inl NullDeref
           | Some k \<Rightarrow> let h1 = (if h = 0 then hf k else h); ts1 = set_value c i (Tagged (HVal v)) ts in
             (case look_up k h1 (ts1 ! d) of
                None \<Rightarrow> copy_entry hf c i h1 (Suc d) (start_copy d ts1)
              | Some (j, is_empty) \<Rightarrow> let ts2 = (if is_empty then set_key d j k ts1 else ts1) in
                (case en_value (entry_at d j ts2) of
                   Plain DoesNotExist \<Rightarrow> Inr (True, moved c i d j v ts2)
                 | Tagged DoesNotExist \<Rightarrow> copy_entry hf c i h1 (Suc d) ts2
                 | _ \<Rightarrow> Inr (False, set_value c i copied_value ts2))))))"
  by pat_completeness auto

definition roomy :: "('k, 'v) himpl \<Rightarrow> bool" where
  "roomy I \<longleftrightarrow> (\<forall>k h. look_up k h I \<noteq> None)"

definition copy_measure :: "nat \<Rightarrow> ('k, 'v) tables \<Rightarrow> nat" where
  "copy_measure d ts = 2 * (length ts - d) + (if ts \<noteq> [] \<and> roomy (last ts) then 0 else 1)"

lemma slot_of_0 [simp]: "slot_of index 0 = index"
  by (simp add: slot_of_def)

lemma bucket_upt: "[0..<entries_per_bucket] = 0 # [1..<entries_per_bucket]"
  by (simp add: entries_per_bucket_def upt_rec)

lemma himpl_new_simps [simp]:
  "hi_scale (himpl_new s) = s" "hi_table (himpl_new s) = replicate (2 ^ s) hentry_new" "hi_copied (himpl_new s) = 0"
  "hi_scan (himpl_new s) = 0" "hi_count (himpl_new s) = 0" "hi_refs (himpl_new s) = 1"
  by (simp_all add: himpl_new_def Let_def)

lemma himpl_new_probe: "hi_probe (himpl_new s) > 0"
  by (simp add: himpl_new_def Let_def)

lemma look_up_new:
  fixes k :: 'k
  shows "look_up k h (himpl_new s :: ('k, 'v) himpl) = Some (unat h mod 2 ^ s, True)"
proof -
  obtain n where n: "hi_probe (himpl_new s :: ('k, 'v) himpl) = Suc n"
    using himpl_new_probe[of s] gr0_implies_Suc by blast
  then show ?thesis
    unfolding look_up_def by (simp add: n bucket_upt hentry_new_def)
qed

lemma roomy_new: "roomy (himpl_new s)"
  by (simp add: roomy_def look_up_new)

lemma upd_entry_length [simp]: "length (upd_entry c i f ts) = length ts"
  by (simp add: upd_entry_def)

lemma upd_entry_other [simp]: "d \<noteq> c \<Longrightarrow> upd_entry c i f ts ! d = ts ! d"
  by (simp add: upd_entry_def)

lemma set_length [simp]: "length (set_value c i w ts) = length ts" "length (set_key c i k ts) = length ts"
  by (simp_all add: set_value_def set_key_def)

lemma set_other [simp]: "d \<noteq> c \<Longrightarrow> set_value c i w ts ! d = ts ! d" "d \<noteq> c \<Longrightarrow> set_key c i k ts ! d = ts ! d"
  by (simp_all add: set_value_def set_key_def)

lemma copy_measure_next:
  assumes "d < length ts"
  shows "length ts' = length ts \<Longrightarrow> copy_measure (Suc d) ts' < copy_measure d ts"
    and "look_up k h (ts ! d) = None \<Longrightarrow> copy_measure (Suc d) (start_copy d ts) < copy_measure d ts"
proof -
  show "length ts' = length ts \<Longrightarrow> copy_measure (Suc d) ts' < copy_measure d ts"
    using assms by (auto simp: copy_measure_def)
  assume none: "look_up k h (ts ! d) = None"
  show "copy_measure (Suc d) (start_copy d ts) < copy_measure d ts"
  proof (cases "Suc d = length ts")
    case True
    then have "last ts = ts ! d" "ts \<noteq> []"
      using last_conv_nth[of ts] by (metis diff_Suc_1 list.size(3) nat.distinct(1), auto)
    then have "\<not> roomy (last ts)"
      using none by (auto simp: roomy_def simp del: not_None_eq)
    then have "copy_measure d ts = 3"
      by (simp add: copy_measure_def flip: True)
    moreover have "copy_measure (Suc d) (start_copy d ts) = 2"
      by (simp add: copy_measure_def start_copy_def roomy_new True)
    ultimately show ?thesis
      by simp
  next
    case False
    then show ?thesis
      using assms by (auto simp: copy_measure_def start_copy_def)
  qed
qed

termination copy_entry
proof (relation "measure (\<lambda>(hf, c, i, h, d, ts). copy_measure d ts)", goal_cases)
  case 1
  then show ?case by simp
next
  case (2 hf c i h d ts v k h1 ts1)
  have eq: "ts1 = set_value c i (Tagged (HVal v)) ts" and "c < d" "d < length ts"
    using 2 by auto
  then have ne: "ts \<noteq> []" "ts1 \<noteq> []" "length ts1 = length ts" "length ts - 1 \<noteq> c"
    by (auto simp flip: length_greater_0_conv)
  then have "last ts1 = last ts"
    using eq by (simp add: last_conv_nth)
  then have "copy_measure d ts1 = copy_measure d ts"
    using ne by (simp add: copy_measure_def)
  then show ?case
    using 2 ne(3) copy_measure_next(2)[of d ts1 k h1] by simp
next
  case (3 hf c i h d ts v k h1 ts1 p j e ts2)
  then show ?case
    using copy_measure_next(1)[of d ts ts2] by simp
qed

declare copy_entry.simps [simp del]

primrec copy_entries :: "('k \<Rightarrow> 32 word) \<Rightarrow> nat \<Rightarrow> nat list \<Rightarrow> nat \<Rightarrow> ('k, 'v) tables \<Rightarrow> (nat \<times> ('k, 'v) tables) result" where
  "copy_entries hf c [] n ts = Inr (n, ts)"
| "copy_entries hf c (i # is) n ts =
     bindE (copy_entry hf c i 0 (Suc c) ts) (\<lambda>(did, ts1). copy_entries hf c is (if did then Suc n else n) ts1)"

text \<open>\<open>helpCopy\<close> copies the next chunk of entries, or after two rounds every entry; it tells whether all are copied.\<close>

definition help_copy :: "('k \<Rightarrow> 32 word) \<Rightarrow> nat \<Rightarrow> ('k, 'v) tables \<Rightarrow> (bool \<times> ('k, 'v) tables) result" where
  "help_copy hf c ts = (let I = ts ! c; size = 2 ^ hi_scale I; x = hi_scan I in
     if hi_copied I = size then Inr (True, ts)
     else let panic = (x \<ge> 2 ^ (hi_scale I + 1));
              first = (if panic then 0 else x mod size);
              limit = (if panic then size else entries_per_bucket);
              ts1 = (if panic then ts else ts[c := I\<lparr> hi_scan := x + entries_per_bucket \<rparr>]) in
       assertE (first + limit \<le> size)
         (bindE (copy_entries hf c [first..<first + limit] 0 ts1) (\<lambda>(n, ts2).
            let ts3 = add_copied c n ts2 in Inr (hi_copied (ts3 ! c) = size, ts3))))"

text \<open>\<open>release\<close> stores what the fetch and add returned, the count before, back into the count.\<close>

definition release_impl :: "nat \<Rightarrow> ('k, 'v) tables \<Rightarrow> (int \<times> ('k, 'v) tables) result" where
  "release_impl c ts = (let r = hi_refs (ts ! c); ts1 = ts[c := (ts ! c)\<lparr> hi_refs := r - 1 \<rparr>] in
     assertE (r > 0) (Inr (r, ts1[c := (ts1 ! c)\<lparr> hi_refs := r \<rparr>])))"

section \<open>Operations of one table\<close>

text \<open>\<open>get\<close> goes on to the next table where the entry was copied or has no room.  The fuel bounds the number
  of tables it goes through.\<close>

fun get_from :: "('k \<Rightarrow> 32 word) \<Rightarrow> nat \<Rightarrow> 'k \<Rightarrow> 32 word \<Rightarrow> nat \<Rightarrow> ('k, 'v) tables \<Rightarrow> ('v hbase \<times> ('k, 'v) tables) result option" where
  "get_from hf 0 k h c ts = None"
| "get_from hf (Suc n) k h c ts = (case look_up k h (ts ! c) of
      None \<Rightarrow> if Suc c < length ts then get_from hf n k h (Suc c) ts else Some (Inr (DoesNotExist, ts))
    | Some (i, is_empty) \<Rightarrow>
        if is_empty then Some (Inr (DoesNotExist, ts))
        else (case en_value (entry_at c i ts) of
            Plain b \<Rightarrow> Some (Inr (if b = TombStone then DoesNotExist else b, ts))
          | Tagged b \<Rightarrow>
              (case (if b \<noteq> DoesNotExist \<and> b \<noteq> TombStone then copy_entry hf c i h (Suc c) ts else Inr (False, ts)) of
                 Inl f \<Rightarrow> Some (Inl f)
               | Inr (did, ts1) \<Rightarrow> let ts2 = (if did then add_copied c 1 ts1 else ts1) in
                   if Suc c < length ts2 then get_from hf n k h (Suc c) ts2 else Some (Inl NullDeref))))"

fun same_expect :: "'v expect \<Rightarrow> 'v hbase \<Rightarrow> bool" where
  "same_expect e b \<longleftrightarrow> e = expect_of b"

text \<open>\<open>compareAndSwap\<close>, once the entry is there.\<close>

definition cas_value :: "('k \<Rightarrow> 32 word) \<Rightarrow> 32 word \<Rightarrow> 'v expect \<Rightarrow> 'v hbase \<Rightarrow> nat \<Rightarrow> nat \<Rightarrow> ('k, 'v) tables
    \<Rightarrow> ('v hv \<times> ('k, 'v) tables) result" where
  "cas_value hf h expected new c i ts = (case en_value (entry_at c i ts) of
      Tagged b \<Rightarrow>
        if b \<noteq> DoesNotExist \<and> b \<noteq> TombStone
        then bindE (copy_entry hf c i h (Suc c) ts) (\<lambda>(did, ts1). Inr (copied_value, if did then add_copied c 1 ts1 else ts1))
        else Inr (copied_value, ts)
    | Plain b \<Rightarrow> let old_existed = (b \<noteq> TombStone \<and> b \<noteq> DoesNotExist) in
        if expected \<noteq> Whatever \<and> \<not> same_expect expected b \<and> expected \<noteq> (if old_existed then Exists else NotThere) then Inr (Plain b, ts)
        else if (new = DoesNotExist \<and> \<not> old_existed) \<or> b = new then Inr (Plain b, ts)
        else let ts1 = set_value c i (Plain (if new = DoesNotExist then TombStone else new)) ts in
          Inr (Plain b, if old_existed \<and> new = DoesNotExist then add_count c (- 1) ts1
            else if \<not> old_existed \<and> new \<noteq> DoesNotExist then add_count c 1 ts1 else ts1))"

definition impl_cas :: "('k \<Rightarrow> 32 word) \<Rightarrow> 'k \<Rightarrow> 32 word \<Rightarrow> 'v expect \<Rightarrow> 'v hbase \<Rightarrow> nat \<Rightarrow> ('k, 'v) tables
    \<Rightarrow> ('v hv \<times> ('k, 'v) tables) result" where
  "impl_cas hf k h expected new c ts = (case look_up k h (ts ! c) of
      None \<Rightarrow> Inr (copied_value, start_copy c ts)
    | Some (i, is_empty) \<Rightarrow>
        if is_empty \<and> expected \<noteq> NotThere \<and> expected \<noteq> Whatever then Inr (Plain DoesNotExist, ts)
        else if is_empty \<and> new = DoesNotExist then Inr (Plain DoesNotExist, ts)
        else cas_value hf h expected new c i (if is_empty then set_key c i k ts else ts))"

fun persistent_key :: "'k \<Rightarrow> 32 word \<Rightarrow> ('k, 'v) tables \<Rightarrow> 'k option" where
  "persistent_key k h [] = None"
| "persistent_key k h (I # Is) = (case look_up k h I of
      None \<Rightarrow> if Is \<noteq> [] then persistent_key k h Is else None
    | Some (i, is_empty) \<Rightarrow> if is_empty then None else en_key (hi_table I ! i))"

section \<open>The hash table\<close>

record ('k, 'v) hash_table =
  ht_tables :: "('k, 'v) tables"
  ht_first :: nat

definition ht_new :: "('k, 'v) hash_table" where
  "ht_new = \<lparr> ht_tables = [himpl_new min_scale], ht_first = 0 \<rparr>"

definition ht_fuel :: "('k, 'v) hash_table \<Rightarrow> nat" where
  "ht_fuel t = 2 * length (ht_tables t) + 1"

definition ht_get :: "('k \<Rightarrow> 32 word) \<Rightarrow> 'k \<Rightarrow> ('k, 'v) hash_table \<Rightarrow> ('v hbase \<times> ('k, 'v) hash_table) result option" where
  "ht_get hf k t = map_option (\<lambda>r. bindE r (\<lambda>(b, ts). Inr (b, t\<lparr> ht_tables := ts \<rparr>)))
     (get_from hf (ht_fuel t) k (hf k) (ht_first t) (ht_tables t))"

text \<open>The loop of \<open>compareAndSwap\<close> and \<open>remove\<close> over the tables.\<close>

fun cas_loop :: "('k \<Rightarrow> 32 word) \<Rightarrow> nat \<Rightarrow> 'k \<Rightarrow> 'v expect \<Rightarrow> 'v hbase \<Rightarrow> nat \<Rightarrow> ('k, 'v) tables
    \<Rightarrow> ('v hv \<times> ('k, 'v) tables) result option" where
  "cas_loop hf 0 k expected new c ts = None"
| "cas_loop hf (Suc n) k expected new c ts = (case impl_cas hf k (hf k) expected new c ts of
      Inl f \<Rightarrow> Some (Inl f)
    | Inr (old, ts1) \<Rightarrow>
        if old \<noteq> copied_value then Some (Inr (old, ts1))
        else if Suc c < length ts1 then cas_loop hf n k expected new (Suc c) ts1
        else Some (Inl AssertFailed))"

fun old_value :: "'v hv \<Rightarrow> 'v hbase" where
  "old_value (Plain TombStone) = DoesNotExist"
| "old_value (Plain b) = b"
| "old_value (Tagged b) = b"

definition finish_cas :: "('v hv \<times> ('k, 'v) tables) result option \<Rightarrow> ('k, 'v) hash_table
    \<Rightarrow> ('v hbase \<times> ('k, 'v) hash_table) result option" where
  "finish_cas r t = map_option (\<lambda>r. bindE r (\<lambda>(old, ts). Inr (old_value old, t\<lparr> ht_tables := ts \<rparr>))) r"

definition ht_remove :: "('k \<Rightarrow> 32 word) \<Rightarrow> 'k \<Rightarrow> ('k, 'v) hash_table \<Rightarrow> ('v hbase \<times> ('k, 'v) hash_table) result option" where
  "ht_remove hf k t = finish_cas (cas_loop hf (ht_fuel t) k Whatever DoesNotExist (ht_first t) (ht_tables t)) t"

text \<open>\<open>compareAndSwap\<close> first helps with a copy that is going on, and leaves a table behind that is copied completely.
  The table would be deleted if the count that \<open>release\<close> returns were zero.\<close>

definition help_and_advance :: "('k \<Rightarrow> 32 word) \<Rightarrow> ('k, 'v) hash_table \<Rightarrow> ('k, 'v) hash_table result" where
  "help_and_advance hf t = (let c = ht_first t in
     if Suc c < length (ht_tables t)
     then bindE (help_copy hf c (ht_tables t)) (\<lambda>(done, ts).
       if done then bindE (release_impl c ts) (\<lambda>(r, ts1). assertE (r \<noteq> 0) (Inr (t\<lparr> ht_tables := ts1, ht_first := Suc c \<rparr>)))
       else Inr (t\<lparr> ht_tables := ts \<rparr>))
     else Inr t)"

definition ht_cas :: "('k \<Rightarrow> 32 word) \<Rightarrow> 'k \<Rightarrow> 'v expect \<Rightarrow> 'v \<Rightarrow> ('k, 'v) hash_table
    \<Rightarrow> ('v hbase \<times> ('k, 'v) hash_table) result option" where
  "ht_cas hf k expected v t = (case help_and_advance hf t of
      Inl f \<Rightarrow> Some (Inl f)
    | Inr t1 \<Rightarrow> finish_cas (cas_loop hf (ht_fuel t1) k expected (HVal v) (ht_first t1) (ht_tables t1)) t1)"

definition ht_persistent_key :: "'k \<Rightarrow> 32 word \<Rightarrow> ('k, 'v) hash_table \<Rightarrow> 'k option" where
  "ht_persistent_key k h t = persistent_key k h (drop (ht_first t) (ht_tables t))"

end
