(* ===== verification/HashTableInv.thy ===== *)
theory HashTableInv
  imports HashTable
begin

text \<open>
  The invariant of the hash table of the lock-free runtime: every key is in one table, where its probe
  sequence finds it, or is on its way to a later one; copying entries keeps the contents.
\<close>

section \<open>What a lookup finds\<close>

fun slots :: "nat \<Rightarrow> nat \<Rightarrow> 32 word \<Rightarrow> nat \<Rightarrow> nat list" where
  "slots 0 scale h index = []"
| "slots (Suc n) scale h index = map (slot_of index) [0..<entries_per_bucket] @ slots n scale h (next_index scale index h)"

definition key_at :: "('k, 'v) himpl \<Rightarrow> nat \<Rightarrow> 'k option" where
  "key_at I i = en_key (hi_table I ! i)"

definition val_at :: "('k, 'v) himpl \<Rightarrow> nat \<Rightarrow> 'v hv" where
  "val_at I i = en_value (hi_table I ! i)"

definition stops :: "'k \<Rightarrow> ('k, 'v) himpl \<Rightarrow> nat \<Rightarrow> bool" where
  "stops k I i \<longleftrightarrow> key_at I i = None \<or> key_at I i = Some k"

definition all_slots :: "32 word \<Rightarrow> ('k, 'v) himpl \<Rightarrow> nat list" where
  "all_slots h I = slots (hi_probe I) (hi_scale I) h (unat h mod 2 ^ hi_scale I)"

lemma find_append: "find P (xs @ ys) = (case find P xs of None \<Rightarrow> find P ys | Some x \<Rightarrow> Some x)"
  by (induction xs) auto

lemma look_bucket_find:
  "look_bucket k (hi_table I) index js = map_option (\<lambda>i. (i, key_at I i = None)) (find (stops k I) (map (slot_of index) js))"
  by (induction js) (auto simp: stops_def key_at_def Let_def split: option.splits)

lemma look_from_find:
  "look_from n k h I index = map_option (\<lambda>i. (i, key_at I i = None)) (find (stops k I) (slots n (hi_scale I) h index))"
proof (induction n arbitrary: index)
  case (Suc n)
  then show ?case
    by (auto simp: look_bucket_find find_append split: option.splits)
qed simp

lemma look_up_find: "look_up k h I = map_option (\<lambda>i. (i, key_at I i = None)) (find (stops k I) (all_slots h I))"
  by (simp add: look_up_def look_from_find all_slots_def)

lemma slot_of_bound:
  assumes "3 \<le> scale" "index < 2 ^ scale"
  shows "slot_of index j < 2 ^ scale"
proof -
  have p: "(2::nat) ^ scale = 2 ^ (scale - 3) * 8"
    using assms(1) power_add[of "2::nat" "scale - 3" 3] by simp
  then have "index div 8 < 2 ^ (scale - 3)"
    using assms(2) by (simp add: less_mult_imp_div_less)
  then have "Suc (index div 8) * 8 \<le> 2 ^ (scale - 3) * 8"
    by (intro mult_le_mono1) simp
  then show ?thesis
    unfolding p slot_of_def entries_per_bucket_def using mod_less_divisor[of 8 "index + j"] by simp
qed

lemma slots_bound: "3 \<le> scale \<Longrightarrow> index < 2 ^ scale \<Longrightarrow> i \<in> set (slots n scale h index) \<Longrightarrow> i < 2 ^ scale"
proof (induction n arbitrary: index)
  case (Suc n)
  have "next_index scale index h < 2 ^ scale"
    by (simp add: next_index_def Let_def)
  then show ?case
    using Suc by (auto simp: slot_of_bound)
qed simp

lemma look_upD:
  assumes "look_up k h I = Some (i, e)"
  shows "e \<longleftrightarrow> key_at I i = None" "\<not> e \<Longrightarrow> key_at I i = Some k" "3 \<le> hi_scale I \<Longrightarrow> i < 2 ^ hi_scale I"
proof -
  from assms have i: "find (stops k I) (all_slots h I) = Some i" and e: "e \<longleftrightarrow> key_at I i = None"
    by (auto simp: look_up_find)
  then have "i \<in> set (all_slots h I)" "stops k I i"
    by (auto simp: find_Some_iff)
  then show "e \<longleftrightarrow> key_at I i = None" "\<not> e \<Longrightarrow> key_at I i = Some k" "3 \<le> hi_scale I \<Longrightarrow> i < 2 ^ hi_scale I"
    using e slots_bound[of "hi_scale I" "unat h mod 2 ^ hi_scale I" i] by (auto simp: stops_def all_slots_def)
qed

definition put_value :: "nat \<Rightarrow> 'v hv \<Rightarrow> ('k, 'v) himpl \<Rightarrow> ('k, 'v) himpl" where
  "put_value i w I = I\<lparr> hi_table := (hi_table I)[i := (hi_table I ! i)\<lparr> en_value := w \<rparr>] \<rparr>"

definition put_key :: "nat \<Rightarrow> 'k \<Rightarrow> ('k, 'v) himpl \<Rightarrow> ('k, 'v) himpl" where
  "put_key i k I = I\<lparr> hi_table := (hi_table I)[i := (hi_table I ! i)\<lparr> en_key := Some k \<rparr>] \<rparr>"

lemma set_put:
  "set_value c i w ts = ts[c := put_value i w (ts ! c)]" "set_key c i k ts = ts[c := put_key i k (ts ! c)]"
  by (simp_all add: set_value_def set_key_def upd_entry_def put_value_def put_key_def entry_at_def)

lemma entry_view: "en_value (entry_at c i ts) = val_at (ts ! c) i" "en_key (entry_at c i ts) = key_at (ts ! c) i"
  by (simp_all add: entry_at_def val_at_def key_at_def)

lemma put_simps [simp]:
  "hi_scale (put_value i w I) = hi_scale I" "hi_probe (put_value i w I) = hi_probe I" "hi_refs (put_value i w I) = hi_refs I"
  "hi_scan (put_value i w I) = hi_scan I" "hi_copied (put_value i w I) = hi_copied I"
  "length (hi_table (put_value i w I)) = length (hi_table I)"
  "hi_scale (put_key i k I) = hi_scale I" "hi_probe (put_key i k I) = hi_probe I" "hi_refs (put_key i k I) = hi_refs I"
  "hi_scan (put_key i k I) = hi_scan I" "hi_copied (put_key i k I) = hi_copied I"
  "length (hi_table (put_key i k I)) = length (hi_table I)"
  by (simp_all add: put_value_def put_key_def)

lemma put_view:
  assumes "i < length (hi_table I)"
  shows "key_at (put_value i w I) n = key_at I n" "val_at (put_value i w I) n = (if n = i then w else val_at I n)"
    "key_at (put_key i k I) n = (if n = i then Some k else key_at I n)" "val_at (put_key i k I) n = val_at I n"
  using assms by (auto simp: put_value_def put_key_def key_at_def val_at_def nth_list_update)

lemma look_up_same_keys:
  assumes "\<And>n. key_at I' n = key_at I n" "hi_scale I' = hi_scale I" "hi_probe I' = hi_probe I"
  shows "look_up k h I' = look_up k h I"
proof -
  have "stops k I' = stops k I" "all_slots h I' = all_slots h I"
    using assms by (auto simp: stops_def all_slots_def)
  then show ?thesis
    using assms(1) by (simp add: look_up_find)
qed

lemma look_up_put_value [simp]: "i < length (hi_table I) \<Longrightarrow> look_up k h (put_value i w I) = look_up k h I"
  by (rule look_up_same_keys) (simp_all add: put_view)

lemma find_lose:
  assumes "\<And>x. P' x \<Longrightarrow> P x" "\<And>x. P x \<Longrightarrow> x \<noteq> j \<Longrightarrow> P' x"
  shows "find P xs = None \<Longrightarrow> find P' xs = None" "find P xs = Some i \<Longrightarrow> i \<noteq> j \<Longrightarrow> find P' xs = Some i"
  using assms by (induction xs) (auto split: if_splits)

text \<open>Claiming the empty entry that a lookup of the key stops at.\<close>

lemma look_up_put_key:
  assumes "look_up k h I = Some (j, True)" "j < length (hi_table I)"
  shows "look_up k h (put_key j k I) = Some (j, False)"
    and "k' \<noteq> k \<Longrightarrow> look_up k' h' I = None \<Longrightarrow> look_up k' h' (put_key j k I) = None"
    and "k' \<noteq> k \<Longrightarrow> look_up k' h' I = Some (i, e) \<Longrightarrow> i \<noteq> j \<Longrightarrow> look_up k' h' (put_key j k I) = Some (i, e)"
proof -
  have none: "key_at I j = None"
    using look_upD(1)[OF assms(1)] by simp
  have slots: "all_slots h' (put_key j k I) = all_slots h' I" for h'
    by (simp add: all_slots_def)
  have same: "stops k (put_key j k I) = stops k I"
    using none assms(2) by (intro ext) (auto simp: stops_def put_view)
  show "look_up k h (put_key j k I) = Some (j, False)"
    using assms by (auto simp: look_up_find slots same put_view)
  assume k': "k' \<noteq> k"
  have lose: "stops k' (put_key j k I) x \<Longrightarrow> stops k' I x" "stops k' I x \<Longrightarrow> x \<noteq> j \<Longrightarrow> stops k' (put_key j k I) x" for x
    using none assms(2) k' by (auto simp: stops_def put_view split: if_splits)
  show "look_up k' h' I = None \<Longrightarrow> look_up k' h' (put_key j k I) = None"
    using find_lose(1)[of "stops k' (put_key j k I)" "stops k' I" j "all_slots h' I"] lose
    by (auto simp: look_up_find slots)
  show "look_up k' h' I = Some (i, e) \<Longrightarrow> i \<noteq> j \<Longrightarrow> look_up k' h' (put_key j k I) = Some (i, e)"
    using find_lose(2)[of "stops k' (put_key j k I)" "stops k' I" j "all_slots h' I" i] lose assms(2)
    by (auto simp: look_up_find slots put_view)
qed

section \<open>The invariant\<close>

text \<open>Where the key is in the table, and whether there is no room for it.\<close>

definition cell :: "('k \<Rightarrow> 32 word) \<Rightarrow> ('k, 'v) himpl \<Rightarrow> 'k \<Rightarrow> 'v hv option" where
  "cell hf I k = (case look_up k (hf k) I of Some (i, False) \<Rightarrow> Some (val_at I i) | _ \<Rightarrow> None)"

definition full :: "('k \<Rightarrow> 32 word) \<Rightarrow> ('k, 'v) himpl \<Rightarrow> 'k \<Rightarrow> bool" where
  "full hf I k \<longleftrightarrow> look_up k (hf k) I = None"

definition tagged_in :: "('k, 'v) himpl \<Rightarrow> nat set" where
  "tagged_in I = {i. i < 2 ^ hi_scale I \<and> is_tagged (val_at I i)}"

definition keys_ok :: "('k \<Rightarrow> 32 word) \<Rightarrow> ('k, 'v) himpl \<Rightarrow> bool" where
  "keys_ok hf I \<longleftrightarrow> 4 \<le> hi_scale I \<and> length (hi_table I) = 2 ^ hi_scale I \<and>
     (\<forall>i<2 ^ hi_scale I. case key_at I i of Some k \<Rightarrow> look_up k (hf k) I = Some (i, False)
        | None \<Rightarrow> val_at I i = Plain DoesNotExist \<or> val_at I i = copied_value)"

definition table_ok :: "('k \<Rightarrow> 32 word) \<Rightarrow> ('k, 'v) himpl \<Rightarrow> bool" where
  "table_ok hf I \<longleftrightarrow> keys_ok hf I \<and> hi_refs I = 1 \<and> 8 dvd hi_scan I \<and> hi_copied I \<le> card (tagged_in I)"

definition gone :: "'v hv option \<Rightarrow> bool" where
  "gone w \<longleftrightarrow> (\<exists>b. w = Some (Tagged b))"

text \<open>A key lives in one table: the tables before it have no room for it or have copied it.\<close>

definition chain_ok :: "('k \<Rightarrow> 32 word) \<Rightarrow> nat \<Rightarrow> ('k, 'v) tables \<Rightarrow> bool" where
  "chain_ok hf c ts \<longleftrightarrow> c < length ts \<and> (\<forall>d. c \<le> d \<longrightarrow> d < length ts \<longrightarrow> table_ok hf (ts ! d)) \<and>
     (\<forall>d. c \<le> d \<longrightarrow> d < length ts \<longrightarrow> tagged_in (ts ! d) \<noteq> {} \<longrightarrow> Suc d < length ts) \<and>
     (\<forall>d e k. c \<le> d \<longrightarrow> d < e \<longrightarrow> e < length ts \<longrightarrow> cell hf (ts ! e) k \<noteq> None \<longrightarrow> full hf (ts ! d) k \<or> gone (cell hf (ts ! d) k))"

text \<open>No operation is in the middle of copying an entry.\<close>

definition settled :: "nat \<Rightarrow> ('k, 'v) tables \<Rightarrow> bool" where
  "settled c ts \<longleftrightarrow> (\<forall>d i v. c \<le> d \<longrightarrow> d < length ts \<longrightarrow> i < 2 ^ hi_scale (ts ! d) \<longrightarrow> val_at (ts ! d) i \<noteq> Tagged (HVal v))"

definition holds :: "('k \<Rightarrow> 32 word) \<Rightarrow> nat \<Rightarrow> ('k, 'v) tables \<Rightarrow> 'k \<Rightarrow> 'v \<Rightarrow> bool" where
  "holds hf c ts k v \<longleftrightarrow> (\<exists>d. c \<le> d \<and> d < length ts \<and> cell hf (ts ! d) k = Some (Plain (HVal v)))"

lemma chain_okD:
  assumes "chain_ok hf c ts"
  shows "c < length ts" "c \<le> d \<Longrightarrow> d < length ts \<Longrightarrow> table_ok hf (ts ! d)"
    "c \<le> d \<Longrightarrow> d < length ts \<Longrightarrow> tagged_in (ts ! d) \<noteq> {} \<Longrightarrow> Suc d < length ts"
    "c \<le> d \<Longrightarrow> d < e \<Longrightarrow> e < length ts \<Longrightarrow> cell hf (ts ! e) k \<noteq> None \<Longrightarrow> full hf (ts ! d) k \<or> gone (cell hf (ts ! d) k)"
  using assms unfolding chain_ok_def by blast+

lemma keys_okD:
  assumes "keys_ok hf I"
  shows "4 \<le> hi_scale I" "3 \<le> hi_scale I" "length (hi_table I) = 2 ^ hi_scale I"
    "i < 2 ^ hi_scale I \<Longrightarrow> key_at I i = Some k \<Longrightarrow> look_up k (hf k) I = Some (i, False)"
    "i < 2 ^ hi_scale I \<Longrightarrow> key_at I i = None \<Longrightarrow> val_at I i = Plain DoesNotExist \<or> val_at I i = copied_value"
  using assms unfolding keys_ok_def by fastforce+

lemma table_okD:
  assumes "table_ok hf I"
  shows "keys_ok hf I" "hi_refs I = 1" "8 dvd hi_scan I" "hi_copied I \<le> card (tagged_in I)"
  using assms unfolding table_ok_def by blast+

text \<open>The three outcomes of a lookup.\<close>

lemma look_cases:
  assumes "keys_ok hf I"
  obtains (Full) "look_up k (hf k) I = None" "full hf I k" "cell hf I k = None"
  | (Vacant) i where "look_up k (hf k) I = Some (i, True)" "i < 2 ^ hi_scale I" "key_at I i = None" "\<not> full hf I k" "cell hf I k = None"
      "val_at I i = Plain DoesNotExist \<or> val_at I i = copied_value"
  | (Found) i where "look_up k (hf k) I = Some (i, False)" "i < 2 ^ hi_scale I" "key_at I i = Some k" "\<not> full hf I k" "cell hf I k = Some (val_at I i)"
proof (cases "look_up k (hf k) I")
  case None
  then show ?thesis
    using Full by (simp add: full_def cell_def)
next
  case (Some r)
  then obtain i e where r: "look_up k (hf k) I = Some (i, e)"
    by (cases r) auto
  note D = look_upD[OF r]
  show ?thesis
  proof (cases e)
    case True
    then show ?thesis
      using Vacant[of i] r D keys_okD[OF assms] by (simp add: full_def cell_def)
  next
    case False
    then show ?thesis
      using Found[of i] r D keys_okD[OF assms] by (simp add: full_def cell_def)
  qed
qed

lemma cell_found: "cell hf I k = Some w \<longleftrightarrow> (\<exists>i. look_up k (hf k) I = Some (i, False) \<and> w = val_at I i)"
  by (auto simp: cell_def split: option.splits bool.splits)

subsection \<open>Changing an entry\<close>

lemma finite_tagged [simp]: "finite (tagged_in I)"
  by (simp add: tagged_in_def)

lemma put_value_ok:
  assumes "keys_ok hf I" "i < 2 ^ hi_scale I" "key_at I i = None \<longrightarrow> w = Plain DoesNotExist \<or> w = copied_value"
  shows "keys_ok hf (put_value i w I)" "full hf (put_value i w I) = full hf I"
    "key_at I i \<noteq> Some k \<Longrightarrow> cell hf (put_value i w I) k = cell hf I k"
    "key_at I i = Some k \<Longrightarrow> cell hf (put_value i w I) k = Some w"
    "tagged_in (put_value i w I) = (if is_tagged w then insert i (tagged_in I) else tagged_in I - {i})"
proof -
  note len = keys_okD(3)[OF assms(1)]
  show "keys_ok hf (put_value i w I)"
    using assms len by (auto simp: keys_ok_def put_view split: option.splits)
  show "full hf (put_value i w I) = full hf I"
    using assms(2) len by (auto simp: full_def)
  show "cell hf (put_value i w I) k = cell hf I k" if k: "key_at I i \<noteq> Some k"
  proof (cases rule: look_cases[OF assms(1), of k, case_names Full Vacant Found])
    case (Found n)
    then have "n \<noteq> i"
      using k by auto
    then show ?thesis
      using Found assms(2) len by (simp add: cell_def put_view)
  qed (use assms(2) len in \<open>simp_all add: cell_def\<close>)
  show "cell hf (put_value i w I) k = Some w" if "key_at I i = Some k"
    using keys_okD(4)[OF assms(1, 2) that] assms(2) len by (simp add: cell_def put_view)
  show "tagged_in (put_value i w I) = (if is_tagged w then insert i (tagged_in I) else tagged_in I - {i})"
    using assms(2) len by (auto simp: tagged_in_def put_view)
qed

lemma put_key_ok:
  assumes "keys_ok hf I" "look_up k (hf k) I = Some (j, True)"
  shows "keys_ok hf (put_key j k I)" "full hf I k' \<Longrightarrow> full hf (put_key j k I) k'"
    "k' \<noteq> k \<Longrightarrow> cell hf (put_key j k I) k' = cell hf I k'"
    "cell hf (put_key j k I) k = Some (val_at I j)" "tagged_in (put_key j k I) = tagged_in I"
proof -
  note len = keys_okD(3)[OF assms(1)]
  have j: "j < 2 ^ hi_scale I" "key_at I j = None"
    using look_upD[OF assms(2)] keys_okD(2)[OF assms(1)] by simp_all
  then have jl: "j < length (hi_table I)"
    using len by simp
  note L = look_up_put_key[OF assms(2) jl]
  have mine: "look_up k (hf k) (put_key j k I) = Some (j, False)"
    using L(1) .
  have other: "look_up k2 (hf k2) (put_key j k I) = Some (i, False)"
    if "key_at I i = Some k2" "i < 2 ^ hi_scale I" for k2 i
  proof -
    have l: "look_up k2 (hf k2) I = Some (i, False)"
      using keys_okD(4)[OF assms(1) that(2, 1)] .
    then have "k2 \<noteq> k" "i \<noteq> j"
      using assms(2) that(1) j(2) by auto
    then show ?thesis
      using L(3)[of k2 "hf k2" i False] l by simp
  qed
  show ok: "keys_ok hf (put_key j k I)"
    using assms(1) j jl mine other by (auto simp: keys_ok_def put_view split: option.splits)
  show "full hf I k' \<Longrightarrow> full hf (put_key j k I) k'"
    using L(2)[of k' "hf k'"] assms(2) by (cases "k' = k") (auto simp: full_def)
  show "cell hf (put_key j k I) k' = cell hf I k'" if k': "k' \<noteq> k"
  proof (cases rule: look_cases[OF assms(1), of k', case_names Full Vacant Found])
    case Full
    then show ?thesis
      using L(2)[OF k'] by (simp add: cell_def)
  next
    case (Found i)
    then have "i \<noteq> j"
      using j by auto
    then show ?thesis
      using Found L(3)[OF k' Found(1)] jl by (simp add: cell_def put_view)
  next
    case (Vacant i)
    have "look_up k' (hf k') (put_key j k I) \<noteq> Some (n, False)" for n
    proof
      assume n: "look_up k' (hf k') (put_key j k I) = Some (n, False)"
      then have "key_at (put_key j k I) n = Some k'" "n < 2 ^ hi_scale I"
        using look_upD[OF n] keys_okD(2)[OF assms(1)] by simp_all
      then have "key_at I n = Some k'"
        using k' jl by (simp add: put_view split: if_splits)
      then have "look_up k' (hf k') I = Some (n, False)"
        using keys_okD(4)[OF assms(1)] \<open>n < _\<close> by blast
      then show False
        using Vacant(1) by simp
    qed
    then have "cell hf (put_key j k I) k' = None"
      by (metis cell_found not_None_eq)
    then show ?thesis
      using Vacant by simp
  qed
  show "cell hf (put_key j k I) k = Some (val_at I j)"
    using mine jl by (simp add: cell_def put_view)
  show "tagged_in (put_key j k I) = tagged_in I"
    using jl by (simp add: tagged_in_def put_view)
qed

subsection \<open>Changing a table of the chain\<close>

lemma chain_update:
  assumes "chain_ok hf c ts" "c \<le> d" "d < length ts" "table_ok hf I'"
    and "\<And>k. full hf (ts ! d) k \<Longrightarrow> full hf I' k" "\<And>k. gone (cell hf (ts ! d) k) \<Longrightarrow> gone (cell hf I' k)"
    and "tagged_in I' \<noteq> {} \<Longrightarrow> Suc d < length ts"
    and "\<And>k e. cell hf I' k \<noteq> None \<Longrightarrow> cell hf (ts ! d) k = None \<Longrightarrow> c \<le> e \<Longrightarrow> e < d \<Longrightarrow> full hf (ts ! e) k \<or> gone (cell hf (ts ! e) k)"
  shows "chain_ok hf c (ts[d := I'])"
proof -
  note old = chain_okD[OF assms(1)]
  have "full hf (ts[d := I'] ! d') k \<or> gone (cell hf (ts[d := I'] ! d') k)"
    if h: "c \<le> d'" "d' < e" "e < length ts" "cell hf (ts[d := I'] ! e) k \<noteq> None" for d' e k
  proof (cases "e = d")
    case True
    then have "full hf (ts ! d') k \<or> gone (cell hf (ts ! d') k)"
      using h assms(3) old(4)[of d' d k] assms(8)[of k d'] by (cases "cell hf (ts ! d) k = None") auto
    then show ?thesis
      using True h by simp
  next
    case False
    then have "full hf (ts ! d') k \<or> gone (cell hf (ts ! d') k)"
      using h old(4)[of d' e k] by simp
    then show ?thesis
      using assms(5, 6)[of k] h(2, 3) by (cases "d' = d") auto
  qed
  then show ?thesis
    using assms(2-4, 7) old(1-3) unfolding chain_ok_def by (auto simp: nth_list_update)
qed

lemma new_table [simp]:
  "cell hf (himpl_new s) k = None" "tagged_in (himpl_new s) = {}" "full hf (himpl_new s) k = False"
  by (simp_all add: cell_def full_def look_up_new tagged_in_def val_at_def hentry_new_def)

lemma new_table_ok: "4 \<le> s \<Longrightarrow> table_ok hf (himpl_new s)"
  by (simp add: table_ok_def keys_ok_def key_at_def val_at_def hentry_new_def)

lemma start_copy_ok:
  assumes "chain_ok hf c ts" "c \<le> d"
  shows "chain_ok hf c (start_copy d ts)" "length ts \<le> length (start_copy d ts)"
    "e < length ts \<Longrightarrow> start_copy d ts ! e = ts ! e" "d < length ts \<Longrightarrow> Suc d < length (start_copy d ts)"
    "length ts \<le> e \<Longrightarrow> e < length (start_copy d ts) \<Longrightarrow> \<exists>s. start_copy d ts ! e = himpl_new s"
proof -
  note old = chain_okD[OF assms(1)]
  show "length ts \<le> length (start_copy d ts)" "e < length ts \<Longrightarrow> start_copy d ts ! e = ts ! e"
    "d < length ts \<Longrightarrow> Suc d < length (start_copy d ts)"
    "length ts \<le> e \<Longrightarrow> e < length (start_copy d ts) \<Longrightarrow> \<exists>s. start_copy d ts ! e = himpl_new s"
    by (auto simp: start_copy_def nth_append)
  show "chain_ok hf c (start_copy d ts)"
  proof (cases "Suc d = length ts")
    case True
    have "4 \<le> hi_scale (ts ! d)"
      using old(2)[of d] assms(2) True table_okD(1) keys_okD(1) by fastforce
    then have "4 \<le> new_scale (ts ! d)"
      by (simp add: new_scale_def Let_def)
    then show ?thesis
      using True old new_table_ok[of "new_scale (ts ! d)" hf]
      by (auto simp: chain_ok_def start_copy_def nth_append less_Suc_eq)
  next
    case False
    then show ?thesis
      using assms(1) by (simp add: start_copy_def)
  qed
qed

lemma start_copy_holds:
  assumes "chain_ok hf c ts" "c \<le> d"
  shows "holds hf c (start_copy d ts) = holds hf c ts" "holds hf (Suc c) (start_copy d ts) = holds hf (Suc c) ts"
  by (auto simp: start_copy_def holds_def nth_append less_Suc_eq fun_eq_iff)

lemma start_copy_settled: "settled c ts \<Longrightarrow> settled c (start_copy d ts)"
  by (auto simp: start_copy_def settled_def nth_append less_Suc_eq val_at_def hentry_new_def)

lemma table_ok_put_value:
  assumes "table_ok hf I" "i < 2 ^ hi_scale I" "key_at I i = None \<longrightarrow> w = copied_value"
    and "is_tagged (val_at I i) \<longrightarrow> is_tagged w"
  shows "table_ok hf (put_value i w I)"
proof -
  note P = put_value_ok[OF table_okD(1)[OF assms(1)] assms(2), of w]
  have sub: "tagged_in I \<subseteq> tagged_in (put_value i w I)"
    using P(5) assms(3, 4) by (auto simp: tagged_in_def)
  then have "card (tagged_in I) \<le> card (tagged_in (put_value i w I))"
    by (intro card_mono) simp_all
  then show ?thesis
    using P(1) assms(1, 3) by (simp add: table_ok_def)
qed

lemma table_ok_put_key:
  assumes "table_ok hf I" "look_up k (hf k) I = Some (j, True)"
  shows "table_ok hf (put_key j k I)"
  using put_key_ok[OF table_okD(1)[OF assms(1)] assms(2)] assms(1) by (simp add: table_ok_def)

lemma view_count [simp]:
  "key_at (I\<lparr> hi_count := n \<rparr>) = key_at I" "val_at (I\<lparr> hi_count := n \<rparr>) = val_at I"
  "look_up k h (I\<lparr> hi_count := n \<rparr>) = look_up k h I" "tagged_in (I\<lparr> hi_count := n \<rparr>) = tagged_in I"
  "table_ok hf (I\<lparr> hi_count := n \<rparr>) = table_ok hf I" "cell hf (I\<lparr> hi_count := n \<rparr>) = cell hf I" "full hf (I\<lparr> hi_count := n \<rparr>) = full hf I"
proof -
  show k: "key_at (I\<lparr> hi_count := n \<rparr>) = key_at I" and v: "val_at (I\<lparr> hi_count := n \<rparr>) = val_at I"
    by (simp_all add: key_at_def val_at_def fun_eq_iff)
  show l: "look_up k h (I\<lparr> hi_count := n \<rparr>) = look_up k h I" for k h
    by (rule look_up_same_keys) (simp_all add: k)
  show t: "tagged_in (I\<lparr> hi_count := n \<rparr>) = tagged_in I"
    by (simp add: tagged_in_def v)
  show "table_ok hf (I\<lparr> hi_count := n \<rparr>) = table_ok hf I"
    by (simp add: table_ok_def keys_ok_def k v l t cong: option.case_cong)
  show "cell hf (I\<lparr> hi_count := n \<rparr>) = cell hf I" "full hf (I\<lparr> hi_count := n \<rparr>) = full hf I"
    by (simp_all add: cell_def full_def l v fun_eq_iff split: option.splits bool.splits)
qed

lemma chain_same:
  assumes "length ts' = length ts" "\<And>d. d < length ts \<Longrightarrow> \<exists>n. ts' ! d = (ts ! d)\<lparr> hi_count := n \<rparr>"
  shows "chain_ok hf c ts' = chain_ok hf c ts" "holds hf c ts' = holds hf c ts" "settled c ts' = settled c ts"
proof -
  have eq: "table_ok hf (ts' ! d) = table_ok hf (ts ! d)" "tagged_in (ts' ! d) = tagged_in (ts ! d)" "cell hf (ts' ! d) = cell hf (ts ! d)"
    "full hf (ts' ! d) = full hf (ts ! d)" "val_at (ts' ! d) = val_at (ts ! d)" "hi_scale (ts' ! d) = hi_scale (ts ! d)" if "d < length ts" for d
    using assms(2)[OF that] by auto
  have "c < length ts' \<longleftrightarrow> c < length ts"
    using assms(1) by simp
  then show "chain_ok hf c ts' = chain_ok hf c ts"
    unfolding chain_ok_def assms(1) using eq by (smt (verit) less_trans)
  show "holds hf c ts' = holds hf c ts"
    unfolding holds_def assms(1) fun_eq_iff using eq(3) by metis
  show "settled c ts' = settled c ts"
    unfolding settled_def assms(1) using eq(5, 6) by metis
qed

lemma add_count_same:
  "length (add_count c n ts) = length ts"
  "\<exists>m. add_count c n ts ! d = (ts ! d)\<lparr> hi_count := m \<rparr>"
proof -
  show "length (add_count c n ts) = length ts"
    by (simp add: add_count_def)
  show "\<exists>m. add_count c n ts ! d = (ts ! d)\<lparr> hi_count := m \<rparr>"
  proof (cases "d = c \<and> c < length ts")
    case True
    then show ?thesis
      by (auto simp: add_count_def)
  next
    case False
    then have "add_count c n ts ! d = ts ! d"
      by (cases "c < length ts") (auto simp: add_count_def list_update_beyond)
    then show ?thesis
      by (intro exI[of _ "hi_count (ts ! d)"]) simp
  qed
qed

lemma add_count_chain [simp]:
  "chain_ok hf c' (add_count c n ts) = chain_ok hf c' ts" "holds hf c' (add_count c n ts) = holds hf c' ts"
  "settled c' (add_count c n ts) = settled c' ts" "length (add_count c n ts) = length ts"
  by (rule chain_same; rule add_count_same) (rule chain_same add_count_same | rule add_count_same)+

subsection \<open>Copying an entry\<close>

text \<open>Entry \<open>i\<close> of table \<open>c\<close>, with key \<open>k\<close>, is on its way: no table from \<open>d\<close> on knows the key, and the
  tables in between cannot take it.\<close>

definition moving :: "('k \<Rightarrow> 32 word) \<Rightarrow> nat \<Rightarrow> nat \<Rightarrow> 'k \<Rightarrow> nat \<Rightarrow> ('k, 'v) tables \<Rightarrow> bool" where
  "moving hf c i k d ts \<longleftrightarrow> chain_ok hf c ts \<and> settled (Suc c) ts \<and> c < d \<and> d < length ts \<and> i < 2 ^ hi_scale (ts ! c) \<and>
     key_at (ts ! c) i = Some k \<and> (\<forall>e. d \<le> e \<longrightarrow> e < length ts \<longrightarrow> cell hf (ts ! e) k = None) \<and>
     (\<forall>e. c < e \<longrightarrow> e < d \<longrightarrow> full hf (ts ! e) k \<or> gone (cell hf (ts ! e) k))"

definition moved_to :: "('k \<Rightarrow> 32 word) \<Rightarrow> nat \<Rightarrow> nat \<Rightarrow> 'k \<Rightarrow> 'v \<Rightarrow> ('k, 'v) tables \<Rightarrow> ('k, 'v) tables \<Rightarrow> bool" where
  "moved_to hf c i k v ts ts' \<longleftrightarrow> chain_ok hf c ts' \<and> settled (Suc c) ts' \<and> length ts \<le> length ts' \<and>
     (\<exists>n. ts' ! c = (put_value i copied_value (ts ! c))\<lparr> hi_count := n \<rparr>) \<and>
     (\<forall>k' v'. holds hf (Suc c) ts' k' v' \<longleftrightarrow> holds hf (Suc c) ts k' v' \<or> k' = k \<and> v' = v)"

lemma put_value_twice [simp]: "put_value i w (put_value i w' I) = put_value i w I"
  by (cases "i < length (hi_table I)") (simp_all add: put_value_def list_update_beyond)

lemma movingD:
  assumes "moving hf c i k d ts"
  shows "chain_ok hf c ts" "settled (Suc c) ts" "c < d" "d < length ts" "c < length ts" "i < 2 ^ hi_scale (ts ! c)"
    "key_at (ts ! c) i = Some k" "d \<le> e \<Longrightarrow> e < length ts \<Longrightarrow> cell hf (ts ! e) k = None"
    "c < e \<Longrightarrow> e < d \<Longrightarrow> full hf (ts ! e) k \<or> gone (cell hf (ts ! e) k)"
    "table_ok hf (ts ! c)" "keys_ok hf (ts ! c)"
  using assms chain_okD(2)[of hf c ts c] table_okD(1)[of hf "ts ! c"] unfolding moving_def by auto

lemma holds_later: "c < c' \<Longrightarrow> holds hf c' (ts[c := I]) = holds hf c' ts"
  by (auto simp: holds_def fun_eq_iff)

lemma settled_later: "c < c' \<Longrightarrow> settled c' (ts[c := I]) = settled c' ts"
  by (auto simp: settled_def)

definition others :: "('k \<Rightarrow> 32 word) \<Rightarrow> nat \<Rightarrow> nat \<Rightarrow> ('k, 'v) tables \<Rightarrow> 'k \<Rightarrow> 'v \<Rightarrow> bool" where
  "others hf c d ts k v \<longleftrightarrow> (\<exists>e. c \<le> e \<and> e < length ts \<and> e \<noteq> d \<and> cell hf (ts ! e) k = Some (Plain (HVal v)))"

lemma holds_split:
  assumes "c \<le> d" "d < length ts"
  shows "holds hf c (ts[d := I]) k v \<longleftrightarrow> cell hf I k = Some (Plain (HVal v)) \<or> others hf c d ts k v"
    "holds hf c ts k v \<longleftrightarrow> cell hf (ts ! d) k = Some (Plain (HVal v)) \<or> others hf c d ts k v"
proof -
  have *: "holds hf c ts k v \<longleftrightarrow> cell hf (ts ! d) k = Some (Plain (HVal v)) \<or> others hf c d ts k v" if "d < length ts" for ts
    using assms(1) that unfolding holds_def others_def by metis
  show "holds hf c ts k v \<longleftrightarrow> cell hf (ts ! d) k = Some (Plain (HVal v)) \<or> others hf c d ts k v"
    using * assms(2) .
  have "others hf c d (ts[d := I]) k v = others hf c d ts k v"
    by (auto simp: others_def)
  then show "holds hf c (ts[d := I]) k v \<longleftrightarrow> cell hf I k = Some (Plain (HVal v)) \<or> others hf c d ts k v"
    using *[of "ts[d := I]"] assms(2) by simp
qed

lemma settled_update:
  "settled c ts \<Longrightarrow> (\<And>n v. n < 2 ^ hi_scale I \<Longrightarrow> val_at I n \<noteq> Tagged (HVal v)) \<Longrightarrow> settled c (ts[d := I])"
  unfolding settled_def by (metis length_list_update nth_list_update_eq nth_list_update_neq)

text \<open>Marking an entry of table \<open>c\<close>, so that it is or will be found in a later table.\<close>

lemma mark_chain:
  assumes "chain_ok hf c ts" "i < 2 ^ hi_scale (ts ! c)" "is_tagged w" "key_at (ts ! c) i = None \<longrightarrow> w = copied_value" "Suc c < length ts"
  shows "chain_ok hf c (set_value c i w ts)"
proof -
  have c: "c < length ts" "table_ok hf (ts ! c)"
    using chain_okD(1, 2)[OF assms(1)] by auto
  have w: "key_at (ts ! c) i = None \<longrightarrow> w = Plain DoesNotExist \<or> w = copied_value"
    using assms(4) by blast
  have P: "full hf (put_value i w (ts ! c)) = full hf (ts ! c)"
    "key_at (ts ! c) i \<noteq> Some k \<Longrightarrow> cell hf (put_value i w (ts ! c)) k = cell hf (ts ! c) k"
    "key_at (ts ! c) i = Some k \<Longrightarrow> cell hf (put_value i w (ts ! c)) k = Some w" for k
    by (rule put_value_ok(2-4)[OF table_okD(1)[OF c(2)] assms(2) w]; assumption)+
  show ?thesis
    unfolding set_put
  proof (rule chain_update[OF assms(1) order_refl c(1)])
    show "table_ok hf (put_value i w (ts ! c))"
      by (rule table_ok_put_value[OF c(2) assms(2)]) (use assms(3, 4) in auto)
    fix k
    show "full hf (ts ! c) k \<Longrightarrow> full hf (put_value i w (ts ! c)) k"
      using P(1) by simp
    show "gone (cell hf (ts ! c) k) \<Longrightarrow> gone (cell hf (put_value i w (ts ! c)) k)"
      using P(2, 3)[of k] assms(3) by (cases w; cases "key_at (ts ! c) i = Some k") (auto simp: gone_def)
  qed (use assms(5) in auto)
qed

lemma moving_tag:
  assumes "moving hf c i k d ts"
  shows "moving hf c i k d (set_value c i (Tagged (HVal v)) ts)"
    "val_at (set_value c i (Tagged (HVal v)) ts ! c) i = Tagged (HVal v)"
    "cell hf (set_value c i (Tagged (HVal v)) ts ! c) k = Some (Tagged (HVal v))"
proof -
  note D = movingD[OF assms]
  have i: "i < length (hi_table (ts ! c))"
    using D(6) keys_okD(3)[OF D(11)] by simp
  have "chain_ok hf c (set_value c i (Tagged (HVal v)) ts)"
    by (rule mark_chain) (use D in simp_all)
  then show "moving hf c i k d (set_value c i (Tagged (HVal v)) ts)"
    using D i unfolding moving_def set_put by (auto simp: settled_later put_view nth_list_update)
  show "val_at (set_value c i (Tagged (HVal v)) ts ! c) i = Tagged (HVal v)"
    using D(5) i by (simp add: set_put put_view)
  show "cell hf (set_value c i (Tagged (HVal v)) ts ! c) k = Some (Tagged (HVal v))"
    using put_value_ok(4)[OF D(11, 6), of "Tagged (HVal v)" k] D(5, 7) by (simp add: set_put)
qed

lemma moving_on:
  assumes "moving hf c i k d ts" "full hf (ts ! d) k"
  shows "moving hf c i k (Suc d) (start_copy d ts)" "start_copy d ts ! c = ts ! c"
    "holds hf (Suc c) (start_copy d ts) = holds hf (Suc c) ts"
proof -
  note D = movingD[OF assms(1)]
  have cd: "c \<le> d"
    using D(3) by simp
  note S = start_copy_ok[OF D(1) cd]
  show same: "start_copy d ts ! c = ts ! c" "holds hf (Suc c) (start_copy d ts) = holds hf (Suc c) ts"
    using S(3)[OF D(5)] start_copy_holds[OF D(1) cd] by simp_all
  have "cell hf (start_copy d ts ! e) k = None" if "Suc d \<le> e" "e < length (start_copy d ts)" for e
    using S(3)[of e] S(5)[of e] D(8)[of e] that by (cases "e < length ts") auto
  moreover have "full hf (start_copy d ts ! e) k \<or> gone (cell hf (start_copy d ts ! e) k)" if "c < e" "e < Suc d" for e
    using S(3)[of e] D(4) D(9)[of e] assms(2) that by (cases "e = d") auto
  ultimately show "moving hf c i k (Suc d) (start_copy d ts)"
    using D S(1, 4) same start_copy_settled[OF D(2)] unfolding moving_def by auto
qed

lemma moving_claim:
  assumes "moving hf c i k d ts" "gone (cell hf (ts ! c) k)" "look_up k (hf k) (ts ! d) = Some (j, True)"
  shows "chain_ok hf c (set_key d j k ts)" "settled (Suc c) (set_key d j k ts)" "holds hf (Suc c) (set_key d j k ts) = holds hf (Suc c) ts"
    "cell hf (set_key d j k ts ! d) k = Some (val_at (ts ! d) j)" "set_key d j k ts ! c = ts ! c"
    "val_at (ts ! d) j = Plain DoesNotExist \<or> val_at (ts ! d) j = copied_value"
    "val_at (ts ! d) j = copied_value \<Longrightarrow> moving hf c i k (Suc d) (set_key d j k ts)"
proof -
  note D = movingD[OF assms(1)]
  have cd: "c \<le> d"
    using D(3) by simp
  have ok: "table_ok hf (ts ! d)" "keys_ok hf (ts ! d)"
    using chain_okD(2)[OF D(1) cd D(4)] table_okD(1) by blast+
  have j: "j < 2 ^ hi_scale (ts ! d)" "key_at (ts ! d) j = None" "j < length (hi_table (ts ! d))"
    using look_upD[OF assms(3)] keys_okD(2, 3)[OF ok(2)] by simp_all
  note P = put_key_ok[OF ok(2) assms(3)]
  note V = put_view(3, 4)[OF j(3)]
  have none: "cell hf (ts ! d) k = None"
    using D(8)[of d] D(4) by simp
  show chain: "chain_ok hf c (set_key d j k ts)"
    unfolding set_put
  proof (rule chain_update[OF D(1) cd D(4)])
    show "table_ok hf (put_key j k (ts ! d))"
      using table_ok_put_key[OF ok(1) assms(3)] .
    fix k' e
    show "full hf (ts ! d) k' \<Longrightarrow> full hf (put_key j k (ts ! d)) k'"
      using P(2) .
    show "gone (cell hf (ts ! d) k') \<Longrightarrow> gone (cell hf (put_key j k (ts ! d)) k')"
      using P(3)[of k'] none by (cases "k' = k") (auto simp: gone_def)
    show "full hf (ts ! e) k' \<or> gone (cell hf (ts ! e) k')"
      if "cell hf (put_key j k (ts ! d)) k' \<noteq> None" "cell hf (ts ! d) k' = None" "c \<le> e" "e < d"
    proof -
      have "k' = k"
        using that P(3)[of k'] by metis
      then show ?thesis
        using D(9)[of e] assms(2) that by (cases "e = c") auto
    qed
  qed (use P(5) chain_okD(3)[OF D(1) cd D(4)] in simp)
  show set: "settled (Suc c) (set_key d j k ts)"
    using D(2, 4) V by (auto simp: settled_def set_put nth_list_update)
  show "val_at (ts ! d) j = Plain DoesNotExist \<or> val_at (ts ! d) j = copied_value"
    using keys_okD(5)[OF ok(2) j(1, 2)] .
  then have dull: "val_at (ts ! d) j \<noteq> Plain (HVal v)" for v
    by (auto simp: copied_value_def)
  show cd': "cell hf (set_key d j k ts ! d) k = Some (val_at (ts ! d) j)" and same: "set_key d j k ts ! c = ts ! c"
    using P(4) D(3, 4) by (simp_all add: set_put)
  have cells: "cell hf (set_key d j k ts ! e) k' = Some (Plain (HVal v)) \<longleftrightarrow> cell hf (ts ! e) k' = Some (Plain (HVal v))"
    if "e < length ts" for e k' v
    using P(3)[of k'] P(4) dull none D(4) that by (cases "e = d"; cases "k' = k") (auto simp: set_put)
  show "holds hf (Suc c) (set_key d j k ts) = holds hf (Suc c) ts"
    unfolding holds_def fun_eq_iff using cells by auto
  assume "val_at (ts ! d) j = copied_value"
  then have gone: "gone (cell hf (set_key d j k ts ! d) k)" and "is_tagged (val_at (ts ! d) j)"
    using cd' by (simp_all add: gone_def copied_value_def)
  then have "tagged_in (ts ! d) \<noteq> {}"
    using j(1) by (auto simp: tagged_in_def)
  then have "Suc d < length ts"
    using chain_okD(3)[OF D(1) cd D(4)] by blast
  then show "moving hf c i k (Suc d) (set_key d j k ts)"
    using D chain set same gone unfolding moving_def by (auto simp: set_put nth_list_update less_Suc_eq)
qed


lemma moved_here:
  assumes "ts1 = set_value c i (Tagged (HVal v)) ts"
    and "moving hf c i k d ts1" "cell hf (ts1 ! c) k = Some (Tagged (HVal v))"
    "look_up k (hf k) (ts1 ! d) = Some (j, True)" "val_at (ts1 ! d) j = Plain DoesNotExist"
  shows "moved_to hf c i k v ts (moved c i d j v (set_key d j k ts1))"
proof -
  note D = movingD[OF assms(2)]
  let ?ts2 = "set_key d j k ts1"
  let ?J = "put_value j (Plain (HVal v)) (?ts2 ! d)"
  let ?ts3 = "?ts2[d := ?J]"
  have "gone (cell hf (ts1 ! c) k)"
    using assms(3) by (simp add: gone_def)
  note C = moving_claim[OF assms(2) this assms(4)]
  have cd: "c \<le> d" "d < length ?ts2" "c < length ?ts2" "Suc c < length ?ts2"
    using D(3, 4) by simp_all
  have kd: "keys_ok hf (ts1 ! d)"
    using chain_okD(2)[OF D(1) cd(1) D(4)] table_okD(1) by blast
  have ok2: "table_ok hf (?ts2 ! d)" "keys_ok hf (?ts2 ! d)"
    using chain_okD(2)[OF C(1) cd(1, 2)] table_okD(1) by blast+
  have j: "j < 2 ^ hi_scale (?ts2 ! d)" "key_at (?ts2 ! d) j = Some k" "val_at (?ts2 ! d) j = Plain DoesNotExist"
    using look_upD[OF assms(4)] keys_okD(2, 3)[OF kd] D(4) assms(5) by (simp_all add: set_put put_view)
  have w: "key_at (?ts2 ! d) j = None \<longrightarrow> Plain (HVal v) = Plain DoesNotExist \<or> Plain (HVal v) = copied_value"
    using j(2) by simp
  note P = put_value_ok[OF ok2(2) j(1) w]
  have tab: "table_ok hf ?J"
    by (rule table_ok_put_value[OF ok2(1) j(1)]) (use j in simp_all)
  have old: "cell hf (?ts2 ! d) k = Some (Plain DoesNotExist)"
    using C(4) assms(5) by simp
  have cells: "cell hf ?J k' = (if k' = k then Some (Plain (HVal v)) else cell hf (?ts2 ! d) k')" for k'
    using P(3)[of k'] P(4)[of k] j(2) by simp
  have chain3: "chain_ok hf c ?ts3"
  proof (rule chain_update[OF C(1) cd(1, 2) tab])
    fix k'
    show "gone (cell hf (?ts2 ! d) k') \<Longrightarrow> gone (cell hf ?J k')"
      using cells[of k'] old by (cases "k' = k") (auto simp: gone_def)
    show "cell hf ?J k' \<noteq> None \<Longrightarrow> cell hf (?ts2 ! d) k' = None \<Longrightarrow> full hf (?ts2 ! e) k' \<or> gone (cell hf (?ts2 ! e) k')" for e
      using cells[of k'] old by (cases "k' = k") simp_all
  qed (use P(2, 5) chain_okD(3)[OF C(1) cd(1, 2)] in auto)
  have c3: "?ts3 ! c = put_value i (Tagged (HVal v)) (ts ! c)" "key_at (?ts3 ! c) i = Some k" "i < 2 ^ hi_scale (?ts3 ! c)"
    using C(5) D(3, 5, 6, 7) unfolding assms(1) by (simp_all add: set_put)
  have chain4: "chain_ok hf c (set_value c i copied_value ?ts3)"
    by (rule mark_chain[OF chain3 c3(3)]) (use c3(2) cd(4) in \<open>simp_all add: copied_value_def\<close>)
  have "settled (Suc c) ?ts3"
  proof (rule settled_update[OF C(2)])
    show "val_at ?J n \<noteq> Tagged (HVal v')" if "n < 2 ^ hi_scale ?J" for n v'
      using C(2) cd(2) D(3) j(1) keys_okD(3)[OF ok2(2)] that by (auto simp: settled_def put_view)
  qed
  then have set4: "settled (Suc c) (set_value c i copied_value ?ts3)"
    by (simp add: set_put settled_later)
  have "holds hf (Suc c) ?ts3 k' v' \<longleftrightarrow> holds hf (Suc c) ?ts2 k' v' \<or> k' = k \<and> v' = v" for k' v'
    using cells[of k'] old holds_split(1)[of "Suc c" d ?ts2 hf ?J k' v'] holds_split(2)[of "Suc c" d ?ts2 hf k' v'] D(3) cd(2) by (cases "k' = k") auto
  moreover have "holds hf (Suc c) ?ts2 = holds hf (Suc c) ts"
    unfolding C(3) by (simp add: assms(1) set_put holds_later)
  ultimately have hold4: "holds hf (Suc c) (set_value c i copied_value ?ts3) k' v' \<longleftrightarrow> holds hf (Suc c) ts k' v' \<or> k' = k \<and> v' = v" for k' v'
    by (simp add: set_put holds_later)
  have ts': "moved c i d j v ?ts2 = add_count d 1 (add_count c (- 1) (set_value c i copied_value ?ts3))"
    by (simp add: moved_def set_put)
  obtain m where m: "add_count c (- 1) (set_value c i copied_value ?ts3) ! c = (set_value c i copied_value ?ts3 ! c)\<lparr> hi_count := m \<rparr>"
    using add_count_same(2) by blast
  obtain n where n: "moved c i d j v ?ts2 ! c = (add_count c (- 1) (set_value c i copied_value ?ts3) ! c)\<lparr> hi_count := n \<rparr>"
    unfolding ts' using add_count_same(2) by blast
  have "set_value c i copied_value ?ts3 ! c = put_value i copied_value (ts ! c)"
    using c3(1) cd(3) by (simp add: set_put)
  then have "moved c i d j v ?ts2 ! c = (put_value i copied_value (ts ! c))\<lparr> hi_count := n \<rparr>"
    using m n by simp
  then show ?thesis
    unfolding moved_to_def using chain4 set4 hold4 unfolding ts' by (auto simp: assms(1))
qed

lemma copy_entry_moves:
  assumes "moving hf c i k d ts" "val_at (ts ! c) i = Plain (HVal v) \<or> val_at (ts ! c) i = Tagged (HVal v)" "h = 0 \<or> h = hf k"
  shows "\<exists>ts'. copy_entry hf c i h d ts = Inr (True, ts') \<and> moved_to hf c i k v ts ts'"
  using assms
proof (induction hf c i h d ts rule: copy_entry.induct)
  case (1 hf c i h d ts)
  note D = movingD[OF "1.prems"(1)]
  let ?ts1 = "set_value c i (Tagged (HVal v)) ts"
  have h1: "(if h = 0 then hf k else h) = hf k"
    using "1.prems"(3) by auto
  have mark: "copy_mark (en_value (entry_at c i ts)) = Moving v"
    using "1.prems"(2) by (auto simp: entry_view)
  have key: "en_key (entry_at c i ts) = Some k"
    using D(7) by (simp add: entry_view)
  have ok: "\<not> \<not> (c < d \<and> d < length ts)"
    using D by simp
  note T = moving_tag[OF "1.prems"(1), of v]
  note DT = movingD[OF T(1)]
  have step: "copy_entry hf c i h d ts = (case look_up k (hf k) (?ts1 ! d) of
      None \<Rightarrow> copy_entry hf c i (hf k) (Suc d) (start_copy d ?ts1)
    | Some (j, is_empty) \<Rightarrow> let ts2 = (if is_empty then set_key d j k ?ts1 else ?ts1) in
        (case en_value (entry_at d j ts2) of
           Plain DoesNotExist \<Rightarrow> Inr (True, moved c i d j v ts2)
         | Tagged DoesNotExist \<Rightarrow> copy_entry hf c i (hf k) (Suc d) ts2
         | _ \<Rightarrow> Inr (False, set_value c i copied_value ts2)))"
    using ok mark key h1 by (subst copy_entry.simps) (simp add: Let_def)
  have trans: "moved_to hf c i k v ts ts'" if m: "moved_to hf c i k v ts2 ts'" and len: "length ts \<le> length ts2"
    and c2: "ts2 ! c = ?ts1 ! c" and hold: "holds hf (Suc c) ts2 = holds hf (Suc c) ?ts1" for ts2 ts'
  proof -
    have "holds hf (Suc c) ?ts1 = holds hf (Suc c) ts"
      by (simp add: set_put holds_later)
    then show ?thesis
      using m len hold c2 D(5) unfolding moved_to_def by (auto simp: set_put)
  qed
  have kd: "keys_ok hf (?ts1 ! d)"
    using chain_okD(2)[OF DT(1)] DT(3, 4) table_okD(1) by (metis less_imp_le)
  show ?case
  proof (cases rule: look_cases[OF kd, of k, case_names Full Vacant Found])
    case Full
    note on = moving_on[OF T(1) Full(2)]
    have "val_at (start_copy d ?ts1 ! c) i = Tagged (HVal v)"
      using on(2) T(2) by simp
    then obtain ts' where "copy_entry hf c i (hf k) (Suc d) (start_copy d ?ts1) = Inr (True, ts')"
      "moved_to hf c i k v (start_copy d ?ts1) ts'"
      using "1.IH"(1)[OF ok mark key h1[symmetric] refl Full(1)] on(1) by blast
    moreover have "length ts \<le> length (start_copy d ?ts1)"
      by (simp add: start_copy_def)
    ultimately show ?thesis
      using step Full(1) trans on(2, 3) by auto
  next
    case (Vacant j)
    let ?ts2 = "set_key d j k ?ts1"
    have "gone (cell hf (?ts1 ! c) k)"
      using T(3) by (simp add: gone_def)
    note C = moving_claim[OF T(1) this Vacant(1)]
    have j: "j < length (hi_table (?ts1 ! d))"
      using Vacant(2) keys_okD(3)[OF kd] by simp
    have val: "en_value (entry_at d j ?ts2) = val_at (?ts1 ! d) j"
      using j DT(4) by (simp add: entry_view set_put put_view)
    from C(6) show ?thesis
    proof
      assume copied: "val_at (?ts1 ! d) j = copied_value"
      have "val_at (?ts2 ! c) i = Tagged (HVal v)"
        using C(5) T(2) by simp
      moreover have "?ts2 = (if True then set_key d j k ?ts1 else ?ts1)"
        by simp
      moreover have "en_value (entry_at d j ?ts2) = Tagged DoesNotExist"
        using val copied by (simp add: copied_value_def)
      ultimately obtain ts' where "copy_entry hf c i (hf k) (Suc d) ?ts2 = Inr (True, ts')" "moved_to hf c i k v ?ts2 ts'"
        using "1.IH"(2)[OF ok mark key h1[symmetric] refl Vacant(1) refl _ _ refl C(7)[OF copied]] by blast
      then show ?thesis
        using step Vacant(1) val copied trans[of ?ts2 ts'] C(3, 5) by (simp add: copied_value_def)
    next
      assume empty: "val_at (?ts1 ! d) j = Plain DoesNotExist"
      have "moved_to hf c i k v ts (moved c i d j v ?ts2)"
        using refl T(1, 3) Vacant(1) empty by (rule moved_here)
      then show ?thesis
        using step Vacant(1) val empty by simp
    qed
  next
    case (Found j)
    then show ?thesis
      using DT(8)[of d] DT(4) by simp
  qed
qed


lemma put_same: "i < length (hi_table I) \<Longrightarrow> put_value i (val_at I i) I = I"
  by (simp add: put_value_def val_at_def)

definition all_ok :: "('k \<Rightarrow> 32 word) \<Rightarrow> nat \<Rightarrow> ('k, 'v) tables \<Rightarrow> bool" where
  "all_ok hf c ts \<longleftrightarrow> chain_ok hf c ts \<and> settled c ts"

lemma all_okD:
  assumes "all_ok hf c ts"
  shows "chain_ok hf c ts" "settled c ts" "c < length ts" "table_ok hf (ts ! c)" "keys_ok hf (ts ! c)"
    "i < 2 ^ hi_scale (ts ! c) \<Longrightarrow> val_at (ts ! c) i \<noteq> Tagged (HVal v)"
    "i < 2 ^ hi_scale (ts ! c) \<Longrightarrow> is_tagged (val_at (ts ! c) i) \<Longrightarrow> Suc c < length ts"
    "cell hf (ts ! c) k = Some (Plain b) \<Longrightarrow> c < e \<Longrightarrow> e < length ts \<Longrightarrow> cell hf (ts ! e) k = None"
proof -
  show chain: "chain_ok hf c ts" and set: "settled c ts"
    using assms by (simp_all add: all_ok_def)
  note C = chain_okD[OF chain]
  show "c < length ts" "table_ok hf (ts ! c)" "keys_ok hf (ts ! c)"
    using C(1, 2) table_okD(1) by blast+
  show "i < 2 ^ hi_scale (ts ! c) \<Longrightarrow> val_at (ts ! c) i \<noteq> Tagged (HVal v)"
    using set C(1) unfolding settled_def by blast
  show "Suc c < length ts" if "i < 2 ^ hi_scale (ts ! c)" "is_tagged (val_at (ts ! c) i)"
  proof -
    have "tagged_in (ts ! c) \<noteq> {}"
      using that by (auto simp: tagged_in_def)
    then show ?thesis
      using C(1, 3) by blast
  qed
  show "cell hf (ts ! e) k = None" if "cell hf (ts ! c) k = Some (Plain b)" "c < e" "e < length ts"
  proof -
    have "\<not> full hf (ts ! c) k" "\<not> gone (cell hf (ts ! c) k)"
      using that(1) by (cases "look_up k (hf k) (ts ! c)"; auto simp: full_def cell_def gone_def)+
    then show ?thesis
      using C(4)[OF order_refl that(2, 3)] by blast
  qed
qed

lemma mark_all_ok:
  assumes "all_ok hf c ts" "i < 2 ^ hi_scale (ts ! c)" "is_tagged w" "key_at (ts ! c) i = None \<longrightarrow> w = copied_value"
    and "\<And>v. w \<noteq> Tagged (HVal v)" "\<And>v. val_at (ts ! c) i \<noteq> Plain (HVal v)" "Suc c < length ts"
  shows "all_ok hf c (set_value c i w ts)" "holds hf c (set_value c i w ts) = holds hf c ts"
proof -
  note A = all_okD[OF assms(1)]
  have len: "i < length (hi_table (ts ! c))"
    using assms(2) keys_okD(3)[OF A(5)] by simp
  have "settled c (set_value c i w ts)"
    unfolding set_put by (rule settled_update[OF A(2)]) (use A(6) len assms(5) in \<open>auto simp: put_view\<close>)
  then show "all_ok hf c (set_value c i w ts)"
    using mark_chain[OF A(1) assms(2-4, 7)] by (simp add: all_ok_def)
  have wk: "key_at (ts ! c) i = None \<longrightarrow> w = Plain DoesNotExist \<or> w = copied_value"
    using assms(4) by blast
  note P = put_value_ok[OF A(5) assms(2) wk]
  have "cell hf (put_value i w (ts ! c)) k = Some (Plain (HVal v)) \<longleftrightarrow> cell hf (ts ! c) k = Some (Plain (HVal v))" for k v
  proof (cases "key_at (ts ! c) i = Some k")
    case True
    then have "cell hf (ts ! c) k = Some (val_at (ts ! c) i)"
      using keys_okD(4)[OF A(5) assms(2)] by (simp add: cell_def)
    then show ?thesis
      using P(4)[OF True] assms(3, 6) by auto
  qed (use P(3) in simp)
  then show "holds hf c (set_value c i w ts) = holds hf c ts"
    unfolding fun_eq_iff set_put using holds_split[OF order_refl A(3)] by metis
qed

lemma moved_all_ok:
  assumes "all_ok hf c ts" "moved_to hf c i k v ts ts'" "i < 2 ^ hi_scale (ts ! c)" "key_at (ts ! c) i = Some k" "val_at (ts ! c) i = Plain (HVal v)"
  shows "all_ok hf c ts'" "holds hf c ts' = holds hf c ts"
proof -
  note A = all_okD[OF assms(1)]
  obtain n where t: "ts' ! c = (put_value i copied_value (ts ! c))\<lparr> hi_count := n \<rparr>" and chain: "chain_ok hf c ts'"
    and set: "settled (Suc c) ts'" and len: "length ts \<le> length ts'"
    and hold: "holds hf (Suc c) ts' k' v' \<longleftrightarrow> holds hf (Suc c) ts k' v' \<or> k' = k \<and> v' = v" for k' v'
    using assms(2) unfolding moved_to_def by blast
  have il: "i < length (hi_table (ts ! c))"
    using assms(3) keys_okD(3)[OF A(5)] by simp
  have "val_at (ts' ! c) n \<noteq> Tagged (HVal v')" if "n < 2 ^ hi_scale (ts' ! c)" for n v'
    using that A(6) il by (auto simp: t put_view copied_value_def)
  then have "settled c ts'"
    using set unfolding settled_def by (metis le_antisym not_less_eq_eq)
  then show "all_ok hf c ts'"
    using chain by (simp add: all_ok_def)
  have w: "key_at (ts ! c) i = None \<longrightarrow> copied_value = Plain DoesNotExist \<or> copied_value = (copied_value :: 'b hv)"
    by simp
  note P = put_value_ok[OF A(5) assms(3) w]
  have cell: "cell hf (ts ! c) k = Some (Plain (HVal v))"
    using keys_okD(4)[OF A(5) assms(3, 4)] assms(5) by (simp add: cell_def)
  have split: "holds hf c xs k' v' \<longleftrightarrow> cell hf (xs ! c) k' = Some (Plain (HVal v')) \<or> holds hf (Suc c) xs k' v'" if "c < length xs" for xs k' v'
    using that unfolding holds_def by (metis le_antisym le_refl less_le_not_le not_less_eq_eq Suc_leD)
  have "holds hf c ts' k' v' \<longleftrightarrow> holds hf c ts k' v'" for k' v'
    using split[of ts k' v'] split[of ts' k' v'] hold[of k' v'] P(3)[of k'] P(4)[OF assms(4)] cell A(3) len assms(4)
    by (cases "k' = k") (auto simp: t copied_value_def)
  then show "holds hf c ts' = holds hf c ts"
    by (simp add: fun_eq_iff)
qed

text \<open>Copying an entry keeps the contents, and tells whether the entry had not been copied before.\<close>

definition entry_copied :: "('k \<Rightarrow> 32 word) \<Rightarrow> nat \<Rightarrow> nat \<Rightarrow> ('k, 'v) tables \<Rightarrow> bool \<Rightarrow> ('k, 'v) tables \<Rightarrow> bool" where
  "entry_copied hf c i ts did ts' \<longleftrightarrow> all_ok hf c ts' \<and> holds hf c ts' = holds hf c ts \<and> length ts \<le> length ts' \<and>
     (did \<longleftrightarrow> \<not> is_tagged (val_at (ts ! c) i)) \<and>
     (\<exists>w n. is_tagged w \<and> ts' ! c = (put_value i w (ts ! c))\<lparr> hi_count := n \<rparr>)"

lemma copy_entry_ok:
  assumes "all_ok hf c ts" "Suc c < length ts" "i < 2 ^ hi_scale (ts ! c)"
  shows "\<exists>did ts'. copy_entry hf c i 0 (Suc c) ts = Inr (did, ts') \<and> entry_copied hf c i ts did ts'"
proof -
  note A = all_okD[OF assms(1)]
  have il: "i < length (hi_table (ts ! c))"
    using assms(3) keys_okD(3)[OF A(5)] by simp
  have marked: ?thesis if m: "copy_mark (val_at (ts ! c) i) = Marked did w" and w: "is_tagged w" "\<And>v. w \<noteq> Tagged (HVal v)"
      "key_at (ts ! c) i = None \<longrightarrow> w = copied_value" "\<And>v. val_at (ts ! c) i \<noteq> Plain (HVal v)" "did \<longleftrightarrow> \<not> is_tagged (val_at (ts ! c) i)" for did w
  proof -
    have "copy_entry hf c i 0 (Suc c) ts = Inr (did, set_value c i w ts)"
      using m assms(2) by (subst copy_entry.simps) (simp add: entry_view)
    moreover have "entry_copied hf c i ts did (set_value c i w ts)"
      using mark_all_ok[OF assms(1, 3) w(1, 3, 2, 4) assms(2)] w(1, 5) A(3)
      unfolding entry_copied_def by (auto simp: set_put intro!: exI[of _ w] exI[of _ "hi_count (put_value i w (ts ! c))"])
    ultimately show ?thesis
      by blast
  qed
  have key: "key_at (ts ! c) i = None \<Longrightarrow> val_at (ts ! c) i = Plain DoesNotExist \<or> val_at (ts ! c) i = copied_value"
    using keys_okD(5)[OF A(5) assms(3)] .
  show ?thesis
  proof (cases "val_at (ts ! c) i")
    case (Plain b)
    show ?thesis
    proof (cases b)
      case (HVal v)
      then obtain k where k: "key_at (ts ! c) i = Some k"
        using key Plain by (auto simp: copied_value_def)
      have cell: "cell hf (ts ! c) k = Some (Plain (HVal v))"
        using keys_okD(4)[OF A(5) assms(3) k] Plain HVal by (simp add: cell_def)
      have "moving hf c i k (Suc c) ts"
        using A(1, 2) assms(2, 3) k A(8)[OF cell] unfolding moving_def settled_def by auto
      then obtain ts' where ts': "copy_entry hf c i 0 (Suc c) ts = Inr (True, ts')" "moved_to hf c i k v ts ts'"
        using copy_entry_moves[of hf c i k "Suc c" ts v 0] Plain HVal by auto
      then have "entry_copied hf c i ts True ts'"
        using moved_all_ok[OF assms(1) ts'(2) assms(3) k] Plain HVal ts'(2) unfolding entry_copied_def moved_to_def
        by (metis copied_value_def is_tagged.simps)
      then show ?thesis
        using ts'(1) by blast
    qed (use Plain key in \<open>auto intro!: marked simp: copied_value_def\<close>)
  next
    case (Tagged b)
    then show ?thesis
      using A(6)[OF assms(3)] key by (cases b) (auto intro!: marked simp: copied_value_def)
  qed
qed


subsection \<open>Helping with a copy\<close>

lemma card_tagged_copied:
  assumes "keys_ok hf I" "i < 2 ^ hi_scale I" "is_tagged w"
  shows "card (tagged_in (put_value i w I)) = card (tagged_in I) + (if is_tagged (val_at I i) then 0 else 1)"
proof -
  have "i < length (hi_table I)"
    using assms(1, 2) keys_okD(3) by metis
  then have "tagged_in (put_value i w I) = insert i (tagged_in I)"
    using assms(2, 3) by (auto simp: tagged_in_def put_view)
  then show ?thesis
    using assms(2) by (auto simp: tagged_in_def insert_absorb)
qed

lemma copy_entries_ok:
  assumes "all_ok hf c ts" "Suc c < length ts" "set is \<subseteq> {..<2 ^ hi_scale (ts ! c)}"
  shows "\<exists>n' ts'. copy_entries hf c is n ts = Inr (n', ts') \<and> all_ok hf c ts' \<and> holds hf c ts' = holds hf c ts \<and> length ts \<le> length ts' \<and>
     n \<le> n' \<and> card (tagged_in (ts' ! c)) + n = card (tagged_in (ts ! c)) + n' \<and> hi_copied (ts' ! c) = hi_copied (ts ! c) \<and>
     hi_scale (ts' ! c) = hi_scale (ts ! c)"
  using assms
proof (induction "is" arbitrary: n ts)
  case (Cons i "is")
  note A = all_okD[OF Cons.prems(1)]
  have i: "i < 2 ^ hi_scale (ts ! c)"
    using Cons.prems(3) by simp
  obtain did ts1 where c1: "copy_entry hf c i 0 (Suc c) ts = Inr (did, ts1)" and e: "entry_copied hf c i ts did ts1"
    using copy_entry_ok[OF Cons.prems(1, 2) i] by blast
  obtain w m where w: "is_tagged w" "ts1 ! c = (put_value i w (ts ! c))\<lparr> hi_count := m \<rparr>"
    using e unfolding entry_copied_def by blast
  have card: "card (tagged_in (ts1 ! c)) = card (tagged_in (ts ! c)) + (if did then 1 else 0)"
    using card_tagged_copied[OF A(5) i w(1)] w(2) e unfolding entry_copied_def by simp
  have same: "hi_copied (ts1 ! c) = hi_copied (ts ! c)" "hi_scale (ts1 ! c) = hi_scale (ts ! c)"
    using w(2) by simp_all
  have pre: "all_ok hf c ts1" "Suc c < length ts1" "set is \<subseteq> {..<2 ^ hi_scale (ts1 ! c)}"
    using e Cons.prems(2, 3) same unfolding entry_copied_def by auto
  obtain n' ts' where "copy_entries hf c is (if did then Suc n else n) ts1 = Inr (n', ts')" "all_ok hf c ts'"
    "holds hf c ts' = holds hf c ts1" "length ts1 \<le> length ts'" "(if did then Suc n else n) \<le> n'"
    "card (tagged_in (ts' ! c)) + (if did then Suc n else n) = card (tagged_in (ts1 ! c)) + n'"
    "hi_copied (ts' ! c) = hi_copied (ts1 ! c)" "hi_scale (ts' ! c) = hi_scale (ts1 ! c)"
    using Cons.IH[OF pre, of "if did then Suc n else n"] by blast
  then show ?case
    using c1 e card same unfolding entry_copied_def by (intro exI[of _ n'] exI[of _ ts']) (auto split: if_splits)
qed auto

lemma update_table_ok:
  assumes "all_ok hf c ts" "table_ok hf I'" "\<And>i. key_at I' i = key_at (ts ! c) i" "\<And>i. val_at I' i = val_at (ts ! c) i"
    and "hi_scale I' = hi_scale (ts ! c)" "hi_probe I' = hi_probe (ts ! c)"
  shows "all_ok hf c (ts[c := I'])" "holds hf c (ts[c := I']) = holds hf c ts" "tagged_in I' = tagged_in (ts ! c)"
proof -
  note A = all_okD[OF assms(1)]
  have l: "look_up k h I' = look_up k h (ts ! c)" for k h
    by (rule look_up_same_keys) (simp_all add: assms)
  have cells: "cell hf I' = cell hf (ts ! c)" "full hf I' = full hf (ts ! c)"
    by (simp_all add: cell_def full_def l assms(4) fun_eq_iff split: option.splits bool.splits)
  show tag: "tagged_in I' = tagged_in (ts ! c)"
    by (simp add: tagged_in_def assms)
  have "chain_ok hf c (ts[c := I'])"
    by (rule chain_update[OF A(1) order_refl A(3) assms(2)])
      (use cells tag chain_okD(3)[OF A(1) order_refl A(3)] in auto)
  moreover have "settled c (ts[c := I'])"
    by (rule settled_update[OF A(2)]) (use A(6) assms(4, 5) in simp)
  ultimately show "all_ok hf c (ts[c := I'])"
    by (simp add: all_ok_def)
  show "holds hf c (ts[c := I']) = holds hf c ts"
    unfolding fun_eq_iff using holds_split[OF order_refl A(3)] cells(1) by metis
qed

lemma tagged_bound: "tagged_in I \<subseteq> {..<2 ^ hi_scale I}"
  by (auto simp: tagged_in_def)

lemma card_tagged_bound: "card (tagged_in I) \<le> 2 ^ hi_scale I"
  using card_mono[OF _ tagged_bound[of I]] by simp

lemma all_tagged: "card (tagged_in I) = 2 ^ hi_scale I \<Longrightarrow> tagged_in I = {..<2 ^ hi_scale I}"
  using card_subset_eq[OF _ tagged_bound[of I]] by simp

lemma chunk_fits:
  assumes "4 \<le> scale" "8 dvd (x :: nat)"
  shows "x mod 2 ^ scale + entries_per_bucket \<le> 2 ^ scale"
proof -
  have e: "(2::nat) ^ scale = 8 * 2 ^ (scale - 3)"
    using assms(1) power_add[of "2::nat" 3 "scale - 3"] by simp
  then have "8 dvd (x mod 2 ^ scale)"
    using assms(2) by (simp add: dvd_mod)
  then obtain y where y: "x mod 2 ^ scale = 8 * y"
    by blast
  have "x mod 2 ^ scale < 2 ^ scale"
    by simp
  then have "y < 2 ^ (scale - 3)"
    unfolding y unfolding e by simp
  then show ?thesis
    unfolding y unfolding e entries_per_bucket_def by linarith
qed

lemma view_scan [simp]:
  "key_at (I\<lparr> hi_scan := n \<rparr>) i = key_at I i" "val_at (I\<lparr> hi_scan := n \<rparr>) i = val_at I i" "tagged_in (I\<lparr> hi_scan := n \<rparr>) = tagged_in I"
  "look_up k h (I\<lparr> hi_scan := n \<rparr>) = look_up k h I" "keys_ok hf (I\<lparr> hi_scan := n \<rparr>) = keys_ok hf I"
proof -
  show v: "key_at (I\<lparr> hi_scan := n \<rparr>) i = key_at I i" "val_at (I\<lparr> hi_scan := n \<rparr>) i = val_at I i" for i
    by (simp_all add: key_at_def val_at_def)
  show l: "look_up k h (I\<lparr> hi_scan := n \<rparr>) = look_up k h I" for k h
    by (rule look_up_same_keys) (simp_all add: v)
  show "tagged_in (I\<lparr> hi_scan := n \<rparr>) = tagged_in I" "keys_ok hf (I\<lparr> hi_scan := n \<rparr>) = keys_ok hf I"
    by (simp_all add: tagged_in_def keys_ok_def v l cong: option.case_cong)
qed

lemma view_copied [simp]:
  "key_at (I\<lparr> hi_copied := n \<rparr>) i = key_at I i" "val_at (I\<lparr> hi_copied := n \<rparr>) i = val_at I i" "tagged_in (I\<lparr> hi_copied := n \<rparr>) = tagged_in I"
  "look_up k h (I\<lparr> hi_copied := n \<rparr>) = look_up k h I" "keys_ok hf (I\<lparr> hi_copied := n \<rparr>) = keys_ok hf I"
proof -
  show v: "key_at (I\<lparr> hi_copied := n \<rparr>) i = key_at I i" "val_at (I\<lparr> hi_copied := n \<rparr>) i = val_at I i" for i
    by (simp_all add: key_at_def val_at_def)
  show l: "look_up k h (I\<lparr> hi_copied := n \<rparr>) = look_up k h I" for k h
    by (rule look_up_same_keys) (simp_all add: v)
  show "tagged_in (I\<lparr> hi_copied := n \<rparr>) = tagged_in I" "keys_ok hf (I\<lparr> hi_copied := n \<rparr>) = keys_ok hf I"
    by (simp_all add: tagged_in_def keys_ok_def v l cong: option.case_cong)
qed

lemma help_copy_ok:
  assumes "all_ok hf c ts" "Suc c < length ts"
  shows "\<exists>done ts'. help_copy hf c ts = Inr (done, ts') \<and> all_ok hf c ts' \<and> holds hf c ts' = holds hf c ts \<and> length ts \<le> length ts' \<and>
     (done \<longrightarrow> tagged_in (ts' ! c) = {..<2 ^ hi_scale (ts' ! c)})"
proof -
  note A = all_okD[OF assms(1)]
  note T = table_okD[OF A(4)]
  let ?I = "ts ! c"
  let ?size = "2 ^ hi_scale ?I"
  show ?thesis
  proof (cases "hi_copied ?I = ?size")
    case True
    then have "card (tagged_in ?I) = ?size"
      using T(4) card_tagged_bound[of ?I] by simp
    then show ?thesis
      using True assms(1) all_tagged[of ?I] by (intro exI[of _ True] exI[of _ ts]) (simp add: help_copy_def Let_def)
  next
    case False
    define x where "x = hi_scan ?I"
    define panic where "panic = (x \<ge> 2 ^ (hi_scale ?I + 1))"
    define ts1 where "ts1 = (if panic then ts else ts[c := ?I\<lparr> hi_scan := x + entries_per_bucket \<rparr>])"
    define first where "first = (if panic then 0 else x mod ?size)"
    define limit where "limit = (if panic then ?size else entries_per_bucket)"
    let ?I1 = "?I\<lparr> hi_scan := x + entries_per_bucket \<rparr>"
    have "table_ok hf ?I1"
      using A(4) by (simp add: table_ok_def x_def entries_per_bucket_def)
    note U = update_table_ok[OF assms(1) this view_scan(1, 2), simplified]
    have ts1: "all_ok hf c ts1" "holds hf c ts1 = holds hf c ts" "length ts1 = length ts" "hi_scale (ts1 ! c) = hi_scale ?I"
      "hi_copied (ts1 ! c) = hi_copied ?I" "tagged_in (ts1 ! c) = tagged_in ?I"
      using U assms(1) A(3) by (auto simp: ts1_def)
    have fit: "first + limit \<le> ?size"
      using chunk_fits[OF keys_okD(1)[OF A(5)], of x] T(3) by (auto simp: first_def limit_def x_def)
    then have range: "set [first..<first + limit] \<subseteq> {..<2 ^ hi_scale (ts1 ! c)}"
      using ts1(4) by auto
    have "Suc c < length ts1"
      using assms(2) ts1(3) by simp
    then obtain n ts2 where c2: "copy_entries hf c [first..<first + limit] 0 ts1 = Inr (n, ts2)" "all_ok hf c ts2"
      "holds hf c ts2 = holds hf c ts1" "length ts1 \<le> length ts2" "card (tagged_in (ts2 ! c)) = card (tagged_in (ts1 ! c)) + n"
      "hi_copied (ts2 ! c) = hi_copied (ts1 ! c)" "hi_scale (ts2 ! c) = hi_scale (ts1 ! c)"
      using copy_entries_ok[OF ts1(1) _ range, of 0] by fastforce
    note A2 = all_okD[OF c2(2)]
    let ?J = "ts2 ! c"
    let ?J' = "?J\<lparr> hi_copied := hi_copied ?J + n \<rparr>"
    have le: "hi_copied ?J + n \<le> card (tagged_in ?J)"
      using T(4) ts1(5, 6) c2(5, 6) by simp
    then have "table_ok hf ?J'"
      using A2(4) by (simp add: table_ok_def)
    note U2 = update_table_ok[OF c2(2) this view_copied(1, 2), simplified]
    have "help_copy hf c ts = assertE (first + limit \<le> ?size) (bindE (copy_entries hf c [first..<first + limit] 0 ts1)
        (\<lambda>(n, ts2). Inr (hi_copied (add_copied c n ts2 ! c) = ?size, add_copied c n ts2)))"
      using False by (simp only: help_copy_def Let_def x_def panic_def first_def limit_def ts1_def if_False)
    then have "help_copy hf c ts = Inr (hi_copied ?J' = ?size, add_copied c n ts2)"
      using fit c2(1) A2(3) by (simp add: add_copied_def)
    moreover have "tagged_in (add_copied c n ts2 ! c) = {..<2 ^ hi_scale (add_copied c n ts2 ! c)}" if "hi_copied ?J' = ?size"
    proof -
      have "card (tagged_in ?J') = 2 ^ hi_scale ?J'"
        using that le card_tagged_bound[of ?J'] U2(3) c2(7) ts1(4) by simp
      then show ?thesis
        using all_tagged A2(3) by (simp add: add_copied_def)
    qed
    ultimately show ?thesis
      using U2(1, 2) c2(3, 4) ts1(2, 3) by (auto simp: add_copied_def)
  qed
qed


end
