(* ===== verification/HashTableMap.thy ===== *)
theory HashTableMap
  imports HashTableInv
begin

text \<open>
  The hash table of the lock-free runtime is a map, as long as one thread uses it: through any number of
  growing tables, insertions, replacements, removals and lookups answer what a map answers.
\<close>

section \<open>The table is a map\<close>

definition rep :: "('k \<Rightarrow> 32 word) \<Rightarrow> nat \<Rightarrow> ('k, 'v) tables \<Rightarrow> ('k \<rightharpoonup> 'v) \<Rightarrow> bool" where
  "rep hf c ts m \<longleftrightarrow> all_ok hf c ts \<and> (\<forall>k v. m k = Some v \<longleftrightarrow> holds hf c ts k v)"

fun of_opt :: "'v option \<Rightarrow> 'v hbase" where
  "of_opt None = DoesNotExist"
| "of_opt (Some v) = HVal v"

lemma holds_step:
  assumes "c < length ts"
  shows "holds hf c ts k v \<longleftrightarrow> cell hf (ts ! c) k = Some (Plain (HVal v)) \<or> holds hf (Suc c) ts k v"
proof -
  have "others hf c c ts k v \<longleftrightarrow> holds hf (Suc c) ts k v"
    unfolding others_def holds_def by (intro iff_exI) auto
  then show ?thesis
    using holds_split(2)[OF order_refl assms, of hf k v] by simp
qed

lemma all_ok_Suc:
  assumes "all_ok hf c ts" "Suc c < length ts"
  shows "all_ok hf (Suc c) ts"
proof -
  have "chain_ok hf (Suc c) ts"
    unfolding chain_ok_def using assms(2) chain_okD[OF all_okD(1)[OF assms(1)]] by (simp add: Suc_leD)
  moreover have "settled (Suc c) ts"
    using all_okD(2)[OF assms(1)] unfolding settled_def by (simp add: Suc_leD)
  ultimately show ?thesis
    by (simp add: all_ok_def)
qed

text \<open>Where the table does not have the key, its value is in a later table; elsewhere in none of them.\<close>

lemma not_later:
  assumes "all_ok hf c ts" "\<not> full hf (ts ! c) k" "\<not> gone (cell hf (ts ! c) k)"
  shows "\<not> holds hf (Suc c) ts k v"
proof
  assume "holds hf (Suc c) ts k v"
  then obtain d where "Suc c \<le> d" "d < length ts" "cell hf (ts ! d) k \<noteq> None"
    unfolding holds_def by auto
  then show False
    using chain_okD(4)[OF all_okD(1)[OF assms(1)] order_refl, of d k] assms(2, 3) by simp
qed

lemma away: "full hf I k \<or> gone (cell hf I k) \<Longrightarrow> cell hf I k \<noteq> Some (Plain b)"
  by (auto simp: full_def cell_def gone_def)

lemma holds_cases:
  assumes "all_ok hf c ts"
  shows "full hf (ts ! c) k \<or> gone (cell hf (ts ! c) k) \<Longrightarrow> holds hf c ts k v \<longleftrightarrow> holds hf (Suc c) ts k v"
    and "\<not> full hf (ts ! c) k \<Longrightarrow> \<not> gone (cell hf (ts ! c) k) \<Longrightarrow> holds hf c ts k v \<longleftrightarrow> cell hf (ts ! c) k = Some (Plain (HVal v))"
  using holds_step[OF all_okD(3)[OF assms], of hf k v] not_later[OF assms, of k v] away[of hf "ts ! c" k "HVal v"] by blast+

text \<open>What a lookup in the first table tells of the value of a key.\<close>

lemma first_cases:
  assumes "rep hf c ts m"
  obtains (Later) "full hf (ts ! c) k \<or> gone (cell hf (ts ! c) k)" "\<And>v. m k = Some v \<longleftrightarrow> holds hf (Suc c) ts k v"
  | (Vacant) i where "look_up k (hf k) (ts ! c) = Some (i, True)" "m k = None" "\<not> full hf (ts ! c) k" "cell hf (ts ! c) k = None"
  | (Here) i b where "look_up k (hf k) (ts ! c) = Some (i, False)" "val_at (ts ! c) i = Plain b" "\<And>v. m k = Some v \<longleftrightarrow> b = HVal v"
proof -
  have ok: "all_ok hf c ts" and m: "m k = Some v \<longleftrightarrow> holds hf c ts k v" for k v
    using assms by (simp_all add: rep_def)
  note A = all_okD[OF ok] and H = holds_cases[OF ok, of k]
  show ?thesis
  proof (cases rule: look_cases[OF A(5), of k, case_names Full Vacant Found])
    case Full
    then show ?thesis
      using Later H(1) m by blast
  next
    case (Vacant i)
    then have "\<not> holds hf c ts k v" for v
      using H(2) by (simp add: gone_def)
    then show ?thesis
      using Vacant that(2) m by (metis not_None_eq)
  next
    case (Found i)
    show ?thesis
    proof (cases "val_at (ts ! c) i")
      case (Plain b)
      then have "\<not> gone (cell hf (ts ! c) k)"
        using Found by (simp add: gone_def)
      then show ?thesis
        using Found Plain Here[of i b] H(2) m by auto
    next
      case (Tagged b)
      then show ?thesis
        using Later H(1) m Found by (auto simp: gone_def)
    qed
  qed
qed

lemma rep_later: "rep hf c ts m \<Longrightarrow> Suc c < length ts \<Longrightarrow> \<exists>m'. rep hf (Suc c) ts m' \<and> (\<forall>k. (full hf (ts ! c) k \<or> gone (cell hf (ts ! c) k)) \<longrightarrow> m' k = m k)"
proof -
  assume r: "rep hf c ts m" and len: "Suc c < length ts"
  then have ok: "all_ok hf c ts" and m: "m k = Some v \<longleftrightarrow> holds hf c ts k v" for k v
    by (simp_all add: rep_def)
  let ?m = "\<lambda>k. if full hf (ts ! c) k \<or> gone (cell hf (ts ! c) k) then m k else None"
  have "holds hf (Suc c) ts k v \<longleftrightarrow> ?m k = Some v" for k v
  proof (cases "full hf (ts ! c) k \<or> gone (cell hf (ts ! c) k)")
    case False
    then have "\<not> holds hf (Suc c) ts k v"
      using not_later[OF ok] by blast
    then show ?thesis
      using False by simp
  qed (use holds_cases(1)[OF ok] m in simp)
  then have "rep hf (Suc c) ts ?m"
    using all_ok_Suc[OF ok len] by (simp add: rep_def)
  then show ?thesis
    by (intro exI[of _ ?m]) simp
qed

lemma get_from_ok:
  assumes "rep hf c ts m" "length ts - c \<le> n"
  shows "get_from hf n k (hf k) c ts = Some (Inr (of_opt (m k), ts))"
  using assms
proof (induction n arbitrary: c m)
  case 0
  then show ?case
    using all_okD(3)[of hf c ts] by (auto simp: rep_def)
next
  case (Suc n)
  then have ok: "all_ok hf c ts"
    by (simp add: rep_def)
  note A = all_okD[OF ok]
  have later: "get_from hf n k (hf k) (Suc c) ts = Some (Inr (of_opt (m k), ts))"
    if "Suc c < length ts" "full hf (ts ! c) k \<or> gone (cell hf (ts ! c) k)"
    using Suc.IH rep_later[OF Suc.prems(1) that(1)] that Suc.prems(2) by (metis Suc_diff_Suc Suc_le_mono Suc_lessD)
  show ?case
  proof (cases rule: look_cases[OF A(5), of k, case_names Full Vacant Found])
    case Full
    show ?thesis
    proof (cases "Suc c < length ts")
      case True
      then show ?thesis
        using later Full by simp
    next
      case False
      then have "\<not> holds hf c ts k v" for v
        using holds_cases(1)[OF ok] Full by (auto simp: holds_def)
      then have "m k = None"
        using Suc.prems(1) by (metis not_None_eq rep_def)
      then show ?thesis
        using False Full by simp
    qed
  next
    case (Vacant i)
    then have "\<not> holds hf c ts k v" for v
      using holds_cases(2)[OF ok] by (simp add: gone_def)
    then have "m k = None"
      using Suc.prems(1) by (metis not_None_eq rep_def)
    then show ?thesis
      using Vacant by simp
  next
    case (Found i)
    show ?thesis
    proof (cases "val_at (ts ! c) i")
      case (Plain b)
      then have "m k = Some v \<longleftrightarrow> b = HVal v" for v
        using Found holds_cases(2)[OF ok, of k v] Suc.prems(1) by (simp add: rep_def gone_def)
      then have "of_opt (m k) = (if b = TombStone then DoesNotExist else b)"
        by (cases b; cases "m k") auto
      then show ?thesis
        using Found Plain by (simp add: entry_view)
    next
      case (Tagged b)
      have "b = DoesNotExist \<or> b = TombStone"
        using A(6)[OF Found(2)] Tagged by (cases b) auto
      moreover have "Suc c < length ts"
        using A(7)[OF Found(2)] Tagged by simp
      ultimately show ?thesis
        using later Found Tagged by (auto simp: entry_view gone_def)
    qed
  qed
qed

section \<open>Compare and swap\<close>

definition expects :: "'v expect \<Rightarrow> 'v option \<Rightarrow> bool" where
  "expects expected old \<longleftrightarrow> expected = Whatever \<or>
     (case old of None \<Rightarrow> expected = NotThere | Some v \<Rightarrow> expected = Exists \<or> expected = Expect v)"

fun to_opt :: "'v hbase \<Rightarrow> 'v option" where
  "to_opt (HVal v) = Some v"
| "to_opt b = None"

definition cas_to :: "'v expect \<Rightarrow> 'v hbase \<Rightarrow> 'v option \<Rightarrow> 'v option" where
  "cas_to expected new old = (if expects expected old then to_opt new else old)"

text \<open>No table from \<open>c\<close> on has got another key than \<open>k\<close>.\<close>

definition only_new :: "('k \<Rightarrow> 32 word) \<Rightarrow> nat \<Rightarrow> 'k \<Rightarrow> ('k, 'v) tables \<Rightarrow> ('k, 'v) tables \<Rightarrow> bool" where
  "only_new hf c k ts ts' \<longleftrightarrow> length ts \<le> length ts' \<and> (\<forall>d<c. ts' ! d = ts ! d) \<and>
     (\<forall>e k'. c \<le> e \<longrightarrow> e < length ts' \<longrightarrow> k' \<noteq> k \<longrightarrow> cell hf (ts' ! e) k' \<noteq> None \<longrightarrow> e < length ts \<and> cell hf (ts ! e) k' \<noteq> None)"

lemma only_new_refl: "only_new hf c k ts ts"
  by (simp add: only_new_def)

lemma only_new_comp:
  assumes "only_new hf c k ts ts1" "only_new hf c k ts1 ts'"
  shows "only_new hf c k ts ts'"
  using assms unfolding only_new_def by simp

lemma only_new_trans:
  assumes "only_new hf c k ts ts1" "only_new hf (Suc c) k ts1 ts'" "c < length ts"
  shows "only_new hf c k ts ts'"
  unfolding only_new_def
proof (intro conjI allI impI)
  show "length ts \<le> length ts'"
    using assms by (simp add: only_new_def)
  show "ts' ! d = ts ! d" if "d < c" for d
    using assms that by (simp add: only_new_def)
  fix e k' assume h: "c \<le> e" "e < length ts'" "k' \<noteq> k" "cell hf (ts' ! e) k' \<noteq> None"
  have "e < length ts1 \<and> cell hf (ts1 ! e) k' \<noteq> None"
  proof (cases "e = c")
    case True
    then have "ts' ! e = ts1 ! e" "e < length ts1"
      using assms by (simp_all add: only_new_def)
    then show ?thesis
      using h(4) by simp
  next
    case False
    then show ?thesis
      using assms(2) h unfolding only_new_def by simp
  qed
  then show "e < length ts" "cell hf (ts ! e) k' \<noteq> None"
    using assms(1) h(1, 3) unfolding only_new_def by blast+
qed

lemma extend:
  assumes "rep hf c ts m" "Suc c < length ts" "full hf (ts ! c) k \<or> gone (cell hf (ts ! c) k)"
    and "rep hf (Suc c) ts' m2" "only_new hf (Suc c) k ts ts'" "m2 k = x"
    and "\<And>k' v. k' \<noteq> k \<Longrightarrow> m2 k' = Some v \<longleftrightarrow> holds hf (Suc c) ts k' v"
  shows "rep hf c ts' (m(k := x))"
proof -
  have ok: "all_ok hf c ts" and m: "m k = Some v \<longleftrightarrow> holds hf c ts k v" for k v
    using assms(1) by (simp_all add: rep_def)
  have ok2: "all_ok hf (Suc c) ts'" and m2: "m2 k = Some v \<longleftrightarrow> holds hf (Suc c) ts' k v" for k v
    using assms(4) by (simp_all add: rep_def)
  note A = all_okD[OF ok] and B = all_okD[OF ok2]
  have new: "ts' ! c = ts ! c" "length ts \<le> length ts'"
    and cells: "Suc c \<le> e \<Longrightarrow> e < length ts' \<Longrightarrow> k' \<noteq> k \<Longrightarrow> cell hf (ts' ! e) k' \<noteq> None \<Longrightarrow> e < length ts \<and> cell hf (ts ! e) k' \<noteq> None" for e k'
    using assms(5) by (simp_all add: only_new_def)
  have "chain_ok hf c ts'"
    unfolding chain_ok_def
  proof (intro conjI allI impI)
    show "c < length ts'"
      using A(3) new(2) by simp
    fix d assume d: "c \<le> d" "d < length ts'"
    show "table_ok hf (ts' ! d)"
      using chain_okD(2)[OF B(1) _ d(2)] A(4) new(1) d(1) by (cases "d = c") auto
    show "tagged_in (ts' ! d) \<noteq> {} \<Longrightarrow> Suc d < length ts'"
      using chain_okD(3)[OF B(1) _ d(2)] assms(2) new d(1) by (cases "d = c") auto
  next
    fix d e k' assume h: "c \<le> d" "d < e" "e < length ts'" "cell hf (ts' ! e) k' \<noteq> None"
    show "full hf (ts' ! d) k' \<or> gone (cell hf (ts' ! d) k')"
    proof (cases "d = c")
      case True
      show ?thesis
      proof (cases "k' = k")
        case False
        then have "e < length ts \<and> cell hf (ts ! e) k' \<noteq> None"
          using cells h True by simp
        then show ?thesis
          using chain_okD(4)[OF A(1) order_refl, of e k'] h True new(1) by simp
      qed (use assms(3) True new(1) in simp)
    next
      case False
      then show ?thesis
        using chain_okD(4)[OF B(1), of d e k'] h by simp
    qed
  qed
  moreover have "settled c ts'"
    using B(2) A(6) new(1) unfolding settled_def by (metis le_antisym not_less_eq_eq)
  moreover have "(m(k := x)) k' = Some v \<longleftrightarrow> holds hf c ts' k' v" for k' v
    using holds_step[of c ts' hf k' v] holds_step[OF A(3), of hf k' v] m[of k' v] m2[of k' v] assms(6) assms(7)[of k' v]
      away[OF assms(3), of "HVal v"] new A(3)
    by (cases "k' = k") auto
  ultimately show ?thesis
    by (simp add: rep_def all_ok_def)
qed

lemma start_copy_new:
  assumes "rep hf c ts m"
  shows "rep hf c (start_copy c ts) m" "only_new hf c k ts (start_copy c ts)" "Suc c < length (start_copy c ts)" "start_copy c ts ! c = ts ! c"
proof -
  have ok: "all_ok hf c ts" and m: "m k = Some v \<longleftrightarrow> holds hf c ts k v" for k v
    using assms by (simp_all add: rep_def)
  note A = all_okD[OF ok]
  note S = start_copy_ok[OF A(1) order_refl]
  show "Suc c < length (start_copy c ts)" "start_copy c ts ! c = ts ! c"
    using S(3, 4) A(3) by simp_all
  show "rep hf c (start_copy c ts) m"
    using S(1) start_copy_settled[OF A(2)] start_copy_holds(1)[OF A(1) order_refl] m by (simp add: rep_def all_ok_def)
  have "e < length ts \<and> cell hf (ts ! e) k' \<noteq> None" if "e < length (start_copy c ts)" "cell hf (start_copy c ts ! e) k' \<noteq> None" for e k'
    using S(3)[of e] S(5)[of e] that by (cases "e < length ts") auto
  moreover have "start_copy c ts ! d = ts ! d" if "d < c" for d
    using S(3)[of d] A(3) that by simp
  ultimately show "only_new hf c k ts (start_copy c ts)"
    using S(2) unfolding only_new_def by blast
qed

text \<open>Claiming an empty entry, and writing a value where the key is.\<close>

lemma claim_new:
  assumes "rep hf c ts m" "look_up k (hf k) (ts ! c) = Some (i, True)"
  shows "rep hf c (set_key c i k ts) m" "only_new hf c k ts (set_key c i k ts)" "length (set_key c i k ts) = length ts"
    "look_up k (hf k) (set_key c i k ts ! c) = Some (i, False)" "val_at (set_key c i k ts ! c) i = val_at (ts ! c) i"
    "val_at (ts ! c) i = Plain DoesNotExist \<or> val_at (ts ! c) i = copied_value"
proof -
  have ok: "all_ok hf c ts" and m: "m k = Some v \<longleftrightarrow> holds hf c ts k v" for k v
    using assms by (simp_all add: rep_def)
  note A = all_okD[OF ok] and D = look_upD[OF assms(2)] and P = put_key_ok[OF all_okD(5)[OF ok] assms(2)]
  have i: "i < 2 ^ hi_scale (ts ! c)" "key_at (ts ! c) i = None" "i < length (hi_table (ts ! c))"
    using D keys_okD(2, 3)[OF A(5)] by simp_all
  show dull: "val_at (ts ! c) i = Plain DoesNotExist \<or> val_at (ts ! c) i = copied_value"
    using keys_okD(5)[OF A(5) i(1, 2)] .
  show "look_up k (hf k) (set_key c i k ts ! c) = Some (i, False)" "val_at (set_key c i k ts ! c) i = val_at (ts ! c) i"
    "length (set_key c i k ts) = length ts"
    using look_up_put_key(1)[OF assms(2) i(3)] A(3) i(3) by (simp_all add: set_put put_view)
  have none: "cell hf (ts ! c) k = None"
    using assms(2) by (simp add: cell_def)
  have "chain_ok hf c (set_key c i k ts)"
    unfolding set_put
  proof (rule chain_update[OF A(1) order_refl A(3) table_ok_put_key[OF A(4) assms(2)]])
    show "gone (cell hf (ts ! c) k') \<Longrightarrow> gone (cell hf (put_key i k (ts ! c)) k')" for k'
      using P(3)[of k'] none by (cases "k' = k") (auto simp: gone_def)
  qed (use P(2, 5) chain_okD(3)[OF A(1) order_refl A(3)] in auto)
  moreover have "settled c (set_key c i k ts)"
    unfolding set_put by (rule settled_update[OF A(2)]) (use A(6) i(3) in \<open>simp add: put_view\<close>)
  ultimately have "all_ok hf c (set_key c i k ts)"
    by (simp add: all_ok_def)
  moreover have "cell hf (put_key i k (ts ! c)) k' = Some (Plain (HVal v)) \<longleftrightarrow> cell hf (ts ! c) k' = Some (Plain (HVal v))" for k' v
    using P(3)[of k'] P(4) none dull by (cases "k' = k") (auto simp: copied_value_def)
  then have "holds hf c (set_key c i k ts) = holds hf c ts"
    unfolding fun_eq_iff set_put using holds_split[OF order_refl A(3)] by metis
  ultimately show "rep hf c (set_key c i k ts) m"
    unfolding rep_def using m by simp
  show "only_new hf c k ts (set_key c i k ts)"
    unfolding only_new_def
  proof (intro conjI allI impI)
    fix e k' assume h: "c \<le> e" "e < length (set_key c i k ts)" "k' \<noteq> k" "cell hf (set_key c i k ts ! e) k' \<noteq> None"
    then show "e < length ts" "cell hf (ts ! e) k' \<noteq> None"
      using P(3)[OF h(3)] A(3) by (cases "e = c"; simp add: set_put)+
  qed simp_all
qed

lemma write_new:
  assumes "rep hf c ts m" "look_up k (hf k) (ts ! c) = Some (i, False)" "val_at (ts ! c) i = Plain b"
  shows "rep hf c (set_value c i (Plain b') ts) (m(k := to_opt b'))" "only_new hf c k ts (set_value c i (Plain b') ts)"
proof -
  have ok: "all_ok hf c ts" and m: "m k = Some v \<longleftrightarrow> holds hf c ts k v" for k v
    using assms by (simp_all add: rep_def)
  note A = all_okD[OF ok] and D = look_upD[OF assms(2)]
  have i: "i < 2 ^ hi_scale (ts ! c)" "key_at (ts ! c) i = Some k" "i < length (hi_table (ts ! c))"
    using D keys_okD(2, 3)[OF A(5)] by simp_all
  have w: "key_at (ts ! c) i = None \<longrightarrow> Plain b' = Plain DoesNotExist \<or> Plain b' = copied_value"
    using i(2) by simp
  note P = put_value_ok[OF A(5) i(1) w]
  let ?I = "put_value i (Plain b') (ts ! c)"
  have cell: "cell hf (ts ! c) k = Some (Plain b)"
    using assms(2, 3) by (simp add: cell_def)
  have cells: "cell hf ?I k' = (if k' = k then Some (Plain b') else cell hf (ts ! c) k')" for k'
    using P(3)[of k'] P(4)[of k] i(2) by simp
  have tab: "table_ok hf ?I"
    by (rule table_ok_put_value[OF A(4) i(1)]) (use i(2) assms(3) in simp_all)
  have "chain_ok hf c (set_value c i (Plain b') ts)"
    unfolding set_put
  proof (rule chain_update[OF A(1) order_refl A(3) tab])
    show "gone (cell hf (ts ! c) k') \<Longrightarrow> gone (cell hf ?I k')" for k'
      using cells[of k'] cell by (cases "k' = k") (auto simp: gone_def)
  qed (use P(2, 5) chain_okD(3)[OF A(1) order_refl A(3)] in auto)
  moreover have "settled c (set_value c i (Plain b') ts)"
    unfolding set_put by (rule settled_update[OF A(2)]) (use A(6) i(3) in \<open>auto simp: put_view\<close>)
  ultimately have ok': "all_ok hf c (set_value c i (Plain b') ts)"
    by (simp add: all_ok_def)
  have "\<not> holds hf (Suc c) ts k v" for v
    by (rule not_later[OF ok]) (use cell in \<open>simp_all add: gone_def full_def assms(2)\<close>)
  then have others: "\<not> others hf c c ts k v" for v
    unfolding others_def holds_def by (metis Suc_leI le_neq_implies_less)
  have "(m(k := to_opt b')) k' = Some v \<longleftrightarrow> holds hf c (set_value c i (Plain b') ts) k' v" for k' v
    using holds_split[OF order_refl A(3), of hf] m[of k' v] cells[of k'] others[of v] unfolding set_put
    by (cases "k' = k"; cases b') auto
  then show "rep hf c (set_value c i (Plain b') ts) (m(k := to_opt b'))"
    using ok' by (simp add: rep_def)
  show "only_new hf c k ts (set_value c i (Plain b') ts)"
    unfolding only_new_def
  proof (intro conjI allI impI)
    fix e k' assume h: "c \<le> e" "e < length (set_value c i (Plain b') ts)" "k' \<noteq> k" "cell hf (set_value c i (Plain b') ts ! e) k' \<noteq> None"
    then show "e < length ts" "cell hf (ts ! e) k' \<noteq> None"
      using cells[of k'] A(3) by (cases "e = c"; simp add: set_put)+
  qed simp_all
qed

lemma fun_upd_same: "(m(k := x)) = m \<longleftrightarrow> m k = x"
  by (metis fun_upd_same fun_upd_triv)

lemma add_count_zero [simp]: "add_count c 0 ts = ts"
  by (simp add: add_count_def)

text \<open>The value that is there, compared with what is expected.\<close>

lemma cas_value_plain:
  assumes "val_at (ts ! c) i = Plain b" "m = to_opt b" "new \<noteq> TombStone"
  shows "\<exists>ts'. cas_value hf h expected new c i ts = Inr (Plain b, ts') \<and>
     (ts' = ts \<and> cas_to expected new m = m \<or>
      (\<exists>b' n. ts' = add_count c n (set_value c i (Plain b') ts) \<and> cas_to expected new m = to_opt b'))"
proof -
  have wr: "\<exists>b'. (\<exists>n. set_value c i (Plain (HVal v)) ts = add_count c n (set_value c i (Plain b') ts)) \<and> Some v = to_opt b'" for v
    by (intro exI[of _ "HVal v"] conjI exI[of _ 0]) simp_all
  show ?thesis
    using assms
    by (cases b; cases new; cases expected)
      (auto simp: cas_value_def entry_view cas_to_def expects_def Let_def
        intro: exI[of _ TombStone] exI[of _ DoesNotExist] wr)
qed

lemma add_count_rep:
  "rep hf c (add_count c' n ts) = rep hf c ts" "only_new hf c k ts0 (add_count c n ts) = only_new hf c k ts0 ts"
proof -
  show "rep hf c (add_count c' n ts) = rep hf c ts"
    by (simp add: rep_def all_ok_def fun_eq_iff)
  have "cell hf (add_count c n ts ! e) = cell hf (ts ! e)" for e
    using add_count_same(2)[of c n ts e] by auto
  moreover have "add_count c n ts ! d = ts ! d" if "d < c" for d
    using that by (simp add: add_count_def)
  ultimately show "only_new hf c k ts0 (add_count c n ts) = only_new hf c k ts0 ts"
    unfolding only_new_def by simp
qed

text \<open>The outcome of a compare and swap from table \<open>c\<close> on.\<close>

definition cas_outcome :: "('k \<Rightarrow> 32 word) \<Rightarrow> 'k \<Rightarrow> 'v expect \<Rightarrow> 'v hbase \<Rightarrow> nat \<Rightarrow> ('k, 'v) tables \<Rightarrow> ('k \<rightharpoonup> 'v)
    \<Rightarrow> ('v hv \<times> ('k, 'v) tables) result option \<Rightarrow> bool" where
  "cas_outcome hf k expected new c ts m r \<longleftrightarrow> (\<exists>old ts'. r = Some (Inr (old, ts')) \<and> old_value old = of_opt (m k) \<and>
     rep hf c ts' (m(k := cas_to expected new (m k))) \<and> only_new hf c k ts ts')"

text \<open>Going on to the next table.\<close>

lemma outcome_later:
  assumes "rep hf c ts1 m" "only_new hf c k ts ts1" "c < length ts" "Suc c < length ts1" "full hf (ts1 ! c) k \<or> gone (cell hf (ts1 ! c) k)"
    and "\<And>m'. rep hf (Suc c) ts1 m' \<Longrightarrow> cas_outcome hf k expected new (Suc c) ts1 m' r"
  shows "cas_outcome hf k expected new c ts m r"
proof -
  obtain m' where m': "rep hf (Suc c) ts1 m'" "m' k = m k"
    using rep_later[OF assms(1, 4)] assms(5) by blast
  obtain old ts' where r: "r = Some (Inr (old, ts'))" "old_value old = of_opt (m' k)"
    "rep hf (Suc c) ts' (m'(k := cas_to expected new (m' k)))" "only_new hf (Suc c) k ts1 ts'"
    using assms(6)[OF m'(1)] unfolding cas_outcome_def by blast
  have "rep hf c ts' (m(k := cas_to expected new (m k)))"
    by (rule extend[OF assms(1, 4, 5) r(3, 4)]) (use m' in \<open>auto simp: rep_def\<close>)
  then show ?thesis
    using r m'(2) only_new_trans[OF assms(2) r(4) assms(3)] unfolding cas_outcome_def by auto
qed

lemma cas_loop_ok:
  assumes "rep hf c ts m" "copy_measure c ts \<le> n" "new \<noteq> TombStone"
  shows "cas_outcome hf k expected new c ts m (cas_loop hf n k expected new c ts)"
  using assms
proof (induction n arbitrary: c ts m)
  case 0
  then have "c < length ts"
    using all_okD(3)[of hf c ts] by (simp add: rep_def)
  then show ?case
    using 0 by (simp add: copy_measure_def)
next
  case (Suc n)
  then have ok: "all_ok hf c ts" and m: "m k = Some v \<longleftrightarrow> holds hf c ts k v" for k v
    by (simp_all add: rep_def)
  note A = all_okD[OF ok] and IH = Suc.IH[OF _ _ Suc.prems(3)]
  have next_table: ?case if loop: "impl_cas hf k (hf k) expected new c ts = Inr (copied_value, ts1)" and r1: "rep hf c ts1 m" "only_new hf c k ts ts1"
      and len: "Suc c < length ts1" and meas: "copy_measure (Suc c) ts1 < copy_measure c ts"
      and away: "full hf (ts1 ! c) k \<or> gone (cell hf (ts1 ! c) k)" for ts1
  proof -
    have "cas_loop hf (Suc n) k expected new c ts = cas_loop hf n k expected new (Suc c) ts1"
      using loop len by simp
    then show ?thesis
      using outcome_later[OF r1 A(3) len away] IH meas Suc.prems(2) by (metis less_Suc_eq_le less_le_trans)
  qed
  have here: "cas_outcome hf k expected new c ts m (cas_loop hf (Suc n) k expected new c ts)"
    if v: "impl_cas hf k (hf k) expected new c ts = cas_value hf (hf k) expected new c i ts1" and r1: "rep hf c ts1 m" "only_new hf c k ts ts1"
      and lu: "look_up k (hf k) (ts1 ! c) = Some (i, False)" and b: "val_at (ts1 ! c) i = Plain b" and mk: "m k = to_opt b" for i ts1 b
  proof -
    obtain ts' where c: "cas_value hf (hf k) expected new c i ts1 = Inr (Plain b, ts')"
      and t: "ts' = ts1 \<and> cas_to expected new (m k) = m k \<or>
        (\<exists>b' j. ts' = add_count c j (set_value c i (Plain b') ts1) \<and> cas_to expected new (m k) = to_opt b')"
      using cas_value_plain[of ts1 c i b "m k" new hf "hf k" expected] b mk Suc.prems(3) by blast
    have "rep hf c ts' (m(k := cas_to expected new (m k))) \<and> only_new hf c k ts ts'"
      using t
    proof (elim disjE exE conjE)
      assume "ts' = ts1" "cas_to expected new (m k) = m k"
      then show ?thesis
        using r1 by (simp add: fun_upd_idem)
    next
      fix b' j assume t': "ts' = add_count c j (set_value c i (Plain b') ts1)" "cas_to expected new (m k) = to_opt b'"
      note W = write_new[OF r1(1) lu b, of b']
      have "only_new hf c k ts (set_value c i (Plain b') ts1)"
        using only_new_comp[OF r1(2) W(2)] .
      then show ?thesis
        using W(1) t' by (simp add: add_count_rep)
    qed
    moreover have "old_value (Plain b) = of_opt (m k)"
      using mk by (cases b) simp_all
    ultimately show ?thesis
      using v c unfolding cas_outcome_def by (auto simp: copied_value_def)
  qed
  show ?case
  proof (cases rule: look_cases[OF A(5), of k, case_names Full Vacant Found])
    case Full
    have "impl_cas hf k (hf k) expected new c ts = Inr (copied_value, start_copy c ts)"
      using Full by (simp add: impl_cas_def)
    moreover have "full hf (start_copy c ts ! c) k"
      using Full(2) start_copy_new(4)[OF Suc.prems(1)] by simp
    ultimately show ?thesis
      using next_table[OF _ start_copy_new(1-3)[OF Suc.prems(1)] copy_measure_next(2)[OF A(3) Full(1)]] by blast
  next
    case (Vacant i)
    have "\<not> holds hf c ts k v" for v
      using holds_cases(2)[OF ok] Vacant by (simp add: gone_def)
    then have none: "m k = None"
      using m by (metis not_None_eq)
    let ?ts1 = "set_key c i k ts"
    note C = claim_new[OF Suc.prems(1) Vacant(1)]
    show ?thesis
    proof (cases "expected \<noteq> NotThere \<and> expected \<noteq> Whatever \<or> new = DoesNotExist")
      case True
      then have "impl_cas hf k (hf k) expected new c ts = Inr (Plain DoesNotExist, ts)" "cas_to expected new (m k) = m k"
        using Vacant(1) none by (auto simp: impl_cas_def cas_to_def expects_def)
      then show ?thesis
        using none Suc.prems(1) only_new_refl unfolding cas_outcome_def by (auto simp: copied_value_def fun_upd_idem)
    next
      case False
      then have v: "impl_cas hf k (hf k) expected new c ts = cas_value hf (hf k) expected new c i ?ts1"
        using Vacant(1) by (auto simp: impl_cas_def)
      from C(6) show ?thesis
      proof
        assume "val_at (ts ! c) i = Plain DoesNotExist"
        then show ?thesis
          using here[OF v C(1, 2, 4)] C(5) none by simp
      next
        assume copied: "val_at (ts ! c) i = copied_value"
        then have "impl_cas hf k (hf k) expected new c ts = Inr (copied_value, ?ts1)"
          unfolding v using C(5) by (simp add: cas_value_def entry_view copied_value_def)
        moreover have "Suc c < length ?ts1"
          using A(7)[OF Vacant(2)] copied C(3) by (simp add: copied_value_def)
        moreover have "gone (cell hf (?ts1 ! c) k)"
          using C(4, 5) copied by (simp add: cell_def gone_def copied_value_def)
        ultimately show ?thesis
          using next_table C(1, 2) copy_measure_next(1)[OF A(3) C(3)] by blast
      qed
    qed
  next
    case (Found i)
    have v: "impl_cas hf k (hf k) expected new c ts = cas_value hf (hf k) expected new c i ts"
      using Found(1) by (simp add: impl_cas_def)
    show ?thesis
    proof (cases "val_at (ts ! c) i")
      case (Plain b)
      then have "m k = Some v \<longleftrightarrow> b = HVal v" for v
        using Found holds_cases(2)[OF ok, of k v] m by (simp add: gone_def)
      then have "m k = to_opt b"
        by (cases b; cases "m k") auto
      then show ?thesis
        using here[OF v Suc.prems(1) only_new_refl Found(1) Plain] by blast
    next
      case (Tagged b)
      then have "b = DoesNotExist \<or> b = TombStone"
        using A(6)[OF Found(2)] by (cases b) auto
      then have "impl_cas hf k (hf k) expected new c ts = Inr (copied_value, ts)"
        unfolding v using Tagged by (auto simp: cas_value_def entry_view)
      moreover have "Suc c < length ts"
        using A(7)[OF Found(2)] Tagged by simp
      moreover have "gone (cell hf (ts ! c) k)"
        using Found(5) Tagged by (simp add: gone_def)
      ultimately show ?thesis
        using next_table[OF _ Suc.prems(1) only_new_refl] copy_measure_next(1)[OF A(3)] by blast
    qed
  qed
qed

section \<open>The operations of the table\<close>

definition ht_rep :: "('k \<Rightarrow> 32 word) \<Rightarrow> ('k, 'v) hash_table \<Rightarrow> ('k \<rightharpoonup> 'v) \<Rightarrow> bool" where
  "ht_rep hf t m \<longleftrightarrow> rep hf (ht_first t) (ht_tables t) m"

lemma ht_rep_new: "ht_rep hf ht_new Map.empty"
  by (simp add: ht_rep_def rep_def all_ok_def chain_ok_def settled_def holds_def ht_new_def new_table_ok min_scale_def
      val_at_def hentry_new_def)

lemma left_behind:
  assumes "rep hf c ts m" "Suc c < length ts" "tagged_in (ts ! c) = {..<2 ^ hi_scale (ts ! c)}"
  shows "rep hf (Suc c) ts m"
proof -
  have ok: "all_ok hf c ts" and m: "m k = Some v \<longleftrightarrow> holds hf c ts k v" for k v
    using assms(1) by (simp_all add: rep_def)
  note A = all_okD[OF ok]
  have "holds hf c ts k v \<longleftrightarrow> holds hf (Suc c) ts k v" for k v
  proof (cases rule: look_cases[OF A(5), of k, case_names Full Vacant Found])
    case Full
    then show ?thesis
      using holds_cases(1)[OF ok] by simp
  next
    case (Vacant i)
    then show ?thesis
      using holds_cases(2)[OF ok] not_later[OF ok] by (simp add: gone_def)
  next
    case (Found i)
    then have "is_tagged (val_at (ts ! c) i)"
      using assms(3) by (auto simp: tagged_in_def)
    then have "gone (cell hf (ts ! c) k)"
      using Found(5) by (cases "val_at (ts ! c) i") (simp_all add: gone_def)
    then show ?thesis
      using holds_cases(1)[OF ok] by simp
  qed
  then show ?thesis
    using all_ok_Suc[OF ok assms(2)] m by (simp add: rep_def)
qed

lemma help_and_advance_ok:
  assumes "ht_rep hf t m"
  shows "\<exists>t'. help_and_advance hf t = Inr t' \<and> ht_rep hf t' m"
proof (cases "Suc (ht_first t) < length (ht_tables t)")
  case True
  let ?c = "ht_first t" and ?ts = "ht_tables t"
  have ok: "all_ok hf ?c ?ts"
    using assms by (simp add: ht_rep_def rep_def)
  obtain fin ts' where h: "help_copy hf ?c ?ts = Inr (fin, ts')" "all_ok hf ?c ts'" "holds hf ?c ts' = holds hf ?c ?ts"
    "length ?ts \<le> length ts'" "fin \<longrightarrow> tagged_in (ts' ! ?c) = {..<2 ^ hi_scale (ts' ! ?c)}"
    using help_copy_ok[OF ok True] by blast
  have r: "rep hf ?c ts' m"
    using assms h(2, 3) by (simp add: ht_rep_def rep_def)
  have refs: "hi_refs (ts' ! ?c) = 1" "?c < length ts'"
    using table_okD(2)[OF all_okD(4)[OF h(2)]] all_okD(3)[OF h(2)] by simp_all
  then have "release_impl ?c ts' = Inr (1, ts')"
    by (simp add: release_impl_def Let_def) (metis himpl.surjective himpl.update_convs(7) list_update_id)
  then show ?thesis
    using h(1, 4, 5) r True left_behind[OF r] by (cases fin) (auto simp: help_and_advance_def ht_rep_def)
qed (use assms in \<open>auto simp: help_and_advance_def\<close>)

lemma ht_get_ok:
  assumes "ht_rep hf t m"
  shows "ht_get hf k t = Some (Inr (of_opt (m k), t))"
  using get_from_ok[of hf "ht_first t" "ht_tables t" m "ht_fuel t" k] assms
  by (simp add: ht_rep_def ht_get_def ht_fuel_def)

lemma fuel_enough: "copy_measure c ts \<le> 2 * length ts + 1"
  unfolding copy_measure_def by (intro add_mono) simp_all

lemma finish_ok:
  assumes "ht_rep hf t m" "new \<noteq> TombStone"
  shows "\<exists>t'. finish_cas (cas_loop hf (ht_fuel t) k expected new (ht_first t) (ht_tables t)) t = Some (Inr (of_opt (m k), t')) \<and>
     ht_rep hf t' (m(k := cas_to expected new (m k)))"
proof -
  have "cas_outcome hf k expected new (ht_first t) (ht_tables t) m (cas_loop hf (ht_fuel t) k expected new (ht_first t) (ht_tables t))"
    unfolding ht_fuel_def by (rule cas_loop_ok[OF assms(1)[unfolded ht_rep_def] fuel_enough assms(2)])
  then obtain old ts' where r: "cas_loop hf (ht_fuel t) k expected new (ht_first t) (ht_tables t) = Some (Inr (old, ts'))"
    "old_value old = of_opt (m k)" "rep hf (ht_first t) ts' (m(k := cas_to expected new (m k)))"
    unfolding cas_outcome_def by blast
  then show ?thesis
    by (intro exI[of _ "t\<lparr> ht_tables := ts' \<rparr>"]) (simp add: finish_cas_def ht_rep_def)
qed

lemma ht_cas_ok:
  assumes "ht_rep hf t m"
  shows "\<exists>t'. ht_cas hf k expected v t = Some (Inr (of_opt (m k), t')) \<and> ht_rep hf t' (m(k := cas_to expected (HVal v) (m k)))"
proof -
  obtain t1 where t1: "help_and_advance hf t = Inr t1" "ht_rep hf t1 m"
    using help_and_advance_ok[OF assms] by blast
  show ?thesis
    using finish_ok[OF t1(2), of "HVal v" k expected] t1(1) by (simp add: ht_cas_def)
qed

lemma ht_remove_ok:
  assumes "ht_rep hf t m"
  shows "\<exists>t'. ht_remove hf k t = Some (Inr (of_opt (m k), t')) \<and> ht_rep hf t' (m(k := None))"
  using finish_ok[OF assms, of DoesNotExist k Whatever] by (simp add: ht_remove_def cas_to_def expects_def)

text \<open>A run of operations, on the table and on a map.\<close>

datatype ('k, 'v) ht_op = TGet 'k | TCas 'k "'v expect" 'v | TRemove 'k

fun ht_exec :: "('k \<Rightarrow> 32 word) \<Rightarrow> ('k, 'v) ht_op \<Rightarrow> ('k, 'v) hash_table \<Rightarrow> ('v hbase \<times> ('k, 'v) hash_table) result option" where
  "ht_exec hf (TGet k) t = ht_get hf k t"
| "ht_exec hf (TCas k expected v) t = ht_cas hf k expected v t"
| "ht_exec hf (TRemove k) t = ht_remove hf k t"

fun ht_run :: "('k \<Rightarrow> 32 word) \<Rightarrow> ('k, 'v) ht_op list \<Rightarrow> ('k, 'v) hash_table \<Rightarrow> ('v hbase list \<times> ('k, 'v) hash_table) result option" where
  "ht_run hf [] t = Some (Inr ([], t))"
| "ht_run hf (op # ops) t = (case ht_exec hf op t of
      None \<Rightarrow> None
    | Some (Inl f) \<Rightarrow> Some (Inl f)
    | Some (Inr (r, t1)) \<Rightarrow> map_option (\<lambda>x. bindE x (\<lambda>(rs, t2). Inr (r # rs, t2))) (ht_run hf ops t1))"

fun map_exec :: "('k, 'v) ht_op \<Rightarrow> ('k \<rightharpoonup> 'v) \<Rightarrow> 'v hbase \<times> ('k \<rightharpoonup> 'v)" where
  "map_exec (TGet k) m = (of_opt (m k), m)"
| "map_exec (TCas k expected v) m = (of_opt (m k), if expects expected (m k) then m(k \<mapsto> v) else m)"
| "map_exec (TRemove k) m = (of_opt (m k), m(k := None))"

fun map_run :: "('k, 'v) ht_op list \<Rightarrow> ('k \<rightharpoonup> 'v) \<Rightarrow> 'v hbase list" where
  "map_run [] m = []"
| "map_run (op # ops) m = (case map_exec op m of (r, m1) \<Rightarrow> r # map_run ops m1)"

lemma ht_exec_ok:
  assumes "ht_rep hf t m"
  shows "\<exists>t'. ht_exec hf op t = Some (Inr (fst (map_exec op m), t')) \<and> ht_rep hf t' (snd (map_exec op m))"
proof (cases op)
  case (TGet k)
  then show ?thesis
    using ht_get_ok[OF assms] assms by simp
next
  case (TCas k expected v)
  then show ?thesis
    using ht_cas_ok[OF assms, of k expected v] by (auto simp: cas_to_def fun_upd_idem)
next
  case (TRemove k)
  then show ?thesis
    using ht_remove_ok[OF assms, of k] by simp
qed

lemma ht_run_ok: "ht_rep hf t m \<Longrightarrow> \<exists>t'. ht_run hf ops t = Some (Inr (map_run ops m, t'))"
proof (induction ops arbitrary: t m)
  case (Cons op ops)
  obtain t1 where t1: "ht_exec hf op t = Some (Inr (fst (map_exec op m), t1))" "ht_rep hf t1 (snd (map_exec op m))"
    using ht_exec_ok[OF Cons.prems] by blast
  then obtain t2 where "ht_run hf ops t1 = Some (Inr (map_run ops (snd (map_exec op m)), t2))"
    using Cons.IH by blast
  then show ?case
    using t1(1) by (auto split: prod.split)
qed simp

text \<open>C29: used by one thread, the hash table answers every sequence of lookups, compare and swaps and
  removals as a map would, whatever the hash function, and through any number of growing tables: no operation
  fails an assertion, none runs for ever.\<close>

theorem hash_table_is_a_map:
  "\<exists>t. ht_run hf ops ht_new = Some (Inr (map_run ops Map.empty, t))"
  using ht_run_ok[OF ht_rep_new] .

end
