(* ===== verification/LockfreeMap.thy ===== *)
theory LockfreeMap
  imports HashTableMap
begin

text \<open>
  runtime/lockfree/atomic/OFluxLFAtomicMaps.h: the guard map of the lock-free runtime, a hash table from
  guard keys to atomics.  A step of a thread is one operation of the hash table, so lookups of different
  threads interleave between them.  Atomics are numbered as they are created; 0 is the tombstone atomic.
\<close>

section \<open>State\<close>

text \<open>Where a thread is in a lookup or a garbage collection, and the outcome it ends with.\<close>

datatype 'k map_pc = MIdle | MLook 'k | MInsert 'k nat | MAgain 'k | MKey 'k "nat hbase" | MDone 'k "nat hbase" 'k
  | MCollect 'k nat | MCheck 'k nat | MRemove 'k nat | MRestore 'k nat | MCollected bool | MFault fault

record 'k lfmap =
  lm_table :: "('k, nat) hash_table"
  lm_next :: nat
  lm_hashes :: "nat \<Rightarrow> 32 word"
  lm_deleted :: "nat list"
  lm_pc :: "nat \<Rightarrow> 'k map_pc"

text \<open>The constructor does not initialise the hashes the threads use: they are an argument.\<close>

definition lm_new :: "(nat \<Rightarrow> 32 word) \<Rightarrow> 'k lfmap" where
  "lm_new hashes = \<lparr> lm_table = ht_new, lm_next = 1, lm_hashes = hashes, lm_deleted = [], lm_pc = \<lambda>_. MIdle \<rparr>"

definition lm_go :: "nat \<Rightarrow> 'k map_pc \<Rightarrow> 'k lfmap \<Rightarrow> 'k lfmap" where
  "lm_go t pc s = s\<lparr> lm_pc := (lm_pc s)(t := pc) \<rparr>"

text \<open>A step that uses the hash table: what it returns decides where the thread goes.\<close>

definition lm_use :: "nat \<Rightarrow> ('v \<times> ('k, nat) hash_table) result option \<Rightarrow> ('v \<Rightarrow> 'k lfmap \<Rightarrow> 'k lfmap) \<Rightarrow> 'k lfmap \<Rightarrow> 'k lfmap" where
  "lm_use t r f s = (case r of None \<Rightarrow> s | Some (Inl e) \<Rightarrow> lm_go t (MFault e) s | Some (Inr (v, ht)) \<Rightarrow> f v (s\<lparr> lm_table := ht \<rparr>))"

section \<open>get\<close>

definition lm_get_begin :: "('k \<Rightarrow> 32 word) \<Rightarrow> nat \<Rightarrow> 'k \<Rightarrow> 'k lfmap \<Rightarrow> 'k lfmap" where
  "lm_get_begin hf t k s = lm_go t (MLook k) (s\<lparr> lm_hashes := (lm_hashes s)(t := hf k) \<rparr>)"

text \<open>The loop reads on while it finds the tombstone; a key that is not there gets a new atomic.\<close>

definition lm_look :: "('k \<Rightarrow> 32 word) \<Rightarrow> nat \<Rightarrow> 'k \<Rightarrow> 'k lfmap \<Rightarrow> 'k lfmap" where
  "lm_look hf t k s = lm_use t (ht_get hf k (lm_table s)) (\<lambda>res s1.
     if res = HVal 0 then s1
     else if res = DoesNotExist then lm_go t (MInsert k (lm_next s1)) (s1\<lparr> lm_next := Suc (lm_next s1) \<rparr>)
     else lm_go t (MKey k res) s1) s"

definition lm_insert :: "('k \<Rightarrow> 32 word) \<Rightarrow> nat \<Rightarrow> 'k \<Rightarrow> nat \<Rightarrow> 'k lfmap \<Rightarrow> 'k lfmap" where
  "lm_insert hf t k a s = lm_use t (ht_cas hf k (expect_of DoesNotExist) a (lm_table s)) (\<lambda>old s1.
     lm_go t (if old \<noteq> DoesNotExist then MAgain k else MKey k (HVal a)) s1) s"

definition lm_again :: "('k \<Rightarrow> 32 word) \<Rightarrow> nat \<Rightarrow> 'k \<Rightarrow> 'k lfmap \<Rightarrow> 'k lfmap" where
  "lm_again hf t k s = lm_use t (ht_get hf k (lm_table s)) (\<lambda>res s1. lm_go t (MKey k res) s1) s"

definition lm_key :: "('k \<Rightarrow> 32 word) \<Rightarrow> nat \<Rightarrow> 'k \<Rightarrow> nat hbase \<Rightarrow> 'k lfmap \<Rightarrow> 'k lfmap" where
  "lm_key hf t k res s = (case ht_persistent_key k (hf k) (lm_table s) of
     None \<Rightarrow> lm_go t (MFault AssertFailed) s | Some k' \<Rightarrow> lm_go t (MDone k res k') s)"

section \<open>garbage_collect\<close>

text \<open>Whether an atomic is idle (not held and without waiters) is an argument: the atomics are another component.\<close>

definition k_hash_used :: "nat \<Rightarrow> 32 word \<Rightarrow> 'k lfmap \<Rightarrow> bool" where
  "k_hash_used num_threads kh s \<longleftrightarrow> list_ex (\<lambda>i. lm_hashes s i = kh) [0..<min 32 num_threads]"

definition lm_collect_begin :: "('k \<Rightarrow> 32 word) \<Rightarrow> nat \<Rightarrow> (nat \<Rightarrow> bool) \<Rightarrow> nat \<Rightarrow> 'k \<Rightarrow> nat \<Rightarrow> 'k lfmap \<Rightarrow> 'k lfmap" where
  "lm_collect_begin hf num_threads idle t k a s =
     lm_go t (if idle a \<and> \<not> k_hash_used num_threads (hf k) s then MCollect k a else MCollected False) s"

text \<open>The value the compare and swap returns is only tested for being null.\<close>

definition lm_collect :: "('k \<Rightarrow> 32 word) \<Rightarrow> nat \<Rightarrow> 'k \<Rightarrow> nat \<Rightarrow> 'k lfmap \<Rightarrow> 'k lfmap" where
  "lm_collect hf t k a s = lm_use t (ht_cas hf k (Expect a) 0 (lm_table s)) (\<lambda>old s1.
     lm_go t (if old \<noteq> DoesNotExist then MCheck k a else MCollected False) s1) s"

definition lm_check :: "('k \<Rightarrow> 32 word) \<Rightarrow> nat \<Rightarrow> (nat \<Rightarrow> bool) \<Rightarrow> nat \<Rightarrow> 'k \<Rightarrow> nat \<Rightarrow> 'k lfmap \<Rightarrow> 'k lfmap" where
  "lm_check hf num_threads idle t k a s =
     lm_go t (if idle a \<and> \<not> k_hash_used num_threads (hf k) s then MRemove k a else MRestore k a) s"

definition lm_remove :: "('k \<Rightarrow> 32 word) \<Rightarrow> nat \<Rightarrow> 'k \<Rightarrow> nat \<Rightarrow> 'k lfmap \<Rightarrow> 'k lfmap" where
  "lm_remove hf t k a s = lm_use t (ht_remove hf k (lm_table s)) (\<lambda>old s1.
     lm_go t (MCollected False) (s1\<lparr> lm_deleted := a # lm_deleted s1 \<rparr>)) s"

definition lm_restore :: "('k \<Rightarrow> 32 word) \<Rightarrow> nat \<Rightarrow> 'k \<Rightarrow> nat \<Rightarrow> 'k lfmap \<Rightarrow> 'k lfmap" where
  "lm_restore hf t k a s = lm_use t (ht_cas hf k (Expect 0) a (lm_table s)) (\<lambda>old s1. lm_go t (MCollected False) s1) s"

section \<open>Interleavings\<close>

datatype 'k lm_action = MGet nat 'k | MGc nat 'k nat | MStep nat | MReturn nat

definition lm_step :: "('k \<Rightarrow> 32 word) \<Rightarrow> nat \<Rightarrow> (nat \<Rightarrow> bool) \<Rightarrow> nat \<Rightarrow> 'k lfmap \<Rightarrow> 'k lfmap" where
  "lm_step hf num_threads idle t s = (case lm_pc s t of
      MLook k \<Rightarrow> lm_look hf t k s
    | MInsert k a \<Rightarrow> lm_insert hf t k a s
    | MAgain k \<Rightarrow> lm_again hf t k s
    | MKey k res \<Rightarrow> lm_key hf t k res s
    | MCollect k a \<Rightarrow> lm_collect hf t k a s
    | MCheck k a \<Rightarrow> lm_check hf num_threads idle t k a s
    | MRemove k a \<Rightarrow> lm_remove hf t k a s
    | MRestore k a \<Rightarrow> lm_restore hf t k a s
    | _ \<Rightarrow> s)"

definition lm_act :: "('k \<Rightarrow> 32 word) \<Rightarrow> nat \<Rightarrow> (nat \<Rightarrow> bool) \<Rightarrow> 'k lm_action \<Rightarrow> 'k lfmap \<Rightarrow> 'k lfmap" where
  "lm_act hf num_threads idle act s = (case act of
      MGet t k \<Rightarrow> (case lm_pc s t of MIdle \<Rightarrow> lm_get_begin hf t k s | _ \<Rightarrow> s)
    | MGc t k a \<Rightarrow> (case lm_pc s t of MIdle \<Rightarrow> lm_collect_begin hf num_threads idle t k a s | _ \<Rightarrow> s)
    | MStep t \<Rightarrow> lm_step hf num_threads idle t s
    | MReturn t \<Rightarrow> (case lm_pc s t of MDone k res k' \<Rightarrow> lm_go t MIdle s | MCollected b \<Rightarrow> lm_go t MIdle s | _ \<Rightarrow> s))"

definition lm_run :: "('k \<Rightarrow> 32 word) \<Rightarrow> nat \<Rightarrow> (nat \<Rightarrow> bool) \<Rightarrow> 'k lm_action list \<Rightarrow> 'k lfmap \<Rightarrow> 'k lfmap" where
  "lm_run hf num_threads idle acts s = fold (lm_act hf num_threads idle) acts s"

section \<open>What the steps do to the map\<close>

definition lm_rep :: "('k \<Rightarrow> 32 word) \<Rightarrow> 'k lfmap \<Rightarrow> ('k \<rightharpoonup> nat) \<Rightarrow> bool" where
  "lm_rep hf s m \<longleftrightarrow> ht_rep hf (lm_table s) m"

lemma lm_rep_new: "lm_rep hf (lm_new hashes) Map.empty"
  by (simp add: lm_rep_def lm_new_def ht_rep_new)

lemma lm_go_simps [simp]:
  "lm_table (lm_go t pc s) = lm_table s" "lm_next (lm_go t pc s) = lm_next s" "lm_hashes (lm_go t pc s) = lm_hashes s"
  "lm_pc (lm_go t pc s) = (lm_pc s)(t := pc)" "lm_deleted (lm_go t pc s) = lm_deleted s"
  by (simp_all add: lm_go_def)

lemma persistent_key_ok:
  assumes "rep hf c ts m" "m k \<noteq> None"
  shows "persistent_key k (hf k) (drop c ts) = Some k"
  using assms
proof (induction "length ts - c" arbitrary: c m)
  case 0
  then show ?case
    using all_okD(3)[of hf c ts] by (simp add: rep_def)
next
  case (Suc n)
  then have ok: "all_ok hf c ts" and m: "m k = Some v \<longleftrightarrow> holds hf c ts k v" for k v
    by (simp_all add: rep_def)
  note A = all_okD[OF ok]
  have d: "drop c ts = ts ! c # drop (Suc c) ts"
    using A(3) by (simp add: Cons_nth_drop_Suc)
  show ?case
  proof (cases rule: look_cases[OF A(5), of k, case_names Full Vacant Found])
    case Full
    have later: "holds hf (Suc c) ts k v \<longleftrightarrow> m k = Some v" for v
      using holds_cases(1)[OF ok] Full m by simp
    then have len: "Suc c < length ts"
      using Suc.prems(2) unfolding holds_def by (metis le_less_trans not_None_eq)
    obtain m' where "rep hf (Suc c) ts m'" "m' k = m k"
      using rep_later[OF Suc.prems(1) len] Full by blast
    then show ?thesis
      using Suc.hyps(1)[of "Suc c" m'] Suc.hyps(2) Suc.prems(2) d Full len by simp
  next
    case (Vacant i)
    then have "\<not> holds hf c ts k v" for v
      using holds_cases(2)[OF ok] by (simp add: gone_def)
    then show ?thesis
      using Suc.prems(2) m by (metis not_None_eq)
  next
    case (Found i)
    then show ?thesis
      using d by (simp add: key_at_def)
  qed
qed

lemma lm_persistent_key: "lm_rep hf s m \<Longrightarrow> m k \<noteq> None \<Longrightarrow> ht_persistent_key k (hf k) (lm_table s) = Some k"
  unfolding lm_rep_def ht_rep_def ht_persistent_key_def by (rule persistent_key_ok)

text \<open>The steps of a lookup, for a table that represents a map.\<close>

lemma lm_look_ok:
  assumes "lm_rep hf s m" "\<And>k. m k \<noteq> Some 0"
  shows "lm_look hf t k s = (case m k of
      None \<Rightarrow> lm_go t (MInsert k (lm_next s)) (s\<lparr> lm_next := Suc (lm_next s) \<rparr>)
    | Some a \<Rightarrow> lm_go t (MKey k (HVal a)) s)"
  using ht_get_ok[OF assms(1)[unfolded lm_rep_def], of k] assms(2)[of k]
  by (cases "m k") (simp_all add: lm_look_def lm_use_def)

lemma lm_insert_ok:
  assumes "lm_rep hf s m"
  shows "\<exists>ht. lm_insert hf t k a s = lm_go t (if m k = None then MKey k (HVal a) else MAgain k) (s\<lparr> lm_table := ht \<rparr>) \<and>
    lm_rep hf (lm_insert hf t k a s) (m(k \<mapsto> a))"
proof -
  obtain ht where "ht_cas hf k Whatever a (lm_table s) = Some (Inr (of_opt (m k), ht))" "ht_rep hf ht (m(k \<mapsto> a))"
    using ht_cas_ok[OF assms[unfolded lm_rep_def], of k Whatever a] by (auto simp: cas_to_def expects_def)
  then show ?thesis
    by (intro exI[of _ ht]) (cases "m k"; simp add: lm_insert_def lm_use_def lm_rep_def)
qed

lemma lm_again_ok:
  assumes "lm_rep hf s m"
  shows "lm_again hf t k s = lm_go t (MKey k (of_opt (m k))) s"
  using ht_get_ok[OF assms[unfolded lm_rep_def], of k] by (simp add: lm_again_def lm_use_def)

lemma lm_key_ok:
  assumes "lm_rep hf s m" "m k \<noteq> None"
  shows "lm_key hf t k res s = lm_go t (MDone k res k) s"
  using lm_persistent_key[OF assms] by (simp add: lm_key_def)

section \<open>Lookups that do not overlap\<close>

definition lm_result :: "nat \<Rightarrow> 'k lfmap \<Rightarrow> (nat hbase \<times> 'k) option" where
  "lm_result t s = (case lm_pc s t of MDone k res k' \<Rightarrow> Some (res, k') | _ \<Rightarrow> None)"

text \<open>A whole lookup: three steps are enough.  It returns the atomic and the key that the map keeps.\<close>

definition lm_lookup :: "('k \<Rightarrow> 32 word) \<Rightarrow> nat \<Rightarrow> (nat \<Rightarrow> bool) \<Rightarrow> nat \<times> 'k \<Rightarrow> 'k lfmap \<Rightarrow> (nat hbase \<times> 'k) option \<times> 'k lfmap" where
  "lm_lookup hf num_threads idle tk s = (case tk of (t, k) \<Rightarrow>
     let s1 = lm_run hf num_threads idle [MGet t k, MStep t, MStep t, MStep t] s in
     (lm_result t s1, lm_run hf num_threads idle [MReturn t] s1))"

fun lm_lookups :: "('k \<Rightarrow> 32 word) \<Rightarrow> nat \<Rightarrow> (nat \<Rightarrow> bool) \<Rightarrow> (nat \<times> 'k) list \<Rightarrow> 'k lfmap \<Rightarrow> (nat hbase \<times> 'k) option list" where
  "lm_lookups hf num_threads idle [] s = []"
| "lm_lookups hf num_threads idle (tk # tks) s =
     (case lm_lookup hf num_threads idle tk s of (r, s1) \<Rightarrow> r # lm_lookups hf num_threads idle tks s1)"

text \<open>Between lookups: every thread is idle, and different keys have different atomics.\<close>

definition lm_quiet :: "('k \<Rightarrow> 32 word) \<Rightarrow> 'k lfmap \<Rightarrow> ('k \<rightharpoonup> nat) \<Rightarrow> bool" where
  "lm_quiet hf s m \<longleftrightarrow> lm_rep hf s m \<and> (\<forall>t. lm_pc s t = MIdle) \<and> inj_on m (dom m) \<and> (\<forall>a\<in>ran m. 0 < a \<and> a < lm_next s) \<and> 0 < lm_next s"

lemma lm_quiet_new: "lm_quiet hf (lm_new hashes) Map.empty"
  using lm_rep_new[of hf hashes] by (simp add: lm_quiet_def lm_new_def)

lemma lm_run_simps:
  "lm_run hf n idle [] s = s" "lm_run hf n idle (a # as) s = lm_run hf n idle as (lm_act hf n idle a s)"
  "lm_act hf n idle (MStep t) s = lm_step hf n idle t s"
  by (simp_all add: lm_run_def lm_act_def)

lemma lm_rep_go [simp]: "lm_rep hf (lm_go t pc s) m = lm_rep hf s m"
  by (simp add: lm_rep_def)

lemma lm_begin_rep: "lm_rep hf s m \<Longrightarrow> lm_rep hf (lm_get_begin hf t k s) m"
  by (simp add: lm_rep_def lm_get_begin_def)

lemma lm_lookup_ok:
  assumes "lm_quiet hf s m"
  shows "\<exists>m' a. fst (lm_lookup hf n idle (t, k) s) = Some (HVal a, k) \<and> lm_quiet hf (snd (lm_lookup hf n idle (t, k) s)) m' \<and>
     m \<subseteq>\<^sub>m m' \<and> m' k = Some a"
proof -
  have rep: "lm_rep hf s m" and idle: "lm_pc s t = MIdle" for t
    using assms by (simp_all add: lm_quiet_def)
  have inj: "inj_on m (dom m)" "\<And>k a. m k = Some a \<Longrightarrow> 0 < a \<and> a < lm_next s" "0 < lm_next s"
    using assms by (auto simp: lm_quiet_def ran_def)
  let ?b = "lm_get_begin hf t k s"
  have b: "lm_act hf n idle (MGet t k) s = ?b" "lm_pc ?b t = MLook k" "lm_next ?b = lm_next s" "lm_rep hf ?b m"
    "\<And>u. u \<noteq> t \<Longrightarrow> lm_pc ?b u = MIdle"
    using idle lm_begin_rep[OF rep] by (simp_all add: lm_act_def lm_get_begin_def)
  have no0: "m k' \<noteq> Some 0" for k'
    using inj(2) by blast
  show ?thesis
  proof (cases "m k")
    case (Some a)
    let ?s1 = "lm_go t (MKey k (HVal a)) ?b"
    have "lm_step hf n idle t ?b = ?s1"
      using lm_look_ok[OF b(4) no0, of t k] Some b(2) by (simp add: lm_step_def)
    moreover have "lm_step hf n idle t ?s1 = lm_go t (MDone k (HVal a) k) ?s1"
      using lm_key_ok[of hf ?s1 m k t "HVal a"] b(4) Some by (simp add: lm_step_def)
    moreover have "lm_step hf n idle t (lm_go t (MDone k (HVal a) k) ?s1) = lm_go t (MDone k (HVal a) k) ?s1"
      by (simp add: lm_step_def)
    ultimately have "lm_lookup hf n idle (t, k) s = (Some (HVal a, k), lm_go t MIdle (lm_go t (MDone k (HVal a) k) ?s1))"
      using b(1) by (simp add: lm_lookup_def lm_run_simps lm_result_def Let_def) (simp add: lm_act_def)
    moreover have "lm_quiet hf (lm_go t MIdle (lm_go t (MDone k (HVal a) k) ?s1)) m"
      using assms b(3-5) by (auto simp: lm_quiet_def)
    ultimately show ?thesis
      using Some by (intro exI[of _ m] exI[of _ a]) simp
  next
    case None
    let ?a = "lm_next s"
    let ?s1 = "lm_go t (MInsert k ?a) (?b\<lparr> lm_next := Suc ?a \<rparr>)"
    have s1: "lm_step hf n idle t ?b = ?s1"
      using lm_look_ok[OF b(4) no0, of t k] None b(2, 3) by (simp add: lm_step_def)
    have r1: "lm_rep hf ?s1 m"
      using b(4) by (simp add: lm_rep_def)
    obtain ht where i: "lm_insert hf t k ?a ?s1 = lm_go t (MKey k (HVal ?a)) (?s1\<lparr> lm_table := ht \<rparr>)"
      and r2: "lm_rep hf (lm_insert hf t k ?a ?s1) (m(k \<mapsto> ?a))"
      using lm_insert_ok[OF r1, of t k ?a] None by auto
    let ?s2 = "lm_go t (MKey k (HVal ?a)) (?s1\<lparr> lm_table := ht \<rparr>)"
    have s2: "lm_step hf n idle t ?s1 = ?s2"
      using i by (simp add: lm_step_def)
    have s3: "lm_step hf n idle t ?s2 = lm_go t (MDone k (HVal ?a) k) ?s2"
      using lm_key_ok[of hf ?s2 "m(k \<mapsto> ?a)" k t "HVal ?a"] r2 i by (simp add: lm_step_def)
    have "lm_lookup hf n idle (t, k) s = (Some (HVal ?a, k), lm_go t MIdle (lm_go t (MDone k (HVal ?a) k) ?s2))"
      using b(1) s1 s2 s3 by (simp add: lm_lookup_def lm_run_simps lm_result_def Let_def) (simp add: lm_act_def)
    moreover have "lm_quiet hf (lm_go t MIdle (lm_go t (MDone k (HVal ?a) k) ?s2)) (m(k \<mapsto> ?a))"
    proof -
      have "inj_on (m(k \<mapsto> ?a)) (dom (m(k \<mapsto> ?a)))"
        using inj(1, 2) None by (auto simp: inj_on_def dom_def) force+
      moreover have "0 < a \<and> a < Suc ?a" if "a \<in> ran (m(k \<mapsto> ?a))" for a
        using that inj(2, 3) None by (auto simp: ran_def split: if_splits) force
      ultimately show ?thesis
        using r2 i b(5) by (auto simp: lm_quiet_def)
    qed
    ultimately show ?thesis
      using None by (intro exI[of _ "m(k \<mapsto> ?a)"] exI[of _ ?a]) (auto simp: map_le_def)
  qed
qed

lemma lm_lookups_ok:
  "lm_quiet hf s m \<Longrightarrow> \<exists>m'. m \<subseteq>\<^sub>m m' \<and> inj_on m' (dom m') \<and>
     lm_lookups hf n idle tks s = map (\<lambda>tk. Some (HVal (the (m' (snd tk))), snd tk)) tks \<and> (\<forall>tk\<in>set tks. m' (snd tk) \<noteq> None)"
proof (induction tks arbitrary: s m)
  case Nil
  then show ?case
    by (intro exI[of _ m]) (simp add: lm_quiet_def)
next
  case (Cons tk tks)
  obtain t k where tk: "tk = (t, k)"
    by (cases tk)
  obtain m1 a where 1: "fst (lm_lookup hf n idle (t, k) s) = Some (HVal a, k)" "lm_quiet hf (snd (lm_lookup hf n idle (t, k) s)) m1"
    "m \<subseteq>\<^sub>m m1" "m1 k = Some a"
    using lm_lookup_ok[OF Cons.prems] by blast
  obtain m' where 2: "m1 \<subseteq>\<^sub>m m'" "inj_on m' (dom m')"
    "lm_lookups hf n idle tks (snd (lm_lookup hf n idle (t, k) s)) = map (\<lambda>tk. Some (HVal (the (m' (snd tk))), snd tk)) tks"
    "\<forall>tk\<in>set tks. m' (snd tk) \<noteq> None"
    using Cons.IH[OF 1(2)] by blast
  have "m' k = Some a"
    using 1(4) 2(1) by (metis domI map_le_def)
  then show ?case
    using 1 2 map_le_trans[OF 1(3) 2(1)] by (intro exI[of _ m']) (simp add: tk case_prod_beta)
qed

text \<open>Lookups that do not overlap find, for each key, one atomic of its own.\<close>

theorem lockfree_map_sequential:
  assumes "i < length tks" "j < length tks"
  shows "\<exists>a b. lm_lookups hf n idle tks (lm_new hashes) ! i = Some (HVal a, snd (tks ! i)) \<and>
     lm_lookups hf n idle tks (lm_new hashes) ! j = Some (HVal b, snd (tks ! j)) \<and> (a = b \<longleftrightarrow> snd (tks ! i) = snd (tks ! j))"
proof -
  obtain m' where m: "inj_on m' (dom m')" "lm_lookups hf n idle tks (lm_new hashes) = map (\<lambda>tk. Some (HVal (the (m' (snd tk))), snd tk)) tks"
    "\<forall>tk\<in>set tks. m' (snd tk) \<noteq> None"
    using lm_lookups_ok[OF lm_quiet_new] by blast
  have "m' (snd (tks ! i)) \<noteq> None" "m' (snd (tks ! j)) \<noteq> None"
    using m(3) assms by simp_all
  then obtain a b where ab: "m' (snd (tks ! i)) = Some a" "m' (snd (tks ! j)) = Some b"
    by blast
  then have "a = b \<longleftrightarrow> snd (tks ! i) = snd (tks ! j)"
    using inj_onD[OF m(1), of "snd (tks ! i)" "snd (tks ! j)"] by (auto simp: domI)
  then show ?thesis
    using m(2) assms ab by simp
qed

lemma lockfree_map_sequential_witness:
  "\<exists>a b. lm_lookups (\<lambda>k. 0) 2 (\<lambda>_. True) [(0, ''x''), (1, ''y'')] (lm_new (\<lambda>_. 0)) ! 0 = Some (HVal a, ''x'') \<and>
     lm_lookups (\<lambda>k. 0) 2 (\<lambda>_. True) [(0, ''x''), (1, ''y'')] (lm_new (\<lambda>_. 0)) ! 1 = Some (HVal b, ''y'') \<and> a \<noteq> b"
  using lockfree_map_sequential[of 0 "[(0, ''x''), (1, ''y'')]" 1 "\<lambda>_. 0" 2 "\<lambda>_. True" "\<lambda>_. 0"] by simp

section \<open>Lookups that overlap\<close>

text \<open>Two threads look the same key up.  Neither finds it, and each inserts an atomic of its own.\<close>

definition double_schedule :: "'k \<Rightarrow> 'k lm_action list" where
  "double_schedule k = [MGet 0 k, MGet 1 k, MStep 0, MStep 1, MStep 0, MStep 0, MStep 1, MStep 1, MStep 1]"

text \<open>C30: the null pointer that says that the key must not be there is also the one that stands for whatever
  is there: the second insertion replaces the atomic of the first, so two threads get different atomics
  for the same key, and the guard excludes nobody.\<close>

theorem lockfree_map_splits_guard:
  "lm_result 0 (lm_run hf n idle (double_schedule k) (lm_new hashes)) = Some (HVal 1, k) \<and>
   lm_result 1 (lm_run hf n idle (double_schedule k) (lm_new hashes)) = Some (HVal 2, k)"
proof -
  let ?s2 = "lm_get_begin hf 1 k (lm_get_begin hf 0 k (lm_new hashes))"
  have r2: "lm_rep hf ?s2 Map.empty"
    by (intro lm_begin_rep lm_rep_new)
  have p2: "lm_pc ?s2 = (\<lambda>_. MIdle)(0 := MLook k, 1 := MLook k)" "lm_next ?s2 = 1"
    by (simp_all add: lm_get_begin_def lm_new_def)
  have a2: "lm_act hf n idle (MGet 1 k) (lm_act hf n idle (MGet 0 k) (lm_new hashes)) = ?s2"
    by (simp add: lm_act_def lm_get_begin_def lm_new_def)
  let ?s3 = "lm_go 0 (MInsert k 1) (?s2\<lparr> lm_next := 2 \<rparr>)"
  let ?s4 = "lm_go 1 (MInsert k 2) (?s3\<lparr> lm_next := 3 \<rparr>)"
  have s3: "lm_step hf n idle 0 ?s2 = ?s3"
    using lm_look_ok[OF r2, of 0 k] p2 by (simp add: lm_step_def numeral_2_eq_2)
  have r3: "lm_rep hf ?s3 Map.empty"
    using r2 by (simp add: lm_rep_def)
  have s4: "lm_step hf n idle 1 ?s3 = ?s4"
    using lm_look_ok[OF r3, of 1 k] p2 by (simp add: lm_step_def)
  have r4: "lm_rep hf ?s4 Map.empty"
    using r2 by (simp add: lm_rep_def)
  obtain ht5 where s5: "lm_insert hf 0 k 1 ?s4 = lm_go 0 (MKey k (HVal 1)) (?s4\<lparr> lm_table := ht5 \<rparr>)" (is "_ = ?s5")
    and r5: "lm_rep hf (lm_insert hf 0 k 1 ?s4) [k \<mapsto> 1]"
    using lm_insert_ok[OF r4, of 0 k 1] by auto
  let ?s6 = "lm_go 0 (MDone k (HVal 1) k) ?s5"
  have s6: "lm_step hf n idle 0 ?s4 = ?s5" "lm_step hf n idle 0 ?s5 = ?s6"
    using s5 r5 lm_key_ok[of hf ?s5 "[k \<mapsto> 1]" k 0 "HVal 1"] by (simp_all add: lm_step_def)
  have r6: "lm_rep hf ?s6 [k \<mapsto> 1]"
    using r5 s5 by simp
  obtain ht7 where s7: "lm_insert hf 1 k 2 ?s6 = lm_go 1 (MAgain k) (?s6\<lparr> lm_table := ht7 \<rparr>)" (is "_ = ?s7")
    and r7: "lm_rep hf (lm_insert hf 1 k 2 ?s6) [k \<mapsto> 2]"
    using lm_insert_ok[OF r6, of 1 k 2] by auto
  let ?s8 = "lm_go 1 (MKey k (HVal 2)) ?s7"
  have s8: "lm_step hf n idle 1 ?s6 = ?s7" "lm_step hf n idle 1 ?s7 = ?s8"
    using s7 r7 lm_again_ok[of hf ?s7 "[k \<mapsto> 2]" 1 k] by (simp_all add: lm_step_def)
  have s9: "lm_step hf n idle 1 ?s8 = lm_go 1 (MDone k (HVal 2) k) ?s8"
    using r7 s7 lm_key_ok[of hf ?s8 "[k \<mapsto> 2]" k 1 "HVal 2"] by (simp add: lm_step_def)
  have "lm_run hf n idle (double_schedule k) (lm_new hashes) = lm_go 1 (MDone k (HVal 2) k) ?s8"
    using a2 s3 s4 s6 s8 s9 by (simp add: double_schedule_def lm_run_simps del: One_nat_def)
  then show ?thesis
    by (simp add: lm_result_def)
qed

section \<open>Garbage collection\<close>

text \<open>A garbage collection never tells its caller that it collected, whatever it did and whatever other
  threads do meanwhile.\<close>

theorem lockfree_collect_says_no:
  "\<forall>t. lm_pc (lm_run hf n idle acts (lm_new hashes)) t \<noteq> MCollected True"
proof -
  have act: "\<forall>t. lm_pc (lm_act hf n idle a s) t \<noteq> MCollected True" if "\<forall>t. lm_pc s t \<noteq> MCollected True" for a s
    using that
    by (cases a) (auto simp: lm_act_def lm_step_def lm_get_begin_def lm_collect_begin_def lm_look_def lm_insert_def lm_again_def lm_key_def
      lm_collect_def lm_check_def lm_remove_def lm_restore_def lm_use_def split: map_pc.splits option.splits sum.splits prod.splits)
  have "\<forall>t. lm_pc s t \<noteq> MCollected True \<Longrightarrow> \<forall>t. lm_pc (lm_run hf n idle acts s) t \<noteq> MCollected True" for s
    unfolding lm_run_def by (induction acts arbitrary: s) (simp_all add: act)
  then show ?thesis
    by (simp add: lm_new_def)
qed

end
