(* ===== verification/LockfreeRunTime.thy ===== *)
theory LockfreeRunTime
  imports EventFrames
begin

text \<open>
  runtime/lockfree/OFluxLockfreeRunTime.h and .cpp, OFluxLockfreeRunTimeThread.h and .cpp: the runtime
  without a central lock.  Every thread has a deque of its own, from which the others steal when they
  have nothing to do.  The deque is the queue it was shown to be in \<open>WorkStealing\<close>: a list with the top
  (where thieves take) first and the bottom (the owner's end) last, each operation one step, a steal may
  also fail.  The handling of an event is two steps, the execution and the rest; the threads' steps
  interleave.  Threads spin, count themselves asleep, and wait on a condition of their own; signals
  are sent without a lock, so a signal to a thread that does not wait yet is lost.
\<close>

section \<open>State\<close>

text \<open>Where a thread is: not started, at the head of its loop, sweeping over the threads it still may steal
  from, with an event, with the return code of an event, about to wake others, behind the event, after
  the sleep flag is set, after the count of sleepers was full, about to wait, waiting, woken, the same for the wait
  of the last thread when there is a doors thread, thread 0 ending the others (\<open>True\<close>: waiting for one
  to end), gone.\<close>

datatype lf_pc = LStart | LTop | LSweep "nat list" | LGot nat | LRun nat int | LWake nat | LPark | LDecide | LLast
  | LPreWait | LWaiting | LWoken | LDoorPre | LDoorWaiting | LDoorWoken | LTeardown nat bool | LExited

record lthread =
  lt_running :: bool
  lt_request_stop :: bool
  lt_asleep :: bool
  lt_queue :: "nat list"
  lt_queue_allowance :: int
  lt_no_ev_iterations :: int
  lt_events_run :: nat
  lt_events_stolen :: nat
  lt_attempts_to_steal :: nat
  lt_sleeps :: nat
  lt_pc :: lf_pc

definition lthread_new :: lthread where
  "lthread_new = \<lparr> lt_running = False, lt_request_stop = False, lt_asleep = False, lt_queue = [],
     lt_queue_allowance = 0, lt_no_ev_iterations = 0, lt_events_run = 0, lt_events_stolen = 0,
     lt_attempts_to_steal = 0, lt_sleeps = 0, lt_pc = LStart \<rparr>"

text \<open>The threads are the list the constructor builds, thread \<open>i\<close> at place \<open>i\<close>; the active flows with the
  newest first; the state field of each event.\<close>

record lrtstate =
  lr_running :: bool
  lr_request_death :: bool
  lr_soft_load_flow :: bool
  lr_num_threads :: nat
  lr_sleep_count :: int
  lr_threads :: "nat \<Rightarrow> lthread"
  lr_created :: "nat set"
  lr_active_flow :: "flow list"
  lr_doors :: bool
  lr_state :: "nat \<Rightarrow> nat"

record ('k, 'd) lworld = "('k, 'd) eworld" +
  lr :: lrtstate

definition lr_upd :: "(lrtstate \<Rightarrow> lrtstate) \<Rightarrow> ('k, 'd, 'z) lworld_scheme \<Rightarrow> ('k, 'd, 'z) lworld_scheme" where
  "lr_upd f w = w\<lparr> lr := f (lr w) \<rparr>"

definition lt_upd :: "nat \<Rightarrow> (lthread \<Rightarrow> lthread) \<Rightarrow> lrtstate \<Rightarrow> lrtstate" where
  "lt_upd t f r = r\<lparr> lr_threads := (lr_threads r)(t := f (lr_threads r t)) \<rparr>"

definition lt_goto :: "nat \<Rightarrow> lf_pc \<Rightarrow> lrtstate \<Rightarrow> lrtstate" where
  "lt_goto t pc = lt_upd t (\<lambda>th. th\<lparr> lt_pc := pc \<rparr>)"

definition lr_flow :: "lrtstate \<Rightarrow> flow option" where
  "lr_flow r = (case lr_active_flow r of [] \<Rightarrow> None | f # fs \<Rightarrow> Some f)"

section \<open>The deques\<close>

definition set_ev_state :: "nat \<Rightarrow> nat \<Rightarrow> lrtstate \<Rightarrow> lrtstate" where
  "set_ev_state e s r = r\<lparr> lr_state := (lr_state r)(e := s) \<rparr>"

definition pushLocal :: "nat \<Rightarrow> nat \<Rightarrow> lrtstate \<Rightarrow> lrtstate" where
  "pushLocal t e r = lt_upd t (\<lambda>th. th\<lparr> lt_queue := lt_queue th @ [e] \<rparr>) (set_ev_state e 1 r)"

definition popLocal :: "nat \<Rightarrow> lrtstate \<Rightarrow> nat option \<times> lrtstate" where
  "popLocal t r = (let q = lt_queue (lr_threads r t) in
     if q = [] then (None, r)
     else (Some (last q), set_ev_state (last q) 2 (lt_upd t (\<lambda>th. th\<lparr> lt_queue := butlast q \<rparr>) r)))"

definition lf_steal :: "nat \<Rightarrow> lrtstate \<Rightarrow> nat option \<times> lrtstate" where
  "lf_steal v r = (case lt_queue (lr_threads r v) of
      [] \<Rightarrow> (None, r)
    | e # q \<Rightarrow> (Some e, set_ev_state e 3 (lt_upd v (\<lambda>th. th\<lparr> lt_queue := q \<rparr>) r)))"

text \<open>The order of a sweep: from a random thread to the end of the list, then from its head, without the
  thread itself.  \<open>steal_first_random\<close> is the sweep run without interference.\<close>

definition sweep_order :: "nat \<Rightarrow> nat \<Rightarrow> nat \<Rightarrow> nat list" where
  "sweep_order n start local_index = filter (\<lambda>i. i \<noteq> local_index) ([start..<n] @ [0..<start])"

fun lf_sweep :: "nat list \<Rightarrow> lrtstate \<Rightarrow> nat option \<times> lrtstate" where
  "lf_sweep [] r = (None, r)"
| "lf_sweep (v # vs) r = (case lf_steal v r of (Some e, r1) \<Rightarrow> (Some e, r1) | (None, r1) \<Rightarrow> lf_sweep vs r1)"

definition steal_first_random :: "nat \<Rightarrow> nat \<Rightarrow> lrtstate \<Rightarrow> nat option \<times> lrtstate" where
  "steal_first_random start local_index r = lf_sweep (sweep_order (lr_num_threads r) start local_index) r"

section \<open>Sleeping and waking\<close>

text \<open>The compare and swap loop succeeds at once or sees that all others sleep.\<close>

definition incr_sleepers :: "lrtstate \<Rightarrow> bool \<times> lrtstate" where
  "incr_sleepers r = (if lr_sleep_count r + 1 < int (lr_num_threads r)
     then (True, r\<lparr> lr_sleep_count := lr_sleep_count r + 1 \<rparr>) else (False, r))"

definition decr_sleepers :: "lrtstate \<Rightarrow> lrtstate" where
  "decr_sleepers r = r\<lparr> lr_sleep_count := lr_sleep_count r - 1 \<rparr>"

definition all_asleep_except_me :: "lrtstate \<Rightarrow> bool" where
  "all_asleep_except_me r \<longleftrightarrow> lr_sleep_count r + 1 = int (lr_num_threads r)"

text \<open>A signal reaches a thread only while it waits.\<close>

definition lf_wake :: "nat \<Rightarrow> lrtstate \<Rightarrow> lrtstate" where
  "lf_wake t r = (case lt_pc (lr_threads r t) of
      LWaiting \<Rightarrow> lt_goto t LWoken r
    | LDoorWaiting \<Rightarrow> lt_goto t LDoorWoken r
    | _ \<Rightarrow> r)"

fun wake_loop :: "nat list \<Rightarrow> int \<Rightarrow> lrtstate \<Rightarrow> lrtstate" where
  "wake_loop [] num_to_wake r = r"
| "wake_loop (t # ts) num_to_wake r =
     (if num_to_wake > 0
      then if lt_asleep (lr_threads r t) then wake_loop ts (num_to_wake - 1) (lf_wake t r) else wake_loop ts num_to_wake r
      else r)"

definition wake_threads :: "int \<Rightarrow> lrtstate \<Rightarrow> lrtstate" where
  "wake_threads num_to_wake r =
     (if lr_sleep_count r = 0 then r else wake_loop [0..<lr_num_threads r] num_to_wake r)"

text \<open>\<open>die\<close>, up to the wait for the thread to end, and \<open>soft_kill\<close> called on thread \<open>t_index\<close>.\<close>

definition lf_die :: "nat \<Rightarrow> lrtstate \<Rightarrow> lrtstate" where
  "lf_die t r = (let r1 = lt_upd t (\<lambda>th. th\<lparr> lt_request_stop := True \<rparr>) r
     in if lt_asleep (lr_threads r1 t) then lf_wake t r1 else r1)"

definition lf_soft_kill :: "nat \<Rightarrow> lrtstate \<Rightarrow> lrtstate" where
  "lf_soft_kill t_index r = (let r1 = r\<lparr> lr_request_death := True \<rparr> in if t_index = 0 then r1 else lf_die 0 r1)"

definition lf_soft_load_flow :: "lrtstate \<Rightarrow> lrtstate" where
  "lf_soft_load_flow r = r\<lparr> lr_soft_load_flow := True \<rparr>"

definition caught_soft_load_flow :: "lrtstate \<Rightarrow> bool \<times> lrtstate" where
  "caught_soft_load_flow r = (lr_soft_load_flow r, r\<lparr> lr_soft_load_flow := False \<rparr>)"

section \<open>Submitting events and loading flows\<close>

text \<open>The events go to the deque of the thread with the caller's index; without such a thread they are
  dropped (and an error is logged).\<close>

definition lf_submitEvents :: "nat \<Rightarrow> nat list \<Rightarrow> lrtstate \<Rightarrow> lrtstate" where
  "lf_submitEvents t_ind evs r =
     (if evs \<noteq> [] \<and> t_ind < lr_num_threads r then wake_threads 1 (fold (pushLocal t_ind) evs r) else r)"

definition distribute_events :: "nat \<Rightarrow> nat list \<Rightarrow> ('k, 'd, 'z) lworld_scheme \<Rightarrow> ('k, 'd, 'z) lworld_scheme result" where
  "distribute_events t_ind evs w = assertE (t_ind < lr_num_threads (lr w)) (Inr (lr_upd (fold (pushLocal t_ind) evs) w))"

type_synonym ('k, 'd, 'z) lflow_reader = "flow option \<Rightarrow> ('k, 'd, 'z) lworld_scheme \<Rightarrow>
    (flow \<times> flow option \<times> ('k, 'd, 'z) lworld_scheme) result"

text \<open>\<open>reader\<close> stands for \<open>xml::read\<close>, as for the classic runtime.  Old flows are kept; their sources are
  turned off.\<close>

definition lf_load_flow :: "('k::linorder, 'd) ucode \<Rightarrow> ('k, 'd, 'z) lflow_reader \<Rightarrow> nat \<Rightarrow> ('k, 'd, 'z) lworld_scheme \<Rightarrow>
    ('k, 'd, 'z) lworld_scheme result" where
  "lf_load_flow uc reader t_ind w =
     bindE (reader (lr_flow (lr w)) w) (\<lambda>(fl, old, w1).
     bindE (assignMagicNumbers fl
        (lr_upd (\<lambda>r. r\<lparr> lr_active_flow := (case old of None \<Rightarrow> lr_active_flow r | Some f \<Rightarrow> f # tl (lr_active_flow r)) \<rparr>) w1))
       (\<lambda>(fl1, w2).
     bindE (if lr_running (lr w2)
            then bindE (push_initials_and_sources uc fl1 True ([], w2)) (\<lambda>(evs, w3). distribute_events t_ind evs w3)
            else Inr w2) (\<lambda>w4.
     case lr_active_flow (lr w4) of
       [] \<Rightarrow> Inr (lr_upd (\<lambda>r. r\<lparr> lr_active_flow := [fl1] \<rparr>) w4)
     | f # fs \<Rightarrow>
         (case (if length (fl_sources f) > 0 then flow_turn_off_sources f w4 else (f, w4)) of (f1, w5) \<Rightarrow>
            Inr (lr_upd (\<lambda>r. r\<lparr> lr_active_flow := fl1 # f1 # fs \<rparr>) w5)))))"

section \<open>Handling an event\<close>

datatype sc_category = SC_high_guards | SC_low_guards | SC_source | SC_no_guards | SC_exec_gapped

definition lf_categorize :: "('k, 'd, 'z) lworld_scheme \<Rightarrow> nat \<Rightarrow> sc_category" where
  "lf_categorize w e =
     (let num_atomics_held = ah_number (w_ah w e); fn = fw_nodes w (node_of w e) in
      if fn_instances fn - fn_executions fn > 100 then SC_exec_gapped
      else if fn_is_source fn then SC_source
      else if num_atomics_held \<ge> 3 then SC_high_guards
      else if num_atomics_held \<ge> 1 then SC_low_guards
      else SC_no_guards)"

definition queue_control :: "int \<Rightarrow> nat \<Rightarrow> int" where
  "queue_control allowance queue_size = (if allowance \<le> 0 then 32 - int queue_size else allowance - 1)"

text \<open>The order in which the categories are pushed: on a critical queue (negative allowance) the sources
  go first, otherwise (hot and cold alike) the events without guards do.\<close>

definition push_sequence :: "int \<Rightarrow> sc_category list" where
  "push_sequence allowance =
     (if allowance < 0 then [SC_source, SC_no_guards, SC_low_guards]
      else [SC_no_guards, SC_source, SC_low_guards]) @ [SC_high_guards, SC_exec_gapped]"

definition pushing_order :: "int \<Rightarrow> (nat \<Rightarrow> sc_category) \<Rightarrow> nat list \<Rightarrow> nat list" where
  "pushing_order allowance cat evs = concat (map (\<lambda>c. filter (\<lambda>e. cat e = c) evs) (push_sequence allowance))"

definition lf_push_successors :: "nat \<Rightarrow> nat list \<Rightarrow> ('k, 'd, 'z) lworld_scheme \<Rightarrow> ('k, 'd, 'z) lworld_scheme" where
  "lf_push_successors t evs w =
     (let th = lr_threads (lr w) t; allowance = queue_control (lt_queue_allowance th) (length (lt_queue th))
      in lr_upd (\<lambda>r. fold (pushLocal t) (pushing_order allowance (lf_categorize w) evs)
           (lt_upd t (\<lambda>th. th\<lparr> lt_queue_allowance := allowance \<rparr>) r)) w)"

definition lf_execute :: "('k, 'd) ucode \<Rightarrow> nat \<Rightarrow> nat \<Rightarrow> ('k, 'd, 'z) lworld_scheme \<Rightarrow> (int \<times> ('k, 'd, 'z) lworld_scheme) result" where
  "lf_execute uc t e w = assertE (lr_state (lr w) e \<noteq> 5) (bindE (event_execute uc e w) (\<lambda>(rc, w1).
     Inr (rc, lr_upd (\<lambda>r. lt_upd t (\<lambda>th. th\<lparr> lt_events_run := lt_events_run th + 1 \<rparr>) (set_ev_state e 5 r)) w1)))"

text \<open>Successors, release of the atomics, the events let through, pushing; returns how many were pushed.\<close>

definition lf_finish :: "('k::linorder, 'd) ucode \<Rightarrow> nat \<Rightarrow> nat \<Rightarrow> int \<Rightarrow> ('k, 'd, 'z) lworld_scheme \<Rightarrow>
    (nat \<times> ('k, 'd, 'z) lworld_scheme) result" where
  "lf_finish uc t e return_code w =
     bindE (if return_code \<noteq> 0 then successors_on_error uc e return_code ([], w)
            else successors_on_no_error uc e ([], w)) (\<lambda>(succs, w1).
     bindE (ah_release e w1) (\<lambda>(rels, w2).
     bindE (reacquire uc rels (succs, w2)) (\<lambda>(evs, w3).
     Inr (length evs, lf_push_successors t evs w3))))"

section \<open>The thread loop\<close>

definition lf_leave :: "nat \<Rightarrow> lrtstate \<Rightarrow> lrtstate" where
  "lf_leave t = lt_upd t (\<lambda>th. th\<lparr> lt_running := False, lt_pc := (if t = 0 then LTeardown 1 False else LExited) \<rparr>)"

text \<open>Now and then the own deque is passed over; \<open>start\<close> is the random start of the sweep.\<close>

definition lf_take :: "nat \<Rightarrow> nat \<Rightarrow> lrtstate \<Rightarrow> lrtstate" where
  "lf_take start t r =
     (case (if lt_queue_allowance (lr_threads r t) mod 100 = 0
            then (None, lt_upd t (\<lambda>th. th\<lparr> lt_queue_allowance := lt_queue_allowance th - 1 \<rparr>) r)
            else popLocal t r) of
        (Some e, r1) \<Rightarrow> lt_goto t (LGot e) r1
      | (None, r1) \<Rightarrow> lt_upd t (\<lambda>th. th\<lparr> lt_attempts_to_steal := lt_attempts_to_steal th + 1,
            lt_pc := LSweep (sweep_order (lr_num_threads r1) start t) \<rparr>) r1)"

definition lf_top :: "('k::linorder, 'd) ucode \<Rightarrow> ('k, 'd, 'z) lflow_reader \<Rightarrow> nat \<Rightarrow> nat \<Rightarrow> ('k, 'd, 'z) lworld_scheme \<Rightarrow>
    ('k, 'd, 'z) lworld_scheme result" where
  "lf_top uc reader start t w =
     (if lt_request_stop (lr_threads (lr w) t) \<or> lr_request_death (lr w) then Inr (lr_upd (lf_leave t) w)
      else case caught_soft_load_flow (lr w) of (caught, r1) \<Rightarrow>
        let w1 = lr_upd (\<lambda>_. r1) w in
        bindE (if caught then lf_load_flow uc reader t w1 else Inr w1) (\<lambda>w2. Inr (lr_upd (lf_take start t) w2)))"

definition lf_sweep_step :: "nat \<Rightarrow> nat \<Rightarrow> nat list \<Rightarrow> lrtstate \<Rightarrow> lrtstate" where
  "lf_sweep_step t v vs r = (case lf_steal v r of
      (Some e, r1) \<Rightarrow> lt_upd t (\<lambda>th. th\<lparr> lt_events_stolen := lt_events_stolen th + 1, lt_pc := LGot e \<rparr>) r1
    | (None, r1) \<Rightarrow> lt_goto t (LSweep vs) r1)"

definition lf_no_event :: "nat \<Rightarrow> lrtstate \<Rightarrow> lrtstate" where
  "lf_no_event t = lt_upd t (\<lambda>th. th\<lparr> lt_no_ev_iterations := lt_no_ev_iterations th + 1, lt_pc := LPark \<rparr>)"

definition lf_wake_others :: "nat \<Rightarrow> nat \<Rightarrow> lrtstate \<Rightarrow> lrtstate" where
  "lf_wake_others t n r = lt_goto t LPark (wake_threads (int n) r)"

definition lf_park :: "nat \<Rightarrow> lrtstate \<Rightarrow> lrtstate" where
  "lf_park t = lt_upd t (\<lambda>th. th\<lparr> lt_asleep := True, lt_pc := LDecide \<rparr>)"

definition lf_stay_awake :: "nat \<Rightarrow> lrtstate \<Rightarrow> lrtstate" where
  "lf_stay_awake t = lt_upd t (\<lambda>th. th\<lparr> lt_asleep := False, lt_pc := LTop \<rparr>)"

text \<open>After 100 iterations without an event a thread may sleep, unless it would be the last one; the last one
  waits for the doors or, after 200, ends the runtime.\<close>

definition lf_decide :: "nat \<Rightarrow> lrtstate \<Rightarrow> lrtstate" where
  "lf_decide t r =
     (if lt_no_ev_iterations (lr_threads r t) > 100
      then (case incr_sleepers r of
              (True, r1) \<Rightarrow> lt_upd t (\<lambda>th. th\<lparr> lt_sleeps := lt_sleeps th + 1, lt_pc := LPreWait \<rparr>) r1
            | (False, r1) \<Rightarrow> lt_goto t LLast r1)
      else lt_goto t LLast r)"

definition lf_gives_up :: "nat \<Rightarrow> lrtstate \<Rightarrow> bool" where
  "lf_gives_up t r \<longleftrightarrow> lt_no_ev_iterations (lr_threads r t) > 200 \<and> all_asleep_except_me r \<and> \<not> lr_doors r"

definition lf_last :: "nat \<Rightarrow> lrtstate \<Rightarrow> lrtstate" where
  "lf_last t r =
     (if lf_gives_up t r then lf_leave t (lf_soft_kill t (lt_upd t (\<lambda>th. th\<lparr> lt_asleep := False \<rparr>) r))
      else if lt_no_ev_iterations (lr_threads r t) > 200 \<and> all_asleep_except_me r then lt_goto t LDoorPre r
      else lf_stay_awake t r)"

definition lf_woken :: "nat \<Rightarrow> lrtstate \<Rightarrow> lrtstate" where
  "lf_woken t r = lt_upd t (\<lambda>th. th\<lparr> lt_asleep := False, lt_no_ev_iterations := 0, lt_pc := LTop \<rparr>) (decr_sleepers r)"

definition lf_executed :: "nat \<Rightarrow> nat \<Rightarrow> int \<Rightarrow> lrtstate \<Rightarrow> lrtstate" where
  "lf_executed t e rc = lt_upd t (\<lambda>th. th\<lparr> lt_no_ev_iterations := 0, lt_pc := LRun e rc \<rparr>)"

text \<open>The steps of the threads; while it executes an event the user's code may submit events.  From outside:
  the doors thread (whose thread index is that of thread 0) submits events, the flags are set, a waiting
  thread wakes without a signal.\<close>

inductive lf_step :: "('k::linorder, 'd) ucode \<Rightarrow> ('k, 'd, 'z) lflow_reader \<Rightarrow> ('k, 'd, 'z) lworld_scheme \<Rightarrow>
    ('k, 'd, 'z) lworld_scheme \<Rightarrow> bool" for uc reader where
  start: "lt_pc (lr_threads (lr w) t) = LStart \<Longrightarrow> t \<in> lr_created (lr w) \<Longrightarrow>
    lf_step uc reader w (lr_upd (lt_upd t (\<lambda>th. th\<lparr> lt_running := True, lt_no_ev_iterations := 0, lt_pc := LTop \<rparr>)) w)"
| top: "lt_pc (lr_threads (lr w) t) = LTop \<Longrightarrow> start < lr_num_threads (lr w) \<Longrightarrow> lf_top uc reader start t w = Inr w' \<Longrightarrow>
    lf_step uc reader w w'"
| sweep: "lt_pc (lr_threads (lr w) t) = LSweep (v # vs) \<Longrightarrow> lf_step uc reader w (lr_upd (lf_sweep_step t v vs) w)"
| sweep_abort: "lt_pc (lr_threads (lr w) t) = LSweep (v # vs) \<Longrightarrow> lf_step uc reader w (lr_upd (lt_goto t (LSweep vs)) w)"
| sweep_none: "lt_pc (lr_threads (lr w) t) = LSweep [] \<Longrightarrow> lf_step uc reader w (lr_upd (lf_no_event t) w)"
| submit: "lt_pc (lr_threads (lr w) t) = LGot e \<Longrightarrow> lf_step uc reader w (lr_upd (lf_submitEvents t evs) w)"
| exec: "lt_pc (lr_threads (lr w) t) = LGot e \<Longrightarrow> lf_execute uc t e w = Inr (rc, w1) \<Longrightarrow>
    lf_step uc reader w (lr_upd (lf_executed t e rc) w1)"
| finish: "lt_pc (lr_threads (lr w) t) = LRun e rc \<Longrightarrow> lf_finish uc t e rc w = Inr (n, w1) \<Longrightarrow>
    lf_step uc reader w (lr_upd (lt_goto t (LWake n)) w1)"
| wake: "lt_pc (lr_threads (lr w) t) = LWake n \<Longrightarrow> lf_step uc reader w (lr_upd (lf_wake_others t n) w)"
| park: "lt_pc (lr_threads (lr w) t) = LPark \<Longrightarrow> lf_step uc reader w (lr_upd (lf_park t) w)"
| decide: "lt_pc (lr_threads (lr w) t) = LDecide \<Longrightarrow> lf_step uc reader w (lr_upd (lf_decide t) w)"
| last: "lt_pc (lr_threads (lr w) t) = LLast \<Longrightarrow> lf_step uc reader w (lr_upd (lf_last t) w)"
| wait: "lt_pc (lr_threads (lr w) t) = LPreWait \<Longrightarrow> lf_step uc reader w (lr_upd (lt_goto t LWaiting) w)"
| spurious: "lt_pc (lr_threads (lr w) t) = LWaiting \<Longrightarrow> lf_step uc reader w (lr_upd (lt_goto t LWoken) w)"
| woken: "lt_pc (lr_threads (lr w) t) = LWoken \<Longrightarrow> lf_step uc reader w (lr_upd (lf_woken t) w)"
| door_wait: "lt_pc (lr_threads (lr w) t) = LDoorPre \<Longrightarrow> lf_step uc reader w (lr_upd (lt_goto t LDoorWaiting) w)"
| door_spurious: "lt_pc (lr_threads (lr w) t) = LDoorWaiting \<Longrightarrow> lf_step uc reader w (lr_upd (lt_goto t LDoorWoken) w)"
| door_woken: "lt_pc (lr_threads (lr w) t) = LDoorWoken \<Longrightarrow> lf_step uc reader w (lr_upd (lf_stay_awake t) w)"
| teardown: "lt_pc (lr_threads (lr w) 0) = LTeardown i False \<Longrightarrow> i < lr_num_threads (lr w) \<Longrightarrow>
    lf_step uc reader w (lr_upd (\<lambda>r. lt_goto 0 (LTeardown i True) (lf_die i r)) w)"
| joined: "lt_pc (lr_threads (lr w) 0) = LTeardown i True \<Longrightarrow> \<not> lt_running (lr_threads (lr w) i) \<Longrightarrow>
    lf_step uc reader w (lr_upd (lt_goto 0 (LTeardown (i + 1) False)) w)"
| ended: "lt_pc (lr_threads (lr w) 0) = LTeardown (lr_num_threads (lr w)) False \<Longrightarrow>
    lf_step uc reader w (lr_upd (\<lambda>r. lt_goto 0 LExited (r\<lparr> lr_running := False \<rparr>)) w)"
| door_submit: "lr_doors (lr w) \<Longrightarrow> lf_step uc reader w (lr_upd (lf_submitEvents 0 evs) w)"
| kill: "lf_step uc reader w (lr_upd (lf_soft_kill t) w)"
| load: "lf_step uc reader w (lr_upd lf_soft_load_flow w)"

section \<open>Construction and start\<close>

definition lr_new :: lrtstate where
  "lr_new = \<lparr> lr_running = False, lr_request_death = False, lr_soft_load_flow = False, lr_num_threads = 0,
     lr_sleep_count = 0, lr_threads = (\<lambda>_. lthread_new), lr_created = {}, lr_active_flow = [], lr_doors = False,
     lr_state = (\<lambda>_. 0) \<rparr>"

text \<open>The constructor loads the flow; there is at least one thread more than the flow has sources.\<close>

definition lf_num_threads :: "int \<Rightarrow> nat \<Rightarrow> nat" where
  "lf_num_threads initial_thread_pool_size sources =
     (if initial_thread_pool_size \<le> int sources then sources + 1 else nat initial_thread_pool_size)"

definition lf_construct :: "('k::linorder, 'd) ucode \<Rightarrow> ('k, 'd, 'z) lflow_reader \<Rightarrow> int \<Rightarrow> ('k, 'd, 'z) lworld_scheme \<Rightarrow>
    ('k, 'd, 'z) lworld_scheme result" where
  "lf_construct uc reader initial_thread_pool_size w =
     bindE (lf_load_flow uc reader 0 w) (\<lambda>w1. case lr_flow (lr w1) of
        None \<Rightarrow> Inl NullDeref
      | Some fl \<Rightarrow> Inr (lr_upd (\<lambda>r. r\<lparr> lr_num_threads := lf_num_threads initial_thread_pool_size (length (fl_sources fl)),
           lr_threads := (\<lambda>_. lthread_new) \<rparr>) w1))"

text \<open>Threads are created in order until one creation fails: the result of an earlier failure keeps the
  later calls from being made.\<close>

fun create_threads :: "(nat \<Rightarrow> bool) \<Rightarrow> nat list \<Rightarrow> bool \<Rightarrow> nat set \<Rightarrow> nat set" where
  "create_threads fails [] res created = created"
| "create_threads fails (t # ts) res created =
     (if res then create_threads fails ts True created
      else if fails t then create_threads fails ts True created
      else create_threads fails ts False (insert t created))"

text \<open>\<open>start\<close>: the events of the sources go to thread 0, the other threads are created, thread 0 (the
  caller's) runs too; \<open>doors\<close> tells whether a doors thread was made.\<close>

definition lf_start :: "('k::linorder, 'd) ucode \<Rightarrow> (nat \<Rightarrow> bool) \<Rightarrow> bool \<Rightarrow> ('k, 'd, 'z) lworld_scheme \<Rightarrow>
    ('k, 'd, 'z) lworld_scheme result" where
  "lf_start uc fails doors w = (let w0 = lr_upd (\<lambda>r. r\<lparr> lr_running := True \<rparr>) w in
     case lr_flow (lr w0) of None \<Rightarrow> Inl NullDeref | Some fl \<Rightarrow>
       bindE (push_initials_and_sources uc fl False ([], w0)) (\<lambda>(evs, w1).
       bindE (distribute_events 0 evs w1) (\<lambda>w2.
       Inr (lr_upd (\<lambda>r. r\<lparr> lr_doors := doors,
          lr_created := insert 0 (create_threads fails [1..<lr_num_threads r] False {}) \<rparr>) w2))))"

definition lf_reach :: "('k::linorder, 'd) ucode \<Rightarrow> ('k, 'd, 'z) lflow_reader \<Rightarrow> int \<Rightarrow> (nat \<Rightarrow> bool) \<Rightarrow> bool \<Rightarrow>
    ('k, 'd, 'z) lworld_scheme \<Rightarrow> bool" where
  "lf_reach uc reader pool fails doors w \<longleftrightarrow> (\<exists>w0 w1 w2. lr w0 = lr_new \<and> lf_construct uc reader pool w0 = Inr w1 \<and>
     lf_start uc fails doors w1 = Inr w2 \<and> (lf_step uc reader)\<^sup>*\<^sup>* w2 w)"

end
