(* ===== verification/LockfreeProgress.thy ===== *)
theory LockfreeProgress
  imports LockfreeRunTime Progress
begin

text \<open>
  What the threads of the lock-free runtime guarantee: how the successors of an event are pushed, what a
  sweep over the deques finds, that queued work is always at a thread that is awake, and that a runtime
  that gives up has no event left.  With a doors thread an event may be stranded.
\<close>

section \<open>Pushing and stealing\<close>

definition push_rank :: "int \<Rightarrow> sc_category \<Rightarrow> nat" where
  "push_rank allowance c = (case c of
      SC_source \<Rightarrow> if allowance < 0 then 0 else 1
    | SC_no_guards \<Rightarrow> if allowance < 0 then 1 else 0
    | SC_low_guards \<Rightarrow> 2 | SC_high_guards \<Rightarrow> 3 | SC_exec_gapped \<Rightarrow> 4)"

lemma pushing_order_unfold:
  "pushing_order a cat evs =
     (if a < 0 then filter (\<lambda>e. cat e = SC_source) evs @ filter (\<lambda>e. cat e = SC_no_guards) evs
      else filter (\<lambda>e. cat e = SC_no_guards) evs @ filter (\<lambda>e. cat e = SC_source) evs) @
     filter (\<lambda>e. cat e = SC_low_guards) evs @ filter (\<lambda>e. cat e = SC_high_guards) evs @ filter (\<lambda>e. cat e = SC_exec_gapped) evs"
  by (simp add: pushing_order_def push_sequence_def)

lemma pushing_order_mset: "mset (pushing_order a cat evs) = mset evs"
proof (induction evs)
  case Nil
  then show ?case by (simp add: pushing_order_unfold)
next
  case (Cons e evs)
  then show ?case by (cases "cat e") (auto simp: pushing_order_unfold split: if_splits)
qed

lemma pushing_order_sorted: "sorted (map (\<lambda>e. push_rank a (cat e)) (pushing_order a cat evs))"
proof -
  have "sorted (map (\<lambda>e. push_rank a (cat e)) (filter (\<lambda>e. cat e = c) evs))" for c
    by (induction evs) auto
  then show ?thesis
    by (auto simp: pushing_order_unfold sorted_append push_rank_def)
qed

lemma pushing_order_stable: "filter (\<lambda>e. cat e = c) (pushing_order a cat evs) = filter (\<lambda>e. cat e = c) evs"
proof -
  have *: "filter (\<lambda>e. cat e = c) (filter (\<lambda>e. cat e = d) evs) = (if c = d then filter (\<lambda>e. cat e = c) evs else [])" for d
    by (induction evs) auto
  show ?thesis by (cases c) (simp_all add: pushing_order_unfold *)
qed

lemma lt_upd_simps [simp]:
  "lr_threads (lt_upd t f r) u = (if u = t then f (lr_threads r t) else lr_threads r u)"
  "lr_num_threads (lt_upd t f r) = lr_num_threads r" "lr_sleep_count (lt_upd t f r) = lr_sleep_count r"
  "lr_created (lt_upd t f r) = lr_created r" "lr_doors (lt_upd t f r) = lr_doors r"
  "lr_request_death (lt_upd t f r) = lr_request_death r" "lr_state (lt_upd t f r) = lr_state r"
  "lr_soft_load_flow (lt_upd t f r) = lr_soft_load_flow r" "lr_active_flow (lt_upd t f r) = lr_active_flow r"
  by (simp_all add: lt_upd_def)

lemma set_ev_state_simps [simp]:
  "lr_threads (set_ev_state e s r) = lr_threads r" "lr_num_threads (set_ev_state e s r) = lr_num_threads r"
  "lr_sleep_count (set_ev_state e s r) = lr_sleep_count r" "lr_created (set_ev_state e s r) = lr_created r"
  "lr_doors (set_ev_state e s r) = lr_doors r" "lr_request_death (set_ev_state e s r) = lr_request_death r"
  "lr_soft_load_flow (set_ev_state e s r) = lr_soft_load_flow r"
  by (simp_all add: set_ev_state_def)

text \<open>What pushing does to a thread: only its deque changes.\<close>

lemma push_all:
  "lr_threads (fold (pushLocal t) es r) = (lr_threads r)(t := (lr_threads r t)\<lparr> lt_queue := lt_queue (lr_threads r t) @ es \<rparr>)"
  "lr_num_threads (fold (pushLocal t) es r) = lr_num_threads r" "lr_sleep_count (fold (pushLocal t) es r) = lr_sleep_count r"
  "lr_created (fold (pushLocal t) es r) = lr_created r" "lr_doors (fold (pushLocal t) es r) = lr_doors r"
  "lr_request_death (fold (pushLocal t) es r) = lr_request_death r"
  "lr_soft_load_flow (fold (pushLocal t) es r) = lr_soft_load_flow r"
  by (induction es arbitrary: r) (auto simp: pushLocal_def fun_eq_iff lt_upd_def)

lemma lr_lr_upd [simp]: "lr (lr_upd f w) = f (lr w)"
  by (simp add: lr_upd_def)

text \<open>The successors of a handled event are all pushed onto the thread's deque, each once, by category:
  the deque grows by the events in the order of their categories (sources first on a critical queue,
  events without guards first otherwise, then few guards, many guards, and last, so taken first, the
  events of a node whose executions lag behind), keeping the order within a category; no other deque
  changes, and the allowance is renewed from the queue's length when it is used up.\<close>

theorem successors_pushed_by_category:
  "\<exists>ys. lt_queue (lr_threads (lr (lf_push_successors t evs w)) t) = lt_queue (lr_threads (lr w) t) @ ys \<and>
     mset ys = mset evs \<and>
     sorted (map (\<lambda>e. push_rank (lt_queue_allowance (lr_threads (lr (lf_push_successors t evs w)) t)) (lf_categorize w e)) ys) \<and>
     (\<forall>c. filter (\<lambda>e. lf_categorize w e = c) ys = filter (\<lambda>e. lf_categorize w e = c) evs) \<and>
     (lr_threads (lr (lf_push_successors t evs w)))(t := lr_threads (lr w) t) = lr_threads (lr w) \<and>
     lt_queue_allowance (lr_threads (lr (lf_push_successors t evs w)) t) =
       queue_control (lt_queue_allowance (lr_threads (lr w) t)) (length (lt_queue (lr_threads (lr w) t)))"
  by (rule exI[of _ "pushing_order (queue_control (lt_queue_allowance (lr_threads (lr w) t))
        (length (lt_queue (lr_threads (lr w) t)))) (lf_categorize w) evs"])
    (simp add: lf_push_successors_def Let_def push_all pushing_order_mset pushing_order_sorted pushing_order_stable fun_eq_iff)

lemma sweep_order_props:
  assumes "start < n"
  shows "distinct (sweep_order n start i)" "set (sweep_order n start i) = {..<n} - {i}"
  using assms by (auto simp: sweep_order_def)

lemma lf_sweep_spec:
  "(case lf_sweep vs r of
      (None, r') \<Rightarrow> r' = r \<and> (\<forall>v\<in>set vs. lt_queue (lr_threads r v) = [])
    | (Some e, r') \<Rightarrow> \<exists>us v us' q. vs = us @ v # us' \<and> (\<forall>u\<in>set us. lt_queue (lr_threads r u) = []) \<and>
        lt_queue (lr_threads r v) = e # q \<and> r' = set_ev_state e 3 (lt_upd v (\<lambda>th. th\<lparr> lt_queue := q \<rparr>) r))"
proof (induction vs)
  case (Cons v vs)
  show ?case
  proof (cases "lt_queue (lr_threads r v)")
    case Nil
    then show ?thesis using Cons
      by (auto simp: lf_steal_def split: prod.splits option.splits) (metis append_Cons set_ConsD)
  next
    case (Cons e q)
    then show ?thesis by (auto simp: lf_steal_def intro!: exI[of _ "[]"])
  qed
qed simp

text \<open>A sweep looks at every other thread once, from the random start on: it comes back empty handed
  exactly when all other deques are empty, and otherwise takes the top of the first one that is not.\<close>

theorem sweep_finds_work:
  assumes "start < lr_num_threads r"
  shows "(fst (steal_first_random start i r) = None \<longleftrightarrow> (\<forall>v<lr_num_threads r. v \<noteq> i \<longrightarrow> lt_queue (lr_threads r v) = [])) \<and>
    (\<forall>e. fst (steal_first_random start i r) = Some e \<longrightarrow> (\<exists>v<lr_num_threads r. v \<noteq> i \<and>
       lt_queue (lr_threads r v) = e # lt_queue (lr_threads (snd (steal_first_random start i r)) v) \<and>
       (\<forall>u. u \<noteq> v \<longrightarrow> lr_threads (snd (steal_first_random start i r)) u = lr_threads r u)))"
proof -
  note s = sweep_order_props(2)[OF assms, of i]
  have spec: "case steal_first_random start i r of
      (None, r') \<Rightarrow> r' = r \<and> (\<forall>v\<in>{..<lr_num_threads r} - {i}. lt_queue (lr_threads r v) = [])
    | (Some e, r') \<Rightarrow> \<exists>us v us' q. sweep_order (lr_num_threads r) start i = us @ v # us' \<and>
        (\<forall>u\<in>set us. lt_queue (lr_threads r u) = []) \<and>
        lt_queue (lr_threads r v) = e # q \<and> r' = set_ev_state e 3 (lt_upd v (\<lambda>th. th\<lparr> lt_queue := q \<rparr>) r)"
    unfolding steal_first_random_def using lf_sweep_spec[where vs = "sweep_order (lr_num_threads r) start i" and r = r, unfolded s] .
  show ?thesis
  proof (cases "steal_first_random start i r")
    case (Pair o' r')
    show ?thesis
    proof (cases o')
      case None
      then show ?thesis using spec Pair by auto
    next
      case (Some e)
      with spec Pair obtain us v us' q where v: "sweep_order (lr_num_threads r) start i = us @ v # us'"
        "lt_queue (lr_threads r v) = e # q" "r' = set_ev_state e 3 (lt_upd v (\<lambda>th. th\<lparr> lt_queue := q \<rparr>) r)" by auto
      have "v \<in> {..<lr_num_threads r} - {i}" using s v(1) by (metis in_set_conv_decomp)
      then show ?thesis using v(2,3) Pair Some by auto
    qed
  qed
qed

lemma sweep_finds_work_witness:
  "fst (steal_first_random 1 0 (lr_new\<lparr> lr_num_threads := 3, lr_threads := (\<lambda>t. lthread_new\<lparr> lt_queue := (if t = 2 then [7] else []) \<rparr>) \<rparr>)) \<noteq> None"
  by (subst sweep_finds_work[THEN conjunct1]) (auto simp: lr_new_def lthread_new_def intro!: exI[of _ 2])

section \<open>The invariant\<close>

definition counted :: "lf_pc \<Rightarrow> bool" where
  "counted pc \<longleftrightarrow> pc = LPreWait \<or> pc = LWaiting \<or> pc = LWoken"

definition parked :: "lf_pc \<Rightarrow> bool" where
  "parked pc \<longleftrightarrow> counted pc \<or> pc = LDoorPre \<or> pc = LDoorWaiting \<or> pc = LDoorWoken"

definition departed :: "lf_pc \<Rightarrow> bool" where
  "departed pc \<longleftrightarrow> pc = LExited \<or> (\<exists>i b. pc = LTeardown i b)"

definition has_event :: "lf_pc \<Rightarrow> bool" where
  "has_event pc \<longleftrightarrow> (\<exists>e. pc = LGot e) \<or> (\<exists>e rc. pc = LRun e rc)"

definition counted_threads :: "lrtstate \<Rightarrow> nat set" where
  "counted_threads r = {t. t < lr_num_threads r \<and> counted (lt_pc (lr_threads r t))}"

text \<open>A thread looks into its own deque in every iteration but those whose allowance is a multiple of 100,
  and never passes it over twice in a row: after two iterations without an event its deque is empty.\<close>

definition lf_pre :: "lthread \<Rightarrow> bool" where
  "lf_pre th \<longleftrightarrow> (lt_no_ev_iterations th \<ge> 1 \<longrightarrow> lt_queue_allowance th mod 100 \<noteq> 0)"

definition lf_quiet :: "lthread \<Rightarrow> bool" where
  "lf_quiet th \<longleftrightarrow> (case lt_pc th of
      LStart \<Rightarrow> True
    | LSweep _ \<Rightarrow> lt_queue_allowance th mod 100 \<noteq> 0 \<and> (lt_no_ev_iterations th \<ge> 1 \<longrightarrow> lt_queue th = [])
    | LGot _ \<Rightarrow> True
    | LRun _ _ \<Rightarrow> lt_no_ev_iterations th = 0
    | LWake _ \<Rightarrow> lt_no_ev_iterations th = 0
    | LTeardown _ _ \<Rightarrow> True
    | LExited \<Rightarrow> True
    | pc \<Rightarrow> lf_pre th \<and> (lt_no_ev_iterations th \<ge> 2 \<or> parked pc \<longrightarrow> lt_queue th = []))"

definition lt_ok :: "bool \<Rightarrow> lthread \<Rightarrow> bool" where
  "lt_ok death th \<longleftrightarrow> lf_quiet th \<and> (departed (lt_pc th) \<and> lt_queue th \<noteq> [] \<longrightarrow> death \<or> lt_request_stop th)"

definition lf_inv :: "bool \<Rightarrow> lrtstate \<Rightarrow> bool" where
  "lf_inv dr r \<longleftrightarrow> lr_doors r = dr \<and> lr_sleep_count r = int (card (counted_threads r)) \<and> lr_sleep_count r < int (lr_num_threads r) \<and>
     lr_created r \<subseteq> {..<lr_num_threads r} \<and> (\<forall>t\<ge>lr_num_threads r. lt_pc (lr_threads r t) = LStart) \<and>
     (\<not> dr \<longrightarrow> (\<forall>t. lt_ok (lr_request_death r) (lr_threads r t)))"

lemmas lf_pc_defs = counted_def parked_def departed_def has_event_def

text \<open>What other threads may do to a thread: wake it, steal from it, ask it to stop.\<close>

definition lt_shift :: "lthread \<Rightarrow> lthread \<Rightarrow> bool" where
  "lt_shift th th' \<longleftrightarrow> (lt_pc th' = lt_pc th \<or> (lt_pc th = LWaiting \<and> lt_pc th' = LWoken) \<or>
       (lt_pc th = LDoorWaiting \<and> lt_pc th' = LDoorWoken)) \<and>
     (lt_queue th = [] \<longrightarrow> lt_queue th' = []) \<and> lt_queue_allowance th' = lt_queue_allowance th \<and>
     lt_no_ev_iterations th' = lt_no_ev_iterations th \<and> (lt_request_stop th \<longrightarrow> lt_request_stop th')"

definition lr_shift :: "lrtstate \<Rightarrow> lrtstate \<Rightarrow> bool" where
  "lr_shift r r' \<longleftrightarrow> lr_num_threads r' = lr_num_threads r \<and> lr_sleep_count r' = lr_sleep_count r \<and>
     lr_created r' = lr_created r \<and> lr_doors r' = lr_doors r \<and> (lr_request_death r \<longrightarrow> lr_request_death r') \<and>
     (\<forall>t. lt_shift (lr_threads r t) (lr_threads r' t))"

lemma lt_shift_refl [simp]: "lt_shift th th"
  by (simp add: lt_shift_def)

lemma lr_shift_refl [simp]: "lr_shift r r"
  by (simp add: lr_shift_def)

lemma lt_shift_trans: "lt_shift a b \<Longrightarrow> lt_shift b c \<Longrightarrow> lt_shift a c"
  by (auto simp: lt_shift_def)

lemma lr_shift_trans: "lr_shift a b \<Longrightarrow> lr_shift b c \<Longrightarrow> lr_shift a c"
  unfolding lr_shift_def by (metis lt_shift_trans)

lemma lt_shift_counted: "lt_shift th th' \<Longrightarrow> counted (lt_pc th') = counted (lt_pc th)"
  by (auto simp: lt_shift_def counted_def)

lemma lt_shift_ok:
  assumes "lt_shift th th'" "lt_ok d th" "d \<longrightarrow> d'"
  shows "lt_ok d' th'"
  using assms by (cases "lt_pc th") (auto simp: lt_shift_def lt_ok_def lf_quiet_def lf_pre_def lf_pc_defs)

lemma lf_inv_shift:
  assumes "lf_inv dr r" "lr_shift r r'"
  shows "lf_inv dr r'"
proof -
  have sh: "\<And>t. lt_shift (lr_threads r t) (lr_threads r' t)" and s: "lr_num_threads r' = lr_num_threads r"
    "lr_sleep_count r' = lr_sleep_count r" "lr_created r' = lr_created r" "lr_doors r' = lr_doors r"
    "lr_request_death r \<longrightarrow> lr_request_death r'"
    using assms(2) by (auto simp: lr_shift_def)
  have "counted_threads r' = counted_threads r"
    using lt_shift_counted[OF sh] by (simp add: counted_threads_def s)
  moreover have "lt_pc (lr_threads r' t) = LStart" if "t \<ge> lr_num_threads r" for t
    using assms(1) that sh[of t] unfolding lf_inv_def lt_shift_def by force
  moreover have "\<not> lr_doors r \<longrightarrow> (\<forall>t. lt_ok (lr_request_death r') (lr_threads r' t))"
    using assms(1) lt_shift_ok[OF sh _ s(5)] unfolding lf_inv_def by blast
  ultimately show ?thesis using assms(1) by (simp add: lf_inv_def s)
qed

lemma lf_wake_shift: "lr_shift r (lf_wake t r)"
proof -
  have go: "lr_shift r (lt_goto t pc r)" if "lt_shift (lr_threads r t) ((lr_threads r t)\<lparr> lt_pc := pc \<rparr>)" for pc
    using that by (simp add: lr_shift_def lt_goto_def)
  show ?thesis
  proof (cases "lt_pc (lr_threads r t) = LWaiting \<or> lt_pc (lr_threads r t) = LDoorWaiting")
    case True
    then show ?thesis by (elim disjE) (simp_all add: lf_wake_def lt_shift_def go)
  next
    case False
    then show ?thesis by (simp add: lf_wake_def split: lf_pc.splits)
  qed
qed

lemma wake_loop_shift: "lr_shift r (wake_loop ts n r)"
proof (induction ts n r rule: wake_loop.induct)
  case (2 t ts n r)
  show ?case by (simp add: 2(2) lr_shift_trans[OF lf_wake_shift 2(1)])
qed simp

lemma wake_threads_shift: "lr_shift r (wake_threads n r)"
  by (simp add: wake_threads_def wake_loop_shift)

lemma lf_die_shift: "lr_shift r (lf_die t r)"
proof -
  have "lr_shift r (lt_upd t (\<lambda>th. th\<lparr> lt_request_stop := True \<rparr>) r)" by (simp add: lr_shift_def lt_shift_def)
  then show ?thesis by (simp add: lf_die_def Let_def lr_shift_trans[OF _ lf_wake_shift] del: lt_upd_simps)
qed

lemma lf_soft_kill_shift: "lr_shift r (lf_soft_kill t r)"
proof -
  have "lr_shift r (r\<lparr> lr_request_death := True \<rparr>)" by (simp add: lr_shift_def)
  then show ?thesis by (simp add: lf_soft_kill_def Let_def lr_shift_trans[OF _ lf_die_shift])
qed

lemma lf_steal_shift: "lf_steal v r = (o', r') \<Longrightarrow> lr_shift r r'"
  by (auto simp: lf_steal_def lr_shift_def lt_shift_def split: list.splits if_splits)

text \<open>A thread's own step.\<close>

lemma lf_inv_own:
  assumes i: "lf_inv dr r" and t: "t < lr_num_threads r"
    and ok: "\<not> lr_doors r \<Longrightarrow> lt_ok (lr_request_death r) (lr_threads r t) \<Longrightarrow> lt_ok (lr_request_death r) th"
    and c: "counted (lt_pc th) = counted (lt_pc (lr_threads r t))"
  shows "lf_inv dr (lt_upd t (\<lambda>_. th) r)"
proof -
  have "counted_threads (lt_upd t (\<lambda>_. th) r) = counted_threads r"
    using c by (auto simp: counted_threads_def split: if_splits)
  then show ?thesis using assms by (auto simp: lf_inv_def)
qed

lemma lt_upd_const: "lt_upd t f r = lt_upd t (\<lambda>_. f (lr_threads r t)) r"
  by (simp add: lt_upd_def)

lemma lf_inv_upd:
  assumes "lf_inv dr r" "t < lr_num_threads r"
    and "\<not> lr_doors r \<Longrightarrow> lt_ok (lr_request_death r) (lr_threads r t) \<Longrightarrow> lt_ok (lr_request_death r) (f (lr_threads r t))"
    and "counted (lt_pc (f (lr_threads r t))) = counted (lt_pc (lr_threads r t))"
  shows "lf_inv dr (lt_upd t f r)"
  by (subst lt_upd_const[of t f r]) (rule lf_inv_own[OF assms])

text \<open>The number of sleepers follows the threads that count themselves in and out.\<close>

lemma lf_inv_count:
  assumes i: "lf_inv dr r" and t: "t < lr_num_threads r"
    and ok: "\<not> lr_doors r \<Longrightarrow> lt_ok (lr_request_death r) (lr_threads r t) \<Longrightarrow> lt_ok (lr_request_death r) th"
    and c: "lr_sleep_count r + 1 < int (lr_num_threads r) \<and> \<not> counted (lt_pc (lr_threads r t)) \<and> counted (lt_pc th) \<and> d = 1 \<or>
      counted (lt_pc (lr_threads r t)) \<and> \<not> counted (lt_pc th) \<and> d = -1"
  shows "lf_inv dr (lt_upd t (\<lambda>_. th) (r\<lparr> lr_sleep_count := lr_sleep_count r + d \<rparr>))"
proof -
  let ?r = "lt_upd t (\<lambda>_. th) (r\<lparr> lr_sleep_count := lr_sleep_count r + d \<rparr>)"
  have fin: "finite (counted_threads r)" by (simp add: counted_threads_def)
  have "int (card (counted_threads ?r)) = int (card (counted_threads r)) + d"
  proof (cases "counted (lt_pc th)")
    case True
    then have "counted_threads ?r = insert t (counted_threads r)" "t \<notin> counted_threads r"
      using c t by (auto simp: counted_threads_def)
    then show ?thesis using fin c True by simp
  next
    case False
    then have "counted_threads ?r = counted_threads r - {t}" "t \<in> counted_threads r"
      using c t by (auto simp: counted_threads_def)
    moreover from this have "card (counted_threads r) > 0" using fin card_gt_0_iff by blast
    ultimately show ?thesis using fin c False by (simp add: of_nat_diff)
  qed
  then show ?thesis using assms by (auto simp: lf_inv_def)
qed

section \<open>Every step keeps it\<close>

text \<open>The part of the state the invariant is about.\<close>

definition lr_core :: "lrtstate \<Rightarrow> nat \<times> int \<times> nat set \<times> bool \<times> bool \<times> (nat \<Rightarrow> lthread)" where
  "lr_core r = (lr_num_threads r, lr_sleep_count r, lr_created r, lr_doors r, lr_request_death r, lr_threads r)"

lemma lf_inv_core: "lr_core r' = lr_core r \<Longrightarrow> lf_inv dr r' = lf_inv dr r"
  by (simp add: lr_core_def lf_inv_def counted_threads_def)

lemma lf_inv_range: "lf_inv dr r \<Longrightarrow> lt_pc (lr_threads r t) \<noteq> LStart \<Longrightarrow> t < lr_num_threads r"
  unfolding lf_inv_def by (meson not_le)

lemma lf_inv_start:
  assumes "lf_inv dr r" "lt_pc (lr_threads r t) = LStart" "t \<in> lr_created r"
  shows "lf_inv dr (lt_upd t (\<lambda>th. th\<lparr> lt_running := True, lt_no_ev_iterations := 0, lt_pc := LTop \<rparr>) r)"
  by (rule lf_inv_upd) (use assms in \<open>auto simp: lf_inv_def lt_ok_def lf_quiet_def lf_pre_def lf_pc_defs\<close>)

text \<open>The thread's own deque may have grown just before it takes an event.\<close>

lemma lf_inv_take:
  assumes i: "lf_inv dr r0" and t: "lt_pc (lr_threads r0 t) = LTop"
    and c: "lr_core r = lr_core (lt_upd t (\<lambda>th. th\<lparr> lt_queue := q \<rparr>) r0)"
  shows "lf_inv dr (lf_take start t r)"
proof -
  have r: "t < lr_num_threads r0" using lf_inv_range[OF i] t by simp
  have f: "lr_threads r t = (lr_threads r0 t)\<lparr> lt_queue := q \<rparr>" using c by (simp add: lr_core_def)
  have own: "lf_inv dr r'" if "lr_core r' = lr_core (lt_upd t (\<lambda>_. th) r0)" "\<not> counted (lt_pc th)"
    "lt_ok (lr_request_death r0) (lr_threads r0 t) \<Longrightarrow> lt_ok (lr_request_death r0) th" for r' th
    using lf_inv_own[OF i r, of th] lf_inv_core[OF that(1)] that(2,3) t by (simp add: counted_def)
  show ?thesis
  proof (cases "lt_queue_allowance (lr_threads r0 t) mod 100 = 0")
    case True
    let ?th = "(lr_threads r0 t)\<lparr> lt_queue := q, lt_queue_allowance := lt_queue_allowance (lr_threads r0 t) - 1,
      lt_attempts_to_steal := lt_attempts_to_steal (lr_threads r0 t) + 1, lt_pc := LSweep (sweep_order (lr_num_threads r) start t) \<rparr>"
    have "(lt_queue_allowance (lr_threads r0 t) - 1) mod 100 \<noteq> 0" using True by presburger
    then show ?thesis
      by (intro own[of _ ?th]) (use True c f t in \<open>auto simp: lf_take_def lr_core_def lt_upd_def lt_ok_def lf_quiet_def lf_pre_def lf_pc_defs\<close>)
  next
    case False
    show ?thesis
    proof (cases "q = []")
      case True
      let ?th = "(lr_threads r0 t)\<lparr> lt_queue := q, lt_attempts_to_steal := lt_attempts_to_steal (lr_threads r0 t) + 1,
        lt_pc := LSweep (sweep_order (lr_num_threads r) start t) \<rparr>"
      show ?thesis
        by (rule own[of _ ?th]) (use False True c f t in
          \<open>auto simp: lf_take_def popLocal_def lr_core_def lt_upd_def lt_ok_def lf_quiet_def lf_pre_def lf_pc_defs\<close>)
    next
      case nonempty: False
      let ?th = "(lr_threads r0 t)\<lparr> lt_queue := butlast q, lt_pc := LGot (List.last q) \<rparr>"
      show ?thesis
        by (rule own[of _ ?th]) (use False nonempty c f t in
          \<open>auto simp: lf_take_def popLocal_def lr_core_def lt_upd_def lt_goto_def set_ev_state_def Let_def lt_ok_def lf_quiet_def lf_pc_defs\<close>)
    qed
  qed
qed

lemma lf_inv_leave:
  assumes "lf_inv dr r" "t < lr_num_threads r" "\<not> counted (lt_pc (lr_threads r t))"
    and "\<not> lr_doors r \<Longrightarrow> lt_queue (lr_threads r t) \<noteq> [] \<Longrightarrow> lr_request_death r \<or> lt_request_stop (lr_threads r t)"
  shows "lf_inv dr (lf_leave t r)"
  unfolding lf_leave_def by (rule lf_inv_upd) (use assms in \<open>auto simp: lt_ok_def lf_quiet_def lf_pc_defs\<close>)

text \<open>Moving on without touching anything the invariant looks at.\<close>

lemma lf_inv_sweep_step:
  assumes "lf_inv dr r" "lt_pc (lr_threads r t) = LSweep (v # vs)"
  shows "lf_inv dr (lf_sweep_step t v vs r)"
proof -
  obtain o' r1 where s: "lf_steal v r = (o', r1)" by fastforce
  have i: "lf_inv dr r1" using lf_inv_shift[OF assms(1) lf_steal_shift[OF s]] .
  have p: "lt_pc (lr_threads r1 t) = LSweep (v # vs)" "t < lr_num_threads r1"
  proof -
    have "lt_shift (lr_threads r t) (lr_threads r1 t)" "lr_num_threads r1 = lr_num_threads r"
      using lf_steal_shift[OF s] by (simp_all add: lr_shift_def)
    then show "lt_pc (lr_threads r1 t) = LSweep (v # vs)" "t < lr_num_threads r1"
      using assms(2) lf_inv_range[OF assms(1), of t] by (auto simp: lt_shift_def)
  qed
  show ?thesis
  proof (cases o')
    case None
    then show ?thesis unfolding lf_sweep_step_def lt_goto_def s
      by (simp, intro lf_inv_upd[OF i p(2)]) (use p in \<open>auto simp: lt_ok_def lf_quiet_def lf_pc_defs\<close>)
  next
    case (Some e)
    then show ?thesis unfolding lf_sweep_step_def s
      by (simp, intro lf_inv_upd[OF i p(2)]) (use p in \<open>auto simp: lt_ok_def lf_quiet_def lf_pc_defs\<close>)
  qed
qed

lemma lf_inv_goto:
  assumes "lf_inv dr r" "t < lr_num_threads r" "counted pc = counted (lt_pc (lr_threads r t))"
    "lt_ok (lr_request_death r) (lr_threads r t) \<Longrightarrow> lt_ok (lr_request_death r) ((lr_threads r t)\<lparr> lt_pc := pc \<rparr>)"
  shows "lf_inv dr (lt_goto t pc r)"
  unfolding lt_goto_def by (rule lf_inv_upd) (use assms in auto)

lemmas ok_defs = lt_ok_def lf_quiet_def lf_pre_def lf_pc_defs

lemma lf_inv_submit:
  assumes "lf_inv dr r" "lt_pc (lr_threads r t) = LGot e"
  shows "lf_inv dr (lf_submitEvents t evs r)"
proof -
  have t: "t < lr_num_threads r" using assms lf_inv_range by simp
  let ?th = "(lr_threads r t)\<lparr> lt_queue := lt_queue (lr_threads r t) @ evs \<rparr>"
  have "lf_inv dr (lt_upd t (\<lambda>_. ?th) r)" by (rule lf_inv_own[OF assms(1) t]) (use assms(2) in \<open>auto simp: ok_defs\<close>)
  then have "lf_inv dr (fold (pushLocal t) evs r)"
    by (subst lf_inv_core[of _ "lt_upd t (\<lambda>_. ?th) r"]) (auto simp: lr_core_def push_all lt_upd_def)
  then show ?thesis using assms(1) lf_inv_shift[OF _ wake_threads_shift] by (simp add: lf_submitEvents_def)
qed

text \<open>Events of the doors thread may reach a thread that sleeps: with doors nothing is claimed of deques.\<close>

lemma lf_inv_door_submit:
  assumes "lf_inv dr r" "lr_doors r"
  shows "lf_inv dr (lf_submitEvents t evs r)"
proof -
  have "counted_threads (fold (pushLocal t) evs r) = counted_threads r"
    by (auto simp: counted_threads_def push_all split: if_splits)
  then have "lf_inv dr (fold (pushLocal t) evs r)" using assms by (auto simp: lf_inv_def push_all)
  then show ?thesis using assms(1) lf_inv_shift[OF _ wake_threads_shift] by (simp add: lf_submitEvents_def)
qed

lemma lf_inv_decide:
  assumes i: "lf_inv dr r" and p: "lt_pc (lr_threads r t) = LDecide"
  shows "lf_inv dr (lf_decide t r)"
proof -
  have t: "t < lr_num_threads r" using lf_inv_range[OF i] p by simp
  have go: "lf_inv dr (lt_goto t LLast r)" by (rule lf_inv_goto[OF i t]) (use p in \<open>auto simp: ok_defs\<close>)
  show ?thesis
  proof (cases "lt_no_ev_iterations (lr_threads r t) > 100 \<and> lr_sleep_count r + 1 < int (lr_num_threads r)")
    case True
    let ?th = "(lr_threads r t)\<lparr> lt_sleeps := lt_sleeps (lr_threads r t) + 1, lt_pc := LPreWait \<rparr>"
    have "lf_inv dr (lt_upd t (\<lambda>_. ?th) (r\<lparr> lr_sleep_count := lr_sleep_count r + 1 \<rparr>))"
      by (rule lf_inv_count[OF i t]) (use True p in \<open>auto simp: ok_defs\<close>)
    then show ?thesis using True by (simp add: lf_decide_def incr_sleepers_def lt_upd_def)
  next
    case False
    then show ?thesis using go by (auto simp: lf_decide_def incr_sleepers_def)
  qed
qed

lemma lf_inv_woken:
  assumes i: "lf_inv dr r" and p: "lt_pc (lr_threads r t) = LWoken"
  shows "lf_inv dr (lf_woken t r)"
proof -
  have t: "t < lr_num_threads r" using lf_inv_range[OF i] p by simp
  let ?th = "(lr_threads r t)\<lparr> lt_asleep := False, lt_no_ev_iterations := 0, lt_pc := LTop \<rparr>"
  have "lf_inv dr (lt_upd t (\<lambda>_. ?th) (r\<lparr> lr_sleep_count := lr_sleep_count r + -1 \<rparr>))"
    by (rule lf_inv_count[OF i t]) (use p in \<open>auto simp: ok_defs\<close>)
  then show ?thesis by (simp add: lf_woken_def decr_sleepers_def lt_upd_def)
qed

lemma lf_inv_stay_awake:
  assumes "lf_inv dr r" "lt_pc (lr_threads r t) = LLast \<or> lt_pc (lr_threads r t) = LDoorWoken"
  shows "lf_inv dr (lf_stay_awake t r)"
  unfolding lf_stay_awake_def
  by (rule lf_inv_upd) (use assms lf_inv_range[OF assms(1), of t] in \<open>auto simp: ok_defs\<close>)

lemma lf_inv_last:
  assumes i: "lf_inv dr r" and p: "lt_pc (lr_threads r t) = LLast"
  shows "lf_inv dr (lf_last t r)"
proof (cases "lf_gives_up t r")
  case True
  have t: "t < lr_num_threads r" using lf_inv_range[OF i] p by simp
  let ?r = "lt_upd t (\<lambda>th. th\<lparr> lt_asleep := False \<rparr>) r"
  have "lf_inv dr ?r" by (rule lf_inv_upd[OF i t]) (use p in \<open>auto simp: ok_defs\<close>)
  then have "lf_inv dr (lf_soft_kill t ?r)" using lf_inv_shift lf_soft_kill_shift by blast
  moreover have "lr_request_death (lf_soft_kill t ?r)"
    using lf_die_shift[of "?r\<lparr> lr_request_death := True \<rparr>" 0] by (simp add: lf_soft_kill_def Let_def lr_shift_def)
  moreover have sh: "lt_shift (lr_threads ?r t) (lr_threads (lf_soft_kill t ?r) t)"
    using lf_soft_kill_shift[of ?r t] unfolding lr_shift_def by blast
  have num: "lr_num_threads (lf_soft_kill t ?r) = lr_num_threads r"
    using lf_soft_kill_shift[of ?r t] unfolding lr_shift_def by simp
  have "lt_pc (lr_threads (lf_soft_kill t ?r) t) = LLast" using p sh by (auto simp: lt_shift_def)
  ultimately show ?thesis using True t num
    by (simp add: lf_last_def) (rule lf_inv_leave, simp_all add: counted_def)
next
  case False
  show ?thesis
  proof (cases "lt_no_ev_iterations (lr_threads r t) > 200 \<and> all_asleep_except_me r")
    case True
    have "lf_inv dr (lt_goto t LDoorPre r)"
      by (rule lf_inv_goto[OF i]) (use p True lf_inv_range[OF i, of t] in \<open>auto simp: ok_defs\<close>)
    then show ?thesis using True False by (simp add: lf_last_def)
  next
    case f: False
    then have "lf_last t r = lf_stay_awake t r" using False unfolding lf_last_def by (simp only: if_False)
    then show ?thesis using lf_inv_stay_awake[OF i] p by simp
  qed
qed

section \<open>Steps that run the operations on events\<close>

lemma emore_lr: "eworld.more w1 = eworld.more w \<Longrightarrow> lr w1 = lr w"
  by (cases w; cases w1) simp

lemma lr_simps [simp]:
  "lr (set_node n nd w) = lr w" "lr (set_event e ev w) = lr w" "lr (set_ah e h w) = lr w"
  "lr (node_incr_instances n w) = lr w" "lr (set_magic mn w) = lr w"
  by (simp_all add: set_node_def set_event_def set_ah_def node_incr_instances_def set_magic_def)

lemmas lr_frames = event_execute_emore[THEN emore_lr] release_emore[THEN emore_lr] no_error_emore[THEN emore_lr]
  on_error_emore[THEN emore_lr] reacquire_emore[THEN emore_lr] push_initials_emore[THEN emore_lr] assign_emore[THEN emore_lr]
  turn_off_emore[THEN emore_lr]

text \<open>Reading a flow does not touch the runtime's threads.\<close>

definition lreader_ok :: "('k, 'd, 'z) lflow_reader \<Rightarrow> bool" where
  "lreader_ok reader \<longleftrightarrow> (\<forall>old w fl old' w1. reader old w = Inr (fl, old', w1) \<longrightarrow> lr w1 = lr w)"

lemma lf_load_flow_core:
  assumes "lf_load_flow uc reader t w = Inr w'" "lreader_ok reader"
  shows "\<exists>q. lr_core (lr w') = lr_core (lt_upd t (\<lambda>th. th\<lparr> lt_queue := q \<rparr>) (lr w)) \<and>
    (\<not> lr_running (lr w) \<longrightarrow> lr_core (lr w') = lr_core (lr w)) \<and> lr_active_flow (lr w') \<noteq> []"
proof -
  obtain fl old w1 fl1 w2 where rd: "reader (lr_flow (lr w)) w = Inr (fl, old, w1)"
    and as: "assignMagicNumbers fl (lr_upd (\<lambda>r. r\<lparr> lr_active_flow := (case old of None \<Rightarrow> lr_active_flow r
      | Some f \<Rightarrow> f # tl (lr_active_flow r)) \<rparr>) w1) = Inr (fl1, w2)"
    and rest: "bindE (if lr_running (lr w2)
            then bindE (push_initials_and_sources uc fl1 True ([], w2)) (\<lambda>(evs, w3). distribute_events t evs w3)
            else Inr w2) (\<lambda>w4.
     case lr_active_flow (lr w4) of
       [] \<Rightarrow> Inr (lr_upd (\<lambda>r. r\<lparr> lr_active_flow := [fl1] \<rparr>) w4)
     | f # fs \<Rightarrow>
         (case (if length (fl_sources f) > 0 then flow_turn_off_sources f w4 else (f, w4)) of (f1, w5) \<Rightarrow>
            Inr (lr_upd (\<lambda>r. r\<lparr> lr_active_flow := fl1 # f1 # fs \<rparr>) w5))) = Inr w'"
    using assms(1) unfolding lf_load_flow_def by (auto elim!: bindE_InrE)
  obtain w4 where w4: "(if lr_running (lr w2)
            then bindE (push_initials_and_sources uc fl1 True ([], w2)) (\<lambda>(evs, w3). distribute_events t evs w3)
            else Inr w2) = Inr w4"
    and last: "(case lr_active_flow (lr w4) of
       [] \<Rightarrow> Inr (lr_upd (\<lambda>r. r\<lparr> lr_active_flow := [fl1] \<rparr>) w4)
     | f # fs \<Rightarrow>
         (case (if length (fl_sources f) > 0 then flow_turn_off_sources f w4 else (f, w4)) of (f1, w5) \<Rightarrow>
            Inr (lr_upd (\<lambda>r. r\<lparr> lr_active_flow := fl1 # f1 # fs \<rparr>) w5))) = (Inr w' :: _ result)"
    by (rule bindE_InrE[OF rest]) (rule that, assumption+)
  have "lr w2 = lr (lr_upd (\<lambda>r. r\<lparr> lr_active_flow := (case old of None \<Rightarrow> lr_active_flow r | Some f \<Rightarrow> f # tl (lr_active_flow r)) \<rparr>) w1)"
    using assign_emore[THEN emore_lr, OF as] .
  then have 2: "lr_core (lr w2) = lr_core (lr w)" "lr_running (lr w2) = lr_running (lr w)"
    using rd assms(2) by (auto simp: lreader_ok_def lr_core_def)
  have 4: "\<exists>q. lr_core (lr w4) = lr_core (lt_upd t (\<lambda>th. th\<lparr> lt_queue := q \<rparr>) (lr w)) \<and>
    (\<not> lr_running (lr w) \<longrightarrow> lr_core (lr w4) = lr_core (lr w))"
  proof (cases "lr_running (lr w2)")
    case True
    then obtain evs w3 where p: "push_initials_and_sources uc fl1 True ([], w2) = Inr (evs, w3)"
      and d: "distribute_events t evs w3 = Inr w4"
      using w4 by (auto elim: bindE_InrE)
    have "lr w3 = lr w2" using push_initials_emore[THEN emore_lr, OF p] by simp
    then have "lr w4 = fold (pushLocal t) evs (lr w2)" using d by (auto simp: distribute_events_def assertE_eq_Inr)
    then show ?thesis using True 2 by (auto simp: lr_core_def push_all intro!: exI[of _ "lt_queue (lr_threads (lr w) t) @ evs"])
  next
    case False
    then show ?thesis using w4 2 by (auto simp: lr_core_def intro!: exI[of _ "lt_queue (lr_threads (lr w) t)"])
  qed
  have "lr_core (lr w') = lr_core (lr w4) \<and> lr_active_flow (lr w') \<noteq> []"
  proof (cases "lr_active_flow (lr w4)")
    case Nil
    then show ?thesis using last by (auto simp: lr_core_def)
  next
    case (Cons f fs)
    obtain f1 w5 where f: "(if length (fl_sources f) > 0 then flow_turn_off_sources f w4 else (f, w4)) = (f1, w5)" by fastforce
    have "lr w5 = lr w4" using f turn_off_emore[THEN emore_lr, of f w4] by (auto split: if_splits)
    then show ?thesis using last Cons f by (auto simp: lr_core_def)
  qed
  with 4 show ?thesis by auto
qed

lemma lf_inv_top:
  assumes tp: "lf_top uc reader start t w = Inr w'" and ok: "lreader_ok reader" and i: "lf_inv dr (lr w)"
    and p: "lt_pc (lr_threads (lr w) t) = LTop"
  shows "lf_inv dr (lr w')"
proof (cases "lt_request_stop (lr_threads (lr w) t) \<or> lr_request_death (lr w)")
  case True
  then have "lr w' = lf_leave t (lr w)" using tp by (auto simp: lf_top_def)
  then show ?thesis using True p lf_inv_leave[OF i lf_inv_range[OF i]] by (auto simp: counted_def)
next
  case False
  let ?w1 = "lr_upd (\<lambda>_. (lr w)\<lparr> lr_soft_load_flow := False \<rparr>) w"
  obtain w2 where w2: "(if lr_soft_load_flow (lr w) then lf_load_flow uc reader t ?w1 else Inr ?w1) = Inr w2"
    and w': "lr w' = lf_take start t (lr w2)"
    using tp False by (auto simp: lf_top_def caught_soft_load_flow_def Let_def elim!: bindE_InrE)
  obtain q where "lr_core (lr w2) = lr_core (lt_upd t (\<lambda>th. th\<lparr> lt_queue := q \<rparr>) (lr w))"
  proof (cases "lr_soft_load_flow (lr w)")
    case True
    then show ?thesis using lf_load_flow_core[OF _ ok, of uc t ?w1 w2] w2 that by (auto simp: lr_core_def lt_upd_def)
  next
    case False
    then show ?thesis using w2 that[of "lt_queue (lr_threads (lr w) t)"] by (auto simp: lr_core_def lt_upd_def)
  qed
  then show ?thesis unfolding w' using lf_inv_take[OF i p] by blast
qed

lemma lf_inv_execute:
  assumes e: "lf_execute uc t e w = Inr (rc, w1)" and i: "lf_inv dr (lr w)" and p: "lt_pc (lr_threads (lr w) t) = LGot e"
  shows "lf_inv dr (lf_executed t e rc (lr w1))"
proof -
  have t: "t < lr_num_threads (lr w)" using lf_inv_range[OF i] p by simp
  obtain w2 where x: "event_execute uc e w = Inr (rc, w2)"
    and w1: "w1 = lr_upd (\<lambda>r. lt_upd t (\<lambda>th. th\<lparr> lt_events_run := lt_events_run th + 1 \<rparr>) (set_ev_state e 5 r)) w2"
    using e by (auto simp: lf_execute_def assertE_eq_Inr bindE_eq_Inr)
  let ?th = "(lr_threads (lr w) t)\<lparr> lt_events_run := lt_events_run (lr_threads (lr w) t) + 1, lt_no_ev_iterations := 0, lt_pc := LRun e rc \<rparr>"
  have "lf_inv dr (lt_upd t (\<lambda>_. ?th) (lr w))" by (rule lf_inv_own[OF i t]) (use p in \<open>auto simp: ok_defs\<close>)
  then show ?thesis using event_execute_emore[THEN emore_lr, OF x]
    by (subst lf_inv_core[of _ "lt_upd t (\<lambda>_. ?th) (lr w)"]) (auto simp: lr_core_def w1 lf_executed_def lt_upd_def set_ev_state_def)
qed

lemma lf_finish_lr:
  assumes "lf_finish uc t e rc w = Inr (n, w')"
  shows "\<exists>evs w3. n = length evs \<and> lr w3 = lr w \<and> w' = lf_push_successors t evs w3"
proof -
  obtain succs w1 where s: "(if rc \<noteq> 0 then successors_on_error uc e rc ([], w)
            else successors_on_no_error uc e ([], w)) = Inr (succs, w1)"
    and rest: "bindE (ah_release e w1) (\<lambda>(rels, w2). bindE (reacquire uc rels (succs, w2)) (\<lambda>(evs, w3).
     Inr (length evs, lf_push_successors t evs w3))) = Inr (n, w')"
    using assms unfolding lf_finish_def by (auto elim: bindE_InrE simp del: if_split)
  obtain rels w2 evs w3 where r: "ah_release e w1 = Inr (rels, w2)" "reacquire uc rels (succs, w2) = Inr (evs, w3)"
    "n = length evs" "w' = lf_push_successors t evs w3"
    using rest by (auto elim!: bindE_InrE)
  have "lr w1 = lr w"
    using s on_error_emore[THEN emore_lr, of uc e rc "([], w)"] no_error_emore[THEN emore_lr, of uc e "([], w)"]
    by (cases "rc = 0") auto
  moreover have "lr w3 = lr w1" using release_emore[THEN emore_lr, OF r(1)] reacquire_emore[THEN emore_lr, OF r(2)] by simp
  ultimately show ?thesis using r by auto
qed

lemma lf_inv_finish:
  assumes f: "lf_finish uc t e rc w = Inr (n, w')" and i: "lf_inv dr (lr w)" and p: "lt_pc (lr_threads (lr w) t) = LRun e rc"
  shows "lf_inv dr (lt_goto t (LWake n) (lr w'))"
proof -
  have t: "t < lr_num_threads (lr w)" using lf_inv_range[OF i] p by simp
  obtain evs w3 where w: "lr w3 = lr w" "w' = lf_push_successors t evs w3" using lf_finish_lr[OF f] by blast
  let ?a = "queue_control (lt_queue_allowance (lr_threads (lr w) t)) (length (lt_queue (lr_threads (lr w) t)))"
  let ?th = "(lr_threads (lr w) t)\<lparr> lt_queue := lt_queue (lr_threads (lr w) t) @ pushing_order ?a (lf_categorize w3) evs,
    lt_queue_allowance := ?a, lt_pc := LWake n \<rparr>"
  have "lf_inv dr (lt_upd t (\<lambda>_. ?th) (lr w))" by (rule lf_inv_own[OF i t]) (use p in \<open>auto simp: ok_defs\<close>)
  then show ?thesis
    by (subst lf_inv_core[of _ "lt_upd t (\<lambda>_. ?th) (lr w)"])
      (auto simp: lr_core_def w lf_push_successors_def Let_def push_all lt_goto_def lt_upd_def)
qed

lemma lf_inv_wake_others:
  assumes "lf_inv dr r" "lt_pc (lr_threads r t) = LWake n"
  shows "lf_inv dr (lf_wake_others t n r)"
proof -
  have i: "lf_inv dr (wake_threads (int n) r)" using lf_inv_shift[OF assms(1) wake_threads_shift] .
  have "lt_shift (lr_threads r t) (lr_threads (wake_threads (int n) r) t)"
    using wake_threads_shift[of r "int n"] unfolding lr_shift_def by blast
  then have p: "lt_pc (lr_threads (wake_threads (int n) r) t) = LWake n" using assms(2) by (auto simp: lt_shift_def)
  show ?thesis unfolding lf_wake_others_def
    by (rule lf_inv_goto[OF i]) (use p lf_inv_range[OF i, of t] in \<open>auto simp: ok_defs\<close>)
qed

text \<open>Moves of one thread between places of the same kind.\<close>

lemma lf_inv_move:
  assumes "lf_inv dr r"
    and "lt_pc (lr_threads r t) = LSweep (v # vs) \<and> pc = LSweep vs \<or> lt_pc (lr_threads r t) = LPreWait \<and> pc = LWaiting \<or>
      lt_pc (lr_threads r t) = LWaiting \<and> pc = LWoken \<or> lt_pc (lr_threads r t) = LDoorPre \<and> pc = LDoorWaiting \<or>
      lt_pc (lr_threads r t) = LDoorWaiting \<and> pc = LDoorWoken \<or>
      departed (lt_pc (lr_threads r t)) \<and> departed pc \<and> lt_pc (lr_threads r t) \<noteq> LStart"
  shows "lf_inv dr (lt_goto t pc r)"
  by (rule lf_inv_goto) (use assms lf_inv_range[OF assms(1), of t] in \<open>auto simp: ok_defs\<close>)

lemma lf_inv_own_moves:
  assumes "lf_inv dr r"
  shows "lt_pc (lr_threads r t) = LSweep [] \<Longrightarrow> lf_inv dr (lf_no_event t r)"
    and "lt_pc (lr_threads r t) = LPark \<Longrightarrow> lf_inv dr (lf_park t r)"
  unfolding lf_no_event_def lf_park_def
  by (rule lf_inv_upd; use assms lf_inv_range[OF assms, of t] in \<open>auto simp: ok_defs\<close>)+

theorem lf_inv_step:
  assumes "lf_step uc reader w w'" "lreader_ok reader" "lf_inv dr (lr w)"
  shows "lf_inv dr (lr w')"
  using assms(1)
proof (cases rule: lf_step.cases)
  case (start t)
  then show ?thesis using lf_inv_start[OF assms(3)] by simp
next
  case (top t start)
  then show ?thesis using lf_inv_top[OF _ assms(2,3)] by simp
next
  case (sweep t v vs)
  then show ?thesis using lf_inv_sweep_step[OF assms(3)] by simp
next
  case (exec t e rc w1)
  then show ?thesis using lf_inv_execute[OF _ assms(3)] by simp
next
  case (finish t e rc n w1)
  then show ?thesis using lf_inv_finish[OF _ assms(3)] by simp
next
  case (teardown i)
  have i: "lf_inv dr (lf_die i (lr w))" using lf_inv_shift[OF assms(3) lf_die_shift] .
  have "lt_shift (lr_threads (lr w) 0) (lr_threads (lf_die i (lr w)) 0)"
    using lf_die_shift[of "lr w" i] unfolding lr_shift_def by blast
  then have "lt_pc (lr_threads (lf_die i (lr w)) 0) = LTeardown i False" using teardown(2) by (auto simp: lt_shift_def)
  then have "lf_inv dr (lt_goto 0 (LTeardown i True) (lf_die i (lr w)))" by (intro lf_inv_move[OF i]) (auto simp: departed_def)
  then show ?thesis using teardown(1) by simp
next
  case (joined i)
  have "lf_inv dr (lt_goto 0 (LTeardown (i + 1) False) (lr w))"
    by (rule lf_inv_move[OF assms(3)]) (use joined in \<open>auto simp: departed_def\<close>)
  then show ?thesis using joined by simp
next
  case ended
  have "lf_inv dr ((lr w)\<lparr> lr_running := False \<rparr>)" using assms(3) by (simp add: lf_inv_def counted_threads_def)
  then have "lf_inv dr (lt_goto 0 LExited ((lr w)\<lparr> lr_running := False \<rparr>))"
    by (rule lf_inv_move) (use ended in \<open>auto simp: departed_def\<close>)
  then show ?thesis using ended by simp
next
  case load
  then show ?thesis using assms(3) by (simp add: lf_soft_load_flow_def lf_inv_def counted_threads_def)
qed (use assms(3) in \<open>simp_all add: lf_inv_move[OF assms(3)] lf_inv_own_moves[OF assms(3)] lf_inv_submit[OF assms(3)] lf_inv_door_submit
      lf_inv_wake_others[OF assms(3)] lf_inv_decide[OF assms(3)] lf_inv_last[OF assms(3)] lf_inv_woken[OF assms(3)] lf_inv_stay_awake[OF assms(3)]
      lf_inv_shift[OF assms(3) lf_soft_kill_shift] departed_def\<close>)

section \<open>Runs\<close>

lemma create_threads_bound: "create_threads fails ts b cs \<subseteq> cs \<union> set ts"
  by (induction fails ts b cs rule: create_threads.induct) auto

lemma lf_construct_inv:
  assumes "lf_construct uc reader pool w = Inr w'" "lreader_ok reader" "lr w = lr_new"
  shows "lr_num_threads (lr w') > 0 \<and> (\<forall>t. lr_threads (lr w') t = lthread_new) \<and> lr_created (lr w') = {} \<and>
    lr_sleep_count (lr w') = 0"
proof -
  obtain w1 where l: "lf_load_flow uc reader 0 w = Inr w1"
    and cs: "(case lr_flow (lr w1) of None \<Rightarrow> Inl NullDeref
      | Some fl \<Rightarrow> Inr (lr_upd (\<lambda>r. r\<lparr> lr_num_threads := lf_num_threads pool (length (fl_sources fl)),
           lr_threads := (\<lambda>_. lthread_new) \<rparr>) w1)) = Inr w'"
    by (rule bindE_InrE[OF assms(1)[unfolded lf_construct_def]])
  from cs obtain fl where fl: "lr_flow (lr w1) = Some fl" by (cases "lr_flow (lr w1)") auto
  have w': "w' = lr_upd (\<lambda>r. r\<lparr> lr_num_threads := lf_num_threads pool (length (fl_sources fl)), lr_threads := (\<lambda>_. lthread_new) \<rparr>) w1"
    using cs by (simp add: fl)
  have c: "lr_core (lr w1) = lr_core lr_new" using lf_load_flow_core[OF l assms(2)] assms(3) by (auto simp: lr_new_def)
  have "lf_num_threads pool (length (fl_sources fl)) > 0" by (auto simp: lf_num_threads_def)
  then show ?thesis using c by (simp add: w' lr_core_def lr_new_def)
qed

lemma lf_start_inv:
  assumes "lf_start uc fails doors w = Inr w'" "lr_num_threads (lr w) > 0"
    "\<forall>t. lr_threads (lr w) t = lthread_new" "lr_sleep_count (lr w) = 0"
  shows "lf_inv doors (lr w')"
proof -
  obtain fl evs w1 w2 where p: "push_initials_and_sources uc fl False ([], lr_upd (\<lambda>r. r\<lparr> lr_running := True \<rparr>) w) = Inr (evs, w1)"
    and d: "distribute_events 0 evs w1 = Inr w2"
    and w': "w' = lr_upd (\<lambda>r. r\<lparr> lr_doors := doors,
          lr_created := insert 0 (create_threads fails [1..<lr_num_threads r] False {}) \<rparr>) w2"
    using assms(1) by (auto simp: lf_start_def Let_def elim!: bindE_InrE split: option.splits)
  have w1: "lr w1 = (lr w)\<lparr> lr_running := True \<rparr>" using push_initials_emore[THEN emore_lr, OF p] by simp
  have w2: "lr w2 = fold (pushLocal 0) evs (lr w1)" using d by (auto simp: distribute_events_def assertE_eq_Inr)
  have th: "lt_pc (lr_threads (lr w') t) = LStart" "lt_ok death (lr_threads (lr w') t)" for t death
    using assms(3) by (simp_all add: w' w2 w1 push_all lthread_new_def lt_ok_def lf_quiet_def departed_def)
  have f: "lr_num_threads (lr w') = lr_num_threads (lr w)" "lr_sleep_count (lr w') = 0" "lr_doors (lr w') = doors"
    using assms(4) by (simp_all add: w' w2 w1 push_all)
  have "counted_threads (lr w') = {}" by (simp add: counted_threads_def th counted_def)
  moreover have "lr_created (lr w') \<subseteq> {..<lr_num_threads (lr w')}"
    using create_threads_bound[of fails "[1..<lr_num_threads (lr w)]" False "{}"] assms(2)
    by (fastforce simp: w' w2 w1 push_all)
  ultimately show ?thesis using assms(2) by (simp add: lf_inv_def f th)
qed

lemma lf_reach_inv:
  assumes "lf_reach uc reader pool fails doors w" "lreader_ok reader"
  shows "lf_inv doors (lr w)"
proof -
  obtain w0 w1 w2 where w0: "lr w0 = lr_new" and c: "lf_construct uc reader pool w0 = Inr w1"
    and s: "lf_start uc fails doors w1 = Inr w2" and r: "(lf_step uc reader)\<^sup>*\<^sup>* w2 w"
    using assms(1) unfolding lf_reach_def by blast
  have "lf_inv doors (lr w2)" using lf_construct_inv[OF c assms(2) w0] lf_start_inv[OF s] by blast
  with r show ?thesis by (induction rule: rtranclp_induct) (auto intro: lf_inv_step[OF _ assms(2)])
qed

lemma parked_empty:
  assumes "lf_inv False r" "parked (lt_pc (lr_threads r t)) \<or> lt_pc (lr_threads r t) = LLast \<and> lt_no_ev_iterations (lr_threads r t) \<ge> 2"
  shows "lt_queue (lr_threads r t) = []"
proof -
  have "lf_quiet (lr_threads r t)" using assms(1) by (simp add: lf_inv_def lt_ok_def)
  then show ?thesis using assms(2) by (auto simp: lf_quiet_def lf_pc_defs)
qed


text \<open>C32: The last thread gives up (and ends the runtime) only when there is no event left: at that moment
  every deque is empty and no thread has an event in its hands.\<close>

theorem runtime_gives_up_without_events:
  assumes "lf_reach uc reader pool fails False w" "lreader_ok reader"
    and "lt_pc (lr_threads (lr w) t) = LLast" "lf_gives_up t (lr w)" "u < lr_num_threads (lr w)"
  shows "lt_queue (lr_threads (lr w) u) = [] \<and> \<not> has_event (lt_pc (lr_threads (lr w) u))"
proof -
  note i = lf_reach_inv[OF assms(1,2)]
  have t: "t < lr_num_threads (lr w)" using lf_inv_range[OF i] assms(3) by simp
  show ?thesis
  proof (cases "u = t")
    case True
    then show ?thesis using assms(3,4) parked_empty[OF i, of t] by (simp add: lf_gives_up_def has_event_def)
  next
    case False
    have "counted_threads (lr w) \<subseteq> {..<lr_num_threads (lr w)} - {t}"
      using assms(3) by (auto simp: counted_threads_def counted_def)
    moreover have "card (counted_threads (lr w)) = card ({..<lr_num_threads (lr w)} - {t})"
      using i assms(4) t by (auto simp: lf_inv_def lf_gives_up_def all_asleep_except_me_def)
    ultimately have "counted_threads (lr w) = {..<lr_num_threads (lr w)} - {t}" by (simp add: card_subset_eq)
    then have "counted (lt_pc (lr_threads (lr w) u))" using assms(5) False by (auto simp: counted_threads_def)
    then show ?thesis using parked_empty[OF i, of u] by (auto simp: lf_pc_defs)
  qed
qed

section \<open>A runtime of one thread\<close>

text \<open>It has nothing to do: after \<open>k\<close> iterations of its loop it is back at the head.\<close>

definition idle :: "bool \<Rightarrow> int \<Rightarrow> int \<Rightarrow> lrtstate \<Rightarrow> bool" where
  "idle doors k al r \<longleftrightarrow> lr_num_threads r = 1 \<and> lr_sleep_count r = 0 \<and> lr_doors r = doors \<and> \<not> lr_request_death r \<and>
     \<not> lr_soft_load_flow r \<and> (\<exists>a s. lr_threads r 0 = \<lparr> lt_running = True, lt_request_stop = False, lt_asleep = False, lt_queue = [],
     lt_queue_allowance = al, lt_no_ev_iterations = k, lt_events_run = 0, lt_events_stolen = 0,
     lt_attempts_to_steal = a, lt_sleeps = s, lt_pc = LTop \<rparr>)"

definition awake_view :: "lrtstate \<Rightarrow> lrtstate" where
  "awake_view r = lt_upd 0 (\<lambda>th. th\<lparr> lt_asleep := False, lt_pc := LTop \<rparr>) r"

lemma idle_viewD:
  assumes "idle doors k al (awake_view r)"
  shows "lt_no_ev_iterations (lr_threads r 0) = k" "lt_queue (lr_threads r 0) = []" "lr_num_threads r = 1"
    "lr_sleep_count r = 0" "lr_doors r = doors"
proof -
  from assms obtain a s where th: "(lr_threads r 0)\<lparr> lt_asleep := False, lt_pc := LTop \<rparr> = \<lparr> lt_running = True, lt_request_stop = False,
     lt_asleep = False, lt_queue = [], lt_queue_allowance = al, lt_no_ev_iterations = k, lt_events_run = 0, lt_events_stolen = 0,
     lt_attempts_to_steal = a, lt_sleeps = s, lt_pc = LTop \<rparr>"
    by (auto simp: idle_def awake_view_def)
  show "lt_no_ev_iterations (lr_threads r 0) = k" "lt_queue (lr_threads r 0) = []"
    using arg_cong[OF th, of lt_no_ev_iterations] arg_cong[OF th, of lt_queue] by simp_all
  show "lr_num_threads r = 1" "lr_sleep_count r = 0" "lr_doors r = doors"
    using assms by (simp_all add: idle_def awake_view_def)
qed

text \<open>From the head of the loop to the last decision.\<close>

lemma idle_to_last:
  assumes "idle doors k al (lr w)"
  shows "\<exists>w'. (lf_step uc reader)\<^sup>*\<^sup>* w w' \<and> lt_pc (lr_threads (lr w') 0) = LLast \<and>
    idle doors (k + 1) (if al mod 100 = 0 then al - 1 else al) (awake_view (lr w'))"
proof -
  let ?r1 = "lf_take 0 0 ((lr w)\<lparr> lr_soft_load_flow := False \<rparr>)"
  let ?r2 = "lf_no_event 0 ?r1" let ?r3 = "lf_park 0 ?r2" let ?r4 = "lf_decide 0 ?r3"
  have e: "lr_upd f (lr_upd g w) = lr_upd (\<lambda>r. f (g r)) w" for f g by (simp add: lr_upd_def)
  have 1: "lf_step uc reader w (lr_upd (\<lambda>_. ?r1) w)"
    by (rule lf_step.top[of w 0 0]) (use assms in \<open>auto simp: idle_def lf_top_def caught_soft_load_flow_def Let_def lr_upd_def\<close>)
  have p1: "lt_pc (lr_threads ?r1 0) = LSweep []"
    using assms(1) by (auto simp: idle_def lf_take_def popLocal_def sweep_order_def)
  have 2: "lf_step uc reader (lr_upd (\<lambda>_. ?r1) w) (lr_upd (\<lambda>_. ?r2) w)"
    using lf_step.sweep_none[of "lr_upd (\<lambda>_. ?r1) w" 0] p1(1) by (simp add: e)
  have 3: "lf_step uc reader (lr_upd (\<lambda>_. ?r2) w) (lr_upd (\<lambda>_. ?r3) w)"
    using lf_step.park[of "lr_upd (\<lambda>_. ?r2) w" 0] by (simp add: e lf_no_event_def)
  have 4: "lf_step uc reader (lr_upd (\<lambda>_. ?r3) w) (lr_upd (\<lambda>_. ?r4) w)"
    using lf_step.decide[of "lr_upd (\<lambda>_. ?r3) w" 0] by (simp add: e lf_park_def)
  have "(lf_step uc reader)\<^sup>*\<^sup>* w (lr_upd (\<lambda>_. ?r4) w)"
    using 1 2 3 4 by (meson r_into_rtranclp rtranclp_trans)
  moreover have "lt_pc (lr_threads ?r4 0) = LLast \<and> idle doors (k + 1) (if al mod 100 = 0 then al - 1 else al) (awake_view ?r4)"
    using assms(1) by (auto simp: idle_def awake_view_def lf_take_def popLocal_def sweep_order_def lf_no_event_def lf_park_def lf_decide_def
        incr_sleepers_def lt_goto_def)
  ultimately show ?thesis by (intro exI[of _ "lr_upd (\<lambda>_. ?r4) w"]) simp
qed

lemma idle_iteration:
  assumes "idle doors k al (lr w)" "k < 200"
  shows "\<exists>w'. (lf_step uc reader)\<^sup>*\<^sup>* w w' \<and> idle doors (k + 1) (if al mod 100 = 0 then al - 1 else al) (lr w')"
proof -
  obtain w1 where r: "(lf_step uc reader)\<^sup>*\<^sup>* w w1" and p: "lt_pc (lr_threads (lr w1) 0) = LLast"
    and i: "idle doors (k + 1) (if al mod 100 = 0 then al - 1 else al) (awake_view (lr w1))"
    using idle_to_last[OF assms(1)] by blast
  have "lf_last 0 (lr w1) = awake_view (lr w1)"
    using idle_viewD(1)[OF i] assms(2) by (simp add: lf_last_def lf_gives_up_def awake_view_def lf_stay_awake_def)
  then have "lf_step uc reader w1 (lr_upd (\<lambda>_. awake_view (lr w1)) w1)"
    using lf_step.last[OF p, of uc reader] by (simp add: lr_upd_def)
  then show ?thesis using r i by (intro exI[of _ "lr_upd (\<lambda>_. awake_view (lr w1)) w1"]) auto
qed

lemma idle_iterations:
  assumes "idle doors 1 (-1) (lr w)" "n \<le> 199"
  shows "\<exists>w'. (lf_step uc reader)\<^sup>*\<^sup>* w w' \<and> idle doors (int n + 1) (-1) (lr w')"
  using assms(2)
proof (induction n)
  case 0
  then show ?case using assms(1) by auto
next
  case (Suc n)
  then obtain w1 where "(lf_step uc reader)\<^sup>*\<^sup>* w w1" "idle doors (int n + 1) (-1) (lr w1)" by auto
  moreover from this(2) obtain w2 where "(lf_step uc reader)\<^sup>*\<^sup>* w1 w2" "idle doors (int (Suc n) + 1) (-1) (lr w2)"
    using idle_iteration[of doors "int n + 1" "-1" w1 uc reader] Suc.prems by (auto simp: algebra_simps)
  ultimately show ?case by (meson rtranclp_trans)
qed

definition ex_lreader :: "(nat, nat, unit) lflow_reader" where
  "ex_lreader old w = Inr (flow_new ''e'', old, w)"

lemma ex_lreader_ok: "lreader_ok ex_lreader"
  by (simp add: lreader_ok_def ex_lreader_def)

definition ex_lworld :: "(nat, nat) lworld" where
  "ex_lworld = \<lparr> gw_atoms = \<lambda>_. None, gw_guards = \<lambda>_. \<lparr> g_magic = 0, g_map = GTrivial 0, g_is_gc = False \<rparr>,
     gw_next = 0, w_ah = \<lambda>_. ah_new False, fw_nodes = ex_enode, fw_gname = \<lambda>_. [], fw_last_id = 0,
     ew_events = \<lambda>_. None, ew_next = 0, lr = lr_new \<rparr>"

text \<open>The run up to the last decision of the only thread, with no event seen for 201 iterations.\<close>

lemma ex_idle_lrun:
  "\<exists>w. lf_reach ex_uc ex_lreader 1 (\<lambda>_. False) doors w \<and> lt_pc (lr_threads (lr w) 0) = LLast \<and> idle doors 201 (-1) (awake_view (lr w))"
proof -
  define fl where "fl = flow_new ''e''"
  define w1 where "w1 = lr_upd (\<lambda>r. r\<lparr> lr_active_flow := [fl], lr_num_threads := 1 \<rparr>) ex_lworld"
  have as: "assignMagicNumbers fl w = Inr (fl, set_magic (\<lambda>g. g_magic (gw_guards w g)) w)" for w :: "(nat, nat) lworld"
    by (rule assign_no_guards) (simp_all add: fl_def flow_new_def)
  have "set_magic (\<lambda>g. g_magic (gw_guards ex_lworld g)) ex_lworld = ex_lworld" by (simp add: set_magic_def ex_lworld_def)
  then have l: "lf_load_flow ex_uc ex_lreader 0 ex_lworld = Inr (lr_upd (\<lambda>r. r\<lparr> lr_active_flow := [fl] \<rparr>) ex_lworld)"
    using as by (simp add: lf_load_flow_def ex_lreader_def fl_def[symmetric] lr_flow_def lr_upd_def ex_lworld_def lr_new_def set_magic_def)
  have c: "lf_construct ex_uc ex_lreader 1 ex_lworld = Inr w1"
    using l by (simp add: lf_construct_def lr_flow_def lf_num_threads_def fl_def flow_new_def w1_def lr_upd_def ex_lworld_def lr_new_def)
  define w2 where "w2 = lr_upd (\<lambda>r. r\<lparr> lr_running := True, lr_doors := doors, lr_created := {0} \<rparr>) w1"
  have "push_initials_and_sources ex_uc fl False ([], w) = Inr ([], w)" for w :: "(nat, nat) lworld"
    by (simp add: push_initials_and_sources_def fl_def flow_new_def)
  then have st: "lf_start ex_uc (\<lambda>_. False) doors w1 = Inr w2"
    by (simp add: lf_start_def w1_def w2_def lr_flow_def distribute_events_def assertE_def lr_upd_def ex_lworld_def)
  define w3 where "w3 = lr_upd (lt_upd 0 (\<lambda>th. th\<lparr> lt_running := True, lt_no_ev_iterations := 0, lt_pc := LTop \<rparr>)) w2"
  have s3: "lf_step ex_uc ex_lreader w2 w3" unfolding w3_def
    by (rule lf_step.start) (simp_all add: w2_def w1_def ex_lworld_def lr_new_def lthread_new_def)
  have "idle doors 0 0 (lr w3)"
    by (simp add: idle_def w3_def w2_def w1_def ex_lworld_def lr_new_def lthread_new_def)
  then obtain w4 where s4: "(lf_step ex_uc ex_lreader)\<^sup>*\<^sup>* w3 w4" and i4: "idle doors 1 (-1) (lr w4)"
    using idle_iteration[of doors 0 0 w3] by fastforce
  obtain w5 where s5: "(lf_step ex_uc ex_lreader)\<^sup>*\<^sup>* w4 w5" and i5: "idle doors 200 (-1) (lr w5)"
    using idle_iterations[OF i4, of 199] by fastforce
  obtain w6 where s6: "(lf_step ex_uc ex_lreader)\<^sup>*\<^sup>* w5 w6" and p: "lt_pc (lr_threads (lr w6) 0) = LLast"
    and i6: "idle doors 201 (-1) (awake_view (lr w6))"
    using idle_to_last[OF i5] by fastforce
  have "(lf_step ex_uc ex_lreader)\<^sup>*\<^sup>* w2 w6" using s3 s4 s5 s6 by (meson converse_rtranclp_into_rtranclp rtranclp_trans)
  moreover have "lr ex_lworld = lr_new" by (simp add: ex_lworld_def)
  ultimately have "lf_reach ex_uc ex_lreader 1 (\<lambda>_. False) doors w6" unfolding lf_reach_def using c st by blast
  with p i6 show ?thesis by blast
qed


lemma runtime_gives_up_without_events_witness:
  "\<exists>w. lf_reach ex_uc ex_lreader 1 (\<lambda>_. False) False w \<and> lf_gives_up 0 (lr w) \<and> lt_queue (lr_threads (lr w) 0) = []"
proof -
  obtain w where w: "lf_reach ex_uc ex_lreader 1 (\<lambda>_. False) False w" "lt_pc (lr_threads (lr w) 0) = LLast"
    "idle False 201 (-1) (awake_view (lr w))"
    using ex_idle_lrun by blast
  have "lf_gives_up 0 (lr w)" "0 < lr_num_threads (lr w)"
    using idle_viewD[OF w(3)] by (simp_all add: lf_gives_up_def all_asleep_except_me_def)
  with runtime_gives_up_without_events[OF w(1) ex_lreader_ok w(2)] w(1) show ?thesis by blast
qed

text \<open>With a doors thread the last thread waits without counting itself asleep.  In a runtime of one
  thread nobody is counted then, so when the doors thread submits an event (to thread 0, whose index is
  also its own) \<open>wake_threads\<close> returns at once: the event lies in the deque while the only thread waits.\<close>

theorem door_event_stranded:
  "\<exists>w w'. lf_reach ex_uc ex_lreader 1 (\<lambda>_. False) True w \<and> lf_step ex_uc ex_lreader w w' \<and>
     w' = lr_upd (lf_submitEvents 0 [7]) w \<and> lr_num_threads (lr w') = 1 \<and>
     lt_pc (lr_threads (lr w') 0) = LDoorWaiting \<and> lt_queue (lr_threads (lr w') 0) = [7]"
proof -
  obtain w where w: "lf_reach ex_uc ex_lreader 1 (\<lambda>_. False) True w" "lt_pc (lr_threads (lr w) 0) = LLast"
    "idle True 201 (-1) (awake_view (lr w))"
    using ex_idle_lrun by blast
  define w1 where "w1 = lr_upd (lt_goto 0 LDoorPre) w"
  define w2 where "w2 = lr_upd (lt_goto 0 LDoorWaiting) w1"
  have "lf_last 0 (lr w) = lt_goto 0 LDoorPre (lr w)"
    using idle_viewD[OF w(3)] by (simp add: lf_last_def lf_gives_up_def all_asleep_except_me_def)
  then have 1: "lf_step ex_uc ex_lreader w w1" using lf_step.last[OF w(2)] by (metis lr_upd_def w1_def)
  have 2: "lf_step ex_uc ex_lreader w1 w2" unfolding w2_def by (rule lf_step.door_wait) (simp add: w1_def lt_goto_def)
  have r: "lf_reach ex_uc ex_lreader 1 (\<lambda>_. False) True w2"
    using w(1) 1 2 unfolding lf_reach_def by (meson rtranclp.rtrancl_into_rtrancl)
  have f: "lr_doors (lr w2)" "lr_num_threads (lr w2) = 1" "lr_sleep_count (lr w2) = 0" "lt_queue (lr_threads (lr w2) 0) = []"
    "lt_pc (lr_threads (lr w2) 0) = LDoorWaiting"
    using idle_viewD[OF w(3)] by (simp_all add: w2_def w1_def lt_goto_def)
  have "lf_step ex_uc ex_lreader w2 (lr_upd (lf_submitEvents 0 [7]) w2)" by (rule lf_step.door_submit) (rule f)
  moreover have "lf_submitEvents 0 [7] (lr w2) = pushLocal 0 7 (lr w2)"
    using f by (simp add: lf_submitEvents_def wake_threads_def pushLocal_def)
  ultimately show ?thesis using r f by (intro exI[of _ w2] exI[of _ "lr_upd (lf_submitEvents 0 [7]) w2"]) (simp add: pushLocal_def)
qed

end
