(* ===== verification/GrowableArray.thy ===== *)
theory GrowableArray
  imports Prelude
begin

text \<open>
  runtime/lockfree/atomic/OFluxGrowableCircularArray.h: a circular array that grows by putting a bigger
  one in front, whose cells are filled from the old one when they are used, and the queue on top of it.
  The operations are those of one thread: a compare and swap fails only when the cell holds something
  else.  Indexes are unbounded: the code counts in 64 bits (32 in the pool), sizes are powers of two
  that divide these ranges.
\<close>

section \<open>The arrays\<close>

text \<open>A cell holds NULL, the sentinel for a cell that is not initialised yet, or an element; \<open>ce_at\<close> is the
  index the element was put under, -1 for none.\<close>

datatype 'a cell = CNull | CUninit | CPtr 'a

record 'a centry =
  ce_ptr :: "'a cell"
  ce_at :: int

record 'a cimpl =
  ci_log_size :: nat
  ci_data :: "nat \<Rightarrow> 'a centry"

definition ci_size :: "'a cimpl \<Rightarrow> nat" where
  "ci_size c = 2 ^ ci_log_size c"

definition default_log_size :: nat where
  "default_log_size = 4"

text \<open>A chain of arrays: the newest first, each followed by the one it replaced (\<open>_old\<close>).\<close>

type_synonym 'a garray = "'a cimpl list"

definition cimpl_new :: "'a cimpl" where
  "cimpl_new = \<lparr> ci_log_size = default_log_size, ci_data = \<lambda>_. \<lparr> ce_ptr = CNull, ce_at = -1 \<rparr> \<rparr>"

definition cimpl_over :: "'a cimpl \<Rightarrow> 'a cimpl" where
  "cimpl_over old = \<lparr> ci_log_size = ci_log_size old + 1, ci_data = \<lambda>_. \<lparr> ce_ptr = CUninit, ce_at = -1 \<rparr> \<rparr>"

definition ci_entry :: "'a cimpl \<Rightarrow> nat \<Rightarrow> 'a centry" where
  "ci_entry c i = ci_data c (i mod ci_size c)"

definition ci_set :: "'a cimpl \<Rightarrow> nat \<Rightarrow> 'a centry \<Rightarrow> 'a cimpl" where
  "ci_set c i e = c\<lparr> ci_data := (ci_data c)(i mod ci_size c := e) \<rparr>"

text \<open>\<open>get\<close> without update: the first array whose cell is initialised answers.\<close>

fun ga_peek :: "'a garray \<Rightarrow> nat \<Rightarrow> 'a centry result" where
  "ga_peek [] i = Inl AssertFailed"
| "ga_peek (c # cs) i = (if ce_ptr (ci_entry c i) = CUninit then ga_peek cs i else Inr (ci_entry c i))"

text \<open>\<open>get\<close> with update initialises the cell of the newest array: with the old element if it is the one asked
  for, with NULL otherwise.\<close>

definition ga_get :: "'a garray \<Rightarrow> nat \<Rightarrow> ('a centry \<times> 'a garray) result" where
  "ga_get cs i = (case cs of [] \<Rightarrow> Inl NullDeref | c # olds \<Rightarrow>
     let r = ci_entry c i in
     if ce_ptr r = CUninit
     then bindE (ga_peek olds i) (\<lambda>rold.
       let r1 = (if ce_at rold = int i then r\<lparr> ce_ptr := ce_ptr rold, ce_at := int i \<rparr> else r\<lparr> ce_ptr := CNull \<rparr>)
       in Inr (r1, ci_set c i r1 # olds))
     else Inr (r, cs))"

text \<open>Both compare and swap operations write the index first and then try the pointer.\<close>

fun cas_from_null :: "'a garray \<Rightarrow> nat \<Rightarrow> 'a \<Rightarrow> (bool \<times> 'a garray) result" where
  "cas_from_null [] i n = Inl AssertFailed"
| "cas_from_null (c # cs) i n =
     (if ce_ptr (ci_entry c i) = CUninit then bindE (cas_from_null cs i n) (\<lambda>(res, cs1). Inr (res, c # cs1))
      else if ce_ptr (ci_entry c i) = CNull then Inr (True, ci_set c i \<lparr> ce_ptr = CPtr n, ce_at = int i \<rparr> # cs)
      else Inr (False, ci_set c i ((ci_entry c i)\<lparr> ce_at := int i \<rparr>) # cs))"

fun cas_to_null :: "'a garray \<Rightarrow> nat \<Rightarrow> 'a \<Rightarrow> (bool \<times> 'a garray) result" where
  "cas_to_null [] i old = Inl AssertFailed"
| "cas_to_null (c # cs) i old =
     (if ce_ptr (ci_entry c i) = CUninit then bindE (cas_to_null cs i old) (\<lambda>(res, cs1). Inr (res, c # cs1))
      else if ce_ptr (ci_entry c i) = CPtr old then Inr (True, ci_set c i \<lparr> ce_ptr = CNull, ce_at = -1 \<rparr> # cs)
      else Inr (False, ci_set c i ((ci_entry c i)\<lparr> ce_at := -1 \<rparr>) # cs))"

definition impl_size :: "'a garray \<Rightarrow> nat" where
  "impl_size cs = (case cs of [] \<Rightarrow> 0 | c # _ \<Rightarrow> ci_size c)"

definition ga_grow :: "'a garray \<Rightarrow> 'a garray" where
  "ga_grow cs = (case cs of [] \<Rightarrow> [] | c # _ \<Rightarrow> cimpl_over c # cs)"

section \<open>The queue\<close>

record 'a lfqueue =
  lq_array :: "'a garray"
  lq_in :: nat
  lq_out :: nat

definition lq_new :: "'a lfqueue" where
  "lq_new = \<lparr> lq_array = [cimpl_new], lq_in = 0, lq_out = 0 \<rparr>"

definition lq_size :: "'a lfqueue \<Rightarrow> nat" where
  "lq_size q = lq_in q - lq_out q"

text \<open>One round of the loops of \<open>pop\<close> and \<open>push\<close>; \<open>None\<close> is another round.  The test of \<open>at >= 0\<close> in the code
  compares an unsigned number and is always true.\<close>

definition pop_round :: "'a lfqueue \<Rightarrow> ('a option \<times> 'a lfqueue) option result" where
  "pop_round q =
     (if lq_out q \<ge> lq_in q then Inr (Some (None, q))
      else bindE (ga_peek (lq_array q) (lq_out q)) (\<lambda>r. case ce_ptr r of
          CPtr x \<Rightarrow> bindE (cas_to_null (lq_array q) (lq_out q) x) (\<lambda>(ok, cs).
            assertE ok (Inr (Some (Some x, q\<lparr> lq_array := cs, lq_out := lq_out q + 1 \<rparr>))))
        | _ \<Rightarrow> Inr None))"

definition push_round :: "'a \<Rightarrow> 'a lfqueue \<Rightarrow> (bool \<times> 'a lfqueue) result" where
  "push_round x q =
     (let cs = (if lq_in q - lq_out q + 1 \<ge> impl_size (lq_array q) then ga_grow (lq_array q) else lq_array q) in
      bindE (ga_get cs (lq_in q)) (\<lambda>(r, cs1).
        if ce_ptr r = CNull
        then bindE (cas_from_null cs1 (lq_in q) x) (\<lambda>(ok, cs2).
          assertE ok (Inr (True, q\<lparr> lq_array := cs2, lq_in := lq_in q + 1 \<rparr>)))
        else Inr (False, q\<lparr> lq_array := cs1 \<rparr>)))"

partial_function (option) lq_pop :: "'a lfqueue \<Rightarrow> ('a option \<times> 'a lfqueue) result option" where
  "lq_pop q = (case pop_round q of Inl f \<Rightarrow> Some (Inl f) | Inr None \<Rightarrow> lq_pop q | Inr (Some r) \<Rightarrow> Some (Inr r))"

partial_function (option) lq_push :: "'a \<Rightarrow> 'a lfqueue \<Rightarrow> 'a lfqueue result option" where
  "lq_push x q = (case push_round x q of Inl f \<Rightarrow> Some (Inl f)
     | Inr (done', q1) \<Rightarrow> if done' then Some (Inr q1) else lq_push x q1)"

section \<open>The invariant\<close>

text \<open>\<open>live i x\<close>: element \<open>x\<close> is stored under index \<open>i\<close>.  An element sits in one cell, at its index, and
  every newer array is uninitialised there; the oldest array is initialised throughout.\<close>

definition uninit :: "'a cimpl \<Rightarrow> nat \<Rightarrow> bool" where
  "uninit c i \<longleftrightarrow> ce_ptr (ci_entry c i) = CUninit"

fun cells_ok :: "'a garray \<Rightarrow> 'a garray \<Rightarrow> (nat \<Rightarrow> 'a \<Rightarrow> bool) \<Rightarrow> bool" where
  "cells_ok newer [] live \<longleftrightarrow> True"
| "cells_ok newer (c # cs) live \<longleftrightarrow>
     (\<forall>i. case ce_ptr (ci_entry c i) of
        CPtr x \<Rightarrow> (\<exists>j. live j x \<and> ce_at (ci_entry c i) = int j \<and> j mod ci_size c = i mod ci_size c \<and> (\<forall>a\<in>set newer. uninit a j))
      | CNull \<Rightarrow> ce_at (ci_entry c i) = -1
      | CUninit \<Rightarrow> ce_at (ci_entry c i) = -1 \<and> cs \<noteq> []) \<and>
     cells_ok (newer @ [c]) cs live"

definition ga_rep :: "'a garray \<Rightarrow> nat \<Rightarrow> 'a list \<Rightarrow> bool" where
  "ga_rep cs out xs \<longleftrightarrow> cs \<noteq> [] \<and> cells_ok [] cs (\<lambda>i x. out \<le> i \<and> i < out + length xs \<and> x = xs ! (i - out)) \<and>
     (\<forall>i<length xs. ga_peek cs (out + i) = Inr \<lparr> ce_ptr = CPtr (xs ! i), ce_at = int (out + i) \<rparr>)"

lemma ci_size_pos [simp]: "ci_size c > 0"
  by (simp add: ci_size_def)

lemma ci_entry_set [simp]:
  "ci_entry (ci_set c i e) k = (if k mod ci_size c = i mod ci_size c then e else ci_entry c k)"
  "ci_size (ci_set c i e) = ci_size c"
  by (simp_all add: ci_entry_def ci_set_def ci_size_def)

lemma ci_entry_cong: "i mod ci_size c = k mod ci_size c \<Longrightarrow> ci_entry c i = ci_entry c k"
  by (simp add: ci_entry_def)

lemma ga_rep_new: "ga_rep [cimpl_new] 0 []"
  by (simp add: ga_rep_def ci_entry_def cimpl_new_def)

lemma cells_okD: "cells_ok newer (c # cs) live \<Longrightarrow> (case ce_ptr (ci_entry c i) of
        CPtr x \<Rightarrow> (\<exists>j. live j x \<and> ce_at (ci_entry c i) = int j \<and> j mod ci_size c = i mod ci_size c \<and> (\<forall>a\<in>set newer. uninit a j))
      | CNull \<Rightarrow> ce_at (ci_entry c i) = -1
      | CUninit \<Rightarrow> ce_at (ci_entry c i) = -1 \<and> cs \<noteq> [])"
  "cells_ok newer (c # cs) live \<Longrightarrow> cells_ok (newer @ [c]) cs live"
  by simp_all

lemma cells_okI:
  assumes "\<And>i. case ce_ptr (ci_entry c i) of
        CPtr x \<Rightarrow> (\<exists>j. live j x \<and> ce_at (ci_entry c i) = int j \<and> j mod ci_size c = i mod ci_size c \<and> (\<forall>a\<in>set newer. uninit a j))
      | CNull \<Rightarrow> ce_at (ci_entry c i) = -1
      | CUninit \<Rightarrow> ce_at (ci_entry c i) = -1 \<and> cs \<noteq> []"
    and "cells_ok (newer @ [c]) cs live"
  shows "cells_ok newer (c # cs) live"
  using assms by (simp only: cells_ok.simps simp_thms)

lemma cells_ok_mono:
  assumes "cells_ok newer cs live"
    and "\<And>i x. live i x \<Longrightarrow> \<forall>a\<in>set newer. uninit a i \<Longrightarrow> live' i x \<and> (\<forall>a\<in>set newer'. uninit a i)"
  shows "cells_ok newer' cs live'"
  using assms
proof (induction cs arbitrary: newer newer')
  case (Cons c cs)
  have "cells_ok (newer' @ [c]) cs live'"
    by (rule Cons.IH[OF cells_okD(2)[OF Cons.prems(1)]]) (use Cons.prems(2) in auto)
  moreover have "case ce_ptr (ci_entry c i) of
        CPtr x \<Rightarrow> (\<exists>j. live' j x \<and> ce_at (ci_entry c i) = int j \<and> j mod ci_size c = i mod ci_size c \<and> (\<forall>a\<in>set newer'. uninit a j))
      | CNull \<Rightarrow> ce_at (ci_entry c i) = -1
      | CUninit \<Rightarrow> ce_at (ci_entry c i) = -1 \<and> cs \<noteq> []" for i
    using cells_okD(1)[OF Cons.prems(1), of i] Cons.prems(2) by (cases "ce_ptr (ci_entry c i)") (simp, simp, simp, metis)
  ultimately show ?case by simp
qed simp

text \<open>Reading never falls off the end of the chain.\<close>

lemma ga_peek_total:
  "cells_ok newer cs live \<Longrightarrow> cs \<noteq> [] \<Longrightarrow> \<exists>e. ga_peek cs i = Inr e \<and> ce_ptr e \<noteq> CUninit \<and>
     (case ce_ptr e of CPtr x \<Rightarrow> \<exists>j. live j x \<and> ce_at e = int j | _ \<Rightarrow> ce_at e = -1)"
proof (induction cs arbitrary: newer)
  case (Cons c cs)
  show ?case
  proof (cases "ce_ptr (ci_entry c i)")
    case CUninit
    then have "cs \<noteq> []" "cells_ok (newer @ [c]) cs live" using Cons.prems(1) by (auto split: cell.splits)
    then show ?thesis using Cons.IH CUninit by simp
  next
    case CNull
    then show ?thesis using Cons.prems(1)[simplified, THEN conjunct1, rule_format, of i] by simp
  next
    case (CPtr x)
    then show ?thesis using Cons.prems(1)[simplified, THEN conjunct1, rule_format, of i] by auto
  qed
qed simp

lemma ga_rep_window:
  assumes "ga_rep (c # olds) out xs" "length xs < ci_size c" "out \<le> j" "j < out + length xs"
  shows "j mod ci_size c \<noteq> (out + length xs) mod ci_size c"
proof
  assume e: "j mod ci_size c = (out + length xs) mod ci_size c"
  have "ci_size c dvd (out + length xs - j)" using e assms(3,4) by (metis less_imp_le_nat mod_eq_dvd_iff_nat)
  then have "ci_size c \<le> out + length xs - j" using assms(4) by (intro dvd_imp_le) auto
  then show False using assms(2,3) by simp
qed

section \<open>Growing and pushing\<close>

lemma impl_size_grow [simp]: "cs \<noteq> [] \<Longrightarrow> impl_size (ga_grow cs) = 2 * impl_size cs"
  by (cases cs) (simp_all add: ga_grow_def impl_size_def cimpl_over_def ci_size_def)

lemma ga_rep_grow:
  assumes "ga_rep cs out xs"
  shows "ga_rep (ga_grow cs) out xs"
proof -
  obtain c olds where cs: "cs = c # olds" using assms by (cases cs) (auto simp: ga_rep_def)
  have u: "ce_ptr (ci_entry (cimpl_over c) i) = CUninit" "ce_at (ci_entry (cimpl_over c) i) = -1" for i
    by (simp_all add: ci_entry_def cimpl_over_def)
  have "cells_ok [cimpl_over c] cs live" if "cells_ok [] cs live" for live
    by (rule cells_ok_mono[OF that]) (simp add: uninit_def u)
  then show ?thesis using assms u by (simp add: ga_rep_def ga_grow_def cs)
qed

text \<open>The cell behind the last element is free, and asking for it changes nothing that is stored.\<close>

lemma ga_get_ok:
  assumes r: "ga_rep cs out xs" and room: "length xs < impl_size cs"
  shows "\<exists>c olds e. ga_get cs (out + length xs) = Inr (e, c # olds) \<and> ce_ptr e = CNull \<and>
    ce_ptr (ci_entry c (out + length xs)) = CNull \<and> ga_rep (c # olds) out xs \<and> ci_size c = impl_size cs"
proof -
  let ?in = "out + length xs" and ?live = "\<lambda>i x. out \<le> i \<and> i < out + length xs \<and> x = xs ! (i - out)"
  obtain c olds where cs: "cs = c # olds" using r by (cases cs) (auto simp: ga_rep_def)
  have size: "length xs < ci_size c" using room by (simp add: cs impl_size_def)
  note win = ga_rep_window[OF r[unfolded cs] size]
  have ok: "cells_ok [] (c # olds) ?live" using r by (simp add: ga_rep_def cs)
  show ?thesis
  proof (cases "ce_ptr (ci_entry c ?in)")
    case CNull
    then show ?thesis using r by (simp add: ga_get_def cs Let_def impl_size_def)
  next
    case (CPtr x)
    then obtain j where "out \<le> j" "j < ?in" "j mod ci_size c = ?in mod ci_size c"
      using cells_okD(1)[OF ok, of ?in] by auto
    then show ?thesis using win by blast
  next
    case CUninit
    then have ne: "olds \<noteq> []" and at: "ce_at (ci_entry c ?in) = -1" using cells_okD(1)[OF ok, of ?in] by auto
    obtain e where e: "ga_peek olds ?in = Inr e"
      "case ce_ptr e of CPtr x \<Rightarrow> \<exists>j. ?live j x \<and> ce_at e = int j | _ \<Rightarrow> ce_at e = -1"
      using ga_peek_total[OF cells_okD(2)[OF ok] ne] by blast
    have ne_at: "ce_at e \<noteq> int ?in" using e(2) by (auto split: cell.splits)
    let ?r = "(ci_entry c ?in)\<lparr> ce_ptr := CNull \<rparr>" let ?c = "ci_set c ?in ?r"
    have g: "ga_get cs ?in = Inr (?r, ?c # olds)" using CUninit e(1) ne_at by (simp add: ga_get_def cs Let_def)
    have A: "cells_ok ([] @ [?c]) olds ?live"
      by (rule cells_ok_mono[OF cells_okD(2)[OF ok]]) (use win in \<open>auto simp: uninit_def\<close>)
    have B: "case ce_ptr (ci_entry ?c i) of
        CPtr x \<Rightarrow> (\<exists>j. ?live j x \<and> ce_at (ci_entry ?c i) = int j \<and> j mod ci_size ?c = i mod ci_size ?c \<and> (\<forall>a\<in>set []. uninit a j))
      | CNull \<Rightarrow> ce_at (ci_entry ?c i) = -1
      | CUninit \<Rightarrow> ce_at (ci_entry ?c i) = -1 \<and> olds \<noteq> []" for i
      using cells_okD(1)[OF ok, of i] at by (cases "i mod ci_size c = ?in mod ci_size c"; cases "ce_ptr (ci_entry c i)") simp_all
    have C: "ga_peek (?c # olds) (out + i) = ga_peek cs (out + i)" if "i < length xs" for i
      using win[of "out + i"] that by (simp add: cs)
    have "ga_rep (?c # olds) out xs"
      using r C cells_okI[OF B A] unfolding ga_rep_def by (metis list.distinct(1))
    then show ?thesis using g by (intro exI[of _ ?c] exI[of _ olds] exI[of _ ?r]) (simp add: cs impl_size_def)
  qed
qed

lemma cas_from_null_ok:
  assumes r: "ga_rep (c # olds) out xs" and room: "length xs < ci_size c" and e: "ce_ptr (ci_entry c (out + length xs)) = CNull"
  shows "\<exists>cs'. cas_from_null (c # olds) (out + length xs) x = Inr (True, cs') \<and> ga_rep cs' out (xs @ [x])"
proof -
  let ?in = "out + length xs" and ?live = "\<lambda>i y. out \<le> i \<and> i < out + length xs \<and> y = xs ! (i - out)"
    and ?live' = "\<lambda>i y. out \<le> i \<and> i < out + length (xs @ [x]) \<and> y = (xs @ [x]) ! (i - out)"
  let ?c = "ci_set c ?in \<lparr> ce_ptr = CPtr x, ce_at = int ?in \<rparr>"
  note win = ga_rep_window[OF r room]
  have ok: "cells_ok [] (c # olds) ?live" using r by (simp add: ga_rep_def)
  have live: "?live' i y" if "?live i y" for i y using that by (simp add: nth_append less_diff_conv2)
  have A: "cells_ok ([] @ [?c]) olds ?live'"
    by (rule cells_ok_mono[OF cells_okD(2)[OF ok]]) (use live win in \<open>auto simp: uninit_def nth_append\<close>)
  have B: "case ce_ptr (ci_entry ?c i) of
      CPtr y \<Rightarrow> (\<exists>j. ?live' j y \<and> ce_at (ci_entry ?c i) = int j \<and> j mod ci_size ?c = i mod ci_size ?c \<and> (\<forall>a\<in>set []. uninit a j))
    | CNull \<Rightarrow> ce_at (ci_entry ?c i) = -1
    | CUninit \<Rightarrow> ce_at (ci_entry ?c i) = -1 \<and> olds \<noteq> []" for i
  proof (cases "i mod ci_size c = ?in mod ci_size c")
    case True
    then show ?thesis by (auto intro!: exI[of _ ?in])
  next
    case False
    show ?thesis
    proof (cases "ce_ptr (ci_entry c i)")
      case (CPtr y)
      then obtain j where j: "?live j y" "ce_at (ci_entry c i) = int j" "j mod ci_size c = i mod ci_size c"
        using cells_okD(1)[OF ok, of i] by auto
      show ?thesis using live[OF j(1)] j(2,3) CPtr False by auto
    qed (use cells_okD(1)[OF ok, of i] False in auto)
  qed
  have C: "ga_peek (?c # olds) (out + i) = Inr \<lparr> ce_ptr = CPtr ((xs @ [x]) ! i), ce_at = int (out + i) \<rparr>" if "i < length (xs @ [x])" for i
  proof (cases "i = length xs")
    case False
    then have "i < length xs" using that by simp
    have "ga_peek (c # olds) (out + i) = Inr \<lparr> ce_ptr = CPtr (xs ! i), ce_at = int (out + i) \<rparr>"
      using r \<open>i < length xs\<close> unfolding ga_rep_def by blast
    moreover have "ga_peek (?c # olds) (out + i) = ga_peek (c # olds) (out + i)"
      using win[of "out + i"] \<open>i < length xs\<close> by simp
    ultimately show ?thesis using \<open>i < length xs\<close> by (simp only: nth_append if_True)
  qed simp
  have "ga_rep (?c # olds) out (xs @ [x])"
    unfolding ga_rep_def using cells_okI[OF B A] C by blast
  then show ?thesis using e by simp
qed

section \<open>Popping\<close>

lemma cas_to_null_ok:
  assumes "cells_ok newer cs live" "ga_peek cs i = Inr \<lparr> ce_ptr = CPtr x, ce_at = int i \<rparr>"
  shows "\<exists>cs'. cas_to_null cs i x = Inr (True, cs') \<and> cs' \<noteq> [] \<and> impl_size cs' = impl_size cs \<and>
    cells_ok newer cs' (\<lambda>j y. live j y \<and> j \<noteq> i) \<and>
    (\<forall>k y. k \<noteq> i \<longrightarrow> ga_peek cs k = Inr \<lparr> ce_ptr = CPtr y, ce_at = int k \<rparr> \<longrightarrow> ga_peek cs' k = ga_peek cs k)"
  using assms
proof (induction cs arbitrary: newer)
  case (Cons c cs)
  note ok = Cons.prems(1) note P = cells_okD(1)[OF ok]
  show ?case
  proof (cases "ce_ptr (ci_entry c i) = CUninit")
    case True
    then obtain cs' where cs': "cas_to_null cs i x = Inr (True, cs')" "cs' \<noteq> []" "cells_ok (newer @ [c]) cs' (\<lambda>j y. live j y \<and> j \<noteq> i)"
      "\<forall>k y. k \<noteq> i \<longrightarrow> ga_peek cs k = Inr \<lparr> ce_ptr = CPtr y, ce_at = int k \<rparr> \<longrightarrow> ga_peek cs' k = ga_peek cs k"
      using Cons.IH[OF cells_okD(2)[OF ok]] Cons.prems(2) by auto
    have B: "case ce_ptr (ci_entry c k) of
        CPtr y \<Rightarrow> (\<exists>j. (live j y \<and> j \<noteq> i) \<and> ce_at (ci_entry c k) = int j \<and> j mod ci_size c = k mod ci_size c \<and> (\<forall>a\<in>set newer. uninit a j))
      | CNull \<Rightarrow> ce_at (ci_entry c k) = -1
      | CUninit \<Rightarrow> ce_at (ci_entry c k) = -1 \<and> cs' \<noteq> []" for k
    proof (cases "ce_ptr (ci_entry c k)")
      case (CPtr y)
      then obtain j where j: "live j y" "ce_at (ci_entry c k) = int j" "j mod ci_size c = k mod ci_size c" "\<forall>a\<in>set newer. uninit a j"
        using P[of k] by auto
      then have "j \<noteq> i" using True CPtr ci_entry_cong[of j c k] by auto
      then show ?thesis using j CPtr by auto
    qed (use P[of k] cs'(2) in auto)
    have "cas_to_null (c # cs) i x = Inr (True, c # cs')" "impl_size (c # cs') = impl_size (c # cs)"
      "\<forall>k y. k \<noteq> i \<longrightarrow> ga_peek (c # cs) k = Inr \<lparr> ce_ptr = CPtr y, ce_at = int k \<rparr> \<longrightarrow> ga_peek (c # cs') k = ga_peek (c # cs) k"
      using True cs'(1,4) by (auto simp: impl_size_def)
    then show ?thesis using cells_okI[OF B cs'(3)] by blast
  next
    case False
    then have e: "ci_entry c i = \<lparr> ce_ptr = CPtr x, ce_at = int i \<rparr>" using Cons.prems(2) by simp
    let ?c = "ci_set c i \<lparr> ce_ptr = CNull, ce_at = -1 \<rparr>"
    have A: "cells_ok (newer @ [?c]) cs (\<lambda>j y. live j y \<and> j \<noteq> i)"
      by (rule cells_ok_mono[OF cells_okD(2)[OF ok]]) (use e in \<open>auto simp: uninit_def dest: ci_entry_cong\<close>)
    have B: "case ce_ptr (ci_entry ?c k) of
        CPtr y \<Rightarrow> (\<exists>j. (live j y \<and> j \<noteq> i) \<and> ce_at (ci_entry ?c k) = int j \<and> j mod ci_size ?c = k mod ci_size ?c \<and> (\<forall>a\<in>set newer. uninit a j))
      | CNull \<Rightarrow> ce_at (ci_entry ?c k) = -1
      | CUninit \<Rightarrow> ce_at (ci_entry ?c k) = -1 \<and> cs \<noteq> []" for k
    proof (cases "k mod ci_size c = i mod ci_size c")
      case False
      show ?thesis
      proof (cases "ce_ptr (ci_entry c k)")
        case (CPtr y)
        then obtain j where "live j y" "ce_at (ci_entry c k) = int j" "j mod ci_size c = k mod ci_size c" "\<forall>a\<in>set newer. uninit a j"
          using P[of k] by auto
        moreover from this have "j \<noteq> i" using False by auto
        ultimately show ?thesis using CPtr False by auto
      qed (use P[of k] False in auto)
    qed simp
    have C: "ga_peek (?c # cs) k = ga_peek (c # cs) k" if "k \<noteq> i" "ga_peek (c # cs) k = Inr \<lparr> ce_ptr = CPtr y, ce_at = int k \<rparr>" for k y
    proof (cases "k mod ci_size c = i mod ci_size c")
      case True
      then have "ci_entry c k = ci_entry c i" by (rule ci_entry_cong)
      then show ?thesis using that e by simp
    qed simp
    have "cas_to_null (c # cs) i x = Inr (True, ?c # cs)" "impl_size (?c # cs) = impl_size (c # cs)"
      using e by (simp_all add: impl_size_def)
    then show ?thesis using cells_okI[OF B A] C by blast
  qed
qed simp

lemma ga_pop_ok:
  assumes r: "ga_rep cs out (x # xs)"
  shows "ga_peek cs out = Inr \<lparr> ce_ptr = CPtr x, ce_at = int out \<rparr> \<and>
    (\<exists>cs'. cas_to_null cs out x = Inr (True, cs') \<and> ga_rep cs' (Suc out) xs \<and> impl_size cs' = impl_size cs)"
proof -
  let ?live = "\<lambda>i y. out \<le> i \<and> i < out + length (x # xs) \<and> y = (x # xs) ! (i - out)"
    and ?live' = "\<lambda>i y. Suc out \<le> i \<and> i < Suc out + length xs \<and> y = xs ! (i - Suc out)"
  have p: "ga_peek cs (out + i) = Inr \<lparr> ce_ptr = CPtr ((x # xs) ! i), ce_at = int (out + i) \<rparr>" if "i < length (x # xs)" for i
    using r that unfolding ga_rep_def by blast
  have p0: "ga_peek cs out = Inr \<lparr> ce_ptr = CPtr x, ce_at = int out \<rparr>" using p[of 0] by simp
  have ok: "cells_ok [] cs ?live" using r unfolding ga_rep_def by blast
  obtain cs' where cs': "cas_to_null cs out x = Inr (True, cs')" "cs' \<noteq> []" "impl_size cs' = impl_size cs"
    "cells_ok [] cs' (\<lambda>j y. ?live j y \<and> j \<noteq> out)"
    "\<forall>k y. k \<noteq> out \<longrightarrow> ga_peek cs k = Inr \<lparr> ce_ptr = CPtr y, ce_at = int k \<rparr> \<longrightarrow> ga_peek cs' k = ga_peek cs k"
    using cas_to_null_ok[OF ok p0] by blast
  have "cells_ok [] cs' ?live'"
    by (rule cells_ok_mono[OF cs'(4)]) (auto simp: nth_Cons')
  moreover have "ga_peek cs' (Suc out + i) = Inr \<lparr> ce_ptr = CPtr (xs ! i), ce_at = int (Suc out + i) \<rparr>" if "i < length xs" for i
  proof -
    have q: "ga_peek cs (Suc out + i) = Inr \<lparr> ce_ptr = CPtr (xs ! i), ce_at = int (Suc out + i) \<rparr>" using p[of "Suc i"] that by simp
    then have "ga_peek cs' (Suc out + i) = ga_peek cs (Suc out + i)" using cs'(5)[rule_format, OF _ q] by simp
    then show ?thesis using q by simp
  qed
  ultimately have "ga_rep cs' (Suc out) xs" using cs'(2) unfolding ga_rep_def by blast
  then show ?thesis using p0 cs'(1,3) by blast
qed

text \<open>Making room: after the test for growth there is a free cell.\<close>

definition ga_room :: "'a garray \<Rightarrow> nat \<Rightarrow> 'a garray" where
  "ga_room cs n = (if n + 1 \<ge> impl_size cs then ga_grow cs else cs)"

lemma impl_size_pos: "cs \<noteq> [] \<Longrightarrow> impl_size cs > 0"
  by (cases cs) (simp_all add: impl_size_def)

lemma ga_push_ok:
  assumes r: "ga_rep cs out xs" and small: "length xs < impl_size cs"
  shows "\<exists>e cs1 cs2. ga_get (ga_room cs (length xs)) (out + length xs) = Inr (e, cs1) \<and> ce_ptr e = CNull \<and>
    cas_from_null cs1 (out + length xs) x = Inr (True, cs2) \<and> ga_rep cs2 out (xs @ [x]) \<and> length (xs @ [x]) < impl_size cs2"
proof -
  let ?cs = "ga_room cs (length xs)"
  have ne: "cs \<noteq> []" using r by (simp add: ga_rep_def)
  have r': "ga_rep ?cs out xs" using r ga_rep_grow[OF r] by (simp add: ga_room_def)
  have s: "length xs + 1 < impl_size ?cs" using small impl_size_grow[OF ne] by (auto simp: ga_room_def)
  then obtain c olds e where g: "ga_get ?cs (out + length xs) = Inr (e, c # olds)" "ce_ptr e = CNull"
    "ce_ptr (ci_entry c (out + length xs)) = CNull" "ga_rep (c # olds) out xs" "ci_size c = impl_size ?cs"
    using ga_get_ok[OF r'] by auto
  obtain cs2 where p: "cas_from_null (c # olds) (out + length xs) x = Inr (True, cs2)" "ga_rep cs2 out (xs @ [x])"
    using cas_from_null_ok[OF g(4) _ g(3)] s g(5) by auto
  have "impl_size cs2 = ci_size c" using p(1) g(3) by (auto simp: impl_size_def)
  then show ?thesis using g p s by auto
qed

section \<open>The queue is a queue\<close>

definition lq_rep :: "'a lfqueue \<Rightarrow> 'a list \<Rightarrow> bool" where
  "lq_rep q xs \<longleftrightarrow> ga_rep (lq_array q) (lq_out q) xs \<and> lq_in q = lq_out q + length xs \<and> length xs < impl_size (lq_array q)"

lemma lq_rep_new: "lq_rep lq_new []"
  by (simp add: lq_rep_def lq_new_def ga_rep_new impl_size_def)

lemma lq_push_ok:
  assumes "lq_rep q xs"
  shows "\<exists>q'. lq_push x q = Some (Inr q') \<and> lq_rep q' (xs @ [x])"
proof -
  obtain e cs1 cs2 where p: "ga_get (ga_room (lq_array q) (length xs)) (lq_out q + length xs) = Inr (e, cs1)" "ce_ptr e = CNull"
    "cas_from_null cs1 (lq_out q + length xs) x = Inr (True, cs2)" "ga_rep cs2 (lq_out q) (xs @ [x])" "length (xs @ [x]) < impl_size cs2"
    using ga_push_ok[of "lq_array q" "lq_out q" xs x] assms unfolding lq_rep_def by blast
  have "push_round x q = Inr (True, q\<lparr> lq_array := cs2, lq_in := lq_in q + 1 \<rparr>)"
    using p assms by (simp add: push_round_def lq_rep_def ga_room_def)
  then have "lq_push x q = Some (Inr (q\<lparr> lq_array := cs2, lq_in := lq_in q + 1 \<rparr>))" by (simp add: lq_push.simps)
  then show ?thesis using p assms by (simp add: lq_rep_def)
qed

lemma lq_pop_ok:
  assumes "lq_rep q xs"
  shows "\<exists>q'. lq_pop q = Some (Inr (case xs of [] \<Rightarrow> (None, q') | x # _ \<Rightarrow> (Some x, q'))) \<and> lq_rep q' (tl xs)"
proof (cases xs)
  case Nil
  then have "lq_pop q = Some (Inr (None, q))" using assms by (subst lq_pop.simps) (simp add: pop_round_def lq_rep_def)
  then show ?thesis using Nil assms by simp
next
  case (Cons x ys)
  obtain cs' where p: "ga_peek (lq_array q) (lq_out q) = Inr \<lparr> ce_ptr = CPtr x, ce_at = int (lq_out q) \<rparr>"
    "cas_to_null (lq_array q) (lq_out q) x = Inr (True, cs')" "ga_rep cs' (Suc (lq_out q)) ys" "impl_size cs' = impl_size (lq_array q)"
    using ga_pop_ok[of "lq_array q" "lq_out q" x ys] assms Cons by (auto simp: lq_rep_def)
  let ?q = "q\<lparr> lq_array := cs', lq_out := lq_out q + 1 \<rparr>"
  have "pop_round q = Inr (Some (Some x, ?q))" using p assms Cons by (simp add: pop_round_def lq_rep_def)
  then have "lq_pop q = Some (Inr (Some x, ?q))" by (subst lq_pop.simps) simp
  then show ?thesis using p assms Cons by (simp add: lq_rep_def)
qed

datatype 'a lq_op = LPush 'a | LPop

text \<open>A sequence of operations on the queue with what the pops return; and on a list.\<close>

fun lq_exec :: "'a lq_op list \<Rightarrow> 'a lfqueue \<Rightarrow> ('a option list \<times> 'a lfqueue) result option" where
  "lq_exec [] q = Some (Inr ([], q))"
| "lq_exec (LPush x # ops) q = (case lq_push x q of None \<Rightarrow> None | Some (Inl f) \<Rightarrow> Some (Inl f) | Some (Inr q1) \<Rightarrow> lq_exec ops q1)"
| "lq_exec (LPop # ops) q = (case lq_pop q of None \<Rightarrow> None | Some (Inl f) \<Rightarrow> Some (Inl f)
     | Some (Inr (r, q1)) \<Rightarrow> (case lq_exec ops q1 of Some (Inr (rs, q2)) \<Rightarrow> Some (Inr (r # rs, q2)) | x \<Rightarrow> x))"

fun fifo_exec :: "'a lq_op list \<Rightarrow> 'a list \<Rightarrow> 'a option list \<times> 'a list" where
  "fifo_exec [] xs = ([], xs)"
| "fifo_exec (LPush x # ops) xs = fifo_exec ops (xs @ [x])"
| "fifo_exec (LPop # ops) xs = (case fifo_exec ops (tl xs) of (rs, ys) \<Rightarrow> ((case xs of [] \<Rightarrow> None | x # _ \<Rightarrow> Some x) # rs, ys))"

lemma lq_exec_ok: "lq_rep q xs \<Longrightarrow> \<exists>q'. lq_exec ops q = Some (Inr (fst (fifo_exec ops xs), q')) \<and> lq_rep q' (snd (fifo_exec ops xs))"
proof (induction ops xs arbitrary: q rule: fifo_exec.induct)
  case (2 x ops xs)
  then show ?case using lq_push_ok[OF 2(2), of x] by fastforce
next
  case (3 ops xs)
  obtain q1 where q1: "lq_pop q = Some (Inr (case xs of [] \<Rightarrow> (None, q1) | x # _ \<Rightarrow> (Some x, q1)))" "lq_rep q1 (tl xs)"
    using lq_pop_ok[OF 3(2)] by blast
  obtain q2 where q2: "lq_exec ops q1 = Some (Inr (fst (fifo_exec ops (tl xs)), q2))" "lq_rep q2 (snd (fifo_exec ops (tl xs)))"
    using 3(1)[OF q1(2)] by blast
  obtain rs ys where "fifo_exec ops (tl xs) = (rs, ys)" by fastforce
  then show ?case using q1 q2 by (cases xs) simp_all
qed auto

text \<open>C33: Used by one thread, the lock-free array queue is a first-in first-out queue: every sequence of
  pushes and pops returns, without failing an assertion or going round for ever, what it returns on a
  list, whatever number of times the array grows and in whatever array of the chain an element lies.\<close>

theorem growable_queue_is_fifo:
  "\<exists>q. lq_exec ops lq_new = Some (Inr (fst (fifo_exec ops []), q)) \<and> lq_size q = length (snd (fifo_exec ops []))"
proof -
  obtain q where "lq_exec ops lq_new = Some (Inr (fst (fifo_exec ops []), q))" "lq_rep q (snd (fifo_exec ops []))"
    using lq_exec_ok[OF lq_rep_new] by blast
  then show ?thesis by (auto simp: lq_rep_def lq_size_def)
qed

end
