(* ===== verification/LockfreePool.thy ===== *)
theory LockfreePool
  imports GrowableArray
begin

text \<open>
  runtime/lockfree/atomic/OFluxLFAtomicPooled.h and .cpp: the pool guard of the lock-free runtime.  Events
  that wait and resources that are free are kept in two growable arrays, whose in-counters share one word
  so that a push onto either fails when the other moved.  The operations are those of one thread.
  Pooled atomics are numbered as they are allocated; resources are numbers.
\<close>

section \<open>State\<close>

record lfpool =
  lp_ev_q :: "nat garray"
  lp_rs_q :: "nat garray"
  lp_ev_in :: nat
  lp_rs_in :: nat
  lp_ev_out :: nat
  lp_rs_out :: nat
  lp_data :: "nat \<Rightarrow> nat option"
  lp_by_ev :: "nat \<Rightarrow> nat option"
  lp_next :: nat

definition lp_new :: lfpool where
  "lp_new = \<lparr> lp_ev_q = [cimpl_new], lp_rs_q = [cimpl_new], lp_ev_in = 0, lp_rs_in = 0, lp_ev_out = 0, lp_rs_out = 0,
     lp_data = \<lambda>_. None, lp_by_ev = \<lambda>_. None, lp_next = 0 \<rparr>"

definition set_data :: "nat \<Rightarrow> nat option \<Rightarrow> lfpool \<Rightarrow> lfpool" where
  "set_data a d p = p\<lparr> lp_data := (lp_data p)(a := d) \<rparr>"

text \<open>\<open>_data\<close> goes from NULL to the resource by a compare and swap that must succeed.\<close>

definition give_data :: "nat \<Rightarrow> nat \<Rightarrow> lfpool \<Rightarrow> lfpool result" where
  "give_data a x p = assertE (lp_data p a = None) (Inr (set_data a (Some x) p))"

section \<open>The list of events and resources\<close>

text \<open>One round of the loop of \<open>acquire_or_wait\<close>: take the first resource when no event waits, or queue the
  event when there is no resource; \<open>None\<close> is another round.  A difference of unsigned counters is
  positive when they differ.\<close>

definition pel_acquire_round :: "nat \<Rightarrow> lfpool \<Rightarrow> (bool option \<times> lfpool) result" where
  "pel_acquire_round ev p =
     (if lp_ev_in p = lp_ev_out p \<and> lp_rs_in p \<noteq> lp_rs_out p
      then bindE (ga_peek (lp_rs_q p) (lp_rs_out p)) (\<lambda>r. case ce_ptr r of
          CPtr x \<Rightarrow> bindE (cas_to_null (lp_rs_q p) (lp_rs_out p) x) (\<lambda>(ok, cs).
            assertE ok (bindE (give_data ev x (p\<lparr> lp_rs_q := cs, lp_rs_out := lp_rs_out p + 1 \<rparr>)) (\<lambda>p1. Inr (Some True, p1))))
        | _ \<Rightarrow> Inr (None, p))
      else if lp_rs_in p = lp_rs_out p
      then bindE (ga_get (ga_room (lp_ev_q p) (lp_ev_in p - lp_ev_out p)) (lp_ev_in p)) (\<lambda>(r, cs1).
          if ce_ptr r = CNull
          then bindE (cas_from_null cs1 (lp_ev_in p) ev) (\<lambda>(ok, cs2).
            assertE ok (Inr (Some False, p\<lparr> lp_ev_q := cs2, lp_ev_in := lp_ev_in p + 1 \<rparr>)))
          else Inr (None, p\<lparr> lp_ev_q := cs1 \<rparr>))
      else Inr (None, p))"

partial_function (option) pel_acquire_loop :: "nat \<Rightarrow> lfpool \<Rightarrow> (bool \<times> lfpool) result option" where
  "pel_acquire_loop ev p = (case pel_acquire_round ev p of
      Inl f \<Rightarrow> Some (Inl f)
    | Inr (r, p1) \<Rightarrow> (case r of None \<Rightarrow> pel_acquire_loop ev p1 | Some b \<Rightarrow> Some (Inr (b, p1))))"

definition pel_acquire_or_wait :: "nat \<Rightarrow> lfpool \<Rightarrow> (bool \<times> lfpool) result option" where
  "pel_acquire_or_wait ev p = pel_acquire_loop ev (set_data ev None p)"

text \<open>One round of the loop of \<open>release\<close>: hand the resource to the first waiting event, or store it when none
  waits.\<close>

definition pel_release_round :: "nat \<Rightarrow> lfpool \<Rightarrow> (nat option option \<times> lfpool) result" where
  "pel_release_round resource p =
     (if lp_ev_in p \<noteq> lp_ev_out p
      then bindE (ga_peek (lp_ev_q p) (lp_ev_out p)) (\<lambda>r. case ce_ptr r of
          CPtr ev_out \<Rightarrow> bindE (cas_to_null (lp_ev_q p) (lp_ev_out p) ev_out) (\<lambda>(ok, cs).
            assertE ok (bindE (give_data ev_out resource (p\<lparr> lp_ev_q := cs, lp_ev_out := lp_ev_out p + 1 \<rparr>))
              (\<lambda>p1. Inr (Some (Some ev_out), p1))))
        | _ \<Rightarrow> Inr (None, p))
      else bindE (ga_get (ga_room (lp_rs_q p) (lp_rs_in p - lp_rs_out p)) (lp_rs_in p)) (\<lambda>(r, cs1).
          if ce_ptr r = CNull
          then bindE (cas_from_null cs1 (lp_rs_in p) resource) (\<lambda>(ok, cs2).
            assertE ok (Inr (Some None, p\<lparr> lp_rs_q := cs2, lp_rs_in := lp_rs_in p + 1 \<rparr>)))
          else Inr (None, p\<lparr> lp_rs_q := cs1 \<rparr>)))"

partial_function (option) pel_release_loop :: "nat \<Rightarrow> lfpool \<Rightarrow> (nat option \<times> lfpool) result option" where
  "pel_release_loop resource p = (case pel_release_round resource p of
      Inl f \<Rightarrow> Some (Inl f)
    | Inr (r, p1) \<Rightarrow> (case r of None \<Rightarrow> pel_release_loop resource p1 | Some b \<Rightarrow> Some (Inr (b, p1))))"

definition pel_waiter_count :: "lfpool \<Rightarrow> nat" where
  "pel_waiter_count p = lp_ev_in p - lp_ev_out p"

section \<open>Pooled atomics\<close>

text \<open>\<open>AtomicPool::get\<close>: a new atomic without data.\<close>

definition lp_get :: "lfpool \<Rightarrow> nat \<times> lfpool" where
  "lp_get p = (let a = lp_next p in
     (a, p\<lparr> lp_next := a + 1, lp_data := (lp_data p)(a := None), lp_by_ev := (lp_by_ev p)(a := None) \<rparr>))"

definition ap_acquire_or_wait :: "nat \<Rightarrow> nat \<Rightarrow> lfpool \<Rightarrow> (bool \<times> lfpool) result option" where
  "ap_acquire_or_wait a ev p =
     (case pel_acquire_or_wait a (p\<lparr> lp_by_ev := (lp_by_ev p)(a := Some ev) \<rparr>) of
        Some (Inr (acqed, p1)) \<Rightarrow> Some (assertE (\<not> acqed \<or> lp_data p1 a \<noteq> None) (Inr (acqed, p1)))
      | r \<Rightarrow> r)"

text \<open>Releasing by an event, or by none when the pool is populated; returns the events let in.\<close>

definition ap_release :: "nat \<Rightarrow> nat option \<Rightarrow> lfpool \<Rightarrow> (nat list \<times> lfpool) result option" where
  "ap_release a ev p = (case lp_data p a of
      None \<Rightarrow> Some (Inl AssertFailed)
    | Some resource \<Rightarrow>
        if lp_by_ev p a \<noteq> ev then Some (Inl AssertFailed)
        else (case pel_release_loop resource (set_data a None p) of
            None \<Rightarrow> None
          | Some (Inl f) \<Rightarrow> Some (Inl f)
          | Some (Inr (None, p1)) \<Rightarrow> Some (Inr ([], p1))
          | Some (Inr (Some b, p1)) \<Rightarrow> Some (assertE (b \<noteq> a \<and> lp_data p1 b \<noteq> None)
              (case lp_by_ev p1 b of None \<Rightarrow> Inl AssertFailed | Some e \<Rightarrow> Inr ([e], p1)))))"

definition ap_held :: "lfpool \<Rightarrow> bool" where
  "ap_held p \<longleftrightarrow> pel_waiter_count p > 0"

text \<open>\<open>relinquish\<close> destroys the atomic and whatever data it has.\<close>

definition ap_relinquish :: "nat \<Rightarrow> lfpool \<Rightarrow> lfpool" where
  "ap_relinquish a p = set_data a None p"

text \<open>Populating: the guard inserter stores the value in a new atomic and releases it when it is destroyed; no
  event may be let in by that.\<close>

definition lp_populate :: "nat \<Rightarrow> lfpool \<Rightarrow> lfpool result option" where
  "lp_populate v p = (case lp_get p of (a, p1) \<Rightarrow>
     (case ap_release a None (set_data a (Some v) p1) of
        None \<Rightarrow> None
      | Some r \<Rightarrow> Some (bindE r (\<lambda>(vec, p2). assertE (vec = []) (Inr p2)))))"

section \<open>What the pool promises\<close>

text \<open>The abstraction: the atomics that wait, in order, and the free resources, in order; never both.\<close>

definition lp_rep :: "lfpool \<Rightarrow> nat list \<Rightarrow> nat list \<Rightarrow> bool" where
  "lp_rep p ws xs \<longleftrightarrow>
     ga_rep (lp_ev_q p) (lp_ev_out p) ws \<and> lp_ev_in p = lp_ev_out p + length ws \<and> length ws < impl_size (lp_ev_q p) \<and>
     ga_rep (lp_rs_q p) (lp_rs_out p) xs \<and> lp_rs_in p = lp_rs_out p + length xs \<and> length xs < impl_size (lp_rs_q p) \<and>
     (ws = [] \<or> xs = []) \<and> distinct ws \<and> (\<forall>b\<in>set ws. b < lp_next p \<and> lp_data p b = None \<and> lp_by_ev p b \<noteq> None)"

lemma lp_rep_new: "lp_rep lp_new [] []"
  by (simp add: lp_rep_def lp_new_def ga_rep_new impl_size_def)

lemma set_data_simps [simp]:
  "lp_ev_q (set_data a d p) = lp_ev_q p" "lp_rs_q (set_data a d p) = lp_rs_q p" "lp_ev_in (set_data a d p) = lp_ev_in p"
  "lp_rs_in (set_data a d p) = lp_rs_in p" "lp_ev_out (set_data a d p) = lp_ev_out p" "lp_rs_out (set_data a d p) = lp_rs_out p"
  "lp_data (set_data a d p) = (lp_data p)(a := d)" "lp_by_ev (set_data a d p) = lp_by_ev p" "lp_next (set_data a d p) = lp_next p"
  by (simp_all add: set_data_def)

lemma pel_acquire_ok:
  assumes r: "lp_rep p ws xs" and a: "a \<notin> set ws" "a < lp_next p" "lp_data p a = None" "lp_by_ev p a \<noteq> None"
  shows "\<exists>p'. pel_acquire_loop a p = Some (Inr (xs \<noteq> [], p')) \<and> lp_by_ev p' = lp_by_ev p \<and> lp_next p' = lp_next p \<and>
    (case xs of x # ys \<Rightarrow> lp_rep p' [] ys \<and> lp_data p' = (lp_data p)(a := Some x)
     | [] \<Rightarrow> lp_rep p' (ws @ [a]) [] \<and> lp_data p' = lp_data p)"
proof (cases xs)
  case (Cons x ys)
  have ws: "ws = []" using r Cons by (simp add: lp_rep_def)
  have rs: "ga_rep (lp_rs_q p) (lp_rs_out p) (x # ys)" using r Cons by (simp add: lp_rep_def)
  obtain cs where p: "ga_peek (lp_rs_q p) (lp_rs_out p) = Inr \<lparr> ce_ptr = CPtr x, ce_at = int (lp_rs_out p) \<rparr>"
    "cas_to_null (lp_rs_q p) (lp_rs_out p) x = Inr (True, cs)" "ga_rep cs (Suc (lp_rs_out p)) ys" "impl_size cs = impl_size (lp_rs_q p)"
    using ga_pop_ok[OF rs] by blast
  let ?p = "set_data a (Some x) (p\<lparr> lp_rs_q := cs, lp_rs_out := lp_rs_out p + 1 \<rparr>)"
  have "pel_acquire_round a p = Inr (Some True, ?p)"
    using r Cons ws p a by (simp add: pel_acquire_round_def lp_rep_def give_data_def)
  then have "pel_acquire_loop a p = Some (Inr (True, ?p))" by (subst pel_acquire_loop.simps) simp
  moreover have "lp_rep ?p [] ys" using r Cons ws p by (simp add: lp_rep_def)
  ultimately show ?thesis using Cons by simp
next
  case Nil
  have ev: "ga_rep (lp_ev_q p) (lp_ev_out p) ws" "length ws < impl_size (lp_ev_q p)" "lp_ev_in p = lp_ev_out p + length ws"
    using r by (simp_all add: lp_rep_def)
  obtain e cs1 cs2 where p: "ga_get (ga_room (lp_ev_q p) (length ws)) (lp_ev_out p + length ws) = Inr (e, cs1)" "ce_ptr e = CNull"
    "cas_from_null cs1 (lp_ev_out p + length ws) a = Inr (True, cs2)" "ga_rep cs2 (lp_ev_out p) (ws @ [a])" "length (ws @ [a]) < impl_size cs2"
    using ga_push_ok[OF ev(1,2), of a] by blast
  let ?p = "p\<lparr> lp_ev_q := cs2, lp_ev_in := lp_ev_in p + 1 \<rparr>"
  have "pel_acquire_round a p = Inr (Some False, ?p)"
    using r Nil p ev(3) by (simp add: pel_acquire_round_def lp_rep_def)
  then have "pel_acquire_loop a p = Some (Inr (False, ?p))" by (subst pel_acquire_loop.simps) simp
  moreover have "lp_rep ?p (ws @ [a]) []" using r Nil p a by (auto simp: lp_rep_def)
  ultimately show ?thesis using Nil by simp
qed

lemma pel_release_ok:
  assumes r: "lp_rep p ws xs"
  shows "\<exists>p'. pel_release_loop x p = Some (Inr (case ws of [] \<Rightarrow> None | b # _ \<Rightarrow> Some b, p')) \<and> lp_by_ev p' = lp_by_ev p \<and>
    lp_next p' = lp_next p \<and>
    (case ws of b # bs \<Rightarrow> lp_rep p' bs [] \<and> lp_data p' = (lp_data p)(b := Some x)
     | [] \<Rightarrow> lp_rep p' [] (xs @ [x]) \<and> lp_data p' = lp_data p)"
proof (cases ws)
  case (Cons b bs)
  have xs: "xs = []" using r Cons by (simp add: lp_rep_def)
  have ev: "ga_rep (lp_ev_q p) (lp_ev_out p) (b # bs)" using r Cons by (simp add: lp_rep_def)
  obtain cs where p: "ga_peek (lp_ev_q p) (lp_ev_out p) = Inr \<lparr> ce_ptr = CPtr b, ce_at = int (lp_ev_out p) \<rparr>"
    "cas_to_null (lp_ev_q p) (lp_ev_out p) b = Inr (True, cs)" "ga_rep cs (Suc (lp_ev_out p)) bs" "impl_size cs = impl_size (lp_ev_q p)"
    using ga_pop_ok[OF ev] by blast
  let ?p = "set_data b (Some x) (p\<lparr> lp_ev_q := cs, lp_ev_out := lp_ev_out p + 1 \<rparr>)"
  have "pel_release_round x p = Inr (Some (Some b), ?p)"
    using r Cons p by (simp add: pel_release_round_def lp_rep_def give_data_def)
  then have "pel_release_loop x p = Some (Inr (Some b, ?p))" by (subst pel_release_loop.simps) simp
  moreover have "lp_rep ?p bs []" using r Cons xs p by (auto simp: lp_rep_def)
  ultimately show ?thesis using Cons by simp
next
  case Nil
  have rs: "ga_rep (lp_rs_q p) (lp_rs_out p) xs" "length xs < impl_size (lp_rs_q p)" "lp_rs_in p = lp_rs_out p + length xs"
    using r by (simp_all add: lp_rep_def)
  obtain e cs1 cs2 where p: "ga_get (ga_room (lp_rs_q p) (length xs)) (lp_rs_out p + length xs) = Inr (e, cs1)" "ce_ptr e = CNull"
    "cas_from_null cs1 (lp_rs_out p + length xs) x = Inr (True, cs2)" "ga_rep cs2 (lp_rs_out p) (xs @ [x])" "length (xs @ [x]) < impl_size cs2"
    using ga_push_ok[OF rs(1,2), of x] by blast
  let ?p = "p\<lparr> lp_rs_q := cs2, lp_rs_in := lp_rs_in p + 1 \<rparr>"
  have "pel_release_round x p = Inr (Some None, ?p)"
    using r Nil p rs(3) by (simp add: pel_release_round_def lp_rep_def)
  then have "pel_release_loop x p = Some (Inr (None, ?p))" by (subst pel_release_loop.simps) simp
  moreover have "lp_rep ?p [] (xs @ [x])" using r Nil p by (simp add: lp_rep_def)
  ultimately show ?thesis using Nil by simp
qed

section \<open>Acquiring, releasing, populating\<close>

lemma ap_acquire_ok:
  assumes r: "lp_rep p ws xs" and a: "a \<notin> set ws" "a < lp_next p" "lp_data p a = None"
  shows "\<exists>p'. ap_acquire_or_wait a ev p = Some (Inr (xs \<noteq> [], p')) \<and> lp_next p' = lp_next p \<and>
    lp_by_ev p' = (lp_by_ev p)(a := Some ev) \<and>
    (case xs of x # ys \<Rightarrow> lp_rep p' [] ys \<and> lp_data p' = (lp_data p)(a := Some x)
     | [] \<Rightarrow> lp_rep p' (ws @ [a]) [] \<and> lp_data p' = lp_data p)"
proof -
  let ?p = "set_data a None (p\<lparr> lp_by_ev := (lp_by_ev p)(a := Some ev) \<rparr>)"
  have r': "lp_rep ?p ws xs" using r a by (auto simp: lp_rep_def)
  have d: "lp_data ?p = lp_data p" using a(3) by (simp add: fun_upd_idem)
  obtain p' where p': "pel_acquire_loop a ?p = Some (Inr (xs \<noteq> [], p'))" "lp_by_ev p' = lp_by_ev ?p" "lp_next p' = lp_next ?p"
    "case xs of x # ys \<Rightarrow> lp_rep p' [] ys \<and> lp_data p' = (lp_data ?p)(a := Some x)
     | [] \<Rightarrow> lp_rep p' (ws @ [a]) [] \<and> lp_data p' = lp_data ?p"
    using pel_acquire_ok[OF r', of a] a by auto
  then have "ap_acquire_or_wait a ev p = Some (Inr (xs \<noteq> [], p'))"
    by (cases xs) (auto simp: ap_acquire_or_wait_def pel_acquire_or_wait_def assertE_def)
  then show ?thesis using p'(2,3,4) d by (cases xs) (auto intro!: exI[of _ p'])
qed

lemma ap_release_ok:
  assumes r: "lp_rep p ws xs" and a: "lp_data p a = Some x" "lp_by_ev p a = ev"
  shows "\<exists>p'. ap_release a ev p = Some (Inr (case ws of [] \<Rightarrow> [] | b # _ \<Rightarrow> [the (lp_by_ev p b)], p')) \<and>
    lp_next p' = lp_next p \<and> lp_by_ev p' = lp_by_ev p \<and>
    (case ws of b # bs \<Rightarrow> lp_rep p' bs [] \<and> lp_data p' = (lp_data p)(a := None, b := Some x) \<and> b \<noteq> a \<and> lp_data p b = None
     | [] \<Rightarrow> lp_rep p' [] (xs @ [x]) \<and> lp_data p' = (lp_data p)(a := None))"
proof -
  let ?p = "set_data a None p"
  have r': "lp_rep ?p ws xs" using r by (simp add: lp_rep_def)
  obtain p' where p': "pel_release_loop x ?p = Some (Inr (case ws of [] \<Rightarrow> None | b # _ \<Rightarrow> Some b, p'))" "lp_by_ev p' = lp_by_ev ?p"
    "lp_next p' = lp_next ?p" "case ws of b # bs \<Rightarrow> lp_rep p' bs [] \<and> lp_data p' = (lp_data ?p)(b := Some x)
     | [] \<Rightarrow> lp_rep p' [] (xs @ [x]) \<and> lp_data p' = lp_data ?p"
    using pel_release_ok[OF r', of x] by blast
  show ?thesis
  proof (cases ws)
    case Nil
    then show ?thesis using p' a by (auto simp: ap_release_def intro!: exI[of _ p'])
  next
    case (Cons b bs)
    then have b: "b \<noteq> a" "lp_data p b = None" "lp_by_ev p b \<noteq> None" using r a(1) by (auto simp: lp_rep_def)
    then have "ap_release a ev p = Some (Inr ([the (lp_by_ev p b)], p'))"
      using p' a Cons by (auto simp: ap_release_def)
    then show ?thesis using p' b Cons by (auto intro!: exI[of _ p'])
  qed
qed

lemma lp_get_ok:
  assumes "lp_rep p ws xs"
  shows "lp_rep (snd (lp_get p)) ws xs"
  using assms by (fastforce simp: lp_rep_def lp_get_def Let_def)

section \<open>Every run of the pool\<close>

text \<open>What can be seen of a pool: the free resources, the waiting atomics, and what is in the hands of events.\<close>

definition ga_list :: "nat garray \<Rightarrow> nat \<Rightarrow> nat \<Rightarrow> nat list" where
  "ga_list cs out in' = map (\<lambda>i. case ga_peek cs i of Inr e \<Rightarrow> (case ce_ptr e of CPtr x \<Rightarrow> x | _ \<Rightarrow> 0) | Inl _ \<Rightarrow> 0) [out..<in']"

definition lp_free :: "lfpool \<Rightarrow> nat list" where
  "lp_free p = ga_list (lp_rs_q p) (lp_rs_out p) (lp_rs_in p)"

definition lp_waiting :: "lfpool \<Rightarrow> nat list" where
  "lp_waiting p = ga_list (lp_ev_q p) (lp_ev_out p) (lp_ev_in p)"

definition held_of :: "(nat \<Rightarrow> nat option) \<Rightarrow> nat multiset" where
  "held_of d = image_mset (\<lambda>a. the (d a)) (mset_set (dom d))"

lemma ga_list_rep: "ga_rep cs out xs \<Longrightarrow> ga_list cs out (out + length xs) = xs"
  by (rule nth_equalityI) (auto simp: ga_list_def ga_rep_def)

lemma lp_rep_view: "lp_rep p ws xs \<Longrightarrow> lp_free p = xs \<and> lp_waiting p = ws"
  by (simp add: lp_rep_def lp_free_def lp_waiting_def ga_list_rep)

lemma held_give:
  assumes "finite (dom d)" "d a = None"
  shows "held_of (d(a := Some x)) = add_mset x (held_of d)"
proof -
  have "a \<notin> dom d" using assms(2) by auto
  moreover from this have "image_mset (\<lambda>b. the ((d(a := Some x)) b)) (mset_set (dom d)) = image_mset (\<lambda>b. the (d b)) (mset_set (dom d))"
    by (intro image_mset_cong) (use assms(1) in auto)
  ultimately show ?thesis using assms(1) by (simp add: held_of_def)
qed

lemma held_take:
  assumes "finite (dom d)" "d a = Some x"
  shows "held_of d = add_mset x (held_of (d(a := None)))"
proof -
  have "d = (d(a := None))(a := Some x)" using assms(2) by (simp add: fun_upd_idem)
  then show ?thesis using held_give[of "d(a := None)" a x] assms(1) by simp
qed

text \<open>The runs of a pool whose clients keep to the protocol: an atomic is acquired by an event that neither
  waits with it nor has its resource, and released by one that has.  \<open>vs\<close> are the values it was populated
  with.\<close>

inductive lp_reach :: "lfpool \<Rightarrow> nat list \<Rightarrow> bool" where
  new: "lp_reach lp_new []"
| populate: "lp_reach p vs \<Longrightarrow> lp_populate v p = Some (Inr p') \<Longrightarrow> lp_reach p' (v # vs)"
| get: "lp_reach p vs \<Longrightarrow> lp_reach (snd (lp_get p)) vs"
| acquire: "lp_reach p vs \<Longrightarrow> a < lp_next p \<Longrightarrow> lp_data p a = None \<Longrightarrow> a \<notin> set (lp_waiting p) \<Longrightarrow>
    ap_acquire_or_wait a ev p = Some (Inr (acqed, p')) \<Longrightarrow> lp_reach p' vs"
| release: "lp_reach p vs \<Longrightarrow> lp_data p a \<noteq> None \<Longrightarrow> ap_release a (lp_by_ev p a) p = Some (Inr (rel, p')) \<Longrightarrow> lp_reach p' vs"
| relinquish: "lp_reach p vs \<Longrightarrow> lp_data p a = None \<Longrightarrow> lp_reach (ap_relinquish a p) vs"

definition lp_inv :: "lfpool \<Rightarrow> nat list \<Rightarrow> bool" where
  "lp_inv p vs \<longleftrightarrow> lp_rep p (lp_waiting p) (lp_free p) \<and> dom (lp_data p) \<subseteq> {..<lp_next p} \<and>
     mset (lp_free p) + held_of (lp_data p) = mset vs"

lemma lp_invI: "lp_rep p ws xs \<Longrightarrow> dom (lp_data p) \<subseteq> {..<lp_next p} \<Longrightarrow> mset xs + held_of (lp_data p) = mset vs \<Longrightarrow> lp_inv p vs"
  using lp_rep_view by (auto simp: lp_inv_def)

lemma lp_inv_finite: "lp_inv p vs \<Longrightarrow> finite (dom (lp_data p))"
  unfolding lp_inv_def using finite_subset by blast

lemma lp_inv_get:
  assumes "lp_inv p vs"
  shows "lp_inv (snd (lp_get p)) vs"
proof -
  have "lp_data p (lp_next p) = None" using assms by (auto simp: lp_inv_def)
  then have "lp_data (snd (lp_get p)) = lp_data p" by (simp add: lp_get_def Let_def fun_upd_idem)
  moreover have "lp_next (snd (lp_get p)) = Suc (lp_next p)" by (simp add: lp_get_def Let_def)
  ultimately show ?thesis using assms lp_get_ok by (intro lp_invI[of _ "lp_waiting p" "lp_free p"]) (auto simp: lp_inv_def)
qed

lemma lp_inv_acquire:
  assumes i: "lp_inv p vs" and a: "a < lp_next p" "lp_data p a = None" "a \<notin> set (lp_waiting p)"
    and st: "ap_acquire_or_wait a ev p = Some (Inr (acqed, p'))"
  shows "lp_inv p' vs"
proof -
  have r: "lp_rep p (lp_waiting p) (lp_free p)" using i by (simp add: lp_inv_def)
  have p': "lp_next p' = lp_next p" "case lp_free p of x # ys \<Rightarrow> lp_rep p' [] ys \<and> lp_data p' = (lp_data p)(a := Some x)
     | [] \<Rightarrow> lp_rep p' (lp_waiting p @ [a]) [] \<and> lp_data p' = lp_data p"
    using ap_acquire_ok[OF r a(3,1,2), of ev] st by auto
  show ?thesis
  proof (cases "lp_free p")
    case Nil
    then show ?thesis using p' i by (intro lp_invI[of _ "lp_waiting p @ [a]" "[]"]) (auto simp: lp_inv_def)
  next
    case (Cons x ys)
    then show ?thesis using p' i a held_give[OF lp_inv_finite[OF i] a(2), of x]
      by (intro lp_invI[of _ "[]" ys]) (auto simp: lp_inv_def)
  qed
qed

lemma lp_inv_release:
  assumes i: "lp_inv p vs" and a: "lp_data p a = Some x" "lp_by_ev p a = ev" and st: "ap_release a ev p = Some (Inr (rel, p'))"
  shows "lp_inv p' vs"
proof -
  have r: "lp_rep p (lp_waiting p) (lp_free p)" using i by (simp add: lp_inv_def)
  have p': "lp_next p' = lp_next p" "case lp_waiting p of
       b # bs \<Rightarrow> lp_rep p' bs [] \<and> lp_data p' = (lp_data p)(a := None, b := Some x) \<and> b \<noteq> a \<and> lp_data p b = None
     | [] \<Rightarrow> lp_rep p' [] (lp_free p @ [x]) \<and> lp_data p' = (lp_data p)(a := None)"
    using ap_release_ok[OF r a] st by auto
  note t = held_take[OF lp_inv_finite[OF i] a(1)]
  show ?thesis
  proof (cases "lp_waiting p")
    case Nil
    then show ?thesis using p' i t by (intro lp_invI[of _ "[]" "lp_free p @ [x]"]) (auto simp: lp_inv_def)
  next
    case (Cons b bs)
    have "held_of (lp_data p') = held_of (lp_data p)"
      using p' Cons t lp_inv_finite[OF i] held_give[of "(lp_data p)(a := None)" b x] by simp
    moreover have "lp_free p = []" "b < lp_next p" using r Cons by (auto simp: lp_rep_def)
    ultimately show ?thesis using p' Cons i by (intro lp_invI[of _ bs "[]"]) (auto simp: lp_inv_def)
  qed
qed

lemma lp_inv_populate:
  assumes i: "lp_inv p vs" and st: "lp_populate v p = Some (Inr p')"
  shows "lp_inv p' (v # vs)"
proof -
  obtain a p1 where g: "lp_get p = (a, p1)" by fastforce
  then have a: "a = lp_next p" "p1 = snd (lp_get p)" "lp_by_ev p1 a = None" "lp_next p1 = Suc a" by (auto simp: lp_get_def Let_def)
  have i1: "lp_inv p1 vs" using lp_inv_get[OF i] a by simp
  have n: "lp_data p1 a = None" using g by (auto simp: lp_get_def Let_def)
  let ?p = "set_data a (Some v) p1"
  have "lp_rep ?p (lp_waiting p1) (lp_free p1)"
  proof -
    have "a \<notin> set (lp_waiting p1)"
      using i g by (auto simp: lp_inv_def lp_rep_def lp_get_def Let_def lp_waiting_def)
    then show ?thesis using i1 by (auto simp: lp_inv_def lp_rep_def)
  qed
  then have "lp_inv ?p (v # vs)" using i1 a(4) held_give[OF lp_inv_finite[OF i1] n, of v]
    by (intro lp_invI) (auto simp: lp_inv_def)
  moreover obtain vec where "ap_release a None ?p = Some (Inr (vec, p'))"
    using st g by (auto simp: lp_populate_def bindE_eq_Inr assertE_eq_Inr split: option.splits)
  ultimately show ?thesis using lp_inv_release[of ?p "v # vs" a v None vec p'] a(3) by simp
qed

lemma lp_reach_inv: "lp_reach p vs \<Longrightarrow> lp_inv p vs"
proof (induction rule: lp_reach.induct)
  case new
  have "held_of (lp_data lp_new) = {#}" by (simp add: held_of_def lp_new_def)
  then show ?case using lp_rep_new by (intro lp_invI) (auto simp: lp_new_def)
next
  case (relinquish p vs a)
  then have "ap_relinquish a p = p" by (simp add: ap_relinquish_def set_data_def fun_upd_idem)
  then show ?case using relinquish by simp
qed (auto intro: lp_inv_get lp_inv_acquire lp_inv_release lp_inv_populate)


text \<open>In every run, acquiring ends without a fault: the event gets the resource that was released first, or
  waits behind the others when none is free; releasing ends without a fault, hands the resource to the
  event that waited longest and lets that event in, or stores it behind the free ones.\<close>

theorem lockfree_pool_serves_in_order:
  assumes "lp_reach p vs"
  shows "(\<forall>a ev. a < lp_next p \<and> lp_data p a = None \<and> a \<notin> set (lp_waiting p) \<longrightarrow>
      (\<exists>p'. ap_acquire_or_wait a ev p = Some (Inr (lp_free p \<noteq> [], p')) \<and>
         (case lp_free p of x # xs \<Rightarrow> lp_data p' a = Some x \<and> lp_free p' = xs \<and> lp_waiting p' = []
          | [] \<Rightarrow> lp_data p' = lp_data p \<and> lp_free p' = [] \<and> lp_waiting p' = lp_waiting p @ [a]))) \<and>
    (\<forall>a x. lp_data p a = Some x \<longrightarrow>
      (\<exists>p'. (case lp_waiting p of
         b # bs \<Rightarrow> ap_release a (lp_by_ev p a) p = Some (Inr ([the (lp_by_ev p b)], p')) \<and> lp_data p' b = Some x \<and>
           lp_data p' a = None \<and> lp_waiting p' = bs \<and> lp_free p' = []
       | [] \<Rightarrow> ap_release a (lp_by_ev p a) p = Some (Inr ([], p')) \<and> lp_data p' a = None \<and> lp_free p' = lp_free p @ [x] \<and> lp_waiting p' = [])))"
proof (intro conjI allI impI)
  have r: "lp_rep p (lp_waiting p) (lp_free p)" using lp_reach_inv[OF assms] by (simp add: lp_inv_def)
  {
    fix a ev assume a: "a < lp_next p \<and> lp_data p a = None \<and> a \<notin> set (lp_waiting p)"
    obtain p' where p': "ap_acquire_or_wait a ev p = Some (Inr (lp_free p \<noteq> [], p'))"
      "case lp_free p of x # ys \<Rightarrow> lp_rep p' [] ys \<and> lp_data p' = (lp_data p)(a := Some x)
       | [] \<Rightarrow> lp_rep p' (lp_waiting p @ [a]) [] \<and> lp_data p' = lp_data p"
      using ap_acquire_ok[OF r] a by blast
    then show "\<exists>p'. ap_acquire_or_wait a ev p = Some (Inr (lp_free p \<noteq> [], p')) \<and>
         (case lp_free p of x # xs \<Rightarrow> lp_data p' a = Some x \<and> lp_free p' = xs \<and> lp_waiting p' = []
          | [] \<Rightarrow> lp_data p' = lp_data p \<and> lp_free p' = [] \<and> lp_waiting p' = lp_waiting p @ [a])"
      by (intro exI[of _ p']) (auto dest: lp_rep_view split: list.splits)
  next
    fix a x assume a: "lp_data p a = Some x"
    obtain p' where p': "ap_release a (lp_by_ev p a) p = Some (Inr (case lp_waiting p of [] \<Rightarrow> [] | b # _ \<Rightarrow> [the (lp_by_ev p b)], p'))"
      "case lp_waiting p of b # bs \<Rightarrow> lp_rep p' bs [] \<and> lp_data p' = (lp_data p)(a := None, b := Some x) \<and> b \<noteq> a \<and> lp_data p b = None
       | [] \<Rightarrow> lp_rep p' [] (lp_free p @ [x]) \<and> lp_data p' = (lp_data p)(a := None)"
      using ap_release_ok[OF r a refl] by blast
    then show "\<exists>p'. case lp_waiting p of
         b # bs \<Rightarrow> ap_release a (lp_by_ev p a) p = Some (Inr ([the (lp_by_ev p b)], p')) \<and> lp_data p' b = Some x \<and>
           lp_data p' a = None \<and> lp_waiting p' = bs \<and> lp_free p' = []
       | [] \<Rightarrow> ap_release a (lp_by_ev p a) p = Some (Inr ([], p')) \<and> lp_data p' a = None \<and> lp_free p' = lp_free p @ [x] \<and> lp_waiting p' = []"
      by (intro exI[of _ p']) (auto dest: lp_rep_view split: list.splits)
  }
qed

section \<open>An example\<close>

text \<open>A pool populated with one value, and a second atomic that asks for it.\<close>

lemma ex_pool: "\<exists>p. lp_reach p [9] \<and> lp_next p = 2 \<and> lp_data p 1 = None \<and> lp_waiting p = [] \<and> lp_free p = [9]"
proof -
  define q where "q = set_data 0 (Some 9) (snd (lp_get lp_new))"
  have "lp_rep q [] []" using lp_get_ok[OF lp_rep_new] by (simp add: q_def lp_rep_def)
  moreover have "lp_data q 0 = Some 9" "lp_by_ev q 0 = None" by (simp_all add: q_def lp_get_def lp_new_def Let_def)
  ultimately obtain p1 where p1: "ap_release 0 None q = Some (Inr ([], p1))" "lp_next p1 = lp_next q" "lp_rep p1 [] [9]"
    "lp_data p1 = (lp_data q)(0 := None)"
    using ap_release_ok[of q "[]" "[]" 0 9 None] by auto
  have g: "lp_get lp_new = (0, snd (lp_get lp_new))" "lp_next q = 1" "lp_data q 1 = None" by (simp_all add: q_def lp_get_def lp_new_def Let_def)
  have "lp_populate 9 lp_new = Some (Inr p1)"
    unfolding lp_populate_def by (subst g(1)) (simp add: p1(1) flip: q_def)
  then have "lp_reach p1 [9]" using lp_reach.populate[OF lp_reach.new] by blast
  then have "lp_reach (snd (lp_get p1)) [9]" by (rule lp_reach.get)
  moreover have "lp_next (snd (lp_get p1)) = 2" "lp_data (snd (lp_get p1)) 1 = None"
    using p1(2) g(2) by (simp_all add: lp_get_def Let_def)
  ultimately show ?thesis using lp_rep_view[OF lp_get_ok[OF p1(3)]] by blast
qed


lemma lockfree_pool_serves_in_order_witness:
  "\<exists>p p'. lp_reach p [9] \<and> ap_acquire_or_wait 1 5 p = Some (Inr (True, p')) \<and> lp_data p' 1 = Some 9"
proof -
  obtain p where p: "lp_reach p [9]" "lp_next p = 2" "lp_data p 1 = None" "lp_waiting p = []" "lp_free p = [9]"
    using ex_pool by blast
  from lockfree_pool_serves_in_order[OF p(1), THEN conjunct1, rule_format, of 1 5] p show ?thesis by fastforce
qed

end
