(* ===== verification/LockfreeReadWrite.thy ===== *)
theory LockfreeReadWrite
  imports Atomics
begin

text \<open>
  runtime/lockfree/atomic/OFluxLFAtomicReadWrite.h and .cpp: the read/write atomic of the lock-free runtime.
  Waiting events are kept in a linked list whose last node is empty and carries the state of the atomic in its
  next field: how many events hold it, whether for reading, and a mark.  The event and mode of a waiter sit in
  the node before the one it brought.  A step ends with a write, a compare and swap or a test of shared memory;
  any number of threads interleave.  Freed nodes are not used again while a thread may look at them (the hazard
  pointers of OFluxSMR.h).
\<close>

section \<open>Nodes\<close>

text \<open>\<open>RWWaiterPtr\<close>: the second half of the 64 bit word is a state or a pointer, which share their bits
  where pointers have 32.  Addresses are aligned, so that a pointer is never marked; the state that is zero
  throughout is the null pointer.  The first half counts the changes.\<close>

datatype rw_val = RwState int bool bool | RwNode nat | RwSentinel

record rwptr =
  rp_epoch :: int
  rp_val :: rw_val

definition rwp_state :: "int \<Rightarrow> bool \<Rightarrow> bool \<Rightarrow> int \<Rightarrow> rwptr" where
  "rwp_state rc md mk e = \<lparr> rp_epoch = e, rp_val = RwState rc md mk \<rparr>"

definition rwp_node :: "rw_val \<Rightarrow> int \<Rightarrow> rwptr" where
  "rwp_node n e = \<lparr> rp_epoch = e, rp_val = n \<rparr>"

definition rwp_mkd :: "rwptr \<Rightarrow> bool" where
  "rwp_mkd p = (case rp_val p of RwState rc md mk \<Rightarrow> mk | _ \<Rightarrow> False)"

definition rwp_mode :: "rwptr \<Rightarrow> bool" where
  "rwp_mode p = (case rp_val p of RwState rc md mk \<Rightarrow> md | _ \<Rightarrow> False)"

text \<open>The count of changes has 32 bits.\<close>

definition next_epoch :: "rwptr \<Rightarrow> int" where
  "next_epoch p = (rp_epoch p + 1) mod 4294967296"

text \<open>The count is read of states only.\<close>

definition rwp_rcount :: "rwptr \<Rightarrow> int" where
  "rwp_rcount p = (case rp_val p of RwState rc md mk \<Rightarrow> rc | _ \<Rightarrow> 0)"

definition rwp_null :: "rwptr \<Rightarrow> bool" where
  "rwp_null p \<longleftrightarrow> rp_val p = RwState 0 False False"

record rwnode =
  rn_next :: rwptr
  rn_val :: "nat option"
  rn_mode :: int

definition rwnode_new :: "nat option \<Rightarrow> int \<Rightarrow> rwnode" where
  "rwnode_new ev w = \<lparr> rn_next = rwp_state 0 False False 0, rn_val = ev, rn_mode = w \<rparr>"

text \<open>Where a thread is.  In \<open>push\<close> it carries its event, mode and the node it brought, in \<open>pop\<close> the mode it
  releases; in the last part of \<open>pop\<close> the last and the first node it takes out and how many.  The arguments of
  a place are the copies of the head, the tail and the state it has read; the flag tells the first waiter.
  \<open>RFail\<close> is a failed assertion, \<open>RWild\<close> a pointer followed that is none.\<close>

datatype rw_push_at = PHead | PTail nat | PNext nat nat | PFree nat rwptr | PShare nat rwptr | PLink bool nat rwptr
  | PSwing bool nat | PMode bool nat | PStore bool nat

datatype rw_pop_at = QHead | QTail nat | QNext nat nat | QEmpty nat rwptr | QDec nat rwptr | QFirst nat nat rwptr

datatype rw_take_at = TRun nat rwptr | TPre nat rwptr | TPreTail | TPreNext nat | TMove nat rwptr | TCommit nat rwptr
  | TReTail | TReNext nat | TCut

datatype rw_pc = RIdle | RPush nat int nat rw_push_at | RPushed int | RPop int rw_pop_at | RTake int nat nat nat rw_take_at
  | RWait nat rw_val | RGive rw_val | RFail | RWild

text \<open>\<open>rx_holding\<close> and \<open>rx_waiting\<close> record what the threads were told: the events that were let in and not
  released yet, and those that were told to wait, with their modes.\<close>

record rwx =
  rx_data :: "nat option"
  rx_nodes :: "nat \<Rightarrow> rwnode"
  rx_head :: nat
  rx_tail :: nat
  rx_wtype :: int
  rx_fresh :: nat
  rx_pc :: "nat \<Rightarrow> rw_pc"
  rx_holding :: "aqe list"
  rx_waiting :: "aqe list"

definition rx_new :: "nat option \<Rightarrow> rwx" where
  "rx_new d = \<lparr> rx_data = d, rx_nodes = \<lambda>_. rwnode_new None wt_None, rx_head = 0, rx_tail = 0, rx_wtype = wt_None, rx_fresh = 1,
     rx_pc = \<lambda>_. RIdle, rx_holding = [], rx_waiting = [] \<rparr>"

definition rnext :: "nat \<Rightarrow> rwx \<Rightarrow> rwptr" where
  "rnext n s = rn_next (rx_nodes s n)"

definition set_rnext :: "nat \<Rightarrow> rwptr \<Rightarrow> rwx \<Rightarrow> rwx" where
  "set_rnext n p s = s\<lparr> rx_nodes := (rx_nodes s)(n := (rx_nodes s n)\<lparr> rn_next := p \<rparr>) \<rparr>"

definition set_rval :: "nat \<Rightarrow> nat option \<Rightarrow> rwx \<Rightarrow> rwx" where
  "set_rval n ev s = s\<lparr> rx_nodes := (rx_nodes s)(n := (rx_nodes s n)\<lparr> rn_val := ev \<rparr>) \<rparr>"

definition set_rmode :: "nat \<Rightarrow> int \<Rightarrow> rwx \<Rightarrow> rwx" where
  "set_rmode n m s = s\<lparr> rx_nodes := (rx_nodes s)(n := (rx_nodes s n)\<lparr> rn_mode := m \<rparr>) \<rparr>"

definition rgo :: "nat \<Rightarrow> rw_pc \<Rightarrow> rwx \<Rightarrow> rwx" where
  "rgo t pc s = s\<lparr> rx_pc := (rx_pc s)(t := pc) \<rparr>"

text \<open>\<open>compareAndSwap\<close> on the next field of a node, and what happens after it succeeded or failed.\<close>

definition cas_rnext :: "nat \<Rightarrow> rwptr \<Rightarrow> rwptr \<Rightarrow> (rwx \<Rightarrow> rwx) \<Rightarrow> (rwx \<Rightarrow> rwx) \<Rightarrow> rwx \<Rightarrow> rwx" where
  "cas_rnext n old new yes no s = (if rnext n s = old then yes (set_rnext n new s) else no s)"

section \<open>What the list says\<close>

definition rwl_held :: "rwx \<Rightarrow> bool" where
  "rwl_held s \<longleftrightarrow> rwp_mkd (rnext (rx_tail s) s)"

definition rwl_has_waiters :: "rwx \<Rightarrow> bool" where
  "rwl_has_waiters s \<longleftrightarrow> \<not> rwp_null (rnext (rx_head s) s) \<and> \<not> rwp_mkd (rnext (rx_head s) s)"

text \<open>\<open>rcount\<close> asks again while the tail lags behind; \<open>None\<close> is another round.\<close>

definition rwl_rcount_round :: "rwx \<Rightarrow> int option" where
  "rwl_rcount_round s = (let w = rnext (rx_tail s) s in
     if rx_head s = rx_tail s \<and> \<not> rwp_mkd w then Some 0 else if rwp_mkd w then Some (rwp_rcount w) else None)"

definition rwa_held :: "rwx \<Rightarrow> int option" where
  "rwa_held s = (case rwl_rcount_round s of None \<Rightarrow> None | Some rc \<Rightarrow> Some (if rc < 0 then 1 else rc))"

text \<open>\<open>count_waiters\<close> walks the list; the fuel bounds the walk by the number of nodes there are.\<close>

fun rwl_count_from :: "nat \<Rightarrow> nat \<Rightarrow> rwx \<Rightarrow> nat" where
  "rwl_count_from 0 e s = 0"
| "rwl_count_from (Suc k) e s = (case rp_val (rnext e s) of RwNode n \<Rightarrow> Suc (rwl_count_from k n s) | RwSentinel \<Rightarrow> 1 | _ \<Rightarrow> 0)"

definition rwl_count :: "rwx \<Rightarrow> nat" where
  "rwl_count s = rwl_count_from (rx_fresh s) (rx_head s) s"

section \<open>Acquiring\<close>

text \<open>\<open>acquire_or_wait\<close> turns an upgradeable request into one to read or to write by what the data is now, and
  takes a node, which \<open>push\<close> empties.\<close>

definition local_wtype :: "int \<Rightarrow> rwx \<Rightarrow> int" where
  "local_wtype w s = (if w = wt_Upgradeable then (if rx_data s \<noteq> None then wt_Read else wt_Write) else w)"

definition rw_push_begin :: "nat \<Rightarrow> nat \<Rightarrow> int \<Rightarrow> rwx \<Rightarrow> rwx" where
  "rw_push_begin t ev w s = (let e = rx_fresh s in
     rgo t (RPush ev (local_wtype w s) e PHead) (s\<lparr> rx_fresh := e + 1, rx_nodes := (rx_nodes s)(e := rwnode_new None wt_None) \<rparr>))"

definition rw_let_in :: "nat \<Rightarrow> int \<Rightarrow> rwx \<Rightarrow> rwx" where
  "rw_let_in ev m s = s\<lparr> rx_holding := (ev, m) # rx_holding s \<rparr>"

text \<open>Which of the four cases of \<open>push\<close> applies to the copies it read.\<close>

definition rw_push_case :: "int \<Rightarrow> nat \<Rightarrow> nat \<Rightarrow> rwptr \<Rightarrow> rwx \<Rightarrow> rw_push_at" where
  "rw_push_case m h q w s =
     (if h = q \<and> rwp_null w then PFree q w
      else if h = q \<and> rwp_mkd w \<and> rwp_mode w \<and> m = wt_Read then PShare q w
      else if h = q \<and> rwp_mkd w \<and> \<not> (m = wt_Read \<and> rwp_mode w) then PLink True q w
      else if h \<noteq> q \<and> \<not> rwp_mkd (rnext h s) \<and> rwp_mkd w then PLink False q w
      else PHead)"

definition rw_push_step :: "nat \<Rightarrow> nat \<Rightarrow> int \<Rightarrow> nat \<Rightarrow> rw_push_at \<Rightarrow> rwx \<Rightarrow> rwx" where
  "rw_push_step t ev m e p s = (let at = (\<lambda>p. rgo t (RPush ev m e p)); let_in = (\<lambda>s. rgo t (RPushed m) (rw_let_in ev m s)) in
     case p of
      PHead \<Rightarrow> at (PTail (rx_head s)) s
    | PTail h \<Rightarrow> at (PNext h (rx_tail s)) s
    | PNext h q \<Rightarrow> at (rw_push_case m h q (rnext q s) s) s
    | PFree q w \<Rightarrow> cas_rnext q w (rwp_state 1 (m = wt_Read) True (next_epoch w)) let_in (at PHead) s
    | PShare q w \<Rightarrow> cas_rnext q w (rwp_state (rwp_rcount w + 1) True True (next_epoch w)) let_in (at PHead) s
    | PLink first q w \<Rightarrow> cas_rnext q w (rwp_node (RwNode e) (next_epoch w)) (at (PSwing first q)) (at PHead)
        (set_rnext e (rwp_state (rwp_rcount w) (rwp_mode w) True (next_epoch w)) s)
    | PSwing first q \<Rightarrow> at (PMode first q) (if rx_tail s = q then s\<lparr> rx_tail := e \<rparr> else s)
    | PMode first q \<Rightarrow>
        if first \<and> rn_val (rx_nodes s q) \<noteq> None then rgo t RFail s else at (PStore first q) (set_rmode q m s)
    | PStore first q \<Rightarrow> rgo t (if first \<and> rn_val (rx_nodes s q) \<noteq> None then RFail else RIdle)
        (set_rval q (Some ev) (s\<lparr> rx_waiting := (ev, m) # rx_waiting s \<rparr>)))"

section \<open>Releasing\<close>

definition rw_pop_begin :: "nat \<Rightarrow> aqe \<Rightarrow> rwx \<Rightarrow> rwx" where
  "rw_pop_begin t h s = rgo t (RPop (rx_wtype s) QHead) (s\<lparr> rx_holding := remove1 h (rx_holding s) \<rparr>)"

text \<open>Which of the three cases of \<open>pop\<close> applies; the last two count the holders out or let waiters in.\<close>

definition rw_pop_case :: "int \<Rightarrow> nat \<Rightarrow> nat \<Rightarrow> rwptr \<Rightarrow> rw_pc" where
  "rw_pop_case m h q w =
     (if \<not> rwp_mkd w then RPop m QHead
      else if (m = wt_Read) \<noteq> rwp_mode w then RFail
      else if h = q \<and> rwp_rcount w = 1 then RPop m (QEmpty q w)
      else if rwp_rcount w > 1 then RPop m (QDec q w)
      else if h \<noteq> q \<and> rwp_rcount w = 1 then RPop m (QFirst h q w)
      else RPop m QHead)"

definition rw_pop_step :: "nat \<Rightarrow> int \<Rightarrow> rw_pop_at \<Rightarrow> rwx \<Rightarrow> rwx" where
  "rw_pop_step t m p s = (let at = (\<lambda>p. rgo t (RPop m p)) in
     case p of
      QHead \<Rightarrow> at (QTail (rx_head s)) s
    | QTail h \<Rightarrow> at (QNext h (rx_tail s)) s
    | QNext h q \<Rightarrow> rgo t (rw_pop_case m h q (rnext q s)) s
    | QEmpty q w \<Rightarrow> cas_rnext q w (rwp_state 0 False False (next_epoch w)) (rgo t RIdle) (at QHead) s
    | QDec q w \<Rightarrow> cas_rnext q w (rwp_state (rwp_rcount w - 1) (rwp_mode w) (rwp_mkd w) (next_epoch w)) (rgo t RIdle) (at QHead) s
    | QFirst h q w \<Rightarrow>
        if rn_val (rx_nodes s h) \<noteq> None \<and> \<not> rwp_null (rnext h s) \<and> rn_mode (rx_nodes s h) \<noteq> wt_None \<and> \<not> rwp_mkd (rnext h s)
        then rgo t (RTake m h h 1 (TRun q w)) s else at QHead s)"

text \<open>The run of readers at the head of the list, one node a step.\<close>

definition rw_run_case :: "int \<Rightarrow> nat \<Rightarrow> nat \<Rightarrow> nat \<Rightarrow> nat \<Rightarrow> rwptr \<Rightarrow> rwx \<Rightarrow> rw_pc" where
  "rw_run_case m h el n q w s = (case rp_val (rnext h s) of
      RwNode nx \<Rightarrow>
        if rn_mode (rx_nodes s el) = wt_Read \<and> rn_val (rx_nodes s h) \<noteq> None \<and> rn_mode (rx_nodes s nx) = wt_Read \<and>
           \<not> rwp_mkd (rnext nx s)
        then RTake m nx el (n + 1) (TRun q w) else RTake m h el n (TPre q w)
    | RwSentinel \<Rightarrow> RPop m QHead
    | RwState rc md mk \<Rightarrow>
        if rwp_null (rnext h s) \<or> rn_mode (rx_nodes s el) \<noteq> wt_Read \<or> rn_val (rx_nodes s h) = None
        then RTake m h el n (TPre q w) else RWild)"

text \<open>Taking nodes out.  The writer that is let in behind readers changes the state before the head moves, the
  others after; both go on with the tail they find.\<close>

definition rw_take_step :: "nat \<Rightarrow> int \<Rightarrow> nat \<Rightarrow> nat \<Rightarrow> nat \<Rightarrow> rw_take_at \<Rightarrow> rwx \<Rightarrow> rwx" where
  "rw_take_step t m h el n p s = (let at = (\<lambda>p. rgo t (RTake m h el n p)); mode = rn_mode (rx_nodes s el) in
     case p of
      TRun q w \<Rightarrow> rgo t (rw_run_case m h el n q w s) s
    | TPre q w \<Rightarrow>
        if rp_val (rnext h s) = RwNode q \<and> mode = wt_Write \<and> rwp_mode w
        then cas_rnext q w (rwp_state 1 False True (next_epoch w)) (at (TMove q w)) (at TPreTail) s
        else at (TMove q w) s
    | TPreTail \<Rightarrow> at (TPreNext (rx_tail s)) s
    | TPreNext q \<Rightarrow> at (TPre q (rnext q s)) s
    | TMove q w \<Rightarrow>
        if rx_head s = el
        then (case rp_val (rnext h s) of RwNode nx \<Rightarrow> at (TCommit q w) (s\<lparr> rx_head := nx \<rparr>) | _ \<Rightarrow> rgo t RWild s)
        else rgo t (RPop m QHead) s
    | TCommit q w \<Rightarrow>
        if q = rx_tail s \<and> rwp_mkd (rnext q s)
        then cas_rnext q w (rwp_state (int n) (mode = wt_Read) True (next_epoch w)) (at TCut) (at TReTail) s
        else at TReTail s
    | TReTail \<Rightarrow> at (TReNext (rx_tail s)) s
    | TReNext q \<Rightarrow> at (TCommit q (rnext q s)) s
    | TCut \<Rightarrow> rgo t (RWait el (RwNode el)) (set_rnext h (rwp_node RwSentinel 0) s))"

text \<open>Waiting until the events of the nodes taken out are stored, and what \<open>release\<close> does with each node.\<close>

definition rw_wait_step :: "nat \<Rightarrow> nat \<Rightarrow> rw_val \<Rightarrow> rwx \<Rightarrow> rwx" where
  "rw_wait_step t el v s = (case v of
      RwNode e \<Rightarrow> if rn_val (rx_nodes s e) = None then s else rgo t (RWait el (rp_val (rnext e s))) s
    | RwSentinel \<Rightarrow> rgo t (RGive (RwNode el)) s
    | RwState rc md mk \<Rightarrow> rgo t (if v = RwState 0 False False then RGive (RwNode el) else RWild) s)"

definition rw_give_step :: "nat \<Rightarrow> rw_val \<Rightarrow> rwx \<Rightarrow> rwx" where
  "rw_give_step t v s = (case v of
      RwNode e \<Rightarrow>
        if rwp_mkd (rnext e s) then rgo t RFail s
        else let m = rn_mode (rx_nodes s e); s1 = s\<lparr> rx_wtype := m \<rparr> in
          rgo t (RGive (rp_val (rnext e s))) (case rn_val (rx_nodes s e) of
            None \<Rightarrow> s1
          | Some ev \<Rightarrow> s1\<lparr> rx_holding := (ev, m) # rx_holding s, rx_waiting := remove1 (ev, m) (rx_waiting s) \<rparr>)
    | RwSentinel \<Rightarrow> rgo t RIdle s
    | RwState rc md mk \<Rightarrow> rgo t (if v = RwState 0 False False then RIdle else RWild) s)"

definition rx_step :: "nat \<Rightarrow> rwx \<Rightarrow> rwx" where
  "rx_step t s = (case rx_pc s t of
      RPush ev m e p \<Rightarrow> rw_push_step t ev m e p s
    | RPushed m \<Rightarrow> rgo t RIdle (s\<lparr> rx_wtype := m \<rparr>)
    | RPop m p \<Rightarrow> rw_pop_step t m p s
    | RTake m h el n p \<Rightarrow> rw_take_step t m h el n p s
    | RWait el v \<Rightarrow> rw_wait_step t el v s
    | RGive v \<Rightarrow> rw_give_step t v s
    | _ \<Rightarrow> s)"

section \<open>Interleavings\<close>

text \<open>A thread begins to acquire, begins to release what is held, or takes a step; an action that is not
  possible changes nothing.\<close>

datatype rx_action = RwAcquire nat nat int | RwRelease nat aqe | RwStep nat

definition rx_act :: "rx_action \<Rightarrow> rwx \<Rightarrow> rwx" where
  "rx_act a s = (case a of
      RwAcquire t ev w \<Rightarrow> if rx_pc s t = RIdle then rw_push_begin t ev w s else s
    | RwRelease t h \<Rightarrow> if rx_pc s t = RIdle \<and> h \<in> set (rx_holding s) then rw_pop_begin t h s else s
    | RwStep t \<Rightarrow> rx_step t s)"

definition rx_run :: "rx_action list \<Rightarrow> rwx \<Rightarrow> rwx" where
  "rx_run as s = fold rx_act as s"

section \<open>Used by one thread at a time\<close>

lemmas rx_step_simps = rx_step_def rw_push_step_def rw_pop_step_def rw_take_step_def rw_wait_step_def rw_give_step_def
  rw_push_case_def rw_pop_case_def rw_run_case_def
lemmas rx_simps = rx_step_simps rgo_def cas_rnext_def set_rnext_def set_rval_def set_rmode_def rnext_def
  rwp_state_def rwp_node_def rwp_mkd_def rwp_mode_def rwp_rcount_def rwp_null_def rw_let_in_def Let_def

definition rx_steps :: "nat \<Rightarrow> nat \<Rightarrow> rwx \<Rightarrow> rwx" where
  "rx_steps k t s = rx_run (replicate k (RwStep t)) s"

lemma rx_steps_simps:
  "rx_steps 0 t s = s" "rx_steps (Suc k) t s = rx_steps k t (rx_step t s)"
  by (simp_all add: rx_steps_def rx_run_def rx_act_def)

lemma rx_steps_add: "rx_steps (j + k) t s = rx_steps k t (rx_steps j t s)"
  by (simp add: rx_steps_def rx_run_def replicate_add)

lemma rx_steps_then: "rx_steps j t s = s1 \<Longrightarrow> rx_steps k t s1 = s2 \<Longrightarrow> rx_steps (j + k) t s = s2"
  by (simp add: rx_steps_add)

lemma rx_steps_idle: "rx_pc s t = RIdle \<Longrightarrow> rx_steps k t s = s"
  by (induction k) (simp_all add: rx_steps_simps rx_step_def)

lemma rx_steps_enough: "rx_steps j t s = s' \<Longrightarrow> rx_pc s' t = RIdle \<Longrightarrow> j \<le> k \<Longrightarrow> rx_steps k t s = s'"
  using rx_steps_add[of j "k - j" t s] rx_steps_idle[of s' t "k - j"] by simp

text \<open>An operation that no other thread interleaves: a thread takes enough steps to end it.\<close>

datatype rx_op = RwTake nat nat int | RwLeave nat aqe

definition rx_whole :: "rx_op \<Rightarrow> rwx \<Rightarrow> rwx" where
  "rx_whole op s = (case op of
      RwTake t ev w \<Rightarrow> rx_steps 9 t (rx_act (RwAcquire t ev w) s)
    | RwLeave t h \<Rightarrow> rx_steps (3 * rx_fresh s + 15) t (rx_act (RwRelease t h) s))"

text \<open>A piece of the list: its nodes hold these waiters and lead from one pointer to another.\<close>

fun rlist :: "rw_val \<Rightarrow> nat list \<Rightarrow> aqe list \<Rightarrow> (nat \<Rightarrow> rwnode) \<Rightarrow> rw_val \<Rightarrow> bool" where
  "rlist v [] [] m v' \<longleftrightarrow> v = v'"
| "rlist v (h # ns) (p # ws) m v' \<longleftrightarrow> v = RwNode h \<and> rn_val (m h) = Some (fst p) \<and> rn_mode (m h) = snd p \<and>
     rlist (rp_val (rn_next (m h))) ns ws m v'"
| "rlist v _ _ m v' \<longleftrightarrow> False"

lemma rlist_cong: "(\<And>n. n \<in> set ns \<Longrightarrow> m' n = m n) \<Longrightarrow> rlist v ns ws m' v' = rlist v ns ws m v'"
  by (induction v ns ws m v' rule: rlist.induct) auto

lemma rlist_length: "rlist v ns ws m v' \<Longrightarrow> length ns = length ws"
  by (induction v ns ws m v' rule: rlist.induct) auto

lemma rlist_append:
  "length ns = length ws \<Longrightarrow> rlist v (ns @ ns') (ws @ ws') m v'' \<longleftrightarrow> (\<exists>v'. rlist v ns ws m v' \<and> rlist v' ns' ws' m v'')"
proof (induction ns arbitrary: v ws)
  case (Cons h ns)
  then show ?case by (cases ws) auto
qed simp

lemma rlist_snoc:
  assumes "rlist v ns ws m (RwNode q)" "q \<notin> set ns" "e \<notin> set ns" "e \<noteq> q"
    "rn_val (m' q) = Some (fst p)" "rn_mode (m' q) = snd p" "rp_val (rn_next (m' q)) = RwNode e" "\<And>n. n \<notin> {q, e} \<Longrightarrow> m' n = m n"
  shows "rlist v (ns @ [q]) (ws @ [p]) m' (RwNode e)"
proof -
  have "rlist v ns ws m' (RwNode q)" using assms rlist_cong[of ns m' m] by fastforce
  then show ?thesis using assms rlist_append[OF rlist_length[OF assms(1)], of v "[q]" "[p]" m' "RwNode e"] by auto
qed

definition rw_rest :: "nat list \<Rightarrow> nat \<Rightarrow> aqe list \<Rightarrow> rw_val \<Rightarrow> rwx \<Rightarrow> bool" where
  "rw_rest ns q ws v s \<longleftrightarrow> (\<forall>t. rx_pc s t = RIdle) \<and> distinct ns \<and> q \<notin> set ns \<and> (\<forall>n\<in>set (q # ns). n < rx_fresh s) \<and>
     rx_tail s = q \<and> rlist (RwNode (rx_head s)) ns ws (rx_nodes s) (RwNode q) \<and>
     rn_val (rx_nodes s q) = None \<and> rn_mode (rx_nodes s q) = wt_None \<and> rp_val (rn_next (rx_nodes s q)) = v"

lemma rw_rest_idle: "rw_rest ns q ws v s \<Longrightarrow> rx_pc s t = RIdle"
  by (simp add: rw_rest_def)

text \<open>States written out.\<close>

abbreviation rxs where
  "rxs d nodes h q wt f pc hs ws \<equiv> \<lparr> rx_data = d, rx_nodes = nodes, rx_head = h, rx_tail = q, rx_wtype = wt, rx_fresh = f,
     rx_pc = pc, rx_holding = hs, rx_waiting = ws \<rparr>"

lemmas rx_lit_simps = numeral_nat rx_steps_simps rx_simps rw_push_begin_def rw_pop_begin_def local_wtype_def rwnode_new_def

text \<open>Taking the atomic when it is free, sharing it, and waiting.\<close>

lemma rx_free_steps:
  assumes "rp_val (rn_next (nodes q)) = RwState 0 False False" "q < f" "w \<noteq> wt_Upgradeable"
  shows "rx_steps 5 t (rw_push_begin t ev w (rxs d nodes q q wt f pc hs ws)) =
    rxs d (nodes(f := rwnode_new None wt_None, q := (nodes q)\<lparr> rn_next := rwp_state 1 (w = wt_Read) True (next_epoch (rn_next (nodes q))) \<rparr>))
      q q w (Suc f) (pc(t := RIdle)) ((ev, w) # hs) ws"
  using assms by (simp add: rx_lit_simps)

lemma rx_share_steps:
  assumes "rp_val (rn_next (nodes q)) = RwState n True True" "q < f"
  shows "rx_steps 5 t (rw_push_begin t ev wt_Read (rxs d nodes q q wt f pc hs ws)) =
    rxs d (nodes(f := rwnode_new None wt_None, q := (nodes q)\<lparr> rn_next := rwp_state (n + 1) True True (next_epoch (rn_next (nodes q))) \<rparr>))
      q q wt_Read (Suc f) (pc(t := RIdle)) ((ev, wt_Read) # hs) ws"
  using assms by (simp add: rx_lit_simps)

abbreviation waiter_node where
  "waiter_node ev w f b \<equiv> b\<lparr> rn_next := rwp_node (RwNode f) (next_epoch (rn_next b)), rn_mode := w, rn_val := Some ev \<rparr>"

lemma rx_wait_steps:
  assumes "rp_val (rn_next (nodes q)) = RwState n md True" "rn_val (nodes q) = None" "q < f" "h < f" "w \<noteq> wt_Upgradeable"
    and "h = q \<and> \<not> (w = wt_Read \<and> md) \<or> h \<noteq> q \<and> rp_val (rn_next (nodes h)) = RwNode k"
  shows "rx_steps 7 t (rw_push_begin t ev w (rxs d nodes h q wt f pc hs ws)) =
    rxs d (nodes(f := (rwnode_new None wt_None)\<lparr> rn_next := rwp_state n md True (next_epoch (rn_next (nodes q))) \<rparr>,
        q := waiter_node ev w f (nodes q)))
      h f wt (Suc f) (pc(t := RIdle)) hs ((ev, w) # ws)"
proof -
  consider "h = q" "w \<noteq> wt_Read" | "h = q" "md = False" | "h \<noteq> q" "rp_val (rn_next (nodes h)) = RwNode k" using assms(6) by blast
  then show ?thesis using assms(1-5) by cases (simp_all add: rx_lit_simps)
qed

lemma rx_take_run:
  assumes "rx_steps k t (rw_push_begin t ev w s) = s'" "rx_pc s t = RIdle" "rx_pc s' t = RIdle" "k \<le> 9"
  shows "rx_whole (RwTake t ev w) s = s'"
  using rx_steps_enough[OF assms(1,3,4)] assms(2) by (simp add: rx_whole_def rx_act_def)

lemma rx_take_free:
  assumes r: "rw_rest [] q [] (RwState 0 False False) s" and w: "w \<noteq> wt_Upgradeable"
  shows "rw_rest [] q [] (RwState 1 (w = wt_Read) True) (rx_whole (RwTake t ev w) s) \<and>
    rx_holding (rx_whole (RwTake t ev w) s) = (ev, w) # rx_holding s \<and> rx_wtype (rx_whole (RwTake t ev w) s) = w"
proof (cases s)
  case (fields d nodes h q' wt f pc hs ws)
  then have q: "h = q" "q' = q" "q < f" "rp_val (rn_next (nodes q)) = RwState 0 False False" using r by (simp_all add: rw_rest_def)
  note e = rx_take_run[OF rx_free_steps[where nodes = nodes and q = q and f = f and w = w, OF q(4,3) w]]
  show ?thesis unfolding fields q(1,2) using r by (subst (1 2 3) e) (simp_all add: fields q rw_rest_def rwp_state_def less_SucI)
qed

lemma rx_take_share:
  assumes r: "rw_rest [] q [] (RwState n True True) s"
  shows "rw_rest [] q [] (RwState (n + 1) True True) (rx_whole (RwTake t ev wt_Read) s) \<and>
    rx_holding (rx_whole (RwTake t ev wt_Read) s) = (ev, wt_Read) # rx_holding s \<and> rx_wtype (rx_whole (RwTake t ev wt_Read) s) = wt_Read"
proof (cases s)
  case (fields d nodes h q' wt f pc hs ws)
  then have q: "h = q" "q' = q" "q < f" "rp_val (rn_next (nodes q)) = RwState n True True" using r by (simp_all add: rw_rest_def)
  note e = rx_take_run[OF rx_share_steps[where nodes = nodes and q = q and f = f and n = n, OF q(4,3)]]
  show ?thesis unfolding fields q(1,2) using r by (subst (1 2 3) e) (simp_all add: fields q rw_rest_def rwp_state_def less_SucI)
qed


lemma rw_rest_shape:
  assumes r: "rw_rest ns q ws v s"
  shows "rx_head s < rx_fresh s \<and> (rx_head s = q \<longleftrightarrow> ws = []) \<and> (ws \<noteq> [] \<longrightarrow> (\<exists>k. rp_val (rnext (rx_head s) s) = RwNode k)) \<and>
    rx_fresh s \<notin> set ns"
proof -
  have l: "rlist (RwNode (rx_head s)) ns ws (rx_nodes s) (RwNode q)" "q \<notin> set ns" "\<forall>n\<in>set (q # ns). n < rx_fresh s"
    using r by (simp_all add: rw_rest_def)
  have f: "rx_fresh s \<notin> set ns" using l(3) by auto
  show ?thesis
  proof (cases ns)
    case Nil
    then show ?thesis using l f by (cases ws) auto
  next
    case (Cons n0 ns0)
    then obtain p ws0 where ws: "ws = p # ws0" using l(1) by (cases ws) auto
    have "\<exists>k. rp_val (rnext (rx_head s) s) = RwNode k" using l(1) Cons ws by (cases ns0; cases ws0) (auto simp: rnext_def)
    then show ?thesis using l f Cons ws by auto
  qed
qed

lemma rx_take_wait:
  assumes r: "rw_rest ns q ws (RwState n md True) s" and w: "w \<noteq> wt_Upgradeable" "\<not> (ws = [] \<and> w = wt_Read \<and> md)"
  shows "\<exists>e. rw_rest (ns @ [q]) e (ws @ [(ev, w)]) (RwState n md True) (rx_whole (RwTake t ev w) s) \<and>
    rx_holding (rx_whole (RwTake t ev w) s) = rx_holding s \<and> rx_wtype (rx_whole (RwTake t ev w) s) = rx_wtype s"
proof (cases s)
  case (fields d nodes h q' wt f pc hs wg)
  then have q: "q' = q" "q < f" "rp_val (rn_next (nodes q)) = RwState n md True" "rn_val (nodes q) = None" "rn_mode (nodes q) = wt_None"
    "rlist (RwNode h) ns ws nodes (RwNode q)" "q \<notin> set ns" "distinct ns" "\<forall>n\<in>set ns. n < f" "\<forall>t. pc t = RIdle"
    using r by (simp_all add: rw_rest_def)
  have h: "h < f" "h = q \<longleftrightarrow> ws = []" "ws \<noteq> [] \<Longrightarrow> \<exists>k. rp_val (rn_next (nodes h)) = RwNode k" "f \<notin> set ns"
    using rw_rest_shape[OF r] fields by (auto simp: rnext_def)
  have "\<exists>k. h = q \<and> \<not> (w = wt_Read \<and> md) \<or> h \<noteq> q \<and> rp_val (rn_next (nodes h)) = RwNode k" using h w by blast
  then obtain k where k: "h = q \<and> \<not> (w = wt_Read \<and> md) \<or> h \<noteq> q \<and> rp_val (rn_next (nodes h)) = RwNode k" by blast
  note e = rx_take_run[OF rx_wait_steps[OF q(3,4,2) h(1) w(1) k]]
  let ?m = "nodes(f := (rwnode_new None wt_None)\<lparr> rn_next := rwp_state n md True (next_epoch (rn_next (nodes q))) \<rparr>,
        q := waiter_node ev w f (nodes q))"
  have "rlist (RwNode h) (ns @ [q]) (ws @ [(ev, w)]) ?m (RwNode f)"
    by (rule rlist_snoc[OF q(6,7) h(4)]) (use q(2) in \<open>simp_all add: rwp_node_def\<close>)
  moreover have "rx_whole (RwTake t ev w) s = rxs d ?m h f wt (Suc f) (pc(t := RIdle)) hs ((ev, w) # wg)"
    unfolding fields q(1) by (rule e) (simp_all add: q(10))
  ultimately have "rw_rest (ns @ [q]) f (ws @ [(ev, w)]) (RwState n md True) (rx_whole (RwTake t ev w) s)"
    using q h(4) by (auto simp: rw_rest_def rwnode_new_def rwp_state_def)
  then show ?thesis using \<open>rx_whole (RwTake t ev w) s = _\<close> fields by auto
qed

text \<open>Releasing: as one of several holders, as the last one with nobody waiting.\<close>

lemma rx_leave_run:
  assumes "rx_steps k t (rw_pop_begin t h s) = s'" "h \<in> set (rx_holding s)" "rx_pc s t = RIdle" "rx_pc s' t = RIdle" "k \<le> 3 * rx_fresh s + 15"
  shows "rx_whole (RwLeave t h) s = s'"
  using rx_steps_enough[OF assms(1,4,5)] assms(2,3) by (simp add: rx_whole_def rx_act_def)

lemma rx_last_steps:
  assumes "rp_val (rn_next (nodes q)) = RwState 1 md True" "md = (wt = wt_Read)"
  shows "rx_steps 4 t (rw_pop_begin t p (rxs d nodes q q wt f pc hs ws)) =
    rxs d (nodes(q := (nodes q)\<lparr> rn_next := rwp_state 0 False False (next_epoch (rn_next (nodes q))) \<rparr>)) q q wt f
      (pc(t := RIdle)) (remove1 p hs) ws"
  using assms by (simp add: rx_lit_simps)

lemma rx_dec_steps:
  assumes "rp_val (rn_next (nodes q)) = RwState n True True" "wt = wt_Read" "n > 1"
  shows "rx_steps 4 t (rw_pop_begin t p (rxs d nodes h q wt f pc hs ws)) =
    rxs d (nodes(q := (nodes q)\<lparr> rn_next := rwp_state (n - 1) True True (next_epoch (rn_next (nodes q))) \<rparr>)) h q wt f
      (pc(t := RIdle)) (remove1 p hs) ws"
  using assms by (simp add: rx_lit_simps)

lemma rx_leave_last:
  assumes r: "rw_rest [] q [] (RwState 1 md True) s" and w: "md = (rx_wtype s = wt_Read)" "p \<in> set (rx_holding s)"
  shows "rw_rest [] q [] (RwState 0 False False) (rx_whole (RwLeave t p) s) \<and>
    rx_holding (rx_whole (RwLeave t p) s) = remove1 p (rx_holding s) \<and> rx_wtype (rx_whole (RwLeave t p) s) = rx_wtype s"
proof (cases s)
  case (fields d nodes h q' wt f pc hs ws)
  then have q: "h = q" "q' = q" "rp_val (rn_next (nodes q)) = RwState 1 md True" "md = (wt = wt_Read)" using r w by (simp_all add: rw_rest_def)
  note e = rx_leave_run[OF rx_last_steps[where nodes = nodes and q = q and md = md and wt = wt, OF q(3,4)]]
  show ?thesis unfolding fields q(1,2) using r w by (subst (1 2 3) e) (simp_all add: fields q rw_rest_def rwp_state_def)
qed

lemma rx_leave_dec:
  assumes r: "rw_rest ns q ws (RwState n True True) s" and w: "rx_wtype s = wt_Read" "p \<in> set (rx_holding s)" "n > 1"
  shows "rw_rest ns q ws (RwState (n - 1) True True) (rx_whole (RwLeave t p) s) \<and>
    rx_holding (rx_whole (RwLeave t p) s) = remove1 p (rx_holding s) \<and> rx_wtype (rx_whole (RwLeave t p) s) = rx_wtype s"
proof (cases s)
  case (fields d nodes h q' wt f pc hs wg)
  then have q: "q' = q" "rp_val (rn_next (nodes q)) = RwState n True True" "wt = wt_Read" "q \<notin> set ns"
    "rlist (RwNode h) ns ws nodes (RwNode q)" using r w by (simp_all add: rw_rest_def)
  let ?m = "nodes(q := (nodes q)\<lparr> rn_next := rwp_state (n - 1) True True (next_epoch (rn_next (nodes q))) \<rparr>)"
  have l: "rlist (RwNode h) ns ws ?m (RwNode q)" using q(4,5) rlist_cong[of ns ?m nodes] by fastforce
  have "rx_whole (RwLeave t p) s = rxs d ?m h q wt f (pc(t := RIdle)) (remove1 p hs) wg"
    unfolding fields q(1) by (rule rx_leave_run[OF rx_dec_steps[where nodes = nodes and q = q and n = n and wt = wt, OF q(2,3) w(3)]]) (use r w in \<open>simp_all add: fields rw_rest_def\<close>)
  then show ?thesis using r l by (simp add: fields q(1) rw_rest_def rwp_state_def)
qed


text \<open>Releasing as the last holder with waiters: the walk over the readers that are let in together.\<close>

lemma rlist_start: "rlist v ns ws m (RwNode q) \<Longrightarrow> \<exists>k. v = RwNode k \<and> k \<in> set (ns @ [q]) \<and> (ns = [] \<longrightarrow> k = q)"
  by (cases "(v, ns, ws, m, RwNode q)" rule: rlist.cases) auto

lemma rx_run_steps:
  assumes "rlist (RwNode h) (h # ms @ ns2) (p # rs @ rest) nodes (RwNode q)" "length ms = length rs" "\<forall>x\<in>set rs. snd x = wt_Read"
    and "rs \<noteq> [] \<longrightarrow> rn_mode (nodes el) = wt_Read" "\<not> (rn_mode (nodes el) = wt_Read \<and> rest \<noteq> [] \<and> snd (hd rest) = wt_Read)"
    and "rn_mode (nodes q) = wt_None" "pc t = RTake m h el n (TRun q w)"
  shows "rx_steps (length rs + 1) t (rxs d nodes H Q wt f pc hs wg) =
    rxs d nodes H Q wt f (pc(t := RTake m (last (h # ms)) el (n + length rs) (TPre q w))) hs wg"
  using assms
proof (induction ms arbitrary: h p rs n pc)
  case Nil
  then have rs: "rs = []" by simp
  obtain k where k: "rp_val (rn_next (nodes h)) = RwNode k" "\<not> (rn_mode (nodes el) = wt_Read \<and> rn_mode (nodes k) = wt_Read)"
  proof (cases rest)
    case Nil
    then show ?thesis using that[of q] Nil.prems rs by (cases ns2) auto
  next
    case (Cons p2 rest2)
    then obtain k ns3 where "ns2 = k # ns3" using Nil.prems(1) rs by (cases ns2) auto
    then show ?thesis using that[of k] Nil.prems Cons rs by auto
  qed
  then show ?case using Nil.prems rs by (auto simp: rx_steps_simps rx_simps)
next
  case (Cons m1 ms)
  then obtain p1 rs1 where rs: "rs = p1 # rs1" by (cases rs) auto
  have l: "rlist (RwNode m1) (m1 # ms @ ns2) (p1 # rs1 @ rest) nodes (RwNode q)" "rp_val (rn_next (nodes h)) = RwNode m1"
    "rn_val (nodes h) \<noteq> None" "rn_mode (nodes m1) = wt_Read" using Cons.prems rs by auto
  then have "rlist (rp_val (rn_next (nodes m1))) (ms @ ns2) (rs1 @ rest) nodes (RwNode q)" by simp
  from rlist_start[OF this] obtain k where k: "rp_val (rn_next (nodes m1)) = RwNode k" by blast
  let ?pc = "pc(t := RTake m m1 el (n + 1) (TRun q w))"
  have s1: "rx_step t (rxs d nodes H Q wt f pc hs wg) = rxs d nodes H Q wt f ?pc hs wg"
    using Cons.prems(4,7) rs l k by (simp add: rx_simps)
  have "rx_steps (length rs1 + 1) t (rxs d nodes H Q wt f ?pc hs wg) =
    rxs d nodes H Q wt f (?pc(t := RTake m (last (m1 # ms)) el (n + 1 + length rs1) (TPre q w))) hs wg"
    by (rule Cons.IH[OF l(1)]) (use Cons.prems rs in auto)
  moreover have "rx_steps (length rs + 1) t (rxs d nodes H Q wt f pc hs wg) = rx_steps (length rs1 + 1) t (rxs d nodes H Q wt f ?pc hs wg)"
    using rx_steps_simps(2)[of "length rs" t "rxs d nodes H Q wt f pc hs wg"] s1 rs by simp
  ultimately show ?case using rs by (simp add: fun_upd_def cong: if_cong)
qed

lemma rx_move_steps:
  assumes "rp_val (rn_next (nodes h)) = RwNode nx" "w = rn_next (nodes q)" "rwp_mkd w" "h \<noteq> q" "el \<noteq> q" "pc t = RTake m h el n (TPre q w)"
  shows "\<exists>k e. k \<le> 7 \<and> rx_steps k t (rxs d nodes el q wt f pc hs wg) =
    rxs d (nodes(q := (nodes q)\<lparr> rn_next := \<lparr> rp_epoch = e, rp_val = RwState (int n) (rn_mode (nodes el) = wt_Read) True \<rparr> \<rparr>,
      h := (nodes h)\<lparr> rn_next := rwp_node RwSentinel 0 \<rparr>)) nx q wt f (pc(t := RWait el (RwNode el))) hs wg"
proof (cases "nx = q \<and> rn_mode (nodes el) = wt_Write \<and> rwp_mode w")
  case True
  obtain c where "rp_val w = RwState c True True" using True assms(3) by (cases "rp_val w") (auto simp: rwp_mkd_def rwp_mode_def)
  moreover obtain ep v where "w = \<lparr> rp_epoch = ep, rp_val = v \<rparr>" by (cases w)
  ultimately have w: "w = \<lparr> rp_epoch = ep, rp_val = RwState c True True \<rparr>" "rn_next (nodes q) = \<lparr> rp_epoch = ep, rp_val = RwState c True True \<rparr>"
    using assms(2) by simp_all
  have "rx_steps 7 t (rxs d nodes el q wt f pc hs wg) =
    rxs d (nodes(q := (nodes q)\<lparr> rn_next := \<lparr> rp_epoch = next_epoch \<lparr> rp_epoch = next_epoch w, rp_val = RwState 1 False True \<rparr>,
        rp_val = RwState (int n) (rn_mode (nodes el) = wt_Read) True \<rparr> \<rparr>,
      h := (nodes h)\<lparr> rn_next := rwp_node RwSentinel 0 \<rparr>)) nx q wt f (pc(t := RWait el (RwNode el))) hs wg"
    using assms(1,4-6) True w by (simp add: numeral_nat rx_steps_simps rx_simps)
  then show ?thesis by blast
next
  case False
  have s1: "rx_step t (rxs d nodes el q wt f pc hs wg) = rxs d nodes el q wt f (pc(t := RTake m h el n (TMove q w))) hs wg"
    using False assms(1,6) by (auto simp: rx_step_def rw_take_step_def rgo_def rnext_def Let_def)
  have "rx_steps 3 t (rxs d nodes el q wt f (pc(t := RTake m h el n (TMove q w))) hs wg) =
    rxs d (nodes(q := (nodes q)\<lparr> rn_next := \<lparr> rp_epoch = next_epoch w, rp_val = RwState (int n) (rn_mode (nodes el) = wt_Read) True \<rparr> \<rparr>,
      h := (nodes h)\<lparr> rn_next := rwp_node RwSentinel 0 \<rparr>)) nx q wt f (pc(t := RWait el (RwNode el))) hs wg"
    using assms(1-5) by (simp add: rx_steps_simps numeral_3_eq_3 rx_step_def rw_take_step_def rgo_def rnext_def cas_rnext_def
      set_rnext_def rwp_state_def Let_def)
  then have "rx_steps (Suc 3) t (rxs d nodes el q wt f pc hs wg) = \<dots>" using s1 by (simp only: rx_steps_simps)
  then show ?thesis by (intro exI[of _ "Suc 3"] exI[of _ "next_epoch w"]) simp
qed


text \<open>Waiting for the events of the nodes taken out, and letting them in.\<close>

lemma rlist_mark: "rlist v ns ws m RwSentinel \<Longrightarrow> v = RwSentinel \<or> (\<exists>k. v = RwNode k)"
  by (cases "(v, ns, ws, m, RwSentinel)" rule: rlist.cases) auto

lemma rx_wait_run:
  assumes "rlist v ns run nodes RwSentinel" "pc t = RWait el v"
  shows "rx_steps (length run + 1) t (rxs d nodes h q wt f pc hs wg) = rxs d nodes h q wt f (pc(t := RGive (RwNode el))) hs wg"
  using assms
proof (induction run arbitrary: v ns pc)
  case Nil
  then have "v = RwSentinel" by (cases ns) auto
  then show ?case using Nil.prems by (simp add: rx_steps_simps rx_simps fun_upd_def)
next
  case (Cons p run)
  then obtain k ns1 where l: "ns = k # ns1" "v = RwNode k" "rlist (rp_val (rn_next (nodes k))) ns1 run nodes RwSentinel" "rn_val (nodes k) \<noteq> None"
    by (cases ns) auto
  have "rx_step t (rxs d nodes h q wt f pc hs wg) = rxs d nodes h q wt f (pc(t := RWait el (rp_val (rn_next (nodes k))))) hs wg"
    using Cons.prems(2) l by (auto simp: rx_simps)
  moreover have "rx_steps (length run + 1) t (rxs d nodes h q wt f (pc(t := RWait el (rp_val (rn_next (nodes k))))) hs wg) =
    rxs d nodes h q wt f (pc(t := RWait el (rp_val (rn_next (nodes k))), t := RGive (RwNode el))) hs wg"
    by (rule Cons.IH[OF l(3)]) simp
  ultimately show ?case by (simp add: rx_steps_simps(2) fun_upd_def cong: if_cong)
qed

lemma rx_give_run:
  assumes "rlist v ns run nodes RwSentinel" "pc t = RGive v"
  shows "rx_steps (length run + 1) t (rxs d nodes h q wt f pc hs wg) =
    rxs d nodes h q (if run = [] then wt else snd (last run)) f (pc(t := RIdle)) (rev run @ hs) (fold remove1 run wg)"
  using assms
proof (induction run arbitrary: v ns pc wt hs wg)
  case Nil
  then have "v = RwSentinel" by (cases ns) auto
  then show ?case using Nil.prems by (simp add: rx_steps_simps rx_simps fun_upd_def)
next
  case (Cons p run)
  then obtain k ns1 where l: "ns = k # ns1" "v = RwNode k" "rlist (rp_val (rn_next (nodes k))) ns1 run nodes RwSentinel"
    "rn_val (nodes k) = Some (fst p)" "rn_mode (nodes k) = snd p"
    by (cases ns) auto
  have "\<not> rwp_mkd (rn_next (nodes k))" using rlist_mark[OF l(3)] by (auto simp: rwp_mkd_def)
  then have "rx_step t (rxs d nodes h q wt f pc hs wg) =
    rxs d nodes h q (snd p) f (pc(t := RGive (rp_val (rn_next (nodes k))))) (p # hs) (remove1 p wg)"
    using Cons.prems(2) l by (simp add: rx_step_def rw_give_step_def rgo_def rnext_def Let_def)
  moreover have "rx_steps (length run + 1) t
      (rxs d nodes h q (snd p) f (pc(t := RGive (rp_val (rn_next (nodes k))))) (p # hs) (remove1 p wg)) =
    rxs d nodes h q (if run = [] then snd p else snd (last run)) f (pc(t := RGive (rp_val (rn_next (nodes k))), t := RIdle))
      (rev run @ p # hs) (fold remove1 run (remove1 p wg))"
    by (rule Cons.IH[OF l(3)]) simp
  ultimately show ?case by (simp add: rx_steps_simps(2) fun_upd_def cong: if_cong)
qed


lemma rlist_last: "rlist v ns ws m v' \<Longrightarrow> ns \<noteq> [] \<Longrightarrow> rp_val (rn_next (m (last ns))) = v'"
proof (induction ns arbitrary: v ws)
  case (Cons k ns)
  then obtain p ws1 where ws: "ws = p # ws1" by (cases ws) auto
  then show ?case using Cons by (cases "ns = []"; cases ws1) auto
qed simp

lemma rlist_cut:
  assumes "rlist v ns ws m v'" "ns \<noteq> []" "distinct ns" "rp_val (rn_next (m' (last ns))) = v''"
    "\<And>n. n \<in> set ns \<Longrightarrow> rn_val (m' n) = rn_val (m n) \<and> rn_mode (m' n) = rn_mode (m n) \<and> (n \<noteq> last ns \<longrightarrow> m' n = m n)"
  shows "rlist v ns ws m' v''"
  using assms
proof (induction ns arbitrary: v ws)
  case (Cons k ns)
  obtain p ws1 where ws: "ws = p # ws1" using Cons.prems(1) by (cases ws) auto
  show ?case
  proof (cases "ns = []")
    case True
    then show ?thesis using Cons.prems ws by (cases ws1) auto
  next
    case False
    then have n: "k \<noteq> last ns" using Cons.prems(3) last_in_set[of ns] by auto
    have "rlist (rp_val (rn_next (m k))) ns ws1 m' v''"
      by (rule Cons.IH) (use Cons.prems ws False in auto)
    then show ?thesis using Cons.prems(1) Cons.prems(5)[of k] ws n False by auto
  qed
qed simp

lemma rx_first_steps:
  assumes "rp_val (rn_next (nodes q)) = RwState 1 md True" "md = (wt = wt_Read)" "h \<noteq> q" "rn_val (nodes h) \<noteq> None"
    "rp_val (rn_next (nodes h)) = RwNode k" "rn_mode (nodes h) \<noteq> wt_None"
  shows "rx_steps 4 t (rw_pop_begin t p (rxs d nodes h q wt f pc hs ws)) =
    rxs d nodes h q wt f (pc(t := RTake wt h h 1 (TRun q (rn_next (nodes q))))) (remove1 p hs) ws"
  using assms by (auto simp: rx_lit_simps)

lemma rx_leave_grant:
  assumes r: "rw_rest ns q (run @ rest) (RwState 1 md True) s" and w: "md = (rx_wtype s = wt_Read)" "p \<in> set (rx_holding s)"
    and run: "run = x # rs" "snd x \<noteq> wt_None" "\<forall>y\<in>set rs. snd y = wt_Read" "rs \<noteq> [] \<longrightarrow> snd x = wt_Read"
      "\<not> (snd x = wt_Read \<and> rest \<noteq> [] \<and> snd (hd rest) = wt_Read)"
  shows "\<exists>ns'. rw_rest ns' q rest (RwState (int (length run)) (snd x = wt_Read) True) (rx_whole (RwLeave t p) s) \<and>
    rx_holding (rx_whole (RwLeave t p) s) = rev run @ remove1 p (rx_holding s) \<and> rx_wtype (rx_whole (RwLeave t p) s) = snd (last run)"
proof (cases s)
  case (fields d nodes h q' wt f pc hs wg)
  have q: "q' = q" "rp_val (rn_next (nodes q)) = RwState 1 md True" "md = (wt = wt_Read)" "q \<notin> set ns" "distinct ns" "\<forall>n\<in>set (q # ns). n < f"
    "rlist (RwNode h) ns (run @ rest) nodes (RwNode q)" "\<forall>t. pc t = RIdle" "rn_mode (nodes q) = wt_None" "rn_val (nodes q) = None"
    using r w fields by (simp_all add: rw_rest_def)
  obtain ns1 ns2 where ns: "ns = ns1 @ ns2" "length ns1 = length run"
    using rlist_length[OF q(7)] by (metis append_take_drop_id length_append length_take le_add1 min.absorb2)
  then obtain v where v: "rlist (RwNode h) ns1 run nodes v" "rlist v ns2 rest nodes (RwNode q)"
    using q(7) rlist_append[OF ns(2)] by auto
  obtain n1 where n1: "v = RwNode n1" using rlist_start[OF v(2)] by blast
  obtain ms where ms: "ns1 = h # ms" "length ms = length rs" "rn_mode (nodes h) = snd x" "rn_val (nodes h) \<noteq> None"
    using v(1) run(1) ns(2) by (cases ns1) auto
  obtain k where k: "rp_val (rn_next (nodes h)) = RwNode k"
    using q(7) ms(1) ns(1) run(1) rlist_start[of "rp_val (rn_next (nodes h))" "ms @ ns2" "rs @ rest" nodes q] by auto
  have hq: "h \<noteq> q" "last ns1 \<noteq> q" using q(4) ns(1) ms(1) last_in_set[of ns1] by auto
  let ?w = "rn_next (nodes q)"
  let ?pc1 = "pc(t := RTake wt h h 1 (TRun q ?w))"
  let ?pc2 = "?pc1(t := RTake wt (last ns1) h (1 + length rs) (TPre q ?w))"
  have s1: "rx_steps 4 t (rw_pop_begin t p s) = rxs d nodes h q wt f ?pc1 (remove1 p hs) wg"
    unfolding fields q(1) by (rule rx_first_steps[where nodes = nodes and q = q and md = md and wt = wt, OF q(2,3) hq(1) ms(4) k]) (simp add: ms run)
  have s2: "rx_steps (length rs + 1) t (rxs d nodes h q wt f ?pc1 (remove1 p hs) wg) = rxs d nodes h q wt f ?pc2 (remove1 p hs) wg"
    unfolding ms(1)
  proof (rule rx_run_steps)
    show "rlist (RwNode h) (h # ms @ ns2) (x # rs @ rest) nodes (RwNode q)" using q(7) ns(1) ms(1) run(1) by simp
  qed (use ms run q in auto)
  have l: "rp_val (rn_next (nodes (last ns1))) = RwNode n1" using rlist_last[OF v(1)] ms(1) n1 by simp
  note mv = rx_move_steps[where nodes = nodes and h = "last ns1" and nx = n1 and q = q and w = ?w and el = h and pc = ?pc2 and t = t and m = wt
        and n = "1 + length rs" and d = d and wt = wt and f = f and hs = "remove1 p hs" and wg = wg, OF l refl _ hq(2,1)]
  have "rwp_mkd ?w" "?pc2 t = RTake wt (last ns1) h (1 + length rs) (TPre q ?w)" using q(2) by (simp_all add: rwp_mkd_def)
  from mv[OF this] obtain j e where s3: "j \<le> 7" "rx_steps j t (rxs d nodes h q wt f ?pc2 (remove1 p hs) wg) =
      rxs d (nodes(q := (nodes q)\<lparr> rn_next := \<lparr> rp_epoch = e, rp_val = RwState (int (1 + length rs)) (rn_mode (nodes h) = wt_Read) True \<rparr> \<rparr>,
        last ns1 := (nodes (last ns1))\<lparr> rn_next := rwp_node RwSentinel 0 \<rparr>)) n1 q wt f (?pc2(t := RWait h (RwNode h))) (remove1 p hs) wg"
    by blast
  let ?m = "nodes(q := (nodes q)\<lparr> rn_next := \<lparr> rp_epoch = e, rp_val = RwState (int (1 + length rs)) (rn_mode (nodes h) = wt_Read) True \<rparr> \<rparr>,
        last ns1 := (nodes (last ns1))\<lparr> rn_next := rwp_node RwSentinel 0 \<rparr>)"
  let ?pc3 = "?pc2(t := RWait h (RwNode h))" and ?pc4 = "?pc2(t := RGive (RwNode h))"
  have m: "rlist (RwNode h) ns1 run ?m RwSentinel" "rlist v ns2 rest ?m (RwNode q)"
  proof -
    show "rlist (RwNode h) ns1 run ?m RwSentinel"
      by (rule rlist_cut[OF v(1)]) (use q(4,5) ns(1) ms(1) hq in \<open>auto simp: rwp_node_def\<close>)
    have "last ns1 \<notin> set ns2" using q(5) ns(1) ms(1) last_in_set[of ns1] by auto
    then show "rlist v ns2 rest ?m (RwNode q)" using v(2) q(4) ns(1) rlist_cong[of ns2 ?m nodes] by fastforce
  qed
  have s4: "rx_steps (length run + 1) t (rxs d ?m n1 q wt f ?pc3 (remove1 p hs) wg) = rxs d ?m n1 q wt f ?pc4 (remove1 p hs) wg"
    using rx_wait_run[OF m(1), of ?pc3] by simp
  have s5: "rx_steps (length run + 1) t (rxs d ?m n1 q wt f ?pc4 (remove1 p hs) wg) =
    rxs d ?m n1 q (snd (last run)) f (?pc4(t := RIdle)) (rev run @ remove1 p hs) (fold remove1 run wg)"
    using rx_give_run[OF m(1), of ?pc4] run(1) by simp
  let ?k = "4 + ((length rs + 1) + (j + ((length run + 1) + (length run + 1))))"
  let ?fin = "rxs d ?m n1 q (snd (last run)) f (?pc4(t := RIdle)) (rev run @ remove1 p hs) (fold remove1 run wg)"
  have "rx_steps ?k t (rw_pop_begin t p s) = ?fin"
    by (rule rx_steps_then[OF s1 rx_steps_then[OF s2 rx_steps_then[OF s3(2) rx_steps_then[OF s4 s5]]]])
  moreover have "?k \<le> 3 * rx_fresh s + 15"
  proof -
    have "set ns \<subseteq> {..<f}" using q(6) by auto
    then have "length ns \<le> f" using q(5) card_mono[of "{..<f}" "set ns"] by (simp add: distinct_card)
    then show ?thesis using ns run(1) s3(1) fields by simp
  qed
  ultimately have "rx_whole (RwLeave t p) s = ?fin"
    using rx_leave_run[of ?k t p s ?fin] w(2) q(8) fields by simp
  moreover have "rw_rest ns2 q rest (RwState (int (length run)) (snd x = wt_Read) True) ?fin"
    using q ns(1) m(2) n1 hq ms(3) run(1) by (auto simp: rw_rest_def)
  ultimately show ?thesis using fields by auto
qed

section \<open>As the classic read/write atomic\<close>

definition rx_op_ok :: "rx_op \<Rightarrow> bool" where
  "rx_op_ok op = (case op of RwTake t ev w \<Rightarrow> w = wt_Read \<or> w = wt_Write | _ \<Rightarrow> True)"

definition rw_classic_op :: "rx_op \<Rightarrow> lop" where
  "rw_classic_op op = (case op of RwTake t ev w \<Rightarrow> LAcquire ev w | RwLeave t h \<Rightarrow> LRelease h)"

abbreviation rw_classic :: "rx_op \<Rightarrow> arw \<times> aqe list \<Rightarrow> arw \<times> aqe list" where
  "rw_classic op \<equiv> lk_exec rw_acquire_or_wait rw_release ac_poke ac_waiters (rw_classic_op op)"

definition plain_mode :: "aqe \<Rightarrow> bool" where
  "plain_mode p \<longleftrightarrow> snd p = wt_Read \<or> snd p = wt_Write"

definition rw_view :: "arw \<Rightarrow> aqe list \<Rightarrow> rw_val" where
  "rw_view a hs = (if hs = [] then RwState 0 False False else RwState (int (length hs)) (rw_mode a = wt_Read) True)"

definition rw_matches :: "rwx \<Rightarrow> arw \<times> aqe list \<Rightarrow> bool" where
  "rw_matches s c \<longleftrightarrow> (case c of (a, hs) \<Rightarrow>
     (\<exists>ns q. rw_rest ns q (ac_waiters a) (rw_view a hs) s) \<and> ac_held a = int (length hs) \<and> (hs = [] \<longrightarrow> ac_waiters a = []) \<and>
     (hs \<noteq> [] \<longrightarrow> rx_wtype s = rw_mode a) \<and> (\<forall>p\<in>set hs. snd p = rw_mode a \<and> plain_mode p) \<and>
     (rw_mode a \<noteq> wt_Read \<longrightarrow> length hs \<le> 1) \<and> (\<forall>p\<in>set (ac_waiters a). plain_mode p) \<and> mset (rx_holding s) = mset hs)"

lemma rw_matches_new: "rw_matches (rx_new d') (arw_new d, [])"
proof -
  have "rw_rest [] 0 [] (RwState 0 False False) (rx_new d')" by (simp add: rw_rest_def rx_new_def rwnode_new_def rwp_state_def)
  then show ?thesis by (auto simp: rw_matches_def rw_view_def arw_new_def rx_new_def)
qed

lemma rw_drain_plain:
  "\<forall>p\<in>set ws. plain_mode p \<Longrightarrow>
    rw_drain d ws = (map fst (takeWhile (\<lambda>p. snd p = wt_Read) ws), dropWhile (\<lambda>p. snd p = wt_Read) ws)"
  by (induction d ws rule: rw_drain.induct) (auto simp: plain_mode_def)

lemma rw_matches_take:
  assumes m: "rw_matches s (a, hs)" and w: "w = wt_Read \<or> w = wt_Write"
  shows "rw_matches (rx_whole (RwTake t ev w) s) (rw_classic (RwTake t ev w) (a, hs))"
proof -
  have wu: "w \<noteq> wt_Upgradeable" using w by auto
  obtain ns q where r: "rw_rest ns q (ac_waiters a) (rw_view a hs) s" using m by (auto simp: rw_matches_def)
  have ns: "length ns = length (ac_waiters a)" using r rlist_length by (auto simp: rw_rest_def)
  consider (free) "hs = []" | (share) "hs \<noteq> []" "ac_waiters a = []" "rw_mode a = wt_Read" "w = wt_Read"
    | (wait) "hs \<noteq> []" "\<not> (ac_waiters a = [] \<and> rw_mode a = wt_Read \<and> w = wt_Read)" by blast
  then show ?thesis
  proof cases
    case free
    then have "ac_waiters a = []" "ns = []" using m ns by (auto simp: rw_matches_def)
    then have "rw_rest [] q [] (RwState 0 False False) s" using r free by (simp add: rw_view_def)
    note f = rx_take_free[OF this wu, of t ev]
    then show ?thesis using m free w \<open>ac_waiters a = []\<close>
      by (auto simp: rw_matches_def rw_classic_op_def rw_acquire_or_wait_def rw_view_def Let_def plain_mode_def)
  next
    case share
    then have "ns = []" using ns by simp
    then have "rw_rest [] q [] (RwState (int (length hs)) True True) s" using r share by (simp add: rw_view_def)
    note f = rx_take_share[OF this, of t ev]
    have c: "rw_classic (RwTake t ev w) (a, hs) = (a\<lparr> ac_held := ac_held a + 1 \<rparr>, (ev, w) # hs)"
      using m share by (simp add: rw_matches_def rw_classic_op_def rw_acquire_or_wait_def)
    have "rw_view (a\<lparr> ac_held := ac_held a + 1 \<rparr>) ((ev, w) # hs) = RwState (int (length hs) + 1) True True"
      using share by (simp add: rw_view_def)
    then show ?thesis unfolding c using f m share by (auto simp: rw_matches_def plain_mode_def)
  next
    case wait
    have v: "rw_view a hs = RwState (int (length hs)) (rw_mode a = wt_Read) True" using wait by (simp add: rw_view_def)
    have "\<not> (ac_waiters a = [] \<and> w = wt_Read \<and> rw_mode a = wt_Read)" using wait by blast
    from rx_take_wait[OF r[unfolded v] wu this, of ev t] obtain e where
      f: "rw_rest (ns @ [q]) e (ac_waiters a @ [(ev, w)]) (rw_view a hs) (rx_whole (RwTake t ev w) s)"
      "rx_holding (rx_whole (RwTake t ev w) s) = rx_holding s" "rx_wtype (rx_whole (RwTake t ev w) s) = rx_wtype s"
      unfolding v by blast
    have c: "rw_classic (RwTake t ev w) (a, hs) = (a\<lparr> ac_waiters := ac_waiters a @ [(ev, w)] \<rparr>, hs)"
      using m wait wu by (auto simp: rw_matches_def rw_classic_op_def rw_acquire_or_wait_def)
    have "rw_view (a\<lparr> ac_waiters := ac_waiters a @ [(ev, w)] \<rparr>) hs = rw_view a hs" by (simp add: rw_view_def)
    then show ?thesis unfolding c using f m wait w by (auto simp: rw_matches_def plain_mode_def)
  qed
qed

lemma rw_matches_leave:
  assumes m: "rw_matches s (a, hs)"
  shows "rw_matches (rx_whole (RwLeave t h) s) (rw_classic (RwLeave t h) (a, hs))"
proof -
  obtain ns q where r: "rw_rest ns q (ac_waiters a) (rw_view a hs) s" using m by (auto simp: rw_matches_def)
  have ns: "length ns = length (ac_waiters a)" using r rlist_length by (auto simp: rw_rest_def)
  have mh: "mset (rx_holding s) = mset hs" "ac_held a = int (length hs)" and mw: "\<forall>p\<in>set (ac_waiters a). plain_mode p"
    using m by (simp_all add: rw_matches_def)
  have set: "set (rx_holding s) = set hs" using mh(1) by (metis set_mset_mset)
  have one: "h \<in> set hs \<Longrightarrow> \<not> 1 < length hs \<Longrightarrow> hs = [h]" by (cases hs; cases "tl hs") auto
  consider (out) "h \<notin> set hs" | (dec) "h \<in> set hs" "length hs > 1" | (last) "hs = [h]" "ac_waiters a = []"
    | (grant) x ws where "hs = [h]" "ac_waiters a = x # ws"
    using one by (cases "ac_waiters a") blast+
  then show ?thesis
  proof cases
    case out
    have "rx_whole (RwLeave t h) s = s" using out set rx_steps_idle[OF rw_rest_idle[OF r]] by (simp add: rx_whole_def rx_act_def)
    then show ?thesis using m out by (simp add: rw_classic_op_def)
  next
    case dec
    then have md: "rw_mode a = wt_Read" "rx_wtype s = wt_Read" "hs \<noteq> []" using m by (auto simp: rw_matches_def)
    then have "rw_rest ns q (ac_waiters a) (RwState (int (length hs)) True True) s" using r by (simp add: rw_view_def)
    note f = rx_leave_dec[OF this md(2), of h t]
    have l1: "length (remove1 h hs) = length hs - 1" using dec by (simp add: length_remove1)
    then have "0 < length (remove1 h hs)" using dec by linarith
    then have l: "length (remove1 h hs) = length hs - 1" "remove1 h hs \<noteq> []" using l1 by auto
    have c: "rw_classic (RwLeave t h) (a, hs) = (a\<lparr> ac_held := ac_held a - 1 \<rparr>, remove1 h hs)"
      using dec mh(2) by (simp add: rw_classic_op_def rw_release_def Let_def)
    have "rw_view (a\<lparr> ac_held := ac_held a - 1 \<rparr>) (remove1 h hs) = RwState (int (length hs) - 1) True True"
      using md l dec by (simp add: rw_view_def of_nat_diff)
    moreover have "mset (remove1 h (rx_holding s)) = mset (remove1 h hs)" using mh(1) by simp
    ultimately show ?thesis unfolding c using f m dec set md l notin_set_remove1[of _ hs h]
      by (auto simp: rw_matches_def of_nat_diff)
  next
    case last
    then have "ns = []" "rx_wtype s = rw_mode a" using m ns by (auto simp: rw_matches_def)
    then have "rw_rest [] q [] (RwState 1 (rw_mode a = wt_Read) True) s" using r last by (simp add: rw_view_def)
    note f = rx_leave_last[OF this, of h t]
    have c: "rw_classic (RwLeave t h) (a, hs) = (a\<lparr> ac_held := 0, rw_mode := wt_None \<rparr>, [])"
      using last mh(2) by (simp add: rw_classic_op_def rw_release_def Let_def)
    have "rx_holding s = [h]" using mh(1) last by simp
    then show ?thesis unfolding c using f last \<open>rx_wtype s = rw_mode a\<close> by (auto simp: rw_matches_def rw_view_def)
  next
    case grant
    let ?rd = "\<lambda>p. snd p = wt_Read"
    have wt: "rx_wtype s = rw_mode a" "rx_holding s = [h]" using m grant by (auto simp: rw_matches_def)
    have px: "plain_mode x" "\<forall>p\<in>set ws. plain_mode p" using mw grant by simp_all
    define rs where "rs = (if ?rd x then takeWhile ?rd ws else [])"
    define rest where "rest = (if ?rd x then dropWhile ?rd ws else ws)"
    have aw: "ac_waiters a = (x # rs) @ rest" using grant by (simp add: rs_def rest_def)
    have v: "rw_view a hs = RwState 1 (rw_mode a = wt_Read) True" using grant by (simp add: rw_view_def)
    have rsr: "\<forall>y\<in>set rs. snd y = wt_Read" "rs \<noteq> [] \<longrightarrow> snd x = wt_Read"
      by (auto simp: rs_def dest: set_takeWhileD)
    have nr: "\<not> (snd x = wt_Read \<and> rest \<noteq> [] \<and> snd (hd rest) = wt_Read)" using hd_dropWhile[of ?rd ws] by (auto simp: rest_def)
    have "rw_rest ns q ((x # rs) @ rest) (RwState 1 (rw_mode a = wt_Read) True) s" using r v aw by simp
    from rx_leave_grant[OF this _ _ refl _ rsr nr, of h t] obtain ns' where
      f: "rw_rest ns' q rest (RwState (int (length (x # rs))) (snd x = wt_Read) True) (rx_whole (RwLeave t h) s)"
      "rx_holding (rx_whole (RwLeave t h) s) = rev (x # rs) @ remove1 h (rx_holding s)" "rx_wtype (rx_whole (RwLeave t h) s) = snd (last (x # rs))"
      using wt px(1) by (auto simp: plain_mode_def)
    let ?a = "a\<lparr> ac_held := int (length (x # rs)), rw_mode := snd x, ac_waiters := rest \<rparr>"
    have c: "rw_classic (RwLeave t h) (a, hs) = (?a, x # rs)"
      using grant mh(2) px rw_drain_plain[OF px(2)]
      by (cases x; auto simp: rw_classic_op_def rw_release_def Let_def rs_def rest_def plain_mode_def simp flip: takeWhile_eq_take)
    have "snd (last (x # rs)) = snd x" using rsr by (cases rs rule: rev_cases) auto
    then show ?thesis unfolding c using f wt px rsr aw mw
      by (auto simp: rw_matches_def rw_view_def plain_mode_def)
  qed
qed

lemma rw_matches_run:
  "rw_matches s c \<Longrightarrow> \<forall>op\<in>set ops. rx_op_ok op \<Longrightarrow> rw_matches (fold rx_whole ops s) (fold rw_classic ops c)"
proof (induction ops arbitrary: s c)
  case (Cons op ops)
  obtain a hs where c: "c = (a, hs)" by (cases c)
  have "rw_matches (rx_whole op s) (rw_classic op c)"
    using Cons.prems rw_matches_take rw_matches_leave by (cases op) (auto simp: c rx_op_ok_def)
  then show ?case using Cons.IH Cons.prems by simp
qed simp

lemma rlist_count:
  "rlist (RwNode h) ns ws (rx_nodes s) (RwNode q) \<Longrightarrow> rp_val (rnext q s) = RwState rc md mk \<Longrightarrow> length ns < k \<Longrightarrow>
    rwl_count_from k h s = length ws"
proof (induction ns arbitrary: h ws k)
  case Nil
  then show ?case by (cases ws; cases k) auto
next
  case (Cons n ns)
  then obtain p ws1 k1 where e: "ws = p # ws1" "k = Suc k1" "n = h" by (cases ws; cases k) auto
  have l: "rlist (rp_val (rn_next (rx_nodes s h))) ns ws1 (rx_nodes s) (RwNode q)" using Cons.prems(1) e by simp
  then obtain n1 where "rp_val (rn_next (rx_nodes s h)) = RwNode n1" using rlist_start by blast
  then show ?case using Cons.IH[of n1 ws1 k1] Cons.prems l e by (simp add: rnext_def)
qed

lemma rw_matches_facts:
  assumes "rw_matches s (a, hs)"
  shows "mset (rx_holding s) = mset hs" "rwa_held s = Some (ac_held a)" "rwl_count s = length (ac_waiters a)" "\<forall>t. rx_pc s t = RIdle"
    "rwl_has_waiters s \<longleftrightarrow> ac_waiters a \<noteq> []"
proof -
  obtain ns q where r: "rw_rest ns q (ac_waiters a) (rw_view a hs) s" and h: "ac_held a = int (length hs)" "hs = [] \<longrightarrow> ac_waiters a = []"
    using assms by (auto simp: rw_matches_def)
  show "mset (rx_holding s) = mset hs" "\<forall>t. rx_pc s t = RIdle" using assms r by (auto simp: rw_matches_def rw_rest_def)
  have t: "rp_val (rnext (rx_tail s) s) = rw_view a hs" "rx_tail s = q" using r by (auto simp: rw_rest_def rnext_def)
  show "rwa_held s = Some (ac_held a)"
    using t h rw_rest_shape[OF r] by (auto simp: rwa_held_def rwl_rcount_round_def rwp_mkd_def rwp_rcount_def rw_view_def Let_def)
  have "length ns < rx_fresh s"
  proof -
    have "set (q # ns) \<subseteq> {..<rx_fresh s}" "distinct (q # ns)" using r by (auto simp: rw_rest_def)
    then show ?thesis using card_mono[of "{..<rx_fresh s}" "set (q # ns)"] distinct_card[of "q # ns"] by simp
  qed
  moreover obtain rc md mk where "rp_val (rnext q s) = RwState rc md mk" using t by (auto simp: rw_view_def split: if_splits)
  ultimately show "rwl_count s = length (ac_waiters a)" using r rlist_count by (auto simp: rwl_count_def rw_rest_def)
  show "rwl_has_waiters s \<longleftrightarrow> ac_waiters a \<noteq> []"
  proof (cases "ac_waiters a = []")
    case True
    then have "rx_head s = q" using rw_rest_shape[OF r] by simp
    then show ?thesis using True t by (auto simp: rwl_has_waiters_def rwp_null_def rwp_mkd_def rw_view_def)
  next
    case False
    then show ?thesis using rw_rest_shape[OF r] by (auto simp: rwl_has_waiters_def rwp_null_def rwp_mkd_def)
  qed
qed

text \<open>C35: When no two operations overlap and events ask to read or to write, the lock-free read/write atomic lets the
  same events in as the one of the classic runtime, is held by as many and has as many waiters.\<close>

theorem lockfree_rw_equals_classic:
  assumes "\<forall>op\<in>set ops. rx_op_ok op"
  shows "case fold rw_classic ops (arw_new d, []) of (a, hs) \<Rightarrow>
    mset (rx_holding (fold rx_whole ops (rx_new d'))) = mset hs \<and> rwa_held (fold rx_whole ops (rx_new d')) = Some (ac_held a) \<and>
    rwl_count (fold rx_whole ops (rx_new d')) = length (ac_waiters a) \<and> (\<forall>t. rx_pc (fold rx_whole ops (rx_new d')) t = RIdle)"
  using rw_matches_facts rw_matches_run[OF rw_matches_new assms, of d' d] by (auto split: prod.split)

lemma lockfree_rw_equals_classic_witness:
  "mset (rx_holding (fold rx_whole [RwTake 0 1 wt_Read, RwTake 1 2 wt_Write, RwLeave 0 (1, wt_Read)] (rx_new None))) = {#(2, wt_Write)#}"
  using lockfree_rw_equals_classic[of "[RwTake 0 1 wt_Read, RwTake 1 2 wt_Write, RwLeave 0 (1, wt_Read)]" None None]
  by (simp add: rx_op_ok_def rw_classic_op_def rw_acquire_or_wait_def rw_release_def arw_new_def Let_def)

section \<open>When operations overlap\<close>

text \<open>Event 10 writes and event 11 waits to read.  While thread 0, which releases for event 10, has moved the head of
  the list but not yet changed the state to reading, event 12 comes to read and is told to wait.  When event 11
  releases, thread 1 takes event 12 out of the list, so that the list is empty again while the state still says that
  one event reads; now event 13 shares the atomic, which counts two, and then thread 1 sets the count to the one
  event it took out.  After event 12 releases, the atomic says that it is free although event 13 reads.\<close>

definition rw_schedule :: "rx_action list" where
  "rw_schedule =
     RwAcquire 0 10 wt_Write # replicate 5 (RwStep 0) @ RwAcquire 1 11 wt_Read # replicate 7 (RwStep 1) @
     RwRelease 0 (10, wt_Write) # replicate 7 (RwStep 0) @
     RwAcquire 2 12 wt_Read # replicate 7 (RwStep 2) @ replicate 12 (RwStep 0) @
     RwRelease 1 (11, wt_Read) # replicate 7 (RwStep 1) @
     RwAcquire 3 13 wt_Read # replicate 5 (RwStep 3) @ replicate 12 (RwStep 1) @
     RwRelease 2 (12, wt_Read) # replicate 7 (RwStep 2) @
     RwAcquire 0 14 wt_Write # replicate 7 (RwStep 0)"

text \<open>C36: The lock-free read/write atomic can let a writer in beside a reader: in a run of four threads, after which
  all are idle, one event reads, another writes, and the atomic counts one holder.\<close>

theorem lockfree_rw_writer_beside_reader:
  "rx_holding (rx_run rw_schedule (rx_new None)) = [(14, wt_Write), (13, wt_Read)] \<and>
   rwa_held (rx_run rw_schedule (rx_new None)) = Some 1 \<and>
   list_all (\<lambda>t. rx_pc (rx_run rw_schedule (rx_new None)) t = RIdle) [0, 1, 2, 3]"
proof -
  define P where "P s \<longleftrightarrow> rx_holding s = [(14, wt_Write), (13, wt_Read)] \<and> rwa_held s = Some 1 \<and>
    list_all (\<lambda>t. rx_pc s t = RIdle) [0, 1, 2, 3]" for s
  have "P (rx_run rw_schedule (rx_new None))"
    by (simp add: rx_run_def rw_schedule_def rx_new_def rx_act_def rx_lit_simps next_epoch_def)
      (simp add: P_def rwa_held_def rwl_rcount_round_def rx_simps)
  then show ?thesis by (simp add: P_def)
qed

end
