(* ===== verification/IOShim.thy ===== *)
theory IOShim
  imports RunTime
begin

text \<open>
  runtime/OFluxIOShim.cpp with OFluxRunTimeAbstractForShim.h and .cpp: the wrappers around library calls that
  may block.  A wrapper that runs in an event of the classic runtime lets another thread in, gives up the
  runtime's lock for the call, and gets back in line after it.  A wrapper is the list of actions it takes; what
  the real functions answer is a parameter.
\<close>

section \<open>State\<close>

datatype platform = Linux | SunOS

text \<open>\<open>sh_eminfo\<close> tells whether a runtime is registered, \<open>sh_fns\<close> which real functions are looked up,
  \<open>sh_regular\<close> which descriptors were opened as files.\<close>

record shim =
  sh_eminfo :: bool
  sh_fns :: "string list"
  sh_regular :: "nat \<Rightarrow> bool"

definition shim_new :: shim where
  "shim_new = \<lparr> sh_eminfo = False, sh_fns = [], sh_regular = \<lambda>_. False \<rparr>"

definition shim_names :: "platform \<Rightarrow> string list" where
  "shim_names pl = [''read'', ''open'', ''write'', ''close'', ''sleep'', ''usleep'', ''nanosleep'', ''accept'', ''select'', ''recv'',
     ''send'', ''gethostbyname_r''] @
     (case pl of Linux \<Rightarrow> [''epoll_wait''] | SunOS \<Rightarrow> [''open64'', ''port_get'', ''port_getn'']) @ [''recvfrom'', ''poll'']"

definition initShim :: "platform \<Rightarrow> shim \<Rightarrow> shim" where
  "initShim pl s = s\<lparr> sh_eminfo := True, sh_fns := shim_names pl @ sh_fns s \<rparr>"

definition deinitShim :: "shim \<Rightarrow> shim" where
  "deinitShim s = s\<lparr> sh_eminfo := False \<rparr>"

text \<open>\<open>SafeArray\<close> checks its index, which is unsigned.\<close>

definition is_regular :: "int \<Rightarrow> shim \<Rightarrow> bool result" where
  "is_regular fd s = assertE (0 \<le> fd \<and> fd < 16384) (Inr (sh_regular s (nat fd)))"

definition set_regular :: "int \<Rightarrow> bool \<Rightarrow> shim \<Rightarrow> shim result" where
  "set_regular fd b s = assertE (0 \<le> fd \<and> fd < 16384) (Inr (s\<lparr> sh_regular := (sh_regular s)(nat fd := b) \<rparr>))"

section \<open>Actions\<close>

text \<open>Waking another thread, with the code that the creation of a thread returned; setting the wait state; the
  constructor and destructor of \<open>UnlockRunTime\<close>, which restores the flag only while the runtime runs; the same
  written out by hand; a real function, with whether it may block; waiting in the line.\<close>

datatype shim_act = AWake int | AState wait_state | AUnlock | ADetach | ARestoreRunning | ARestore | ALock
  | AReal string bool | AWaitToRun

record sh_env =
  en_detached :: bool
  en_ret :: int
  en_ready :: bool
  en_poll0 :: int
  en_pages :: "int list"
  en_nget :: int
  en_awake :: int

type_synonym sh_result = "(int \<times> shim_act list \<times> shim) result"

text \<open>A call of a real function, through a pointer that must have been looked up.\<close>

definition real_call :: "string \<Rightarrow> bool \<Rightarrow> int \<Rightarrow> shim \<Rightarrow> sh_result" where
  "real_call f blocks ret s = (if f \<in> set (sh_fns s) then Inr (ret, [AReal f blocks], s) else Inl NullDeref)"

text \<open>Outside of the runtime or in a detached event the real function is called, looked up before when needed.\<close>

definition shim_direct :: "string \<Rightarrow> int \<Rightarrow> shim \<Rightarrow> sh_result" where
  "shim_direct f ret s = real_call f True ret (if f \<in> set (sh_fns s) then s else s\<lparr> sh_fns := f # sh_fns s \<rparr>)"

definition get_in_line :: "int \<Rightarrow> shim_act list" where
  "get_in_line mgr_awake = (if mgr_awake = 0 then [AState RTTWS_wtrshim, AWaitToRun] else [])"

definition shim_blocking :: "string \<Rightarrow> sh_env \<Rightarrow> shim \<Rightarrow> sh_result" where
  "shim_blocking f e s = bindE (real_call f True (en_ret e) s) (\<lambda>(ret, acts, s1).
     Inr (ret, [AWake (en_awake e), AState RTTWS_blockingcall, AUnlock, ADetach] @ acts @ [ARestoreRunning, ALock] @
       get_in_line (en_awake e) @ [AState RTTWS_running], s1))"

text \<open>\<open>usleep\<close> and \<open>port_get\<close> do the same by hand.\<close>

definition shim_blocking_by_hand :: "string \<Rightarrow> sh_env \<Rightarrow> shim \<Rightarrow> sh_result" where
  "shim_blocking_by_hand f e s = bindE (real_call f True (en_ret e) s) (\<lambda>(ret, acts, s1).
     Inr (ret, [AWake (en_awake e), AState RTTWS_blockingcall, AUnlock, ADetach] @ acts @ [ARestore, ALock] @
       get_in_line (en_awake e) @ [AState RTTWS_running], s1))"

definition outside :: "sh_env \<Rightarrow> shim \<Rightarrow> bool" where
  "outside e s \<longleftrightarrow> \<not> sh_eminfo s \<or> en_detached e"

text \<open>Asking the real \<open>poll\<close>, without waiting, whether the call would block.\<close>

definition after_poll :: "string \<Rightarrow> bool \<Rightarrow> sh_env \<Rightarrow> shim \<Rightarrow> sh_result" where
  "after_poll f now e s = bindE (real_call ''poll'' False 0 s) (\<lambda>(_, acts, s1).
     bindE (if now then real_call f False (en_ret e) s1 else shim_blocking f e s1) (\<lambda>(ret, acts1, s2).
       Inr (ret, acts @ acts1, s2)))"

section \<open>The wrappers\<close>

definition shim_sleep :: "sh_env \<Rightarrow> shim \<Rightarrow> sh_result" where
  "shim_sleep e s = (if outside e s then shim_direct ''sleep'' (en_ret e) s else shim_blocking ''sleep'' e s)"

definition shim_usleep :: "sh_env \<Rightarrow> shim \<Rightarrow> sh_result" where
  "shim_usleep e s = (if outside e s then shim_direct ''usleep'' (en_ret e) s else shim_blocking_by_hand ''usleep'' e s)"

definition shim_accept :: "sh_env \<Rightarrow> shim \<Rightarrow> sh_result" where
  "shim_accept e s = (if outside e s then shim_direct ''accept'' (en_ret e) s else after_poll ''accept'' (en_ready e) e s)"

text \<open>A file blocks unless all its pages are in memory.\<close>

definition shim_read :: "int \<Rightarrow> sh_env \<Rightarrow> shim \<Rightarrow> sh_result" where
  "shim_read fd e s =
     (if outside e s then shim_direct ''read'' (en_ret e) s
      else bindE (is_regular fd s) (\<lambda>reg.
        if \<not> reg then after_poll ''read'' (en_ready e) e s
        else if list_all (\<lambda>v. v \<noteq> 0) (en_pages e) then real_call ''read'' False (en_ret e) s
        else shim_blocking ''read'' e s))"

definition shim_open_as :: "string \<Rightarrow> string \<Rightarrow> sh_env \<Rightarrow> shim \<Rightarrow> sh_result" where
  "shim_open_as f pathname e s =
     (if \<not> sh_eminfo s then shim_direct f (en_ret e) s
      else bindE (real_call f False (en_ret e) s) (\<lambda>(fd, acts, s1).
        if fd = -1 then Inr (fd, acts, s1)
        else bindE (set_regular fd True s1) (\<lambda>s2.
             bindE (if pathname = ''/proc/cpuinfo'' then set_regular fd False s2 else Inr s2) (\<lambda>s3. Inr (fd, acts, s3)))))"

definition shim_open :: "string \<Rightarrow> sh_env \<Rightarrow> shim \<Rightarrow> sh_result" where
  "shim_open pathname e s = shim_open_as ''open'' pathname e s"

definition shim_open64 :: "string \<Rightarrow> sh_env \<Rightarrow> shim \<Rightarrow> sh_result" where
  "shim_open64 pathname e s = shim_open_as ''open64'' pathname e s"

definition shim_close :: "int \<Rightarrow> sh_env \<Rightarrow> shim \<Rightarrow> sh_result" where
  "shim_close fd e s =
     (if \<not> sh_eminfo s then shim_direct ''close'' (en_ret e) s
      else if fd < 0 then Inr (-1, [], s)
      else bindE (set_regular fd False s) (\<lambda>s1. real_call ''close'' False (en_ret e) s1))"

text \<open>When the call may block the answer is stored in a 32 bit variable.\<close>

definition shim_write :: "sh_env \<Rightarrow> shim \<Rightarrow> sh_result" where
  "shim_write e s =
     (if outside e s then shim_direct ''write'' (en_ret e) s
      else after_poll ''write'' (en_ready e) (if en_ready e then e else e\<lparr> en_ret := signed_take_bit 31 (en_ret e) \<rparr>) s)"

definition shim_select :: "sh_env \<Rightarrow> shim \<Rightarrow> sh_result" where
  "shim_select e s = (if outside e s then shim_direct ''select'' (en_ret e) s else shim_blocking ''select'' e s)"

definition shim_recvfrom :: "bool \<Rightarrow> sh_env \<Rightarrow> shim \<Rightarrow> sh_result" where
  "shim_recvfrom dontwait e s =
     (if outside e s then shim_direct ''recvfrom'' (en_ret e) s else after_poll ''recvfrom'' (en_ready e \<or> dontwait) e s)"

definition shim_recv :: "bool \<Rightarrow> sh_env \<Rightarrow> shim \<Rightarrow> sh_result" where
  "shim_recv dontwait e s =
     (if outside e s then shim_direct ''recv'' (en_ret e) s else after_poll ''recv'' (en_ready e \<or> dontwait) e s)"

definition shim_poll :: "int \<Rightarrow> sh_env \<Rightarrow> shim \<Rightarrow> sh_result" where
  "shim_poll timeout e s =
     (if outside e s then shim_direct ''poll'' (en_ret e) s
      else bindE (real_call ''poll'' False (en_poll0 e) s) (\<lambda>(res, acts, s1).
        if res = 0 \<and> timeout \<noteq> 0
        then bindE (shim_blocking ''poll'' e s1) (\<lambda>(res1, acts1, s2). Inr (res1, acts @ acts1, s2))
        else Inr (res, acts, s1)))"

definition shim_send :: "sh_env \<Rightarrow> shim \<Rightarrow> sh_result" where
  "shim_send e s = (if outside e s then shim_direct ''send'' (en_ret e) s else after_poll ''send'' (en_ready e) e s)"

definition shim_gethostbyname_r :: "sh_env \<Rightarrow> shim \<Rightarrow> sh_result" where
  "shim_gethostbyname_r e s =
     (if outside e s then shim_direct ''gethostbyname_r'' (en_ret e) s else shim_blocking ''gethostbyname_r'' e s)"

definition shim_epoll_wait :: "sh_env \<Rightarrow> shim \<Rightarrow> sh_result" where
  "shim_epoll_wait e s = (if outside e s then shim_direct ''epoll_wait'' (en_ret e) s else shim_blocking ''epoll_wait'' e s)"

definition shim_port_get :: "sh_env \<Rightarrow> shim \<Rightarrow> sh_result" where
  "shim_port_get e s =
     (if outside e s then shim_direct ''port_get'' (en_ret e) s
      else bindE (real_call ''port_getn'' False 0 s) (\<lambda>(_, acts, s1).
        bindE (if en_nget e > 0 then real_call ''port_get'' False (en_ret e) s1 else shim_blocking_by_hand ''port_get'' e s1)
          (\<lambda>(ret, acts1, s2). Inr (ret, acts @ acts1, s2))))"

definition shim_port_getn :: "nat \<Rightarrow> sh_env \<Rightarrow> shim \<Rightarrow> sh_result" where
  "shim_port_getn max_ev e s =
     (if outside e s then shim_direct ''port_getn'' (en_ret e) s
      else if max_ev = 0 then real_call ''port_getn'' False (en_ret e) s
      else shim_blocking ''port_getn'' e s)"

datatype shim_call = CSleep | CUsleep | CAccept | CRead int | COpen string | CClose int | CWrite | CSelect | CRecvfrom bool
  | CRecv bool | CPoll int | CSend | CGethostbyname_r | CEpoll_wait | COpen64 string | CPort_get | CPort_getn nat

fun shim_name :: "shim_call \<Rightarrow> string" where
  "shim_name CSleep = ''sleep''" | "shim_name CUsleep = ''usleep''" | "shim_name CAccept = ''accept''"
| "shim_name (CRead fd) = ''read''" | "shim_name (COpen p) = ''open''" | "shim_name (CClose fd) = ''close''"
| "shim_name CWrite = ''write''" | "shim_name CSelect = ''select''" | "shim_name (CRecvfrom dw) = ''recvfrom''"
| "shim_name (CRecv dw) = ''recv''" | "shim_name (CPoll tm) = ''poll''" | "shim_name CSend = ''send''"
| "shim_name CGethostbyname_r = ''gethostbyname_r''" | "shim_name CEpoll_wait = ''epoll_wait''" | "shim_name (COpen64 p) = ''open64''"
| "shim_name CPort_get = ''port_get''" | "shim_name (CPort_getn n) = ''port_getn''"

definition shim_exec :: "shim_call \<Rightarrow> sh_env \<Rightarrow> shim \<Rightarrow> sh_result" where
  "shim_exec c e s = (case c of
      CSleep \<Rightarrow> shim_sleep e s | CUsleep \<Rightarrow> shim_usleep e s | CAccept \<Rightarrow> shim_accept e s | CRead fd \<Rightarrow> shim_read fd e s
    | COpen p \<Rightarrow> shim_open p e s | CClose fd \<Rightarrow> shim_close fd e s | CWrite \<Rightarrow> shim_write e s | CSelect \<Rightarrow> shim_select e s
    | CRecvfrom dw \<Rightarrow> shim_recvfrom dw e s | CRecv dw \<Rightarrow> shim_recv dw e s | CPoll tm \<Rightarrow> shim_poll tm e s | CSend \<Rightarrow> shim_send e s
    | CGethostbyname_r \<Rightarrow> shim_gethostbyname_r e s | CEpoll_wait \<Rightarrow> shim_epoll_wait e s | COpen64 p \<Rightarrow> shim_open64 p e s
    | CPort_get \<Rightarrow> shim_port_get e s | CPort_getn n \<Rightarrow> shim_port_getn n e s)"

section \<open>The lock around a call\<close>

text \<open>Whether the actions keep to the lock: it is given up only when held, taken only when not held, needed to wake
  and to wait, and not held around a call that may block.  The result is whether it is held at the end.\<close>

fun lock_run :: "bool \<Rightarrow> shim_act list \<Rightarrow> bool option" where
  "lock_run held [] = Some held"
| "lock_run held (a # as) = (case a of
      AUnlock \<Rightarrow> if held then lock_run False as else None
    | ALock \<Rightarrow> if held then None else lock_run True as
    | AWake c \<Rightarrow> if held then lock_run held as else None
    | AWaitToRun \<Rightarrow> if held then lock_run held as else None
    | AReal f blocks \<Rightarrow> if blocks \<and> held then None else lock_run held as
    | _ \<Rightarrow> lock_run held as)"

fun real_calls :: "shim_act list \<Rightarrow> string list" where
  "real_calls [] = []"
| "real_calls (AReal f b # as) = f # real_calls as"
| "real_calls (a # as) = real_calls as"

inductive sh_reach :: "platform \<Rightarrow> shim \<Rightarrow> bool" for pl where
  new: "sh_reach pl shim_new"
| init: "sh_reach pl s \<Longrightarrow> sh_reach pl (initShim pl s)"
| deinit: "sh_reach pl s \<Longrightarrow> sh_reach pl (deinitShim s)"
| exec: "sh_reach pl s \<Longrightarrow> shim_exec c e s = Inr (ret, acts, s') \<Longrightarrow> sh_reach pl s'"

lemma real_call_eq: "real_call f b ret s = Inr (r, acts, s') \<longleftrightarrow> f \<in> set (sh_fns s) \<and> r = ret \<and> acts = [AReal f b] \<and> s' = s"
  by (auto simp: real_call_def)

lemma real_call_found: "f \<in> set (sh_fns s) \<Longrightarrow> real_call f b ret s = Inr (ret, [AReal f b], s)"
  by (simp add: real_call_def)

definition shim_frame :: "shim \<Rightarrow> sh_result \<Rightarrow> bool" where
  "shim_frame s r \<longleftrightarrow> (case r of Inl x \<Rightarrow> True | Inr (ret, acts, s') \<Rightarrow> set (sh_fns s) \<subseteq> set (sh_fns s') \<and> sh_eminfo s' = sh_eminfo s)"

lemma shim_frame_basic:
  "shim_frame s (real_call f b ret s)" "shim_frame s (shim_direct f ret s)" "shim_frame s (shim_blocking f e s)"
  "shim_frame s (shim_blocking_by_hand f e s)" "shim_frame s (after_poll f now e s)"
  by (auto simp: shim_frame_def real_call_def shim_direct_def shim_blocking_def shim_blocking_by_hand_def after_poll_def)

lemma shim_frame_exec: "shim_frame s (shim_exec c e s)"
proof (cases c)
  case (COpen p)
  then show ?thesis
    using shim_frame_basic(2) by (auto simp: shim_exec_def shim_open_def shim_open_as_def shim_frame_def real_call_def set_regular_def assertE_def)
next
  case (COpen64 p)
  then show ?thesis
    using shim_frame_basic(2) by (auto simp: shim_exec_def shim_open64_def shim_open_as_def shim_frame_def real_call_def set_regular_def assertE_def)
next
  case (CClose fd)
  then show ?thesis
    using shim_frame_basic(2) by (auto simp: shim_exec_def shim_close_def shim_frame_def real_call_def set_regular_def assertE_def)
next
  case (CRead fd)
  then show ?thesis
    using shim_frame_basic by (auto simp: shim_exec_def shim_read_def is_regular_def assertE_def shim_frame_def)
next
  case (CPoll tm)
  then show ?thesis
    using shim_frame_basic(2) by (auto simp: shim_exec_def shim_poll_def shim_frame_def real_call_def shim_blocking_def)
next
  case CPort_get
  then show ?thesis
    using shim_frame_basic(2) by (auto simp: shim_exec_def shim_port_get_def shim_frame_def real_call_def shim_blocking_by_hand_def)
qed (simp_all add: shim_exec_def shim_frame_basic shim_sleep_def shim_usleep_def shim_accept_def shim_write_def shim_select_def
    shim_recvfrom_def shim_recv_def shim_send_def shim_gethostbyname_r_def shim_epoll_wait_def shim_port_getn_def)

lemma sh_reach_resolved: "sh_reach pl s \<Longrightarrow> sh_eminfo s \<Longrightarrow> set (shim_names pl) \<subseteq> set (sh_fns s)"
proof (induction rule: sh_reach.induct)
  case (exec s c e ret acts s')
  then show ?case using shim_frame_exec[of s c e] by (auto simp: shim_frame_def)
qed (auto simp: shim_new_def initShim_def deinitShim_def)

text \<open>What a wrapper may do, by whether the thread holds the lock.\<close>

definition shim_good :: "bool \<Rightarrow> string \<Rightarrow> int \<Rightarrow> sh_result \<Rightarrow> bool" where
  "shim_good held f r res \<longleftrightarrow> (case res of Inl x \<Rightarrow> False
    | Inr (ret, acts, s') \<Rightarrow> lock_run held acts = Some held \<and> real_calls acts \<noteq> [] \<and> last (real_calls acts) = f \<and> ret = r)"

lemma shim_good_basic:
  "shim_good False f ret (shim_direct f ret s)"
  "f \<in> set (sh_fns s) \<Longrightarrow> shim_good held f ret (real_call f False ret s)"
  "f \<in> set (sh_fns s) \<Longrightarrow> shim_good True f (en_ret e) (shim_blocking f e s)"
  "f \<in> set (sh_fns s) \<Longrightarrow> shim_good True f (en_ret e) (shim_blocking_by_hand f e s)"
  "f \<in> set (sh_fns s) \<Longrightarrow> ''poll'' \<in> set (sh_fns s) \<Longrightarrow> shim_good True f (en_ret e) (after_poll f now e s)"
  by (auto simp: shim_good_def shim_direct_def real_call_found shim_blocking_def shim_blocking_by_hand_def after_poll_def get_in_line_def)

text \<open>The descriptors the wrapper would use as index.\<close>

definition bad_fd :: "shim_call \<Rightarrow> sh_env \<Rightarrow> shim \<Rightarrow> bool" where
  "bad_fd c e s \<longleftrightarrow> (case c of
      CRead fd \<Rightarrow> \<not> outside e s \<and> (fd < 0 \<or> fd \<ge> 16384)
    | COpen p \<Rightarrow> sh_eminfo s \<and> (en_ret e < -1 \<or> en_ret e \<ge> 16384)
    | COpen64 p \<Rightarrow> sh_eminfo s \<and> (en_ret e < -1 \<or> en_ret e \<ge> 16384)
    | CClose fd \<Rightarrow> sh_eminfo s \<and> fd \<ge> 16384
    | _ \<Rightarrow> False)"

definition shim_expected :: "shim_call \<Rightarrow> sh_env \<Rightarrow> shim \<Rightarrow> int" where
  "shim_expected c e s = (case c of
      CPoll tm \<Rightarrow> if outside e s \<or> en_poll0 e = 0 \<and> tm \<noteq> 0 then en_ret e else en_poll0 e
    | CWrite \<Rightarrow> if outside e s \<or> en_ready e then en_ret e else signed_take_bit 31 (en_ret e)
    | _ \<Rightarrow> en_ret e)"

lemma shim_exec_good:
  assumes r: "sh_eminfo s \<Longrightarrow> set (shim_names pl) \<subseteq> set (sh_fns s)" and c: "shim_name c \<in> set (shim_names pl)"
    and b: "\<not> bad_fd c e s" "\<And>fd. c = CClose fd \<Longrightarrow> sh_eminfo s \<Longrightarrow> fd \<ge> 0"
  shows "shim_good (\<not> outside e s) (shim_name c) (shim_expected c e s) (shim_exec c e s)"
proof -
  have f: "shim_name c \<in> set (sh_fns s)" "''poll'' \<in> set (sh_fns s)" "pl = SunOS \<longrightarrow> ''port_getn'' \<in> set (sh_fns s)" if "sh_eminfo s"
    using r[OF that] c by (auto simp: shim_names_def)
  have o: "\<not> outside e s \<Longrightarrow> sh_eminfo s" "\<not> sh_eminfo s \<Longrightarrow> outside e s" by (simp_all add: outside_def)
  show ?thesis
  proof (cases c)
    case (COpen p)
    then show ?thesis
      using f o b shim_good_basic(1)[of "''open''" "en_ret e" s]
      by (cases "sh_eminfo s") (auto simp: shim_exec_def shim_open_def shim_open_as_def bad_fd_def real_call_found set_regular_def assertE_def
          shim_good_def[of _ _ _ "Inr _"] shim_expected_def)
  next
    case (COpen64 p)
    then show ?thesis
      using f o b shim_good_basic(1)[of "''open64''" "en_ret e" s]
      by (cases "sh_eminfo s") (auto simp: shim_exec_def shim_open64_def shim_open_as_def bad_fd_def real_call_found set_regular_def assertE_def
          shim_good_def[of _ _ _ "Inr _"] shim_expected_def)
  next
    case (CClose fd)
    then show ?thesis
      using f o b shim_good_basic(1)[of "''close''" "en_ret e" s]
      by (cases "sh_eminfo s") (auto simp: shim_exec_def shim_close_def bad_fd_def real_call_found set_regular_def assertE_def
          shim_good_def[of _ _ _ "Inr _"] shim_expected_def)
  next
    case (CRead fd)
    then show ?thesis
      using f o b shim_good_basic(1)[of "''read''" "en_ret e" s] shim_good_basic(2)[of "''read''" s True "en_ret e"]
        shim_good_basic(3,5)[of "''read''" s e]
      by (auto simp: shim_exec_def shim_read_def is_regular_def assertE_def bad_fd_def shim_expected_def)
  next
    case (CPoll tm)
    then show ?thesis
      using f o shim_good_basic(1)[of "''poll''" "en_ret e" s]
      by (cases "outside e s") (auto simp: shim_exec_def shim_poll_def real_call_found shim_good_def[of _ _ _ "Inr _"] shim_expected_def shim_blocking_def get_in_line_def)
  next
    case CWrite
    define e1 where "e1 = (if en_ready e then e else e\<lparr> en_ret := signed_take_bit 31 (en_ret e) \<rparr>)"
    show ?thesis
      using CWrite f o shim_good_basic(1)[of "''write''" "en_ret e" s] shim_good_basic(5)[of "''write''" s e1 "en_ready e"]
      by (auto simp: shim_exec_def shim_write_def shim_expected_def e1_def split: if_splits)
  next
    case CPort_get
    have "pl = SunOS" using c CPort_get by (cases pl) (auto simp: shim_names_def)
    then show ?thesis
      using CPort_get f o shim_good_basic(1)[of "''port_get''" "en_ret e" s]
      by (cases "outside e s") (auto simp: shim_exec_def shim_port_get_def real_call_found shim_good_def[of _ _ _ "Inr _"] shim_expected_def shim_blocking_by_hand_def get_in_line_def)
  qed (use f o in \<open>auto simp: shim_exec_def shim_expected_def shim_sleep_def shim_usleep_def shim_accept_def
      shim_select_def shim_recvfrom_def shim_recv_def shim_send_def shim_gethostbyname_r_def shim_epoll_wait_def shim_port_getn_def
      intro!: shim_good_basic\<close>)
qed

lemma shim_exec_bad: "bad_fd c e s \<Longrightarrow> sh_reach pl s \<Longrightarrow> shim_name c \<in> set (shim_names pl) \<Longrightarrow> shim_exec c e s = Inl AssertFailed"
  using sh_reach_resolved[of pl s]
  by (cases c) (auto simp: bad_fd_def shim_exec_def shim_read_def shim_open_def shim_open64_def shim_open_as_def shim_close_def
      is_regular_def set_regular_def assertE_def real_call_def outside_def)

text \<open>Closing a negative descriptor.\<close>

definition closes_nothing :: "shim_call \<Rightarrow> shim \<Rightarrow> bool" where
  "closes_nothing c s \<longleftrightarrow> sh_eminfo s \<and> (case c of CClose fd \<Rightarrow> fd < 0 | _ \<Rightarrow> False)"

lemma closes_nothing_exec: "closes_nothing c s \<Longrightarrow> shim_exec c e s = Inr (-1, [], s)"
  by (cases c) (auto simp: closes_nothing_def shim_exec_def shim_close_def)



section \<open>The runtime around a call\<close>

text \<open>Taking the actions of a thread in the classic runtime: what is left to do when the thread falls asleep in the
  line, and the runtime then.  \<open>prev\<close> is the thread's flag as \<open>ADetach\<close> found it; an action that is not possible ends the run.\<close>

fun shim_acts :: "bool \<Rightarrow> nat \<Rightarrow> nat \<Rightarrow> bool \<Rightarrow> shim_act list \<Rightarrow> rtstate \<Rightarrow> (shim_act list \<times> rtstate) option" where
  "shim_acts switch k t prev [] r = Some ([], r)"
| "shim_acts switch k t prev (a # as) r = (case a of
      AWake c \<Rightarrow> shim_acts switch k t prev as (wake_another_thread switch k r)
    | AState st \<Rightarrow> shim_acts switch k t prev as (th_upd t (\<lambda>th. th\<lparr> t_wait_state := st \<rparr>) r)
    | AUnlock \<Rightarrow> if rt_lock r = Some t then shim_acts switch k t prev as (unlock r) else None
    | ALock \<Rightarrow> if rt_lock r = None then shim_acts switch k t prev as (r\<lparr> rt_lock := Some t \<rparr>) else None
    | ADetach \<Rightarrow> shim_acts switch k t (t_detached (rt_threads r t)) as (th_upd t (\<lambda>th. th\<lparr> t_detached := True \<rparr>) r)
    | ARestore \<Rightarrow> shim_acts switch k t prev as (th_upd t (\<lambda>th. th\<lparr> t_detached := prev \<rparr>) r)
    | ARestoreRunning \<Rightarrow> shim_acts switch k t prev as (if rt_running r then th_upd t (\<lambda>th. th\<lparr> t_detached := prev \<rparr>) r else r)
    | AReal f blocks \<Rightarrow> shim_acts switch k t prev as r
    | AWaitToRun \<Rightarrow>
        let cv = rt_waiting_to_run r; r1 = r\<lparr> rt_waiting_to_run := cv_wait ic_inc ic_dec t cv \<rparr> in
        if cv_allow_skip cv then shim_acts switch k t prev as r1 else Some (as, unlock r1))"

lemma wake_keeps:
  "rt_lock (wake_another_thread switch k r) = rt_lock r" "rt_running (wake_another_thread switch k r) = rt_running r"
  "rt_queue (wake_another_thread switch k r) = rt_queue r" "rt_detached_count (wake_another_thread switch k r) = rt_detached_count r"
  "t < rt_next_thread r \<Longrightarrow> rt_threads (wake_another_thread switch k r) t = rt_threads r t"
  by (simp_all add: wake_another_thread_def new_RunTimeThread_def signal_to_run_def signal_in_pool_def Let_def)

text \<open>What the thread has become when it is through, or asleep in the line.\<close>

definition shim_back :: "nat \<Rightarrow> rtstate \<Rightarrow> shim_act list \<Rightarrow> rtstate \<Rightarrow> bool" where
  "shim_back t r rest r' \<longleftrightarrow> t_detached (rt_threads r' t) = t_detached (rt_threads r t) \<and>
     rt_queue r' = rt_queue r \<and> rt_detached_count r' = rt_detached_count r \<and>
     (if rest = [] then rt_lock r' = Some t \<and> t_wait_state (rt_threads r' t) = RTTWS_running
      else rest = [AState RTTWS_running] \<and> rt_lock r' = None \<and> t \<in> set (cv_asleep (rt_waiting_to_run r')) \<and>
        t_wait_state (rt_threads r' t) = RTTWS_wtrshim)"

lemmas shim_act_simps = get_in_line_def wake_keeps th_upd_def unlock_def Let_def cv_wait_def



text \<open>A blocking call that returns after the runtime was told to stop leaves the thread marked as detached, with the
  lock held, so that its next blocking call is made under the lock.\<close>

lemma shim_detached_after_stop:
  assumes "rt_lock r = Some t" "\<not> rt_running r" "t < rt_next_thread r" "shim_blocking f e s = Inr (ret, acts, s')"
    and "shim_acts switch k t prev acts r = Some ([], r')" "en_detached e' = t_detached (rt_threads r' t)"
  shows "rt_lock r' = Some t \<and> (\<exists>acts' s''. shim_exec CSleep e' s' = Inr (en_ret e', acts', s'') \<and> lock_run True acts' = None)"
proof -
  have "rt_lock r' = Some t" "t_detached (rt_threads r' t)"
    using assms(1-5) by (auto simp: shim_blocking_def real_call_def shim_act_simps split: if_splits)
  then show ?thesis using assms(6) by (auto simp: shim_exec_def shim_sleep_def outside_def shim_direct_def real_call_def)
qed

end
