(* ===== verification/HazardPointers.thy ===== *)
theory HazardPointers
  imports Holder
begin

text \<open>
  runtime/lockfree/allocator/OFluxSMR.h and .cpp with OFluxThreadNumber.h: hazard pointers.  A thread that follows
  a shared pointer publishes it first and looks again; memory is given back in batches, and what some thread
  has published is kept back.  A step is one access to shared memory, any number of threads interleave; nodes
  are numbers, ordered by address.
\<close>

section \<open>Sizes\<close>

definition smr_K :: nat where "smr_K = 2"
definition smr_P :: nat where "smr_P = 32"
definition smr_N :: nat where "smr_N = smr_P * smr_K"
definition smr_R :: nat where "smr_R = 2 * smr_N"

section \<open>Scanning\<close>

definition plist_compare :: "nat \<Rightarrow> nat \<Rightarrow> int" where
  "plist_compare l r = (if l = r then 0 else if l < r then -1 else 1)"

function bsearch :: "nat list \<Rightarrow> nat \<Rightarrow> int \<Rightarrow> int \<Rightarrow> bool" where
  "bsearch plist x low high =
     (if low \<le> high
      then let mid = (low + high) div 2; v = plist ! nat mid in
           if v = x then True
           else if v < x then bsearch plist x (mid + 1) high
           else bsearch plist x low (mid - 1)
      else False)"
  by pat_completeness auto
termination by (relation "measure (\<lambda>(plist, x, low, high). nat (high - low + 1))") auto

declare bsearch.simps [simp del]

definition binary_search :: "nat \<times> nat \<Rightarrow> nat list \<Rightarrow> bool" where
  "binary_search ent plist = bsearch plist (fst ent) 0 (int (length plist) - 1)"

text \<open>Stages 3 and 4: the entries that are kept, in order, and those that are given back.\<close>

fun scan_loop :: "nat list \<Rightarrow> (nat \<times> nat) list \<Rightarrow> (nat \<times> nat) list \<times> (nat \<times> nat) list" where
  "scan_loop plist [] = ([], [])"
| "scan_loop plist (ent # dl) = (case scan_loop plist dl of (keep, reclaim) \<Rightarrow>
     if length plist > 0 \<and> binary_search ent plist then (ent # keep, reclaim) else (keep, ent # reclaim))"

section \<open>State\<close>

text \<open>Where a thread is: protecting the pointer at a location with its \<open>n\<close>-th hazard pointer, or scanning, with the
  hazard pointer it reads next and those it has found.\<close>

datatype sm_pc = SIdle | SRead nat nat | SSet nat nat "nat option" | SCheck nat nat "nat option" | SScan nat nat "nat list" | SFail

text \<open>\<open>sm_holds\<close> records the nodes that threads have been told they can follow, \<open>sm_freed\<close> those given back.\<close>

record smr =
  sm_num_threads :: nat
  sm_started :: "nat list"
  sm_hazard :: "nat \<Rightarrow> nat \<Rightarrow> nat option"
  sm_loc :: "nat \<Rightarrow> nat option"
  sm_dlist :: "nat \<Rightarrow> (nat \<times> nat) list"
  sm_freed :: "nat list"
  sm_pc :: "nat \<Rightarrow> sm_pc"
  sm_holds :: "nat \<Rightarrow> nat \<Rightarrow> nat option"

definition sm_new :: smr where
  "sm_new = \<lparr> sm_num_threads = 0, sm_started = [], sm_hazard = \<lambda>_ _. None, sm_loc = \<lambda>_. None, sm_dlist = \<lambda>_. [], sm_freed = [],
     sm_pc = \<lambda>_. SIdle, sm_holds = \<lambda>_ _. None \<rparr>"

definition sm_go :: "nat \<Rightarrow> sm_pc \<Rightarrow> smr \<Rightarrow> smr" where
  "sm_go t pc s = s\<lparr> sm_pc := (sm_pc s)(t := pc) \<rparr>"

definition sm_set :: "nat \<Rightarrow> nat \<Rightarrow> nat option \<Rightarrow> smr \<Rightarrow> smr" where
  "sm_set t n hp s = s\<lparr> sm_hazard := (sm_hazard s)(t := (sm_hazard s t)(n := hp)) \<rparr>"

definition sm_told :: "nat \<Rightarrow> nat \<Rightarrow> nat option \<Rightarrow> smr \<Rightarrow> smr" where
  "sm_told t n hp s = s\<lparr> sm_holds := (sm_holds s)(t := (sm_holds s t)(n := hp)) \<rparr>"

section \<open>Operations\<close>

text \<open>A thread takes its number, counts itself in, and clears its list.\<close>

definition sm_init :: "nat \<Rightarrow> smr \<Rightarrow> smr" where
  "sm_init i s = s\<lparr> sm_num_threads := sm_num_threads s + 1, sm_started := i # sm_started s, sm_dlist := (sm_dlist s)(i := []) \<rparr>"

text \<open>\<open>HAZARD_PTR_ASSIGN\<close> and \<open>HAZARD_PTR_RELEASE\<close>; the first goes round until the pointer did not change.\<close>

definition sm_protect :: "nat \<Rightarrow> nat \<Rightarrow> nat \<Rightarrow> smr \<Rightarrow> smr" where
  "sm_protect t l n s = sm_go t (SRead l n) (sm_told t n None s)"

definition sm_release :: "nat \<Rightarrow> nat \<Rightarrow> smr \<Rightarrow> smr" where
  "sm_release t n s = sm_set t n None (sm_told t n None s)"

definition sm_deferred :: "smr \<Rightarrow> nat \<Rightarrow> bool" where
  "sm_deferred s v \<longleftrightarrow> (\<exists>u\<in>set (sm_started s). v \<in> fst ` set (sm_dlist s u))"

definition defer_put :: "nat \<Rightarrow> nat \<Rightarrow> nat \<Rightarrow> smr \<Rightarrow> smr" where
  "defer_put t v alloc s =
     (let s1 = s\<lparr> sm_dlist := (sm_dlist s)(t := sm_dlist s t @ [(v, alloc)]) \<rparr> in
      if length (sm_dlist s1 t) \<ge> smr_R
      then sm_go t (if sm_num_threads s1 < smr_P then SScan 0 0 [] else SFail) s1
      else s1)"

definition scan_end :: "nat \<Rightarrow> nat list \<Rightarrow> smr \<Rightarrow> smr" where
  "scan_end t plist s = (case scan_loop (qsort plist_compare plist) (sm_dlist s t) of (keep, reclaim) \<Rightarrow>
     sm_go t (if length keep < smr_R then SIdle else SFail)
       (s\<lparr> sm_dlist := (sm_dlist s)(t := keep), sm_freed := map fst reclaim @ sm_freed s \<rparr>))"

definition sm_step :: "nat \<Rightarrow> smr \<Rightarrow> smr" where
  "sm_step t s = (case sm_pc s t of
      SRead l n \<Rightarrow> sm_go t (SSet l n (sm_loc s l)) s
    | SSet l n h \<Rightarrow> sm_go t (SCheck l n h) (sm_set t n h s)
    | SCheck l n h \<Rightarrow> if sm_loc s l = h then sm_go t SIdle (sm_told t n h s) else sm_go t (SRead l n) s
    | SScan i k plist \<Rightarrow>
        if i < sm_num_threads s
        then sm_go t (SScan (if k + 1 < smr_K then i else i + 1) (if k + 1 < smr_K then k + 1 else 0)
               (case sm_hazard s i k of None \<Rightarrow> plist | Some h \<Rightarrow> plist @ [h])) s
        else scan_end t plist s
    | _ \<Rightarrow> s)"

section \<open>Runs\<close>

text \<open>What the users of the hazard pointers keep to: a location is set to a node that is neither put off nor given
  back; a node is put off once, when no location has it any more; what was given back can be allocated anew.
  With \<open>ordered\<close> the threads count themselves in by their numbers, as far as that is not up to them.\<close>

inductive sm_reach :: "bool \<Rightarrow> smr \<Rightarrow> bool" for ordered where
  new: "sm_reach ordered sm_new"
| init: "sm_reach ordered s \<Longrightarrow> i < smr_P \<Longrightarrow> i \<notin> set (sm_started s) \<Longrightarrow> (ordered \<longrightarrow> i = sm_num_threads s) \<Longrightarrow>
    sm_reach ordered (sm_init i s)"
| protect: "sm_reach ordered s \<Longrightarrow> t \<in> set (sm_started s) \<Longrightarrow> sm_pc s t = SIdle \<Longrightarrow> n < smr_K \<Longrightarrow>
    sm_reach ordered (sm_protect t l n s)"
| release: "sm_reach ordered s \<Longrightarrow> t \<in> set (sm_started s) \<Longrightarrow> sm_pc s t = SIdle \<Longrightarrow> n < smr_K \<Longrightarrow>
    sm_reach ordered (sm_release t n s)"
| publish: "sm_reach ordered s \<Longrightarrow> (\<forall>v. p = Some v \<longrightarrow> \<not> sm_deferred s v \<and> v \<notin> set (sm_freed s)) \<Longrightarrow>
    sm_reach ordered (s\<lparr> sm_loc := (sm_loc s)(l := p) \<rparr>)"
| put_off: "sm_reach ordered s \<Longrightarrow> t \<in> set (sm_started s) \<Longrightarrow> sm_pc s t = SIdle \<Longrightarrow> (\<forall>l. sm_loc s l \<noteq> Some v) \<Longrightarrow>
    \<not> sm_deferred s v \<Longrightarrow> v \<notin> set (sm_freed s) \<Longrightarrow> sm_reach ordered (defer_put t v alloc s)"
| alloc: "sm_reach ordered s \<Longrightarrow> sm_reach ordered (s\<lparr> sm_freed := removeAll v (sm_freed s) \<rparr>)"
| step: "sm_reach ordered s \<Longrightarrow> t \<in> set (sm_started s) \<Longrightarrow> sm_reach ordered (sm_step t s)"

section \<open>The search\<close>

lemma bsearch_iff:
  assumes "sorted plist" "0 \<le> low" "high < int (length plist)"
  shows "bsearch plist x low high \<longleftrightarrow> (\<exists>i. low \<le> i \<and> i \<le> high \<and> plist ! nat i = x)"
  using assms
proof (induction plist x low high rule: bsearch.induct)
  case (1 plist x low high)
  show ?case
  proof (cases "low \<le> high")
    case True
    define mid where "mid = (low + high) div 2"
    have m: "low \<le> mid" "mid \<le> high" using True by (simp_all add: mid_def)
    have le: "plist ! nat i \<le> plist ! nat j" if "0 \<le> i" "i \<le> j" "j < int (length plist)" for i j
      using that "1.prems"(1) by (intro sorted_nth_mono) auto
    consider "plist ! nat mid = x" | "plist ! nat mid < x" | "plist ! nat mid > x" by linarith
    then show ?thesis
    proof cases
      case 1
      then show ?thesis using True m unfolding bsearch.simps[of plist x low high] Let_def mid_def[symmetric] by auto
    next
      case 2
      have e: "bsearch plist x low high = bsearch plist x (mid + 1) high"
        using True 2 unfolding bsearch.simps[of plist x low high] Let_def mid_def[symmetric] by simp
      have ih: "bsearch plist x (mid + 1) high \<longleftrightarrow> (\<exists>i. mid + 1 \<le> i \<and> i \<le> high \<and> plist ! nat i = x)"
        using "1.IH"(1)[OF True mid_def refl] 2 m "1.prems" by simp
      have "mid + 1 \<le> i" if "low \<le> i" "plist ! nat i = x" for i
      proof (rule ccontr)
        assume "\<not> mid + 1 \<le> i"
        then show False using le[of i mid] that 2 m "1.prems" by simp
      qed
      then have "mid + 1 \<le> i \<and> i \<le> high \<and> plist ! nat i = x \<longleftrightarrow> low \<le> i \<and> i \<le> high \<and> plist ! nat i = x" for i
        using m(1) by auto
      then show ?thesis unfolding e ih by simp
    next
      case 3
      have e: "bsearch plist x low high = bsearch plist x low (mid - 1)"
        using True 3 unfolding bsearch.simps[of plist x low high] Let_def mid_def[symmetric] by simp
      have ih: "bsearch plist x low (mid - 1) \<longleftrightarrow> (\<exists>i. low \<le> i \<and> i \<le> mid - 1 \<and> plist ! nat i = x)"
        using "1.IH"(2)[OF True mid_def refl] 3 m "1.prems" by simp
      have "i \<le> mid - 1" if "i \<le> high" "plist ! nat i = x" for i
      proof (rule ccontr)
        assume "\<not> i \<le> mid - 1"
        then show False using le[of mid i] that 3 m "1.prems" by simp
      qed
      then have "low \<le> i \<and> i \<le> mid - 1 \<and> plist ! nat i = x \<longleftrightarrow> low \<le> i \<and> i \<le> high \<and> plist ! nat i = x" for i
        using m(2) by auto
      then show ?thesis unfolding e ih by simp
    qed
  qed (auto simp: bsearch.simps)
qed

lemma binary_search_iff: "sorted plist \<Longrightarrow> binary_search ent plist \<longleftrightarrow> fst ent \<in> set plist"
proof -
  assume "sorted plist"
  then have "binary_search ent plist \<longleftrightarrow> (\<exists>i. 0 \<le> i \<and> i \<le> int (length plist) - 1 \<and> plist ! nat i = fst ent)"
    unfolding binary_search_def by (rule bsearch_iff) auto
  also have "\<dots> \<longleftrightarrow> (\<exists>i<length plist. plist ! i = fst ent)"
  proof
    assume "\<exists>i\<ge>0. i \<le> int (length plist) - 1 \<and> plist ! nat i = fst ent"
    then obtain i where "0 \<le> i" "i < int (length plist)" "plist ! nat i = fst ent" by auto
    then show "\<exists>i<length plist. plist ! i = fst ent" by (intro exI[of _ "nat i"]) simp
  next
    assume "\<exists>i<length plist. plist ! i = fst ent"
    then obtain i where "i < length plist" "plist ! i = fst ent" by blast
    then show "\<exists>i\<ge>0. i \<le> int (length plist) - 1 \<and> plist ! nat i = fst ent" by (intro exI[of _ "int i"]) simp
  qed
  finally show ?thesis by (simp add: in_set_conv_nth)
qed

lemma scan_loop_filter:
  "sorted plist \<Longrightarrow> scan_loop plist dl = (filter (\<lambda>d. fst d \<in> set plist) dl, filter (\<lambda>d. fst d \<notin> set plist) dl)"
  by (induction dl) (auto simp: binary_search_iff)

lemma qsort_plist: "sorted (qsort plist_compare plist)" "set (qsort plist_compare plist) = set plist"
proof -
  have "sorted_wrt (\<lambda>a b. plist_compare a b \<le> 0) (qsort plist_compare plist)"
    by (rule qsort_sorted) (auto simp: plist_compare_def split: if_splits)
  then show "sorted (qsort plist_compare plist)"
    by (rule sorted_wrt_mono_rel[rotated]) (auto simp: plist_compare_def split: if_splits)
  show "set (qsort plist_compare plist) = set plist" by (metis qsort_mset set_mset_mset)
qed

lemma scan_end_eq:
  "scan_end t plist s = sm_go t (if length (filter (\<lambda>d. fst d \<in> set plist) (sm_dlist s t)) < smr_R then SIdle else SFail)
     (s\<lparr> sm_dlist := (sm_dlist s)(t := filter (\<lambda>d. fst d \<in> set plist) (sm_dlist s t)),
        sm_freed := map fst (filter (\<lambda>d. fst d \<notin> set plist) (sm_dlist s t)) @ sm_freed s \<rparr>)"
  by (simp add: scan_end_def scan_loop_filter[OF qsort_plist(1)] qsort_plist(2))

section \<open>What has been put off\<close>

text \<open>Every node is put off once and given back once, and the lists stay below their size.\<close>

definition sm_lists :: "smr \<Rightarrow> bool" where
  "sm_lists s \<longleftrightarrow> distinct (sm_started s) \<and> sm_num_threads s = length (sm_started s) \<and> (\<forall>u\<in>set (sm_started s). u < smr_P) \<and>
     (\<forall>u. u \<notin> set (sm_started s) \<longrightarrow> sm_pc s u = SIdle) \<and>
     (\<forall>u\<in>set (sm_started s). distinct (map fst (sm_dlist s u))) \<and>
     (\<forall>u\<in>set (sm_started s). \<forall>u'\<in>set (sm_started s). u \<noteq> u' \<longrightarrow> fst ` set (sm_dlist s u) \<inter> fst ` set (sm_dlist s u') = {}) \<and>
     distinct (sm_freed s) \<and> (\<forall>v\<in>set (sm_freed s). \<not> sm_deferred s v)"

definition sm_size_ok :: "nat \<Rightarrow> sm_pc \<Rightarrow> nat \<Rightarrow> bool" where
  "sm_size_ok threads pc n = (case pc of
      SScan i k plist \<Rightarrow> n \<le> smr_R \<and> i \<le> threads \<and> k < smr_K \<and> length plist \<le> smr_K * i + k \<and> (i \<ge> threads \<longrightarrow> k = 0)
    | SFail \<Rightarrow> n \<le> smr_R \<and> threads = smr_P
    | _ \<Rightarrow> n < smr_R)"

definition sm_sizes :: "smr \<Rightarrow> bool" where
  "sm_sizes s \<longleftrightarrow> (\<forall>u\<in>set (sm_started s). sm_size_ok (sm_num_threads s) (sm_pc s u) (length (sm_dlist s u)))"

lemma sm_lists_threads: "sm_lists s \<Longrightarrow> sm_num_threads s \<le> smr_P"
proof -
  assume "sm_lists s"
  then have "distinct (sm_started s)" "sm_num_threads s = length (sm_started s)" "set (sm_started s) \<subseteq> {..<smr_P}"
    by (auto simp: sm_lists_def)
  then show ?thesis using card_mono[of "{..<smr_P}" "set (sm_started s)"] by (simp add: distinct_card)
qed

lemma sm_lists_deferred:
  assumes "sm_lists s" "t \<in> set (sm_started s)" "v \<in> fst ` set (sm_dlist s t)"
  shows "v \<notin> set (sm_freed s)" "\<And>u. u \<in> set (sm_started s) \<Longrightarrow> u \<noteq> t \<Longrightarrow> v \<notin> fst ` set (sm_dlist s u)"
proof -
  have "sm_deferred s v" using assms(2,3) unfolding sm_deferred_def by blast
  then show "v \<notin> set (sm_freed s)" using assms(1) unfolding sm_lists_def by blast
  show "v \<notin> fst ` set (sm_dlist s u)" if "u \<in> set (sm_started s)" "u \<noteq> t" for u
    using assms that unfolding sm_lists_def by blast
qed

lemma sm_lists_scan_end:
  assumes l: "sm_lists s" and t: "t \<in> set (sm_started s)"
  shows "sm_lists (scan_end t plist s)"
proof -
  let ?keep = "filter (\<lambda>d. fst d \<in> set plist) (sm_dlist s t)" and ?rec = "filter (\<lambda>d. fst d \<notin> set plist) (sm_dlist s t)"
  have d: "distinct (map fst (sm_dlist s t))" using l t by (simp add: sm_lists_def)
  then have d1: "distinct (map fst ?keep)" "distinct (map fst ?rec)" by (simp_all add: distinct_map_filter)
  have sub: "fst ` set ?keep \<subseteq> fst ` set (sm_dlist s t)" "fst ` set ?rec \<subseteq> fst ` set (sm_dlist s t)" by auto
  have dj: "fst ` set ?keep \<inter> fst ` set ?rec = {}" by auto
  have fr: "set (map fst ?rec) \<inter> set (sm_freed s) = {}"
    using sm_lists_deferred(1)[OF l t] sub(2) by auto
  have df: "sm_deferred (scan_end t plist s) v \<Longrightarrow> sm_deferred s v \<and> v \<notin> fst ` set ?rec" for v
    using sm_lists_deferred(2)[OF l t] sub dj
    by (auto simp: sm_deferred_def scan_end_eq sm_go_def split: if_splits)
  show ?thesis
    unfolding sm_lists_def
  proof (intro conjI ballI allI impI)
    fix u u' assume "u \<in> set (sm_started (scan_end t plist s))" "u' \<in> set (sm_started (scan_end t plist s))" "u \<noteq> u'"
    moreover from this have "fst ` set (sm_dlist s u) \<inter> fst ` set (sm_dlist s u') = {}"
      using l by (simp add: sm_lists_def scan_end_eq sm_go_def)
    ultimately show "fst ` set (sm_dlist (scan_end t plist s) u) \<inter> fst ` set (sm_dlist (scan_end t plist s) u') = {}"
      using sub(1) by (auto simp: scan_end_eq sm_go_def)
  next
    fix v assume "v \<in> set (sm_freed (scan_end t plist s))"
    then have "v \<in> fst ` set ?rec \<or> v \<in> set (sm_freed s)" by (auto simp: scan_end_eq sm_go_def)
    then show "\<not> sm_deferred (scan_end t plist s) v" using df l by (auto simp: sm_lists_def)
  qed (use l t d1 fr in \<open>auto simp: sm_lists_def scan_end_eq sm_go_def\<close>)
qed

lemma sm_deferred_pc [simp]: "sm_deferred (sm_go t pc s) = sm_deferred s" "sm_deferred (sm_set t n h s) = sm_deferred s"
  "sm_deferred (sm_told t n h s) = sm_deferred s" "sm_deferred (s\<lparr> sm_loc := m \<rparr>) = sm_deferred s"
  "sm_deferred (s\<lparr> sm_freed := fs \<rparr>) = sm_deferred s"
  by (simp_all add: sm_deferred_def fun_eq_iff sm_go_def sm_set_def sm_told_def)

lemma sm_simps [simp]:
  "sm_started (sm_go t pc s) = sm_started s" "sm_num_threads (sm_go t pc s) = sm_num_threads s" "sm_dlist (sm_go t pc s) = sm_dlist s"
  "sm_freed (sm_go t pc s) = sm_freed s" "sm_pc (sm_go t pc s) = (sm_pc s)(t := pc)" "sm_hazard (sm_go t pc s) = sm_hazard s"
  "sm_holds (sm_go t pc s) = sm_holds s" "sm_loc (sm_go t pc s) = sm_loc s"
  "sm_started (sm_set t n h s) = sm_started s" "sm_num_threads (sm_set t n h s) = sm_num_threads s" "sm_dlist (sm_set t n h s) = sm_dlist s"
  "sm_freed (sm_set t n h s) = sm_freed s" "sm_pc (sm_set t n h s) = sm_pc s" "sm_holds (sm_set t n h s) = sm_holds s"
  "sm_loc (sm_set t n h s) = sm_loc s" "sm_hazard (sm_set t n h s) = (sm_hazard s)(t := (sm_hazard s t)(n := h))"
  "sm_started (sm_told t n h s) = sm_started s" "sm_num_threads (sm_told t n h s) = sm_num_threads s" "sm_dlist (sm_told t n h s) = sm_dlist s"
  "sm_freed (sm_told t n h s) = sm_freed s" "sm_pc (sm_told t n h s) = sm_pc s" "sm_hazard (sm_told t n h s) = sm_hazard s"
  "sm_loc (sm_told t n h s) = sm_loc s" "sm_holds (sm_told t n h s) = (sm_holds s)(t := (sm_holds s t)(n := h))"
  by (simp_all add: sm_go_def sm_set_def sm_told_def)

lemma sm_lists_cong:
  assumes "sm_lists s" "sm_started s' = sm_started s" "sm_num_threads s' = sm_num_threads s" "sm_dlist s' = sm_dlist s" "sm_freed s' = sm_freed s"
    and "\<And>u. u \<notin> set (sm_started s) \<Longrightarrow> sm_pc s' u = sm_pc s u"
  shows "sm_lists s'"
  using assms by (simp add: sm_lists_def sm_deferred_def)

lemma sm_lists_step: "sm_lists s \<Longrightarrow> t \<in> set (sm_started s) \<Longrightarrow> sm_lists (sm_step t s)"
  by (cases "sm_pc s t")
    (auto simp: sm_step_def intro: sm_lists_scan_end sm_lists_cong split: option.splits)

lemma sm_lists_defer_put:
  assumes l: "sm_lists s" and t: "t \<in> set (sm_started s)" and v: "\<not> sm_deferred s v" "v \<notin> set (sm_freed s)"
  shows "sm_lists (defer_put t v alloc s)"
proof -
  let ?s = "s\<lparr> sm_dlist := (sm_dlist s)(t := sm_dlist s t @ [(v, alloc)]) \<rparr>"
  have n: "v \<notin> fst ` set (sm_dlist s u)" if "u \<in> set (sm_started s)" for u using v(1) that by (auto simp: sm_deferred_def)
  have df: "sm_deferred ?s x \<Longrightarrow> sm_deferred s x \<or> x = v" for x by (auto simp: sm_deferred_def split: if_splits)
  have "sm_lists ?s"
    unfolding sm_lists_def
  proof (intro conjI ballI allI impI)
    fix u u' assume "u \<in> set (sm_started ?s)" "u' \<in> set (sm_started ?s)" "u \<noteq> u'"
    moreover from this have "fst ` set (sm_dlist s u) \<inter> fst ` set (sm_dlist s u') = {}" using l by (simp add: sm_lists_def)
    ultimately show "fst ` set (sm_dlist ?s u) \<inter> fst ` set (sm_dlist ?s u') = {}" using n[of u] n[of u'] by auto
  next
    fix x assume "x \<in> set (sm_freed ?s)"
    then show "\<not> sm_deferred ?s x" using df[of x] v(2) l by (auto simp: sm_lists_def)
  qed (use l t n in \<open>auto simp: sm_lists_def\<close>)
  moreover have "defer_put t v alloc s = ?s \<or> (\<exists>pc. defer_put t v alloc s = sm_go t pc ?s)"
    by (auto simp: defer_put_def Let_def)
  ultimately show ?thesis using t by (auto intro: sm_lists_cong)
qed

lemma sm_reach_lists: "sm_reach ordered s \<Longrightarrow> sm_lists s"
proof (induction rule: sm_reach.induct)
  case new
  then show ?case by (simp add: sm_new_def sm_lists_def)
next
  case (init s i)
  then show ?case by (auto simp: sm_lists_def sm_init_def sm_deferred_def split: if_splits)
next
  case (alloc s v)
  then show ?case by (auto simp: sm_lists_def distinct_removeAll)
qed (auto simp: sm_protect_def sm_release_def intro: sm_lists_step sm_lists_defer_put sm_lists_cong)

lemma sm_freed_once: "sm_reach ordered s \<Longrightarrow> distinct (sm_freed s) \<and> (\<forall>v\<in>set (sm_freed s). \<not> sm_deferred s v)"
  using sm_reach_lists by (simp add: sm_lists_def)

text \<open>Sizes.\<close>

lemma smr_sizes: "smr_K = 2" "smr_P = 32" "smr_R = 128"
  by (simp_all add: smr_K_def smr_P_def smr_R_def smr_N_def)

lemma sm_sizes_upd:
  assumes "sm_sizes s" "sm_started s' = sm_started s" "sm_num_threads s' = sm_num_threads s"
    and "\<And>u. u \<noteq> t \<Longrightarrow> sm_dlist s' u = sm_dlist s u" "\<And>u. u \<noteq> t \<Longrightarrow> sm_pc s' u = sm_pc s u"
    and "sm_size_ok (sm_num_threads s) (sm_pc s' t) (length (sm_dlist s' t))"
  shows "sm_sizes s'"
  unfolding sm_sizes_def assms(2,3)
proof
  fix u assume u: "u \<in> set (sm_started s)"
  show "sm_size_ok (sm_num_threads s) (sm_pc s' u) (length (sm_dlist s' u))"
    using assms(1) assms(4,5)[of u] assms(6) u by (cases "u = t") (simp_all add: sm_sizes_def)
qed

lemma sm_sizes_idle: "sm_sizes s \<Longrightarrow> t \<in> set (sm_started s) \<Longrightarrow> sm_pc s t = SIdle \<Longrightarrow> length (sm_dlist s t) < smr_R"
  by (force simp: sm_sizes_def sm_size_ok_def)

lemma sm_sizes_scan:
  assumes "sm_sizes s" "t \<in> set (sm_started s)" "sm_pc s t = SScan i k plist"
  shows "length (sm_dlist s t) \<le> smr_R" "i \<le> sm_num_threads s" "k < smr_K" "length plist \<le> smr_K * i + k" "i \<ge> sm_num_threads s \<Longrightarrow> k = 0"
  using bspec[OF assms(1)[unfolded sm_sizes_def] assms(2)] by (simp_all add: sm_size_ok_def assms(3))

lemma sm_sizes_scan_end:
  assumes z: "sm_sizes s" and l: "sm_lists s" and t: "t \<in> set (sm_started s)" and pc: "sm_pc s t = SScan i k plist" "i \<ge> sm_num_threads s"
  shows "sm_sizes (scan_end t plist s)"
proof -
  let ?keep = "filter (\<lambda>d. fst d \<in> set plist) (sm_dlist s t)"
  note p = sm_sizes_scan[OF z t pc(1)]
  have "distinct (map fst ?keep)" using l t by (simp add: sm_lists_def distinct_map_filter)
  moreover have "set (map fst ?keep) \<subseteq> set plist" by auto
  ultimately have "length ?keep \<le> card (set plist)"
    using card_mono[of "set plist" "set (map fst ?keep)"] distinct_card[of "map fst ?keep"] by simp
  also have "\<dots> \<le> length plist" by (rule card_length)
  also have "\<dots> \<le> 2 * 32" using p(2,4) p(5)[OF pc(2)] sm_lists_threads[OF l] by (simp add: smr_sizes)
  finally have "length ?keep < smr_R" by (simp add: smr_sizes)
  then show ?thesis by (intro sm_sizes_upd[OF z, where t = t]) (simp_all add: scan_end_eq sm_size_ok_def)
qed

lemma sm_sizes_step:
  assumes z: "sm_sizes s" and l: "sm_lists s" and t: "t \<in> set (sm_started s)"
  shows "sm_sizes (sm_step t s)"
proof (cases "sm_pc s t")
  case (SScan i k plist)
  note p = sm_sizes_scan[OF z t SScan]
  show ?thesis
  proof (cases "i < sm_num_threads s")
    case True
    then show ?thesis using SScan p unfolding sm_step_def
      by (intro sm_sizes_upd[OF z, where t = t]) (auto simp: smr_sizes sm_size_ok_def split: option.splits)
  next
    case False
    then show ?thesis using sm_sizes_scan_end[OF z l t SScan] SScan by (simp add: sm_step_def)
  qed
next
  case (SRead l n)
  then show ?thesis using bspec[OF z[unfolded sm_sizes_def] t] unfolding sm_step_def
    by (intro sm_sizes_upd[OF z, where t = t]) (simp_all add: sm_size_ok_def)
next
  case (SSet l n h)
  then show ?thesis using bspec[OF z[unfolded sm_sizes_def] t] unfolding sm_step_def
    by (intro sm_sizes_upd[OF z, where t = t]) (simp_all add: sm_size_ok_def)
next
  case (SCheck l n h)
  then show ?thesis using bspec[OF z[unfolded sm_sizes_def] t] unfolding sm_step_def
    by (intro sm_sizes_upd[OF z, where t = t]) (simp_all add: sm_size_ok_def)
qed (use z in \<open>simp_all add: sm_step_def\<close>)

lemma sm_sizes_defer_put:
  assumes z: "sm_sizes s" and l: "sm_lists s" and t: "t \<in> set (sm_started s)" "sm_pc s t = SIdle"
  shows "sm_sizes (defer_put t v alloc s)"
  using sm_sizes_idle[OF z t] sm_lists_threads[OF l] t(2) unfolding defer_put_def Let_def
  by (intro sm_sizes_upd[OF z, where t = t]) (auto simp: smr_sizes sm_size_ok_def)

lemma sm_reach_sizes: "sm_reach ordered s \<Longrightarrow> sm_sizes s"
proof (induction rule: sm_reach.induct)
  case new
  then show ?case by (simp add: sm_new_def sm_sizes_def)
next
  case (init s i)
  have l: "sm_lists (sm_init i s)" using sm_reach.init[OF init(1-4)] sm_reach_lists by blast
  have idle: "sm_pc s i = SIdle" using sm_reach_lists[OF init(1)] init(3) by (simp add: sm_lists_def)
  have n: "sm_num_threads s < smr_P" using sm_lists_threads[OF l] by (simp add: sm_init_def)
  show ?case
    unfolding sm_sizes_def
  proof
    fix u assume u: "u \<in> set (sm_started (sm_init i s))"
    show "sm_size_ok (sm_num_threads (sm_init i s)) (sm_pc (sm_init i s) u) (length (sm_dlist (sm_init i s) u))"
    proof (cases "u = i")
      case True
      then show ?thesis using idle by (simp add: sm_init_def smr_sizes sm_size_ok_def)
    next
      case False
      then have u: "u \<in> set (sm_started s)" using u by (simp add: sm_init_def)
      have "sm_size_ok (Suc (sm_num_threads s)) (sm_pc s u) (length (sm_dlist s u))"
        using bspec[OF init(5)[unfolded sm_sizes_def] u] n by (cases "sm_pc s u") (auto simp: sm_size_ok_def)
      then show ?thesis using False by (simp add: sm_init_def)
    qed
  qed
next
  case (protect s t n l)
  then show ?case using sm_sizes_idle[OF protect(5,2,3)] unfolding sm_protect_def
    by (intro sm_sizes_upd[OF protect(5), where t = t]) (simp_all add: sm_size_ok_def)
next
  case (put_off s t v alloc)
  then show ?case using sm_sizes_defer_put sm_reach_lists by blast
next
  case (step s t)
  then show ?case using sm_sizes_step sm_reach_lists by blast
qed (simp_all add: sm_sizes_def sm_release_def)


section \<open>Protection\<close>

text \<open>A node that a thread may follow is published by it and not given back; what a location has is neither put off
  nor given back; a scan has collected every node it has to keep that is held by hazard pointers it has passed.\<close>

definition sm_held :: "smr \<Rightarrow> bool" where
  "sm_held s \<longleftrightarrow> (\<forall>t n v. sm_holds s t n = Some v \<longrightarrow>
     sm_hazard s t n = Some v \<and> t \<in> set (sm_started s) \<and> n < smr_K \<and> v \<notin> set (sm_freed s))"

definition sm_current :: "smr \<Rightarrow> bool" where
  "sm_current s \<longleftrightarrow> (\<forall>l v. sm_loc s l = Some v \<longrightarrow> \<not> sm_deferred s v \<and> v \<notin> set (sm_freed s))"

definition sm_passed :: "nat \<Rightarrow> nat \<Rightarrow> nat \<Rightarrow> nat \<Rightarrow> bool" where
  "sm_passed i k t n \<longleftrightarrow> t < i \<or> t = i \<and> n < k"

definition sm_seen :: "smr \<Rightarrow> bool" where
  "sm_seen s \<longleftrightarrow> (\<forall>u i k plist t n v. u \<in> set (sm_started s) \<longrightarrow> sm_pc s u = SScan i k plist \<longrightarrow> v \<in> fst ` set (sm_dlist s u) \<longrightarrow>
     sm_holds s t n = Some v \<longrightarrow> sm_passed i k t n \<longrightarrow> v \<in> set plist)"

definition sm_try_ok :: "sm_pc \<Rightarrow> (nat \<Rightarrow> nat option) \<Rightarrow> (nat \<Rightarrow> nat option) \<Rightarrow> bool" where
  "sm_try_ok pc hazard holds \<longleftrightarrow> (case pc of
      SRead l n \<Rightarrow> n < smr_K \<and> holds n = None
    | SSet l n h \<Rightarrow> n < smr_K \<and> holds n = None
    | SCheck l n h \<Rightarrow> n < smr_K \<and> holds n = None \<and> hazard n = h
    | _ \<Rightarrow> True)"

definition sm_trying :: "smr \<Rightarrow> bool" where
  "sm_trying s \<longleftrightarrow> (\<forall>t. sm_try_ok (sm_pc s t) (sm_hazard s t) (sm_holds s t))"

definition sm_safe :: "smr \<Rightarrow> bool" where
  "sm_safe s \<longleftrightarrow> sm_held s \<and> sm_current s \<and> sm_seen s \<and> sm_trying s"

definition sm_dense :: "smr \<Rightarrow> bool" where
  "sm_dense s \<longleftrightarrow> set (sm_started s) = {..<sm_num_threads s}"

lemmas sm_safe_defs = sm_held_def sm_current_def sm_seen_def sm_trying_def

lemma sm_try_idle [simp]: "sm_try_ok SIdle hz ho" "sm_try_ok SFail hz ho" "sm_try_ok (SScan i k pl) hz ho"
  by (simp_all add: sm_try_ok_def)

lemma sm_passed_next:
  assumes "k < smr_K" "n < smr_K"
  shows "sm_passed (if k + 1 < smr_K then i else i + 1) (if k + 1 < smr_K then k + 1 else 0) t n \<longleftrightarrow> sm_passed i k t n \<or> (t = i \<and> n = k)"
  using assms by (auto simp: sm_passed_def)

lemma sm_try_at:
  assumes "sm_safe s"
  shows "sm_pc s t = SRead l n \<Longrightarrow> n < smr_K \<and> sm_holds s t n = None" "sm_pc s t = SSet l n h \<Longrightarrow> n < smr_K \<and> sm_holds s t n = None"
    "sm_pc s t = SCheck l n h \<Longrightarrow> n < smr_K \<and> sm_holds s t n = None \<and> sm_hazard s t n = h"
  using assms[unfolded sm_safe_def sm_trying_def, THEN conjunct2, THEN conjunct2, THEN conjunct2, rule_format, of t]
  by (simp_all add: sm_try_ok_def)

text \<open>A thread may let go of a hazard pointer at any time.\<close>

lemma sm_safe_let_go:
  assumes "sm_safe s" "sm_started s' = sm_started s" "sm_loc s' = sm_loc s" "sm_dlist s' = sm_dlist s" "sm_freed s' = sm_freed s"
    and "sm_holds s' = (sm_holds s)(t := (sm_holds s t)(n := None))"
    and "\<And>u m. (u, m) \<noteq> (t, n) \<Longrightarrow> sm_hazard s' u m = sm_hazard s u m" "\<And>u. u \<noteq> t \<Longrightarrow> sm_pc s' u = sm_pc s u"
    and "sm_try_ok (sm_pc s' t) (sm_hazard s' t) (sm_holds s' t)"
    and "\<And>i k pl. sm_pc s' t \<noteq> SScan i k pl"
  shows "sm_safe s'"
proof -
  have df: "sm_deferred s' = sm_deferred s" using assms(2,4) by (simp add: sm_deferred_def fun_eq_iff)
  have h: "sm_holds s' u m = Some v \<Longrightarrow> sm_holds s u m = Some v \<and> (u, m) \<noteq> (t, n)" for u m v
    using assms(6) by (auto split: if_splits)
  have "sm_held s'" using assms(1,2,5,7) h unfolding sm_safe_def sm_held_def by metis
  moreover have "sm_current s'" using assms(1,3,5) df by (simp add: sm_safe_def sm_current_def)
  moreover have "sm_seen s'"
    unfolding sm_seen_def
  proof (intro allI impI)
    fix u i k pl t' n' v
    assume a: "u \<in> set (sm_started s')" "sm_pc s' u = SScan i k pl" "v \<in> fst ` set (sm_dlist s' u)" "sm_holds s' t' n' = Some v" "sm_passed i k t' n'"
    then have "u \<noteq> t" using assms(10) by blast
    then have "sm_pc s u = SScan i k pl" using a(2) assms(8) by simp
    moreover have "sm_seen s" using assms(1) by (simp add: sm_safe_def)
    ultimately show "v \<in> set pl" using a(1,3,5) h[OF a(4)] assms(2,4) unfolding sm_seen_def by metis
  qed
  moreover have "sm_trying s'"
    unfolding sm_trying_def
  proof
    fix u
    show "sm_try_ok (sm_pc s' u) (sm_hazard s' u) (sm_holds s' u)"
    proof (cases "u = t")
      case False
      then have "sm_hazard s' u = sm_hazard s u" "sm_holds s' u = sm_holds s u" "sm_pc s' u = sm_pc s u"
        using assms(6,7,8) by (auto simp: fun_eq_iff)
      then show ?thesis using assms(1) by (simp add: sm_safe_def sm_trying_def)
    qed (use assms(9) in simp)
  qed
  ultimately show ?thesis by (simp add: sm_safe_def)
qed

text \<open>What a location has after it was published is safe to follow.\<close>

lemma sm_safe_told:
  assumes s: "sm_safe s" and t: "t \<in> set (sm_started s)" and pc: "sm_pc s t = SCheck l n h" and h: "sm_loc s l = h"
  shows "sm_safe (sm_go t SIdle (sm_told t n h s))"
proof -
  let ?s = "sm_go t SIdle (sm_told t n h s)"
  have tr: "n < smr_K" "sm_hazard s t n = h"
    using sm_try_at(3)[OF s pc] by simp_all
  have cur: "v \<notin> set (sm_freed s)" "\<not> sm_deferred s v" if "h = Some v" for v
    using s h that unfolding sm_safe_def sm_current_def by blast+
  have "sm_held ?s" using s t tr cur unfolding sm_safe_def sm_held_def by auto
  moreover have "sm_current ?s" using s by (simp add: sm_safe_def sm_current_def)
  moreover have "sm_seen ?s"
    unfolding sm_seen_def
  proof (intro allI impI)
    fix u i k pl t' n' v
    assume a: "u \<in> set (sm_started ?s)" "sm_pc ?s u = SScan i k pl" "v \<in> fst ` set (sm_dlist ?s u)" "sm_holds ?s t' n' = Some v" "sm_passed i k t' n'"
    then have u: "sm_pc s u = SScan i k pl" "sm_deferred s v" by (auto simp: sm_deferred_def split: if_splits)
    then have "sm_holds s t' n' = Some v" using a(4) cur(2)[of v] by (auto split: if_splits)
    then show "v \<in> set pl" using s u a unfolding sm_safe_def sm_seen_def by (simp, blast?)
  qed
  moreover have "sm_trying ?s"
    using s unfolding sm_safe_def sm_trying_def by simp
  ultimately show ?thesis by (simp add: sm_safe_def)
qed

lemma sm_safe_scan_step:
  assumes s: "sm_safe s" and pc: "sm_pc s t = SScan i k pl" and k: "k < smr_K"
  shows "sm_safe (sm_go t (SScan (if k + 1 < smr_K then i else i + 1) (if k + 1 < smr_K then k + 1 else 0)
    (case sm_hazard s i k of None \<Rightarrow> pl | Some h \<Rightarrow> pl @ [h])) s)" (is "sm_safe (sm_go t (SScan ?i ?k ?pl) s)")
proof -
  have "sm_seen (sm_go t (SScan ?i ?k ?pl) s)"
    unfolding sm_seen_def
  proof (intro allI impI)
    fix u i' k' pl' t' n' v
    assume a: "u \<in> set (sm_started (sm_go t (SScan ?i ?k ?pl) s))" "sm_pc (sm_go t (SScan ?i ?k ?pl) s) u = SScan i' k' pl'"
      "v \<in> fst ` set (sm_dlist (sm_go t (SScan ?i ?k ?pl) s) u)" "sm_holds (sm_go t (SScan ?i ?k ?pl) s) t' n' = Some v" "sm_passed i' k' t' n'"
    have hz: "sm_hazard s t' n' = Some v" "n' < smr_K" using s a(4) unfolding sm_safe_def sm_held_def by auto
    have seen: "\<And>i k pl. sm_pc s u = SScan i k pl \<Longrightarrow> sm_passed i k t' n' \<Longrightarrow> v \<in> set pl"
      using s a(1,3,4) unfolding sm_safe_def sm_seen_def by (simp, blast?)
    show "v \<in> set pl'"
    proof (cases "u = t")
      case True
      then have e: "i' = ?i" "k' = ?k" "pl' = ?pl" using a(2) by simp_all
      have "sm_passed i k t' n' \<or> t' = i \<and> n' = k" using a(5) sm_passed_next[OF k hz(2)] unfolding e by blast
      then show ?thesis using seen[of i k pl] pc True hz(1) unfolding e by (auto split: option.splits)
    next
      case False
      then show ?thesis using seen a(2,5) by simp
    qed
  qed
  then show ?thesis using s by (simp add: sm_safe_def sm_held_def sm_current_def sm_trying_def)
qed

text \<open>A whole scan keeps whatever is held.\<close>

lemma sm_safe_scan_end:
  assumes s: "sm_safe s" and l: "sm_lists s" and t: "t \<in> set (sm_started s)" and d: "sm_dense s"
    and pc: "sm_pc s t = SScan i k pl" "sm_num_threads s \<le> i"
  shows "sm_safe (scan_end t pl s)"
proof -
  have held: "v \<in> set pl" if "sm_holds s t' n' = Some v" "v \<in> fst ` set (sm_dlist s t)" for t' n' v
  proof -
    have "t' \<in> set (sm_started s)" using s that(1) unfolding sm_safe_def sm_held_def by blast
    then have "sm_passed i k t' n'" using d pc(2) by (auto simp: sm_dense_def sm_passed_def)
    then show ?thesis using s t pc(1) that unfolding sm_safe_def sm_seen_def by blast
  qed
  have df: "sm_deferred (scan_end t pl s) v \<Longrightarrow> sm_deferred s v" for v
    by (auto simp: sm_deferred_def scan_end_eq split: if_splits)
  have "sm_held (scan_end t pl s)"
    using s held unfolding sm_safe_def sm_held_def by (force simp: scan_end_eq)
  moreover have "sm_current (scan_end t pl s)"
    unfolding sm_current_def
  proof (intro allI impI conjI)
    fix l v assume "sm_loc (scan_end t pl s) l = Some v"
    then have c: "\<not> sm_deferred s v" "v \<notin> set (sm_freed s)" using s by (auto simp: scan_end_eq sm_safe_def sm_current_def)
    show "\<not> sm_deferred (scan_end t pl s) v" using c(1) df by blast
    have "v \<notin> fst ` set (sm_dlist s t)" using c(1) t by (auto simp: sm_deferred_def)
    then show "v \<notin> set (sm_freed (scan_end t pl s))" using c(2) by (auto simp: scan_end_eq)
  qed
  moreover have "sm_seen (scan_end t pl s)"
    unfolding sm_seen_def
  proof (intro allI impI)
    fix u i' k' pl' t' n' v
    assume a: "u \<in> set (sm_started (scan_end t pl s))" "sm_pc (scan_end t pl s) u = SScan i' k' pl'"
      "v \<in> fst ` set (sm_dlist (scan_end t pl s) u)" "sm_holds (scan_end t pl s) t' n' = Some v" "sm_passed i' k' t' n'"
    then have "u \<noteq> t" by (auto simp: scan_end_eq split: if_splits)
    then show "v \<in> set pl'" using s a unfolding sm_safe_def sm_seen_def by (simp add: scan_end_eq, blast?)
  qed
  moreover have "sm_trying (scan_end t pl s)" using s by (simp add: sm_safe_def sm_trying_def scan_end_eq)
  ultimately show ?thesis by (simp add: sm_safe_def)
qed

lemma sm_safe_step:
  assumes s: "sm_safe s" and l: "sm_lists s" and z: "sm_sizes s" and t: "t \<in> set (sm_started s)" and d: "sm_dense s"
  shows "sm_safe (sm_step t s)"
proof (cases "sm_pc s t")
  case (SRead loc n)
  have "sm_holds s t n = None" "n < smr_K" using sm_try_at(1)[OF s SRead] by simp_all
  then show ?thesis using SRead unfolding sm_step_def
    by (intro sm_safe_let_go[OF s, where t = t and n = n]) (auto simp: sm_try_ok_def fun_eq_iff)
next
  case (SSet loc n h)
  have "sm_holds s t n = None" "n < smr_K" using sm_try_at(2)[OF s SSet] by simp_all
  then show ?thesis using SSet unfolding sm_step_def
    by (intro sm_safe_let_go[OF s, where t = t and n = n]) (auto simp: sm_try_ok_def fun_eq_iff)
next
  case (SCheck loc n h)
  have h: "sm_holds s t n = None" "n < smr_K" using sm_try_at(3)[OF s SCheck] by simp_all
  show ?thesis
  proof (cases "sm_loc s loc = h")
    case True
    then show ?thesis using sm_safe_told[OF s t SCheck True] SCheck by (simp add: sm_step_def)
  next
    case False
    then show ?thesis using SCheck h unfolding sm_step_def
      by (intro sm_safe_let_go[OF s, where t = t and n = n]) (auto simp: sm_try_ok_def fun_eq_iff)
  qed
next
  case (SScan i k pl)
  then show ?thesis
    using sm_safe_scan_step[OF s SScan sm_sizes_scan(3)[OF z t SScan]] sm_safe_scan_end[OF s l t d SScan]
    by (auto simp: sm_step_def)
qed (use s in \<open>simp_all add: sm_step_def\<close>)

lemma sm_step_threads: "sm_started (sm_step t s) = sm_started s" "sm_num_threads (sm_step t s) = sm_num_threads s"
  by (cases "sm_pc s t"; simp add: sm_step_def scan_end_eq)+

lemma sm_reach_dense: "sm_reach ordered s \<Longrightarrow> ordered \<Longrightarrow> sm_dense s"
  by (induction rule: sm_reach.induct)
    (simp_all add: sm_dense_def sm_new_def sm_init_def sm_protect_def sm_release_def defer_put_def Let_def sm_step_threads lessThan_Suc)

lemma sm_safe_init: "sm_safe s \<Longrightarrow> sm_lists s \<Longrightarrow> i \<notin> set (sm_started s) \<Longrightarrow> sm_safe (sm_init i s)"
proof -
  assume s: "sm_safe s" "sm_lists s" "i \<notin> set (sm_started s)"
  have df: "sm_deferred (sm_init i s) v \<Longrightarrow> sm_deferred s v" for v
    by (auto simp: sm_deferred_def sm_init_def split: if_splits)
  have "sm_seen (sm_init i s)"
    unfolding sm_seen_def
  proof (intro allI impI)
    fix u k j pl t n v
    assume a: "u \<in> set (sm_started (sm_init i s))" "sm_pc (sm_init i s) u = SScan k j pl" "v \<in> fst ` set (sm_dlist (sm_init i s) u)"
      "sm_holds (sm_init i s) t n = Some v" "sm_passed k j t n"
    then have "u \<noteq> i" by (auto simp: sm_init_def)
    then show "v \<in> set pl" using s(1) a unfolding sm_safe_def sm_seen_def by (simp add: sm_init_def, blast?)
  qed
  moreover have "sm_held (sm_init i s)" using s(1) by (simp add: sm_safe_def sm_held_def sm_init_def)
  moreover have "sm_current (sm_init i s)"
    using s(1) df unfolding sm_safe_def sm_current_def by (auto simp: sm_init_def)
  moreover have "sm_trying (sm_init i s)" using s(1) by (simp add: sm_safe_def sm_trying_def sm_init_def)
  ultimately show ?thesis by (simp add: sm_safe_def)
qed

lemma sm_safe_defer_put:
  assumes s: "sm_safe s" and pc: "sm_pc s t = SIdle" and v: "\<forall>l. sm_loc s l \<noteq> Some v" "v \<notin> set (sm_freed s)"
  shows "sm_safe (defer_put t v alloc s)"
proof -
  define s' where "s' = defer_put t v alloc s"
  have e: "sm_started s' = sm_started s" "sm_loc s' = sm_loc s" "sm_holds s' = sm_holds s" "sm_hazard s' = sm_hazard s" "sm_freed s' = sm_freed s"
    "\<And>u. u \<noteq> t \<Longrightarrow> sm_pc s' u = sm_pc s u" "\<And>u. u \<noteq> t \<Longrightarrow> sm_dlist s' u = sm_dlist s u"
    "sm_dlist s' t = sm_dlist s t @ [(v, alloc)]" "sm_pc s' t \<in> {SIdle, SFail, SScan 0 0 []}"
    using pc by (auto simp: s'_def defer_put_def Let_def)
  have df: "sm_deferred s' x \<Longrightarrow> sm_deferred s x \<or> x = v" for x
  proof -
    assume "sm_deferred s' x"
    then obtain u where u: "u \<in> set (sm_started s)" "x \<in> fst ` set (sm_dlist s' u)" using e(1) by (auto simp: sm_deferred_def)
    then show ?thesis using e(7,8) by (cases "u = t") (auto simp: sm_deferred_def)
  qed
  have "sm_held s'" using s e by (simp add: sm_safe_def sm_held_def)
  moreover have "sm_current s'" using s e(2,5) df v unfolding sm_safe_def sm_current_def by metis
  moreover have "sm_seen s'"
    unfolding sm_seen_def
  proof (intro allI impI)
    fix u i k pl t' n x
    assume a: "u \<in> set (sm_started s')" "sm_pc s' u = SScan i k pl" "x \<in> fst ` set (sm_dlist s' u)" "sm_holds s' t' n = Some x" "sm_passed i k t' n"
    have "u \<noteq> t"
    proof
      assume "u = t"
      then have "i = 0" "k = 0" using a(2) e(9) by auto
      then show False using a(5) by (simp add: sm_passed_def)
    qed
    then show "x \<in> set pl" using s a e unfolding sm_safe_def sm_seen_def by (simp, blast?)
  qed
  moreover have "sm_trying s'"
    unfolding sm_trying_def
  proof
    fix u
    show "sm_try_ok (sm_pc s' u) (sm_hazard s' u) (sm_holds s' u)"
      using s e(3,4) e(6)[of u] e(9) unfolding sm_safe_def sm_trying_def by (cases "u = t") auto
  qed
  ultimately show ?thesis unfolding s'_def by (simp add: sm_safe_def)
qed

lemma sm_reach_safe: "sm_reach ordered s \<Longrightarrow> ordered \<Longrightarrow> sm_safe s"
proof (induction rule: sm_reach.induct)
  case new
  then show ?case by (simp add: sm_new_def sm_safe_def sm_safe_defs)
next
  case (init s i)
  then show ?case using sm_safe_init sm_reach_lists by blast
next
  case (protect s t n l)
  then have s: "sm_safe s" by blast
  show ?case unfolding sm_protect_def
    by (rule sm_safe_let_go[OF s, where t = t and n = n]) (auto simp: sm_try_ok_def protect(4))
next
  case (release s t n)
  then have s: "sm_safe s" by blast
  show ?case unfolding sm_release_def
    by (rule sm_safe_let_go[OF s, where t = t and n = n]) (auto simp: release(3))
next
  case (publish s p l)
  then show ?case
    by (auto simp: sm_safe_def sm_safe_defs split: if_splits)
next
  case (put_off s t v alloc)
  then show ?case using sm_safe_defer_put by blast
next
  case (alloc s v)
  then show ?case by (simp add: sm_safe_def sm_safe_defs)
next
  case (step s t)
  then show ?case using sm_safe_step sm_reach_lists sm_reach_sizes sm_reach_dense by blast
qed


text \<open>A thread that holds a node that another one has put off.\<close>

definition held_state :: "nat \<Rightarrow> nat \<Rightarrow> nat \<Rightarrow> sm_pc \<Rightarrow> nat list \<Rightarrow> smr" where
  "held_state i j m pc freed = \<lparr> sm_num_threads = 2, sm_started = [j, i], sm_hazard = (\<lambda>_ _. None)(i := (\<lambda>_. None)(0 := Some 0)),
     sm_loc = \<lambda>_. None, sm_dlist = (\<lambda>_. [])(j := map (\<lambda>v. (v, 0)) [0..<m]), sm_freed = freed, sm_pc = (\<lambda>_. SIdle)(j := pc),
     sm_holds = (\<lambda>_ _. None)(i := (\<lambda>_. None)(0 := Some 0)) \<rparr>"

lemma held_state_start:
  assumes "i < smr_P" "j < smr_P" "i \<noteq> j" "ordered \<Longrightarrow> i = 0 \<and> j = 1"
  shows "sm_reach ordered (held_state i j 0 SIdle [])"
proof -
  let ?a = "sm_init j (sm_init i sm_new)"
  let ?b = "?a\<lparr> sm_loc := (sm_loc ?a)(0 := Some 0) \<rparr>"
  let ?c = "sm_step i (sm_step i (sm_step i (sm_protect i 0 0 ?b)))"
  have "sm_reach ordered ?a"
    by (intro sm_reach.init sm_reach.new) (use assms in \<open>auto simp: sm_init_def sm_new_def\<close>)
  then have "sm_reach ordered ?b"
    by (rule sm_reach.publish) (auto simp: sm_init_def sm_new_def sm_deferred_def)
  then have "sm_reach ordered (sm_protect i 0 0 ?b)"
    by (rule sm_reach.protect) (auto simp: sm_init_def sm_new_def smr_sizes)
  then have "sm_reach ordered ?c"
    by (intro sm_reach.step) (simp_all add: sm_init_def sm_new_def sm_protect_def sm_step_def)
  then have "sm_reach ordered (?c\<lparr> sm_loc := (sm_loc ?c)(0 := None) \<rparr>)"
    by (rule sm_reach.publish) simp
  moreover have "?c\<lparr> sm_loc := (sm_loc ?c)(0 := None) \<rparr> = held_state i j 0 SIdle []"
    using assms(3) by (simp add: sm_init_def sm_new_def sm_protect_def sm_step_def held_state_def sm_go_def sm_set_def sm_told_def fun_eq_iff)
  ultimately show ?thesis by simp
qed

lemma held_state_put_off:
  assumes "sm_reach ordered (held_state i j 0 SIdle [])" "m < smr_R"
  shows "sm_reach ordered (held_state i j m SIdle [])"
  using assms(2)
proof (induction m)
  case (Suc m)
  have "sm_reach ordered (defer_put j m 0 (held_state i j m SIdle []))"
    by (rule sm_reach.put_off) (use Suc in \<open>auto simp: held_state_def sm_deferred_def split: if_splits\<close>)
  moreover have "defer_put j m 0 (held_state i j m SIdle []) = held_state i j (Suc m) SIdle []"
    using Suc.prems by (simp add: defer_put_def held_state_def)
  ultimately show ?case by simp
qed (use assms(1) in simp)

lemma held_state_scan:
  assumes "sm_reach ordered (held_state i j 0 SIdle [])"
  shows "sm_reach ordered (held_state i j smr_R (SScan 0 0 []) [])"
proof -
  have "sm_reach ordered (held_state i j (smr_R - 1) SIdle [])" by (rule held_state_put_off[OF assms]) (simp add: smr_sizes)
  then have "sm_reach ordered (defer_put j (smr_R - 1) 0 (held_state i j (smr_R - 1) SIdle []))"
    by (rule sm_reach.put_off) (auto simp: held_state_def sm_deferred_def split: if_splits)
  moreover have "[0..<smr_R] = [0..<smr_R - 1] @ [smr_R - 1]" by (simp add: smr_sizes upt_rec)
  then have "defer_put j (smr_R - 1) 0 (held_state i j (smr_R - 1) SIdle []) = held_state i j smr_R (SScan 0 0 []) []"
    by (simp add: defer_put_def held_state_def sm_go_def smr_P_def) (simp add: smr_sizes)
  ultimately show ?thesis by simp
qed


text \<open>Whatever the order in which the threads count themselves in, the list of a thread never holds more than its 128
  entries, and the program fails in the assertion on the number of threads only when all 32 are in use.\<close>

theorem smr_list_bounds:
  assumes "sm_reach ordered s" "u \<in> set (sm_started s)"
  shows "length (sm_dlist s u) \<le> 128 \<and> (sm_pc s u = SIdle \<longrightarrow> length (sm_dlist s u) < 128) \<and> (sm_pc s u = SFail \<longrightarrow> sm_num_threads s = 32)"
proof -
  have "sm_size_ok (sm_num_threads s) (sm_pc s u) (length (sm_dlist s u))"
    using sm_reach_sizes[OF assms(1)] assms(2) by (simp add: sm_sizes_def)
  then show ?thesis by (cases "sm_pc s u") (simp_all add: sm_size_ok_def smr_sizes)
qed

lemma smr_list_bounds_witness:
  "length (sm_dlist (held_state 0 1 smr_R (SScan 0 0 []) []) 1) = 128 \<and> length (sm_dlist (held_state 0 1 smr_R (SScan 0 0 []) []) 1) \<le> 128"
proof -
  have r: "sm_reach True (held_state 0 1 smr_R (SScan 0 0 []) [])"
    by (intro held_state_scan held_state_start) (simp_all add: smr_sizes)
  have "1 \<in> set (sm_started (held_state 0 1 smr_R (SScan 0 0 []) []))" by (simp add: held_state_def)
  moreover have "length (sm_dlist (held_state 0 1 smr_R (SScan 0 0 []) []) 1) = 128" by (simp add: held_state_def smr_sizes)
  ultimately show ?thesis using smr_list_bounds[OF r, of 1] by simp
qed

text \<open>C40: A thread counts itself in when it starts, not when it is numbered: while thread 1 has not started, the hazard
  pointers of thread 2 are beyond the number of threads, a scan of thread 0 does not look at them, and it gives
  back a node that thread 2 has been told it can follow.\<close>

theorem smr_frees_protected:
  "\<exists>s. sm_reach False s \<and> sm_holds s 2 0 = Some 0 \<and> sm_hazard s 2 0 = Some 0 \<and> 0 \<in> set (sm_freed s)"
proof -
  let ?a = "held_state 2 0 smr_R (SScan 0 0 []) []"
  let ?d = "sm_step 0 (sm_step 0 (sm_step 0 (sm_step 0 ?a)))"
  have s1: "sm_step 0 (held_state 2 0 smr_R (SScan 0 0 []) []) = held_state 2 0 smr_R (SScan 0 1 []) []"
    "sm_step 0 (held_state 2 0 smr_R (SScan 0 1 []) []) = held_state 2 0 smr_R (SScan 1 0 []) []"
    "sm_step 0 (held_state 2 0 smr_R (SScan 1 0 []) []) = held_state 2 0 smr_R (SScan 1 1 []) []"
    "sm_step 0 (held_state 2 0 smr_R (SScan 1 1 []) []) = held_state 2 0 smr_R (SScan 2 0 []) []"
    by (simp_all add: held_state_def sm_step_def sm_go_def smr_K_def numeral_2_eq_2)
  have "sm_reach False ?a"
    by (intro held_state_scan held_state_start) (simp_all add: smr_sizes)
  then have "sm_reach False (sm_step 0 ?d)"
    by (intro sm_reach.step) (simp_all add: sm_step_threads, simp_all add: held_state_def)
  moreover have "sm_step 0 ?d = scan_end 0 [] (held_state 2 0 smr_R (SScan 2 0 []) [])"
    unfolding s1 by (simp add: held_state_def sm_step_def)
  ultimately have r: "sm_reach False (scan_end 0 [] (held_state 2 0 smr_R (SScan 2 0 []) []))" by simp
  have "0 \<in> set (sm_freed (scan_end 0 [] (held_state 2 0 smr_R (SScan 2 0 []) [])))"
    by (simp add: scan_end_eq held_state_def image_image smr_sizes)
  moreover have "sm_holds (scan_end 0 [] (held_state 2 0 smr_R (SScan 2 0 []) [])) 2 0 = Some 0"
    "sm_hazard (scan_end 0 [] (held_state 2 0 smr_R (SScan 2 0 []) [])) 2 0 = Some 0"
    by (simp_all add: scan_end_eq held_state_def)
  ultimately show ?thesis using r by blast
qed
end
