(* ===== verification/Spec2Isabelle.thy ===== *)
theory Spec2Isabelle
  imports LinkedList Sharing Progress XmlProps WorkStealing LockfreeExclusive LockfreeMap LockfreeProgress LockfreePool LockfreeReadWrite IOShim HazardPointers
begin

text \<open>
  A verification development for the C++ runtime of OFlux (src/src/runtime), the library that runs
  programs of an event-based flow language.

  The program.  A compiler (OCaml, not modelled) turns a flow program into an XML file and C++ glue.
  The runtime reads the XML into a flow: nodes with ordered successor lists, guards, plugin libraries.
  An event is one execution of a node.  When it has run, its outputs select successor nodes, an event
  is made of each, and an event may go to the run queue once it holds every guard it asks for; an event
  that must wait is kept by the guard's atomic and handed on when the holder releases it.  Guards are
  maps from keys to atomics and carry magic numbers, the order in which an event acquires them.  Two
  runtimes execute the queue: the classic one (threads under one lock) and the lock-free one (a
  work-stealing deque per thread, lock-free atomics and guard maps).

  Which theory models which part (paths under src/src/runtime).
  \<^item> \<open>Prelude\<close>: faults, the result type of operations that may fail, generic lemmas.
  \<^item> \<open>Wrappers\<close>: OFluxWrappers.h and OFluxWatermark.h, the counters and the condition variable with
    its skip flag; \<open>EventQueue\<close>: OFluxQueue.*, the run queue (locale \<open>run_queue\<close> and its
    interpretation); \<open>LinkedList\<close>: OFluxLinkedList.h over an explicit heap, with the abstraction to a
    sequence; \<open>Sharing\<close>: OFluxSharedPtr.h and OFluxScatterGather.h, pointer rings and counters.
  \<^item> \<open>Atomics\<close>: atomic/OFluxAtomic.*, exclusive, read/write and free atomics; \<open>Guards\<close>: the guard maps,
    pools, walkers and flow/OFluxFlowGuard.*; \<open>Holder\<close>: atomic/OFluxAtomicHolder.*, the keys an event
    holds, their order, acquisition and release.
  \<^item> \<open>StdMap\<close>, \<open>Orderable\<close>: the ordered map the code takes from the standard library, and
    OFluxOrderable.*, the topological numbering of guards.
  \<^item> \<open>FlowGraph\<close>, \<open>Flow\<close>: flow/OFluxFlowCase.*, OFluxFlowNode.*, OFluxFlowNodeIncr.*, OFluxFlow.*.
  \<^item> \<open>EventOps\<close>: event/OFluxEventBase.*, OFluxEventOperations.cpp and OFluxEarlyRelease.cpp;
    \<open>EventFrames\<close>: these operations leave the state of the runtime alone; \<open>RunTime\<close> and \<open>Progress\<close>:
    OFluxRunTime.*, OFluxMeldingRunTime.cpp, one step relation for all threads, its invariant, and what
    follows for limits, exclusion, progress and reloading.
  \<^item> \<open>Lookups\<close>, \<open>Config\<close>: flow/OFluxFlowFunctions.*, OFluxFlowLibrary.*, OFluxConfiguration.*,
    OFluxRunTimeBase.cpp; \<open>XmlReader\<close>, \<open>XmlProps\<close>: xml/OFluxXML.cpp as a stack machine over the events
    of the XML parser.
  \<^item> \<open>WorkStealing\<close>: lockfree/OFluxWorkStealingDeque.h, every shared access a step;
    \<open>LockfreeExclusive\<close>: lockfree/atomic/OFluxLFAtomic.*, likewise; \<open>HashTable\<close>, \<open>HashTableInv\<close>,
    \<open>HashTableMap\<close>: lockfree/atomic/OFluxLFHashTable.h, its invariant and its refinement of a map;
    \<open>LockfreeMap\<close>: lockfree/atomic/OFluxLFAtomicMaps.h.
\<close>

end
